(* ===== verification/Prelude.thy ===== *)
theory Prelude
  imports Complex_Main "HOL-Library.AList" "HOL-Library.Sublist"
begin

text \<open>
  What every component of the development shares:
  \<^item> Python \<open>dict\<close> values as association lists in insertion order (\<open>AList.update\<close>
    replaces in place or appends, as \<open>d[k] = v\<close> does), with the few lookup laws used;
  \<^item> the product of an integer and a double, truncated by \<open>int(...)\<close>, computed exactly
    (round half to even on 53 significant bits), with the error bound the budget proofs need;
  \<^item> Python's \<open>int(s)\<close> and string helpers on Latin-1 text (a \<open>char\<close> is the code
    point 0 to 255);
  \<^item> the locale \<open>guarded_machine\<close>: a state machine whose admissible steps keep an
    invariant keeps it along every admissible run.
\<close>

named_theorems model_simps \<open>equations that compute the small accessors of a component\<close>

subsection \<open>Python dictionaries\<close>

type_synonym ('k, 'v) dict = "('k \<times> 'v) list"

definition dict_wf :: "('k, 'v) dict \<Rightarrow> bool" where
  "dict_wf d \<longleftrightarrow> distinct (map fst d)"

definition dict_get :: "('k, 'v) dict \<Rightarrow> 'k \<Rightarrow> 'v option" where
  "dict_get d k = map_of d k"

definition dict_put :: "'k \<Rightarrow> 'v \<Rightarrow> ('k, 'v) dict \<Rightarrow> ('k, 'v) dict" where
  "dict_put k v d = AList.update k v d"

definition dict_del :: "'k \<Rightarrow> ('k, 'v) dict \<Rightarrow> ('k, 'v) dict" where
  "dict_del k d = AList.delete k d"

lemma dict_get_put [simp]: "dict_get (dict_put k v d) j = (if j = k then Some v else dict_get d j)"
  by (simp add: dict_get_def dict_put_def update_conv')

lemma dict_get_del [simp]: "dict_get (dict_del k d) j = (if j = k then None else dict_get d j)"
  by (simp add: dict_get_def dict_del_def delete_conv')

lemma dict_wf_put [intro]: "dict_wf d \<Longrightarrow> dict_wf (dict_put k v d)"
  by (simp add: dict_wf_def dict_put_def distinct_update)

lemma dict_wf_del [intro]: "dict_wf d \<Longrightarrow> dict_wf (dict_del k d)"
  by (simp add: dict_wf_def dict_del_def distinct_delete)

lemma dict_wf_Nil [simp]: "dict_wf []"
  by (simp add: dict_wf_def)

lemma dict_get_Nil [simp]: "dict_get [] k = None"
  by (simp add: dict_get_def)

lemma keys_dict_put: "fst ` set (dict_put k v d) = insert k (fst ` set d)"
  by (simp add: dict_put_def dom_update)

lemma map_fst_dict_put:
  "map fst (dict_put k v d) = (if k \<in> fst ` set d then map fst d else map fst d @ [k])"
  by (simp add: dict_put_def update_keys)

lemma dict_get_in: "dict_get d k = Some v \<Longrightarrow> (k, v) \<in> set d"
  by (simp add: dict_get_def map_of_SomeD)

lemma dict_get_None: "dict_get d k = None \<longleftrightarrow> k \<notin> fst ` set d"
  by (simp add: dict_get_def map_of_eq_None_iff)

lemma dict_get_key: "dict_get d k = Some v \<Longrightarrow> k \<in> fst ` set d"
  using dict_get_None [of d k] by simp

lemma dict_key_get: "k \<in> fst ` set d \<Longrightarrow> \<exists>v. dict_get d k = Some v"
  using dict_get_None [of d k] by auto

lemma dict_in_get: "dict_wf d \<Longrightarrow> (k, v) \<in> set d \<Longrightarrow> dict_get d k = Some v"
  by (simp add: dict_get_def dict_wf_def)

lemma dict_get_iff: "dict_wf d \<Longrightarrow> dict_get d k = Some v \<longleftrightarrow> (k, v) \<in> set d"
  by (auto intro: dict_in_get dict_get_in)

text \<open>The sum of a measure over the entries, and what storing one entry does to it.\<close>

definition dict_sum :: "('k \<Rightarrow> 'v \<Rightarrow> int) \<Rightarrow> ('k, 'v) dict \<Rightarrow> int" where
  "dict_sum f d = (\<Sum>kv \<leftarrow> d. f (fst kv) (snd kv))"

lemma dict_sum_Nil [simp]: "dict_sum f [] = 0"
  by (simp add: dict_sum_def)

lemma dict_sum_put:
  "dict_get d k = Some a \<Longrightarrow> dict_sum f (dict_put k v d) = dict_sum f d - f k a + f k v"
  by (induction d) (auto simp: dict_sum_def dict_put_def dict_get_def split: if_splits)

lemma dict_sum_put_new:
  "dict_get d k = None \<Longrightarrow> dict_sum f (dict_put k v d) = dict_sum f d + f k v"
  by (induction d) (auto simp: dict_sum_def dict_put_def dict_get_def split: if_splits)

lemma dict_sum_cong:
  "(\<And>k v. (k, v) \<in> set d \<Longrightarrow> f k v = g k v) \<Longrightarrow> dict_sum f d = dict_sum g d"
  unfolding dict_sum_def by (rule arg_cong [where f = sum_list], rule map_cong) auto

lemma dict_sum_change:
  assumes "dict_wf d" and "dict_get d k = Some a"
    and "\<And>j v. j \<noteq> k \<Longrightarrow> f j v = g j v"
  shows "dict_sum g d = dict_sum f d - f k a + g k a"
  using assms
proof (induction d)
  case (Cons e d)
  obtain j v where e: "e = (j, v)" by (cases e)
  show ?case
  proof (cases "j = k")
    case True
    with Cons.prems e have "v = a" and "k \<notin> fst ` set d"
      by (auto simp: dict_get_def dict_wf_def)
    moreover from this(2) have "dict_sum g d = dict_sum f d"
      by (intro dict_sum_cong) (metis Cons.prems(3) fst_conv image_eqI)
    ultimately show ?thesis by (simp add: e True dict_sum_def)
  next
    case False
    with Cons.prems e have "dict_wf d" and "dict_get d k = Some a" and "f j v = g j v"
      by (auto simp: dict_get_def dict_wf_def)
    with Cons.IH Cons.prems(3) have "dict_sum g d = dict_sum f d - f k a + g k a" by blast
    with \<open>f j v = g j v\<close> show ?thesis by (simp add: e dict_sum_def)
  qed
qed (simp add: dict_get_def)

lemma dict_sum_mono:
  "(\<And>k v. (k, v) \<in> set d \<Longrightarrow> f k v \<le> g k v) \<Longrightarrow> dict_sum f d \<le> dict_sum g d"
  unfolding dict_sum_def by (rule sum_list_mono) auto

lemma dict_sum_ge:
  assumes "dict_wf d" and "dict_get d k = Some a"
    and "\<And>j b. dict_get d j = Some b \<Longrightarrow> 0 \<le> f j b"
  shows "f k a \<le> dict_sum f d"
proof -
  let ?g = "\<lambda>j b. if j = k then f j b else (0::int)"
  have "dict_sum ?g d = dict_sum (\<lambda>_ _. 0) d - 0 + ?g k a"
    by (rule dict_sum_change [OF assms(1,2)]) simp
  also have "dict_sum (\<lambda>_ _. 0) d = 0" by (simp add: dict_sum_def)
  finally have "dict_sum ?g d = f k a" by simp
  moreover have "dict_sum ?g d \<le> dict_sum f d"
    by (rule dict_sum_mono) (simp add: assms(3) dict_in_get [OF assms(1)])
  ultimately show ?thesis by simp
qed

lemma dict_sum_nonneg:
  "(\<And>k v. (k, v) \<in> set d \<Longrightarrow> 0 \<le> f k v) \<Longrightarrow> 0 \<le> dict_sum f d"
  unfolding dict_sum_def by (rule sum_list_nonneg) auto

subsection \<open>Doubles: the truncated product of an integer and a literal\<close>

text \<open>
  A positive double literal is a pair \<open>(m, k)\<close> that stands for \<open>m / 2 ^ k\<close> with
  \<open>2 ^ 52 \<le> m < 2 ^ 53\<close>. The model of \<open>int(n * p)\<close> rounds the integer to a double, rounds the
  product to 53 significant bits (half to even) and truncates towards zero.
  Overflow to infinity (integers beyond \<open>2 ^ 970\<close>) is outside the model.
\<close>

type_synonym double = "nat \<times> nat"

fun bit_len :: "nat \<Rightarrow> nat" where
  "bit_len n = (if n = 0 then 0 else Suc (bit_len (n div 2)))"

declare bit_len.simps [simp del]

definition round53 :: "nat \<Rightarrow> nat" where
  "round53 x =
     (let e = bit_len x - 53
      in if e = 0 then x
         else let q = x div 2 ^ e; r = x mod 2 ^ e; h = 2 ^ (e - 1)
              in (if h < r \<or> (r = h \<and> odd q) then q + 1 else q) * 2 ^ e)"

definition int_mul_double :: "int \<Rightarrow> double \<Rightarrow> int" where
  "int_mul_double n p =
     (let t = int (round53 (round53 (nat \<bar>n\<bar>) * fst p) div 2 ^ snd p)
      in if n < 0 then - t else t)"

lemma bit_len_0: "bit_len 0 = 0"
  by (subst bit_len.simps) simp

lemma bit_len_1 [simp]: "bit_len (Suc 0) = Suc 0"
  by (subst bit_len.simps) (simp add: bit_len_0)

lemma bit_len_numeral [simp]:
  "bit_len (numeral Num.One) = Suc 0"
  "bit_len (numeral (Num.Bit0 n)) = Suc (bit_len (numeral n))"
  "bit_len (numeral (Num.Bit1 n)) = Suc (bit_len (numeral n))"
  by (simp, (subst bit_len.simps, simp)+)

lemma bit_len_lower: "n \<noteq> 0 \<Longrightarrow> 2 ^ (bit_len n - 1) \<le> n"
proof (induction n rule: bit_len.induct)
  case (1 n)
  show ?case
  proof (cases "n div 2 = 0")
    case True
    with "1.prems" show ?thesis by (subst bit_len.simps, subst bit_len.simps) simp
  next
    case False
    have "bit_len (n div 2) \<noteq> 0" using False by (subst bit_len.simps) simp
    then obtain b where b: "bit_len (n div 2) = Suc b" by (cases "bit_len (n div 2)") auto
    from 1 False have "2 ^ b \<le> n div 2" by (simp add: b)
    then have "2 * 2 ^ b \<le> n" by linarith
    with "1.prems" show ?thesis by (subst bit_len.simps) (simp add: b)
  qed
qed

lemma bit_len_upper: "n < 2 ^ bit_len n"
proof (induction n rule: bit_len.induct)
  case (1 n)
  show ?case
  proof (cases "n = 0")
    case False
    with 1 have "n div 2 < 2 ^ bit_len (n div 2)" by simp
    then have "n < 2 * 2 ^ bit_len (n div 2)" by linarith
    with False show ?thesis by (subst bit_len.simps) simp
  qed (simp add: bit_len_0)
qed

lemma round53_small: "x < 2 ^ 53 \<Longrightarrow> round53 x = x"
proof (cases "x = 0")
  case False
  assume "x < 2 ^ 53"
  then have "2 ^ (bit_len x - 1) < (2::nat) ^ 53"
    using bit_len_lower [OF False] by (rule order.strict_trans1 [rotated])
  then have "bit_len x - 1 < 53" by (subst (asm) power_strict_increasing_iff) simp_all
  then show ?thesis by (simp add: round53_def Let_def)
qed (simp add: round53_def bit_len_0)

text \<open>Rounding raises a value by at most one part in \<open>2 ^ 53\<close>.\<close>

lemma round53_upper: "2 ^ 53 * round53 x \<le> (2 ^ 53 + 1) * x"
proof (cases "bit_len x - 53")
  case 0
  then show ?thesis by (simp add: round53_def Let_def)
next
  case (Suc f)
  define e where "e = Suc f"
  define q where "q = x div 2 ^ e"
  define r where "r = x mod 2 ^ e"
  have x: "x = q * 2 ^ e + r" unfolding q_def r_def by (rule div_mult_mod_eq [symmetric])
  from Suc have len: "bit_len x - 1 = 52 + e" by (simp add: e_def)
  have x_pos: "x \<noteq> 0" using Suc bit_len_0 by (metis diff_0_eq_0 nat.distinct(1))
  have x_big: "2 ^ 52 * 2 ^ e \<le> x"
    using bit_len_lower [OF x_pos] unfolding len by (simp only: power_add)
  have half: "2 * 2 ^ (e - 1) = (2::nat) ^ e" by (simp add: e_def)
  have r53: "round53 x \<le> (if 2 ^ (e - 1) \<le> r then (q + 1) * 2 ^ e else q * 2 ^ e)"
    using Suc by (simp add: round53_def Let_def e_def q_def r_def)
  show ?thesis
  proof (cases "2 ^ (e - 1) \<le> r")
    case True
    have "2 * round53 x \<le> 2 * (q * 2 ^ e) + 2 * 2 ^ e"
      using r53 True by simp
    also have "\<dots> \<le> 2 * x + 2 ^ e" using True half by (simp add: x)
    finally have "2 * round53 x \<le> 2 * x + 2 ^ e" .
    with x_big show ?thesis by simp
  next
    case False
    with r53 have "round53 x \<le> x" by (simp add: x)
    then show ?thesis by simp
  qed
qed

text \<open>
  With a literal that is the nearest double to \<open>p / 20\<close> the truncated product never
  exceeds the exact one, for any integer a context window can have.
\<close>

lemma int_mul_double_upper:
  assumes "0 \<le> n" and "n < 2 ^ 45" and "m < 2 ^ 53" and "50 \<le> k"
    and near: "20 * m \<le> p * 2 ^ k + 10"
  shows "20 * int_mul_double n (m, k) \<le> int p * n"
proof -
  define N where "N = nat n"
  have N: "N < 2 ^ 45" and n: "n = int N" using assms(1,2) by (auto simp: N_def)
  define R where "R = round53 (N * m)"
  define t where "t = R div 2 ^ k"
  have val: "int_mul_double n (m, k) = int t"
    using N by (simp add: int_mul_double_def Let_def n round53_small t_def R_def)
  have tR: "t * 2 ^ k \<le> R" by (simp add: t_def)
  have R: "2 ^ 53 * R \<le> (2 ^ 53 + 1) * (N * m)" unfolding R_def by (rule round53_upper)
  have "20 * t \<le> p * N"
  proof (rule ccontr)
    assume "\<not> 20 * t \<le> p * N"
    then have "p * N + 1 \<le> 20 * t" by simp
    then have "(p * N + 1) * 2 ^ k \<le> 20 * t * 2 ^ k" by (rule mult_le_mono1)
    also have "\<dots> \<le> 20 * R" using tR by simp
    finally have 1: "(p * N + 1) * 2 ^ k \<le> 20 * R" .
    have "2 ^ 53 * ((p * N + 1) * 2 ^ k) \<le> 20 * (2 ^ 53 * R)"
      using mult_le_mono2 [OF 1, of "2 ^ 53"] by (simp only: mult.assoc mult.left_commute)
    also have "\<dots> \<le> 20 * ((2 ^ 53 + 1) * (N * m))" using R by (rule mult_le_mono2)
    also have "\<dots> = 2 ^ 53 * (N * (20 * m)) + 20 * (N * m)" by (simp add: algebra_simps)
    also have "\<dots> \<le> 2 ^ 53 * (N * (p * 2 ^ k + 10)) + 20 * (N * 2 ^ 53)"
      using near assms(3) by (intro add_mono mult_le_mono2) auto
    also have "\<dots> = 2 ^ 53 * (p * N * 2 ^ k + 30 * N)" by (simp add: algebra_simps)
    finally have "(p * N + 1) * 2 ^ k \<le> p * N * 2 ^ k + 30 * N" by simp
    then have "2 ^ k \<le> 30 * N" by (simp add: algebra_simps)
    moreover have "30 * N < 2 ^ 50" using N by simp
    moreover have "(2::nat) ^ 50 \<le> 2 ^ k" using assms(4) by (rule power_increasing) simp
    ultimately show False by linarith
  qed
  then have "int (20 * t) \<le> int (p * N)" by (rule of_nat_mono)
  then show ?thesis by (simp add: val n [symmetric])
qed

lemma int_mul_double_nonneg: "0 \<le> n \<Longrightarrow> 0 \<le> int_mul_double n p"
  by (simp add: int_mul_double_def Let_def)

subsection \<open>Counting the tasks at a program point\<close>

definition count_at :: "('t \<Rightarrow> 'p) \<Rightarrow> ('p \<Rightarrow> bool) \<Rightarrow> int" where
  "count_at pcs P = int (card {t. P (pcs t)})"

lemma count_at_upd:
  assumes "finite {t. P (pcs t)}"
  shows "count_at (pcs(i := p)) P
    = count_at pcs P - (if P (pcs i) then 1 else 0) + (if P p then 1 else 0)"
proof -
  let ?A = "{t. P (pcs t)}" and ?B = "{t. P ((pcs(i := p)) t)}"
  have B: "?B = (if P p then insert i (?A - {i}) else ?A - {i})" by auto
  have "int (card (?A - {i})) = int (card ?A) - (if P (pcs i) then 1 else 0)"
    using card.remove [OF assms, of i] by auto
  then show ?thesis unfolding count_at_def B using assms by (auto simp: insert_absorb)
qed

lemma finite_at_upd: "finite {t. P (pcs t)} \<Longrightarrow> finite {t. P ((pcs(i := p)) t)}"
  by (rule finite_subset [of _ "insert i {t. P (pcs t)}"]) auto

lemma count_at_map:
  "(\<And>p. P (f p) = P p) \<Longrightarrow> count_at (f \<circ> pcs) P = count_at pcs P"
  by (simp add: count_at_def)

lemma count_at_nonneg [simp]: "0 \<le> count_at pcs P"
  by (simp add: count_at_def)

lemma count_at_pos: "finite {t. P (pcs t)} \<Longrightarrow> P (pcs t) \<Longrightarrow> 0 < count_at pcs P"
  by (auto simp: count_at_def card_gt_0_iff)

lemma count_at_zero: "finite {t. P (pcs t)} \<Longrightarrow> count_at pcs P = 0 \<longleftrightarrow> (\<forall>t. \<not> P (pcs t))"
  by (auto simp: count_at_def)

lemma count_at_witness: "0 < count_at pcs P \<Longrightarrow> \<exists>t. P (pcs t)"
  unfolding count_at_def by (metis (mono_tags, lifting) card.empty empty_Collect_eq less_numeral_extra(3) of_nat_0)

subsection \<open>Guarded state machines\<close>

text \<open>
  The contract of every stateful component below: \<open>ok s e\<close> says that event \<open>e\<close> is one
  its callers may issue in state \<open>s\<close>, and each such step keeps the invariant.
\<close>

fun run :: "('s \<Rightarrow> 'e \<Rightarrow> 's) \<Rightarrow> 's \<Rightarrow> 'e list \<Rightarrow> 's" where
  "run step s [] = s"
| "run step s (e # es) = run step (step s e) es"

fun run_ok :: "('s \<Rightarrow> 'e \<Rightarrow> bool) \<Rightarrow> ('s \<Rightarrow> 'e \<Rightarrow> 's) \<Rightarrow> 's \<Rightarrow> 'e list \<Rightarrow> bool" where
  "run_ok ok step s [] \<longleftrightarrow> True"
| "run_ok ok step s (e # es) \<longleftrightarrow> ok s e \<and> run_ok ok step (step s e) es"

lemma run_append: "run step s (xs @ ys) = run step (run step s xs) ys"
  by (induction xs arbitrary: s) auto

locale guarded_machine =
  fixes step :: "'s \<Rightarrow> 'e \<Rightarrow> 's"
    and ok :: "'s \<Rightarrow> 'e \<Rightarrow> bool"
    and inv :: "'s \<Rightarrow> bool"
  assumes step_inv: "inv s \<Longrightarrow> ok s e \<Longrightarrow> inv (step s e)"
begin

lemma run_inv: "inv s \<Longrightarrow> run_ok ok step s es \<Longrightarrow> inv (run step s es)"
  by (induction es arbitrary: s) (auto intro: step_inv)

lemma run_invD:
  assumes "inv s" and "run_ok ok step s es" and "\<And>t. inv t \<Longrightarrow> P t"
  shows "P (run step s es)"
  using assms(3) [OF run_inv [OF assms(1,2)]] .

end

end
