(* ===== verification/Token_Budget.thy ===== *)
theory Token_Budget
  imports Prelude
begin

text \<open>
  Model of \<open>kestrel_sovereign/agent/token_budget.py\<close>: the static, the adaptive and the elastic
  token budget. The context limit, which the code asks of the model's token counter, is an
  argument of the constructors. Allocations are the insertion-ordered dictionary of the code;
  percentages are the doubles of its literals. The human-readable summaries and log lines are
  not modelled.
\<close>

subsection \<open>Allocations\<close>

datatype budget_error =
    ValueError
  | RuntimeError
  | KeyError string
  | DegradedModeError int int string  \<comment> \<open>mandatory floor, total budget, model\<close>

record token_allocation =
  ta_name :: string
  ta_budget :: int
  ta_used :: int
  ta_items :: int

type_synonym allocations = "(string, token_allocation) dict"

definition remaining :: "token_allocation \<Rightarrow> int" where
  "remaining a = max 0 (ta_budget a - ta_used a)"

definition new_allocation :: "string \<Rightarrow> int \<Rightarrow> token_allocation" where
  "new_allocation name b = \<lparr>ta_name = name, ta_budget = b, ta_used = 0, ta_items = 0\<rparr>"

subsection \<open>The percentage tables\<close>

definition pct05 :: double where "pct05 = (7205759403792794, 57)"
definition pct10 :: double where "pct10 = (7205759403792794, 56)"
definition pct15 :: double where "pct15 = (5404319552844595, 55)"
definition pct20 :: double where "pct20 = (7205759403792794, 55)"
definition pct25 :: double where "pct25 = (4503599627370496, 54)"
definition pct35 :: double where "pct35 = (6305039478318694, 54)"
definition pct40 :: double where "pct40 = (7205759403792794, 54)"
definition pct60 :: double where "pct60 = (5404319552844595, 53)"

definition DEFAULT_ALLOCATION :: "(string \<times> double) list" where
  "DEFAULT_ALLOCATION =
     [(''system'', pct15), (''history'', pct40), (''episodes'', pct20),
      (''memories'', pct10), (''rag'', pct15)]"

definition RESPONSE_RESERVE :: int where
  "RESPONSE_RESERVE = 1024"

definition DEFAULT_ELASTIC_PRIORITY :: "string list" where
  "DEFAULT_ELASTIC_PRIORITY = [''history'', ''episodes'', ''memories'', ''rag'']"

definition adaptive_table :: "int \<Rightarrow> (string \<times> double) list" where
  "adaptive_table message_count =
     (if message_count < 10 then
        [(''system'', pct15), (''history'', pct60), (''episodes'', pct05),
         (''memories'', pct05), (''rag'', pct15)]
      else if message_count < 30 then DEFAULT_ALLOCATION
      else
        [(''system'', pct15), (''history'', pct25), (''episodes'', pct35),
         (''memories'', pct10), (''rag'', pct15)])"

text \<open>\<open>for name, percentage in table.items(): allocations[name] = TokenAllocation(...)\<close>\<close>

definition allocate :: "int \<Rightarrow> (string \<times> double) list \<Rightarrow> allocations \<Rightarrow> allocations" where
  "allocate available table d =
     fold (\<lambda>(name, p). dict_put name (new_allocation name (int_mul_double available p))) table d"

subsection \<open>The static and the adaptive budget\<close>

record token_budget =
  tb_model :: string
  tb_context_limit :: int
  tb_response_reserve :: int
  tb_allocations :: allocations

definition total_budget :: "'a token_budget_scheme \<Rightarrow> int" where
  "total_budget b = tb_context_limit b - tb_response_reserve b"

definition total_used :: "'a token_budget_scheme \<Rightarrow> int" where
  "total_used b = dict_sum (\<lambda>_. ta_used) (tb_allocations b)"

definition total_remaining :: "'a token_budget_scheme \<Rightarrow> int" where
  "total_remaining b = total_budget b - total_used b"

definition base_init :: "string \<Rightarrow> int \<Rightarrow> token_budget" where
  "base_init model context_limit =
     \<lparr>tb_model = model, tb_context_limit = context_limit,
      tb_response_reserve = RESPONSE_RESERVE,
      tb_allocations = allocate (context_limit - RESPONSE_RESERVE) DEFAULT_ALLOCATION []\<rparr>"

definition adaptive_init :: "string \<Rightarrow> int \<Rightarrow> int \<Rightarrow> token_budget" where
  "adaptive_init model context_limit message_count =
     \<lparr>tb_model = model, tb_context_limit = context_limit,
      tb_response_reserve = RESPONSE_RESERVE,
      tb_allocations =
        allocate (context_limit - RESPONSE_RESERVE) (adaptive_table message_count) []\<rparr>"

definition base_use ::
    "'a token_budget_scheme \<Rightarrow> string \<Rightarrow> int \<Rightarrow> int
       \<Rightarrow> budget_error + (bool \<times> 'a token_budget_scheme)" where
  "base_use b source tokens items =
     (if tokens < 0 \<or> items < 0 then Inl ValueError
      else case dict_get (tb_allocations b) source of
        None \<Rightarrow> Inr (False, b)
      | Some a \<Rightarrow>
          let a' = a\<lparr>ta_used := ta_used a + tokens, ta_items := ta_items a + items\<rparr>;
              b' = b\<lparr>tb_allocations := dict_put source a' (tb_allocations b)\<rparr>
          in Inr (\<not> ta_used a' > ta_budget a', b'))"

definition base_can_fit ::
    "'a token_budget_scheme \<Rightarrow> string \<Rightarrow> int \<Rightarrow> budget_error + bool" where
  "base_can_fit b source tokens =
     (if tokens < 0 then Inl ValueError
      else case dict_get (tb_allocations b) source of
        None \<Rightarrow> Inr False
      | Some a \<Rightarrow> Inr (tokens \<le> remaining a))"

definition get_remaining :: "'a token_budget_scheme \<Rightarrow> string \<Rightarrow> int" where
  "get_remaining b source =
     (case dict_get (tb_allocations b) source of None \<Rightarrow> 0 | Some a \<Rightarrow> remaining a)"

subsection \<open>The elastic budget\<close>

record elastic_budget = token_budget +
  eb_mandatory :: int
  eb_external :: int
  eb_pool :: int
  eb_finalized :: "string list"
  eb_priority :: "string list"

text \<open>The two loops of the constructor that clean the caller's priority list.\<close>

fun clean_requested :: "string list \<Rightarrow> string list \<Rightarrow> string list" where
  "clean_requested [] cleaned = cleaned"
| "clean_requested (name # rest) cleaned =
     (if name = ''system'' \<or> name \<in> set cleaned \<or> name \<notin> fst ` set DEFAULT_ALLOCATION
      then clean_requested rest cleaned
      else clean_requested rest (cleaned @ [name]))"

fun extend_missing :: "string list \<Rightarrow> string list \<Rightarrow> string list" where
  "extend_missing [] cleaned = cleaned"
| "extend_missing (name # rest) cleaned =
     (if name \<notin> set cleaned \<and> name \<in> fst ` set DEFAULT_ALLOCATION
      then extend_missing rest (cleaned @ [name])
      else extend_missing rest cleaned)"

definition elastic_priority :: "string list option \<Rightarrow> string list" where
  "elastic_priority demand =
     (let raw = (case demand of None \<Rightarrow> DEFAULT_ELASTIC_PRIORITY
                 | Some xs \<Rightarrow> if xs = [] then DEFAULT_ELASTIC_PRIORITY else xs)
      in extend_missing DEFAULT_ELASTIC_PRIORITY (clean_requested raw []))"

text \<open>
  The trimming loops over \<open>reversed(priority)\<close>: the constructor skips an unknown source, while
  \<open>reserve_external\<close> indexes the dictionary.
\<close>

fun trim_for_floor :: "string list \<Rightarrow> int \<Rightarrow> allocations \<Rightarrow> int \<times> allocations" where
  "trim_for_floor [] shortfall d = (shortfall, d)"
| "trim_for_floor (source # rest) shortfall d =
     (if shortfall \<le> 0 then (shortfall, d)
      else case dict_get d source of
        None \<Rightarrow> trim_for_floor rest shortfall d
      | Some a \<Rightarrow>
          let give = min shortfall (ta_budget a)
          in trim_for_floor rest (shortfall - give)
               (dict_put source (a\<lparr>ta_budget := ta_budget a - give\<rparr>) d))"

fun trim_for_reserve ::
    "string list \<Rightarrow> int \<Rightarrow> allocations \<Rightarrow> budget_error + (int \<times> allocations)" where
  "trim_for_reserve [] reduction d = Inr (reduction, d)"
| "trim_for_reserve (source # rest) reduction d =
     (if reduction \<le> 0 then Inr (reduction, d)
      else case dict_get d source of
        None \<Rightarrow> Inl (KeyError source)
      | Some a \<Rightarrow>
          let give = min reduction (ta_budget a)
          in trim_for_reserve rest (reduction - give)
               (dict_put source (a\<lparr>ta_budget := ta_budget a - give\<rparr>) d))"

text \<open>\<open>ElasticTokenBudget._compute_allocations\<close>, after the adaptive percentages.\<close>

definition fund_floor ::
    "string \<Rightarrow> int \<Rightarrow> int \<Rightarrow> string list \<Rightarrow> allocations \<Rightarrow> budget_error + allocations" where
  "fund_floor model available mandatory priority d =
     (if mandatory > available then Inl (DegradedModeError mandatory available model)
      else case dict_get d ''system'' of
        None \<Rightarrow> Inl (KeyError ''system'')
      | Some sys \<Rightarrow>
          if mandatory > ta_budget sys then
            let (shortfall, d') = trim_for_floor (rev priority) (mandatory - ta_budget sys) d
            in if shortfall > 0 then Inl (DegradedModeError mandatory available model)
               else Inr (dict_put ''system'' (sys\<lparr>ta_budget := mandatory\<rparr>) d')
          else Inr d)"

definition elastic_init ::
    "string \<Rightarrow> int \<Rightarrow> int \<Rightarrow> int \<Rightarrow> string list option \<Rightarrow> budget_error + elastic_budget" where
  "elastic_init model context_limit message_count mandatory demand =
     (if mandatory < 0 then Inl ValueError
      else
        let priority = elastic_priority demand;
            available = context_limit - RESPONSE_RESERVE
        in case fund_floor model available mandatory priority
                  (allocate available (adaptive_table message_count) []) of
             Inl e \<Rightarrow> Inl e
           | Inr d \<Rightarrow>
               Inr \<lparr>tb_model = model, tb_context_limit = context_limit,
                    tb_response_reserve = RESPONSE_RESERVE, tb_allocations = d,
                    eb_mandatory = mandatory, eb_external = 0, eb_pool = 0,
                    eb_finalized = [], eb_priority = priority\<rparr>)"

definition budgets_sum :: "allocations \<Rightarrow> int" where
  "budgets_sum d = dict_sum (\<lambda>_. ta_budget) d"

definition reserve_external :: "elastic_budget \<Rightarrow> int \<Rightarrow> budget_error + elastic_budget" where
  "reserve_external b tokens =
     (if tokens < 0 then Inl ValueError
      else if tokens = 0 then Inr b
      else if total_used b \<noteq> 0 \<or> eb_finalized b \<noteq> [] \<or> eb_pool b \<noteq> 0 then Inl RuntimeError
      else
        let degraded = DegradedModeError (eb_mandatory b) (total_budget b) (tb_model b);
            total_reserved = eb_external b + tokens
        in if eb_mandatory b + total_reserved > total_budget b then Inl degraded
           else
             case trim_for_reserve (rev (eb_priority b))
                    (max 0 (budgets_sum (tb_allocations b) + total_reserved - total_budget b))
                    (tb_allocations b) of
               Inl e \<Rightarrow> Inl e
             | Inr (reduction, d) \<Rightarrow>
                 if reduction > 0 then
                   case dict_get d ''system'' of
                     None \<Rightarrow> Inl (KeyError ''system'')
                   | Some sys \<Rightarrow>
                       let give = min reduction (max 0 (ta_budget sys - eb_mandatory b));
                           d' = dict_put ''system'' (sys\<lparr>ta_budget := ta_budget sys - give\<rparr>) d
                       in if reduction - give > 0 then Inl degraded
                          else Inr (b\<lparr>tb_allocations := d', eb_external := total_reserved\<rparr>)
                 else Inr (b\<lparr>tb_allocations := d, eb_external := total_reserved\<rparr>))"

definition elastic_can_fit :: "elastic_budget \<Rightarrow> string \<Rightarrow> int \<Rightarrow> budget_error + bool" where
  "elastic_can_fit b source tokens =
     (if tokens < 0 then Inl ValueError
      else case dict_get (tb_allocations b) source of
        None \<Rightarrow> Inr False
      | Some a \<Rightarrow>
          let local_left = remaining a
          in if tokens \<le> local_left then Inr True
             else Inr (tokens - local_left \<le> eb_pool b))"

definition elastic_use ::
    "elastic_budget \<Rightarrow> string \<Rightarrow> int \<Rightarrow> int \<Rightarrow> budget_error + (bool \<times> elastic_budget)" where
  "elastic_use b source tokens items =
     (if tokens < 0 \<or> items < 0 then Inl ValueError
      else case dict_get (tb_allocations b) source of
        None \<Rightarrow> Inr (False, b)
      | Some a \<Rightarrow>
          let local_left = remaining a
          in if tokens \<le> local_left then
               Inr (True, b\<lparr>tb_allocations := dict_put source
                 (a\<lparr>ta_used := ta_used a + tokens, ta_items := ta_items a + items\<rparr>)
                 (tb_allocations b)\<rparr>)
             else
               let deficit = tokens - local_left
               in if deficit > eb_pool b then Inr (False, b)
                  else Inr (True, b\<lparr>eb_pool := eb_pool b - deficit,
                    tb_allocations := dict_put source
                      (a\<lparr>ta_budget := ta_budget a + deficit, ta_used := ta_used a + tokens,
                         ta_items := ta_items a + items\<rparr>) (tb_allocations b)\<rparr>))"

definition protected :: "int \<Rightarrow> string \<Rightarrow> token_allocation \<Rightarrow> int" where
  "protected mandatory source a =
     (if source = ''system'' then max (ta_used a) mandatory else ta_used a)"

definition mark_section_finalized :: "elastic_budget \<Rightarrow> string \<Rightarrow> int \<times> elastic_budget" where
  "mark_section_finalized b source =
     (case dict_get (tb_allocations b) source of
        None \<Rightarrow> (0, b)
      | Some a \<Rightarrow>
          if source \<in> set (eb_finalized b) then (0, b)
          else
            let slack = max 0 (ta_budget a - protected (eb_mandatory b) source a);
                b' = b\<lparr>eb_finalized := source # eb_finalized b\<rparr>
            in (slack, if slack > 0 then b'\<lparr>eb_pool := eb_pool b + slack\<rparr> else b'))"

definition effective_budget :: "elastic_budget \<Rightarrow> string \<Rightarrow> int" where
  "effective_budget b source =
     (case dict_get (tb_allocations b) source of
        None \<Rightarrow> 0 | Some a \<Rightarrow> remaining a + eb_pool b)"

datatype any_budget = Static token_budget | Adaptive token_budget | Elastic elastic_budget

definition create_budget ::
    "string \<Rightarrow> int \<Rightarrow> int \<Rightarrow> bool \<Rightarrow> bool \<Rightarrow> int \<Rightarrow> string list option
       \<Rightarrow> budget_error + any_budget" where
  "create_budget model context_limit message_count adaptive elastic mandatory demand =
     (if elastic then
        (case elastic_init model context_limit message_count mandatory demand of
           Inl e \<Rightarrow> Inl e | Inr b \<Rightarrow> Inr (Elastic b))
      else if adaptive then Inr (Adaptive (adaptive_init model context_limit message_count))
      else Inr (Static (base_init model context_limit)))"

subsection \<open>The percentages never hand out more than there is\<close>

definition section_names :: "string set" where
  "section_names = {''system'', ''history'', ''episodes'', ''memories'', ''rag''}"

lemma pct_upper:
  assumes "0 \<le> n" and "n < 2 ^ 45"
  shows "20 * int_mul_double n pct05 \<le> n" and "20 * int_mul_double n pct10 \<le> 2 * n"
    and "20 * int_mul_double n pct15 \<le> 3 * n" and "20 * int_mul_double n pct20 \<le> 4 * n"
    and "20 * int_mul_double n pct25 \<le> 5 * n" and "20 * int_mul_double n pct35 \<le> 7 * n"
    and "20 * int_mul_double n pct40 \<le> 8 * n" and "20 * int_mul_double n pct60 \<le> 12 * n"
  using int_mul_double_upper [OF assms, of 7205759403792794 57 1]
    int_mul_double_upper [OF assms, of 7205759403792794 56 2]
    int_mul_double_upper [OF assms, of 5404319552844595 55 3]
    int_mul_double_upper [OF assms, of 7205759403792794 55 4]
    int_mul_double_upper [OF assms, of 4503599627370496 54 5]
    int_mul_double_upper [OF assms, of 6305039478318694 54 7]
    int_mul_double_upper [OF assms, of 7205759403792794 54 8]
    int_mul_double_upper [OF assms, of 5404319552844595 53 12]
  by (simp_all add: pct05_def pct10_def pct15_def pct20_def pct25_def pct35_def pct40_def pct60_def)

text \<open>What a freshly computed dictionary of allocations looks like.\<close>

definition fresh :: "allocations \<Rightarrow> bool" where
  "fresh d \<longleftrightarrow> dict_wf d \<and> fst ` set d = section_names
     \<and> (\<forall>(k, a) \<in> set d. ta_used a = 0 \<and> 0 \<le> ta_budget a)"

definition section_table :: "double \<Rightarrow> double \<Rightarrow> double \<Rightarrow> (string \<times> double) list" where
  "section_table ph pe pm = [(''system'', pct15), (''history'', ph), (''episodes'', pe),
     (''memories'', pm), (''rag'', pct15)]"

lemma adaptive_table_cases:
  "adaptive_table c \<in> {section_table pct60 pct05 pct05, section_table pct40 pct20 pct10,
     section_table pct25 pct35 pct10}"
  by (simp add: adaptive_table_def DEFAULT_ALLOCATION_def section_table_def)

lemma allocate_section_table:
  "allocate n (section_table ph pe pm) [] =
     [(''system'', new_allocation ''system'' (int_mul_double n pct15)),
      (''history'', new_allocation ''history'' (int_mul_double n ph)),
      (''episodes'', new_allocation ''episodes'' (int_mul_double n pe)),
      (''memories'', new_allocation ''memories'' (int_mul_double n pm)),
      (''rag'', new_allocation ''rag'' (int_mul_double n pct15))]"
  by (simp add: allocate_def section_table_def dict_put_def)

lemma fresh_section_table: "0 \<le> n \<Longrightarrow> fresh (allocate n (section_table ph pe pm) [])"
  by (simp add: allocate_section_table fresh_def dict_wf_def new_allocation_def
      section_names_def int_mul_double_nonneg)

lemma allocate_adaptive: "0 \<le> n \<Longrightarrow> fresh (allocate n (adaptive_table c) [])"
  using adaptive_table_cases [of c] by (auto simp: fresh_section_table)

lemma budgets_sum_section_table:
  "budgets_sum (allocate n (section_table ph pe pm) []) =
     2 * int_mul_double n pct15 + int_mul_double n ph + int_mul_double n pe + int_mul_double n pm"
  by (simp add: allocate_section_table budgets_sum_def dict_sum_def new_allocation_def)

lemma allocate_adaptive_sum:
  assumes "0 \<le> n" and "n < 2 ^ 45"
  shows "budgets_sum (allocate n (adaptive_table c) []) \<le> n"
proof -
  note pct = pct_upper [OF assms]
  have "budgets_sum (allocate n (section_table pct60 pct05 pct05) []) \<le> n"
    unfolding budgets_sum_section_table using pct(1,3,8) by linarith
  moreover have "budgets_sum (allocate n (section_table pct40 pct20 pct10) []) \<le> n"
    unfolding budgets_sum_section_table using pct(2,3,4,7) by linarith
  moreover have "budgets_sum (allocate n (section_table pct25 pct35 pct10) []) \<le> n"
    unfolding budgets_sum_section_table using pct(2,3,5,6) by linarith
  ultimately show ?thesis using adaptive_table_cases [of c] by auto
qed

subsection \<open>Cleaning the priority list\<close>

definition elastic_names :: "string set" where
  "elastic_names = {''history'', ''episodes'', ''memories'', ''rag''}"

lemma default_names: "fst ` set DEFAULT_ALLOCATION = insert ''system'' elastic_names"
  by (simp add: DEFAULT_ALLOCATION_def elastic_names_def)

lemma clean_requested_inv:
  "distinct acc \<Longrightarrow> set acc \<subseteq> elastic_names
   \<Longrightarrow> distinct (clean_requested xs acc) \<and> set (clean_requested xs acc) \<subseteq> elastic_names"
proof (induction xs acc rule: clean_requested.induct)
  case (2 name rest cleaned)
  show ?case
  proof (cases "name = ''system'' \<or> name \<in> set cleaned \<or> name \<notin> fst ` set DEFAULT_ALLOCATION")
    case True
    with 2 show ?thesis by simp
  next
    case False
    then have "name \<in> elastic_names" unfolding default_names by blast
    with 2 False show ?thesis by simp
  qed
qed simp

lemma extend_missing_set:
  "distinct acc \<Longrightarrow> set xs \<subseteq> fst ` set DEFAULT_ALLOCATION
   \<Longrightarrow> distinct (extend_missing xs acc) \<and> set (extend_missing xs acc) = set acc \<union> set xs"
proof (induction xs acc rule: extend_missing.induct)
  case (2 name rest cleaned)
  then show ?case by (cases "name \<in> set cleaned") auto
qed simp

lemma elastic_priority_spec:
  "distinct (elastic_priority demand)" "set (elastic_priority demand) = elastic_names"
proof -
  define raw where "raw = (case demand of None \<Rightarrow> DEFAULT_ELASTIC_PRIORITY
    | Some xs \<Rightarrow> if xs = [] then DEFAULT_ELASTIC_PRIORITY else xs)"
  have 1: "distinct (clean_requested raw []) \<and> set (clean_requested raw []) \<subseteq> elastic_names"
    by (rule clean_requested_inv) simp_all
  have 2: "set DEFAULT_ELASTIC_PRIORITY \<subseteq> fst ` set DEFAULT_ALLOCATION"
    by (auto simp: DEFAULT_ELASTIC_PRIORITY_def DEFAULT_ALLOCATION_def)
  have 3: "set DEFAULT_ELASTIC_PRIORITY = elastic_names"
    by (simp add: DEFAULT_ELASTIC_PRIORITY_def elastic_names_def)
  from 1 2 3 show "distinct (elastic_priority demand)"
    and "set (elastic_priority demand) = elastic_names"
    using extend_missing_set [of "clean_requested raw []" DEFAULT_ELASTIC_PRIORITY]
    by (auto simp: elastic_priority_def raw_def [symmetric])
qed

subsection \<open>Trimming\<close>

text \<open>
  Trimming a list of sections lowers only budgets of those sections, by exactly what the
  shortfall falls, and leaves a shortfall only when all of them are at zero.
\<close>

definition trimmed :: "string list \<Rightarrow> int \<Rightarrow> allocations \<Rightarrow> int \<Rightarrow> allocations \<Rightarrow> bool" where
  "trimmed xs n d n' d' \<longleftrightarrow>
     map fst d' = map fst d \<and> budgets_sum d' = budgets_sum d - (n - n') \<and> 0 \<le> n'
     \<and> (\<forall>k. k \<notin> set xs \<longrightarrow> dict_get d' k = dict_get d k)
     \<and> (\<forall>k a'. dict_get d' k = Some a' \<longrightarrow>
          (\<exists>a. dict_get d k = Some a \<and> ta_used a' = ta_used a
               \<and> 0 \<le> ta_budget a' \<and> (n' > 0 \<and> k \<in> set xs \<longrightarrow> ta_budget a' = 0)))"

lemma dict_get_keys:
  "map fst d' = map fst d \<Longrightarrow> (dict_get d' k = None) = (dict_get d k = None)"
  by (metis dict_get_None list.set_map)

lemma trimmed_keys: "trimmed xs n d n' d' \<Longrightarrow> map fst d' = map fst d"
  and trimmed_sum: "trimmed xs n d n' d' \<Longrightarrow> budgets_sum d' = budgets_sum d - (n - n')"
  and trimmed_nonneg: "trimmed xs n d n' d' \<Longrightarrow> 0 \<le> n'"
  and trimmed_other: "trimmed xs n d n' d' \<Longrightarrow> k \<notin> set xs \<Longrightarrow> dict_get d' k = dict_get d k"
  by (auto simp only: trimmed_def)

lemma trimmed_entry:
  assumes "trimmed xs n d n' d'" and "dict_get d' k = Some a'"
  obtains a where "dict_get d k = Some a" "ta_used a' = ta_used a" "0 \<le> ta_budget a'"
    "n' > 0 \<Longrightarrow> k \<in> set xs \<Longrightarrow> ta_budget a' = 0"
  using assms unfolding trimmed_def by meson

lemma trim_for_floor_le:
  "(\<And>k a. dict_get d k = Some a \<Longrightarrow> 0 \<le> ta_budget a) \<Longrightarrow> 0 \<le> n
   \<Longrightarrow> fst (trim_for_floor xs n d) \<le> n"
proof (induction xs n d rule: trim_for_floor.induct)
  case (2 source rest n d)
  show ?case
  proof (cases "n \<le> 0 \<or> dict_get d source = None")
    case True
    with "2.IH"(1) "2.prems" show ?thesis by (cases "n \<le> 0") auto
  next
    case False
    then obtain a where a: "dict_get d source = Some a" and n: "\<not> n \<le> 0" by auto
    define g where "g = min n (ta_budget a)"
    have g: "0 \<le> g" "g \<le> n" "g \<le> ta_budget a"
      using "2.prems"(1) [OF a] n by (auto simp: g_def)
    have "fst (trim_for_floor rest (n - g) (dict_put source (a\<lparr>ta_budget := ta_budget a - g\<rparr>) d))
        \<le> n - g"
    proof (rule "2.IH"(2) [OF n a g_def])
      show "0 \<le> ta_budget b"
        if "dict_get (dict_put source (a\<lparr>ta_budget := ta_budget a - g\<rparr>) d) k = Some b" for k b
        using that "2.prems"(1) g by (cases "k = source") auto
    qed (use g in simp)
    with a n g show ?thesis by (simp add: Let_def g_def)
  qed
qed simp

lemma trimmed_refl:
  "0 \<le> n \<Longrightarrow> (\<And>k a. dict_get d k = Some a \<Longrightarrow> 0 \<le> ta_budget a)
   \<Longrightarrow> (n > 0 \<Longrightarrow> \<forall>k \<in> set xs. dict_get d k = None) \<Longrightarrow> trimmed xs n d n d"
  unfolding trimmed_def by force

lemma trimmed_Cons_skip:
  "dict_get d source = None \<Longrightarrow> trimmed rest n d n' d' \<Longrightarrow> trimmed (source # rest) n d n' d'"
  unfolding trimmed_def by (metis list.set_intros(2) option.distinct(1) set_ConsD)

lemma trimmed_Cons:
  assumes a: "dict_get d source = Some a" and give: "0 \<le> give" "give \<le> ta_budget a"
    and rest: "trimmed rest (n - give)
      (dict_put source (a\<lparr>ta_budget := ta_budget a - give\<rparr>) d) n' d'"
    and zero: "n' > 0 \<Longrightarrow> give = ta_budget a"
  shows "trimmed (source # rest) n d n' d'"
proof -
  let ?d1 = "dict_put source (a\<lparr>ta_budget := ta_budget a - give\<rparr>) d"
  have src: "source \<in> fst ` set d" using a by (rule dict_get_key)
  then have keys: "map fst ?d1 = map fst d" by (simp add: map_fst_dict_put)
  have sum: "budgets_sum ?d1 = budgets_sum d - give"
    using a by (simp add: budgets_sum_def dict_sum_put)
  have out: "dict_get d' k = dict_get ?d1 k" if "k \<notin> set rest" for k
    using rest that by (rule trimmed_other)
  have later: "\<exists>a0. dict_get d k = Some a0 \<and> ta_used a' = ta_used a0 \<and> 0 \<le> ta_budget a'
      \<and> (n' > 0 \<and> k \<in> set (source # rest) \<longrightarrow> ta_budget a' = 0)"
    if k: "dict_get d' k = Some a'" for k a'
  proof -
    from rest k obtain a1 where a1: "dict_get ?d1 k = Some a1" "ta_used a' = ta_used a1"
      "0 \<le> ta_budget a'" "n' > 0 \<Longrightarrow> k \<in> set rest \<Longrightarrow> ta_budget a' = 0"
      by (rule trimmed_entry) blast
    show ?thesis
    proof (cases "k = source")
      case True
      with a1(1) have a1_eq: "a1 = a\<lparr>ta_budget := ta_budget a - give\<rparr>" by simp
      have "ta_budget a' = 0" if "n' > 0"
      proof (cases "k \<in> set rest")
        case False
        with out k a1(1) have "a' = a1" by simp
        with a1_eq zero [OF that] show ?thesis by simp
      qed (use that a1(4) in simp)
      with True a a1(2,3) a1_eq show ?thesis by simp
    next
      case False
      with a1 show ?thesis by simp
    qed
  qed
  have same: "dict_get d' k = dict_get d k" if "k \<notin> set (source # rest)" for k
    using out [of k] that by simp
  have "map fst d' = map fst d" using trimmed_keys [OF rest] keys by simp
  moreover have "budgets_sum d' = budgets_sum d - (n - n')"
    using trimmed_sum [OF rest] sum by simp
  ultimately show ?thesis
    unfolding trimmed_def using later same trimmed_nonneg [OF rest] by blast
qed

lemma trim_for_floor_trimmed:
  assumes "0 \<le> n" and "\<And>k a. dict_get d k = Some a \<Longrightarrow> 0 \<le> ta_budget a"
    and "trim_for_floor xs n d = (n', d')"
  shows "trimmed xs n d n' d'"
  using assms
proof (induction xs n d arbitrary: n' d' rule: trim_for_floor.induct)
  case (1 n d)
  then show ?case by (auto intro: trimmed_refl)
next
  case (2 source rest n d)
  consider (stop) "n \<le> 0" | (skip) "0 < n" "dict_get d source = None"
    | (give) a where "0 < n" "dict_get d source = Some a"
    by (cases "n \<le> 0"; cases "dict_get d source") auto
  then show ?case
  proof cases
    case stop
    with "2.prems" show ?thesis by (auto intro: trimmed_refl)
  next
    case skip
    with "2.prems" "2.IH"(1) have "trimmed rest n d n' d'" by auto
    with skip(2) show ?thesis by (rule trimmed_Cons_skip)
  next
    case (give a)
    define g where "g = min n (ta_budget a)"
    define d1 where "d1 = dict_put source (a\<lparr>ta_budget := ta_budget a - g\<rparr>) d"
    have g: "0 \<le> g" "g \<le> ta_budget a" "g \<le> n" and g_eq: "g < n \<Longrightarrow> g = ta_budget a"
      using "2.prems"(2) [OF give(2)] give(1) by (auto simp: g_def)
    have rest: "trim_for_floor rest (n - g) d1 = (n', d')"
      using "2.prems"(3) give by (simp add: Let_def g_def d1_def)
    have nonneg: "\<And>k b. dict_get d1 k = Some b \<Longrightarrow> 0 \<le> ta_budget b"
      using "2.prems"(2) g by (auto simp: d1_def split: if_splits)
    have tr: "trimmed rest (n - g) d1 n' d'"
      using "2.IH"(2) [of a g] give g rest nonneg by (simp add: d1_def g_def)
    have "n' \<le> n - g"
      using trim_for_floor_le [of d1 "n - g" rest] nonneg rest g(3) by simp
    then have "n' > 0 \<Longrightarrow> g = ta_budget a" using g_eq by simp
    with give(2) g(1,2) tr show ?thesis unfolding d1_def by (intro trimmed_Cons)
  qed
qed

lemma trim_for_reserve_eq:
  "set xs \<subseteq> fst ` set d \<Longrightarrow> trim_for_reserve xs n d = Inr (trim_for_floor xs n d)"
proof (induction xs n d rule: trim_for_floor.induct)
  case (2 source rest n d)
  then obtain a where a: "dict_get d source = Some a"
    by (metis dict_get_None insert_subset list.simps(15) option.exhaust)
  from 2 a show ?case by (cases "n \<le> 0") (auto simp: Let_def keys_dict_put)
qed simp

subsection \<open>Funding the mandatory floor\<close>

lemma freshD:
  assumes "fresh d"
  shows "dict_wf d" and "fst ` set d = section_names"
    and "dict_get d k = Some a \<Longrightarrow> ta_used a = 0"
    and "dict_get d k = Some a \<Longrightarrow> 0 \<le> ta_budget a"
  using assms by (auto simp: fresh_def dest: dict_get_in)

lemma freshI:
  assumes "dict_wf d" and "fst ` set d = section_names"
    and "\<And>k a. dict_get d k = Some a \<Longrightarrow> ta_used a = 0 \<and> 0 \<le> ta_budget a"
  shows "fresh d"
  using assms by (fastforce simp: fresh_def dict_get_iff [symmetric])

lemma elastic_names_sub: "elastic_names \<subseteq> section_names" "''system'' \<in> section_names"
  and section_names_eq: "section_names = insert ''system'' elastic_names"
  and system_not_elastic: "''system'' \<notin> elastic_names"
  by (simp_all add: elastic_names_def section_names_def)

lemma fresh_system: "fresh d \<Longrightarrow> \<exists>sys. dict_get d ''system'' = Some sys"
  using freshD(2) [of d] elastic_names_sub(2) dict_get_None [of d "''system''"] by auto

lemma budgets_sum_ge:
  assumes "dict_wf d" and "dict_get d k = Some a"
    and "\<And>j b. dict_get d j = Some b \<Longrightarrow> 0 \<le> ta_budget b"
  shows "ta_budget a \<le> budgets_sum d"
  unfolding budgets_sum_def by (rule dict_sum_ge [OF assms(1,2)]) (rule assms(3))

lemma budgets_sum_only:
  assumes "dict_wf d" and "dict_get d k = Some a"
    and "\<And>j b. dict_get d j = Some b \<Longrightarrow> j \<noteq> k \<Longrightarrow> ta_budget b = 0"
  shows "budgets_sum d = ta_budget a"
proof -
  let ?g = "\<lambda>j b. if j = k then ta_budget b else (0::int)"
  have "dict_sum ?g d = dict_sum (\<lambda>_ _. 0) d - 0 + ?g k a"
    by (rule dict_sum_change [OF assms(1,2)]) simp
  also have "dict_sum (\<lambda>_ (_::token_allocation). 0) d = 0" by (simp add: dict_sum_def)
  finally have "dict_sum ?g d = ta_budget a" by simp
  moreover have "dict_sum ?g d = budgets_sum d"
    unfolding budgets_sum_def by (rule dict_sum_cong) (use assms(1,3) dict_get_iff in force)
  ultimately show ?thesis by simp
qed

lemma dict_wf_keys: "map fst d' = map fst d \<Longrightarrow> dict_wf d \<Longrightarrow> dict_wf d'"
  by (simp add: dict_wf_def)

lemma trim_fresh:
  assumes "fresh d" and "0 \<le> n" and "trim_for_floor xs n d = (n', d')" and "set xs = elastic_names"
  shows "fresh d'" and "budgets_sum d' = budgets_sum d - (n - n')"
    and "dict_get d' ''system'' = dict_get d ''system''" and "0 \<le> n'"
    and "n' > 0 \<Longrightarrow> dict_get d ''system'' = Some sys \<Longrightarrow> budgets_sum d' = ta_budget sys"
proof -
  have tr: "trimmed xs n d n' d'"
    by (rule trim_for_floor_trimmed [OF assms(2) freshD(4) [OF assms(1)] assms(3)])
  note keys = trimmed_keys [OF tr]
  have wf': "dict_wf d'" using keys freshD(1) [OF assms(1)] by (rule dict_wf_keys)
  have names: "fst ` set d' = section_names"
    using keys freshD(2) [OF assms(1)] by (metis list.set_map)
  show "fresh d'"
  proof (rule freshI [OF wf' names])
    fix k a assume "dict_get d' k = Some a"
    then obtain a0 where "dict_get d k = Some a0" "ta_used a = ta_used a0" "0 \<le> ta_budget a"
      by (rule trimmed_entry [OF tr])
    with freshD(3) [OF assms(1)] show "ta_used a = 0 \<and> 0 \<le> ta_budget a" by simp
  qed
  show "budgets_sum d' = budgets_sum d - (n - n')" and "0 \<le> n'"
    using trimmed_sum [OF tr] trimmed_nonneg [OF tr] by simp_all
  show same: "dict_get d' ''system'' = dict_get d ''system''"
    using trimmed_other [OF tr] system_not_elastic assms(4) by blast
  show "budgets_sum d' = ta_budget sys" if "n' > 0" and "dict_get d ''system'' = Some sys"
  proof (rule budgets_sum_only [OF wf'])
    show "dict_get d' ''system'' = Some sys" using same that(2) by simp
    fix j b assume j: "dict_get d' j = Some b" "j \<noteq> ''system''"
    then have "j \<in> fst ` set d'" by (intro dict_get_key)
    with j names section_names_eq assms(4) have "j \<in> set xs" by blast
    with trimmed_entry [OF tr j(1)] that(1) show "ta_budget b = 0" by blast
  qed
qed

text \<open>
  The constructor's second phase succeeds exactly when the floor fits what the percentages
  handed out in total, and then it keeps that total and gives the system slice its floor.
\<close>

lemma fund_floor_cases:
  assumes fresh: "fresh d" and prio: "set prio = elastic_names"
    and sum: "budgets_sum d \<le> avail"
  shows "mand \<le> budgets_sum d \<Longrightarrow>
      \<exists>d' sys. fund_floor model avail mand prio d = Inr d' \<and> fresh d'
        \<and> budgets_sum d' = budgets_sum d \<and> dict_get d' ''system'' = Some sys
        \<and> mand \<le> ta_budget sys"
    and "mand > budgets_sum d \<Longrightarrow>
      fund_floor model avail mand prio d = Inl (DegradedModeError mand avail model)"
proof -
  obtain sys where sys: "dict_get d ''system'' = Some sys" using fresh_system [OF fresh] by blast
  have sys_le: "ta_budget sys \<le> budgets_sum d"
    by (rule budgets_sum_ge [OF freshD(1) [OF fresh] sys freshD(4) [OF fresh]])
  obtain n' d' where trim: "trim_for_floor (rev prio) (mand - ta_budget sys) d = (n', d')"
    by (cases "trim_for_floor (rev prio) (mand - ta_budget sys) d")
  have tr: "fresh d'" "budgets_sum d' = budgets_sum d - (mand - ta_budget sys - n')"
    "dict_get d' ''system'' = Some sys" "0 \<le> n'" "n' > 0 \<Longrightarrow> budgets_sum d' = ta_budget sys"
    if "mand > ta_budget sys"
    using trim_fresh [OF fresh _ trim] that prio sys by auto
  let ?d = "dict_put ''system'' (sys\<lparr>ta_budget := mand\<rparr>) d'"
  show "\<exists>d' sys. fund_floor model avail mand prio d = Inr d' \<and> fresh d'
        \<and> budgets_sum d' = budgets_sum d \<and> dict_get d' ''system'' = Some sys
        \<and> mand \<le> ta_budget sys" if fits: "mand \<le> budgets_sum d"
  proof (cases "mand > ta_budget sys")
    case False
    with fits sum sys fresh show ?thesis by (auto simp: fund_floor_def)
  next
    case True
    have zero: "n' = 0" using tr [OF True] fits by linarith
    have "ta_budget sys \<le> budgets_sum d'" "ta_used sys = 0" "0 \<le> ta_budget sys"
      using budgets_sum_ge [OF freshD(1) [OF tr(1) [OF True]] tr(3) [OF True]
          freshD(4) [OF tr(1) [OF True]]] freshD(3,4) [OF fresh sys] by auto
    moreover have "fresh ?d"
    proof (rule freshI)
      show "fst ` set ?d = section_names"
        using freshD(2) [OF tr(1) [OF True]] elastic_names_sub(2)
        by (auto simp: keys_dict_put)
      show "ta_used a = 0 \<and> 0 \<le> ta_budget a" if "dict_get ?d k = Some a" for k a
        using that freshD(3,4) [OF tr(1) [OF True]] True \<open>ta_used sys = 0\<close> \<open>0 \<le> ta_budget sys\<close>
        by (cases "k = ''system''") auto
    qed (use freshD(1) [OF tr(1) [OF True]] in blast)
    moreover have "budgets_sum ?d = budgets_sum d"
      using tr(2,3) [OF True] zero by (simp add: budgets_sum_def dict_sum_put)
    ultimately show ?thesis
      using True fits sum sys trim zero by (auto simp: fund_floor_def)
  qed
  show "fund_floor model avail mand prio d = Inl (DegradedModeError mand avail model)"
    if big: "mand > budgets_sum d"
  proof (cases "mand > avail")
    case False
    have more: "mand > ta_budget sys" using big sys_le by simp
    have "n' > 0"
    proof (rule ccontr)
      assume "\<not> n' > 0"
      with tr(4) [OF more] have "n' = 0" by simp
      moreover have "ta_budget sys \<le> budgets_sum d'"
        by (rule budgets_sum_ge [OF freshD(1) [OF tr(1) [OF more]] tr(3) [OF more]
              freshD(4) [OF tr(1) [OF more]]])
      ultimately show False using tr(2) [OF more] big by simp
    qed
    with False more sys trim show ?thesis by (simp add: fund_floor_def)
  qed (simp add: fund_floor_def)
qed

subsection \<open>The account of an elastic budget\<close>

text \<open>
  A section that is still open may spend its whole budget; a finalized one has given up all but
  its protected part. What is committed this way, the pool and the external reserve together
  never pass the window.
\<close>

definition claim :: "elastic_budget \<Rightarrow> string \<Rightarrow> token_allocation \<Rightarrow> int" where
  "claim b k a =
     (if k \<in> set (eb_finalized b) then protected (eb_mandatory b) k a else ta_budget a)"

definition committed :: "elastic_budget \<Rightarrow> int" where
  "committed b = dict_sum (claim b) (tb_allocations b)"

definition alloc_ok :: "elastic_budget \<Rightarrow> string \<Rightarrow> token_allocation \<Rightarrow> bool" where
  "alloc_ok b k a \<longleftrightarrow> 0 \<le> ta_used a \<and> ta_used a \<le> ta_budget a
     \<and> (k = ''system'' \<longrightarrow> eb_mandatory b \<le> ta_budget a)"

definition eb_inv :: "elastic_budget \<Rightarrow> bool" where
  "eb_inv b \<longleftrightarrow>
     dict_wf (tb_allocations b) \<and> fst ` set (tb_allocations b) = section_names
     \<and> (\<forall>k a. dict_get (tb_allocations b) k = Some a \<longrightarrow> alloc_ok b k a)
     \<and> 0 \<le> eb_pool b \<and> 0 \<le> eb_mandatory b \<and> 0 \<le> eb_external b
     \<and> set (eb_priority b) = elastic_names
     \<and> committed b + eb_pool b + eb_external b \<le> total_budget b"

lemma eb_invD:
  assumes "eb_inv b"
  shows "dict_wf (tb_allocations b)" and "fst ` set (tb_allocations b) = section_names"
    and "dict_get (tb_allocations b) k = Some a \<Longrightarrow> alloc_ok b k a"
    and "0 \<le> eb_pool b" and "0 \<le> eb_mandatory b" and "0 \<le> eb_external b"
    and "set (eb_priority b) = elastic_names"
    and "committed b + eb_pool b + eb_external b \<le> total_budget b"
  using assms unfolding eb_inv_def by blast+

lemma eb_inv_system:
  assumes "eb_inv b"
  obtains sys where "dict_get (tb_allocations b) ''system'' = Some sys"
    and "eb_mandatory b \<le> ta_budget sys"
proof -
  have "''system'' \<in> fst ` set (tb_allocations b)"
    using eb_invD(2) [OF assms] elastic_names_sub(2) by simp
  from dict_key_get [OF this] obtain sys
    where sys: "dict_get (tb_allocations b) ''system'' = Some sys" ..
  have "alloc_ok b ''system'' sys" by (rule eb_invD(3) [OF assms sys])
  then have "eb_mandatory b \<le> ta_budget sys" unfolding alloc_ok_def by blast
  with sys show thesis by (rule that)
qed

lemma used_le_committed:
  assumes "eb_inv b"
  shows "total_used b \<le> committed b"
  unfolding total_used_def committed_def
proof (rule dict_sum_mono)
  fix k a assume "(k, a) \<in> set (tb_allocations b)"
  then have "alloc_ok b k a" by (intro eb_invD(3) [OF assms] dict_in_get eb_invD(1) [OF assms])
  then show "ta_used a \<le> claim b k a" by (auto simp: alloc_ok_def claim_def protected_def)
qed

lemma claim_upd [simp]:
  "claim (b\<lparr>tb_allocations := d\<rparr>) = claim b" "claim (b\<lparr>eb_pool := p\<rparr>) = claim b"
  "claim (b\<lparr>eb_external := e\<rparr>) = claim b"
  by (intro ext, simp add: claim_def)+

text \<open>Storing one allocation changes the account by the change of its claim.\<close>

lemma committed_put:
  assumes "dict_get (tb_allocations b) k = Some a"
  shows "committed (b\<lparr>tb_allocations := dict_put k a' (tb_allocations b)\<rparr>)
    = committed b - claim b k a + claim b k a'"
  using dict_sum_put [OF assms, of "claim b"] by (simp add: committed_def)

lemma committed_pool [simp]: "committed (b\<lparr>eb_pool := p\<rparr>) = committed b"
  by (simp add: committed_def)

lemma total_budget_upd [simp]:
  "total_budget (b\<lparr>tb_allocations := d\<rparr>) = total_budget b"
  "total_budget (b\<lparr>eb_pool := p\<rparr>) = total_budget b"
  "total_budget (b\<lparr>eb_finalized := f\<rparr>) = total_budget b"
  "total_budget (b\<lparr>eb_external := e\<rparr>) = total_budget b"
  by (simp_all add: total_budget_def)

lemma eb_inv_put:
  assumes inv: "eb_inv b" and a: "dict_get (tb_allocations b) k = Some a"
    and ok: "alloc_ok b k a'" and pool: "0 \<le> p"
    and bal: "claim b k a' + p \<le> claim b k a + eb_pool b"
  shows "eb_inv (b\<lparr>eb_pool := p, tb_allocations := dict_put k a' (tb_allocations b)\<rparr>)"
proof -
  let ?b = "b\<lparr>eb_pool := p, tb_allocations := dict_put k a' (tb_allocations b)\<rparr>"
  have "k \<in> section_names" using dict_get_key [OF a] eb_invD(2) [OF inv] by simp
  then have keys: "fst ` set (dict_put k a' (tb_allocations b)) = section_names"
    using eb_invD(2) [OF inv] by (auto simp: keys_dict_put)
  have "committed ?b = committed b - claim b k a + claim b k a'"
    using committed_put [of "b\<lparr>eb_pool := p\<rparr>" k a a'] a by (simp add: claim_def)
  moreover have "alloc_ok ?b j c" if "dict_get (tb_allocations ?b) j = Some c" for j c
    using that ok eb_invD(3) [OF inv] by (auto simp: alloc_ok_def split: if_splits)
  ultimately show ?thesis
    using eb_invD [OF inv] keys pool bal by (auto simp: eb_inv_def)
qed

lemma elastic_use_inv:
  assumes inv: "eb_inv b" and "source \<notin> set (eb_finalized b)"
    and "elastic_use b source tokens items = Inr (r, b')"
  shows "eb_inv b'"
proof (cases "dict_get (tb_allocations b) source")
  case None
  with assms show ?thesis by (auto simp: elastic_use_def split: if_splits)
next
  case (Some a)
  have ok: "alloc_ok b source a" by (rule eb_invD(3) [OF inv Some])
  have open_claim: "claim b source c = ta_budget c" for c
    using assms(2) by (simp add: claim_def)
  have t: "0 \<le> tokens" using assms(3) by (auto simp: elastic_use_def split: if_splits)
  consider (own) "tokens \<le> remaining a"
      "b' = b\<lparr>eb_pool := eb_pool b, tb_allocations := dict_put source
        (a\<lparr>ta_used := ta_used a + tokens, ta_items := ta_items a + items\<rparr>) (tb_allocations b)\<rparr>"
    | (reject) "b' = b"
    | (borrow) "\<not> tokens \<le> remaining a" "tokens - remaining a \<le> eb_pool b"
      "b' = b\<lparr>eb_pool := eb_pool b - (tokens - remaining a), tb_allocations := dict_put source
        (a\<lparr>ta_budget := ta_budget a + (tokens - remaining a), ta_used := ta_used a + tokens,
           ta_items := ta_items a + items\<rparr>) (tb_allocations b)\<rparr>"
    using assms(3) Some by (auto simp: elastic_use_def Let_def split: if_splits)
  then show ?thesis
  proof cases
    case own
    show ?thesis unfolding own(2)
      by (rule eb_inv_put [OF inv Some])
        (use ok own(1) t eb_invD(4) [OF inv] in \<open>auto simp: alloc_ok_def open_claim remaining_def\<close>)
  next
    case reject
    with inv show ?thesis by simp
  next
    case borrow
    show ?thesis unfolding borrow(3)
      by (rule eb_inv_put [OF inv Some])
        (use ok borrow(1,2) t in \<open>auto simp: alloc_ok_def open_claim remaining_def\<close>)
  qed
qed

lemma mark_section_finalized_inv:
  assumes inv: "eb_inv b"
  shows "eb_inv (snd (mark_section_finalized b source))"
proof (cases "dict_get (tb_allocations b) source = None \<or> source \<in> set (eb_finalized b)")
  case True
  with inv show ?thesis by (auto simp: mark_section_finalized_def split: option.splits)
next
  case False
  then obtain a where a: "dict_get (tb_allocations b) source = Some a"
    and fin: "source \<notin> set (eb_finalized b)" by auto
  define slack where "slack = max 0 (ta_budget a - protected (eb_mandatory b) source a)"
  have ok: "alloc_ok b source a" by (rule eb_invD(3) [OF inv a])
  then have exact: "slack = ta_budget a - protected (eb_mandatory b) source a"
    by (auto simp: slack_def alloc_ok_def protected_def)
  let ?b = "b\<lparr>eb_finalized := source # eb_finalized b, eb_pool := eb_pool b + slack\<rparr>"
  have res: "snd (mark_section_finalized b source) = ?b"
    using a fin by (auto simp: mark_section_finalized_def slack_def Let_def)
  have "committed ?b = committed b - claim b source a + claim ?b source a"
    unfolding committed_def
    using dict_sum_change [OF eb_invD(1) [OF inv] a, of "claim b" "claim ?b"]
    by (simp add: claim_def)
  also have "\<dots> = committed b - slack" using fin by (simp add: claim_def exact)
  finally have "committed ?b + eb_pool ?b = committed b + eb_pool b" by simp
  moreover have "alloc_ok ?b k c = alloc_ok b k c" for k c by (simp add: alloc_ok_def)
  ultimately show ?thesis unfolding res eb_inv_def
    using eb_invD [OF inv] by (simp add: slack_def)
qed

lemma eb_inv_fresh:
  assumes "fresh (tb_allocations b)" and "eb_finalized b = []"
    and "dict_get (tb_allocations b) ''system'' = Some sys" and "eb_mandatory b \<le> ta_budget sys"
    and "0 \<le> eb_pool b" and "0 \<le> eb_mandatory b" and "0 \<le> eb_external b"
    and "set (eb_priority b) = elastic_names"
    and "budgets_sum (tb_allocations b) + eb_pool b + eb_external b \<le> total_budget b"
  shows "eb_inv b"
proof -
  have "claim b = (\<lambda>_. ta_budget)" using assms(2) by (intro ext) (simp add: claim_def)
  then have "committed b = budgets_sum (tb_allocations b)"
    by (simp add: committed_def budgets_sum_def)
  moreover have "alloc_ok b k a" if "dict_get (tb_allocations b) k = Some a" for k a
    using freshD(3,4) [OF assms(1) that] that assms(3,4) by (auto simp: alloc_ok_def)
  ultimately show ?thesis
    unfolding eb_inv_def using assms(5-9) freshD(1,2) [OF assms(1)] by simp
qed

lemma unused_fresh:
  assumes "eb_inv b" and "total_used b = 0"
  shows "fresh (tb_allocations b)"
proof (rule freshI [OF eb_invD(1,2) [OF assms(1)]])
  fix k a assume a: "dict_get (tb_allocations b) k = Some a"
  have "ta_used a \<le> total_used b"
    unfolding total_used_def
    by (rule dict_sum_ge [OF eb_invD(1) [OF assms(1)] a])
      (use eb_invD(3) [OF assms(1)] in \<open>simp add: alloc_ok_def\<close>)
  with assms(2) eb_invD(3) [OF assms(1) a] show "ta_used a = 0 \<and> 0 \<le> ta_budget a"
    unfolding alloc_ok_def by linarith
qed

lemma committed_unfinalized:
  "eb_finalized b = [] \<Longrightarrow> committed b = budgets_sum (tb_allocations b)"
  by (simp add: committed_def budgets_sum_def claim_def [abs_def])

text \<open>
  Before any section is used, an external reserve is accepted exactly when it fits beside the
  mandatory floor; the branch the code calls defensive is never taken.
\<close>

lemma reserve_external_fits:
  assumes inv: "eb_inv b" and "0 < tokens" and unused: "total_used b = 0"
    and fin: "eb_finalized b = []" and pool: "eb_pool b = 0"
    and fits: "eb_mandatory b + eb_external b + tokens \<le> total_budget b"
  obtains b' where "reserve_external b tokens = Inr b'" and "eb_inv b'"
    and "eb_external b' = eb_external b + tokens" and "eb_mandatory b' = eb_mandatory b"
proof -
  let ?d = "tb_allocations b" and ?R = "eb_external b + tokens"
  have fresh: "fresh ?d" by (rule unused_fresh [OF inv unused])
  obtain sys where sys: "dict_get ?d ''system'' = Some sys" and floor: "eb_mandatory b \<le> ta_budget sys"
    by (rule eb_inv_system [OF inv])
  define n where "n = max 0 (budgets_sum ?d + ?R - total_budget b)"
  obtain n' d' where trim: "trim_for_floor (rev (eb_priority b)) n ?d = (n', d')"
    by (cases "trim_for_floor (rev (eb_priority b)) n ?d")
  have "set (rev (eb_priority b)) \<subseteq> fst ` set ?d"
    using eb_invD(2,7) [OF inv] elastic_names_sub(1) by simp
  then have res: "trim_for_reserve (rev (eb_priority b)) n ?d = Inr (n', d')"
    by (simp add: trim_for_reserve_eq trim)
  have n0: "0 \<le> n" by (simp add: n_def)
  have prio: "set (rev (eb_priority b)) = elastic_names" using eb_invD(7) [OF inv] by simp
  note tr = trim_fresh [OF fresh n0 trim prio]
  have sys': "dict_get d' ''system'' = Some sys" using tr(3) sys by simp
  have guard: "\<not> eb_mandatory b + ?R > total_budget b" using fits by simp
  have start: "reserve_external b tokens =
      (if n' > 0 then
         let give = min n' (max 0 (ta_budget sys - eb_mandatory b));
             d2 = dict_put ''system'' (sys\<lparr>ta_budget := ta_budget sys - give\<rparr>) d'
         in if n' - give > 0
            then Inl (DegradedModeError (eb_mandatory b) (total_budget b) (tb_model b))
            else Inr (b\<lparr>tb_allocations := d2, eb_external := ?R\<rparr>)
       else Inr (b\<lparr>tb_allocations := d', eb_external := ?R\<rparr>))"
    using assms(2) unused fin pool guard res sys'
    by (simp add: reserve_external_def n_def [symmetric] Let_def)
  have ext: "0 \<le> ?R" using eb_invD(6) [OF inv] assms(2) by simp
  show thesis
  proof (cases "n' > 0")
    case False
    then have "n' = 0" using tr(4) by simp
    then have "budgets_sum d' + ?R \<le> total_budget b" using tr(2) by (simp add: n_def)
    then have "eb_inv (b\<lparr>tb_allocations := d', eb_external := ?R\<rparr>)"
      using eb_invD(4-7) [OF inv] ext tr(1) sys' floor fin pool
      by (intro eb_inv_fresh [where sys = sys]) (simp_all add: total_budget_def)
    with start False show thesis
      by (intro that [of "b\<lparr>tb_allocations := d', eb_external := ?R\<rparr>"]) simp_all
  next
    case True
    then have "n > 0" using trim_for_floor_le [of ?d n "rev (eb_priority b)"]
        freshD(4) [OF fresh] n0 trim by fastforce
    then have n: "n = budgets_sum ?d + ?R - total_budget b" by (simp add: n_def)
    have "budgets_sum d' = ta_budget sys" by (rule tr(5) [OF True sys])
    with tr(2) n fits have room: "n' \<le> ta_budget sys - eb_mandatory b" by simp
    let ?d2 = "dict_put ''system'' (sys\<lparr>ta_budget := ta_budget sys - n'\<rparr>) d'"
    have sum2: "budgets_sum ?d2 = budgets_sum d' - n'"
      using sys' by (simp add: budgets_sum_def dict_sum_put)
    have "fresh ?d2"
    proof (rule freshI)
      show "fst ` set ?d2 = section_names"
        using freshD(2) [OF tr(1)] elastic_names_sub(2) by (auto simp: keys_dict_put)
      show "ta_used a = 0 \<and> 0 \<le> ta_budget a" if "dict_get ?d2 k = Some a" for k a
        using that freshD(3,4) [OF tr(1)] freshD(3) [OF fresh sys] room eb_invD(5) [OF inv]
        by (cases "k = ''system''") auto
    qed (use freshD(1) [OF tr(1)] in blast)
    then have "eb_inv (b\<lparr>tb_allocations := ?d2, eb_external := ?R\<rparr>)"
      using eb_invD(4-7) [OF inv] ext room fin pool sum2 tr(2) n
      by (intro eb_inv_fresh [where sys = "sys\<lparr>ta_budget := ta_budget sys - n'\<rparr>"])
        (simp_all add: total_budget_def)
    with start True room show thesis
      by (intro that [of "b\<lparr>tb_allocations := ?d2, eb_external := ?R\<rparr>"])
        (simp_all add: Let_def)
  qed
qed

lemma reserve_external_inv:
  assumes "eb_inv b" and "reserve_external b tokens = Inr b'"
  shows "eb_inv b'"
proof (cases "tokens = 0")
  case True
  with assms show ?thesis by (simp add: reserve_external_def)
next
  case False
  with assms(2) have "0 < tokens" "total_used b = 0" "eb_finalized b = []" "eb_pool b = 0"
    "eb_mandatory b + eb_external b + tokens \<le> total_budget b"
    by (auto simp: reserve_external_def Let_def split: if_splits)
  from reserve_external_fits [OF assms(1) this] assms(2) show ?thesis by auto
qed

subsection \<open>Runs of an elastic budget\<close>

datatype budget_event = Use string int int | Finalize string | Reserve int

fun elastic_step :: "elastic_budget \<Rightarrow> budget_event \<Rightarrow> elastic_budget" where
  "elastic_step b (Use source tokens items) =
     (case elastic_use b source tokens items of Inl _ \<Rightarrow> b | Inr (_, b') \<Rightarrow> b')"
| "elastic_step b (Finalize source) = snd (mark_section_finalized b source)"
| "elastic_step b (Reserve tokens) =
     (case reserve_external b tokens of Inl _ \<Rightarrow> b | Inr b' \<Rightarrow> b')"

text \<open>The discipline of the context builder: a section is not used after it is finalized.\<close>

fun elastic_ok :: "elastic_budget \<Rightarrow> budget_event \<Rightarrow> bool" where
  "elastic_ok b (Use source tokens items) \<longleftrightarrow> source \<notin> set (eb_finalized b)"
| "elastic_ok b (Finalize source) \<longleftrightarrow> True"
| "elastic_ok b (Reserve tokens) \<longleftrightarrow> True"

lemma elastic_step_inv: "eb_inv b \<Longrightarrow> elastic_ok b e \<Longrightarrow> eb_inv (elastic_step b e)"
  by (cases e) (auto split: sum.splits
      intro: elastic_use_inv mark_section_finalized_inv reserve_external_inv)

interpretation elastic: guarded_machine elastic_step elastic_ok eb_inv
  by unfold_locales (rule elastic_step_inv)

lemma elastic_step_frame:
  "total_budget (elastic_step b e) = total_budget b \<and> eb_mandatory (elastic_step b e) = eb_mandatory b"
  by (cases e) (auto simp: elastic_use_def mark_section_finalized_def reserve_external_def Let_def
      total_budget_def split: sum.splits option.splits prod.splits if_splits)

lemma elastic_run_frame:
  "total_budget (run elastic_step b es) = total_budget b
   \<and> eb_mandatory (run elastic_step b es) = eb_mandatory b"
  by (induction es arbitrary: b) (auto simp: elastic_step_frame)

lemma elastic_init_inv:
  assumes init: "elastic_init model L c mand demand = Inr b" and "L < 2 ^ 45"
  shows "eb_inv b" and "total_budget b = L - RESPONSE_RESERVE" and "eb_mandatory b = mand"
proof -
  define avail where "avail = L - RESPONSE_RESERVE"
  let ?d = "allocate avail (adaptive_table c) []"
  from init obtain d where mand: "0 \<le> mand"
    and fund: "fund_floor model avail mand (elastic_priority demand) ?d = Inr d"
    and b: "b = \<lparr>tb_model = model, tb_context_limit = L, tb_response_reserve = RESPONSE_RESERVE,
      tb_allocations = d, eb_mandatory = mand, eb_external = 0, eb_pool = 0,
      eb_finalized = [], eb_priority = elastic_priority demand\<rparr>"
    by (auto simp: elastic_init_def avail_def Let_def split: if_splits sum.splits)
  from fund have le: "mand \<le> avail" by (auto simp: fund_floor_def split: if_splits)
  with mand have bounds: "0 \<le> avail" "avail < 2 ^ 45"
    using assms(2) by (auto simp: avail_def RESPONSE_RESERVE_def)
  note cases = fund_floor_cases [OF allocate_adaptive [OF bounds(1)] elastic_priority_spec(2)
      allocate_adaptive_sum [OF bounds]]
  have "mand \<le> budgets_sum ?d"
    using cases(2) fund by (metis linorder_not_le sum.distinct(1))
  from cases(1) [OF this, of model demand] fund obtain sys where
    "fresh d" "budgets_sum d = budgets_sum ?d" "dict_get d ''system'' = Some sys" "mand \<le> ta_budget sys"
    by auto
  with mand show "eb_inv b"
    by (intro eb_inv_fresh [where sys = sys])
      (simp_all add: b elastic_priority_spec total_budget_def
        allocate_adaptive_sum [OF bounds, unfolded avail_def] avail_def)
  show "total_budget b = L - RESPONSE_RESERVE" and "eb_mandatory b = mand"
    by (simp_all add: b total_budget_def)
qed

subsection \<open>Properties\<close>

text \<open>C3: an elastic budget that was constructed and then driven by any sequence of reserves,
  uses and finalizations, where no section is used after its finalization (\<open>elastic_ok\<close>, the
  discipline of the context builder) and the window is below 2 ^ 45 tokens (so that the
  binary64 fractions of the slices are exact enough), never records more tokens than the window
  less the response reserve, also counting the unspent pool and the externally reserved tokens,
  neither of which is ever negative; and the system slice keeps its mandatory floor. Both
  conditions are hypotheses of the theorem; without the first one it is false
  (\<open>reuse_after_finalize_overcommits\<close> below).\<close>

theorem elastic_never_overcommits:
  assumes "elastic_init model L c mand demand = Inr b" and "L < 2 ^ 45"
    and "run_ok elastic_ok elastic_step b es" and "run elastic_step b es = b'"
  shows "total_used b' + eb_pool b' + eb_external b' \<le> L - RESPONSE_RESERVE
    \<and> 0 \<le> eb_pool b' \<and> 0 \<le> eb_external b'
    \<and> (\<exists>sys. dict_get (tb_allocations b') ''system'' = Some sys \<and> mand \<le> ta_budget sys)"
proof -
  note init = elastic_init_inv [OF assms(1,2)]
  have inv: "eb_inv b'" using elastic.run_inv [OF init(1) assms(3)] assms(4) by simp
  have "total_used b' + eb_pool b' + eb_external b' \<le> L - RESPONSE_RESERVE"
    using used_le_committed [OF inv] eb_invD(8) [OF inv] elastic_run_frame [of b es] init(2) assms(4)
    by simp
  moreover have "0 \<le> eb_pool b'" and "0 \<le> eb_external b'" using eb_invD(4,6) [OF inv] .
  moreover have "eb_mandatory b' = mand" using elastic_run_frame [of b es] init(3) assms(4) by simp
  then have "\<exists>sys. dict_get (tb_allocations b') ''system'' = Some sys \<and> mand \<le> ta_budget sys"
    by (metis eb_inv_system [OF inv])
  ultimately show ?thesis by blast
qed

text \<open>A concrete budget: a window of 1000 tokens, of which 200 are mandatory.\<close>

lemma thousand_tokens:
  "int_mul_double 1000 pct15 = 150" "int_mul_double 1000 pct40 = 400"
  "int_mul_double 1000 pct20 = 200" "int_mul_double 1000 pct10 = 100"
  by (simp_all add: int_mul_double_def round53_def pct15_def pct40_def pct20_def pct10_def)

lemma adaptive_table_12: "adaptive_table 12 = section_table pct40 pct20 pct10"
  by (simp add: adaptive_table_def DEFAULT_ALLOCATION_def section_table_def)

definition demo_budget :: elastic_budget where
  "demo_budget =
     \<lparr>tb_model = ''m'', tb_context_limit = 2024, tb_response_reserve = 1024,
      tb_allocations = [(''system'', new_allocation ''system'' 200),
        (''history'', new_allocation ''history'' 400),
        (''episodes'', new_allocation ''episodes'' 200),
        (''memories'', new_allocation ''memories'' 100),
        (''rag'', new_allocation ''rag'' 100)],
      eb_mandatory = 200, eb_external = 0, eb_pool = 0, eb_finalized = [],
      eb_priority = DEFAULT_ELASTIC_PRIORITY\<rparr>"

lemmas budget_eval = dict_put_def dict_get_def new_allocation_def remaining_def protected_def
  Let_def total_used_def total_budget_def dict_sum_def

lemma default_priority: "elastic_priority None = DEFAULT_ELASTIC_PRIORITY"
  by (simp add: elastic_priority_def DEFAULT_ELASTIC_PRIORITY_def DEFAULT_ALLOCATION_def)

lemma demo_init: "elastic_init ''m'' 2024 12 200 None = Inr demo_budget"
  by (simp add: elastic_init_def fund_floor_def RESPONSE_RESERVE_def adaptive_table_12
      allocate_section_table thousand_tokens budget_eval demo_budget_def default_priority
      DEFAULT_ELASTIC_PRIORITY_def)

definition demo_events :: "budget_event list" where
  "demo_events = [Use ''system'' 150 1, Finalize ''system'', Use ''rag'' 20 1, Finalize ''rag'',
     Use ''history'' 450 9]"

theorem elastic_never_overcommits_witness:
  "total_used (run elastic_step demo_budget demo_events)
     + eb_pool (run elastic_step demo_budget demo_events)
     + eb_external (run elastic_step demo_budget demo_events) \<le> 2024 - RESPONSE_RESERVE"
proof -
  have ok: "run_ok elastic_ok elastic_step demo_budget demo_events"
    by (simp add: demo_events_def demo_budget_def elastic_use_def mark_section_finalized_def
        budget_eval)
  show ?thesis using elastic_never_overcommits [OF demo_init _ ok refl] by simp
qed

lemma elastic_init_refuses:
  assumes "0 \<le> L - RESPONSE_RESERVE" and "L < 2 ^ 45" and "0 \<le> mand"
    and "budgets_sum (allocate (L - RESPONSE_RESERVE) (adaptive_table c) []) < mand"
  shows "elastic_init model L c mand demand = Inl (DegradedModeError mand (L - RESPONSE_RESERVE) model)"
proof -
  have bound: "L - RESPONSE_RESERVE < 2 ^ 45" using assms(2) by (simp add: RESPONSE_RESERVE_def)
  note fund_floor_cases(2) [OF allocate_adaptive [OF assms(1)] elastic_priority_spec(2)
      allocate_adaptive_sum [OF assms(1) bound] assms(4), where model = model]
  with assms(3) show ?thesis by (simp add: elastic_init_def Let_def)
qed

text \<open>the constructor of the elastic budget accepts a non-negative mandatory floor exactly
  when the floor fits the sum of the adaptive section budgets, and otherwise raises the
  degraded-mode error; a negative floor is a value error.\<close>

theorem elastic_init_outcome:
  assumes "0 \<le> L - RESPONSE_RESERVE" and "L < 2 ^ 45"
  shows "if mand < 0 then elastic_init model L c mand demand = Inl ValueError
    else if mand \<le> budgets_sum (allocate (L - RESPONSE_RESERVE) (adaptive_table c) [])
    then \<exists>b. elastic_init model L c mand demand = Inr b \<and> eb_inv b
    else elastic_init model L c mand demand
      = Inl (DegradedModeError mand (L - RESPONSE_RESERVE) model)"
proof -
  have bound: "L - RESPONSE_RESERVE < 2 ^ 45" using assms(2) by (simp add: RESPONSE_RESERVE_def)
  note cases = fund_floor_cases [OF allocate_adaptive [OF assms(1)] elastic_priority_spec(2)
      allocate_adaptive_sum [OF assms(1) bound], where mand = mand and c1 = c and model = model]
  show ?thesis
  proof (cases "mand < 0")
    case True
    then show ?thesis by (simp add: elastic_init_def)
  next
    case nonneg: False
    show ?thesis
    proof (cases "mand \<le> budgets_sum (allocate (L - RESPONSE_RESERVE) (adaptive_table c) [])")
      case True
      from cases(1) [OF this, of demand] nonneg obtain b where "elastic_init model L c mand demand = Inr b"
        by (auto simp: elastic_init_def Let_def)
      with True nonneg elastic_init_inv(1) [OF this assms(2)] show ?thesis by auto
    next
      case False
      with elastic_init_refuses [OF assms, of mand c] nonneg show ?thesis by simp
    qed
  qed
qed

theorem elastic_init_outcome_witness:
  "\<exists>b. elastic_init ''m'' 2024 12 200 None = Inr b \<and> eb_inv b"
proof -
  have fits: "200 \<le> budgets_sum (allocate (2024 - RESPONSE_RESERVE) (adaptive_table 12) [])"
    by (simp add: RESPONSE_RESERVE_def adaptive_table_12 budgets_sum_section_table thousand_tokens)
  show ?thesis
    using elastic_init_outcome [of 2024 200 "''m''" 12 None] fits by (simp add: RESPONSE_RESERVE_def)
qed

text \<open>
  The integer percentages can leave tokens unassigned, and the constructor does not use them:
  a floor of 10 tokens fits a window of 10 tokens beside the reserve, and is refused.
\<close>

theorem floor_that_fits_is_refused:
  "elastic_init ''m'' 1034 12 10 None = Inl (DegradedModeError 10 10 ''m'')"
proof -
  have "int_mul_double 10 pct15 = 1" "int_mul_double 10 pct40 = 4"
    "int_mul_double 10 pct20 = 2" "int_mul_double 10 pct10 = 1"
    by (simp_all add: int_mul_double_def round53_def pct15_def pct40_def pct20_def pct10_def)
  then have "budgets_sum (allocate (1034 - RESPONSE_RESERVE) (adaptive_table 12) []) = 9"
    by (simp add: RESPONSE_RESERVE_def adaptive_table_12 budgets_sum_section_table)
  with elastic_init_refuses [of 1034 10 12 "''m''" None] show ?thesis
    by (simp add: RESPONSE_RESERVE_def)
qed

text \<open>before any section is used, a positive external reserve is accepted exactly when it
  fits beside the mandatory floor and the earlier reserves; it then keeps every promise of the
  budget and adds exactly the reserved tokens. Otherwise the degraded-mode error is raised. The
  branch the code calls defensive is never taken.\<close>

theorem reserve_external_outcome:
  assumes "eb_inv b" and "0 < tokens" and "total_used b = 0" and "eb_finalized b = []"
    and "eb_pool b = 0"
  shows "if eb_mandatory b + eb_external b + tokens \<le> total_budget b
    then \<exists>b'. reserve_external b tokens = Inr b' \<and> eb_inv b'
      \<and> eb_external b' = eb_external b + tokens
    else reserve_external b tokens
      = Inl (DegradedModeError (eb_mandatory b) (total_budget b) (tb_model b))"
proof (cases "eb_mandatory b + eb_external b + tokens \<le> total_budget b")
  case True
  with reserve_external_fits [OF assms True] show ?thesis by metis
next
  case False
  with assms show ?thesis by (simp add: reserve_external_def Let_def)
qed

theorem reserve_external_outcome_witness:
  "\<exists>b'. reserve_external demo_budget 300 = Inr b' \<and> eb_external b' = 300"
proof -
  have inv: "eb_inv demo_budget" by (rule elastic_init_inv(1) [OF demo_init]) simp
  have "total_used demo_budget = 0" "eb_finalized demo_budget = []" "eb_pool demo_budget = 0"
    "eb_external demo_budget = 0" "eb_mandatory demo_budget + 0 + 300 \<le> total_budget demo_budget"
    by (simp_all add: demo_budget_def budget_eval)
  with reserve_external_outcome [OF inv, of 300] show ?thesis by auto
qed

text \<open>
  The discipline is needed: a section that is used after its finalization spends its slack a
  second time, and the recorded total passes the window.
\<close>

theorem reuse_after_finalize_overcommits:
  "let b' = run elastic_step demo_budget [Finalize ''history'', Use ''history'' 400 1,
              Use ''system'' 200 1, Use ''episodes'' 600 1, Use ''memories'' 100 1]
   in total_used b' = 1300 \<and> total_budget b' = 1000"
  by (simp add: demo_budget_def elastic_use_def mark_section_finalized_def budget_eval)

end
