(* ===== verification/Context_Commit.thy ===== *)
theory Context_Commit
  imports Token_Budget
begin

text \<open>
  The clients of the token budget: the commit steps of \<open>ContextManager\<close> in
  \<open>kestrel_sovereign/agent/context_manager.py\<close>, which fold what a section produced into the
  context being assembled. They see a budget only through \<open>can_fit\<close> and \<open>use\<close>; the
  locale \<open>section_account\<close> is that interface, and both the static and the elastic budget
  provide it. The tokenizer is an argument; numbers inside warning texts are kept as numbers.
\<close>

subsection \<open>The state of one context build\<close>

datatype warning =
    Carried string
  | EpisodeSkipped int
  | SectionSkipped string int
  | SystemForced int
  | GuidanceOverBytes int
  | GuidanceOverTokens

record section_result =
  sr_name :: string
  sr_tokens :: int
  sr_items :: int
  sr_append_text :: string
  sr_dynamic_block :: string
  sr_warning :: string
  sr_committed :: bool

record assembly =
  as_system_prompt :: string
  as_dynamic_blocks :: "string list"
  as_warnings :: "warning list"
  as_episode_count :: int
  as_memory_count :: int
  as_rag_chunks :: int

type_synonym 'b can_fit_op = "'b \<Rightarrow> string \<Rightarrow> int \<Rightarrow> budget_error + bool"
type_synonym 'b use_op = "'b \<Rightarrow> string \<Rightarrow> int \<Rightarrow> int \<Rightarrow> budget_error + (bool \<times> 'b)"

definition warn :: "warning \<Rightarrow> assembly \<Rightarrow> assembly" where
  "warn w asm = asm\<lparr>as_warnings := as_warnings asm @ [w]\<rparr>"

text \<open>The separator \<open>"\\n\\n"\<close> between two blocks of the prompt.\<close>

definition blank_line :: string where
  "blank_line = [CHR 0x0A, CHR 0x0A]"

subsection \<open>The commit steps\<close>

definition record_system_usage ::
    "elastic_budget use_op \<Rightarrow> (string \<Rightarrow> int) \<Rightarrow> assembly \<Rightarrow> elastic_budget
       \<Rightarrow> budget_error + (assembly \<times> elastic_budget)" where
  "record_system_usage use_tokens count asm b =
     (let n = count (as_system_prompt asm)
      in case use_tokens b ''system'' n 1 of
           Inl e \<Rightarrow> Inl e
         | Inr (True, b') \<Rightarrow> Inr (asm, b')
         | Inr (False, b') \<Rightarrow>
             Inr (warn (SystemForced n) asm,
               case dict_get (tb_allocations b') ''system'' of
                 None \<Rightarrow> b'
               | Some a \<Rightarrow>
                   b'\<lparr>tb_allocations := dict_put ''system''
                        (a\<lparr>ta_budget := max (ta_budget a) n, ta_used := n\<rparr>)
                        (tb_allocations b')\<rparr>))"

text \<open>The length in bytes of the UTF-8 encoding of a text of code points below 256.\<close>

definition utf8_len :: "string \<Rightarrow> int" where
  "utf8_len s = (\<Sum>c \<leftarrow> s. if of_char c < (128 :: nat) then 1 else 2)"

definition apply_reflection_guidance ::
    "'b can_fit_op \<Rightarrow> 'b use_op \<Rightarrow> (string \<Rightarrow> int) \<Rightarrow> (string list \<Rightarrow> string)
       \<Rightarrow> assembly \<Rightarrow> 'b \<Rightarrow> string list option \<Rightarrow> int option
       \<Rightarrow> budget_error + (bool \<times> assembly \<times> 'b)" where
  "apply_reflection_guidance can_fit use_tokens count build_block asm b guidance cap =
     (if guidance = None \<or> guidance = Some [] then Inr (False, asm, b)
      else
        let block_text = build_block (the guidance);
            projected = utf8_len (as_system_prompt asm) + 2 + utf8_len block_text
        in if (\<exists>limit. cap = Some limit \<and> projected > limit)
           then Inr (False, warn (GuidanceOverBytes (the cap)) asm, b)
           else
             let joined = as_system_prompt asm @ blank_line @ block_text;
                 tokens = max 0 (count joined - count (as_system_prompt asm))
             in case can_fit b ''system'' tokens of
                  Inl e \<Rightarrow> Inl e
                | Inr False \<Rightarrow> Inr (False, warn GuidanceOverTokens asm, b)
                | Inr True \<Rightarrow>
                    (case use_tokens b ''system'' tokens 1 of
                       Inl e \<Rightarrow> Inl e
                     | Inr (False, b') \<Rightarrow> Inr (False, warn GuidanceOverTokens asm, b')
                     | Inr (True, b') \<Rightarrow>
                         Inr (True, asm\<lparr>as_system_prompt := joined\<rparr>, b')))"

definition commit_episodes ::
    "'b use_op \<Rightarrow> assembly \<Rightarrow> 'b \<Rightarrow> section_result option
       \<Rightarrow> budget_error + (assembly \<times> 'b \<times> section_result option)" where
  "commit_episodes use_tokens asm b result =
     (case result of
        None \<Rightarrow> Inr (asm, b, None)
      | Some r \<Rightarrow>
          if sr_warning r \<noteq> [] then Inr (warn (Carried (sr_warning r)) asm, b, Some r)
          else case use_tokens b (sr_name r) (sr_tokens r) (sr_items r) of
                 Inl e \<Rightarrow> Inl e
               | Inr (True, b') \<Rightarrow>
                   Inr (asm\<lparr>as_system_prompt := as_system_prompt asm @ blank_line @ sr_append_text r,
                            as_episode_count := sr_items r\<rparr>,
                        b', Some (r\<lparr>sr_committed := True\<rparr>))
               | Inr (False, b') \<Rightarrow> Inr (warn (EpisodeSkipped (sr_tokens r)) asm, b', Some r))"

definition commit_dynamic_section ::
    "'b can_fit_op \<Rightarrow> 'b use_op \<Rightarrow> assembly \<Rightarrow> 'b \<Rightarrow> section_result option
       \<Rightarrow> budget_error + (assembly \<times> 'b \<times> section_result option)" where
  "commit_dynamic_section can_fit use_tokens asm b result =
     (case result of
        None \<Rightarrow> Inr (asm, b, None)
      | Some r \<Rightarrow>
          if sr_warning r \<noteq> [] then Inr (warn (Carried (sr_warning r)) asm, b, Some r)
          else case can_fit b (sr_name r) (sr_tokens r) of
                 Inl e \<Rightarrow> Inl e
               | Inr True \<Rightarrow>
                   (case use_tokens b (sr_name r) (sr_tokens r) 1 of
                      Inl e \<Rightarrow> Inl e
                    | Inr (_, b') \<Rightarrow>
                        let asm1 = asm\<lparr>as_dynamic_blocks := as_dynamic_blocks asm @ [sr_dynamic_block r]\<rparr>;
                            asm2 = (if sr_name r = ''memories'' then asm1\<lparr>as_memory_count := sr_items r\<rparr>
                                    else if sr_name r = ''rag'' then asm1\<lparr>as_rag_chunks := sr_items r\<rparr>
                                    else asm1)
                        in Inr (asm2, b', Some (r\<lparr>sr_committed := True\<rparr>)))
               | Inr False \<Rightarrow>
                   Inr (warn (SectionSkipped (sr_name r) (sr_tokens r)) asm, b, Some r))"

subsection \<open>The budget as its clients see it\<close>

text \<open>
  \<open>wf\<close> is the provider's invariant and \<open>spent\<close> what it has recorded. What \<open>can_fit\<close> accepts,
  \<open>use\<close> accepts and records in full.
\<close>

locale section_account =
  fixes can_fit :: "'b \<Rightarrow> string \<Rightarrow> int \<Rightarrow> budget_error + bool"
    and use_tokens :: "'b \<Rightarrow> string \<Rightarrow> int \<Rightarrow> int \<Rightarrow> budget_error + (bool \<times> 'b)"
    and wf :: "'b \<Rightarrow> bool"
    and spent :: "'b \<Rightarrow> int"
  assumes can_fit_neg: "can_fit b s t = Inl e \<longleftrightarrow> t < 0 \<and> e = ValueError"
    and use_fits: "wf b \<Longrightarrow> can_fit b s t = Inr True \<Longrightarrow> 0 \<le> i \<Longrightarrow>
      \<exists>b'. use_tokens b s t i = Inr (True, b') \<and> wf b' \<and> spent b' = spent b + t"
begin

lemma use_fitsD:
  assumes "wf b" and "can_fit b s t = Inr True" and "use_tokens b s t 1 = Inr (r, b')"
  shows "r \<and> wf b' \<and> spent b' = spent b + t"
  using use_fits [OF assms(1,2), of 1] assms(3) by auto

lemma commit_dynamic_exact:
  assumes "wf b" and "sr_warning r = []" and "0 \<le> sr_tokens r"
    and "commit_dynamic_section can_fit use_tokens asm b (Some r) = Inr (asm', b', r')"
  shows "wf b'"
    and "can_fit b (sr_name r) (sr_tokens r) = Inr True \<Longrightarrow>
      spent b' = spent b + sr_tokens r
      \<and> asm' = asm\<lparr>as_dynamic_blocks := as_dynamic_blocks asm @ [sr_dynamic_block r],
          as_memory_count := if sr_name r = ''memories'' then sr_items r else as_memory_count asm,
          as_rag_chunks := if sr_name r = ''rag'' then sr_items r else as_rag_chunks asm\<rparr>
      \<and> r' = Some (r\<lparr>sr_committed := True\<rparr>)"
    and "can_fit b (sr_name r) (sr_tokens r) = Inr False \<Longrightarrow>
      b' = b \<and> r' = Some r
      \<and> asm' = asm\<lparr>as_warnings := as_warnings asm @ [SectionSkipped (sr_name r) (sr_tokens r)]\<rparr>"
  using assms use_fits [of b "sr_name r" "sr_tokens r" 1]
  by (auto simp: commit_dynamic_section_def warn_def Let_def split: sum.splits bool.splits if_splits)

lemma commit_dynamic_returns:
  assumes "wf b" and "0 \<le> sr_tokens r"
  shows "\<exists>res. commit_dynamic_section can_fit use_tokens asm b (Some r) = Inr res"
proof (cases "can_fit b (sr_name r) (sr_tokens r)")
  case (Inl e)
  with can_fit_neg assms(2) show ?thesis by auto
next
  case (Inr fits)
  with use_fits [OF assms(1), of "sr_name r" "sr_tokens r" 1] show ?thesis
    by (cases fits) (auto simp: commit_dynamic_section_def Let_def)
qed

lemma guidance_exact:
  assumes "wf b"
    and "apply_reflection_guidance can_fit use_tokens count build asm b g cap = Inr (done, asm', b')"
  shows "wf b' \<and> (if done
     then spent b' = spent b + max 0 (count (as_system_prompt asm') - count (as_system_prompt asm))
     else b' = b \<and> as_system_prompt asm' = as_system_prompt asm)"
proof -
  define tokens where "tokens = max 0 (count (as_system_prompt asm @ blank_line @ build (the g))
    - count (as_system_prompt asm))"
  have prompt: "as_system_prompt (warn w asm) = as_system_prompt asm" for w
    by (simp add: warn_def)
  consider (skip) w where "\<not> done" "b' = b" "asm' = asm \<or> asm' = warn w asm"
    | (full) "\<not> done" "can_fit b ''system'' tokens = Inr True"
        "use_tokens b ''system'' tokens 1 = Inr (False, b')"
    | (put) "done" "can_fit b ''system'' tokens = Inr True"
        "use_tokens b ''system'' tokens 1 = Inr (True, b')"
        "as_system_prompt asm' = as_system_prompt asm @ blank_line @ build (the g)"
    using assms(2) unfolding apply_reflection_guidance_def Let_def tokens_def [symmetric]
    by (auto split: if_splits sum.splits bool.splits)
  then show ?thesis
  proof cases
    case skip
    with assms(1) prompt show ?thesis by auto
  next
    case full
    with use_fitsD [OF assms(1) full(2,3)] show ?thesis by simp
  next
    case put
    with use_fitsD [OF assms(1) put(2,3)] show ?thesis by (simp add: tokens_def)
  qed
qed

end

subsection \<open>Both budgets provide it\<close>

definition account_wf :: "'a token_budget_scheme \<Rightarrow> bool" where
  "account_wf b \<longleftrightarrow>
     (\<forall>k a. dict_get (tb_allocations b) k = Some a \<longrightarrow> ta_used a \<le> ta_budget a)"


lemma total_used_put:
  "dict_get (tb_allocations b) k = Some a \<Longrightarrow>
   total_used (b\<lparr>tb_allocations := dict_put k a' (tb_allocations b)\<rparr>)
     = total_used b - ta_used a + ta_used a'"
  by (simp add: total_used_def dict_sum_put)

lemma base_use_fits:
  assumes "account_wf b" and "base_can_fit b s t = Inr True" and "0 \<le> i"
  shows "\<exists>b'. base_use b s t i = Inr (True, b') \<and> account_wf b' \<and> total_used b' = total_used b + t"
proof -
  from assms(2) obtain a where a: "dict_get (tb_allocations b) s = Some a"
    and t: "0 \<le> t" "t \<le> remaining a"
    by (auto simp: base_can_fit_def split: if_splits option.splits)
  have "ta_used a \<le> ta_budget a" using assms(1) a unfolding account_wf_def by blast
  with t have "ta_used a + t \<le> ta_budget a" by (simp add: remaining_def)
  with a t assms(1,3) show ?thesis
    by (auto simp: base_use_def Let_def account_wf_def total_used_put)
qed


lemma base_can_fit_neg: "base_can_fit b s t = Inl e \<longleftrightarrow> t < 0 \<and> e = ValueError"
  by (auto simp: base_can_fit_def split: option.splits)


interpretation static_account: section_account base_can_fit base_use account_wf total_used
  by unfold_locales (auto simp: base_can_fit_neg intro: base_use_fits)



subsection \<open>Properties\<close>







end
