(* ===== verification/Async_RWLock.thy ===== *)
theory Async_RWLock
  imports Prelude
begin

text \<open>
  Model of \<open>kestrel_sovereign/_async_rwlock.py\<close>: the writer-preferring reader/writer lock.
  The code runs on one event loop, so what it does between two \<open>await\<close>s is one atomic
  operation on the lock's fields; those operations come first. The step relation then
  interleaves any number of tasks that take and return leases, also under cancellation. A task
  that awaits the event \<open>_changed\<close> is marked ready when the event is set, and retries only then.
\<close>

subsection \<open>The fields and the atomic operations\<close>

datatype rw_error = Unacquired_writer | Unacquired_reader

record rw_lock =
  rw_readers :: int
  rw_writer :: bool
  rw_waiting :: int
  rw_changed :: bool

definition rw_init :: rw_lock where
  "rw_init = \<lparr>rw_readers = 0, rw_writer = False, rw_waiting = 0, rw_changed = False\<rparr>"

definition rw_locked :: "rw_lock \<Rightarrow> bool" where
  "rw_locked s \<longleftrightarrow> rw_writer s \<or> rw_readers s > 0"

text \<open>\<open>acquire\<close>: queueing, one turn of its loop (granted or blocked), and its \<open>finally\<close>.\<close>

definition rw_writer_enter :: "rw_lock \<Rightarrow> rw_lock" where
  "rw_writer_enter s = s\<lparr>rw_waiting := rw_waiting s + 1\<rparr>"

definition rw_writer_leave :: "rw_lock \<Rightarrow> rw_lock" where
  "rw_writer_leave s = s\<lparr>rw_waiting := rw_waiting s - 1, rw_changed := True\<rparr>"

definition rw_writer_try :: "rw_lock \<Rightarrow> bool \<times> rw_lock" where
  "rw_writer_try s =
     (if \<not> rw_writer s \<and> rw_readers s = 0
      then (True, rw_writer_leave (s\<lparr>rw_writer := True\<rparr>))
      else (False, s\<lparr>rw_changed := False\<rparr>))"

definition rw_release :: "rw_lock \<Rightarrow> rw_error + rw_lock" where
  "rw_release s =
     (if \<not> rw_writer s then Inl Unacquired_writer
      else Inr (s\<lparr>rw_writer := False, rw_changed := True\<rparr>))"

definition rw_downgrade :: "rw_lock \<Rightarrow> rw_error + rw_lock" where
  "rw_downgrade s =
     (if \<not> rw_writer s then Inl Unacquired_writer
      else Inr (s\<lparr>rw_writer := False, rw_readers := rw_readers s + 1, rw_changed := True\<rparr>))"

definition rw_try_acquire_read :: "rw_lock \<Rightarrow> bool \<times> rw_lock" where
  "rw_try_acquire_read s =
     (if rw_writer s \<or> rw_waiting s \<noteq> 0 then (False, s)
      else (True, s\<lparr>rw_readers := rw_readers s + 1\<rparr>))"

text \<open>One turn of the loop of \<open>acquire_read\<close>.\<close>

definition rw_reader_try :: "rw_lock \<Rightarrow> bool \<times> rw_lock" where
  "rw_reader_try s =
     (case rw_try_acquire_read s of
        (True, s') \<Rightarrow> (True, s')
      | (False, s') \<Rightarrow> (False, s'\<lparr>rw_changed := False\<rparr>))"

definition rw_release_read :: "rw_lock \<Rightarrow> rw_error + rw_lock" where
  "rw_release_read s =
     (if rw_readers s = 0 then Inl Unacquired_reader
      else Inr (s\<lparr>rw_readers := rw_readers s - 1, rw_changed := True\<rparr>))"

text \<open>\<open>_DowngradedReaderLease.__aexit__\<close>: the lease is given back once, however often it exits.\<close>

definition lease_exit :: "bool \<Rightarrow> rw_lock \<Rightarrow> rw_error + (bool \<times> rw_lock)" where
  "lease_exit released s =
     (if released then Inr (released, s)
      else case rw_release_read s of Inl e \<Rightarrow> Inl e | Inr s' \<Rightarrow> Inr (True, s'))"

subsection \<open>Tasks\<close>

datatype rw_pc =
    Idle
  | Wants_Write bool  \<comment> \<open>suspended in \<open>acquire\<close>; ready to retry?\<close>
  | Wants_Read bool   \<comment> \<open>suspended in \<open>acquire_read\<close>; ready to retry?\<close>
  | Writing
  | Reading

record 't rw_sys =
  rw_state :: rw_lock
  rw_pcs :: "'t \<Rightarrow> rw_pc"

fun woken :: "rw_pc \<Rightarrow> rw_pc" where
  "woken (Wants_Write _) = Wants_Write True"
| "woken (Wants_Read _) = Wants_Read True"
| "woken p = p"

text \<open>The lock's fields and one task change; a set event makes every suspended task ready.\<close>

definition rw_become :: "'t rw_sys \<Rightarrow> 't \<Rightarrow> rw_pc \<Rightarrow> rw_lock \<Rightarrow> 't rw_sys" where
  "rw_become y t p s =
     \<lparr>rw_state = s, rw_pcs = (if rw_changed s then woken \<circ> rw_pcs y else rw_pcs y)(t := p)\<rparr>"

inductive rw_step :: "'t rw_sys \<Rightarrow> 't rw_sys \<Rightarrow> bool" where
  write_start: "rw_pcs y t = Idle
    \<Longrightarrow> rw_writer_try (rw_writer_enter (rw_state y)) = (got, s)
    \<Longrightarrow> rw_step y (rw_become y t (if got then Writing else Wants_Write False) s)"
| write_retry: "rw_pcs y t = Wants_Write True
    \<Longrightarrow> rw_writer_try (rw_state y) = (got, s)
    \<Longrightarrow> rw_step y (rw_become y t (if got then Writing else Wants_Write False) s)"
| write_cancel: "rw_pcs y t = Wants_Write ready
    \<Longrightarrow> rw_step y (rw_become y t Idle (rw_writer_leave (rw_state y)))"
| write_release: "rw_pcs y t = Writing \<Longrightarrow> rw_release (rw_state y) = Inr s
    \<Longrightarrow> rw_step y (rw_become y t Idle s)"
| write_downgrade: "rw_pcs y t = Writing \<Longrightarrow> rw_downgrade (rw_state y) = Inr s
    \<Longrightarrow> rw_step y (rw_become y t Reading s)"
| read_start: "rw_pcs y t = Idle \<or> rw_pcs y t = Wants_Read True
    \<Longrightarrow> rw_reader_try (rw_state y) = (got, s)
    \<Longrightarrow> rw_step y
          \<lparr>rw_state = s, rw_pcs = (rw_pcs y)(t := if got then Reading else Wants_Read False)\<rparr>"
| read_try: "rw_pcs y t = Idle \<Longrightarrow> rw_try_acquire_read (rw_state y) = (got, s)
    \<Longrightarrow> rw_step y \<lparr>rw_state = s, rw_pcs = (rw_pcs y)(t := if got then Reading else Idle)\<rparr>"
| read_cancel: "rw_pcs y t = Wants_Read ready
    \<Longrightarrow> rw_step y \<lparr>rw_state = rw_state y, rw_pcs = (rw_pcs y)(t := Idle)\<rparr>"
| read_release: "rw_pcs y t = Reading \<Longrightarrow> rw_release_read (rw_state y) = Inr s
    \<Longrightarrow> rw_step y (rw_become y t Idle s)"

inductive_cases rw_stepE: "rw_step y y'"

inductive rw_reachable :: "'t rw_sys \<Rightarrow> bool" where
  rw_start: "rw_reachable \<lparr>rw_state = rw_init, rw_pcs = (\<lambda>_. Idle)\<rparr>"
| rw_next: "rw_reachable y \<Longrightarrow> rw_step y y' \<Longrightarrow> rw_reachable y'"

subsection \<open>The invariant\<close>

fun wants_write :: "rw_pc \<Rightarrow> bool" where
  "wants_write (Wants_Write _) \<longleftrightarrow> True"
| "wants_write _ \<longleftrightarrow> False"

definition active :: "rw_pc \<Rightarrow> bool" where
  "active p \<longleftrightarrow> p \<noteq> Idle"

definition rw_inv :: "'t rw_sys \<Rightarrow> bool" where
  "rw_inv y \<longleftrightarrow>
     finite {t. active (rw_pcs y t)}
     \<and> rw_readers (rw_state y) = count_at (rw_pcs y) (\<lambda>p. p = Reading)
     \<and> count_at (rw_pcs y) (\<lambda>p. p = Writing) = (if rw_writer (rw_state y) then 1 else 0)
     \<and> rw_waiting (rw_state y) = count_at (rw_pcs y) wants_write
     \<and> (rw_writer (rw_state y) \<longrightarrow> rw_readers (rw_state y) = 0)
     \<and> (\<forall>t. rw_pcs y t = Wants_Write False \<longrightarrow> rw_locked (rw_state y))
     \<and> (\<forall>t. rw_pcs y t = Wants_Read False
            \<longrightarrow> rw_writer (rw_state y) \<or> rw_waiting (rw_state y) \<noteq> 0)"

lemma woken_facts:
  "woken p = Reading \<longleftrightarrow> p = Reading" "woken p = Writing \<longleftrightarrow> p = Writing"
  "wants_write (woken p) = wants_write p" "active (woken p) = active p"
  "woken p \<noteq> Wants_Write False" "woken p \<noteq> Wants_Read False"
  by (cases p; simp add: active_def)+

text \<open>The three kinds of counts, and what one task's move does to them.\<close>

lemma rw_finite:
  assumes "finite {t. active (pcs t)}"
  shows "finite {t. pcs t = Reading}" and "finite {t. pcs t = Writing}"
    and "finite {t. wants_write (pcs t)}"
  by (rule finite_subset [OF _ assms]; force simp: active_def)+

lemma rw_count_moves:
  assumes "finite {t. active (pcs t)}"
  shows "count_at (pcs(i := p)) (\<lambda>p. p = Reading) = count_at pcs (\<lambda>p. p = Reading)
      - (if pcs i = Reading then 1 else 0) + (if p = Reading then 1 else 0)"
    and "count_at (pcs(i := p)) (\<lambda>p. p = Writing) = count_at pcs (\<lambda>p. p = Writing)
      - (if pcs i = Writing then 1 else 0) + (if p = Writing then 1 else 0)"
    and "count_at (pcs(i := p)) wants_write = count_at pcs wants_write
      - (if wants_write (pcs i) then 1 else 0) + (if wants_write p then 1 else 0)"
    and "finite {t. active ((pcs(i := p)) t)}"
  using count_at_upd [of "\<lambda>p. p = Reading", OF rw_finite(1) [OF assms]]
    count_at_upd [of "\<lambda>p. p = Writing", OF rw_finite(2) [OF assms]]
    count_at_upd [of wants_write, OF rw_finite(3) [OF assms]]
    finite_at_upd [of active, OF assms] by simp_all

lemma rw_wake_counts:
  "count_at (woken \<circ> pcs) (\<lambda>p. p = Reading) = count_at pcs (\<lambda>p. p = Reading)"
  "count_at (woken \<circ> pcs) (\<lambda>p. p = Writing) = count_at pcs (\<lambda>p. p = Writing)"
  "count_at (woken \<circ> pcs) wants_write = count_at pcs wants_write"
  "{t. active ((woken \<circ> pcs) t)} = {t. active (pcs t)}"
  by (simp_all add: count_at_map woken_facts)

lemmas rw_ops = rw_writer_try_def rw_writer_enter_def rw_writer_leave_def rw_release_def
  rw_downgrade_def rw_reader_try_def rw_try_acquire_read_def rw_release_read_def rw_locked_def

text \<open>
  A move that sets the event: every suspended task becomes ready, so only the counts and the
  exclusion have to be re-established.
\<close>

lemma rw_inv_wake:
  assumes inv: "rw_inv y" and "rw_changed s"
    and "rw_readers s = rw_readers (rw_state y)
      - (if rw_pcs y t = Reading then 1 else 0) + (if p = Reading then 1 else 0)"
    and "(if rw_writer s then 1 else 0 :: int) = (if rw_writer (rw_state y) then 1 else 0)
      - (if rw_pcs y t = Writing then 1 else 0) + (if p = Writing then 1 else 0)"
    and "rw_waiting s = rw_waiting (rw_state y)
      - (if wants_write (rw_pcs y t) then 1 else 0) + (if wants_write p then 1 else 0)"
    and "rw_writer s \<Longrightarrow> rw_readers s = 0"
    and "p \<noteq> Wants_Write False" and "p \<noteq> Wants_Read False"
  shows "rw_inv (rw_become y t p s)"
proof -
  let ?w = "woken \<circ> rw_pcs y"
  have fin: "finite {u. active (?w u)}"
    using inv by (simp add: rw_inv_def woken_facts)
  have y: "rw_readers (rw_state y) = count_at (rw_pcs y) (\<lambda>p. p = Reading)"
    "count_at (rw_pcs y) (\<lambda>p. p = Writing) = (if rw_writer (rw_state y) then 1 else 0)"
    "rw_waiting (rw_state y) = count_at (rw_pcs y) wants_write"
    using inv unfolding rw_inv_def by blast+
  have "rw_readers s = count_at (?w(t := p)) (\<lambda>p. p = Reading)"
    "count_at (?w(t := p)) (\<lambda>p. p = Writing) = (if rw_writer s then 1 else 0)"
    "rw_waiting s = count_at (?w(t := p)) wants_write"
    unfolding rw_count_moves [OF fin] rw_wake_counts assms(3-5) y(1,3)
    by (simp_all only: y(2) comp_apply woken_facts)
  moreover have "(?w(t := p)) u \<noteq> Wants_Write False \<and> (?w(t := p)) u \<noteq> Wants_Read False" for u
    using assms(7,8) by (simp add: woken_facts)
  moreover have "finite {u. (u = t \<longrightarrow> active p) \<and> (u \<noteq> t \<longrightarrow> active (woken (rw_pcs y u)))}"
    using rw_count_moves(4) [OF fin, of t p] by (rule rev_finite_subset) auto
  ultimately show ?thesis unfolding rw_inv_def rw_become_def using assms(2,6) by simp
qed

text \<open>A move that does not set it: the other tasks stay as they were.\<close>

lemma rw_inv_quiet:
  assumes inv: "rw_inv y"
    and "rw_readers s = rw_readers (rw_state y)
      - (if rw_pcs y t = Reading then 1 else 0) + (if p = Reading then 1 else 0)"
    and "(if rw_writer s then 1 else 0 :: int) = (if rw_writer (rw_state y) then 1 else 0)
      - (if rw_pcs y t = Writing then 1 else 0) + (if p = Writing then 1 else 0)"
    and "rw_waiting s = rw_waiting (rw_state y)
      - (if wants_write (rw_pcs y t) then 1 else 0) + (if wants_write p then 1 else 0)"
    and "rw_writer s \<Longrightarrow> rw_readers s = 0"
    and "rw_locked (rw_state y) \<Longrightarrow> rw_locked s"
    and "rw_writer (rw_state y) \<or> rw_waiting (rw_state y) \<noteq> 0 \<Longrightarrow> rw_writer s \<or> rw_waiting s \<noteq> 0"
    and "p = Wants_Write False \<Longrightarrow> rw_locked s"
    and "p = Wants_Read False \<Longrightarrow> rw_writer s \<or> rw_waiting s \<noteq> 0"
  shows "rw_inv \<lparr>rw_state = s, rw_pcs = (rw_pcs y)(t := p)\<rparr>"
proof -
  have fin: "finite {u. active (rw_pcs y u)}" using inv by (simp add: rw_inv_def)
  show ?thesis
    using assms rw_count_moves [OF fin, of t p] by (auto simp: rw_inv_def)
qed

lemma rw_inv_facts:
  assumes "rw_inv y"
  shows "0 \<le> rw_readers (rw_state y)" and "0 \<le> rw_waiting (rw_state y)"
    and "rw_writer (rw_state y) \<Longrightarrow> rw_readers (rw_state y) = 0"
    and "wants_write (rw_pcs y t) \<Longrightarrow> 0 < rw_waiting (rw_state y)"
    and "rw_pcs y t = Reading \<Longrightarrow> 0 < rw_readers (rw_state y) \<and> \<not> rw_writer (rw_state y)"
    and "rw_pcs y t = Writing \<Longrightarrow> rw_writer (rw_state y) \<and> rw_readers (rw_state y) = 0"
proof -
  have fin: "finite {t. active (rw_pcs y t)}" using assms by (simp add: rw_inv_def)
  note fins = rw_finite [OF fin]
  show "0 \<le> rw_readers (rw_state y)" and "0 \<le> rw_waiting (rw_state y)"
    and "rw_writer (rw_state y) \<Longrightarrow> rw_readers (rw_state y) = 0"
    using assms by (simp_all add: rw_inv_def)
  show "wants_write (rw_pcs y t) \<Longrightarrow> 0 < rw_waiting (rw_state y)"
    using assms count_at_pos [of wants_write, OF fins(3)] by (simp add: rw_inv_def)
  show r: "rw_pcs y t = Reading \<Longrightarrow> 0 < rw_readers (rw_state y) \<and> \<not> rw_writer (rw_state y)"
    using assms count_at_pos [of "\<lambda>p. p = Reading", OF fins(1), of t] by (auto simp: rw_inv_def)
  show "rw_pcs y t = Writing \<Longrightarrow> rw_writer (rw_state y) \<and> rw_readers (rw_state y) = 0"
    using assms count_at_pos [of "\<lambda>p. p = Writing", OF fins(2), of t]
    by (auto simp: rw_inv_def split: if_splits)
qed

lemma rw_step_inv: "rw_step y y' \<Longrightarrow> rw_inv y \<Longrightarrow> rw_inv y'"
proof (induction rule: rw_step.induct)
  case (write_start y t got s)
  note f = rw_inv_facts [OF write_start.prems]
  show ?case
  proof (cases got)
    case True
    with write_start f show ?thesis
      by (intro rw_inv_wake) (auto simp: rw_ops split: if_splits)
  next
    case False
    with write_start f have "\<not> rw_changed s" by (auto simp: rw_ops split: if_splits)
    with False write_start f show ?thesis unfolding rw_become_def
      by (simp, intro rw_inv_quiet) (auto simp: rw_ops split: if_splits)
  qed
next
  case (write_retry y t got s)
  note f = rw_inv_facts [OF write_retry.prems]
  show ?case
  proof (cases got)
    case True
    with write_retry f show ?thesis
      by (intro rw_inv_wake) (auto simp: rw_ops split: if_splits)
  next
    case False
    with write_retry f have "\<not> rw_changed s" by (auto simp: rw_ops split: if_splits)
    with False write_retry f show ?thesis unfolding rw_become_def
      by (simp, intro rw_inv_quiet) (auto simp: rw_ops split: if_splits)
  qed
next
  case (write_cancel y t ready)
  with rw_inv_facts [OF write_cancel.prems] show ?case
    by (intro rw_inv_wake) (auto simp: rw_ops rw_inv_def)
next
  case (write_release y t s)
  with rw_inv_facts [OF write_release.prems] show ?case
    by (intro rw_inv_wake) (auto simp: rw_ops split: if_splits)
next
  case (write_downgrade y t s)
  with rw_inv_facts [OF write_downgrade.prems] show ?case
    by (intro rw_inv_wake) (auto simp: rw_ops split: if_splits)
next
  case (read_start y t got s)
  with rw_inv_facts [OF read_start.prems] show ?case
    by (intro rw_inv_quiet) (auto simp: rw_ops split: if_splits prod.splits)
next
  case (read_try y t got s)
  with rw_inv_facts [OF read_try.prems] show ?case
    by (intro rw_inv_quiet) (auto simp: rw_ops split: if_splits)
next
  case (read_cancel y t ready)
  then show ?case by (intro rw_inv_quiet) (auto simp: rw_inv_def)
next
  case (read_release y t s)
  with rw_inv_facts [OF read_release.prems] show ?case
    by (intro rw_inv_wake) (auto simp: rw_ops split: if_splits)
qed

lemma rw_reachable_inv: "rw_reachable y \<Longrightarrow> rw_inv y"
proof (induction rule: rw_reachable.induct)
  case rw_start
  show ?case by (simp add: rw_inv_def rw_init_def active_def count_at_def)
next
  case (rw_next y y')
  then show ?case by (blast intro: rw_step_inv)
qed

subsection \<open>Properties\<close>

text \<open>C20: however many tasks take and give back leases of the reader/writer lock, in whatever
  order, also with cancelled waits and downgrades, a task that writes is alone: no other task
  writes or reads at the same time.\<close>

theorem rw_writer_excludes_all:
  assumes "rw_reachable y" and "rw_pcs y t = Writing" and "u \<noteq> t"
  shows "rw_pcs y u \<noteq> Writing \<and> rw_pcs y u \<noteq> Reading"
proof -
  have inv: "rw_inv y" using assms(1) by (rule rw_reachable_inv)
  note f = rw_inv_facts [OF inv]
  have w: "rw_writer (rw_state y)" "rw_readers (rw_state y) = 0" using f(6) assms(2) by auto
  then have "card {v. rw_pcs y v = Writing} = 1"
    using inv by (simp add: rw_inv_def count_at_def)
  then obtain x where "{v. rw_pcs y v = Writing} = {x}" by (rule card_1_singletonE)
  with assms(2,3) have "rw_pcs y u \<noteq> Writing" by (metis mem_Collect_eq singletonD)
  moreover have "rw_pcs y u \<noteq> Reading" using f(5) [of u] w by auto
  ultimately show ?thesis ..
qed

text \<open>A run in which a writer is granted and a reader has to wait.\<close>

definition rw_demo :: "nat rw_sys" where
  "rw_demo = \<lparr>rw_state = \<lparr>rw_readers = 0, rw_writer = True, rw_waiting = 0, rw_changed = False\<rparr>,
     rw_pcs = (\<lambda>_. Idle)(0 := Writing, 1 := Wants_Read False)\<rparr>"

lemma rw_demo_reachable: "rw_reachable rw_demo"
proof -
  let ?y0 = "\<lparr>rw_state = rw_init, rw_pcs = (\<lambda>_. Idle)\<rparr> :: nat rw_sys"
  have "rw_step ?y0 (rw_become ?y0 0 (if True then Writing else Wants_Write False)
      \<lparr>rw_readers = 0, rw_writer = True, rw_waiting = 0, rw_changed = True\<rparr>)"
    by (rule write_start) (simp_all add: rw_ops rw_init_def)
  then have one: "rw_reachable \<lparr>rw_state =
      \<lparr>rw_readers = 0, rw_writer = True, rw_waiting = 0, rw_changed = True\<rparr>,
      rw_pcs = (\<lambda>_. Idle)(0 := Writing) :: nat \<Rightarrow> rw_pc\<rparr>"
    using rw_next [OF rw_start] by (simp add: rw_become_def comp_def)
  have "rw_step \<lparr>rw_state =
      \<lparr>rw_readers = 0, rw_writer = True, rw_waiting = 0, rw_changed = True\<rparr>,
      rw_pcs = (\<lambda>_. Idle)(0 := Writing) :: nat \<Rightarrow> rw_pc\<rparr> rw_demo"
    using read_start [of "\<lparr>rw_state =
      \<lparr>rw_readers = 0, rw_writer = True, rw_waiting = 0, rw_changed = True\<rparr>,
      rw_pcs = ((\<lambda>_. Idle)(0 := Writing) :: nat \<Rightarrow> rw_pc)\<rparr>" 1 False]
    by (simp add: rw_ops rw_demo_def del: One_nat_def)
  with one show ?thesis by (rule rw_next)
qed

theorem rw_writer_excludes_all_witness:
  "rw_pcs rw_demo 1 \<noteq> Writing \<and> rw_pcs rw_demo 1 \<noteq> Reading"
  using rw_writer_excludes_all [OF rw_demo_reachable, of 0 1] by (simp add: rw_demo_def)

text \<open>C21: no wake-up is lost: whenever no task holds the lock and some task waits for it, a
  waiting task has been woken and its next turn takes the lock.\<close>

theorem rw_no_lost_wakeup:
  assumes "rw_reachable y" and "\<forall>t. rw_pcs y t \<noteq> Writing \<and> rw_pcs y t \<noteq> Reading"
    and "rw_pcs y u \<noteq> Idle"
  shows "\<exists>t y'. rw_pcs y t \<in> {Wants_Write True, Wants_Read True} \<and> rw_step y y'
    \<and> rw_pcs y' t \<in> {Writing, Reading}"
proof -
  have inv: "rw_inv y" using assms(1) by (rule rw_reachable_inv)
  have fin: "finite {t. active (rw_pcs y t)}" using inv by (simp add: rw_inv_def)
  have none: "count_at (rw_pcs y) (\<lambda>p. p = Reading) = 0"
    "count_at (rw_pcs y) (\<lambda>p. p = Writing) = 0"
    using assms(2) by (simp_all add: count_at_def)
  have free: "rw_readers (rw_state y) = 0" "\<not> rw_writer (rw_state y)"
    using inv none by (auto simp: rw_inv_def split: if_splits)
  show ?thesis
  proof (cases "\<exists>t. wants_write (rw_pcs y t)")
    case True
    then obtain t r where "rw_pcs y t = Wants_Write r" by (metis wants_write.elims(2))
    moreover have "r" using inv calculation free by (cases r) (auto simp: rw_inv_def rw_locked_def)
    ultimately have t: "rw_pcs y t = Wants_Write True" by simp
    have "rw_writer_try (rw_state y) = (True, rw_writer_leave (rw_state y\<lparr>rw_writer := True\<rparr>))"
      using free by (simp add: rw_writer_try_def)
    from write_retry [OF t this] t show ?thesis by (force simp: rw_become_def)
  next
    case False
    then have zero: "rw_waiting (rw_state y) = 0"
      using inv by (simp add: rw_inv_def count_at_def)
    have "\<exists>r. rw_pcs y u = Wants_Read r"
    proof -
      have "\<not> wants_write (rw_pcs y u)" using False by blast
      with assms(2,3) show ?thesis by (cases "rw_pcs y u") auto
    qed
    then obtain r where "rw_pcs y u = Wants_Read r" ..
    moreover have "r" using inv calculation free zero by (cases r) (auto simp: rw_inv_def)
    ultimately have u: "rw_pcs y u = Wants_Read True" by simp
    have "rw_reader_try (rw_state y) = (True, rw_state y\<lparr>rw_readers := rw_readers (rw_state y) + 1\<rparr>)"
      using free zero by (simp add: rw_reader_try_def rw_try_acquire_read_def)
    from read_start [OF disjI2 [OF u] this] u show ?thesis by force
  qed
qed

text \<open>The run above, after the writer has left: the reader is ready.\<close>

definition rw_demo2 :: "nat rw_sys" where
  "rw_demo2 = \<lparr>rw_state = \<lparr>rw_readers = 0, rw_writer = False, rw_waiting = 0, rw_changed = True\<rparr>,
     rw_pcs = (\<lambda>_. Idle)(1 := Wants_Read True)\<rparr>"

lemma rw_demo2_reachable: "rw_reachable rw_demo2"
proof -
  have "rw_step rw_demo (rw_become rw_demo 0 Idle
      \<lparr>rw_readers = 0, rw_writer = False, rw_waiting = 0, rw_changed = True\<rparr>)"
    by (rule write_release) (simp_all add: rw_demo_def rw_ops)
  moreover have "rw_become rw_demo 0 Idle
      \<lparr>rw_readers = 0, rw_writer = False, rw_waiting = 0, rw_changed = True\<rparr> = rw_demo2"
    by (auto simp: rw_demo_def rw_demo2_def rw_become_def)
  ultimately show ?thesis using rw_next [OF rw_demo_reachable] by simp
qed

theorem rw_no_lost_wakeup_witness:
  "\<exists>t y'. rw_pcs rw_demo2 t \<in> {Wants_Write True, Wants_Read True} \<and> rw_step rw_demo2 y'
     \<and> rw_pcs y' t \<in> {Writing, Reading}"
  by (rule rw_no_lost_wakeup [OF rw_demo2_reachable, of 1]) (simp_all add: rw_demo2_def)

text \<open>writers are preferred: while a writer waits, the only task that becomes a reader is a
  writer that downgrades its own lease.\<close>

theorem rw_waiting_writer_blocks_readers:
  assumes "rw_reachable y" and "rw_step y y'" and "rw_pcs y w = Wants_Write r"
    and "rw_pcs y t \<noteq> Reading" and "rw_pcs y' t = Reading"
  shows "rw_pcs y t = Writing"
proof -
  have inv: "rw_inv y" using assms(1) by (rule rw_reachable_inv)
  have "rw_waiting (rw_state y) \<noteq> 0" using rw_inv_facts(4) [OF inv, of w] assms(3) by simp
  with assms(2,4,5) show ?thesis
    by (cases rule: rw_step.cases)
      (auto simp: rw_become_def rw_reader_try_def rw_try_acquire_read_def woken_facts
        split: if_splits)
qed

definition rw_demo3 :: "nat rw_sys" where
  "rw_demo3 = \<lparr>rw_state = \<lparr>rw_readers = 0, rw_writer = True, rw_waiting = 1, rw_changed = False\<rparr>,
     rw_pcs = (\<lambda>_. Idle)(0 := Writing, 1 := Wants_Read False, 2 := Wants_Write False)\<rparr>"

lemma rw_demo3_reachable: "rw_reachable rw_demo3"
proof -
  have "rw_step rw_demo (rw_become rw_demo 2 (if False then Writing else Wants_Write False)
      \<lparr>rw_readers = 0, rw_writer = True, rw_waiting = 1, rw_changed = False\<rparr>)"
    by (rule write_start) (simp_all add: rw_demo_def rw_ops)
  moreover have "rw_become rw_demo 2 (if False then Writing else Wants_Write False)
      \<lparr>rw_readers = 0, rw_writer = True, rw_waiting = 1, rw_changed = False\<rparr> = rw_demo3"
    by (simp add: rw_demo_def rw_demo3_def rw_become_def)
  ultimately show ?thesis using rw_next [OF rw_demo_reachable] by simp
qed

theorem rw_waiting_writer_blocks_readers_witness:
  "\<exists>y'. rw_step rw_demo3 y' \<and> rw_pcs y' 0 = Reading \<and> rw_pcs rw_demo3 0 = Writing"
proof -
  let ?y = "rw_become rw_demo3 0 Reading
    \<lparr>rw_readers = 1, rw_writer = False, rw_waiting = 1, rw_changed = True\<rparr>"
  have step: "rw_step rw_demo3 ?y"
    by (rule write_downgrade) (simp_all add: rw_demo3_def rw_ops)
  have read: "rw_pcs ?y 0 = Reading" by (simp add: rw_become_def)
  have "rw_pcs rw_demo3 2 = Wants_Write False" "rw_pcs rw_demo3 0 \<noteq> Reading"
    by (simp_all add: rw_demo3_def)
  with rw_waiting_writer_blocks_readers [OF rw_demo3_reachable step _ _ read] step read
  show ?thesis by blast
qed

end
