(* ===== verification/Lock_Manager.thy ===== *)
theory Lock_Manager
  imports Prelude "HOL-Library.Product_Lexorder" "HOL-Library.List_Lexorder" "HOL-Library.Char_ord"
begin

text \<open>
  Model of \<open>kestrel_sovereign/signals/lock_manager.py\<close>: the named locks of the signal dispatcher,
  acquired in one global order. A lock is the string value of its \<open>ResourceLock\<close> member; which
  value is \<open>CONVERSATION\<close> is an argument, because the enumeration is declared in another package.
  The periodic warnings are not modelled; the bookkeeping they read (holders and waiter counts)
  is, and \<open>acquire\<close>s may be nested to any depth. An \<open>asyncio.Lock\<close> is its owner; who is granted a free lock is left open, which covers the
  queue order of the library.
\<close>

subsection \<open>The global order\<close>

definition lock_sort_key :: "string \<Rightarrow> string \<Rightarrow> nat \<times> string" where
  "lock_sort_key conversation name = (if name = conversation then (1, []) else (0, name))"

text \<open>\<open>sorted(set(names), key=lock_sort_key)\<close>\<close>

definition lock_plan :: "string \<Rightarrow> string list \<Rightarrow> string list" where
  "lock_plan conversation names = sort_key (lock_sort_key conversation) (remdups names)"

subsection \<open>The manager\<close>

record 't lock_holder =
  lh_label :: string
  lh_acquired_at :: int
  lh_owner_task :: 't
  lh_token :: nat

record 't lock_manager =
  lm_owner :: "string \<Rightarrow> 't option"
  lm_holders :: "string \<Rightarrow> 't lock_holder option"
  lm_waiters :: "string \<Rightarrow> int option"
  lm_next_token :: nat

definition lm_init :: "'t lock_manager" where
  "lm_init = \<lparr>lm_owner = (\<lambda>_. None), lm_holders = (\<lambda>_. None), lm_waiters = (\<lambda>_. None),
     lm_next_token = 0\<rparr>"

text \<open>
  What \<open>_acquire_one\<close> does once the lock is taken. The label is the caller's, or the lock's own
  name (an empty label counts as none). A fresh token stands for the fresh \<open>object()\<close>.
\<close>

definition lm_take ::
    "'t lock_manager \<Rightarrow> 't \<Rightarrow> string \<Rightarrow> string option \<Rightarrow> int \<Rightarrow> 't lock_manager" where
  "lm_take m t name label now =
     m\<lparr>lm_owner := (lm_owner m)(name \<mapsto> t),
       lm_holders := (lm_holders m)(name \<mapsto>
         \<lparr>lh_label = (case label of None \<Rightarrow> name | Some s \<Rightarrow> if s = [] then name else s),
          lh_acquired_at = now, lh_owner_task = t, lh_token = lm_next_token m\<rparr>),
       lm_next_token := Suc (lm_next_token m)\<rparr>"

definition lm_wait_begin :: "'t lock_manager \<Rightarrow> string \<Rightarrow> 't lock_manager" where
  "lm_wait_begin m name =
     m\<lparr>lm_waiters := (lm_waiters m)(name \<mapsto>
        (case lm_waiters m name of None \<Rightarrow> 0 | Some n \<Rightarrow> n) + 1)\<rparr>"

definition lm_wait_end :: "'t lock_manager \<Rightarrow> string \<Rightarrow> 't lock_manager" where
  "lm_wait_end m name =
     (let left = (case lm_waiters m name of None \<Rightarrow> 1 | Some n \<Rightarrow> n) - 1
      in m\<lparr>lm_waiters := (lm_waiters m)(name := if left > 0 then Some left else None)\<rparr>)"

text \<open>The \<open>finally\<close> of \<open>acquire\<close>: release in reverse order of acquisition.\<close>

definition lm_release_one :: "string \<Rightarrow> 't lock_manager \<Rightarrow> 't lock_manager" where
  "lm_release_one name m =
     m\<lparr>lm_owner := (lm_owner m)(name := None), lm_holders := (lm_holders m)(name := None)\<rparr>"

definition lm_release_all :: "string list \<Rightarrow> 't lock_manager \<Rightarrow> 't lock_manager" where
  "lm_release_all acquired m = fold lm_release_one (rev acquired) m"

definition lm_is_held :: "'t lock_manager \<Rightarrow> string \<Rightarrow> bool" where
  "lm_is_held m name \<longleftrightarrow> lm_owner m name \<noteq> None"

text \<open>
  Ownership as a tool sees it: the task itself, or a child context that was handed the token of
  the live hold. \<open>delegated\<close> is the context variable's entry for this manager.
\<close>

definition lm_owned_by :: "'t lock_manager \<Rightarrow> 't \<Rightarrow> nat set \<Rightarrow> string \<Rightarrow> bool" where
  "lm_owned_by m current delegated name =
     (case lm_holders m name of
        None \<Rightarrow> False
      | Some h \<Rightarrow> lh_owner_task h = current \<or> lh_token h \<in> delegated)"

definition lm_delegate :: "'t lock_manager \<Rightarrow> 't \<Rightarrow> nat set \<Rightarrow> nat set" where
  "lm_delegate m current delegated =
     (delegated \<inter> {lh_token h |h name. lm_holders m name = Some h})
     \<union> {lh_token h |h name. lm_holders m name = Some h \<and> lh_owner_task h = current}"

subsection \<open>Tasks\<close>

datatype lm_pc =
    Outside
  | Taking "string option" "string list" "string list"  \<comment> \<open>label, acquired, still to take\<close>
  | Blocked bool "string option" "string list" string "string list"
      \<comment> \<open>counted as a waiter?, label, acquired, the lock waited for, the rest\<close>
  | Inside "string list"

text \<open>
  \<open>lm_pcs\<close> is where a task is in its innermost \<open>acquire\<close>; \<open>lm_outer\<close> the locks taken by each \<open>acquire\<close>
  around it whose body it is in, the innermost first. A turn runs nested: the dispatcher acquires the
  resources of a source and the turn lifecycle acquires \<open>CONVERSATION\<close> inside.
\<close>

record 't lm_sys =
  lm_state :: "'t lock_manager"
  lm_pcs :: "'t \<Rightarrow> lm_pc"
  lm_outer :: "'t \<Rightarrow> string list list"

fun held :: "lm_pc \<Rightarrow> string list" where
  "held Outside = []"
| "held (Taking _ acq _) = acq"
| "held (Blocked _ _ acq _ _) = acq"
| "held (Inside acq) = acq"

fun todo :: "lm_pc \<Rightarrow> string list" where
  "todo (Taking _ _ rest) = rest"
| "todo (Blocked _ _ _ l rest) = l # rest"
| "todo _ = []"

fun counted_on :: "string \<Rightarrow> lm_pc \<Rightarrow> bool" where
  "counted_on l (Blocked c _ _ l' _) \<longleftrightarrow> c \<and> l' = l"
| "counted_on l _ \<longleftrightarrow> False"

fun waits_on :: "string \<Rightarrow> lm_pc \<Rightarrow> bool" where
  "waits_on l (Blocked _ _ _ l' _) \<longleftrightarrow> l' = l"
| "waits_on l _ \<longleftrightarrow> False"

definition lm_move :: "'t lm_sys \<Rightarrow> 't \<Rightarrow> lm_pc \<Rightarrow> 't lock_manager \<Rightarrow> 't lm_sys" where
  "lm_move y t p m = y\<lparr>lm_state := m, lm_pcs := (lm_pcs y)(t := p)\<rparr>"

text \<open>The \<open>async with\<close> of a task that is already in the body of one, and its end.\<close>

definition lm_push :: "'t lm_sys \<Rightarrow> 't \<Rightarrow> string list \<Rightarrow> lm_pc \<Rightarrow> 't lm_sys" where
  "lm_push y t acq p = y\<lparr>lm_pcs := (lm_pcs y)(t := p), lm_outer := (lm_outer y)(t := acq # lm_outer y t)\<rparr>"

fun lm_resume :: "string list list \<Rightarrow> lm_pc" where
  "lm_resume [] = Outside"
| "lm_resume (acq # outer) = Inside acq"

definition lm_leave :: "'t lm_sys \<Rightarrow> 't \<Rightarrow> 't lock_manager \<Rightarrow> 't lm_sys" where
  "lm_leave y t m = y\<lparr>lm_state := m, lm_pcs := (lm_pcs y)(t := lm_resume (lm_outer y t)),
     lm_outer := (lm_outer y)(t := tl (lm_outer y t))\<rparr>"

text \<open>
  A failed or cancelled \<open>acquire\<close> gives back what it took and ends; the exception then reaches the body of
  the \<open>acquire\<close> around it, which may end in turn or go on.
\<close>

inductive lm_step :: "string \<Rightarrow> 't lm_sys \<Rightarrow> 't lm_sys \<Rightarrow> bool"
  for conversation :: string where
  lm_enter: "lm_pcs y t = Outside
    \<Longrightarrow> lm_step conversation y
          (lm_move y t (Taking label [] (lock_plan conversation names)) (lm_state y))"
| lm_nest: "lm_pcs y t = Inside acq
    \<Longrightarrow> lm_step conversation y (lm_push y t acq (Taking label [] (lock_plan conversation names)))"
| lm_yield: "lm_pcs y t = Taking label acq []
    \<Longrightarrow> lm_step conversation y (lm_move y t (Inside acq) (lm_state y))"
| lm_fast: "lm_pcs y t = Taking label acq (l # rest) \<Longrightarrow> lm_owner (lm_state y) l = None
    \<Longrightarrow> lm_step conversation y
          (lm_move y t (Taking label (acq @ [l]) rest) (lm_take (lm_state y) t l label now))"
| lm_queue: "lm_pcs y t = Taking label acq (l # rest) \<Longrightarrow> lm_owner (lm_state y) l \<noteq> None
    \<Longrightarrow> lm_step conversation y
          (lm_move y t (Blocked True label acq l rest) (lm_wait_begin (lm_state y) l))"
| lm_queue_uncounted: "lm_pcs y t = Taking label acq (l # rest)
    \<Longrightarrow> lm_owner (lm_state y) l = None \<Longrightarrow> waits_on l (lm_pcs y u)
    \<Longrightarrow> lm_step conversation y (lm_move y t (Blocked False label acq l rest) (lm_state y))"
| lm_grant: "lm_pcs y t = Blocked c label acq l rest \<Longrightarrow> lm_owner (lm_state y) l = None
    \<Longrightarrow> lm_step conversation y
          (lm_move y t (Taking label (acq @ [l]) rest)
            (lm_take (if c then lm_wait_end (lm_state y) l else lm_state y) t l label now))"
| lm_cancel_wait: "lm_pcs y t = Blocked c label acq l rest
    \<Longrightarrow> lm_step conversation y
          (lm_leave y t (lm_release_all acq (if c then lm_wait_end (lm_state y) l else lm_state y)))"
| lm_cancel: "lm_pcs y t = Taking label acq rest
    \<Longrightarrow> lm_step conversation y (lm_leave y t (lm_release_all acq (lm_state y)))"
| lm_exit: "lm_pcs y t = Inside acq
    \<Longrightarrow> lm_step conversation y (lm_leave y t (lm_release_all acq (lm_state y)))"

definition lm_idle :: "'t lm_sys" where
  "lm_idle = \<lparr>lm_state = lm_init, lm_pcs = (\<lambda>_. Outside), lm_outer = (\<lambda>_. [])\<rparr>"

inductive lm_reachable :: "string \<Rightarrow> 't lm_sys \<Rightarrow> bool" for conversation :: string where
  lm_start: "lm_reachable conversation lm_idle"
| lm_next: "lm_reachable conversation y \<Longrightarrow> lm_step conversation y y'
    \<Longrightarrow> lm_reachable conversation y'"

text \<open>Every lock a task holds, those of the enclosing \<open>acquire\<close>s first.\<close>

definition held_all :: "'t lm_sys \<Rightarrow> 't \<Rightarrow> string list" where
  "held_all y t = concat (rev (lm_outer y t)) @ held (lm_pcs y t)"

text \<open>
  The discipline the module's order asks of nested \<open>acquire\<close>s, and which the code leaves to its callers: one
  that is entered in the body of another asks only for locks above every lock the task holds.
\<close>

definition nests_in_order :: "string \<Rightarrow> 't lm_sys \<Rightarrow> 't lm_sys \<Rightarrow> bool" where
  "nests_in_order conversation y y' \<longleftrightarrow> (\<forall>t acq label plan.
     lm_pcs y t = Inside acq \<longrightarrow> lm_pcs y' t = Taking label [] plan \<longrightarrow>
     (\<forall>l \<in> set (held_all y t). \<forall>k \<in> set plan. lock_sort_key conversation l < lock_sort_key conversation k))"

inductive lm_disciplined :: "string \<Rightarrow> 't lm_sys \<Rightarrow> bool" for conversation :: string where
  lm_disciplined_start: "lm_disciplined conversation lm_idle"
| lm_disciplined_next: "lm_disciplined conversation y \<Longrightarrow> lm_step conversation y y'
    \<Longrightarrow> nests_in_order conversation y y' \<Longrightarrow> lm_disciplined conversation y'"

lemma disciplined_reachable: "lm_disciplined conversation y \<Longrightarrow> lm_reachable conversation y"
  by (induction rule: lm_disciplined.induct) (auto intro: lm_start lm_next)

subsection \<open>A global order leaves no cycle of waits\<close>

locale acquisition_order =
  fixes key :: "'l \<Rightarrow> 'k :: linorder"
  assumes key_inj: "key a = key b \<Longrightarrow> a = b"
begin

lemma plan_strict: "sorted_wrt (\<lambda>a b. key a < key b) (sort_key key (remdups xs))"
proof -
  have "sorted (map key (sort_key key (remdups xs)))" by simp
  moreover have "distinct (map key (sort_key key (remdups xs)))"
    by (auto simp: distinct_map inj_on_def dest: key_inj)
  ultimately have "sorted_wrt (<) (map key (sort_key key (remdups xs)))"
    unfolding strict_sorted_iff by (rule conjI)
  then show ?thesis unfolding sorted_wrt_map .
qed

lemma not_all_blocked:
  assumes "finite T" and "T \<noteq> {}"
    and owned: "\<And>t. t \<in> T \<Longrightarrow> \<exists>u \<in> T. next_lock t \<in> set (holds u)"
    and ordered: "\<And>t l. t \<in> T \<Longrightarrow> l \<in> set (holds t) \<Longrightarrow> key l < key (next_lock t)"
  shows False
proof -
  have "finite ((\<lambda>t. key (next_lock t)) ` T)" and "(\<lambda>t. key (next_lock t)) ` T \<noteq> {}"
    using assms(1,2) by auto
  then have "Max ((\<lambda>t. key (next_lock t)) ` T) \<in> (\<lambda>t. key (next_lock t)) ` T" by (rule Max_in)
  then obtain t where t: "t \<in> T" "key (next_lock t) = Max ((\<lambda>t. key (next_lock t)) ` T)" by auto
  from owned [OF t(1)] obtain u where u: "u \<in> T" "next_lock t \<in> set (holds u)" by blast
  then have "key (next_lock t) < key (next_lock u)" by (rule ordered)
  moreover have "key (next_lock u) \<le> key (next_lock t)"
    unfolding t(2) using u(1) assms(1) by (intro Max_ge) auto
  ultimately show False by simp
qed

end

interpretation lock_order: acquisition_order "lock_sort_key conversation" for conversation
  by unfold_locales (auto simp: lock_sort_key_def split: if_splits)

lemma lock_plan_strict:
  "sorted_wrt (\<lambda>a b. lock_sort_key conv a < lock_sort_key conv b) (lock_plan conv names)"
  unfolding lock_plan_def by (rule lock_order.plan_strict)

lemma set_lock_plan [simp]: "set (lock_plan conv names) = set names"
  by (simp add: lock_plan_def)


subsection \<open>What releasing does\<close>

lemma lm_release_one_simps [simp]:
  "lm_owner (lm_release_one l m) = (lm_owner m)(l := None)"
  "lm_holders (lm_release_one l m) = (lm_holders m)(l := None)"
  "lm_waiters (lm_release_one l m) = lm_waiters m"
  "lm_next_token (lm_release_one l m) = lm_next_token m"
  by (simp_all add: lm_release_one_def)

lemma lm_release_all_simps [simp]:
  "lm_owner (lm_release_all acq m) l = (if l \<in> set acq then None else lm_owner m l)"
  "lm_holders (lm_release_all acq m) l = (if l \<in> set acq then None else lm_holders m l)"
  "lm_waiters (lm_release_all acq m) = lm_waiters m"
  "lm_next_token (lm_release_all acq m) = lm_next_token m"
proof -
  have "lm_owner (fold lm_release_one xs m) l = (if l \<in> set xs then None else lm_owner m l)
    \<and> lm_holders (fold lm_release_one xs m) l = (if l \<in> set xs then None else lm_holders m l)
    \<and> lm_waiters (fold lm_release_one xs m) = lm_waiters m
    \<and> lm_next_token (fold lm_release_one xs m) = lm_next_token m" for xs
    by (induction xs arbitrary: m) auto
  then show "lm_owner (lm_release_all acq m) l = (if l \<in> set acq then None else lm_owner m l)"
    "lm_holders (lm_release_all acq m) l = (if l \<in> set acq then None else lm_holders m l)"
    "lm_waiters (lm_release_all acq m) = lm_waiters m"
    "lm_next_token (lm_release_all acq m) = lm_next_token m"
    by (simp_all add: lm_release_all_def)
qed

lemma lm_wait_simps [simp]:
  "lm_owner (lm_wait_begin m l) = lm_owner m" "lm_owner (lm_wait_end m l) = lm_owner m"
  "lm_holders (lm_wait_begin m l) = lm_holders m" "lm_holders (lm_wait_end m l) = lm_holders m"
  "lm_next_token (lm_wait_begin m l) = lm_next_token m"
  "lm_next_token (lm_wait_end m l) = lm_next_token m"
  by (simp_all add: lm_wait_begin_def lm_wait_end_def Let_def)

lemma lm_move_simps [simp]:
  "lm_state (lm_move y t p m) = m" "lm_pcs (lm_move y t p m) = (lm_pcs y)(t := p)"
  "lm_outer (lm_move y t p m) = lm_outer y"
  "lm_state (lm_push y t acq p) = lm_state y" "lm_pcs (lm_push y t acq p) = (lm_pcs y)(t := p)"
  "lm_outer (lm_push y t acq p) = (lm_outer y)(t := acq # lm_outer y t)"
  "lm_state (lm_leave y t m) = m" "lm_pcs (lm_leave y t m) = (lm_pcs y)(t := lm_resume (lm_outer y t))"
  "lm_outer (lm_leave y t m) = (lm_outer y)(t := tl (lm_outer y t))"
  by (simp_all add: lm_move_def lm_push_def lm_leave_def)

lemma lm_resume_simps [simp]:
  "todo (lm_resume outer) = []" "\<not> counted_on l (lm_resume outer)" "\<not> waits_on l (lm_resume outer)"
  "concat (rev (tl outer)) @ held (lm_resume outer) = concat (rev outer)"
  by (cases outer; simp)+

lemma held_all_simps [simp]:
  "held_all (lm_move y t p m) u = (if u = t then concat (rev (lm_outer y t)) @ held p else held_all y u)"
  "held_all (lm_push y t acq p) u = (if u = t then concat (rev (lm_outer y t)) @ acq @ held p else held_all y u)"
  "held_all (lm_leave y t m) u = (if u = t then concat (rev (lm_outer y t)) else held_all y u)"
  by (simp_all add: held_all_def)

lemma held_all_pc: "lm_pcs y t = p \<Longrightarrow> held_all y t = concat (rev (lm_outer y t)) @ held p"
  by (simp add: held_all_def)

subsection \<open>The invariant\<close>

definition stack_inv :: "'t lm_sys \<Rightarrow> bool" where
  "stack_inv y \<longleftrightarrow> (\<forall>t. lm_pcs y t = Outside \<longrightarrow> lm_outer y t = [])"

definition order_inv :: "string \<Rightarrow> 't lm_sys \<Rightarrow> bool" where
  "order_inv conv y \<longleftrightarrow> (\<forall>t. sorted_wrt (\<lambda>a b. lock_sort_key conv a < lock_sort_key conv b)
     (held_all y t @ todo (lm_pcs y t)))"

definition own_inv :: "'t lm_sys \<Rightarrow> bool" where
  "own_inv y \<longleftrightarrow> (\<forall>l t. lm_owner (lm_state y) l = Some t \<longleftrightarrow> l \<in> set (held_all y t)) \<and>
     (\<forall>t. distinct (held_all y t))"

definition wait_inv :: "'t lm_sys \<Rightarrow> bool" where
  "wait_inv y \<longleftrightarrow> finite {t. lm_pcs y t \<noteq> Outside} \<and>
     (\<forall>l. lm_waiters (lm_state y) l =
        (let n = count_at (lm_pcs y) (counted_on l) in if 0 < n then Some n else None))"

lemma stack_inv_step: "lm_step conv y y' \<Longrightarrow> stack_inv y \<Longrightarrow> stack_inv y'"
proof (induction rule: lm_step.induct)
  case (lm_cancel_wait y t c label acq l rest)
  then show ?case by (cases "lm_outer y t") (simp_all add: stack_inv_def)
next
  case (lm_cancel y t label acq rest)
  then show ?case by (cases "lm_outer y t") (simp_all add: stack_inv_def)
next
  case (lm_exit y t acq)
  then show ?case by (cases "lm_outer y t") (simp_all add: stack_inv_def)
qed (auto simp: stack_inv_def)

lemma order_invD:
  "order_inv conv y \<Longrightarrow> lm_pcs y t = p
    \<Longrightarrow> sorted_wrt (\<lambda>a b. lock_sort_key conv a < lock_sort_key conv b) (concat (rev (lm_outer y t)) @ held p @ todo p)"
  by (auto simp: order_inv_def held_all_def)

lemma order_inv_step:
  assumes "lm_step conv y y'" and n: "nests_in_order conv y y'" and inv: "order_inv conv y" and st: "stack_inv y"
  shows "order_inv conv y'"
proof -
  let ?s = "sorted_wrt (\<lambda>a b. lock_sort_key conv a < lock_sort_key conv b)"
  have rest: "?s (held_all y u @ todo (lm_pcs y u))" for u using inv by (simp add: order_inv_def)
  have out: "?s (concat (rev (lm_outer y u)))" for u using rest [of u] by (simp add: held_all_def sorted_wrt_append)
  from assms(1) show ?thesis
  proof cases
    case (lm_enter t label names)
    then show ?thesis using rest st by (simp add: order_inv_def stack_inv_def lock_plan_strict)
  next
    case (lm_nest t acq label names)
    have h: "held_all y t = concat (rev (lm_outer y t)) @ acq" using lm_nest(2) by (simp add: held_all_def)
    have "\<forall>l \<in> set (held_all y t). \<forall>k \<in> set names. lock_sort_key conv l < lock_sort_key conv k"
      using n [unfolded nests_in_order_def, rule_format, of t acq label "lock_plan conv names"] lm_nest by simp
    moreover have "?s (held_all y t)" using rest [of t] lm_nest(2) by simp
    ultimately have "?s ((concat (rev (lm_outer y t)) @ acq) @ lock_plan conv names)"
      unfolding h sorted_wrt_append [of _ "_ @ _"] using lock_plan_strict by simp
    then show ?thesis using rest lm_nest(1) by (simp add: order_inv_def)
  next
    case (lm_yield t label acq)
    then show ?thesis using rest order_invD [OF inv lm_yield(2)] by (simp add: order_inv_def)
  next
    case (lm_fast t label acq l more_locks now)
    then show ?thesis using rest order_invD [OF inv lm_fast(2)] by (simp add: order_inv_def)
  next
    case (lm_queue t label acq l more_locks)
    then show ?thesis using rest order_invD [OF inv lm_queue(2)] by (simp add: order_inv_def)
  next
    case (lm_queue_uncounted t label acq l more_locks u)
    then show ?thesis using rest order_invD [OF inv lm_queue_uncounted(2)] by (simp add: order_inv_def)
  next
    case (lm_grant t c label acq l more_locks now)
    then show ?thesis using rest order_invD [OF inv lm_grant(2)] by (simp add: order_inv_def)
  qed (use rest out in \<open>simp_all add: order_inv_def\<close>)
qed

lemma own_inv_take:
  assumes "own_inv y" and "held (lm_pcs y t) = acq" and "lm_owner (lm_state y) l = None"
    and "held p = acq @ [l]" and "lm_owner m = (lm_owner (lm_state y))(l \<mapsto> t)"
  shows "own_inv (lm_move y t p m)"
proof -
  have free: "l \<notin> set (held_all y u)" for u
    using assms(1,3) unfolding own_inv_def by (metis option.distinct(1))
  have h: "held_all y t = concat (rev (lm_outer y t)) @ acq" using assms(2) by (simp add: held_all_def)
  have "distinct (held_all y t @ [l])" using assms(1) free [of t] by (simp add: own_inv_def)
  with assms free h show ?thesis by (auto simp: own_inv_def)
qed

lemma own_inv_leave:
  assumes "own_inv y" and "held (lm_pcs y t) = acq"
    and "\<And>l. lm_owner m l = (if l \<in> set acq then None else lm_owner (lm_state y) l)"
  shows "own_inv (lm_leave y t m)"
proof -
  have h: "held_all y t = concat (rev (lm_outer y t)) @ acq" using assms(2) by (simp add: held_all_def)
  have own: "lm_owner (lm_state y) l = Some u \<longleftrightarrow> l \<in> set (held_all y u)" and d: "distinct (held_all y u)" for l u
    using assms(1) by (simp_all add: own_inv_def)
  have mine: "u = t" if "l \<in> set acq" "l \<in> set (held_all y u)" for l u
    using that own [of l u] own [of l t] h by simp
  have split: "l \<in> set (concat (rev (lm_outer y t))) \<longleftrightarrow> l \<in> set (held_all y t) \<and> l \<notin> set acq" for l
    using d [of t] by (auto simp: h)
  have "lm_owner m l = Some u \<longleftrightarrow> l \<in> set (held_all (lm_leave y t m) u)" for l u
  proof (cases "u = t")
    case True
    then show ?thesis using split [of l] own [of l t] assms(3) by (simp del: set_concat)
  next
    case False
    then show ?thesis using own [of l u] mine [of l u] assms(3) by auto
  qed
  moreover have "distinct (held_all (lm_leave y t m) u)" for u using d [of u] h by (cases "u = t") simp_all
  ultimately show ?thesis by (simp add: own_inv_def)
qed

lemma own_inv_same:
  "own_inv y \<Longrightarrow> (\<And>u. held_all y' u = held_all y u) \<Longrightarrow> lm_owner (lm_state y') = lm_owner (lm_state y) \<Longrightarrow> own_inv y'"
  by (simp add: own_inv_def)

lemma lm_take_simps [simp]:
  "lm_owner (lm_take m t l label now) = (lm_owner m)(l \<mapsto> t)"
  "lm_waiters (lm_take m t l label now) = lm_waiters m"
  "lm_next_token (lm_take m t l label now) = Suc (lm_next_token m)"
  "map_option lh_owner_task (lm_holders (lm_take m t l label now) k)
     = (if k = l then Some t else map_option lh_owner_task (lm_holders m k))"
  "map_option lh_token (lm_holders (lm_take m t l label now) k)
     = (if k = l then Some (lm_next_token m) else map_option lh_token (lm_holders m k))"
  by (simp_all add: lm_take_def)

lemma own_inv_step:
  assumes "lm_step conv y y'" and inv: "own_inv y" and st: "stack_inv y" shows "own_inv y'"
  using assms(1)
proof cases
  case (lm_enter t label names)
  then show ?thesis using st by (intro own_inv_same [OF inv]) (simp_all add: held_all_def stack_inv_def)
next
  case (lm_fast t label acq l rest now)
  then show ?thesis by (auto intro: own_inv_take [OF inv])
next
  case (lm_grant t c label acq l rest now)
  then show ?thesis by (auto intro: own_inv_take [OF inv])
next
  case (lm_cancel_wait t c label acq l rest)
  then show ?thesis by (auto intro: own_inv_leave [OF inv])
next
  case (lm_cancel t label acq rest)
  then show ?thesis by (auto intro: own_inv_leave [OF inv])
next
  case (lm_exit t acq)
  then show ?thesis by (auto intro: own_inv_leave [OF inv])
qed (use own_inv_same [OF inv] in \<open>simp_all add: held_all_pc\<close>)

text \<open>
  What a step does to the table of holders: it keeps it, forgets some entries together with their
  owners, or adds one entry with a fresh token.
\<close>

definition holders_change :: "'t lock_manager \<Rightarrow> 't lock_manager \<Rightarrow> bool" where
  "holders_change m m' \<longleftrightarrow>
     (lm_next_token m' = lm_next_token m \<and>
      (\<exists>S. \<forall>l. lm_owner m' l = (if l \<in> S then None else lm_owner m l) \<and>
             lm_holders m' l = (if l \<in> S then None else lm_holders m l))) \<or>
     (\<exists>l h. lh_token h = lm_next_token m \<and> lm_next_token m' = Suc (lm_next_token m) \<and>
        lm_holders m' = (lm_holders m)(l \<mapsto> h) \<and>
        lm_owner m' = (lm_owner m)(l \<mapsto> lh_owner_task h))"

lemma holders_change_same:
  "lm_owner m' = lm_owner m \<Longrightarrow> lm_holders m' = lm_holders m
    \<Longrightarrow> lm_next_token m' = lm_next_token m \<Longrightarrow> holders_change m m'"
  unfolding holders_change_def by (rule disjI1) (auto intro: exI [of _ "{}"])

lemma holders_change_release:
  "lm_owner m' = lm_owner m \<Longrightarrow> lm_holders m' = lm_holders m
    \<Longrightarrow> lm_next_token m' = lm_next_token m \<Longrightarrow> holders_change m (lm_release_all acq m')"
  unfolding holders_change_def by (rule disjI1) (auto intro: exI [of _ "set acq"])

lemma holders_change_take:
  "lm_owner m' = lm_owner m \<Longrightarrow> lm_holders m' = lm_holders m
    \<Longrightarrow> lm_next_token m' = lm_next_token m \<Longrightarrow> holders_change m (lm_take m' t l label now)"
  unfolding holders_change_def lm_take_def by (rule disjI2) (intro exI [of _ l] exI conjI, auto)

lemma lm_step_holders: "lm_step conv y y' \<Longrightarrow> holders_change (lm_state y) (lm_state y')"
  by (induction rule: lm_step.induct)
     (auto intro!: holders_change_same holders_change_release holders_change_take)

definition holders_ok :: "'t lock_manager \<Rightarrow> bool" where
  "holders_ok m \<longleftrightarrow>
     (\<forall>l. map_option lh_owner_task (lm_holders m l) = lm_owner m l) \<and>
     (\<forall>l h. lm_holders m l = Some h \<longrightarrow> lh_token h < lm_next_token m) \<and>
     (\<forall>l l' h h'. lm_holders m l = Some h \<longrightarrow> lm_holders m l' = Some h'
        \<longrightarrow> lh_token h = lh_token h' \<longrightarrow> l = l')"

lemma holders_ok_change:
  assumes "holders_change m m'" and "holders_ok m" shows "holders_ok m'"
  using assms(1) unfolding holders_change_def
proof (elim disjE conjE exE)
  fix S assume "lm_next_token m' = lm_next_token m"
    and "\<forall>l. lm_owner m' l = (if l \<in> S then None else lm_owner m l) \<and>
             lm_holders m' l = (if l \<in> S then None else lm_holders m l)"
  then show ?thesis using assms(2) unfolding holders_ok_def by (auto split: if_splits)
next
  fix l h assume *: "lh_token h = lm_next_token m" "lm_next_token m' = Suc (lm_next_token m)"
     "lm_holders m' = (lm_holders m)(l \<mapsto> h)" "lm_owner m' = (lm_owner m)(l \<mapsto> lh_owner_task h)"
  have "lh_token g < lm_next_token m" if "lm_holders m k = Some g" for k g
    using assms(2) that by (auto simp: holders_ok_def)
  then have "lh_token g \<noteq> lm_next_token m" if "lm_holders m k = Some g" for k g
    using that by fastforce
  with * assms(2) show ?thesis
    unfolding holders_ok_def by (simp split: if_splits) (metis less_Suc_eq)
qed

lemma wait_inv_move:
  assumes "wait_inv y"
    and "\<And>l. lm_waiters m l = (let n = count_at ((lm_pcs y)(t := p)) (counted_on l)
            in if 0 < n then Some n else None)"
    and "lm_pcs y' = (lm_pcs y)(t := p)" and "lm_state y' = m"
  shows "wait_inv y'"
  using assms finite_at_upd [of "\<lambda>p. p \<noteq> Outside" "lm_pcs y" t p] by (simp add: wait_inv_def)

lemma wait_inv_count:
  assumes "wait_inv y" and "n = count_at (lm_pcs y) (counted_on l)"
  shows "lm_waiters (lm_state y) l = (if 0 < n then Some n else None)"
    and "count_at ((lm_pcs y)(t := p)) (counted_on l)
      = n - (if counted_on l (lm_pcs y t) then 1 else 0) + (if counted_on l p then 1 else 0)"
    and "counted_on l (lm_pcs y t) \<Longrightarrow> 0 < n" and "0 \<le> n"
proof -
  have out: "counted_on l q \<Longrightarrow> q \<noteq> Outside" for q by (cases q) auto
  have fin: "finite {t. counted_on l (lm_pcs y t)}"
    using assms(1) by (auto simp: wait_inv_def dest: out intro: rev_finite_subset)
  show "lm_waiters (lm_state y) l = (if 0 < n then Some n else None)"
    using assms by (simp add: wait_inv_def Let_def)
  show "count_at ((lm_pcs y)(t := p)) (counted_on l)
      = n - (if counted_on l (lm_pcs y t) then 1 else 0) + (if counted_on l p then 1 else 0)"
    unfolding assms(2) by (rule count_at_upd [where P = "counted_on l" and pcs = "lm_pcs y", OF fin])
  show "0 < n" if "counted_on l (lm_pcs y t)"
    unfolding assms(2) using fin that by (rule count_at_pos)
  show "0 \<le> n" unfolding assms(2) by simp
qed

lemma wait_inv_keep:
  assumes "wait_inv y" and "\<And>l. counted_on l p = counted_on l (lm_pcs y t)"
    and "lm_waiters (lm_state y') = lm_waiters (lm_state y)" and "lm_pcs y' = (lm_pcs y)(t := p)"
  shows "wait_inv y'"
  by (rule wait_inv_move [OF assms(1) _ assms(4) refl])
     (simp add: assms(2,3) wait_inv_count [OF assms(1) refl] Let_def)

lemma wait_inv_begin:
  assumes "wait_inv y" and "\<And>k. \<not> counted_on k (lm_pcs y t)" and "\<And>k. counted_on k p \<longleftrightarrow> k = l"
  shows "wait_inv (lm_move y t p (lm_wait_begin (lm_state y) l))"
  by (rule wait_inv_move [OF assms(1), where t = t and p = p and m = "lm_wait_begin (lm_state y) l"])
     (use wait_inv_count(4) [OF assms(1) refl, of l] in
       \<open>simp add: assms(2,3) wait_inv_count(1,2) [OF assms(1) refl] Let_def lm_wait_begin_def
         del: count_at_nonneg; linarith?\<close>, simp_all)

lemma wait_inv_end:
  assumes "wait_inv y" and "\<And>k. counted_on k (lm_pcs y t) \<longleftrightarrow> k = l" and "\<And>k. \<not> counted_on k p"
    and "lm_waiters (lm_state y') = lm_waiters (lm_wait_end (lm_state y) l)" and "lm_pcs y' = (lm_pcs y)(t := p)"
  shows "wait_inv y'"
  by (rule wait_inv_move [OF assms(1) _ assms(5) refl])
     (use wait_inv_count(3) [OF assms(1) refl, of l t] in
       \<open>auto simp: assms(2-4) wait_inv_count(1,2) [OF assms(1) refl] Let_def lm_wait_end_def\<close>)

lemma wait_inv_step:
  assumes "lm_step conv y y'" and inv: "wait_inv y" shows "wait_inv y'"
proof -
  note keep = wait_inv_keep [OF inv] and done_waiting = wait_inv_end [OF inv]
  from assms(1) show ?thesis
  proof cases
    case (lm_enter t label names)
    show ?thesis by (rule keep [where t = t and p = "lm_pcs y' t"]) (simp_all add: lm_enter)
  next
    case (lm_nest t acq label names)
    show ?thesis by (rule keep [where t = t and p = "lm_pcs y' t"]) (simp_all add: lm_nest)
  next
    case (lm_yield t label acq)
    show ?thesis by (rule keep [where t = t and p = "lm_pcs y' t"]) (simp_all add: lm_yield)
  next
    case (lm_fast t label acq l rest now)
    show ?thesis by (rule keep [where t = t and p = "lm_pcs y' t"]) (simp_all add: lm_fast)
  next
    case (lm_queue t label acq l rest)
    then show ?thesis by (auto intro!: wait_inv_begin [OF inv])
  next
    case (lm_queue_uncounted t label acq l rest u)
    show ?thesis by (rule keep [where t = t and p = "lm_pcs y' t"]) (simp_all add: lm_queue_uncounted)
  next
    case (lm_grant t c label acq l rest now)
    show ?thesis
    proof (cases c)
      case True
      show ?thesis by (rule done_waiting [where t = t and p = "lm_pcs y' t" and l = l]) (auto simp: lm_grant True)
    next
      case False
      show ?thesis by (rule keep [where t = t and p = "lm_pcs y' t"]) (simp_all add: lm_grant False)
    qed
  next
    case (lm_cancel_wait t c label acq l rest)
    show ?thesis
    proof (cases c)
      case True
      show ?thesis by (rule done_waiting [where t = t and p = "lm_pcs y' t" and l = l]) (auto simp: lm_cancel_wait True)
    next
      case False
      show ?thesis by (rule keep [where t = t and p = "lm_pcs y' t"]) (simp_all add: lm_cancel_wait False)
    qed
  next
    case (lm_cancel t label acq rest)
    show ?thesis by (rule keep [where t = t and p = "lm_pcs y' t"]) (simp_all add: lm_cancel)
  next
    case (lm_exit t acq)
    show ?thesis by (rule keep [where t = t and p = "lm_pcs y' t"]) (simp_all add: lm_exit)
  qed
qed

lemma lm_reachable_inv:
  assumes "lm_reachable conv y"
  shows "stack_inv y" and "own_inv y" and "holders_ok (lm_state y)" and "wait_inv y"
proof -
  from assms have "stack_inv y \<and> own_inv y \<and> holders_ok (lm_state y) \<and> wait_inv y"
  proof induction
    case lm_start
    then show ?case
      by (simp add: stack_inv_def own_inv_def held_all_def holders_ok_def wait_inv_def lm_idle_def lm_init_def count_at_def)
  next
    case (lm_next y y')
    then show ?case
      by (blast intro: stack_inv_step own_inv_step wait_inv_step
            holders_ok_change [OF lm_step_holders])
  qed
  then show "stack_inv y" and "own_inv y" and "holders_ok (lm_state y)" and "wait_inv y"
    by simp_all
qed

lemma lm_disciplined_inv: "lm_disciplined conv y \<Longrightarrow> order_inv conv y"
proof (induction rule: lm_disciplined.induct)
  case lm_disciplined_start
  then show ?case by (simp add: order_inv_def held_all_def lm_idle_def)
next
  case (lm_disciplined_next y y')
  then show ?case
    using order_inv_step lm_reachable_inv(1) [OF disciplined_reachable] by blast
qed

subsection \<open>The properties\<close>

text \<open>Whether the task at this point waits for nobody: it does not sleep on an owned lock.\<close>

fun can_move :: "'t lock_manager \<Rightarrow> lm_pc \<Rightarrow> bool" where
  "can_move m (Blocked _ _ _ l _) \<longleftrightarrow> lm_owner m l = None"
| "can_move m _ \<longleftrightarrow> True"

lemma cannot_moveD:
  "\<not> can_move m p \<Longrightarrow> \<exists>c label acq l rest t. p = Blocked c label acq l rest \<and> lm_owner m l = Some t"
  by (cases p) auto

text \<open>
  C10: deadlock freedom. Tasks may acquire inside the body of an \<open>acquire\<close>, to any depth, as the turn
  lifecycle does under the dispatcher. As long as every nested \<open>acquire\<close> asks only for locks above those the
  task holds (\<open>nests_in_order\<close>), in every reachable state with a task inside \<open>acquire\<close> (taking, waiting or
  in the body) at least one such task waits for no owned lock: the single global order leaves no cycle of
  tasks that sleep on each other's locks, or on their own. The manager does not check the discipline, and
  without it the state can be stuck (\<open>nesting_against_the_order_deadlocks\<close> below).
\<close>

theorem lm_deadlock_free:
  assumes "lm_disciplined conv y" and "lm_pcs y t \<noteq> Outside"
  shows "\<exists>u. lm_pcs y u \<noteq> Outside \<and> can_move (lm_state y) (lm_pcs y u)"
proof (rule ccontr)
  note inv = lm_reachable_inv [OF disciplined_reachable [OF assms(1)]] lm_disciplined_inv [OF assms(1)]
  define T where "T = {u. lm_pcs y u \<noteq> Outside}"
  define next_lock where "next_lock u = hd (todo (lm_pcs y u))" for u
  assume none: "\<nexists>u. lm_pcs y u \<noteq> Outside \<and> can_move (lm_state y) (lm_pcs y u)"
  then have blocked: "\<exists>c label acq l rest v. lm_pcs y u = Blocked c label acq l rest
      \<and> lm_owner (lm_state y) l = Some v" if "u \<in> T" for u
    using that by (intro cannot_moveD) (auto simp: T_def)
  show False
  proof (rule lock_order.not_all_blocked [where T = T and holds = "held_all y"
        and next_lock = next_lock and conversation = conv])
    show "finite T" using inv(4) by (simp add: wait_inv_def T_def)
    show "T \<noteq> {}" using assms(2) by (auto simp: T_def)
    show "\<exists>v\<in>T. next_lock u \<in> set (held_all y v)" if "u \<in> T" for u
    proof -
      from blocked [OF that] obtain v
        where "lm_owner (lm_state y) (next_lock u) = Some v" by (auto simp: next_lock_def)
      then have "next_lock u \<in> set (held_all y v)" using inv(2) by (simp add: own_inv_def)
      moreover from this have "v \<in> T" using inv(1)
        by (cases "lm_pcs y v = Outside") (auto simp: T_def stack_inv_def held_all_def)
      ultimately show ?thesis by blast
    qed
    show "lock_sort_key conv l < lock_sort_key conv (next_lock u)"
      if "u \<in> T" and "l \<in> set (held_all y u)" for u l
      using blocked [OF that(1)] inv(5) that(2)
      by (auto simp: next_lock_def order_inv_def sorted_wrt_append dest!: spec [where x = u])
  qed
qed

text \<open>
  A turn inside a dispatch, used by the witnesses: one task holds \<open>memory\<close> and, nested in that body, takes
  \<open>conversation\<close>; another waits behind it.
\<close>

definition demo_y1 :: "bool lm_sys" where
  "demo_y1 = lm_move lm_idle True (Taking None [] [''memory'']) lm_init"
definition demo_y2 :: "bool lm_sys" where
  "demo_y2 = lm_move demo_y1 True (Taking None [''memory''] [])
     (lm_take (lm_state demo_y1) True ''memory'' None 0)"
definition demo_y3 :: "bool lm_sys" where
  "demo_y3 = lm_move demo_y2 False (Taking None [] [''memory'']) (lm_state demo_y2)"
definition demo_y4 :: "bool lm_sys" where
  "demo_y4 = lm_move demo_y3 False (Blocked True None [] ''memory'' [])
     (lm_wait_begin (lm_state demo_y3) ''memory'')"
definition demo_y5 :: "bool lm_sys" where
  "demo_y5 = lm_move demo_y4 True (Inside [''memory'']) (lm_state demo_y4)"
definition demo_y6 :: "bool lm_sys" where
  "demo_y6 = lm_push demo_y5 True [''memory''] (Taking None [] [''conversation''])"

lemma demo_plan:
  "lock_plan ''conversation'' [''conversation''] = [''conversation'']"
  "lock_plan ''conversation'' [''memory''] = [''memory'']"
  by (simp_all add: lock_plan_def lock_sort_key_def)

lemmas demo_lm_defs = demo_y1_def demo_y2_def demo_y3_def demo_y4_def demo_y5_def demo_y6_def lm_idle_def

lemma demo_enter:
  "lm_pcs y t = Outside \<Longrightarrow> lock_plan conv names = plan
    \<Longrightarrow> lm_step conv y (lm_move y t (Taking label [] plan) (lm_state y))"
  using lm_enter [of y t conv label names] by simp

lemma demo_nest:
  "lm_pcs y t = Inside acq \<Longrightarrow> lock_plan conv names = plan \<Longrightarrow> lm_step conv y (lm_push y t acq (Taking label [] plan))"
  using lm_nest [of y t acq conv label names] by simp

text \<open>A step of a task that is in no body nests nothing.\<close>

lemma no_nesting: "(\<And>t acq. lm_pcs y t = Inside acq \<Longrightarrow> lm_pcs y' t = lm_pcs y t) \<Longrightarrow> nests_in_order conv y y'"
  unfolding nests_in_order_def by force

lemma demo_steps:
  "lm_step ''conversation'' lm_idle demo_y1" "lm_step ''conversation'' demo_y1 demo_y2"
  "lm_step ''conversation'' demo_y2 demo_y3" "lm_step ''conversation'' demo_y3 demo_y4"
  "lm_step ''conversation'' demo_y4 demo_y5" "lm_step ''conversation'' demo_y5 demo_y6"
proof -
  show "lm_step ''conversation'' lm_idle demo_y1"
    using demo_enter [OF _ demo_plan(2), of lm_idle True None] by (simp add: demo_y1_def lm_idle_def)
  show "lm_step ''conversation'' demo_y1 demo_y2"
    using lm_fast [of demo_y1 True None "[]" "''memory''" "[]" "''conversation''" 0]
    by (simp add: demo_y1_def demo_y2_def lm_init_def)
  show "lm_step ''conversation'' demo_y2 demo_y3"
    unfolding demo_y3_def by (rule demo_enter [OF _ demo_plan(2)]) (simp add: demo_lm_defs)
  show "lm_step ''conversation'' demo_y3 demo_y4"
    unfolding demo_y4_def by (rule lm_queue) (simp_all add: demo_lm_defs)
  show "lm_step ''conversation'' demo_y4 demo_y5"
    unfolding demo_y5_def by (rule lm_yield) (simp add: demo_lm_defs)
  show "lm_step ''conversation'' demo_y5 demo_y6"
    unfolding demo_y6_def by (rule demo_nest [OF _ demo_plan(1)]) (simp add: demo_lm_defs)
qed

lemma demo_disciplined: "lm_disciplined ''conversation'' demo_y4" "lm_disciplined ''conversation'' demo_y6"
proof -
  note by_step = lm_disciplined_next
  have "lm_disciplined ''conversation'' demo_y1"
    by (rule by_step [OF lm_disciplined_start demo_steps(1)], rule no_nesting) (simp add: demo_lm_defs)
  then have "lm_disciplined ''conversation'' demo_y2"
    by (rule by_step [OF _ demo_steps(2)], intro no_nesting) (simp add: demo_lm_defs split: if_splits)
  then have "lm_disciplined ''conversation'' demo_y3"
    by (rule by_step [OF _ demo_steps(3)], intro no_nesting) (simp add: demo_lm_defs split: if_splits)
  then show four: "lm_disciplined ''conversation'' demo_y4"
    by (rule by_step [OF _ demo_steps(4)], intro no_nesting) (simp add: demo_lm_defs split: if_splits)
  then have "lm_disciplined ''conversation'' demo_y5"
    by (rule by_step [OF _ demo_steps(5)], intro no_nesting) (simp add: demo_lm_defs split: if_splits)
  moreover have "nests_in_order ''conversation'' demo_y5 demo_y6"
    unfolding nests_in_order_def
    by (auto simp: demo_lm_defs held_all_def lock_sort_key_def split: if_splits)
  ultimately show "lm_disciplined ''conversation'' demo_y6" by (rule by_step [OF _ demo_steps(6)])
qed

lemma lm_deadlock_free_witness:
  "\<exists>u. lm_pcs demo_y6 u \<noteq> Outside \<and> can_move (lm_state demo_y6) (lm_pcs demo_y6 u)"
  by (rule lm_deadlock_free [OF demo_disciplined(2), where t = False]) (simp add: demo_lm_defs)

text \<open>
  Against the order: from the state above the other task gives up waiting and takes \<open>conversation\<close> as a turn
  does; the first one waits for it, holding \<open>memory\<close>; and when the turn asks for \<open>memory\<close> in its body, as the
  memory tool does, both sleep for good.
\<close>

definition stuck :: "bool lm_sys" where
  "stuck = \<lparr>lm_state = \<lparr>lm_owner = (\<lambda>l. if l = ''memory'' then Some True else if l = ''conversation'' then Some False else None),
       lm_holders = (\<lambda>l. if l = ''memory'' then Some \<lparr>lh_label = ''memory'', lh_acquired_at = 0, lh_owner_task = True, lh_token = 0\<rparr>
         else if l = ''conversation'' then Some \<lparr>lh_label = ''conversation'', lh_acquired_at = 0, lh_owner_task = False, lh_token = 1\<rparr>
         else None),
       lm_waiters = (\<lambda>l. if l \<in> {''memory'', ''conversation''} then Some 1 else None), lm_next_token = 2\<rparr>,
     lm_pcs = (\<lambda>t. if t then Blocked True None [] ''conversation'' [] else Blocked True None [] ''memory'' []),
     lm_outer = (\<lambda>t. if t then [[''memory'']] else [[''conversation'']])\<rparr>"

lemma nesting_against_the_order_deadlocks:
  "lm_reachable ''conversation'' stuck \<and> (\<forall>u. lm_pcs stuck u \<noteq> Outside \<and> \<not> can_move (lm_state stuck) (lm_pcs stuck u))"
proof -
  let ?c = "''conversation''" and ?m = "''memory''"
  define b1 where "b1 = lm_move demo_y2 True (Inside [?m]) (lm_state demo_y2)"
  define b2 where "b2 = lm_move b1 False (Taking None [] [?c]) (lm_state b1)"
  define b3 where "b3 = lm_move b2 False (Taking None [?c] []) (lm_take (lm_state b2) False ?c None 0)"
  define b4 where "b4 = lm_move b3 False (Inside [?c]) (lm_state b3)"
  define b5 where "b5 = lm_push b4 True [?m] (Taking None [] [?c])"
  define b6 where "b6 = lm_move b5 True (Blocked True None [] ?c []) (lm_wait_begin (lm_state b5) ?c)"
  define b7 where "b7 = lm_push b6 False [?c] (Taking None [] [?m])"
  define b8 where "b8 = lm_move b7 False (Blocked True None [] ?m []) (lm_wait_begin (lm_state b7) ?m)"
  note defs = b1_def b2_def b3_def b4_def b5_def b6_def b7_def b8_def demo_lm_defs
  have "lm_reachable ?c demo_y2" using lm_next [OF lm_next [OF lm_start demo_steps(1)] demo_steps(2)] .
  then have "lm_reachable ?c b1" unfolding b1_def
    by (rule lm_next [OF _ lm_yield]) (simp add: demo_lm_defs)
  then have "lm_reachable ?c b2" unfolding b2_def
    by (rule lm_next [OF _ demo_enter [OF _ demo_plan(1)]]) (simp add: defs)
  moreover have "lm_step ?c b2 b3"
    using lm_fast [of b2 False None "[]" ?c "[]" ?c 0] by (simp add: b3_def b2_def b1_def demo_lm_defs lm_init_def)
  ultimately have "lm_reachable ?c b3" by (rule lm_next)
  then have "lm_reachable ?c b4" unfolding b4_def
    by (rule lm_next [OF _ lm_yield]) (simp add: defs)
  then have "lm_reachable ?c b5" unfolding b5_def
    by (rule lm_next [OF _ demo_nest [OF _ demo_plan(1)]]) (simp add: defs)
  then have "lm_reachable ?c b6" unfolding b6_def
    by (rule lm_next [OF _ lm_queue]) (simp_all add: defs)
  then have "lm_reachable ?c b7" unfolding b7_def
    by (rule lm_next [OF _ demo_nest [OF _ demo_plan(2)]]) (simp add: defs)
  then have "lm_reachable ?c b8" unfolding b8_def
    by (rule lm_next [OF _ lm_queue]) (simp_all add: defs)
  moreover have "b8 = stuck"
    by (simp add: defs stuck_def lm_move_def lm_push_def lm_take_def lm_wait_begin_def lm_init_def fun_eq_iff)
  ultimately show ?thesis by (simp add: stuck_def)
qed

lemma demo_y4_reachable: "lm_reachable ''conversation'' demo_y4"
  by (rule disciplined_reachable [OF demo_disciplined(1)])

lemma demo_y2_reachable: "lm_reachable ''conversation'' demo_y2"
  using lm_next [OF lm_next [OF lm_start demo_steps(1)] demo_steps(2)] .

text \<open>
  one owner per lock. In every reachable state, nested or not and in whatever order, a lock has an owner
  exactly when some task holds it, that task is the one recorded as its holder, no two tasks hold it and no
  task holds it twice; and in a disciplined run a task that holds the conversation lock has nothing left to
  take.
\<close>

theorem lm_exclusive_and_ordered:
  assumes "lm_reachable conv y" and "l \<in> set (held_all y t)"
  shows "lm_is_held (lm_state y) l
    \<and> map_option lh_owner_task (lm_holders (lm_state y) l) = Some t
    \<and> (\<forall>u. u \<noteq> t \<longrightarrow> l \<notin> set (held_all y u)) \<and> distinct (held_all y t)
    \<and> (l = conv \<and> lm_disciplined conv y \<longrightarrow> todo (lm_pcs y t) = [])"
proof -
  note inv = lm_reachable_inv [OF assms(1)]
  have own: "lm_owner (lm_state y) l = Some u \<longleftrightarrow> l \<in> set (held_all y u)" for u
    using inv(2) by (simp add: own_inv_def)
  have last: "todo (lm_pcs y t) = []" if "l = conv" "lm_disciplined conv y"
  proof (rule ccontr)
    assume "todo (lm_pcs y t) \<noteq> []"
    then obtain k where "k \<in> set (todo (lm_pcs y t))" by (meson list.set_sel(1))
    with lm_disciplined_inv [OF that(2)] assms(2) that(1) have "lock_sort_key conv conv < lock_sort_key conv k"
      unfolding order_inv_def sorted_wrt_append by blast
    then show False by (simp add: lock_sort_key_def split: if_splits)
  qed
  have "lm_owner (lm_state y) l = Some t" using own assms(2) by blast
  moreover from this have "l \<notin> set (held_all y u)" if "u \<noteq> t" for u using own [of u] that by simp
  moreover have "map_option lh_owner_task (lm_holders (lm_state y) l) = lm_owner (lm_state y) l"
    using inv(3) by (simp add: holders_ok_def)
  moreover have "distinct (held_all y t)" using inv(2) by (simp add: own_inv_def)
  ultimately show ?thesis using last by (simp add: lm_is_held_def)
qed

lemma lm_exclusive_and_ordered_witness:
  "map_option lh_owner_task (lm_holders (lm_state demo_y4) ''memory'') = Some True"
  using lm_exclusive_and_ordered [OF demo_y4_reachable, of "''memory''" True]
  by (simp add: demo_lm_defs held_all_def)

text \<open>
  the waiter counts are exact. In every reachable state, whatever was granted, cancelled or
  released, the manager's count for a lock is the number of tasks queued for it through the
  contended path, and the entry is absent when there is none.
\<close>

theorem lm_waiter_count_exact:
  assumes "lm_reachable conv y"
  shows "lm_waiters (lm_state y) l =
    (let n = count_at (lm_pcs y) (counted_on l) in if 0 < n then Some n else None)"
  using lm_reachable_inv(4) [OF assms] by (simp add: wait_inv_def)

lemma lm_waiter_count_exact_witness: "lm_waiters (lm_state demo_y4) ''memory'' = Some 1"
proof -
  have "{t. counted_on ''memory'' (lm_pcs demo_y4 t)} = {False}"
    by (auto simp: demo_lm_defs split: if_splits)
  then show ?thesis
    using lm_waiter_count_exact [OF demo_y4_reachable, of "''memory''"] by (simp add: count_at_def)
qed


text \<open>
  A delegated token names one live hold: it is confirmed only while that very acquisition lasts.
\<close>

lemma holders_change_stable:
  assumes "holders_change m m'" and "lm_holders m' l = Some h" and "lh_token h < lm_next_token m"
  shows "lm_holders m l = Some h"
  using assms(1) unfolding holders_change_def
proof (elim disjE conjE exE)
  fix S assume "\<forall>k. lm_owner m' k = (if k \<in> S then None else lm_owner m k) \<and>
             lm_holders m' k = (if k \<in> S then None else lm_holders m k)"
  then have "lm_holders m' l = (if l \<in> S then None else lm_holders m l)" by blast
  with assms(2) show ?thesis by (simp split: if_splits)
next
  fix k g assume "lh_token g = lm_next_token m" "lm_holders m' = (lm_holders m)(k \<mapsto> g)"
  with assms(2,3) show ?thesis by (auto split: if_splits)
qed

lemma holders_change_token: "holders_change m m' \<Longrightarrow> lm_next_token m \<le> lm_next_token m'"
  unfolding holders_change_def by auto

lemma steps_token:
  "(lm_step conv)\<^sup>*\<^sup>* y y' \<Longrightarrow> lm_next_token (lm_state y) \<le> lm_next_token (lm_state y')"
  by (induction rule: rtranclp_induct)
     (auto dest: holders_change_token [OF lm_step_holders])

lemma steps_stable:
  "(lm_step conv)\<^sup>*\<^sup>* y y' \<Longrightarrow> lm_holders (lm_state y') l = Some h
    \<Longrightarrow> lh_token h < lm_next_token (lm_state y) \<Longrightarrow> lm_holders (lm_state y) l = Some h"
proof (induction rule: rtranclp_induct)
  case (step y' y'')
  then have "lh_token h < lm_next_token (lm_state y')" using steps_token by fastforce
  with step holders_change_stable [OF lm_step_holders [OF step.hyps(2)]] show ?case by blast
qed

text \<open>
  delegation hands over exact live holds and nothing else. A context that received the
  delegation of task \<open>t\<close> (itself holding no earlier delegation) is, at any later time, told that it
  owns a lock its own task does not hold exactly when that lock is still held by the very
  acquisition \<open>t\<close> had when it delegated: releasing the lock and taking it again does not revive it.
\<close>

theorem lm_delegation_exact:
  assumes "lm_reachable conv y" and "(lm_step conv)\<^sup>*\<^sup>* y y'"
    and "lm_owner (lm_state y') l \<noteq> Some child"
  shows "lm_owned_by (lm_state y') child (lm_delegate (lm_state y) t {}) l
    \<longleftrightarrow> (\<exists>h. lm_holders (lm_state y) l = Some h \<and> lh_owner_task h = t
          \<and> lm_holders (lm_state y') l = Some h)"
proof -
  have ok: "holders_ok (lm_state y)" by (rule lm_reachable_inv(3) [OF assms(1)])
  have reach: "lm_reachable conv y'" using assms(2,1)
    by (induction rule: rtranclp_induct) (auto intro: lm_next)
  have ok': "holders_ok (lm_state y')" by (rule lm_reachable_inv(3) [OF reach])
  show ?thesis
  proof (cases "lm_holders (lm_state y') l")
    case None
    then show ?thesis by (simp add: lm_owned_by_def)
  next
    case (Some g)
    have "lm_owner (lm_state y') l = Some (lh_owner_task g)"
      using ok' Some unfolding holders_ok_def by (metis option.map(2))
    with assms(3) have other: "lh_owner_task g \<noteq> child" by simp
    have "lh_token g \<in> lm_delegate (lm_state y) t {}
      \<longleftrightarrow> lm_holders (lm_state y) l = Some g \<and> lh_owner_task g = t" (is "?L \<longleftrightarrow> ?R")
    proof
      assume ?L
      then obtain h k where h: "lm_holders (lm_state y) k = Some h" "lh_owner_task h = t"
        "lh_token g = lh_token h" by (auto simp: lm_delegate_def)
      with ok have "lh_token g < lm_next_token (lm_state y)" by (auto simp: holders_ok_def)
      with steps_stable [OF assms(2) Some] have g: "lm_holders (lm_state y) l = Some g" .
      with ok h have "k = l" unfolding holders_ok_def by metis
      with g h show ?R by simp
    qed (auto simp: lm_delegate_def)
    with Some other show ?thesis by (auto simp: lm_owned_by_def)
  qed
qed

lemma lm_delegation_exact_witness:
  "lm_owned_by (lm_state demo_y4) False (lm_delegate (lm_state demo_y2) True {}) ''memory''"
proof -
  have "(lm_step ''conversation'')\<^sup>*\<^sup>* demo_y2 demo_y4"
    using r_into_rtranclp [where r = "lm_step ''conversation''", OF demo_steps(3)] demo_steps(4)
    by (rule rtranclp.rtrancl_into_rtrancl)
  from lm_delegation_exact [OF demo_y2_reachable this, of "''memory''" False True]
  show ?thesis by (simp add: demo_lm_defs lm_take_def)
qed

end
