(* ===== verification/Text.thy ===== *)
theory Text
  imports Prelude "HOL-Library.Char_ord"
begin

text \<open>
  The Python string operations the components use, on Latin-1 text: a \<open>char\<close> is the code point
  0 to 255, so \<open>str.strip\<close>, \<open>str.split\<close> and \<open>int(...)\<close> are modelled with the whitespace and the
  digits that range has. \<open>show_nat\<close> is the decimal rendering \<open>str(n)\<close>, \<open>py_int\<close> is \<open>int(s)\<close>
  (sign, single underscores between digits, the 4300-digit limit of the interpreter).
\<close>

subsection \<open>Characters\<close>

definition cp :: "char \<Rightarrow> nat" where
  "cp c = of_char c"

definition is_space :: "char \<Rightarrow> bool" where
  "is_space c \<longleftrightarrow> cp c \<in> {9, 10, 11, 12, 13, 28, 29, 30, 31, 32, 133, 160}"

definition is_digit :: "char \<Rightarrow> bool" where
  "is_digit c \<longleftrightarrow> 48 \<le> cp c \<and> cp c \<le> 57"

definition is_upper :: "char \<Rightarrow> bool" where
  "is_upper c \<longleftrightarrow> 65 \<le> cp c \<and> cp c \<le> 90 \<or> 192 \<le> cp c \<and> cp c \<le> 222 \<and> cp c \<noteq> 215"

definition lower_char :: "char \<Rightarrow> char" where
  "lower_char c = (if is_upper c then char_of (cp c + 32) else c)"

definition lower :: "string \<Rightarrow> string" where
  "lower s = map lower_char s"

subsection \<open>Stripping and splitting\<close>

definition strip :: "string \<Rightarrow> string" where
  "strip s = rev (dropWhile is_space (rev (dropWhile is_space s)))"

text \<open>\<open>s.split(sep)\<close> for a one-character separator: at least one part, empty parts kept.\<close>

fun split_on :: "char \<Rightarrow> string \<Rightarrow> string list" where
  "split_on d [] = [[]]"
| "split_on d (c # s) = (if c = d then [] # split_on d s
     else case split_on d s of [] \<Rightarrow> [[c]] | p # ps \<Rightarrow> (c # p) # ps)"

text \<open>\<open>s.split(sep, 1)\<close> when the separator occurs.\<close>

fun split_first :: "char \<Rightarrow> string \<Rightarrow> (string \<times> string) option" where
  "split_first d [] = None"
| "split_first d (c # s) = (if c = d then Some ([], s)
     else map_option (\<lambda>(a, b). (c # a, b)) (split_first d s))"

text \<open>\<open>s.split()\<close>: the maximal runs of non-whitespace.\<close>

fun words_from :: "string \<Rightarrow> string \<Rightarrow> string list" where
  "words_from cur [] = (if cur = [] then [] else [rev cur])"
| "words_from cur (c # s) =
     (if is_space c then (if cur = [] then words_from [] s else rev cur # words_from [] s)
      else words_from (c # cur) s)"

definition words :: "string \<Rightarrow> string list" where
  "words s = words_from [] s"

fun join :: "string \<Rightarrow> string list \<Rightarrow> string" where
  "join sep [] = []"
| "join sep [x] = x"
| "join sep (x # y # xs) = x @ sep @ join sep (y # xs)"

subsection \<open>Decimal numbers\<close>

definition digit_char :: "nat \<Rightarrow> char" where
  "digit_char n = char_of (48 + n)"

fun show_nat :: "nat \<Rightarrow> string" where
  "show_nat n = (if n < 10 then [digit_char n] else show_nat (n div 10) @ [digit_char (n mod 10)])"

declare show_nat.simps [simp del]

definition digit_val :: "char \<Rightarrow> nat" where
  "digit_val c = cp c - 48"

text \<open>Digits with single underscores between them; the value and the number of digits.\<close>

fun digits :: "string \<Rightarrow> nat \<Rightarrow> nat \<Rightarrow> (nat \<times> nat) option" where
  "digits [] v n = Some (v, n)"
| "digits (c # s) v n =
     (if is_digit c then digits s (10 * v + digit_val c) (Suc n)
      else if cp c = 95 then
        (case s of [] \<Rightarrow> None
         | d # s' \<Rightarrow> if is_digit d then digits s' (10 * v + digit_val d) (Suc n) else None)
      else None)"

text \<open>
  \<open>int(s)\<close> trims its own whitespace, which leaves out the four separators \<open>\\x1c\<close> to \<open>\\x1f\<close>.
\<close>

definition is_int_space :: "char \<Rightarrow> bool" where
  "is_int_space c \<longleftrightarrow> cp c \<in> {9, 10, 11, 12, 13, 32, 133, 160}"

definition unsigned_int :: "string \<Rightarrow> nat option" where
  "unsigned_int s = (case s of [] \<Rightarrow> None
     | c # _ \<Rightarrow> if is_digit c then
         (case digits s 0 0 of None \<Rightarrow> None | Some (v, n) \<Rightarrow> if n \<le> 4300 then Some v else None)
       else None)"

definition py_int :: "string \<Rightarrow> int option" where
  "py_int s =
     (let t = rev (dropWhile is_int_space (rev (dropWhile is_int_space s)))
      in case t of [] \<Rightarrow> None
         | c # r \<Rightarrow> if cp c = 45 then map_option (\<lambda>n. - int n) (unsigned_int r)
             else if cp c = 43 then map_option int (unsigned_int r)
             else map_option int (unsigned_int t))"

subsection \<open>Laws\<close>

lemma cp_digit_char: "n < 10 \<Longrightarrow> cp (digit_char n) = 48 + n"
  by (simp add: cp_def digit_char_def)

lemma is_digit_digit_char [simp]: "n < 10 \<Longrightarrow> is_digit (digit_char n)"
  by (simp add: is_digit_def cp_digit_char)

lemma digit_val_digit_char [simp]: "n < 10 \<Longrightarrow> digit_val (digit_char n) = n"
  by (simp add: digit_val_def cp_digit_char)

lemma is_digit_not_space: "is_digit c \<Longrightarrow> \<not> is_space c \<and> \<not> is_int_space c"
  by (auto simp: is_digit_def is_space_def is_int_space_def)

lemma digits_append:
  "(\<And>c. c \<in> set s \<Longrightarrow> is_digit c) \<Longrightarrow>
   digits (s @ t) v n = digits t (foldl (\<lambda>a c. 10 * a + digit_val c) v s) (n + length s)"
  by (induction s arbitrary: v n) auto

lemma show_nat_digits: "c \<in> set (show_nat n) \<Longrightarrow> is_digit c"
  by (induction n rule: show_nat.induct) (subst (asm) (2) show_nat.simps, auto split: if_splits)

lemma show_nat_nonempty [simp]: "show_nat n \<noteq> []"
  by (subst show_nat.simps) simp

lemma show_nat_value: "foldl (\<lambda>a c. 10 * a + digit_val c) 0 (show_nat n) = n"
proof (induction n rule: show_nat.induct)
  case (1 n)
  then show ?case by (subst show_nat.simps) auto
qed

lemma show_nat_inject [simp]: "show_nat m = show_nat n \<longleftrightarrow> m = n"
  using show_nat_value by metis

lemma digits_show_nat: "digits (show_nat n) 0 0 = Some (n, length (show_nat n))"
  using digits_append [of "show_nat n" "[]" 0 0] show_nat_digits show_nat_value [of n] by simp

lemma dropWhile_digits: "(\<And>c. c \<in> set s \<Longrightarrow> is_digit c) \<Longrightarrow> dropWhile is_int_space s = s"
  by (cases s) (auto simp: is_digit_not_space)

lemma py_int_show_nat:
  assumes "length (show_nat n) \<le> 4300" shows "py_int (show_nat n) = Some (int n)"
proof -
  have dig: "is_digit c" if "c \<in> set (show_nat n)" for c using that by (rule show_nat_digits)
  obtain c s where s: "show_nat n = c # s" by (cases "show_nat n") auto
  have c: "is_digit c" using dig s by simp
  have trim: "rev (dropWhile is_int_space (rev (dropWhile is_int_space (show_nat n)))) = show_nat n"
    using dropWhile_digits [of "show_nat n"] dropWhile_digits [of "rev (show_nat n)"] dig by simp
  have "unsigned_int (show_nat n) = Some n"
    using c assms digits_show_nat [of n] by (simp add: unsigned_int_def s)
  then show ?thesis
    unfolding py_int_def trim using c by (simp add: s is_digit_def)
qed

lemma show_nat_length: "n < 10 ^ k \<Longrightarrow> 0 < k \<Longrightarrow> length (show_nat n) \<le> k"
proof (induction k arbitrary: n)
  case (Suc k)
  show ?case
  proof (cases "n < 10")
    case True
    then show ?thesis by (subst show_nat.simps) simp
  next
    case False
    with Suc.prems have "k \<noteq> 0" and "n div 10 < 10 ^ k" by (cases k; simp)+
    with Suc.IH [of "n div 10"] False show ?thesis by (subst show_nat.simps) simp
  qed
qed simp

lemma split_on_nonempty [simp]: "split_on d s \<noteq> []"
  by (induction s) (auto split: list.splits)

lemma split_on_no: "d \<notin> set s \<Longrightarrow> split_on d s = [s]"
  by (induction s) auto

lemma split_on_append: "d \<notin> set s \<Longrightarrow> split_on d (s @ d # t) = s # split_on d t"
  by (induction s) auto

lemma split_on_join:
  "(\<And>x. x \<in> set xs \<Longrightarrow> d \<notin> set x) \<Longrightarrow> xs \<noteq> [] \<Longrightarrow> split_on d (join [d] xs) = xs"
  by (induction "[d]" xs rule: join.induct) (auto simp: split_on_no split_on_append)

lemma split_first_append: "d \<notin> set s \<Longrightarrow> split_first d (s @ d # t) = Some (s, t)"
  by (induction s) auto

lemma split_first_join: "split_first d m = Some (s, t) \<Longrightarrow> d \<notin> set s \<Longrightarrow> m = s @ d # t"
  by (induction m arbitrary: s) (auto split: if_splits)

lemma split_first_None: "d \<notin> set s \<Longrightarrow> split_first d s = None"
  by (induction s) auto

lemma split_first_iff: "split_first d s = None \<longleftrightarrow> d \<notin> set s"
  by (induction s) auto

lemma strip_id: "(\<And>c. c \<in> set s \<Longrightarrow> \<not> is_space c) \<Longrightarrow> strip s = s"
proof -
  assume "\<And>c. c \<in> set s \<Longrightarrow> \<not> is_space c"
  then have "dropWhile is_space t = t" if "set t = set s" for t
    using that by (cases t) auto
  then show ?thesis by (simp add: strip_def)
qed

lemma strip_ends: "s \<noteq> [] \<Longrightarrow> \<not> is_space (hd s) \<Longrightarrow> \<not> is_space (last s) \<Longrightarrow> strip s = s"
proof -
  assume s: "s \<noteq> []" "\<not> is_space (hd s)" "\<not> is_space (last s)"
  have drop: "dropWhile is_space t = t" if "t \<noteq> []" "\<not> is_space (hd t)" for t
    using that by (cases t) auto
  show ?thesis using s drop [of s] drop [of "rev s"] by (simp add: strip_def hd_rev)
qed

lemma words_from_word:
  "(\<And>c. c \<in> set w \<Longrightarrow> \<not> is_space c) \<Longrightarrow> words_from cur (w @ s) = words_from (rev w @ cur) s"
  by (induction w arbitrary: cur) auto

lemma words_join:
  assumes "is_space d" and "\<And>x. x \<in> set xs \<Longrightarrow> x \<noteq> []" and "\<And>x c. x \<in> set xs \<Longrightarrow> c \<in> set x \<Longrightarrow> \<not> is_space c"
  shows "words (join [d] xs) = xs"
  using assms(2,3) unfolding words_def
proof (induction "[d]" xs rule: join.induct)
  case (2 x)
  then show ?case using words_from_word [of x "[]" "[]"] by simp
next
  case (3 x y xs)
  have step: "words_from [] (x @ d # t) = x # words_from [] t" for t
    using words_from_word [of x "[]" "d # t"] "3.prems" assms(1) by auto
  have "words_from [] (join [d] (y # xs)) = y # xs" using "3.prems" by (intro "3.hyps") auto
  then show ?case by (simp add: step)
qed simp

lemma join_ends:
  assumes "xs \<noteq> []" and "\<And>x. x \<in> set xs \<Longrightarrow> x \<noteq> []"
  shows "hd (join sep xs) = hd (hd xs) \<and> last (join sep xs) = last (last xs) \<and> join sep xs \<noteq> []"
  using assms
proof (induction sep xs rule: join.induct)
  case (3 sep x y xs)
  then show ?case by auto
qed simp_all

end
