(* ===== verification/Delegated_Wallet.thy ===== *)
theory Delegated_Wallet
  imports Text
begin

text \<open>
  Model of \<open>kestrel_sovereign/spawn/delegated_wallet.py\<close>: the spending ceiling a parent gives a
  spawned child, and the hold/release of the parent's funds. A handler runs atomically from one
  \<open>await\<close> to the next, so each is a group of segments; the program point at which the holder of
  the spend lock is suspended is a value of \<open>dw_pc\<close>. The wallet providers are other packages:
  their answers are the events of the system, constrained by what the protocol classes of the
  source document. A \<open>Decimal\<close> is a rational (the 28-digit context is exact on the sums below that
  precision). A wallet object is the list of the provider methods it declares itself.
\<close>

type_synonym decimal = rat

subsection \<open>State\<close>

datatype wallet_error =
    Value_Error          \<comment> \<open>\<open>ValueError\<close>\<close>
  | Budget_Exceeded      \<comment> \<open>\<open>BudgetExceededError\<close>\<close>
  | Outcome_Unknown      \<comment> \<open>\<open>DelegatedSpendOutcomeUnknown\<close>\<close>
  | Runtime_Error        \<comment> \<open>\<open>RuntimeError\<close>\<close>
  | Provider_Raised      \<comment> \<open>what an awaited provider call raised, cancellation included\<close>

record spend_intent =
  si_intent_id :: string
  si_idempotency_key :: string
  si_amount :: decimal
  si_currency :: string

record budget_allocation =
  ba_child_did :: string
  ba_amount :: decimal
  ba_spent :: decimal
  ba_parent_did :: string
  ba_allocation_id :: string
  ba_next_spend_sequence :: nat
  ba_pending :: "spend_intent option"
  ba_parent_hold_durable :: bool

record spend_record =
  sr_currency :: string
  sr_amount :: decimal
  sr_memo :: string
  sr_spent_total :: decimal
  sr_remaining :: decimal

record delegated_wallet =
  dw_wallet :: "string list"
  dw_allocation :: budget_allocation
  dw_transactions :: "spend_record list"
  dw_revoked :: bool
  dw_refund_attempted :: bool
  dw_refund_completed :: bool

definition ba_remaining :: "budget_allocation \<Rightarrow> decimal" where
  "ba_remaining a = ba_amount a - ba_spent a"

definition is_exhausted :: "budget_allocation \<Rightarrow> bool" where
  "is_exhausted a \<longleftrightarrow> ba_spent a \<ge> ba_amount a"

definition dw_init :: "string list \<Rightarrow> budget_allocation \<Rightarrow> delegated_wallet" where
  "dw_init wallet allocation =
     \<lparr>dw_wallet = wallet, dw_allocation = allocation, dw_transactions = [], dw_revoked = False,
      dw_refund_attempted = False, dw_refund_completed = False\<rparr>"

definition new_budget_allocation :: "string \<Rightarrow> decimal \<Rightarrow> string \<Rightarrow> string \<Rightarrow> budget_allocation" where
  "new_budget_allocation child_did amount parent_did allocation_id =
     \<lparr>ba_child_did = child_did, ba_amount = amount, ba_spent = 0, ba_parent_did = parent_did,
      ba_allocation_id = allocation_id, ba_next_spend_sequence = 0, ba_pending = None,
      ba_parent_hold_durable = False\<rparr>"

subsection \<open>Provider contracts\<close>

definition has_direct_callable_contract :: "string list \<Rightarrow> string \<Rightarrow> bool" where
  "has_direct_callable_contract wallet name \<longleftrightarrow> name \<in> set wallet"

definition durable_debit_provider :: "string list \<Rightarrow> bool" where
  "durable_debit_provider wallet \<longleftrightarrow>
     (\<forall>name \<in> set [''prepare_debit_intent'', ''execute_debit_intent'', ''resolve_debit_intent''].
        has_direct_callable_contract wallet name)"

definition durable_allocation_provider :: "string list \<Rightarrow> bool" where
  "durable_allocation_provider wallet \<longleftrightarrow>
     (\<forall>name \<in> set [''reserve_delegated_allocation'', ''release_delegated_allocation''].
        has_direct_callable_contract wallet name)"

definition durable_child_wallet_provider :: "string list \<Rightarrow> bool" where
  "durable_child_wallet_provider wallet \<longleftrightarrow>
     has_direct_callable_contract wallet ''reserve_and_provision_delegated_child_wallet''"

definition durable_child_wallet_release_provider :: "string list \<Rightarrow> bool" where
  "durable_child_wallet_release_provider wallet \<longleftrightarrow>
     has_direct_callable_contract wallet ''release_and_fence_delegated_child_wallet''"

subsection \<open>Operations without an await\<close>

definition with_allocation ::
    "(budget_allocation \<Rightarrow> budget_allocation) \<Rightarrow> delegated_wallet \<Rightarrow> delegated_wallet" where
  "with_allocation f w = w\<lparr>dw_allocation := f (dw_allocation w)\<rparr>"

definition fence_spending :: "delegated_wallet \<Rightarrow> delegated_wallet" where
  "fence_spending w = w\<lparr>dw_revoked := True\<rparr>"

definition can_spend :: "delegated_wallet \<Rightarrow> decimal \<Rightarrow> bool" where
  "can_spend w cost \<longleftrightarrow> \<not> dw_revoked w
     \<and> ba_spent (dw_allocation w) + cost \<le> ba_amount (dw_allocation w)"

definition dw_can_afford :: "delegated_wallet \<Rightarrow> decimal \<Rightarrow> (decimal \<Rightarrow> bool) \<Rightarrow> bool" where
  "dw_can_afford w amount wrapped = (if \<not> can_spend w amount then False else wrapped amount)"

definition dw_get_balance :: "delegated_wallet \<Rightarrow> string \<Rightarrow> decimal \<Rightarrow> decimal" where
  "dw_get_balance w balance_type wrapped =
     (if balance_type = ''main'' then min wrapped (ba_remaining (dw_allocation w)) else wrapped)"

definition restore_headroom :: "decimal \<Rightarrow> delegated_wallet \<Rightarrow> delegated_wallet" where
  "restore_headroom amount =
     with_allocation (\<lambda>a. a\<lparr>ba_spent := max 0 (ba_spent a - amount)\<rparr>)"

definition record_spend :: "decimal \<Rightarrow> string \<Rightarrow> string \<Rightarrow> delegated_wallet \<Rightarrow> delegated_wallet" where
  "record_spend cost currency memo w =
     w\<lparr>dw_transactions := dw_transactions w @
        [\<lparr>sr_currency = currency, sr_amount = cost, sr_memo = memo,
          sr_spent_total = ba_spent (dw_allocation w),
          sr_remaining = ba_remaining (dw_allocation w)\<rparr>]\<rparr>"

subsection \<open>Segments of the handlers\<close>

text \<open>
  What the lock holder waits for, and how a handler ends. The refund carries the parent's method
  list and, while the credit is in flight, how and how much is being returned.
\<close>

datatype settle = Child_Release | Allocation_Release decimal | Deposit decimal

datatype dw_pc =
    Idle
  | Spend_Resolve decimal string string       \<comment> \<open>cost, memo, currency: pending debit being resolved\<close>
  | Spend_Prepare decimal string string       \<comment> \<open>the intent is being recorded\<close>
  | Spend_Execute decimal string string       \<comment> \<open>the debit is in flight\<close>
  | Refund_Resolve
  | Refund_Settle settle

datatype dw_result = Pending | Spent bool | Refunded decimal | Failed wallet_error

type_synonym dw_out = "delegated_wallet \<times> dw_pc \<times> dw_result"

definition spend_check :: "decimal \<Rightarrow> string \<Rightarrow> string \<Rightarrow> delegated_wallet \<Rightarrow> dw_out" where
  "spend_check cost memo currency w =
     (if \<not> can_spend w cost then (w, Idle, Failed Budget_Exceeded)
      else if \<not> durable_debit_provider (dw_wallet w) then (w, Idle, Failed Runtime_Error)
      else (with_allocation
              (\<lambda>a. a\<lparr>ba_next_spend_sequence := Suc (ba_next_spend_sequence a)\<rparr>) w,
            Spend_Prepare cost memo currency, Pending))"

definition idempotency_key :: "budget_allocation \<Rightarrow> string" where
  "idempotency_key a = ''delegated-spend:'' @ ba_allocation_id a @ '':'' @
     show_nat (ba_next_spend_sequence a)"

text \<open>\<open>_reconcile_pending_spend\<close> up to its await; \<open>Inr True\<close>: nothing to resolve.\<close>

definition reconcile_start :: "delegated_wallet \<Rightarrow> wallet_error + bool" where
  "reconcile_start w =
     (case ba_pending (dw_allocation w) of
        None \<Rightarrow> Inr True
      | Some _ \<Rightarrow> if durable_debit_provider (dw_wallet w) then Inr False else Inl Runtime_Error)"

text \<open>Its rest, with the provider's answer.\<close>

definition reconcile_finish :: "bool option \<Rightarrow> delegated_wallet \<Rightarrow> wallet_error + delegated_wallet" where
  "reconcile_finish outcome w =
     (case ba_pending (dw_allocation w) of
        None \<Rightarrow> Inr w
      | Some i \<Rightarrow>
          (case outcome of
             None \<Rightarrow> Inl Outcome_Unknown
           | Some applied \<Rightarrow>
               Inr (with_allocation (\<lambda>a. a\<lparr>ba_pending := None\<rparr>)
                 (if applied
                  then record_spend (si_amount i) (si_currency i) ''reconciled durable debit''
                         (with_allocation (\<lambda>a. a\<lparr>ba_spent := ba_spent a + si_amount i\<rparr>) w)
                  else w))))"

definition spend_start :: "decimal \<Rightarrow> string \<Rightarrow> string \<Rightarrow> delegated_wallet \<Rightarrow> dw_out" where
  "spend_start cost memo currency w =
     (if cost \<le> 0 then (w, Idle, Failed Value_Error)
      else case reconcile_start w of
             Inl e \<Rightarrow> (w, Idle, Failed e)
           | Inr True \<Rightarrow> spend_check cost memo currency w
           | Inr False \<Rightarrow> (w, Spend_Resolve cost memo currency, Pending))"

definition spend_prepared ::
    "string \<Rightarrow> decimal \<Rightarrow> string \<Rightarrow> string \<Rightarrow> delegated_wallet \<Rightarrow> dw_out" where
  "spend_prepared intent_id cost memo currency w =
     (if intent_id = [] then (w, Idle, Failed Runtime_Error)
      else (with_allocation (\<lambda>a. a\<lparr>ba_pending := Some
              \<lparr>si_intent_id = intent_id, si_idempotency_key = idempotency_key a,
               si_amount = cost, si_currency = currency\<rparr>\<rparr>) w,
            Spend_Execute cost memo currency, Pending))"

definition spend_executed ::
    "bool \<Rightarrow> decimal \<Rightarrow> string \<Rightarrow> string \<Rightarrow> delegated_wallet \<Rightarrow> dw_out" where
  "spend_executed success cost memo currency w =
     (if \<not> success
      then (with_allocation (\<lambda>a. a\<lparr>ba_pending := None\<rparr>) w, Idle, Spent False)
      else (record_spend cost currency memo
              (with_allocation (\<lambda>a. a\<lparr>ba_spent := ba_spent a + cost, ba_pending := None\<rparr>) w),
            Idle, Spent True))"

text \<open>\<open>refund_to_parent\<close> once nothing is pending; \<open>parent\<close> is the parent wallet's method list.\<close>

definition refund_decide :: "string list \<Rightarrow> delegated_wallet \<Rightarrow> dw_out" where
  "refund_decide parent w =
     (if dw_refund_completed w then (w, Idle, Refunded 0)
      else let durable_hold = ba_parent_hold_durable (dw_allocation w) in
        if durable_hold \<and> \<not> durable_allocation_provider parent then (w, Idle, Failed Runtime_Error)
        else if dw_refund_attempted w \<and> \<not> durable_hold then (w, Idle, Failed Runtime_Error)
        else let w = w\<lparr>dw_refund_attempted := True\<rparr>;
                 unspent = ba_remaining (dw_allocation w) in
          if durable_child_wallet_release_provider parent
            then (w, Refund_Settle Child_Release, Pending)
          else if durable_child_wallet_provider parent then (w, Idle, Failed Runtime_Error)
          else if unspent \<le> 0 then (w\<lparr>dw_refund_completed := True\<rparr>, Idle, Refunded unspent)
          else if durable_hold then (w, Refund_Settle (Allocation_Release unspent), Pending)
          else (w, Refund_Settle (Deposit unspent), Pending))"

definition refund_start :: "string list \<Rightarrow> delegated_wallet \<Rightarrow> dw_out" where
  "refund_start parent w =
     (case reconcile_start w of
        Inl e \<Rightarrow> (w, Idle, Failed e)
      | Inr True \<Rightarrow> refund_decide parent w
      | Inr False \<Rightarrow> (w, Refund_Resolve, Pending))"

text \<open>
  After the credit: \<open>answer\<close> is the amount a child release returned (\<open>None\<close>: not a finite number)
  or, for the two acknowledged calls, whether it returned \<open>True\<close>. The parent's own headroom is
  restored by \<open>restore_headroom\<close> on the parent's wallet with the amount returned.
\<close>

datatype settle_answer = Released "decimal option" | Acknowledged bool

fun refund_settled :: "settle \<Rightarrow> settle_answer \<Rightarrow> delegated_wallet \<Rightarrow> dw_out" where
  "refund_settled Child_Release (Released (Some unspent)) w =
     (if unspent < 0 then (w, Idle, Failed Runtime_Error)
      else (with_allocation (\<lambda>a. a\<lparr>ba_spent := max 0 (ba_amount a - unspent)\<rparr>)
              (w\<lparr>dw_refund_completed := True\<rparr>), Idle, Refunded unspent))"
| "refund_settled (Allocation_Release unspent) (Acknowledged True) w =
     (w\<lparr>dw_refund_completed := True\<rparr>, Idle, Refunded unspent)"
| "refund_settled (Deposit unspent) (Acknowledged True) w =
     (w\<lparr>dw_refund_completed := True\<rparr>, Idle, Refunded unspent)"
| "refund_settled _ _ w = (w, Idle, Failed Runtime_Error)"


subsection \<open>The wallet with its provider\<close>

text \<open>
  What the provider has really done: the debits applied for this allocation (net of the grandchild
  holds returned to it), whether the debit of the pending intent is among them, the amount credited
  to the parent, the durable release record, and the idempotency keys it was handed.
\<close>

record provider_ledger =
  lg_debited :: decimal
  lg_open_applied :: bool
  lg_credited :: decimal
  lg_released :: "decimal option"
  lg_keys :: "string list"

record dw_sys =
  ds_wallet :: delegated_wallet
  ds_pc :: dw_pc
  ds_ledger :: provider_ledger

datatype dw_event =
    Spend decimal string string       \<comment> \<open>a spend obtains the lock\<close>
  | Refund                            \<comment> \<open>a refund obtains the lock\<close>
  | Resolved "bool option"
  | Prepared string
  | Executed bool
  | Settled settle_answer
  | Raises bool                       \<comment> \<open>the awaited call raises; did its effect happen?\<close>
  | Late_Debit                        \<comment> \<open>the provider applies the pending debit\<close>
  | Fence
  | Restore decimal                   \<comment> \<open>a grandchild's unspent hold comes back\<close>

definition ds_put :: "dw_sys \<Rightarrow> dw_out \<Rightarrow> dw_sys" where
  "ds_put y out = y\<lparr>ds_wallet := fst out, ds_pc := fst (snd out)\<rparr>"

definition with_ledger :: "(provider_ledger \<Rightarrow> provider_ledger) \<Rightarrow> dw_sys \<Rightarrow> dw_sys" where
  "with_ledger f y = y\<lparr>ds_ledger := f (ds_ledger y)\<rparr>"

text \<open>The provider's side of a debit and of a credit; a durable release happens once.\<close>

definition debit :: "decimal \<Rightarrow> provider_ledger \<Rightarrow> provider_ledger" where
  "debit cost g = (if lg_open_applied g then g
     else g\<lparr>lg_debited := lg_debited g + cost, lg_open_applied := True\<rparr>)"

definition close_debit :: "provider_ledger \<Rightarrow> provider_ledger" where
  "close_debit g = g\<lparr>lg_open_applied := False\<rparr>"

definition credit :: "decimal \<Rightarrow> provider_ledger \<Rightarrow> provider_ledger" where
  "credit amount g = (case lg_released g of
       None \<Rightarrow> g\<lparr>lg_credited := lg_credited g + amount, lg_released := Some amount\<rparr>
     | Some _ \<Rightarrow> g)"

definition credit_volatile :: "decimal \<Rightarrow> provider_ledger \<Rightarrow> provider_ledger" where
  "credit_volatile amount g = g\<lparr>lg_credited := lg_credited g + amount\<rparr>"

text \<open>The amount a release in flight would credit, from the provider's own balance.\<close>

definition settle_amount :: "settle \<Rightarrow> budget_allocation \<Rightarrow> provider_ledger \<Rightarrow> decimal" where
  "settle_amount k a g = (case k of
       Child_Release \<Rightarrow> (case lg_released g of None \<Rightarrow> ba_amount a - lg_debited g | Some r \<Rightarrow> r)
     | Allocation_Release u \<Rightarrow> u | Deposit u \<Rightarrow> u)"

definition settle_credit :: "settle \<Rightarrow> budget_allocation \<Rightarrow> provider_ledger \<Rightarrow> provider_ledger" where
  "settle_credit k a g = (case k of
       Deposit u \<Rightarrow> credit_volatile u g
     | _ \<Rightarrow> credit (settle_amount k a g) g)"

fun settle_success :: "settle \<Rightarrow> settle_answer \<Rightarrow> bool" where
  "settle_success Child_Release (Released (Some _)) \<longleftrightarrow> True"
| "settle_success (Allocation_Release _) (Acknowledged True) \<longleftrightarrow> True"
| "settle_success (Deposit _) (Acknowledged True) \<longleftrightarrow> True"
| "settle_success _ _ \<longleftrightarrow> False"

fun dw_step :: "string list \<Rightarrow> dw_sys \<Rightarrow> dw_event \<Rightarrow> dw_sys" where
  "dw_step parent y (Spend cost memo currency) =
     ds_put y (spend_start cost memo currency (ds_wallet y))"
| "dw_step parent y Refund = ds_put y (refund_start parent (fence_spending (ds_wallet y)))"
| "dw_step parent y (Resolved outcome) =
     (let y' = (if outcome = None then y else with_ledger close_debit y) in
      case reconcile_finish outcome (ds_wallet y) of
        Inl _ \<Rightarrow> y'\<lparr>ds_pc := Idle\<rparr>
      | Inr w \<Rightarrow>
          (case ds_pc y of
             Spend_Resolve cost memo currency \<Rightarrow> ds_put y' (spend_check cost memo currency w)
           | _ \<Rightarrow> ds_put y' (refund_decide parent w)))"
| "dw_step parent y (Prepared intent_id) =
     (case ds_pc y of
        Spend_Prepare cost memo currency \<Rightarrow>
          with_ledger (\<lambda>g. g\<lparr>lg_keys := idempotency_key (dw_allocation (ds_wallet y)) # lg_keys g\<rparr>)
            (ds_put y (spend_prepared intent_id cost memo currency (ds_wallet y)))
      | _ \<Rightarrow> y)"
| "dw_step parent y (Executed success) =
     (case ds_pc y of
        Spend_Execute cost memo currency \<Rightarrow>
          with_ledger (\<lambda>g. close_debit (if success then debit cost g else g))
            (ds_put y (spend_executed success cost memo currency (ds_wallet y)))
      | _ \<Rightarrow> y)"
| "dw_step parent y (Settled answer) =
     (case ds_pc y of
        Refund_Settle k \<Rightarrow>
          with_ledger (\<lambda>g. if settle_success k answer
              then settle_credit k (dw_allocation (ds_wallet y)) g else g)
            (ds_put y (refund_settled k answer (ds_wallet y)))
      | _ \<Rightarrow> y)"
| "dw_step parent y (Raises happened) =
     (case ds_pc y of
        Spend_Prepare cost memo currency \<Rightarrow>
          with_ledger (\<lambda>g. if happened
              then g\<lparr>lg_keys := idempotency_key (dw_allocation (ds_wallet y)) # lg_keys g\<rparr> else g)
            (y\<lparr>ds_pc := Idle\<rparr>)
      | Spend_Execute cost memo currency \<Rightarrow>
          with_ledger (\<lambda>g. if happened then debit cost g else g) (y\<lparr>ds_pc := Idle\<rparr>)
      | Refund_Settle k \<Rightarrow>
          with_ledger (\<lambda>g. if happened then settle_credit k (dw_allocation (ds_wallet y)) g else g)
            (y\<lparr>ds_pc := Idle\<rparr>)
      | _ \<Rightarrow> y\<lparr>ds_pc := Idle\<rparr>)"
| "dw_step parent y Late_Debit =
     (case ba_pending (dw_allocation (ds_wallet y)) of
        None \<Rightarrow> y
      | Some i \<Rightarrow> with_ledger (debit (si_amount i)) y)"
| "dw_step parent y Fence = y\<lparr>ds_wallet := fence_spending (ds_wallet y)\<rparr>"
| "dw_step parent y (Restore amount) =
     with_ledger (\<lambda>g. g\<lparr>lg_debited := lg_debited g - amount\<rparr>)
       (y\<lparr>ds_wallet := restore_headroom amount (ds_wallet y)\<rparr>)"

text \<open>
  The events the environment may issue: the lock is mutual exclusion, an answer arrives at a
  suspended call, the provider answers a resolve truthfully, refuses only debits it never applied,
  and a child release returns its own balance (the recorded amount on a retry); a grandchild
  returns at most what was spent on its hold.
\<close>

fun dw_ok :: "dw_sys \<Rightarrow> dw_event \<Rightarrow> bool" where
  "dw_ok y (Spend cost memo currency) \<longleftrightarrow> ds_pc y = Idle"
| "dw_ok y Refund \<longleftrightarrow> ds_pc y = Idle"
| "dw_ok y (Resolved outcome) \<longleftrightarrow>
     (ds_pc y = Refund_Resolve \<or> (\<exists>cost memo currency. ds_pc y = Spend_Resolve cost memo currency))
     \<and> (outcome \<noteq> None \<longrightarrow> outcome = Some (lg_open_applied (ds_ledger y)))"
| "dw_ok y (Prepared intent_id) \<longleftrightarrow>
     (\<exists>cost memo currency. ds_pc y = Spend_Prepare cost memo currency)"
| "dw_ok y (Executed success) \<longleftrightarrow>
     (\<exists>cost memo currency. ds_pc y = Spend_Execute cost memo currency)
     \<and> (success \<or> \<not> lg_open_applied (ds_ledger y))"
| "dw_ok y (Settled answer) \<longleftrightarrow>
     (\<exists>k. ds_pc y = Refund_Settle k \<and> (case answer of
        Released (Some r) \<Rightarrow> k = Child_Release
          \<and> r = settle_amount k (dw_allocation (ds_wallet y)) (ds_ledger y)
      | _ \<Rightarrow> True))"
| "dw_ok y (Raises happened) \<longleftrightarrow> ds_pc y \<noteq> Idle"
| "dw_ok y Late_Debit \<longleftrightarrow> True"
| "dw_ok y Fence \<longleftrightarrow> True"
| "dw_ok y (Restore amount) \<longleftrightarrow> 0 \<le> amount \<and> amount \<le> lg_debited (ds_ledger y)
     \<and> amount \<le> ba_spent (dw_allocation (ds_wallet y))"

definition ds_init :: "string list \<Rightarrow> budget_allocation \<Rightarrow> dw_sys" where
  "ds_init wallet allocation =
     \<lparr>ds_wallet = dw_init wallet allocation, ds_pc = Idle,
      ds_ledger = \<lparr>lg_debited = 0, lg_open_applied = False, lg_credited = 0, lg_released = None,
        lg_keys = []\<rparr>\<rparr>"


subsection \<open>The invariant\<close>

definition pending_amount :: "budget_allocation \<Rightarrow> decimal" where
  "pending_amount a = (case ba_pending a of None \<Rightarrow> 0 | Some i \<Rightarrow> si_amount i)"

definition ceiling_inv :: "budget_allocation \<Rightarrow> bool" where
  "ceiling_inv a \<longleftrightarrow> 0 \<le> ba_spent a \<and> ba_spent a + pending_amount a \<le> ba_amount a
     \<and> (ba_pending a \<noteq> None \<longrightarrow> 0 < pending_amount a)"

definition debit_inv :: "budget_allocation \<Rightarrow> provider_ledger \<Rightarrow> bool" where
  "debit_inv a g \<longleftrightarrow> 0 \<le> lg_debited g
     \<and> lg_debited g \<le> ba_spent a + (if lg_open_applied g then pending_amount a else 0)
     \<and> (ba_pending a = None \<longrightarrow> \<not> lg_open_applied g)"

fun pc_inv :: "delegated_wallet \<Rightarrow> provider_ledger \<Rightarrow> dw_pc \<Rightarrow> bool" where
  "pc_inv w g Idle \<longleftrightarrow> True"
| "pc_inv w g (Spend_Resolve cost memo currency) \<longleftrightarrow>
     0 < cost \<and> ba_pending (dw_allocation w) \<noteq> None"
| "pc_inv w g (Spend_Prepare cost memo currency) \<longleftrightarrow>
     0 < cost \<and> ba_pending (dw_allocation w) = None \<and> \<not> dw_refund_attempted w
     \<and> ba_spent (dw_allocation w) + cost \<le> ba_amount (dw_allocation w)"
| "pc_inv w g (Spend_Execute cost memo currency) \<longleftrightarrow>
     ba_pending (dw_allocation w) \<noteq> None \<and> pending_amount (dw_allocation w) = cost
     \<and> \<not> dw_refund_attempted w"
| "pc_inv w g Refund_Resolve \<longleftrightarrow> ba_pending (dw_allocation w) \<noteq> None \<and> dw_revoked w"
| "pc_inv w g (Refund_Settle k) \<longleftrightarrow>
     dw_refund_attempted w \<and> (lg_released g = None \<longrightarrow> lg_credited g = 0)
     \<and> (case k of Child_Release \<Rightarrow> True
        | Allocation_Release u \<Rightarrow> 0 < u \<and> u + lg_debited g \<le> ba_amount (dw_allocation w)
        | Deposit u \<Rightarrow> 0 < u \<and> u + lg_debited g \<le> ba_amount (dw_allocation w)
            \<and> lg_released g = None \<and> \<not> ba_parent_hold_durable (dw_allocation w))"

definition credit_inv :: "delegated_wallet \<Rightarrow> provider_ledger \<Rightarrow> bool" where
  "credit_inv w g \<longleftrightarrow> 0 \<le> lg_credited g
     \<and> lg_debited g + lg_credited g \<le> ba_amount (dw_allocation w)
     \<and> (\<forall>r. lg_released g = Some r \<longrightarrow> lg_credited g = r)
     \<and> (ba_parent_hold_durable (dw_allocation w) \<longrightarrow> lg_released g = None \<longrightarrow> lg_credited g = 0)
     \<and> (\<not> dw_refund_attempted w \<longrightarrow> lg_credited g = 0 \<and> lg_released g = None)
     \<and> (dw_refund_attempted w \<longrightarrow> dw_revoked w \<and> ba_pending (dw_allocation w) = None)"

definition money_inv :: "delegated_wallet \<Rightarrow> dw_pc \<Rightarrow> provider_ledger \<Rightarrow> bool" where
  "money_inv w pc g \<longleftrightarrow> ceiling_inv (dw_allocation w) \<and> debit_inv (dw_allocation w) g
     \<and> pc_inv w g pc \<and> credit_inv w g"

lemmas money_defs = money_inv_def ceiling_inv_def debit_inv_def credit_inv_def pending_amount_def

lemma wallet_simps [simp]:
  "dw_allocation (with_allocation f w) = f (dw_allocation w)"
  "dw_revoked (with_allocation f w) = dw_revoked w"
  "dw_refund_attempted (with_allocation f w) = dw_refund_attempted w"
  "dw_refund_completed (with_allocation f w) = dw_refund_completed w"
  "dw_wallet (with_allocation f w) = dw_wallet w"
  "dw_allocation (record_spend c cur m w) = dw_allocation w"
  "dw_revoked (record_spend c cur m w) = dw_revoked w"
  "dw_refund_attempted (record_spend c cur m w) = dw_refund_attempted w"
  "dw_refund_completed (record_spend c cur m w) = dw_refund_completed w"
  "dw_wallet (record_spend c cur m w) = dw_wallet w"
  "dw_allocation (fence_spending w) = dw_allocation w"
  "dw_revoked (fence_spending w)"
  "dw_refund_attempted (fence_spending w) = dw_refund_attempted w"
  "dw_refund_completed (fence_spending w) = dw_refund_completed w"
  "dw_wallet (fence_spending w) = dw_wallet w"
  by (simp_all add: with_allocation_def record_spend_def fence_spending_def)

lemma sys_simps [simp]:
  "ds_wallet (ds_put y out) = fst out" "ds_pc (ds_put y out) = fst (snd out)"
  "ds_ledger (ds_put y out) = ds_ledger y"
  "ds_wallet (with_ledger f y) = ds_wallet y" "ds_pc (with_ledger f y) = ds_pc y"
  "ds_ledger (with_ledger f y) = f (ds_ledger y)"
  by (simp_all add: ds_put_def with_ledger_def)

lemma money_inv_idle: "money_inv w pc g \<Longrightarrow> money_inv w Idle g"
  by (simp add: money_inv_def)

lemma money_inv_fence:
  "money_inv w pc g \<Longrightarrow> money_inv (fence_spending w) pc g"
  by (cases pc) (auto simp: money_defs split: settle.splits)

lemma spend_check_money:
  "money_inv w Idle g \<Longrightarrow> ba_pending (dw_allocation w) = None \<Longrightarrow> 0 < cost
    \<Longrightarrow> money_inv (fst (spend_check cost memo currency w))
          (fst (snd (spend_check cost memo currency w))) g"
  by (auto simp: spend_check_def can_spend_def money_defs)

lemma refund_decide_money:
  "money_inv w Idle g \<Longrightarrow> ba_pending (dw_allocation w) = None \<Longrightarrow> dw_revoked w
    \<Longrightarrow> money_inv (fst (refund_decide parent w)) (fst (snd (refund_decide parent w))) g"
  by (auto simp: refund_decide_def Let_def money_defs ba_remaining_def)

lemma reconcile_money:
  assumes "money_inv w pc g" and "reconcile_finish outcome w = Inr w'"
    and "ba_pending (dw_allocation w) \<noteq> None"
    and "outcome \<noteq> None \<Longrightarrow> outcome = Some (lg_open_applied g)"
  shows "money_inv w' Idle (close_debit g)" and "ba_pending (dw_allocation w') = None"
    and "dw_revoked w' = dw_revoked w"
  using assms
  by (auto simp: reconcile_finish_def money_defs close_debit_def split: option.splits if_splits)


lemma reconcile_unknown: "ba_pending (dw_allocation w) \<noteq> None \<Longrightarrow> reconcile_finish None w = Inl Outcome_Unknown"
  by (auto simp: reconcile_finish_def)

lemma reconcile_known: "reconcile_finish (Some b) w \<noteq> Inl e"
  by (auto simp: reconcile_finish_def split: option.splits)

lemma reconcile_start_pending:
  "reconcile_start w = Inr b \<Longrightarrow> b \<longleftrightarrow> ba_pending (dw_allocation w) = None"
  by (auto simp: reconcile_start_def split: option.splits if_splits)

lemma spend_start_money:
  assumes "money_inv w Idle g"
  shows "money_inv (fst (spend_start cost memo currency w))
    (fst (snd (spend_start cost memo currency w))) g"
proof (cases "reconcile_start w")
  case (Inr b)
  with assms spend_check_money [of w g cost memo currency] reconcile_start_pending [of w b]
  show ?thesis by (cases b) (auto simp: spend_start_def money_inv_def)
qed (use assms in \<open>simp add: spend_start_def\<close>)

lemma refund_start_money:
  assumes "money_inv w Idle g" and "dw_revoked w"
  shows "money_inv (fst (refund_start parent w)) (fst (snd (refund_start parent w))) g"
proof (cases "reconcile_start w")
  case (Inr b)
  with assms refund_decide_money [of w g parent] reconcile_start_pending [of w b]
  show ?thesis by (cases b) (auto simp: refund_start_def money_inv_def)
qed (use assms in \<open>simp add: refund_start_def\<close>)

lemma spend_prepared_money:
  "money_inv w (Spend_Prepare cost memo currency) g
    \<Longrightarrow> money_inv (fst (spend_prepared i cost memo currency w))
          (fst (snd (spend_prepared i cost memo currency w))) g"
  by (auto simp: spend_prepared_def money_defs)

lemma spend_executed_money:
  assumes "money_inv w (Spend_Execute cost memo currency) g"
    and "success \<or> \<not> lg_open_applied g"
  shows "money_inv (fst (spend_executed success cost memo currency w))
    (fst (snd (spend_executed success cost memo currency w)))
    (close_debit (if success then debit cost g else g))"
  using assms
  by (auto simp: spend_executed_def money_defs close_debit_def debit_def split: option.splits)

lemma settle_money:
  assumes "money_inv w (Refund_Settle k) g"
  shows "money_inv w Idle (settle_credit k (dw_allocation w) g)"
  using assms
  by (cases k) (auto simp: money_defs settle_credit_def settle_amount_def credit_def
      credit_volatile_def split: option.splits)

lemma completed_money: "money_inv w pc g \<Longrightarrow> money_inv (w\<lparr>dw_refund_completed := b\<rparr>) pc g"
  by (cases pc) (auto simp: money_defs split: settle.splits)

lemma refund_settled_money:
  assumes "money_inv w (Refund_Settle k) g"
    and "\<And>r. answer = Released (Some r) \<Longrightarrow> r = settle_amount k (dw_allocation w) g"
  shows "money_inv (fst (refund_settled k answer w)) (fst (snd (refund_settled k answer w)))
    (if settle_success k answer then settle_credit k (dw_allocation w) g else g)"
proof (cases "(k, answer, w)" rule: refund_settled.cases)
  case (1 r v)
  note settle_money [OF assms(1)]
  moreover have "r = settle_amount Child_Release (dw_allocation w) g" using assms(2) 1 by simp
  ultimately show ?thesis using 1 assms(1)
    by (auto simp: money_defs settle_credit_def settle_amount_def credit_def split: option.splits)
qed (use assms settle_money [OF assms(1)] in \<open>auto simp: completed_money intro: money_inv_idle\<close>)

lemma debit_money:
  assumes "money_inv w pc g" and "ba_pending (dw_allocation w) = Some i"
  shows "money_inv w pc (debit (si_amount i) g)"
  using assms by (cases pc) (auto simp: money_defs debit_def split: settle.splits)

lemma restore_money:
  assumes "money_inv w pc g" and "0 \<le> amount" and "amount \<le> lg_debited g"
    and "amount \<le> ba_spent (dw_allocation w)"
  shows "money_inv (restore_headroom amount w) pc (g\<lparr>lg_debited := lg_debited g - amount\<rparr>)"
  using assms by (cases pc) (auto simp: money_defs restore_headroom_def split: settle.splits)


subsection \<open>Every admissible step keeps the money\<close>

definition dw_inv :: "dw_sys \<Rightarrow> bool" where
  "dw_inv y \<longleftrightarrow> money_inv (ds_wallet y) (ds_pc y) (ds_ledger y)"

lemma resolved_inv:
  assumes "dw_inv y" and "dw_ok y (Resolved outcome)"
  shows "dw_inv (dw_step parent y (Resolved outcome))"
proof -
  have inv: "money_inv (ds_wallet y) (ds_pc y) (ds_ledger y)" using assms(1) by (simp add: dw_inv_def)
  have pending: "ba_pending (dw_allocation (ds_wallet y)) \<noteq> None"
    using inv assms(2) by (auto simp: money_inv_def)
  show ?thesis
  proof (cases outcome)
    case None
    with pending money_inv_idle [OF inv] show ?thesis by (simp add: reconcile_unknown dw_inv_def)
  next
    case (Some b)
    then obtain w where w: "reconcile_finish outcome (ds_wallet y) = Inr w"
      using reconcile_known [of b "ds_wallet y"] by (cases "reconcile_finish outcome (ds_wallet y)") auto
    note rec = reconcile_money [OF inv w pending]
    have ok: "outcome = Some (lg_open_applied (ds_ledger y))" using assms(2) Some by simp
    have w_inv: "money_inv w Idle (close_debit (ds_ledger y))" using rec(1) ok by simp
    have w_none: "ba_pending (dw_allocation w) = None" using rec(2) ok by simp
    have w_rev: "dw_revoked w = dw_revoked (ds_wallet y)" using rec(3) ok by simp
    show ?thesis
    proof (cases "ds_pc y")
      case (Spend_Resolve cost memo currency)
      then have "0 < cost" using inv by (simp add: money_inv_def)
      from spend_check_money [OF w_inv w_none this] Spend_Resolve Some w
      show ?thesis by (simp add: dw_inv_def)
    next
      case Refund_Resolve
      then have "dw_revoked w" using inv w_rev by (simp add: money_inv_def)
      from refund_decide_money [OF w_inv w_none this] Refund_Resolve Some w
      show ?thesis by (simp add: dw_inv_def)
    qed (use assms(2) in simp_all)
  qed
qed

lemma keys_money [simp]: "money_inv w pc (g\<lparr>lg_keys := ks\<rparr>) = money_inv w pc g"
  by (cases pc) (simp_all add: money_defs cong: settle.case_cong)

lemma settled_inv:
  assumes "dw_inv y" and "dw_ok y (Settled answer)"
  shows "dw_inv (dw_step parent y (Settled answer))"
proof -
  from assms(2) obtain k where k: "ds_pc y = Refund_Settle k" by auto
  have r: "r = settle_amount k (dw_allocation (ds_wallet y)) (ds_ledger y)"
    if "answer = Released (Some r)" for r using assms(2) k that by simp
  from assms(1) k have "money_inv (ds_wallet y) (Refund_Settle k) (ds_ledger y)"
    by (simp add: dw_inv_def)
  from refund_settled_money [of _ _ _ answer, OF this r] show ?thesis
    by (cases "settle_success k answer") (simp_all add: dw_inv_def k)
qed

lemma dw_step_inv:
  assumes "dw_inv y" and "dw_ok y e" shows "dw_inv (dw_step parent y e)"
proof (cases e)
  case (Resolved outcome)
  with assms resolved_inv show ?thesis by blast
next
  case (Settled answer)
  with assms settled_inv show ?thesis by blast
next
  case (Spend cost memo currency)
  with assms show ?thesis by (simp add: dw_inv_def spend_start_money)
next
  case Refund
  with assms money_inv_fence [of "ds_wallet y" Idle "ds_ledger y"]
  show ?thesis by (simp add: dw_inv_def refund_start_money)
next
  case (Prepared i)
  with assms show ?thesis by (auto simp: dw_inv_def spend_prepared_money)
next
  case (Executed b)
  with assms obtain cost memo currency where pc: "ds_pc y = Spend_Execute cost memo currency"
    by auto
  with assms Executed
    spend_executed_money [of "ds_wallet y" cost memo currency "ds_ledger y" b]
  show ?thesis by (cases b) (simp_all add: dw_inv_def)
next
  case (Raises b)
  have inv: "money_inv (ds_wallet y) (ds_pc y) (ds_ledger y)" using assms(1) by (simp add: dw_inv_def)
  note idle = money_inv_idle [OF inv]
  show ?thesis
  proof (cases "ds_pc y")
    case (Spend_Execute cost memo currency)
    with inv obtain i where "ba_pending (dw_allocation (ds_wallet y)) = Some i" "cost = si_amount i"
      by (auto simp: money_inv_def pending_amount_def)
    with debit_money [OF idle, of i] Spend_Execute Raises idle show ?thesis by (simp add: dw_inv_def)
  next
    case (Refund_Settle k)
    with settle_money [of "ds_wallet y" k "ds_ledger y"] inv Raises idle
    show ?thesis by (simp add: dw_inv_def)
  qed (use Raises idle in \<open>simp_all add: dw_inv_def\<close>)
next
  case Late_Debit
  with assms debit_money show ?thesis by (auto simp: dw_inv_def split: option.splits)
next
  case Fence
  with assms show ?thesis by (simp add: dw_inv_def money_inv_fence)
next
  case (Restore amount)
  with assms show ?thesis by (simp add: dw_inv_def restore_money)
qed

interpretation wallet: guarded_machine "dw_step parent" dw_ok dw_inv for parent
  by unfold_locales (rule dw_step_inv)

lemma ds_init_inv:
  "0 \<le> amount \<Longrightarrow> dw_inv (ds_init wallet ((new_budget_allocation child amount par aid)
     \<lparr>ba_parent_hold_durable := durable\<rparr>))"
  by (simp add: dw_inv_def ds_init_def dw_init_def new_budget_allocation_def money_defs)

lemma dw_inv_bounds:
  "dw_inv y \<Longrightarrow> 0 \<le> ba_spent (dw_allocation (ds_wallet y))
    \<and> ba_spent (dw_allocation (ds_wallet y)) \<le> ba_amount (dw_allocation (ds_wallet y))
    \<and> lg_debited (ds_ledger y) + lg_credited (ds_ledger y) \<le> ba_amount (dw_allocation (ds_wallet y))
    \<and> 0 \<le> lg_debited (ds_ledger y) \<and> 0 \<le> lg_credited (ds_ledger y)"
  by (auto simp: dw_inv_def money_defs split: option.splits if_splits)


subsection \<open>What no step changes, and the idempotency keys\<close>

definition hold_terms :: "delegated_wallet \<Rightarrow> decimal \<times> string \<times> bool" where
  "hold_terms w = (ba_amount (dw_allocation w), ba_allocation_id (dw_allocation w),
     ba_parent_hold_durable (dw_allocation w))"

definition sequence :: "delegated_wallet \<Rightarrow> nat" where
  "sequence w = ba_next_spend_sequence (dw_allocation w)"

lemma hold_terms_simps [simp]:
  "hold_terms (record_spend c cur m w) = hold_terms w"
  "hold_terms (fence_spending w) = hold_terms w"
  "hold_terms (w\<lparr>dw_refund_completed := b\<rparr>) = hold_terms w"
  "hold_terms (w\<lparr>dw_refund_attempted := b\<rparr>) = hold_terms w"
  "hold_terms (restore_headroom amount w) = hold_terms w"
  "sequence (record_spend c cur m w) = sequence w"
  "sequence (fence_spending w) = sequence w"
  "sequence (w\<lparr>dw_refund_completed := b\<rparr>) = sequence w"
  "sequence (w\<lparr>dw_refund_attempted := b\<rparr>) = sequence w"
  "sequence (restore_headroom amount w) = sequence w"
  by (simp_all add: hold_terms_def sequence_def restore_headroom_def)

text \<open>The segments keep the terms; only the check before a new intent advances the sequence.\<close>

definition keeps :: "delegated_wallet \<Rightarrow> dw_out \<Rightarrow> bool" where
  "keeps w out \<longleftrightarrow> hold_terms (fst out) = hold_terms w \<and>
     (case fst (snd out) of Spend_Prepare _ _ _ \<Rightarrow> sequence (fst out) = Suc (sequence w)
      | _ \<Rightarrow> sequence (fst out) = sequence w)"

lemma spend_check_keeps: "keeps w (spend_check cost memo currency w)"
  by (auto simp: keeps_def spend_check_def hold_terms_def sequence_def)

lemma refund_decide_keeps: "keeps w (refund_decide parent w)"
  by (auto simp: keeps_def refund_decide_def Let_def)

lemma spend_start_keeps: "keeps w (spend_start cost memo currency w)"
  using spend_check_keeps [of w cost memo currency]
  by (auto simp: keeps_def spend_start_def split: sum.split bool.split)

lemma refund_start_keeps: "keeps w (refund_start parent w)"
  using refund_decide_keeps [of w parent]
  by (auto simp: keeps_def refund_start_def split: sum.split bool.split)

lemma reconcile_finish_keeps:
  "reconcile_finish outcome w = Inr w' \<Longrightarrow> hold_terms w' = hold_terms w \<and> sequence w' = sequence w"
  by (auto simp: reconcile_finish_def hold_terms_def sequence_def split: option.splits if_splits)

lemma spend_prepared_keeps:
  "keeps w (spend_prepared i cost memo currency w)"
  by (auto simp: keeps_def spend_prepared_def hold_terms_def sequence_def)

lemma spend_executed_keeps: "keeps w (spend_executed b cost memo currency w)"
  by (auto simp: keeps_def spend_executed_def hold_terms_def sequence_def)

lemma refund_settled_keeps: "keeps w (refund_settled k answer w)"
  by (cases "(k, answer, w)" rule: refund_settled.cases)
     (auto simp: keeps_def hold_terms_def sequence_def)

definition key_of :: "string \<Rightarrow> nat \<Rightarrow> string" where
  "key_of aid n = ''delegated-spend:'' @ aid @ '':'' @ show_nat n"

lemma key_of_inject [simp]: "key_of aid m = key_of aid n \<longleftrightarrow> m = n"
  by (simp add: key_of_def)

definition preparing :: "dw_pc \<Rightarrow> bool" where
  "preparing pc \<longleftrightarrow> (case pc of Spend_Prepare _ _ _ \<Rightarrow> True | _ \<Rightarrow> False)"

definition key_inv :: "string \<Rightarrow> dw_sys \<Rightarrow> bool" where
  "key_inv aid y \<longleftrightarrow> ba_allocation_id (dw_allocation (ds_wallet y)) = aid \<and>
     (\<exists>ns. lg_keys (ds_ledger y) = map (key_of aid) ns \<and> distinct ns \<and>
       (\<forall>n \<in> set ns. n < sequence (ds_wallet y) + (if preparing (ds_pc y) then 0 else 1)))"


lemma keeps_key_inv:
  assumes "key_inv aid y" and "keeps w out" and "hold_terms w = hold_terms (ds_wallet y)"
    and "sequence w = sequence (ds_wallet y)" and "\<not> preparing (ds_pc y)"
    and "ds_wallet y' = fst out" and "ds_pc y' = fst (snd out)"
    and "lg_keys (ds_ledger y') = lg_keys (ds_ledger y)"
  shows "key_inv aid y'"
proof -
  have "sequence (ds_wallet y') + (if preparing (ds_pc y') then 0 else 1) = Suc (sequence (ds_wallet y))"
    using assms(2,4,6,7) by (auto simp: keeps_def preparing_def split: dw_pc.splits)
  then show ?thesis using assms by (simp add: key_inv_def keeps_def hold_terms_def)
qed

lemma ledger_keys [simp]:
  "lg_keys (debit c g) = lg_keys g" "lg_keys (close_debit g) = lg_keys g"
  "lg_keys (settle_credit k a g) = lg_keys g"
  by (auto simp: debit_def close_debit_def settle_credit_def credit_def credit_volatile_def
      split: settle.split option.split)

lemma prepared_key_inv:
  assumes "key_inv aid y" and "preparing (ds_pc y)" and "\<not> preparing (ds_pc y')"
    and "hold_terms (ds_wallet y') = hold_terms (ds_wallet y)"
    and "sequence (ds_wallet y') = sequence (ds_wallet y)"
    and "lg_keys (ds_ledger y') = idempotency_key (dw_allocation (ds_wallet y)) # lg_keys (ds_ledger y)
      \<or> lg_keys (ds_ledger y') = lg_keys (ds_ledger y)"
  shows "key_inv aid y'"
proof -
  from assms(1,2) obtain ns where ns: "lg_keys (ds_ledger y) = map (key_of aid) ns" "distinct ns"
    "\<forall>n \<in> set ns. n < sequence (ds_wallet y)"
    and aid: "ba_allocation_id (dw_allocation (ds_wallet y)) = aid" by (auto simp: key_inv_def)
  have key: "idempotency_key (dw_allocation (ds_wallet y)) = key_of aid (sequence (ds_wallet y))"
    using aid by (simp add: idempotency_key_def key_of_def sequence_def)
  have aid': "ba_allocation_id (dw_allocation (ds_wallet y')) = aid"
    using aid assms(4) by (simp add: hold_terms_def)
  from assms(6) show ?thesis
  proof
    assume *: "lg_keys (ds_ledger y') = idempotency_key (dw_allocation (ds_wallet y)) # lg_keys (ds_ledger y)"
    show ?thesis unfolding key_inv_def
      using ns aid' assms(3,5) *
      by (intro conjI exI [of _ "sequence (ds_wallet y) # ns"]) (auto simp: key)
  next
    assume *: "lg_keys (ds_ledger y') = lg_keys (ds_ledger y)"
    show ?thesis unfolding key_inv_def
      using ns aid' assms(3,5) * by (intro conjI exI [of _ ns]) auto
  qed
qed

lemma same_key_inv:
  assumes "key_inv aid y" and "hold_terms (ds_wallet y') = hold_terms (ds_wallet y)"
    and "sequence (ds_wallet y') = sequence (ds_wallet y)"
    and "preparing (ds_pc y') = preparing (ds_pc y)" and "lg_keys (ds_ledger y') = lg_keys (ds_ledger y)"
  shows "key_inv aid y'"
  using assms by (simp add: key_inv_def hold_terms_def)

lemma keeps_not_preparing:
  "\<not> preparing (fst (snd (spend_prepared i cost memo currency w)))"
  "sequence (fst (spend_prepared i cost memo currency w)) = sequence w"
  by (auto simp: preparing_def spend_prepared_def sequence_def)

lemma resolved_key_inv:
  assumes "key_inv aid y" and "dw_ok y (Resolved outcome)"
  shows "key_inv aid (dw_step parent y (Resolved outcome))"
proof -
  have np: "\<not> preparing (ds_pc y)" using assms(2) by (auto simp: preparing_def)
  show ?thesis
  proof (cases "reconcile_finish outcome (ds_wallet y)")
    case (Inl e)
    then show ?thesis using np by (auto intro: same_key_inv [OF assms(1)] simp: preparing_def Let_def)
  next
    case (Inr w)
    note kept = reconcile_finish_keeps [OF Inr]
    from assms(2) have "ds_pc y = Refund_Resolve \<or> (\<exists>c m u. ds_pc y = Spend_Resolve c m u)" by auto
    then show ?thesis
    proof (elim disjE exE)
      assume pc: "ds_pc y = Refund_Resolve"
      show ?thesis
        by (rule keeps_key_inv [OF assms(1) refund_decide_keeps [of w parent] _ _ np])
           (use kept Inr pc in \<open>auto simp: Let_def\<close>)
    next
      fix c m u assume pc: "ds_pc y = Spend_Resolve c m u"
      show ?thesis
        by (rule keeps_key_inv [OF assms(1) spend_check_keeps [of w c m u] _ _ np])
           (use kept Inr pc in \<open>auto simp: Let_def\<close>)
    qed
  qed
qed

lemma key_inv_step:
  assumes "key_inv aid y" and "dw_ok y e" shows "key_inv aid (dw_step parent y e)"
proof (cases e)
  case (Resolved outcome)
  with assms resolved_key_inv show ?thesis by blast
next
  case (Settled answer)
  with assms obtain k where k: "ds_pc y = Refund_Settle k" by auto
  show ?thesis
    by (rule keeps_key_inv [OF assms(1) refund_settled_keeps [of "ds_wallet y" k answer]])
       (use k Settled in \<open>auto simp: preparing_def\<close>)
next
  case (Spend cost memo currency)
  show ?thesis
    by (rule keeps_key_inv [OF assms(1) spend_start_keeps [of "ds_wallet y" cost memo currency]])
       (use Spend assms(2) in \<open>auto simp: preparing_def\<close>)
next
  case Refund
  show ?thesis
    by (rule keeps_key_inv [OF assms(1) refund_start_keeps [of "fence_spending (ds_wallet y)" parent]])
       (use Refund assms(2) in \<open>auto simp: preparing_def\<close>)
next
  case (Prepared i)
  with assms(2) obtain c m u where pc: "ds_pc y = Spend_Prepare c m u" by auto
  show ?thesis
    by (rule prepared_key_inv [OF assms(1)])
       (use Prepared pc keeps_not_preparing spend_prepared_keeps [of "ds_wallet y" i c m u] in
         \<open>auto simp: preparing_def keeps_def\<close>)
next
  case (Executed b)
  with assms(2) obtain c m u where pc: "ds_pc y = Spend_Execute c m u" by auto
  show ?thesis
    by (rule keeps_key_inv [OF assms(1) spend_executed_keeps [of "ds_wallet y" b c m u]])
       (use pc Executed in \<open>auto simp: preparing_def\<close>)
next
  case (Raises b)
  show ?thesis
  proof (cases "preparing (ds_pc y)")
    case True
    show ?thesis
      by (rule prepared_key_inv [OF assms(1) True])
         (use Raises True in \<open>auto simp: preparing_def split: dw_pc.splits\<close>)
  next
    case False
    show ?thesis
      by (rule same_key_inv [OF assms(1)])
         (use Raises False in \<open>auto simp: preparing_def split: dw_pc.splits\<close>)
  qed
next
  case Late_Debit
  show ?thesis
    by (rule same_key_inv [OF assms(1)]) (use Late_Debit in \<open>auto split: option.splits\<close>)
qed (auto intro: same_key_inv [OF assms(1)])


text \<open>
  Once spending is fenced and no spend is between its check and the end of its debit, the keys stay
  as they are and at most the debit of a pending intent can still be applied.
\<close>

definition exposure :: "dw_sys \<Rightarrow> decimal" where
  "exposure y = lg_debited (ds_ledger y) +
     (if lg_open_applied (ds_ledger y) then 0 else pending_amount (dw_allocation (ds_wallet y)))"

definition quiet :: "dw_pc \<Rightarrow> bool" where
  "quiet pc \<longleftrightarrow> (case pc of Spend_Prepare _ _ _ \<Rightarrow> False | Spend_Execute _ _ _ \<Rightarrow> False | _ \<Rightarrow> True)"

definition fence_inv :: "string list \<Rightarrow> decimal \<Rightarrow> dw_sys \<Rightarrow> bool" where
  "fence_inv ks d y \<longleftrightarrow> dw_inv y \<and> dw_revoked (ds_wallet y) \<and> quiet (ds_pc y)
     \<and> lg_keys (ds_ledger y) = ks \<and> exposure y \<le> d"

lemma refused_when_revoked:
  "dw_revoked w \<Longrightarrow> spend_check cost memo currency w = (w, Idle, Failed Budget_Exceeded)"
  by (simp add: spend_check_def can_spend_def)

lemma spend_start_revoked:
  "dw_revoked w \<Longrightarrow> fst (spend_start cost memo currency w) = w
    \<and> quiet (fst (snd (spend_start cost memo currency w)))"
  by (auto simp: spend_start_def refused_when_revoked quiet_def split: sum.split bool.split)

lemma refund_decide_quiet:
  "quiet (fst (snd (refund_decide parent w)))"
  "dw_revoked (fst (refund_decide parent w)) = dw_revoked w"
  "dw_allocation (fst (refund_decide parent w)) = dw_allocation w"
  by (auto simp: refund_decide_def Let_def quiet_def)

lemma refund_start_quiet:
  "quiet (fst (snd (refund_start parent w)))"
  "dw_revoked (fst (refund_start parent w)) = dw_revoked w"
  "dw_allocation (fst (refund_start parent w)) = dw_allocation w"
  using refund_decide_quiet [of parent w]
  by (auto simp: refund_start_def quiet_def split: sum.split bool.split)

lemma refund_settled_quiet:
  "fst (snd (refund_settled k answer w)) = Idle"
  "dw_revoked (fst (refund_settled k answer w)) = dw_revoked w"
  "pending_amount (dw_allocation (fst (refund_settled k answer w))) = pending_amount (dw_allocation w)"
  by (cases "(k, answer, w)" rule: refund_settled.cases; simp add: pending_amount_def)+

lemma settle_credit_debited [simp]:
  "lg_debited (settle_credit k a g) = lg_debited g"
  "lg_open_applied (settle_credit k a g) = lg_open_applied g"
  by (auto simp: settle_credit_def credit_def credit_volatile_def split: settle.split option.split)

lemma reconcile_exposure:
  assumes "reconcile_finish (Some (lg_open_applied g)) w = Inr w'" and "money_inv w pc g"
  shows "dw_revoked w' = dw_revoked w" and "pending_amount (dw_allocation w') = 0"
    and "lg_debited g \<le> lg_debited g + (if lg_open_applied g then 0 else pending_amount (dw_allocation w))"
  using assms
  by (auto simp: reconcile_finish_def money_defs split: option.splits if_splits)

lemma fence_resolved:
  assumes inv: "fence_inv ks d y" and ok: "dw_ok y (Resolved outcome)"
  shows "fence_inv ks d (dw_step parent y (Resolved outcome))"
proof -
  have y: "dw_inv y" "dw_revoked (ds_wallet y)" "lg_keys (ds_ledger y) = ks" "exposure y \<le> d"
    using inv by (simp_all add: fence_inv_def)
  have next_inv: "dw_inv (dw_step parent y (Resolved outcome))" using y(1) ok by (rule dw_step_inv)
  have pending: "ba_pending (dw_allocation (ds_wallet y)) \<noteq> None"
    using y(1) ok by (auto simp: dw_inv_def money_inv_def)
  show ?thesis
  proof (cases outcome)
    case None
    with pending next_inv y show ?thesis
      by (simp add: fence_inv_def reconcile_unknown quiet_def exposure_def split: if_splits)
  next
    case (Some b)
    with ok have b: "outcome = Some (lg_open_applied (ds_ledger y))" by simp
    obtain w where w: "reconcile_finish outcome (ds_wallet y) = Inr w"
      using reconcile_known [of b "ds_wallet y"] Some by (cases "reconcile_finish outcome (ds_wallet y)") auto
    note rec = reconcile_exposure [of "ds_ledger y" "ds_wallet y" w "ds_pc y", folded b, OF w]
    have m: "money_inv (ds_wallet y) (ds_pc y) (ds_ledger y)" using y(1) by (simp add: dw_inv_def)
    have d: "lg_debited (ds_ledger y) \<le> d"
      using rec(3) [OF m] y(4) unfolding exposure_def by (rule order_trans)
    from ok have "ds_pc y = Refund_Resolve \<or> (\<exists>c m u. ds_pc y = Spend_Resolve c m u)" by auto
    then show ?thesis
    proof (elim disjE exE)
      assume pc: "ds_pc y = Refund_Resolve"
      with next_inv y(2,3) d w Some rec(1,2) [OF m] refund_decide_quiet [of parent w] show ?thesis
        by (simp add: fence_inv_def exposure_def close_debit_def)
    next
      fix c m' u assume pc: "ds_pc y = Spend_Resolve c m' u"
      with next_inv y(2,3) d w Some rec(1,2) [OF m] refused_when_revoked [of w c m' u] show ?thesis
        by (simp add: fence_inv_def exposure_def close_debit_def quiet_def)
    qed
  qed
qed

lemma fence_inv_step:
  assumes inv: "fence_inv ks d y" and ok: "dw_ok y e" shows "fence_inv ks d (dw_step parent y e)"
proof -
  have y: "dw_inv y" "dw_revoked (ds_wallet y)" "quiet (ds_pc y)" "lg_keys (ds_ledger y) = ks"
    "exposure y \<le> d" using inv by (simp_all add: fence_inv_def)
  have next_inv: "dw_inv (dw_step parent y e)" using y(1) ok by (rule dw_step_inv)
  show ?thesis
  proof (cases e)
    case (Resolved outcome)
    with inv ok fence_resolved show ?thesis by blast
  next
    case (Settled answer)
    with ok obtain k where "ds_pc y = Refund_Settle k" by auto
    with next_inv y Settled refund_settled_quiet [of k answer "ds_wallet y"] show ?thesis
      by (cases "settle_success k answer") (simp_all add: fence_inv_def exposure_def quiet_def split: if_splits)
  next
    case (Spend cost memo currency)
    with next_inv y spend_start_revoked [of "ds_wallet y" cost memo currency] show ?thesis
      by (simp add: fence_inv_def exposure_def split: if_splits)
  next
    case Refund
    with next_inv y refund_start_quiet [of parent "fence_spending (ds_wallet y)"] show ?thesis
      by (simp add: fence_inv_def exposure_def split: if_splits)
  next
    case (Raises b)
    with next_inv y show ?thesis
      by (auto simp: fence_inv_def exposure_def quiet_def split: dw_pc.splits)
  next
    case Late_Debit
    with next_inv y show ?thesis
      by (cases "ba_pending (dw_allocation (ds_wallet y))")
         (auto simp: fence_inv_def exposure_def debit_def pending_amount_def)
  next
    case (Restore amount)
    then have "exposure (dw_step parent y e) = exposure y - amount"
      "dw_revoked (ds_wallet (dw_step parent y e)) = dw_revoked (ds_wallet y)"
      by (simp_all add: exposure_def restore_headroom_def pending_amount_def)
    with next_inv y ok Restore show ?thesis by (simp add: fence_inv_def)
  qed (use next_inv y ok in \<open>auto simp: fence_inv_def exposure_def quiet_def split: dw_pc.splits\<close>)
qed

interpretation fenced: guarded_machine "dw_step parent" dw_ok "fence_inv ks d" for parent ks d
  by unfold_locales (rule fence_inv_step)

interpretation keyed: guarded_machine "dw_step parent" dw_ok "key_inv aid" for parent aid
  by unfold_locales (rule key_inv_step)


lemma hold_terms_step: "dw_ok y e \<Longrightarrow> hold_terms (ds_wallet (dw_step parent y e)) = hold_terms (ds_wallet y)"
  using spend_start_keeps refund_start_keeps spend_prepared_keeps spend_executed_keeps
    refund_settled_keeps spend_check_keeps refund_decide_keeps reconcile_finish_keeps
  by (cases e) (auto simp: keeps_def Let_def split: dw_pc.split sum.split option.split)

lemma hold_terms_run:
  "run_ok dw_ok (dw_step parent) y es \<Longrightarrow>
   hold_terms (ds_wallet (run (dw_step parent) y es)) = hold_terms (ds_wallet y)"
  by (induction es arbitrary: y) (auto simp: hold_terms_step)

subsection \<open>The properties of the wallet\<close>

definition fresh_allocation :: "string \<Rightarrow> decimal \<Rightarrow> string \<Rightarrow> string \<Rightarrow> bool \<Rightarrow> budget_allocation" where
  "fresh_allocation child amount par aid durable =
     (new_budget_allocation child amount par aid)\<lparr>ba_parent_hold_durable := durable\<rparr>"

text \<open>
  C1: the ceiling, and no money twice. From a fresh allocation, along every admissible sequence of
  spends, refunds, provider answers, failures, cancellations, late debits, fences and grandchild
  refunds: the recorded spending stays between zero and the ceiling, what the provider really
  debited is never negative, the parent is never credited a negative amount, and the debits plus the
  credit to the parent never exceed the allocation (so a refund and a debit cannot both take the
  same funds, and an ambiguous refund is never paid twice).
\<close>

theorem wallet_never_exceeds_ceiling:
  assumes "0 \<le> amount"
    and "run_ok dw_ok (dw_step parent) (ds_init wallet (fresh_allocation child amount par aid durable)) es"
    and "y = run (dw_step parent) (ds_init wallet (fresh_allocation child amount par aid durable)) es"
  shows "0 \<le> ba_spent (dw_allocation (ds_wallet y))
    \<and> ba_spent (dw_allocation (ds_wallet y)) \<le> amount
    \<and> 0 \<le> lg_debited (ds_ledger y) \<and> 0 \<le> lg_credited (ds_ledger y)
    \<and> lg_debited (ds_ledger y) + lg_credited (ds_ledger y) \<le> amount"
proof -
  have "dw_inv y" unfolding assms(3) fresh_allocation_def
    by (rule wallet.run_inv [OF ds_init_inv [OF assms(1)] assms(2) [unfolded fresh_allocation_def]])
  moreover have "ba_amount (dw_allocation (ds_wallet y)) = amount"
    using hold_terms_run [OF assms(2)]
    by (simp add: assms(3) hold_terms_def ds_init_def dw_init_def fresh_allocation_def
        new_budget_allocation_def)
  ultimately show ?thesis using dw_inv_bounds [of y] by simp
qed

text \<open>A run for the witnesses: a debit whose outcome is lost, its reconciliation, a fence, a refund.\<close>

definition demo_caps :: "string list" where
  "demo_caps = [''prepare_debit_intent'', ''execute_debit_intent'', ''resolve_debit_intent'']"

definition demo_alloc :: budget_allocation where
  "demo_alloc = fresh_allocation ''kid'' 10 ''mum'' ''a1'' False"

definition demo_spends :: "dw_event list" where
  "demo_spends = [Spend 4 ''work'' ''FIL'', Prepared ''i1'', Raises False, Late_Debit,
     Spend 3 ''more'' ''FIL'', Resolved (Some True), Prepared ''i2'', Executed True]"

definition demo_refund :: "dw_event list" where
  "demo_refund = [Fence, Spend 1 ''late'' ''FIL'', Refund, Settled (Acknowledged True), Refund]"

lemmas demo_wallet_defs = demo_caps_def demo_alloc_def demo_spends_def demo_refund_def
  fresh_allocation_def new_budget_allocation_def ds_init_def dw_init_def spend_start_def
  reconcile_start_def spend_check_def can_spend_def durable_debit_provider_def
  has_direct_callable_contract_def with_allocation_def ds_put_def with_ledger_def
  spend_prepared_def spend_executed_def reconcile_finish_def record_spend_def close_debit_def
  debit_def refund_start_def refund_decide_def durable_allocation_provider_def
  durable_child_wallet_provider_def durable_child_wallet_release_provider_def ba_remaining_def
  settle_credit_def settle_amount_def credit_volatile_def fence_spending_def Let_def

lemma demo_spends_run:
  "run_ok dw_ok (dw_step []) (ds_init demo_caps demo_alloc) demo_spends"
  "ba_spent (dw_allocation (ds_wallet (run (dw_step []) (ds_init demo_caps demo_alloc) demo_spends))) = 7"
  "lg_debited (ds_ledger (run (dw_step []) (ds_init demo_caps demo_alloc) demo_spends)) = 7"
  by (simp_all add: demo_wallet_defs)


lemma demo_refund_run:
  "run_ok dw_ok (dw_step []) (run (dw_step []) (ds_init demo_caps demo_alloc) demo_spends) demo_refund"
  "lg_credited (ds_ledger (run (dw_step [])
     (run (dw_step []) (ds_init demo_caps demo_alloc) demo_spends) demo_refund)) = 3"
  by (simp_all add: demo_wallet_defs)

lemma run_ok_append:
  "run_ok ok step s (xs @ ys) \<longleftrightarrow> run_ok ok step s xs \<and> run_ok ok step (run step s xs) ys"
  by (induction xs arbitrary: s) auto

lemma wallet_never_exceeds_ceiling_witness:
  "lg_debited (ds_ledger (run (dw_step []) (ds_init demo_caps demo_alloc) (demo_spends @ demo_refund)))
   + lg_credited (ds_ledger (run (dw_step []) (ds_init demo_caps demo_alloc) (demo_spends @ demo_refund)))
   \<le> 10"
  using wallet_never_exceeds_ceiling [of 10 "[]" demo_caps "''kid''" "''mum''" "''a1''" False
      "demo_spends @ demo_refund", OF _ _ refl, folded demo_alloc_def]
    demo_spends_run(1) demo_refund_run(1) by (simp add: run_ok_append)

text \<open>
  C17: the fence holds. From any state of the wallet reached by admissible steps in which spending is
  fenced and no spend is between its budget check and the answer of its debit, no admissible
  continuation records another debit intent, and the provider's debits grow by no more than the
  pending intent that was already on record.
\<close>

theorem fenced_wallet_debits_no_more:
  assumes "run_ok dw_ok (dw_step parent) (ds_init wallet (fresh_allocation child amount par aid durable)) es"
    and "y = run (dw_step parent) (ds_init wallet (fresh_allocation child amount par aid durable)) es"
    and "0 \<le> amount" and "dw_revoked (ds_wallet y)" and "quiet (ds_pc y)"
    and "run_ok dw_ok (dw_step parent) y es'"
  shows "lg_keys (ds_ledger (run (dw_step parent) y es')) = lg_keys (ds_ledger y)
    \<and> lg_debited (ds_ledger (run (dw_step parent) y es'))
        \<le> lg_debited (ds_ledger y) + pending_amount (dw_allocation (ds_wallet y))"
proof -
  have inv: "dw_inv y" unfolding assms(2) fresh_allocation_def
    by (rule wallet.run_inv [OF ds_init_inv [OF assms(3)] assms(1) [unfolded fresh_allocation_def]])
  have pos: "0 \<le> pending_amount (dw_allocation z)" if "dw_inv (w\<lparr>ds_wallet := z\<rparr>)" for z w
    using that by (auto simp: dw_inv_def money_defs split: option.splits)
  have "fence_inv (lg_keys (ds_ledger y)) (exposure y) y"
    using inv assms(4,5) by (simp add: fence_inv_def)
  from fenced.run_inv [OF this assms(6)]
  have fin: "fence_inv (lg_keys (ds_ledger y)) (exposure y) (run (dw_step parent) y es')" .
  have 1: "exposure y \<le> lg_debited (ds_ledger y) + pending_amount (dw_allocation (ds_wallet y))"
    using pos [of "ds_wallet y" y] inv by (simp add: exposure_def)
  have 2: "lg_debited (ds_ledger (run (dw_step parent) y es')) \<le> exposure (run (dw_step parent) y es')"
    using pos [of "ds_wallet (run (dw_step parent) y es')" "run (dw_step parent) y es'"] fin
    by (simp add: exposure_def fence_inv_def)
  from fin 1 2 show ?thesis by (simp add: fence_inv_def)
qed

definition demo_fenced :: dw_sys where
  "demo_fenced = run (dw_step []) (ds_init demo_caps demo_alloc) (demo_spends @ [Fence])"

lemma fenced_wallet_debits_no_more_witness:
  "lg_debited (ds_ledger (run (dw_step []) demo_fenced [Spend 1 ''late'' ''FIL'', Refund])) \<le> 7"
proof -
  have ok: "run_ok dw_ok (dw_step []) (ds_init demo_caps demo_alloc) (demo_spends @ [Fence])"
    using demo_spends_run(1) by (simp add: run_ok_append)
  have "dw_revoked (ds_wallet demo_fenced)" "quiet (ds_pc demo_fenced)"
    "run_ok dw_ok (dw_step []) demo_fenced [Spend 1 ''late'' ''FIL'', Refund]"
    "lg_debited (ds_ledger demo_fenced) + pending_amount (dw_allocation (ds_wallet demo_fenced)) = 7"
    by (simp_all add: demo_fenced_def quiet_def pending_amount_def demo_wallet_defs)
  with fenced_wallet_debits_no_more [OF ok [unfolded demo_alloc_def]
      demo_fenced_def [unfolded demo_alloc_def] _ _ _ this(3)]
  show ?thesis by simp
qed

text \<open>
  idempotency keys are never reused. Along every admissible run of a fresh allocation, the keys
  handed to the provider with \<open>prepare_debit_intent\<close> are pairwise different, whatever was refused,
  cancelled or retried in between.
\<close>

theorem debit_keys_unique:
  assumes "run_ok dw_ok (dw_step parent) (ds_init wallet (fresh_allocation child amount par aid durable)) es"
  shows "distinct (lg_keys (ds_ledger (run (dw_step parent)
    (ds_init wallet (fresh_allocation child amount par aid durable)) es)))"
proof -
  have "key_inv aid (ds_init wallet (fresh_allocation child amount par aid durable))"
    by (simp add: key_inv_def ds_init_def dw_init_def fresh_allocation_def new_budget_allocation_def)
  from keyed.run_inv [OF this assms] show ?thesis
    by (auto simp: key_inv_def distinct_map inj_on_def)
qed

lemma debit_keys_unique_witness:
  "distinct (lg_keys (ds_ledger (run (dw_step []) (ds_init demo_caps demo_alloc) demo_spends)))
   \<and> length (lg_keys (ds_ledger (run (dw_step []) (ds_init demo_caps demo_alloc) demo_spends))) = 2"
proof
  show "distinct (lg_keys (ds_ledger (run (dw_step []) (ds_init demo_caps demo_alloc) demo_spends)))"
    unfolding demo_alloc_def
    by (rule debit_keys_unique [OF demo_spends_run(1) [unfolded demo_alloc_def]])
qed (simp add: demo_wallet_defs)


subsection \<open>Creating a delegated wallet: the hold\<close>

text \<open>
  The calls a creation makes on the parent, each with whether it was acknowledged (returned what
  means success), and the replies of the environment. \<open>Setup_Cancelled\<close> is a cancellation that
  arrives while the child wallet initialises: \<open>except Exception\<close> does not catch it.
\<close>

datatype 'a reply = Reply 'a | Raised

datatype parent_call =
    Reserve_And_Provision decimal
  | Reserve decimal
  | Transfer decimal
  | Release_Hold decimal
  | Deposit_Back decimal
  | Restore_Headroom decimal

datatype setup_reply = Setup_Ok "string list" | Setup_Raised | Setup_Cancelled

record create_env =
  ce_provision :: "string list option reply"
  ce_reserve :: "bool reply"
  ce_can_afford :: bool
  ce_transfer :: "bool reply"
  ce_setup :: setup_reply
  ce_refund :: "bool reply"

type_synonym create_out = "(wallet_error + delegated_wallet) \<times> (parent_call \<times> bool) list"

definition allocation_key :: "(string \<Rightarrow> string) \<Rightarrow> string \<Rightarrow> string \<Rightarrow> string" where
  "allocation_key sha256 parent_did child_did =
     sha256 (''delegated-allocation:v1'' @ [CHR 0x00] @ parent_did @ [CHR 0x00] @ child_did)"

text \<open>The handler of a failed setup: give the hold back, then restore a budgeted parent's headroom.\<close>

definition undo_hold :: "bool \<Rightarrow> bool \<Rightarrow> bool \<Rightarrow> decimal \<Rightarrow> bool reply \<Rightarrow> (parent_call \<times> bool) list" where
  "undo_hold durable has_allocation_provider delegated budget refund =
     (if durable
      then (if \<not> has_allocation_provider then []
            else if refund = Reply True
              then (Release_Hold budget, True) #
                (if delegated then [(Restore_Headroom budget, True)] else [])
            else [(Release_Hold budget, False)])
      else (case refund of
              Raised \<Rightarrow> [(Deposit_Back budget, False)]
            | Reply b \<Rightarrow> (Deposit_Back budget, b) #
                (if delegated then [(Restore_Headroom budget, True)] else [])))"

definition setup_child ::
    "budget_allocation \<Rightarrow> bool \<Rightarrow> bool \<Rightarrow> create_env \<Rightarrow> (parent_call \<times> bool) list \<Rightarrow> create_out" where
  "setup_child allocation has_allocation_provider delegated env calls =
     (case ce_setup env of
        Setup_Ok wallet \<Rightarrow> (Inr (dw_init wallet allocation), calls)
      | Setup_Cancelled \<Rightarrow> (Inl Provider_Raised, calls)
      | Setup_Raised \<Rightarrow>
          (Inl Provider_Raised, calls @ undo_hold (ba_parent_hold_durable allocation)
             has_allocation_provider delegated (ba_amount allocation) (ce_refund env)))"

definition create_delegated_wallet ::
    "(string \<Rightarrow> string) \<Rightarrow> string list \<Rightarrow> bool \<Rightarrow> string \<Rightarrow> string \<Rightarrow> decimal \<Rightarrow> create_env \<Rightarrow> create_out" where
  "create_delegated_wallet sha256 parent delegated parent_did child_did budget env =
     (if budget \<le> 0 then (Inl Value_Error, [])
      else
        let allocation = new_budget_allocation child_did budget parent_did
              (allocation_key sha256 parent_did child_did);
            allocation_provider = (\<not> delegated \<and> durable_allocation_provider parent);
            child_wallet_provider = (\<not> delegated \<and> durable_child_wallet_provider parent)
        in if child_wallet_provider then
             (case ce_provision env of
                Raised \<Rightarrow> (Inl Provider_Raised, [(Reserve_And_Provision budget, False)])
              | Reply None \<Rightarrow> (Inl Value_Error, [(Reserve_And_Provision budget, False)])
              | Reply (Some wallet) \<Rightarrow>
                  (Inr (dw_init wallet (allocation\<lparr>ba_parent_hold_durable := True\<rparr>)),
                   [(Reserve_And_Provision budget, True)]))
           else if allocation_provider then
             (case ce_reserve env of
                Raised \<Rightarrow> (Inl Provider_Raised, [(Reserve budget, False)])
              | Reply False \<Rightarrow> (Inl Value_Error, [(Reserve budget, False)])
              | Reply True \<Rightarrow> setup_child (allocation\<lparr>ba_parent_hold_durable := True\<rparr>)
                  allocation_provider delegated env [(Reserve budget, True)])
           else if \<not> ce_can_afford env then (Inl Value_Error, [])
           else
             (case ce_transfer env of
                Raised \<Rightarrow> (Inl Provider_Raised, [(Transfer budget, False)])
              | Reply False \<Rightarrow> (Inl Value_Error, [(Transfer budget, False)])
              | Reply True \<Rightarrow> setup_child allocation allocation_provider delegated env
                  [(Transfer budget, True)]))"

text \<open>What the parent holds back afterwards, and how much of its own headroom is used up.\<close>

fun held_by :: "parent_call \<times> bool \<Rightarrow> decimal" where
  "held_by (Reserve_And_Provision a, ack) = (if ack then a else 0)"
| "held_by (Reserve a, ack) = (if ack then a else 0)"
| "held_by (Transfer a, ack) = (if ack then a else 0)"
| "held_by (Release_Hold a, ack) = (if ack then - a else 0)"
| "held_by (Deposit_Back a, ack) = (if ack then - a else 0)"
| "held_by (Restore_Headroom a, ack) = 0"

fun headroom_used_by :: "parent_call \<times> bool \<Rightarrow> decimal" where
  "headroom_used_by (Transfer a, ack) = (if ack then a else 0)"
| "headroom_used_by (Restore_Headroom a, ack) = - a"
| "headroom_used_by _ = 0"

definition held :: "(parent_call \<times> bool) list \<Rightarrow> decimal" where
  "held calls = sum_list (map held_by calls)"

definition headroom_used :: "(parent_call \<times> bool) list \<Rightarrow> decimal" where
  "headroom_used calls = sum_list (map headroom_used_by calls)"

lemmas create_defs = create_delegated_wallet_def setup_child_def undo_hold_def Let_def

text \<open>
  what a creation leaves behind. A delegated wallet is returned only with the parent's hold of
  exactly the budget in place, and it starts unspent, unfenced, with the budget as its ceiling. A
  creation that fails leaves no hold and no used headroom, unless the child's setup was cancelled or
  the provider did not acknowledge giving the hold back; and a durable parent is never asked the
  in-memory affordability question.
\<close>

theorem create_holds_exactly_the_budget:
  "case create_delegated_wallet sha256 parent delegated parent_did child_did budget env of
     (Inr w, calls) \<Rightarrow>
       0 < budget \<and> held calls = budget \<and> ba_amount (dw_allocation w) = budget
       \<and> ba_spent (dw_allocation w) = 0 \<and> ba_pending (dw_allocation w) = None
       \<and> \<not> dw_revoked w \<and> \<not> dw_refund_attempted w
       \<and> ba_allocation_id (dw_allocation w) = allocation_key sha256 parent_did child_did
   | (Inl e, calls) \<Rightarrow>
       (if ce_setup env \<noteq> Setup_Cancelled \<and> ce_refund env = Reply True
        then held calls = 0 \<and> (if delegated then headroom_used calls = 0 else True)
        else held calls \<in> {0, budget})"
  by (auto simp: create_defs held_def headroom_used_def dw_init_def new_budget_allocation_def
      split: reply.split setup_reply.split option.split bool.split)

text \<open>
  The two ways funds can be stranded although the code sets out to refund a failed setup: a
  cancellation during the child's initialisation skips the refund, and a budgeted parent whose
  \<open>deposit\<close> returns \<open>False\<close> (a refusal for the release path) gets its headroom back without the funds.
\<close>

lemma cancelled_setup_strands_the_hold:
  "create_delegated_wallet sha256 [] False ''mum'' ''kid'' 10
     \<lparr>ce_provision = Raised, ce_reserve = Raised, ce_can_afford = True, ce_transfer = Reply True,
      ce_setup = Setup_Cancelled, ce_refund = Reply True\<rparr>
   = (Inl Provider_Raised, [(Transfer 10, True)])"
  by (auto simp: create_defs durable_allocation_provider_def durable_child_wallet_provider_def
      has_direct_callable_contract_def)

lemma refused_deposit_restores_headroom:
  assumes "create_delegated_wallet sha256 [] True ''mum'' ''kid'' 10
     \<lparr>ce_provision = Raised, ce_reserve = Raised, ce_can_afford = True, ce_transfer = Reply True,
      ce_setup = Setup_Raised, ce_refund = Reply False\<rparr> = (r, calls)"
  shows "held calls = 10" and "headroom_used calls = 0"
  using assms
  by (auto simp: create_defs durable_allocation_provider_def durable_child_wallet_provider_def
      has_direct_callable_contract_def held_def headroom_used_def new_budget_allocation_def)

end
