(* ===== verification/Stop_Circuit.thy ===== *)
theory Stop_Circuit
  imports Text
begin

text \<open>
  Model of \<open>kestrel_sovereign/stop/circuit.py\<close>: the breaker that refuses further peer Stops of an
  agent once too many were honored inside a sliding window. Every operation is one transaction
  under the target's lock, so it is a function of the database; the tables are the fields of
  \<open>circuit_db\<close>. Timestamps are microseconds and the text stored for one is its \<open>stamp\<close> (rounded up to
  the tick of the backend, 1 or 1000), which orders as the fixed-width text does. The digest of an
  operation id and the fresh event ids are arguments.
\<close>

subsection \<open>Tables\<close>

datatype stop_scope = Scope_Host | Scope_Agent | Scope_Turn | Scope_Tool_Call

record stop_request =
  rq_scope :: stop_scope
  rq_actor_id :: string
  rq_target_agent_id :: "string option"
  rq_correlation_id :: string

datatype event_kind = Opened | Closed | Reset

record circuit_policy =
  pol_threshold :: nat
  pol_window_seconds :: nat

record circuit_event =
  ev_event_id :: string
  ev_target :: string
  ev_seq :: nat
  ev_kind :: event_kind
  ev_epoch :: nat
  ev_admitted_count :: nat
  ev_threshold :: nat
  ev_window_seconds :: nat
  ev_actor_id :: "string option"
  ev_reason :: "string option"
  ev_occurred_at :: int

record circuit_state =
  cs_epoch :: nat
  cs_is_open :: bool
  cs_opened_at :: "int option"
  cs_opened_event_id :: "string option"

record admission =
  ad_target :: string
  ad_operation :: string
  ad_epoch :: nat
  ad_actor :: string
  ad_at :: int

record circuit_db =
  db_states :: "(string, circuit_state) dict"
  db_admissions :: "admission list"
  db_events :: "circuit_event list"
  db_receipts :: "(string \<times> string) list"   \<comment> \<open>receipt id, operation id\<close>
  db_outcomes :: "(string \<times> string) list"   \<comment> \<open>receipt id, disposition\<close>

record circuit_decision =
  dc_honored :: bool
  dc_admitted_count :: nat
  dc_opened :: "circuit_event option"
  dc_closed :: "circuit_event option"

datatype circuit_error = Circuit_Value_Error

definition valid_policy :: "int \<Rightarrow> int \<Rightarrow> bool" where
  "valid_policy threshold window_seconds \<longleftrightarrow> \<not> threshold < 1 \<and> \<not> window_seconds < 1"

definition MAX_CIRCUIT_TARGET_LENGTH :: nat where "MAX_CIRCUIT_TARGET_LENGTH = 512"
definition MAX_CIRCUIT_REASON_LENGTH :: nat where "MAX_CIRCUIT_REASON_LENGTH = 1024"
definition MAX_CIRCUIT_EVENT_PAGE :: int where "MAX_CIRCUIT_EVENT_PAGE = 200"

definition required_text :: "string option \<Rightarrow> nat \<Rightarrow> circuit_error + string" where
  "required_text value max_length =
     (case value of
        None \<Rightarrow> Inl Circuit_Value_Error
      | Some s \<Rightarrow> if strip s = [] then Inl Circuit_Value_Error
                  else if length s > max_length then Inl Circuit_Value_Error else Inr s)"

subsection \<open>Reading the tables\<close>

definition stamp :: "int \<Rightarrow> int \<Rightarrow> int" where
  "stamp tick t = - ((- t) div tick) * tick"

definition window_start :: "int \<Rightarrow> circuit_policy \<Rightarrow> int \<Rightarrow> int" where
  "window_start tick policy now = stamp tick (now - 1000000 * int (pol_window_seconds policy))"

definition circuit_state_of :: "circuit_db \<Rightarrow> string \<Rightarrow> circuit_state" where
  "circuit_state_of db target =
     (case dict_get (db_states db) target of
        None \<Rightarrow> \<lparr>cs_epoch = 0, cs_is_open = False, cs_opened_at = None, cs_opened_event_id = None\<rparr>
      | Some s \<Rightarrow> s)"

definition save_state :: "string \<Rightarrow> circuit_state \<Rightarrow> circuit_db \<Rightarrow> circuit_db" where
  "save_state target s db = db\<lparr>db_states := dict_put target s (db_states db)\<rparr>"

definition has_final_receipt :: "circuit_db \<Rightarrow> string \<Rightarrow> bool" where
  "has_final_receipt db operation \<longleftrightarrow> operation \<in> set (map snd (db_receipts db))"

definition stopped_nothing :: "circuit_db \<Rightarrow> string \<Rightarrow> bool" where
  "stopped_nothing db operation \<longleftrightarrow>
     (\<exists>r \<in> set (db_receipts db). snd r = operation \<and> (fst r, ''stopped'') \<notin> set (db_outcomes db))"

definition in_window :: "int \<Rightarrow> circuit_policy \<Rightarrow> string \<Rightarrow> nat \<Rightarrow> int \<Rightarrow> admission \<Rightarrow> bool" where
  "in_window tick policy target epoch now a \<longleftrightarrow>
     ad_target a = target \<and> ad_epoch a = epoch \<and> ad_at a > window_start tick policy now"

definition admission_is_current ::
    "int \<Rightarrow> circuit_policy \<Rightarrow> circuit_db \<Rightarrow> string \<Rightarrow> string \<Rightarrow> nat \<Rightarrow> int \<Rightarrow> bool" where
  "admission_is_current tick policy db target operation epoch now \<longleftrightarrow>
     (\<exists>a \<in> set (db_admissions db). ad_operation a = operation \<and> in_window tick policy target epoch now a)"

definition circuit_count :: "int \<Rightarrow> circuit_policy \<Rightarrow> circuit_db \<Rightarrow> string \<Rightarrow> nat \<Rightarrow> int \<Rightarrow> nat" where
  "circuit_count tick policy db target epoch now =
     length (filter (\<lambda>a. in_window tick policy target epoch now a
        \<and> \<not> stopped_nothing db (ad_operation a)) (db_admissions db))"

subsection \<open>Transitions and their receipts\<close>

definition next_seq :: "circuit_db \<Rightarrow> string \<Rightarrow> nat" where
  "next_seq db target =
     fold max (map ev_seq (filter (\<lambda>e. ev_target e = target) (db_events db))) 0 + 1"

definition record_event ::
    "(nat \<Rightarrow> string) \<Rightarrow> int \<Rightarrow> circuit_policy \<Rightarrow> string \<Rightarrow> event_kind \<Rightarrow> nat \<Rightarrow> nat \<Rightarrow> int
     \<Rightarrow> string option \<Rightarrow> string option \<Rightarrow> circuit_db \<Rightarrow> circuit_event \<times> circuit_db" where
  "record_event uuid tick policy target kind epoch count now actor reason db =
     (let event = \<lparr>ev_event_id = uuid (length (db_events db)), ev_target = target,
            ev_seq = next_seq db target, ev_kind = kind, ev_epoch = epoch,
            ev_admitted_count = count, ev_threshold = pol_threshold policy,
            ev_window_seconds = pol_window_seconds policy, ev_actor_id = actor, ev_reason = reason,
            ev_occurred_at = stamp tick now\<rparr>
      in (event, db\<lparr>db_events := db_events db @ [event]\<rparr>))"

definition open_circuit ::
    "(nat \<Rightarrow> string) \<Rightarrow> int \<Rightarrow> circuit_policy \<Rightarrow> string \<Rightarrow> circuit_state \<Rightarrow> nat \<Rightarrow> int \<Rightarrow> circuit_db
     \<Rightarrow> circuit_event \<times> circuit_state \<times> circuit_db" where
  "open_circuit uuid tick policy target s count now db =
     (let (event, db) = record_event uuid tick policy target Opened (cs_epoch s) count now None None db
      in (event, s\<lparr>cs_is_open := True, cs_opened_at := Some (ev_occurred_at event),
                   cs_opened_event_id := Some (ev_event_id event)\<rparr>, db))"

definition close_circuit ::
    "(nat \<Rightarrow> string) \<Rightarrow> int \<Rightarrow> circuit_policy \<Rightarrow> string \<Rightarrow> circuit_state \<Rightarrow> nat \<Rightarrow> int \<Rightarrow> circuit_db
     \<Rightarrow> circuit_event \<times> circuit_state \<times> circuit_db" where
  "close_circuit uuid tick policy target s count now db =
     (let (event, db) = record_event uuid tick policy target Closed (cs_epoch s) count now None None db
      in (event, s\<lparr>cs_is_open := False, cs_opened_at := None, cs_opened_event_id := None\<rparr>, db))"

subsection \<open>Operations\<close>

definition readmit :: "string \<Rightarrow> string \<Rightarrow> nat \<Rightarrow> string \<Rightarrow> int \<Rightarrow> admission \<Rightarrow> admission" where
  "readmit target operation epoch actor stored a =
     (if ad_target a = target \<and> ad_operation a = operation
      then a\<lparr>ad_epoch := epoch, ad_actor := actor, ad_at := stored\<rparr> else a)"

definition record_admission ::
    "string \<Rightarrow> string \<Rightarrow> nat \<Rightarrow> string \<Rightarrow> int \<Rightarrow> circuit_db \<Rightarrow> circuit_db" where
  "record_admission target operation epoch actor stored db =
     (if \<exists>a \<in> set (db_admissions db). ad_target a = target \<and> ad_operation a = operation
      then db\<lparr>db_admissions := map (readmit target operation epoch actor stored) (db_admissions db)\<rparr>
      else db\<lparr>db_admissions := db_admissions db @
              [\<lparr>ad_target = target, ad_operation = operation, ad_epoch = epoch, ad_actor = actor,
                ad_at = stored\<rparr>]\<rparr>)"

text \<open>The first lines of every transaction of \<open>admit\<close>: close a circuit whose window has cleared.\<close>

definition recover ::
    "(nat \<Rightarrow> string) \<Rightarrow> int \<Rightarrow> circuit_policy \<Rightarrow> string \<Rightarrow> nat \<Rightarrow> int \<Rightarrow> circuit_db
     \<Rightarrow> circuit_event option \<times> circuit_state \<times> circuit_db" where
  "recover uuid tick policy target count now db =
     (let s = circuit_state_of db target
      in if cs_is_open s \<and> count < pol_threshold policy
         then (let (e, s, db) = close_circuit uuid tick policy target s count now db in (Some e, s, db))
         else (None, s, db))"

definition admit ::
    "(nat \<Rightarrow> string) \<Rightarrow> (string \<Rightarrow> string) \<Rightarrow> int \<Rightarrow> circuit_policy \<Rightarrow> stop_request \<Rightarrow> int
     \<Rightarrow> circuit_db \<Rightarrow> circuit_error + circuit_decision \<times> circuit_db" where
  "admit uuid digest tick policy request now db =
     (if rq_scope request \<noteq> Scope_Agent \<and> rq_scope request \<noteq> Scope_Turn then Inl Circuit_Value_Error
      else case required_text (rq_target_agent_id request) MAX_CIRCUIT_TARGET_LENGTH of
        Inl e \<Rightarrow> Inl e
      | Inr target \<Rightarrow>
      (case required_text (Some (rq_actor_id request)) 4096 of
        Inl e \<Rightarrow> Inl e
      | Inr actor \<Rightarrow>
        (let operation = digest (rq_correlation_id request);
             count = circuit_count tick policy db target (cs_epoch (circuit_state_of db target)) now;
             (closed, s, db) = recover uuid tick policy target count now db
         in if has_final_receipt db operation
            then Inr (\<lparr>dc_honored = True, dc_admitted_count = count, dc_opened = None,
                       dc_closed = closed\<rparr>, save_state target s db)
            else if admission_is_current tick policy db target operation (cs_epoch s) now
            then Inr (\<lparr>dc_honored = True, dc_admitted_count = count, dc_opened = None,
                       dc_closed = closed\<rparr>, save_state target s db)
            else if count \<ge> pol_threshold policy
            then (if cs_is_open s
                  then Inr (\<lparr>dc_honored = False, dc_admitted_count = count, dc_opened = None,
                             dc_closed = closed\<rparr>, save_state target s db)
                  else let (e, s, db) = open_circuit uuid tick policy target s count now db
                       in Inr (\<lparr>dc_honored = False, dc_admitted_count = count, dc_opened = Some e,
                                dc_closed = closed\<rparr>, save_state target s db))
            else let db = record_admission target operation (cs_epoch s) actor (stamp tick now) db;
                     count = count + 1
                 in if count \<ge> pol_threshold policy \<and> \<not> cs_is_open s
                    then let (e, s, db) = open_circuit uuid tick policy target s count now db
                         in Inr (\<lparr>dc_honored = True, dc_admitted_count = count, dc_opened = Some e,
                                  dc_closed = closed\<rparr>, save_state target s db)
                    else Inr (\<lparr>dc_honored = True, dc_admitted_count = count, dc_opened = None,
                               dc_closed = closed\<rparr>, save_state target s db))))"

definition reset_circuit ::
    "(nat \<Rightarrow> string) \<Rightarrow> int \<Rightarrow> circuit_policy \<Rightarrow> string \<Rightarrow> string \<Rightarrow> string \<Rightarrow> int \<Rightarrow> circuit_db
     \<Rightarrow> circuit_error + circuit_event \<times> circuit_db" where
  "reset_circuit uuid tick policy target_agent_id actor_id reason now db =
     (case required_text (Some target_agent_id) MAX_CIRCUIT_TARGET_LENGTH of
        Inl e \<Rightarrow> Inl e
      | Inr target \<Rightarrow>
      (case required_text (Some actor_id) 4096 of
        Inl e \<Rightarrow> Inl e
      | Inr actor \<Rightarrow>
      (case required_text (Some reason) MAX_CIRCUIT_REASON_LENGTH of
        Inl e \<Rightarrow> Inl e
      | Inr why \<Rightarrow>
        (let s = circuit_state_of db target;
             count = circuit_count tick policy db target (cs_epoch s) now;
             s = s\<lparr>cs_epoch := cs_epoch s + 1, cs_is_open := False, cs_opened_at := None,
                   cs_opened_event_id := None\<rparr>;
             (event, db) = record_event uuid tick policy target Reset (cs_epoch s) count now
               (Some actor) (Some why) db
         in Inr (event, save_state target s db)))))"

record open_entry =
  oc_target :: string
  oc_opened_at :: "int option"
  oc_opened_event_id :: "string option"
  oc_admitted_count :: nat

text \<open>
  \<open>open_circuits\<close>: one pass over the targets read beforehand in order; \<open>targets\<close> is the snapshot of
  the first query, taken outside the transaction.
\<close>

fun open_circuits_pass ::
    "(nat \<Rightarrow> string) \<Rightarrow> int \<Rightarrow> circuit_policy \<Rightarrow> int \<Rightarrow> string list \<Rightarrow> circuit_db
     \<Rightarrow> open_entry list \<times> circuit_db" where
  "open_circuits_pass uuid tick policy now [] db = ([], db)"
| "open_circuits_pass uuid tick policy now (target # targets) db =
     (let s = circuit_state_of db target
      in if \<not> cs_is_open s then open_circuits_pass uuid tick policy now targets db
         else let count = circuit_count tick policy db target (cs_epoch s) now
              in if count < pol_threshold policy
                 then let (e, s, db) = close_circuit uuid tick policy target s count now db
                      in open_circuits_pass uuid tick policy now targets (save_state target s db)
                 else let (rest, db') = open_circuits_pass uuid tick policy now targets db
                      in (\<lparr>oc_target = target, oc_opened_at = cs_opened_at s,
                           oc_opened_event_id = cs_opened_event_id s, oc_admitted_count = count\<rparr> # rest,
                          db'))"

text \<open>\<open>list_events\<close>: newest first, by time and then by sequence number.\<close>

definition list_events :: "string option \<Rightarrow> int \<Rightarrow> circuit_db \<Rightarrow> circuit_error + circuit_event list" where
  "list_events target limit db =
     (if \<not> (1 \<le> limit \<and> limit \<le> MAX_CIRCUIT_EVENT_PAGE) then Inl Circuit_Value_Error
      else case (case target of None \<Rightarrow> Inr None
                 | Some t \<Rightarrow> map_sum id Some (required_text (Some t) MAX_CIRCUIT_TARGET_LENGTH)) of
        Inl e \<Rightarrow> Inl e
      | Inr t \<Rightarrow> Inr (take (nat limit)
          (rev (sort_key ev_occurred_at (sort_key ev_seq
            (filter (\<lambda>e. case t of None \<Rightarrow> True | Some x \<Rightarrow> ev_target e = x) (db_events db)))))))"


subsection \<open>Laws of the tables\<close>

lemma stamp_mono: "0 < tick \<Longrightarrow> a \<le> b \<Longrightarrow> stamp tick a \<le> stamp tick b"
  unfolding stamp_def by (simp add: zdiv_mono1)

lemma stamp_strict:
  assumes "0 < tick" and "tick \<le> d" shows "stamp tick (t - d) < stamp tick t"
proof -
  have "(- t + d) div tick \<ge> (- t + tick) div tick" using assms by (intro zdiv_mono1) auto
  also have "(- t + tick) div tick = (- t) div tick + 1"
    using assms(1) div_add_self2 [of tick "- t"] by simp
  finally have "(- t) div tick < (d - t) div tick" by (simp add: algebra_simps)
  then have "((- t) div tick) * tick < ((d - t) div tick) * tick" using assms(1) by simp
  then show ?thesis by (simp add: stamp_def)
qed

definition good_clock :: "int \<Rightarrow> circuit_policy \<Rightarrow> bool" where
  "good_clock tick policy \<longleftrightarrow> 0 < tick \<and> tick \<le> 1000000 \<and> 1 \<le> pol_window_seconds policy
     \<and> 1 \<le> pol_threshold policy"

lemma window_start_mono:
  "good_clock tick policy \<Longrightarrow> t \<le> now \<Longrightarrow> window_start tick policy t \<le> window_start tick policy now"
  by (simp add: good_clock_def window_start_def stamp_mono)

lemma window_start_before: "good_clock tick policy \<Longrightarrow> window_start tick policy now < stamp tick now"
  unfolding good_clock_def window_start_def by (rule stamp_strict) auto

lemma in_window_antimono:
  "good_clock tick policy \<Longrightarrow> t \<le> now \<Longrightarrow> in_window tick policy target epoch now a
    \<Longrightarrow> in_window tick policy target epoch t a"
  using window_start_mono by (fastforce simp: in_window_def)

lemma length_filter_mono:
  "(\<And>x. x \<in> set xs \<Longrightarrow> P x \<Longrightarrow> Q x) \<Longrightarrow> length (filter P xs) \<le> length (filter Q xs)"
  by (induction xs) auto

lemma circuit_count_antimono:
  "good_clock tick policy \<Longrightarrow> t \<le> now
    \<Longrightarrow> circuit_count tick policy db target epoch now \<le> circuit_count tick policy db target epoch t"
  unfolding circuit_count_def by (rule length_filter_mono) (auto intro: in_window_antimono)

definition admissions_ok :: "circuit_db \<Rightarrow> bool" where
  "admissions_ok db \<longleftrightarrow>
     distinct (map (\<lambda>a. (ad_target a, ad_operation a)) (db_admissions db)) \<and>
     (\<forall>a \<in> set (db_admissions db). ad_epoch a \<le> cs_epoch (circuit_state_of db (ad_target a)))"

text \<open>Admitting an operation that is not counted yet adds one to its target's count, for every time
  at which the new admission is inside the window.\<close>

lemma filter_map_one:
  assumes "distinct (map k xs)" and "x \<in> set xs" and "\<not> P x" and "P (f x)"
    and other: "\<And>y. k y \<noteq> k x \<Longrightarrow> f y = y"
  shows "length (filter P (map f xs)) = length (filter P xs) + 1"
  using assms(1-4)
proof (induction xs)
  case (Cons y ys)
  show ?case
  proof (cases "y = x")
    case True
    with Cons.prems have "k x \<notin> set (map k ys)" by auto
    then have "map f ys = ys" by (intro map_idI other) (metis image_eqI list.set_map)
    with True Cons.prems show ?thesis by simp
  next
    case False
    with Cons.prems have "x \<in> set ys" "k y \<noteq> k x" by auto
    with Cons other show ?thesis by simp
  qed
qed simp

lemma readmit_simps [simp]:
  "ad_target (readmit target operation epoch actor stored a) = ad_target a"
  "ad_operation (readmit target operation epoch actor stored a) = ad_operation a"
  by (simp_all add: readmit_def)

lemma stopped_nothing_record [simp]:
  "stopped_nothing (record_admission target operation epoch actor stored db) = stopped_nothing db"
  by (rule ext) (simp add: stopped_nothing_def record_admission_def)

lemma circuit_state_of_save [simp]:
  "circuit_state_of (save_state target s db) t = (if t = target then s else circuit_state_of db t)"
  by (simp add: circuit_state_of_def save_state_def)

lemma save_state_simps [simp]:
  "db_admissions (save_state target s db) = db_admissions db"
  "db_events (save_state target s db) = db_events db"
  "db_receipts (save_state target s db) = db_receipts db"
  "db_outcomes (save_state target s db) = db_outcomes db"
  by (simp_all add: save_state_def)

lemma record_admission_simps [simp]:
  "db_states (record_admission target operation epoch actor stored db) = db_states db"
  "db_events (record_admission target operation epoch actor stored db) = db_events db"
  "db_receipts (record_admission target operation epoch actor stored db) = db_receipts db"
  "db_outcomes (record_admission target operation epoch actor stored db) = db_outcomes db"
  by (simp_all add: record_admission_def)

lemma circuit_state_of_cong:
  "db_states db' = db_states db \<Longrightarrow> circuit_state_of db' t = circuit_state_of db t"
  by (simp add: circuit_state_of_def)

lemma circuit_count_cong:
  "db_admissions db' = db_admissions db \<Longrightarrow> db_receipts db' = db_receipts db
    \<Longrightarrow> db_outcomes db' = db_outcomes db
    \<Longrightarrow> circuit_count tick policy db' target epoch now = circuit_count tick policy db target epoch now"
  by (simp add: circuit_count_def stopped_nothing_def)

lemma db_admissions_record:
  "db_admissions (record_admission target operation epoch actor stored db) =
     (if \<exists>a \<in> set (db_admissions db). ad_target a = target \<and> ad_operation a = operation
      then map (readmit target operation epoch actor stored) (db_admissions db)
      else db_admissions db @ [\<lparr>ad_target = target, ad_operation = operation, ad_epoch = epoch,
        ad_actor = actor, ad_at = stored\<rparr>])"
  by (simp add: record_admission_def)

lemma record_admission_count:
  assumes "good_clock tick policy" and "admissions_ok db" and "\<not> has_final_receipt db operation"
    and "\<not> admission_is_current tick policy db target operation epoch now"
  shows "circuit_count tick policy (record_admission target operation epoch actor (stamp tick now) db)
           target epoch now
         = circuit_count tick policy db target epoch now + 1"
proof -
  have fresh: "\<not> stopped_nothing db operation"
    using assms(3) by (force simp: has_final_receipt_def stopped_nothing_def)
  have inside: "stamp tick now > window_start tick policy now" by (rule window_start_before [OF assms(1)])
  let ?P = "\<lambda>a. in_window tick policy target epoch now a \<and> \<not> stopped_nothing db (ad_operation a)"
  let ?f = "readmit target operation epoch actor (stamp tick now)"
  show ?thesis
  proof (cases "\<exists>a \<in> set (db_admissions db). ad_target a = target \<and> ad_operation a = operation")
    case True
    then obtain a where a: "a \<in> set (db_admissions db)" "ad_target a = target" "ad_operation a = operation"
      by blast
    have "length (filter ?P (map ?f (db_admissions db))) = length (filter ?P (db_admissions db)) + 1"
    proof (rule filter_map_one [where k = "\<lambda>a. (ad_target a, ad_operation a)" and x = a])
      show "distinct (map (\<lambda>a. (ad_target a, ad_operation a)) (db_admissions db))"
        using assms(2) by (simp add: admissions_ok_def)
      show "\<not> ?P a" using assms(4) a by (auto simp: admission_is_current_def)
      show "?P (?f a)" using a fresh inside by (simp add: in_window_def readmit_def)
    qed (use a in \<open>auto simp: readmit_def\<close>)
    then show ?thesis
      unfolding circuit_count_def db_admissions_record stopped_nothing_record if_P [OF True] .
  next
    case False
    then show ?thesis using fresh inside
      unfolding circuit_count_def db_admissions_record stopped_nothing_record if_not_P [OF False]
      by (simp add: in_window_def)
  qed
qed

lemma record_admission_other:
  assumes "t \<noteq> target"
  shows "circuit_count tick policy (record_admission target operation epoch actor stored db) t e now
    = circuit_count tick policy db t e now"
proof -
  have "length (filter P (map (readmit target operation epoch actor stored) xs)) = length (filter P xs)"
    if "\<And>a. ad_target a = target \<Longrightarrow> \<not> P a" for P xs
    using that by (induction xs) (auto simp: readmit_def)
  from this [of "\<lambda>a. in_window tick policy t e now a \<and> \<not> stopped_nothing db (ad_operation a)"] assms
  show ?thesis
    unfolding circuit_count_def db_admissions_record stopped_nothing_record
    by (simp add: in_window_def del: filter_map)
qed

lemma record_admission_ok:
  assumes "admissions_ok db" and "epoch = cs_epoch (circuit_state_of db target)"
  shows "admissions_ok (record_admission target operation epoch actor stored db)"
proof -
  have keys: "map (\<lambda>a. (ad_target a, ad_operation a)) (map (readmit target operation epoch actor stored) xs)
    = map (\<lambda>a. (ad_target a, ad_operation a)) xs" for xs
    by (induction xs) auto
  have "distinct (map (\<lambda>a. (ad_target a, ad_operation a))
      (db_admissions (record_admission target operation epoch actor stored db)))"
    using assms(1) unfolding db_admissions_record admissions_ok_def by (auto simp: keys simp del: map_map)
  moreover have "ad_epoch a \<le> cs_epoch (circuit_state_of db (ad_target a))"
    if "a \<in> set (db_admissions (record_admission target operation epoch actor stored db))" for a
    using that assms unfolding db_admissions_record admissions_ok_def
    by (auto simp: readmit_def split: if_splits)
  ultimately show ?thesis
    by (simp add: admissions_ok_def circuit_state_of_cong [OF record_admission_simps(1)])
qed


subsection \<open>The invariant\<close>

definition target_events :: "circuit_db \<Rightarrow> string \<Rightarrow> circuit_event list" where
  "target_events db t = filter (\<lambda>e. ev_target e = t) (db_events db)"

text \<open>
  The history of a target: numbered 1, 2, and so on, and its last entry is an \<open>Opened\<close> one, with the
  id and time the state shows, exactly when the circuit is open.
\<close>

definition history_ok :: "circuit_event list \<Rightarrow> circuit_state \<Rightarrow> bool" where
  "history_ok es s \<longleftrightarrow>
     map ev_seq es = [1..<Suc (length es)] \<and>
     (if cs_is_open s
      then es \<noteq> [] \<and> ev_kind (last es) = Opened \<and> cs_opened_at s = Some (ev_occurred_at (last es))
        \<and> cs_opened_event_id s = Some (ev_event_id (last es))
      else es = [] \<or> ev_kind (last es) \<noteq> Opened)"

definition target_inv :: "int \<Rightarrow> circuit_policy \<Rightarrow> int \<Rightarrow> circuit_db \<Rightarrow> string \<Rightarrow> circuit_state \<Rightarrow> bool" where
  "target_inv tick policy now db t s \<longleftrightarrow>
     circuit_count tick policy db t (cs_epoch s) now \<le> pol_threshold policy
     \<and> (pol_threshold policy \<le> circuit_count tick policy db t (cs_epoch s) now \<longrightarrow> cs_is_open s)
     \<and> history_ok (target_events db t) s"

definition circuit_inv :: "int \<Rightarrow> circuit_policy \<Rightarrow> int \<Rightarrow> circuit_db \<Rightarrow> bool" where
  "circuit_inv tick policy now db \<longleftrightarrow>
     admissions_ok db \<and> (\<forall>t. target_inv tick policy now db t (circuit_state_of db t))"

lemma circuit_inv_later:
  assumes "good_clock tick policy" and "t \<le> now" and "circuit_inv tick policy t db"
  shows "circuit_inv tick policy now db"
  using assms circuit_count_antimono [OF assms(1,2), of db]
  unfolding circuit_inv_def target_inv_def by (meson order_trans)

lemma fold_max_upto: "fold max [1..<Suc n] (0::nat) = n"
  by (induction n) auto

lemma next_seq_history:
  "history_ok (target_events db t) s \<Longrightarrow> next_seq db t = Suc (length (target_events db t))"
  unfolding next_seq_def history_ok_def target_events_def [symmetric] by (simp only: fold_max_upto)

lemma record_event_simps:
  assumes "record_event uuid tick policy target kind epoch count now actor reason db = (e, db')"
  shows "db_states db' = db_states db" and "db_admissions db' = db_admissions db"
    and "db_receipts db' = db_receipts db" and "db_outcomes db' = db_outcomes db"
    and "target_events db' t = target_events db t @ (if t = target then [e] else [])"
    and "ev_kind e = kind" and "ev_seq e = next_seq db target" and "ev_epoch e = epoch"
    and "ev_actor_id e = actor" and "ev_reason e = reason"
  using assms by (auto simp: record_event_def Let_def target_events_def)

lemma history_append:
  assumes "history_ok es s" and "ev_seq e = Suc (length es)"
    and "if cs_is_open s' then ev_kind e = Opened \<and> cs_opened_at s' = Some (ev_occurred_at e)
           \<and> cs_opened_event_id s' = Some (ev_event_id e) else ev_kind e \<noteq> Opened"
  shows "history_ok (es @ [e]) s'"
  using assms by (auto simp: history_ok_def split: if_splits)

text \<open>What opening, closing and resetting share: one event, and a state that fits it.\<close>

lemma event_keeps:
  assumes "record_event uuid tick policy target kind epoch count now actor reason db = (e, db')"
    and "history_ok (target_events db target) s"
    and "if cs_is_open s' then kind = Opened \<and> cs_opened_at s' = Some (ev_occurred_at e)
           \<and> cs_opened_event_id s' = Some (ev_event_id e) else kind \<noteq> Opened"
  shows "history_ok (target_events db' target) s'"
    and "circuit_count tick policy db' t ep at' = circuit_count tick policy db t ep at'"
    and "circuit_state_of db' t = circuit_state_of db t"
    and "t \<noteq> target \<Longrightarrow> target_events db' t = target_events db t"
    and "admissions_ok db' = admissions_ok db"
proof -
  note r = record_event_simps [OF assms(1)]
  have "history_ok (target_events db target @ [e]) s'"
    by (rule history_append [OF assms(2)]) (use r(6,7) next_seq_history [OF assms(2)] assms(3) in simp_all)
  then show "history_ok (target_events db' target) s'" using r(5) [of target] by simp
  show "circuit_count tick policy db' t ep at' = circuit_count tick policy db t ep at'"
    by (rule circuit_count_cong [OF r(2-4)])
  show "circuit_state_of db' t = circuit_state_of db t" by (rule circuit_state_of_cong [OF r(1)])
  show "target_events db' t = target_events db t" if "t \<noteq> target" using r(5) that by simp
  show "admissions_ok db' = admissions_ok db"
    by (simp add: admissions_ok_def r(2) circuit_state_of_cong [OF r(1)])
qed

lemma circuit_inv_save:
  assumes "admissions_ok db" and "cs_epoch (circuit_state_of db target) \<le> cs_epoch s"
    and "target_inv tick policy now db target s"
    and "\<And>t. t \<noteq> target \<Longrightarrow> target_inv tick policy now db t (circuit_state_of db t)"
  shows "circuit_inv tick policy now (save_state target s db)"
proof -
  have "target_inv tick policy now (save_state target s db) t = target_inv tick policy now db t" for t
    by (rule ext) (simp add: target_inv_def target_events_def circuit_count_def stopped_nothing_def)
  with assms show ?thesis
    by (auto simp: circuit_inv_def admissions_ok_def intro: order_trans)
qed

text \<open>The database while the transaction of one target is under way, its state still in a variable.\<close>

definition during :: "int \<Rightarrow> circuit_policy \<Rightarrow> int \<Rightarrow> string \<Rightarrow> nat \<Rightarrow> circuit_state \<Rightarrow> circuit_db \<Rightarrow> bool" where
  "during tick policy now target epoch s db \<longleftrightarrow>
     admissions_ok db \<and> cs_epoch (circuit_state_of db target) = epoch
     \<and> history_ok (target_events db target) s
     \<and> (\<forall>t. t \<noteq> target \<longrightarrow> target_inv tick policy now db t (circuit_state_of db t))"

lemma during_event:
  assumes "during tick policy now target epoch s db"
    and "record_event uuid tick policy target kind ep count now actor reason db = (e, db')"
    and "if cs_is_open s' then kind = Opened \<and> cs_opened_at s' = Some (ev_occurred_at e)
           \<and> cs_opened_event_id s' = Some (ev_event_id e) else kind \<noteq> Opened"
  shows "during tick policy now target epoch s' db'"
proof -
  from assms(1) have "history_ok (target_events db target) s" by (simp add: during_def)
  note k = event_keeps [OF assms(2) this assms(3)]
  show ?thesis using assms(1) k by (simp add: during_def target_inv_def)
qed

lemma during_start:
  "circuit_inv tick policy now db
    \<Longrightarrow> during tick policy now target (cs_epoch (circuit_state_of db target)) (circuit_state_of db target) db"
  by (simp add: circuit_inv_def during_def target_inv_def)

lemma during_save:
  assumes "during tick policy now target epoch s db" and "epoch \<le> cs_epoch s"
    and "circuit_count tick policy db target (cs_epoch s) now \<le> pol_threshold policy"
    and "pol_threshold policy \<le> circuit_count tick policy db target (cs_epoch s) now \<Longrightarrow> cs_is_open s"
  shows "circuit_inv tick policy now (save_state target s db)"
  using assms by (intro circuit_inv_save) (auto simp: during_def target_inv_def)


subsection \<open>Every operation keeps the invariant\<close>

lemma recover_during:
  assumes inv: "circuit_inv tick policy now db"
    and epoch: "epoch = cs_epoch (circuit_state_of db target)"
    and "recover uuid tick policy target (circuit_count tick policy db target epoch now) now db = (shut, s, db')"
  shows "during tick policy now target epoch s db'" and "cs_epoch s = epoch"
    and "cs_is_open s \<longleftrightarrow> pol_threshold policy \<le> circuit_count tick policy db target epoch now"
    and "circuit_count tick policy db' = circuit_count tick policy db"
    and "db_admissions db' = db_admissions db" and "db_receipts db' = db_receipts db"
    and "db_outcomes db' = db_outcomes db"
proof -
  let ?s = "circuit_state_of db target" and ?n = "circuit_count tick policy db target epoch now"
  have start: "during tick policy now target epoch ?s db" unfolding epoch by (rule during_start [OF inv])
  have opens: "pol_threshold policy \<le> ?n \<Longrightarrow> cs_is_open ?s"
    using inv epoch by (simp add: circuit_inv_def target_inv_def)
  have all: "during tick policy now target epoch s db' \<and> cs_epoch s = epoch
    \<and> (cs_is_open s \<longleftrightarrow> pol_threshold policy \<le> ?n) \<and> db_admissions db' = db_admissions db
    \<and> db_receipts db' = db_receipts db \<and> db_outcomes db' = db_outcomes db"
  proof (cases "cs_is_open ?s \<and> ?n < pol_threshold policy")
    case True
    obtain e d where r: "record_event uuid tick policy target Closed (cs_epoch ?s) ?n now None None db = (e, d)"
      by (cases "record_event uuid tick policy target Closed (cs_epoch ?s) ?n now None None db")
    from True assms(3) r have s: "s = ?s\<lparr>cs_is_open := False, cs_opened_at := None, cs_opened_event_id := None\<rparr>"
      and d: "db' = d" by (simp_all add: recover_def close_circuit_def Let_def)
    have "during tick policy now target epoch s d" by (rule during_event [OF start r]) (simp add: s)
    with True s d epoch record_event_simps(2-4) [OF r] show ?thesis by simp
  next
    case False
    with assms(3) have "s = ?s" "db' = db" by (auto simp: recover_def Let_def)
    with False start opens epoch show ?thesis by auto
  qed
  then show "during tick policy now target epoch s db'" "cs_epoch s = epoch"
    "cs_is_open s \<longleftrightarrow> pol_threshold policy \<le> ?n" "db_admissions db' = db_admissions db"
    "db_receipts db' = db_receipts db" "db_outcomes db' = db_outcomes db" by simp_all
  then show "circuit_count tick policy db' = circuit_count tick policy db"
    by (intro ext circuit_count_cong) simp_all
qed

lemma during_record:
  assumes "good_clock tick policy" and "during tick policy now target epoch s db"
  shows "during tick policy now target epoch s (record_admission target operation epoch actor stored db)"
proof -
  have "target_events (record_admission target operation epoch actor stored db) = target_events db"
    by (rule ext) (simp add: target_events_def)
  moreover have "circuit_state_of (record_admission target operation epoch actor stored db) = circuit_state_of db"
    by (rule ext) (simp add: circuit_state_of_def)
  ultimately show ?thesis
    using assms(2) record_admission_ok [of db epoch target operation actor stored]
    by (simp add: during_def target_inv_def record_admission_other)
qed

lemma open_circuit_during:
  assumes "during tick policy now target epoch s db" and "cs_epoch s = epoch"
    and "open_circuit uuid tick policy target s count now db = (e, s', db')"
  shows "during tick policy now target epoch s' db'" and "cs_epoch s' = epoch" and "cs_is_open s'"
    and "circuit_count tick policy db' = circuit_count tick policy db"
proof -
  obtain e' d where r: "record_event uuid tick policy target Opened (cs_epoch s) count now None None db = (e', d)"
    by (cases "record_event uuid tick policy target Opened (cs_epoch s) count now None None db")
  with assms(3) have s: "s' = s\<lparr>cs_is_open := True, cs_opened_at := Some (ev_occurred_at e'),
      cs_opened_event_id := Some (ev_event_id e')\<rparr>" and d: "db' = d"
    by (auto simp: open_circuit_def)
  show "during tick policy now target epoch s' db'" unfolding d
    by (rule during_event [OF assms(1) r]) (simp add: s)
  show "cs_epoch s' = epoch" "cs_is_open s'" using assms(2) by (simp_all add: s)
  show "circuit_count tick policy db' = circuit_count tick policy db"
    unfolding d by (intro ext circuit_count_cong) (rule record_event_simps(2-4) [OF r])+
qed

text \<open>The outcome of an admission, on every branch.\<close>

definition request_target :: "stop_request \<Rightarrow> string" where
  "request_target request = (case rq_target_agent_id request of None \<Rightarrow> [] | Some t \<Rightarrow> t)"

definition admission_outcome ::
    "(string \<Rightarrow> string) \<Rightarrow> int \<Rightarrow> circuit_policy \<Rightarrow> stop_request \<Rightarrow> int \<Rightarrow> circuit_db
     \<Rightarrow> circuit_decision \<Rightarrow> circuit_db \<Rightarrow> bool" where
  "admission_outcome digest tick policy request now db d db' \<longleftrightarrow>
     (let target = request_target request; operation = digest (rq_correlation_id request);
          epoch = cs_epoch (circuit_state_of db target);
          before = circuit_count tick policy db target epoch now;
          free = (has_final_receipt db operation
                  \<or> admission_is_current tick policy db target operation epoch now)
      in (dc_honored d \<longleftrightarrow> free \<or> before < pol_threshold policy)
         \<and> dc_admitted_count d = before + (if dc_honored d \<and> \<not> free then 1 else 0)
         \<and> cs_epoch (circuit_state_of db' target) = epoch
         \<and> circuit_count tick policy db' target epoch now = dc_admitted_count d
         \<and> (cs_is_open (circuit_state_of db' target) \<longleftrightarrow> pol_threshold policy \<le> dc_admitted_count d))"

lemma circuit_count_save [simp]:
  "circuit_count tick policy (save_state target s db) = circuit_count tick policy db"
  by (intro ext circuit_count_cong) simp_all

lemma required_text_Inr: "required_text v n = Inr t \<Longrightarrow> v = Some t"
  by (auto simp: required_text_def split: option.splits if_splits)

lemma admit_outcome:
  assumes clock: "good_clock tick policy" and inv: "circuit_inv tick policy now db"
    and run: "admit uuid digest tick policy request now db = Inr (d, db')"
  shows "circuit_inv tick policy now db' \<and> admission_outcome digest tick policy request now db d db'"
proof -
  obtain target actor where ok: "required_text (rq_target_agent_id request) MAX_CIRCUIT_TARGET_LENGTH = Inr target"
      "required_text (Some (rq_actor_id request)) 4096 = Inr actor"
      "\<not> (rq_scope request \<noteq> Scope_Agent \<and> rq_scope request \<noteq> Scope_Turn)"
    using run by (auto simp: admit_def split: sum.splits if_splits)
  have target: "request_target request = target"
    using required_text_Inr [OF ok(1)] by (simp add: request_target_def)
  define operation where "operation = digest (rq_correlation_id request)"
  define epoch where "epoch = cs_epoch (circuit_state_of db target)"
  define n where "n = circuit_count tick policy db target epoch now"
  obtain shut s db1 where rec: "recover uuid tick policy target n now db = (shut, s, db1)"
    by (cases "recover uuid tick policy target n now db")
  note r = recover_during [OF inv epoch_def rec [unfolded n_def], folded n_def]
  have bound: "n \<le> pol_threshold policy"
    using inv by (simp add: circuit_inv_def target_inv_def n_def epoch_def)
  have same: "has_final_receipt db1 operation = has_final_receipt db operation"
    "admission_is_current tick policy db1 target operation epoch now
      = admission_is_current tick policy db target operation epoch now"
    by (simp_all add: has_final_receipt_def admission_is_current_def r)
  note run' = run [unfolded admit_def ok if_not_P [OF ok(3)] Let_def sum.case,
      folded operation_def epoch_def, folded n_def, unfolded rec prod.case r(2) same]
  note out_defs = admission_outcome_def Let_def target operation_def [symmetric]
    epoch_def [symmetric] n_def [symmetric]
  let ?free = "has_final_receipt db operation \<or> admission_is_current tick policy db target operation epoch now"
  show ?thesis
  proof (cases "?free \<or> pol_threshold policy \<le> n")
    case True
    have d: "db' = save_state target s db1" "dc_honored d \<longleftrightarrow> ?free" "dc_admitted_count d = n"
      using run' True r(3) by (auto split: if_splits)
    have "circuit_inv tick policy now db'" unfolding d(1)
      by (rule during_save [OF r(1)]) (use r(2-4) bound in \<open>simp_all add: n_def\<close>)
    moreover have "admission_outcome digest tick policy request now db d db'"
      using True d r(2,3,4) by (auto simp: out_defs)
    ultimately show ?thesis ..
  next
    case False
    then have n: "n < pol_threshold policy" and closed_now: "\<not> cs_is_open s" using r(3) by auto
    let ?db2 = "record_admission target operation epoch actor (stamp tick now) db1"
    have dur: "during tick policy now target epoch s ?db2" by (rule during_record [OF clock r(1)])
    have cnt: "circuit_count tick policy ?db2 target epoch now = n + 1"
      using record_admission_count [OF clock, of db1 operation target epoch now actor] False same r(1,4)
      by (simp add: during_def n_def)
    show ?thesis
    proof (cases "n + 1 \<ge> pol_threshold policy")
      case True
      obtain e s' db3 where o: "open_circuit uuid tick policy target s (n + 1) now ?db2 = (e, s', db3)"
        by (cases "open_circuit uuid tick policy target s (n + 1) now ?db2")
      note k = open_circuit_during [OF dur r(2) o]
      have d: "db' = save_state target s' db3" "dc_honored d" "dc_admitted_count d = n + 1"
        using run' False n closed_now True o by auto
      have "circuit_inv tick policy now db'" unfolding d(1)
        by (rule during_save [OF k(1)]) (use k(2-4) cnt n in simp_all)
      moreover have "admission_outcome digest tick policy request now db d db'"
        using False True n d k(2-4) cnt by (auto simp: out_defs)
      ultimately show ?thesis ..
    next
      case False2: False
      have d: "db' = save_state target s ?db2" "dc_honored d" "dc_admitted_count d = n + 1"
        using run' False n closed_now False2 by auto
      have "circuit_inv tick policy now db'" unfolding d(1)
        by (rule during_save [OF dur]) (use r(2) cnt False2 in simp_all)
      moreover have "admission_outcome digest tick policy request now db d db'"
        using False False2 n d r(2) cnt closed_now by (auto simp: out_defs)
      ultimately show ?thesis ..
    qed
  qed
qed


lemma reset_outcome:
  assumes inv: "circuit_inv tick policy now db" and clock: "good_clock tick policy"
    and run: "reset_circuit uuid tick policy target actor reason now db = Inr (e, db')"
  shows "circuit_inv tick policy now db' \<and> circuit_count tick policy db' target
      (cs_epoch (circuit_state_of db' target)) t = 0
    \<and> \<not> cs_is_open (circuit_state_of db' target)
    \<and> cs_epoch (circuit_state_of db' target) = cs_epoch (circuit_state_of db target) + 1
    \<and> target_events db' target = target_events db target @ [e]
    \<and> ev_kind e = Reset \<and> ev_actor_id e = Some actor \<and> ev_reason e = Some reason"
proof -
  let ?s = "circuit_state_of db target"
  let ?s' = "?s\<lparr>cs_epoch := cs_epoch ?s + 1, cs_is_open := False, cs_opened_at := None,
                   cs_opened_event_id := None\<rparr>"
  let ?n = "circuit_count tick policy db target (cs_epoch ?s) now"
  have ok: "required_text (Some target) MAX_CIRCUIT_TARGET_LENGTH = Inr target"
    "required_text (Some actor) 4096 = Inr actor"
    "required_text (Some reason) MAX_CIRCUIT_REASON_LENGTH = Inr reason"
    using run by (auto simp: reset_circuit_def split: sum.splits dest: required_text_Inr)
  obtain e' d where r: "record_event uuid tick policy target Reset (cs_epoch ?s + 1) ?n now (Some actor) (Some reason) db = (e', d)"
    by (cases "record_event uuid tick policy target Reset (cs_epoch ?s + 1) ?n now (Some actor) (Some reason) db")
  have out: "e = e'" "db' = save_state target ?s' d"
    using run ok r by (auto simp: reset_circuit_def Let_def)
  have dur: "during tick policy now target (cs_epoch ?s) ?s' d"
    by (rule during_event [OF during_start [OF inv] r]) simp
  have "ad_epoch a \<le> cs_epoch ?s" if "a \<in> set (db_admissions db)" "ad_target a = target" for a
    using inv that by (auto simp: circuit_inv_def admissions_ok_def)
  then have "filter (\<lambda>a. in_window tick policy target (cs_epoch ?s + 1) u a
      \<and> \<not> stopped_nothing d (ad_operation a)) (db_admissions db) = []" for u
    by (auto simp: filter_empty_conv in_window_def) (metis Suc_n_not_le_n)
  then have zero: "circuit_count tick policy d target (cs_epoch ?s + 1) u = 0" for u
    by (simp add: circuit_count_def record_event_simps(2) [OF r])
  have "circuit_inv tick policy now db'" unfolding out(2)
    by (rule during_save [OF dur]) (use zero clock in \<open>simp_all add: good_clock_def\<close>)
  then show ?thesis using out zero record_event_simps [OF r] by (simp add: target_events_def)
qed

lemma close_circuit_inv:
  assumes inv: "circuit_inv tick policy now db" and "s = circuit_state_of db target"
    and "circuit_count tick policy db target (cs_epoch s) now < pol_threshold policy"
    and "close_circuit uuid tick policy target s n now db = (e, s', db')"
  shows "circuit_inv tick policy now (save_state target s' db')"
    and "circuit_count tick policy (save_state target s' db') = circuit_count tick policy db"
    and "t \<noteq> target \<Longrightarrow> circuit_state_of (save_state target s' db') t = circuit_state_of db t"
    and "\<not> cs_is_open s'" and "cs_epoch s' = cs_epoch s"
proof -
  obtain e' d where r: "record_event uuid tick policy target Closed (cs_epoch s) n now None None db = (e', d)"
    by (cases "record_event uuid tick policy target Closed (cs_epoch s) n now None None db")
  with assms(4) have s': "s' = s\<lparr>cs_is_open := False, cs_opened_at := None, cs_opened_event_id := None\<rparr>"
    and d: "db' = d" by (simp_all add: close_circuit_def)
  have cnt: "circuit_count tick policy d = circuit_count tick policy db"
    by (intro ext circuit_count_cong) (rule record_event_simps(2-4) [OF r])+
  have "during tick policy now target (cs_epoch s) s' d" unfolding assms(2)
    by (rule during_event [OF during_start [OF inv] r [unfolded assms(2)]])
       (simp add: s')
  then show "circuit_inv tick policy now (save_state target s' db')" unfolding d
    by (rule during_save) (use assms(3) cnt in \<open>simp_all add: s'\<close>)
  show "circuit_count tick policy (save_state target s' db') = circuit_count tick policy db"
    by (simp add: d cnt)
  show "circuit_state_of (save_state target s' db') t = circuit_state_of db t" if "t \<noteq> target"
    using that circuit_state_of_cong [OF record_event_simps(1) [OF r]] by (simp add: d)
  show "\<not> cs_is_open s'" "cs_epoch s' = cs_epoch s" by (simp_all add: s')
qed

text \<open>What the status surface reports: the circuits whose count is at the threshold, and no others.\<close>

lemma open_circuits_outcome:
  assumes "circuit_inv tick policy now db"
    and "open_circuits_pass uuid tick policy now targets db = (entries, db')"
  shows "circuit_inv tick policy now db'
    \<and> circuit_count tick policy db' = circuit_count tick policy db
    \<and> (\<forall>t. cs_epoch (circuit_state_of db' t) = cs_epoch (circuit_state_of db t))
    \<and> (\<forall>t. cs_is_open (circuit_state_of db' t) \<longleftrightarrow> (if t \<in> set targets
          then pol_threshold policy \<le> circuit_count tick policy db t (cs_epoch (circuit_state_of db t)) now
          else cs_is_open (circuit_state_of db t)))
    \<and> map oc_target entries = filter (\<lambda>t. cs_is_open (circuit_state_of db' t)) targets"
  using assms
proof (induction targets arbitrary: db entries db')
  case Nil
  then show ?case by simp
next
  case (Cons target targets)
  let ?s = "circuit_state_of db target"
  let ?n = "circuit_count tick policy db target (cs_epoch ?s) now"
  have opens: "pol_threshold policy \<le> ?n \<Longrightarrow> cs_is_open ?s"
    using Cons.prems(1) by (simp add: circuit_inv_def target_inv_def)
  consider (shut) "\<not> cs_is_open ?s" | (clear) "cs_is_open ?s" "?n < pol_threshold policy"
    | (busy) "cs_is_open ?s" "pol_threshold policy \<le> ?n" by linarith
  then show ?case
  proof cases
    case shut
    then have "open_circuits_pass uuid tick policy now targets db = (entries, db')"
      using Cons.prems(2) by simp
    from Cons.IH [OF Cons.prems(1) this] shut opens show ?thesis by auto
  next
    case clear
    obtain e s' d where c: "close_circuit uuid tick policy target ?s ?n now db = (e, s', d)"
      by (cases "close_circuit uuid tick policy target ?s ?n now db")
    note k = close_circuit_inv [OF Cons.prems(1) refl clear(2) c]
    define db2 where "db2 = save_state target s' d"
    have "open_circuits_pass uuid tick policy now targets db2 = (entries, db')"
      using Cons.prems(2) clear c by (simp add: Let_def db2_def)
    note ih = Cons.IH [OF k(1) [folded db2_def] this]
    have here: "circuit_state_of db2 target = s'" by (simp add: db2_def)
    have epochs: "cs_epoch (circuit_state_of db2 t) = cs_epoch (circuit_state_of db t)" for t
      using k(3,5) here by (cases "t = target") (auto simp: db2_def)
    have opened: "cs_is_open (circuit_state_of db2 t)
        \<longleftrightarrow> t \<noteq> target \<and> cs_is_open (circuit_state_of db t)" for t
      using k(3,4) here by (cases "t = target") (auto simp: db2_def)
    from ih clear show ?thesis by (auto simp: k(2) [folded db2_def] epochs opened)
  next
    case busy
    obtain rest d where "open_circuits_pass uuid tick policy now targets db = (rest, d)"
      by (cases "open_circuits_pass uuid tick policy now targets db")
    note ih = Cons.IH [OF Cons.prems(1) this]
    have out: "db' = d" "map oc_target entries = target # map oc_target rest"
      using Cons.prems(2) busy \<open>open_circuits_pass _ _ _ _ _ _ = (rest, d)\<close> by (auto simp: Let_def)
    from ih busy show ?thesis unfolding out by (auto split: if_splits)
  qed
qed


subsection \<open>The breaker over time\<close>

record circuit_sys =
  cy_db :: circuit_db
  cy_now :: int

datatype circuit_op =
    Op_Admit stop_request int
  | Op_Reset string string string int
  | Op_Status "string list" int
  | Op_Receipt string string "string list"   \<comment> \<open>receipt id, operation, dispositions\<close>

definition add_receipt :: "string \<Rightarrow> string \<Rightarrow> string list \<Rightarrow> circuit_db \<Rightarrow> circuit_db" where
  "add_receipt rid operation dispositions db =
     db\<lparr>db_receipts := db_receipts db @ [(rid, operation)],
        db_outcomes := db_outcomes db @ map (Pair rid) dispositions\<rparr>"

fun circuit_step ::
    "(nat \<Rightarrow> string) \<Rightarrow> (string \<Rightarrow> string) \<Rightarrow> int \<Rightarrow> circuit_policy \<Rightarrow> circuit_sys \<Rightarrow> circuit_op \<Rightarrow> circuit_sys" where
  "circuit_step uuid digest tick policy y (Op_Admit request now) =
     (case admit uuid digest tick policy request now (cy_db y) of
        Inl _ \<Rightarrow> y | Inr (d, db) \<Rightarrow> \<lparr>cy_db = db, cy_now = now\<rparr>)"
| "circuit_step uuid digest tick policy y (Op_Reset target actor reason now) =
     (case reset_circuit uuid tick policy target actor reason now (cy_db y) of
        Inl _ \<Rightarrow> y | Inr (e, db) \<Rightarrow> \<lparr>cy_db = db, cy_now = now\<rparr>)"
| "circuit_step uuid digest tick policy y (Op_Status targets now) =
     \<lparr>cy_db = snd (open_circuits_pass uuid tick policy now targets (cy_db y)), cy_now = now\<rparr>"
| "circuit_step uuid digest tick policy y (Op_Receipt rid operation dispositions) =
     y\<lparr>cy_db := add_receipt rid operation dispositions (cy_db y)\<rparr>"

text \<open>The database clock does not run backwards, and receipts have ids of their own.\<close>

fun circuit_ok :: "circuit_sys \<Rightarrow> circuit_op \<Rightarrow> bool" where
  "circuit_ok y (Op_Admit request now) \<longleftrightarrow> cy_now y \<le> now"
| "circuit_ok y (Op_Reset target actor reason now) \<longleftrightarrow> cy_now y \<le> now"
| "circuit_ok y (Op_Status targets now) \<longleftrightarrow> cy_now y \<le> now"
| "circuit_ok y (Op_Receipt rid operation dispositions) \<longleftrightarrow> rid \<notin> fst ` set (db_receipts (cy_db y))"

definition breaker_inv :: "int \<Rightarrow> circuit_policy \<Rightarrow> circuit_sys \<Rightarrow> bool" where
  "breaker_inv tick policy y \<longleftrightarrow> good_clock tick policy \<and> circuit_inv tick policy (cy_now y) (cy_db y)"

lemma stopped_nothing_receipt:
  assumes "rid \<notin> fst ` set (db_receipts db)" and "stopped_nothing db op"
  shows "stopped_nothing (add_receipt rid operation dispositions db) op"
  using assms by (force simp: stopped_nothing_def add_receipt_def)

lemma add_receipt_inv:
  assumes "rid \<notin> fst ` set (db_receipts db)" and "circuit_inv tick policy now db"
  shows "circuit_inv tick policy now (add_receipt rid operation dispositions db)"
proof -
  let ?db = "add_receipt rid operation dispositions db"
  have fields: "db_states ?db = db_states db" "db_admissions ?db = db_admissions db"
    "db_events ?db = db_events db" by (simp_all add: add_receipt_def)
  have "circuit_count tick policy ?db t e u \<le> circuit_count tick policy db t e u" for t e u
    unfolding circuit_count_def fields
    by (rule length_filter_mono) (auto dest: stopped_nothing_receipt [OF assms(1)])
  moreover have "circuit_state_of ?db t = circuit_state_of db t" for t
    by (rule circuit_state_of_cong [OF fields(1)])
  ultimately show ?thesis using assms(2)
    by (simp add: circuit_inv_def target_inv_def admissions_ok_def target_events_def fields)
       (meson order_trans)
qed

lemma breaker_step:
  assumes "breaker_inv tick policy y" and "circuit_ok y e"
  shows "breaker_inv tick policy (circuit_step uuid digest tick policy y e)"
proof (cases e)
  case (Op_Admit request now)
  with assms have inv: "circuit_inv tick policy now (cy_db y)" and clock: "good_clock tick policy"
    by (auto simp: breaker_inv_def intro: circuit_inv_later)
  with assms Op_Admit admit_outcome [OF clock inv, of uuid digest request] show ?thesis
    by (auto simp: breaker_inv_def split: sum.split)
next
  case (Op_Reset target actor reason now)
  with assms have inv: "circuit_inv tick policy now (cy_db y)" and clock: "good_clock tick policy"
    by (auto simp: breaker_inv_def intro: circuit_inv_later)
  with assms Op_Reset reset_outcome [OF inv clock, of uuid target actor reason] show ?thesis
    by (auto simp: breaker_inv_def split: sum.split)
next
  case (Op_Status targets now)
  with assms have inv: "circuit_inv tick policy now (cy_db y)" and "good_clock tick policy"
    by (auto simp: breaker_inv_def intro: circuit_inv_later)
  with Op_Status open_circuits_outcome [OF inv, of uuid targets] show ?thesis
    by (cases "open_circuits_pass uuid tick policy now targets (cy_db y)") (simp add: breaker_inv_def)
next
  case (Op_Receipt rid operation dispositions)
  with assms show ?thesis by (simp add: breaker_inv_def add_receipt_inv)
qed

interpretation breaker: guarded_machine "circuit_step uuid digest tick policy" circuit_ok
  "breaker_inv tick policy" for uuid digest tick policy
  by unfold_locales (rule breaker_step)

definition empty_circuit :: circuit_sys where
  "empty_circuit = \<lparr>cy_db = \<lparr>db_states = [], db_admissions = [], db_events = [], db_receipts = [],
     db_outcomes = []\<rparr>, cy_now = 0\<rparr>"

lemma breaker_inv_empty: "good_clock tick policy \<Longrightarrow> breaker_inv tick policy empty_circuit"
  by (simp add: breaker_inv_def empty_circuit_def circuit_inv_def admissions_ok_def target_inv_def
      circuit_count_def history_ok_def target_events_def circuit_state_of_def good_clock_def)

lemma breaker_reachable:
  assumes "good_clock tick policy" and "run_ok circuit_ok (circuit_step uuid digest tick policy) empty_circuit es"
    and "y = run (circuit_step uuid digest tick policy) empty_circuit es" and "cy_now y \<le> now"
  shows "circuit_inv tick policy now (cy_db y)"
  using breaker.run_inv [OF breaker_inv_empty [OF assms(1)] assms(2)] assms(1,3,4)
  by (auto simp: breaker_inv_def intro: circuit_inv_later)


subsection \<open>The properties\<close>

text \<open>A run for the witnesses: the threshold is two, the third peer Stop is refused.\<close>

definition demo_policy :: circuit_policy where
  "demo_policy = \<lparr>pol_threshold = 2, pol_window_seconds = 60\<rparr>"

definition demo_stop :: "string \<Rightarrow> stop_request" where
  "demo_stop op = \<lparr>rq_scope = Scope_Agent, rq_actor_id = ''peer'', rq_target_agent_id = Some ''did:a'',
     rq_correlation_id = op\<rparr>"

definition demo_stops :: "circuit_op list" where
  "demo_stops = [Op_Admit (demo_stop ''x'') 1000000, Op_Admit (demo_stop ''y'') 2000000]"

abbreviation demo_cstep :: "circuit_sys \<Rightarrow> circuit_op \<Rightarrow> circuit_sys" where
  "demo_cstep \<equiv> circuit_step show_nat id 1000 demo_policy"

definition demo_cy :: circuit_sys where
  "demo_cy = run demo_cstep empty_circuit demo_stops"

lemma demo_clock: "good_clock 1000 demo_policy"
  by (simp add: good_clock_def demo_policy_def)

lemma strip_word: "s \<noteq> [] \<Longrightarrow> list_all (\<lambda>c. \<not> is_space c) s \<Longrightarrow> strip s \<noteq> []"
  using strip_id [of s] by (auto simp: list_all_iff)

lemma demo_texts:
  "required_text (Some ''did:a'') MAX_CIRCUIT_TARGET_LENGTH = Inr ''did:a''"
  "required_text (Some ''peer'') 4096 = Inr ''peer''"
  "required_text (Some ''ops'') 4096 = Inr ''ops''"
  "required_text (Some ''clear'') MAX_CIRCUIT_REASON_LENGTH = Inr ''clear''"
  using strip_word [of "''did:a''"] strip_word [of "''peer''"] strip_word [of "''ops''"]
    strip_word [of "''clear''"]
  by (simp_all add: required_text_def MAX_CIRCUIT_TARGET_LENGTH_def MAX_CIRCUIT_REASON_LENGTH_def
      is_space_def cp_def)

lemmas demo_circuit_defs = demo_stop_def admit_def demo_texts recover_def circuit_state_of_def
  circuit_count_def has_final_receipt_def admission_is_current_def in_window_def window_start_def
  stamp_def demo_policy_def record_admission_def readmit_def stopped_nothing_def save_state_def
  open_circuit_def record_event_def next_seq_def dict_put_def dict_get_def Let_def

lemma demo_cy_value:
  "run_ok circuit_ok demo_cstep empty_circuit demo_stops"
  "cs_is_open (circuit_state_of (cy_db demo_cy) ''did:a'')"
  "cs_epoch (circuit_state_of (cy_db demo_cy) ''did:a'') = 0"
  "cy_now demo_cy = 2000000"
  "circuit_count 1000 demo_policy (cy_db demo_cy) ''did:a'' 0 3000000 = 2"
  by (simp_all add: demo_cy_def demo_stops_def empty_circuit_def demo_circuit_defs)

text \<open>
  C2: the breaker bounds peer Stops. Along every run of admissions, resets, status reads and arriving
  Stop receipts, at any present or later time, the honored peer Stops of the current epoch that may
  have stopped work (in flight, or with a receipt that says so) inside the sliding window never
  exceed the threshold, for any target; and a circuit whose count is at the threshold is open.
\<close>

theorem peer_stops_bounded:
  assumes "good_clock tick policy"
    and "run_ok circuit_ok (circuit_step uuid digest tick policy) empty_circuit es"
    and "y = run (circuit_step uuid digest tick policy) empty_circuit es" and "cy_now y \<le> now"
  shows "circuit_count tick policy (cy_db y) target (cs_epoch (circuit_state_of (cy_db y) target)) now
      \<le> pol_threshold policy
    \<and> (if circuit_count tick policy (cy_db y) target (cs_epoch (circuit_state_of (cy_db y) target)) now
          = pol_threshold policy
       then cs_is_open (circuit_state_of (cy_db y) target) else True)"
  using breaker_reachable [OF assms] by (simp add: circuit_inv_def target_inv_def)

lemma peer_stops_bounded_witness:
  "circuit_count 1000 demo_policy (cy_db demo_cy) ''did:a'' 0 3000000 \<le> 2"
  using peer_stops_bounded [OF demo_clock demo_cy_value(1) demo_cy_def, of 3000000 "''did:a''"]
    demo_cy_value by (simp add: demo_policy_def)

text \<open>
  C19: the verdict on one peer Stop, on every branch, from any reachable state. It is honored exactly
  when its operation already has its final receipt, is already counted in this window, or the count
  is below the threshold; only an honored operation that was not already counted adds one; the count
  it reports is the one stored; and afterwards the circuit is open exactly when that count is at the
  threshold.
\<close>

theorem admit_verdict:
  assumes "good_clock tick policy"
    and "run_ok circuit_ok (circuit_step uuid digest tick policy) empty_circuit es"
    and "y = run (circuit_step uuid digest tick policy) empty_circuit es" and "cy_now y \<le> now"
    and "admit uuid digest tick policy request now (cy_db y) = Inr (d, db')"
  shows "admission_outcome digest tick policy request now (cy_db y) d db'"
  using admit_outcome [OF assms(1) breaker_reachable [OF assms(1-4)] assms(5)] by simp

lemma admit_verdict_witness:
  "case admit show_nat id 1000 demo_policy (demo_stop ''z'') 3000000 (cy_db demo_cy) of
     Inl _ \<Rightarrow> False | Inr (d, db') \<Rightarrow> \<not> dc_honored d"
proof -
  let ?db = "cy_db demo_cy"
  obtain d db' where run: "admit show_nat id 1000 demo_policy (demo_stop ''z'') 3000000 ?db = Inr (d, db')"
    by (simp add: demo_cy_def demo_stops_def empty_circuit_def demo_circuit_defs)
  have "3000000 \<ge> cy_now demo_cy" by (simp add: demo_cy_value)
  from admit_verdict [OF demo_clock demo_cy_value(1) demo_cy_def this run]
  have "dc_honored d \<longleftrightarrow> has_final_receipt ?db ''z''
      \<or> admission_is_current 1000 demo_policy ?db ''did:a'' ''z'' 0 3000000"
    by (simp add: admission_outcome_def Let_def request_target_def demo_stop_def demo_cy_value
        demo_policy_def [symmetric]) (simp add: demo_policy_def)
  moreover have "\<not> has_final_receipt ?db ''z''"
    "\<not> admission_is_current 1000 demo_policy ?db ''did:a'' ''z'' 0 3000000"
    by (simp_all add: demo_cy_def demo_stops_def empty_circuit_def demo_circuit_defs)
  ultimately show ?thesis by (simp add: run)
qed

text \<open>
  a sovereign reset. From any reachable state it closes the circuit, starts the next epoch, in
  which nothing is counted at any time, and appends exactly one event to the target's history, the
  reset with its actor and reason.
\<close>

theorem reset_clears_circuit:
  assumes "good_clock tick policy"
    and "run_ok circuit_ok (circuit_step uuid digest tick policy) empty_circuit es"
    and "y = run (circuit_step uuid digest tick policy) empty_circuit es" and "cy_now y \<le> now"
    and "reset_circuit uuid tick policy target actor reason now (cy_db y) = Inr (e, db')"
  shows "\<not> cs_is_open (circuit_state_of db' target)
    \<and> cs_epoch (circuit_state_of db' target) = cs_epoch (circuit_state_of (cy_db y) target) + 1
    \<and> circuit_count tick policy db' target (cs_epoch (circuit_state_of db' target)) t = 0
    \<and> target_events db' target = target_events (cy_db y) target @ [e]
    \<and> ev_kind e = Reset \<and> ev_actor_id e = Some actor \<and> ev_reason e = Some reason"
  using reset_outcome [OF breaker_reachable [OF assms(1-4)] assms(1,5), where t = t] by blast

lemma reset_clears_circuit_witness:
  "case reset_circuit show_nat 1000 demo_policy ''did:a'' ''ops'' ''clear'' 3000000 (cy_db demo_cy) of
     Inl _ \<Rightarrow> False | Inr (e, db') \<Rightarrow> \<not> cs_is_open (circuit_state_of db' ''did:a'')"
proof -
  obtain e db' where run:
    "reset_circuit show_nat 1000 demo_policy ''did:a'' ''ops'' ''clear'' 3000000 (cy_db demo_cy) = Inr (e, db')"
    by (simp add: reset_circuit_def demo_texts Let_def record_event_def)
  have "3000000 \<ge> cy_now demo_cy" by (simp add: demo_cy_value)
  from reset_clears_circuit [OF demo_clock demo_cy_value(1) demo_cy_def this run]
  show ?thesis by (simp add: run)
qed

text \<open>
  the status surface and the receipted history agree with the circuit. In every reachable state,
  a status read over any list of targets reports, in order, exactly those whose circuit is open
  afterwards, which are those whose count is at the threshold; and every target's history is numbered
  1, 2, and so on, with an \<open>opened\<close> event last, the one the state names, exactly when it is open.
\<close>

theorem status_and_history_agree:
  assumes "good_clock tick policy"
    and "run_ok circuit_ok (circuit_step uuid digest tick policy) empty_circuit es"
    and "y = run (circuit_step uuid digest tick policy) empty_circuit es" and "cy_now y \<le> now"
    and "open_circuits_pass uuid tick policy now targets (cy_db y) = (entries, db')"
  shows "map oc_target entries = filter (\<lambda>t. cs_is_open (circuit_state_of db' t)) targets
    \<and> list_all (\<lambda>t. cs_is_open (circuit_state_of db' t) \<longleftrightarrow>
         pol_threshold policy \<le> circuit_count tick policy db' t (cs_epoch (circuit_state_of db' t)) now) targets
    \<and> history_ok (target_events db' target) (circuit_state_of db' target)"
  using open_circuits_outcome [OF breaker_reachable [OF assms(1-4)] assms(5)]
  by (auto simp: list_all_iff circuit_inv_def target_inv_def)

lemma status_and_history_agree_witness:
  "map ev_seq (target_events (snd (open_circuits_pass show_nat 1000 demo_policy 3000000 [''did:a'']
     (cy_db demo_cy))) ''did:a'') = [1]"
proof -
  obtain entries db' where run:
    "open_circuits_pass show_nat 1000 demo_policy 3000000 [''did:a''] (cy_db demo_cy) = (entries, db')"
    by (cases "open_circuits_pass show_nat 1000 demo_policy 3000000 [''did:a''] (cy_db demo_cy)")
  have "3000000 \<ge> cy_now demo_cy" by (simp add: demo_cy_value)
  from status_and_history_agree [OF demo_clock demo_cy_value(1) demo_cy_def this run, of "''did:a''"]
  have "map ev_seq (target_events db' ''did:a'') = [1..<Suc (length (target_events db' ''did:a''))]"
    by (simp add: history_ok_def)
  moreover have "length (target_events db' ''did:a'') = 1"
    using run
    by (auto simp: demo_cy_def demo_stops_def empty_circuit_def demo_circuit_defs target_events_def)
  ultimately show ?thesis unfolding run by simp
qed

end
