(* ===== verification/Cron.thy ===== *)
theory Cron
  imports Text
begin

text \<open>
  Model of \<open>kestrel_sovereign/features/scheduler/cron.py\<close>: parsing of five-field cron expressions
  and the search for the next matching minute. A UTC instant is a number of microseconds since
  0001-01-01, a candidate a number of minutes; \<open>datetime\<close> ends with the year 9999. The zone database
  is an argument: for a name, the local clock of every UTC minute (\<open>None\<close> where the conversion leaves
  the range of \<open>datetime\<close>).
\<close>

subsection \<open>Fields\<close>

datatype cron_error = Cron_Parse_Error | Overflow_Error

definition ALIASES :: "(string \<times> string) list" where
  "ALIASES =
     [(''@hourly'', ''0 * * * *''), (''@daily'', ''0 0 * * *''), (''@midnight'', ''0 0 * * *''),
      (''@weekly'', ''0 0 * * 0''), (''@monthly'', ''0 0 1 * *''), (''@yearly'', ''0 0 1 1 *''),
      (''@annually'', ''0 0 1 1 *'')]"

definition FIELD_RANGES :: "(int \<times> int) list" where
  "FIELD_RANGES = [(0, 59), (0, 23), (1, 31), (1, 12), (0, 6)]"

text \<open>\<open>set(range(lo, hi, step))\<close> for a positive step.\<close>

definition py_range :: "int \<Rightarrow> int \<Rightarrow> int \<Rightarrow> int set" where
  "py_range lo hi step = set (map (\<lambda>k. lo + int k * step) [0..<nat ((hi - lo + step - 1) div step)])"

definition parse_step :: "string \<Rightarrow> cron_error + string \<times> int" where
  "parse_step part =
     (case split_first (CHR ''/'') part of
        None \<Rightarrow> Inr (part, 1)
      | Some (base, step_str) \<Rightarrow>
          (case py_int step_str of
             None \<Rightarrow> Inl Cron_Parse_Error
           | Some step \<Rightarrow> if step < 1 then Inl Cron_Parse_Error else Inr (base, step)))"

definition parse_range :: "string \<Rightarrow> int \<Rightarrow> int \<Rightarrow> int \<Rightarrow> cron_error + int set" where
  "parse_range part step min_val max_val =
     (if part = ''*'' then Inr (py_range min_val (max_val + 1) step)
      else case split_first (CHR ''-'') part of
        Some (low_str, high_str) \<Rightarrow>
          (case (py_int low_str, py_int high_str) of
             (Some low, Some high) \<Rightarrow>
               if low < min_val \<or> high > max_val \<or> low > high then Inl Cron_Parse_Error
               else Inr (py_range low (high + 1) step)
           | _ \<Rightarrow> Inl Cron_Parse_Error)
      | None \<Rightarrow>
          (case py_int part of
             None \<Rightarrow> Inl Cron_Parse_Error
           | Some val \<Rightarrow>
               if val < min_val \<or> val > max_val then Inl Cron_Parse_Error
               else if step > 1 then Inr (py_range val (max_val + 1) step) else Inr {val}))"

definition parse_part :: "int \<Rightarrow> int \<Rightarrow> string \<Rightarrow> cron_error + int set" where
  "parse_part min_val max_val part =
     (let part = strip part in
      if part = [] then Inl Cron_Parse_Error
      else case parse_step part of
        Inl e \<Rightarrow> Inl e
      | Inr (base, step) \<Rightarrow> parse_range base step min_val max_val)"

fun parse_parts :: "int \<Rightarrow> int \<Rightarrow> string list \<Rightarrow> int set \<Rightarrow> cron_error + int set" where
  "parse_parts min_val max_val [] result = Inr result"
| "parse_parts min_val max_val (part # parts) result =
     (case parse_part min_val max_val part of
        Inl e \<Rightarrow> Inl e
      | Inr vals \<Rightarrow> parse_parts min_val max_val parts (result \<union> vals))"

definition parse_field :: "string \<Rightarrow> int \<Rightarrow> int \<Rightarrow> cron_error + int set" where
  "parse_field field min_val max_val = parse_parts min_val max_val (split_on (CHR '','') field) {}"

fun parse_fields :: "(string \<times> int \<times> int) list \<Rightarrow> cron_error + int set list" where
  "parse_fields [] = Inr []"
| "parse_fields ((field, lo, hi) # rest) =
     (case parse_field field lo hi of
        Inl e \<Rightarrow> Inl e
      | Inr vals \<Rightarrow> (case parse_fields rest of Inl e \<Rightarrow> Inl e | Inr more \<Rightarrow> Inr (vals # more)))"

definition resolve_alias :: "string \<Rightarrow> cron_error + string" where
  "resolve_alias expression =
     (if take 1 expression = ''@''
      then (case map_of ALIASES (lower expression) of
              None \<Rightarrow> Inl Cron_Parse_Error | Some e \<Rightarrow> Inr e)
      else Inr expression)"

definition parse :: "string \<Rightarrow> cron_error + int set list" where
  "parse expression =
     (case resolve_alias (strip expression) of
        Inl e \<Rightarrow> Inl e
      | Inr e \<Rightarrow> let parts = words e in
          if length parts \<noteq> 5 then Inl Cron_Parse_Error
          else parse_fields (zip parts FIELD_RANGES))"

subsection \<open>Matching\<close>

record local_time =
  lt_year :: int
  lt_month :: int
  lt_day :: int
  lt_hour :: int
  lt_minute :: int
  lt_isoweekday :: int
  lt_fold :: bool

definition matches_fields :: "int set list \<Rightarrow> local_time \<Rightarrow> bool" where
  "matches_fields sets dt \<longleftrightarrow>
     lt_minute dt \<in> sets ! 0 \<and> lt_hour dt \<in> sets ! 1 \<and> lt_day dt \<in> sets ! 2
     \<and> lt_month dt \<in> sets ! 3 \<and> lt_isoweekday dt mod 7 \<in> sets ! 4"

definition cron_matches :: "string \<Rightarrow> local_time \<Rightarrow> cron_error + bool" where
  "cron_matches expression dt =
     (case parse expression of Inl e \<Rightarrow> Inl e | Inr sets \<Rightarrow> Inr (matches_fields sets dt))"

subsection \<open>The next run\<close>

type_synonym zone = "int \<Rightarrow> local_time option"

definition get_timezone :: "(string \<Rightarrow> zone option) \<Rightarrow> string \<Rightarrow> cron_error + zone" where
  "get_timezone zones name =
     (if strip name = [] then Inl Cron_Parse_Error
      else case zones name of None \<Rightarrow> Inl Cron_Parse_Error | Some z \<Rightarrow> Inr z)"

text \<open>The first minute after the last one of year 9999.\<close>

definition MAX_MINUTE :: int where "MAX_MINUTE = 3652059 * 1440"

text \<open>Naive datetimes are read as UTC; an aware one carries its offset in microseconds.\<close>

datatype after_arg = After_Now | After_Naive int | After_Aware int int

definition utc_of :: "int \<Rightarrow> after_arg \<Rightarrow> cron_error + int" where
  "utc_of now after = (case after of
       After_Now \<Rightarrow> Inr now
     | After_Naive t \<Rightarrow> Inr t
     | After_Aware t offset \<Rightarrow>
         if 0 \<le> t - offset \<and> t - offset < MAX_MINUTE * 60000000 then Inr (t - offset)
         else Inl Overflow_Error)"

definition add_minute :: "int \<Rightarrow> cron_error + int" where
  "add_minute candidate = (if candidate + 1 < MAX_MINUTE then Inr (candidate + 1) else Inl Overflow_Error)"

definition max_iterations :: nat where "max_iterations = 4 * 366 * 24 * 60"

fun scan :: "int set list \<Rightarrow> zone \<Rightarrow> nat \<Rightarrow> int \<Rightarrow> cron_error + int" where
  "scan sets zone 0 candidate = Inl Cron_Parse_Error"
| "scan sets zone (Suc n) candidate =
     (case zone candidate of
        None \<Rightarrow> Inl Overflow_Error
      | Some local_candidate \<Rightarrow>
          if \<not> lt_fold local_candidate \<and> matches_fields sets local_candidate then Inr candidate
          else (case add_minute candidate of
                  Inl e \<Rightarrow> Inl e
                | Inr candidate' \<Rightarrow> scan sets zone n candidate'))"

definition next_run ::
    "(string \<Rightarrow> zone option) \<Rightarrow> int \<Rightarrow> string \<Rightarrow> after_arg \<Rightarrow> string \<Rightarrow> cron_error + int" where
  "next_run zones now expression after timezone_name =
     (case parse expression of
        Inl e \<Rightarrow> Inl e
      | Inr sets \<Rightarrow>
      (case get_timezone zones timezone_name of
        Inl e \<Rightarrow> Inl e
      | Inr zone \<Rightarrow>
      (case utc_of now after of
        Inl e \<Rightarrow> Inl e
      | Inr t \<Rightarrow>
      (case add_minute (t div 60000000) of
        Inl e \<Rightarrow> Inl e
      | Inr candidate \<Rightarrow> scan sets zone max_iterations candidate))))"

subsection \<open>What a parsed expression is\<close>

lemma py_range_mem:
  assumes "0 < step"
  shows "x \<in> py_range lo hi step \<longleftrightarrow> lo \<le> x \<and> x < hi \<and> (x - lo) mod step = 0"
proof
  assume "x \<in> py_range lo hi step"
  then obtain k where k: "k < nat ((hi - lo + step - 1) div step)" "x = lo + int k * step"
    by (auto simp: py_range_def)
  then have "int k + 1 \<le> (hi - lo + step - 1) div step" by linarith
  then have "(int k + 1) * step \<le> ((hi - lo + step - 1) div step) * step"
    using assms by (intro mult_right_mono) auto
  also have "\<dots> \<le> hi - lo + step - 1"
    using minus_mod_eq_div_mult [of "hi - lo + step - 1" step, symmetric]
      pos_mod_sign [OF assms, of "hi - lo + step - 1"] by linarith
  finally have "(int k + 1) * step \<le> hi - lo + step - 1" .
  with k assms show "lo \<le> x \<and> x < hi \<and> (x - lo) mod step = 0" by (simp add: algebra_simps)
next
  assume x: "lo \<le> x \<and> x < hi \<and> (x - lo) mod step = 0"
  define q where "q = (x - lo) div step"
  have q: "x = lo + q * step" using x unfolding q_def by (simp add: mult.commute mod_0_imp_dvd)
  have "0 \<le> q" using x assms by (simp add: q_def pos_imp_zdiv_nonneg_iff)
  have "(q + 1) * step \<le> hi - lo + step - 1" using x q by (simp add: algebra_simps)
  then have "q + 1 \<le> (hi - lo + step - 1) div step"
    using zdiv_mono1 [OF _ assms, of "(q + 1) * step" "hi - lo + step - 1"] assms by simp
  then have "nat q < nat ((hi - lo + step - 1) div step)" using \<open>0 \<le> q\<close> by linarith
  with q \<open>0 \<le> q\<close> show "x \<in> py_range lo hi step" by (auto simp: py_range_def intro!: image_eqI [of _ _ "nat q"])
qed

lemma parse_range_bounds:
  assumes "parse_range part step lo hi = Inr vals" and "0 < step" and "lo \<le> hi"
  shows "vals \<noteq> {} \<and> vals \<subseteq> {lo..hi}"
proof -
  have range: "py_range a (b + 1) step \<noteq> {} \<and> py_range a (b + 1) step \<subseteq> {lo..hi}"
    if "lo \<le> a" "a \<le> b" "b \<le> hi" for a b
  proof -
    have "a \<in> py_range a (b + 1) step" using that py_range_mem [OF assms(2), of a a "b + 1"] by simp
    moreover have "x \<in> py_range a (b + 1) step \<Longrightarrow> lo \<le> x \<and> x \<le> hi" for x
      using that py_range_mem [OF assms(2), of x a "b + 1"] by simp
    ultimately show ?thesis by auto
  qed
  have whole: "py_range lo (hi + 1) step \<noteq> {} \<and> py_range lo (hi + 1) step \<subseteq> {lo..hi}"
    using range [of lo hi] assms(3) by simp
  have single: "{x} \<noteq> {} \<and> {x} \<subseteq> {lo..hi}" if "\<not> x < lo" "\<not> hi < x" for x using that by simp
  show ?thesis
  proof (cases "part = ''*''")
    case True
    with assms(1) whole show ?thesis by (simp add: parse_range_def)
  next
    case star: False
    show ?thesis
    proof (cases "split_first (CHR ''-'') part")
      case None
      with star assms(1) obtain v where v: "\<not> v < lo" "\<not> hi < v"
        "vals = (if step > 1 then py_range v (hi + 1) step else {v})"
        by (auto simp: parse_range_def split: option.splits if_splits)
      with range [of v hi] single [of v] show ?thesis by auto
    next
      case (Some ab)
      with star assms(1) obtain a b where "\<not> (a < lo \<or> b > hi \<or> a > b)"
        "vals = py_range a (b + 1) step"
        by (auto simp: parse_range_def split: option.splits if_splits prod.splits)
      with range [of a b] show ?thesis by simp
    qed
  qed
qed

lemma parse_part_bounds:
  assumes "parse_part lo hi part = Inr vals" and "lo \<le> hi"
  shows "vals \<noteq> {} \<and> vals \<subseteq> {lo..hi}"
proof -
  from assms(1) obtain base step where s: "parse_step (strip part) = Inr (base, step)"
    "parse_range base step lo hi = Inr vals"
    by (auto simp: parse_part_def Let_def split: if_splits sum.splits prod.splits)
  have "0 < step" using s(1) by (auto simp: parse_step_def split: option.splits if_splits prod.splits)
  from parse_range_bounds [OF s(2) this assms(2)] show ?thesis .
qed

lemma parse_parts_bounds:
  "parse_parts lo hi parts result = Inr vals \<Longrightarrow> lo \<le> hi \<Longrightarrow> result \<subseteq> {lo..hi}
    \<Longrightarrow> result \<subseteq> vals \<and> vals \<subseteq> {lo..hi} \<and> (parts \<noteq> [] \<longrightarrow> vals \<noteq> {})"
proof (induction parts arbitrary: result)
  case (Cons part parts)
  from Cons.prems obtain v where v: "parse_part lo hi part = Inr v"
    "parse_parts lo hi parts (result \<union> v) = Inr vals" by (auto split: sum.splits)
  with parse_part_bounds [OF v(1) Cons.prems(2)] Cons.IH [OF v(2) Cons.prems(2)] Cons.prems(3)
  show ?case by auto
qed simp

lemma parse_field_bounds:
  "parse_field field lo hi = Inr vals \<Longrightarrow> lo \<le> hi \<Longrightarrow> vals \<noteq> {} \<and> vals \<subseteq> {lo..hi}"
  using parse_parts_bounds [of lo hi "split_on (CHR '','') field" "{}" vals]
  by (auto simp: parse_field_def)

lemma parse_fields_bounds:
  "parse_fields fs = Inr sets \<Longrightarrow> (\<And>f lo hi. (f, lo, hi) \<in> set fs \<Longrightarrow> lo \<le> hi)
    \<Longrightarrow> list_all2 (\<lambda>(f, lo, hi) v. v \<noteq> {} \<and> v \<subseteq> {lo..hi}) fs sets"
proof (induction fs arbitrary: sets rule: parse_fields.induct)
  case (2 field lo hi rest)
  from "2.prems"(1) obtain v vs where v: "parse_field field lo hi = Inr v" "parse_fields rest = Inr vs"
    "sets = v # vs" by (auto split: sum.splits)
  from "2.prems"(2) have "lo \<le> hi" by (metis list.set_intros(1))
  from parse_field_bounds [OF v(1) this] "2.IH" [OF v(1,2)] "2.prems"(2) v(3) show ?case by auto
qed simp

text \<open>
  C37: a parsed cron expression denotes five non-empty sets of values, each within the range of its
  field, so every value it lists can occur on a clock face.
\<close>

theorem parse_in_ranges:
  assumes "parse expression = Inr sets"
  shows "list_all2 (\<lambda>(lo, hi) v. v \<noteq> {} \<and> v \<subseteq> {lo..hi}) FIELD_RANGES sets"
proof -
  from assms obtain parts where p: "length parts = 5" "parse_fields (zip parts FIELD_RANGES) = Inr sets"
    by (auto simp: parse_def Let_def split: sum.splits if_splits)
  then obtain a b c d e where parts: "parts = [a, b, c, d, e]"
    by (auto simp: numeral_eq_Suc length_Suc_conv)
  have "lo \<le> hi" if "(f, lo, hi) \<in> set (zip parts FIELD_RANGES)" for f lo hi
    using that by (auto simp: parts FIELD_RANGES_def)
  from parse_fields_bounds [OF p(2) this] show ?thesis
    by (auto simp: parts FIELD_RANGES_def list_all2_Cons1)
qed

subsection \<open>Expressions as they are written\<close>

text \<open>
  A sub-expression of a field with its optional step, how it is written, and what it is documented
  to mean for a field with range \<open>lo\<close> to \<open>hi\<close>: a value without a step is itself, and with a step it
  runs \<open>from that value through max_val with given step\<close> (the comment in \<open>_parse_field\<close>).
\<close>

datatype cron_item = Any "nat option" | Value nat "nat option" | Range nat nat "nat option"

fun item_step :: "cron_item \<Rightarrow> nat option" where
  "item_step (Any s) = s" | "item_step (Value n s) = s" | "item_step (Range a b s) = s"

fun item_base :: "cron_item \<Rightarrow> string" where
  "item_base (Any s) = ''*''"
| "item_base (Value n s) = show_nat n"
| "item_base (Range a b s) = show_nat a @ ''-'' @ show_nat b"

definition render_item :: "cron_item \<Rightarrow> string" where
  "render_item i = item_base i @
     (case item_step i of None \<Rightarrow> [] | Some s \<Rightarrow> ''/'' @ show_nat s)"

definition step_of :: "cron_item \<Rightarrow> int" where
  "step_of i = (case item_step i of None \<Rightarrow> 1 | Some s \<Rightarrow> int s)"

fun item_meaning :: "int \<Rightarrow> int \<Rightarrow> cron_item \<Rightarrow> int set" where
  "item_meaning lo hi (Any s) = {x. lo \<le> x \<and> x \<le> hi \<and> (x - lo) mod step_of (Any s) = 0}"
| "item_meaning lo hi (Value n None) = {int n}"
| "item_meaning lo hi (Value n (Some s)) = {x. int n \<le> x \<and> x \<le> hi \<and> (x - int n) mod int s = 0}"
| "item_meaning lo hi (Range a b s) =
     {x. int a \<le> x \<and> x \<le> int b \<and> (x - int a) mod step_of (Range a b s) = 0}"

fun item_bounds :: "int \<Rightarrow> int \<Rightarrow> cron_item \<Rightarrow> bool" where
  "item_bounds lo hi (Any s) \<longleftrightarrow> True"
| "item_bounds lo hi (Value n s) \<longleftrightarrow> lo \<le> int n \<and> int n \<le> hi"
| "item_bounds lo hi (Range a b s) \<longleftrightarrow> lo \<le> int a \<and> a \<le> b \<and> int b \<le> hi"

text \<open>
  Well written: in range, a positive step of at most 4,300 digits, and not the form \<open>N/1\<close>, which the
  code reads as \<open>N\<close> alone (\<open>value_with_step_one\<close> below).
\<close>

definition item_ok :: "int \<Rightarrow> int \<Rightarrow> cron_item \<Rightarrow> bool" where
  "item_ok lo hi i \<longleftrightarrow> item_bounds lo hi i \<and> hi < 100 \<and> (\<forall>n. i \<noteq> Value n (Some 1)) \<and>
     (case item_step i of None \<Rightarrow> True | Some s \<Rightarrow> 0 < s \<and> length (show_nat s) \<le> 4300)"

definition render_field :: "cron_item list \<Rightarrow> string" where
  "render_field items = join '','' (map render_item items)"

definition field_meaning :: "int \<Rightarrow> int \<Rightarrow> cron_item list \<Rightarrow> int set" where
  "field_meaning lo hi items = \<Union> (item_meaning lo hi ` set items)"

definition plain :: "char \<Rightarrow> bool" where
  "plain c \<longleftrightarrow> c \<noteq> CHR ''/'' \<and> c \<noteq> CHR '','' \<and> \<not> is_space c"

lemma digit_facts:
  assumes "is_digit c"
  shows "plain c" and "c \<noteq> CHR ''-''" and "c \<noteq> CHR ''*''"
  using assms by (auto simp: plain_def is_digit_def is_space_def cp_def)

lemma show_nat_plain [simp]: "list_all plain (show_nat n)"
  using show_nat_digits digit_facts(1) by (auto simp: list_all_iff)

lemma punctuation_plain [simp]: "plain CHR ''*''" "plain CHR ''-''"
  by (simp_all add: plain_def is_space_def cp_def)

lemma item_base_plain [simp]: "list_all plain (item_base i)"
  by (cases i) simp_all

lemma item_base_slash: "CHR ''/'' \<notin> set (item_base i)"
  using item_base_plain [of i] by (auto simp: list_all_iff plain_def)

lemma render_item_chars:
  assumes "c \<in> set (render_item i)" shows "c \<noteq> CHR '',''" and "\<not> is_space c"
proof -
  have "c \<noteq> CHR '','' \<and> \<not> is_space c"
  proof (cases "c = CHR ''/''")
    case True
    then show ?thesis by (simp add: is_space_def cp_def)
  next
    case False
    have "list_all plain (item_base i)" and "list_all plain (show_nat s)" for s by simp_all
    with False assms have "plain c" unfolding list_all_iff
      by (auto simp: render_item_def split: option.splits)
    then show ?thesis by (simp add: plain_def)
  qed
  then show "c \<noteq> CHR '',''" and "\<not> is_space c" by simp_all
qed

lemma render_item_nonempty: "render_item i \<noteq> []"
  by (cases i) (auto simp: render_item_def)

lemma small_int: "int n < 100 \<Longrightarrow> py_int (show_nat n) = Some (int n)"
  using show_nat_length [of n 2] by (intro py_int_show_nat) simp

lemma parse_step_render:
  assumes "item_ok lo hi i"
  shows "parse_step (render_item i) = Inr (item_base i, step_of i)"
proof (cases "item_step i")
  case None
  then show ?thesis
    by (simp add: parse_step_def render_item_def step_of_def split_first_None [OF item_base_slash])
next
  case (Some s)
  then have "split_first (CHR ''/'') (render_item i) = Some (item_base i, show_nat s)"
    using split_first_append [OF item_base_slash, of i "show_nat s"] by (simp add: render_item_def)
  with Some assms show ?thesis
    by (simp add: parse_step_def step_of_def item_ok_def py_int_show_nat)
qed

lemma step_of_pos: "item_ok lo hi i \<Longrightarrow> 0 < step_of i"
  by (auto simp: item_ok_def step_of_def split: option.splits)

lemma show_nat_not: "show_nat n \<noteq> ''*''" "CHR ''-'' \<notin> set (show_nat n)"
proof -
  show "show_nat n \<noteq> ''*''" using show_nat_digits [of "CHR ''*''" n] digit_facts(3) by fastforce
  show "CHR ''-'' \<notin> set (show_nat n)" using show_nat_digits digit_facts(2) by blast
qed

lemma parse_range_render:
  assumes "item_ok lo hi i"
  shows "parse_range (item_base i) (step_of i) lo hi = Inr (item_meaning lo hi i)"
proof (cases i)
  case (Any s)
  then show ?thesis using py_range_mem [OF step_of_pos [OF assms]]
    by (auto simp: parse_range_def)
next
  case (Value n s)
  then have "int n < 100" using assms by (simp add: item_ok_def)
  with Value assms step_of_pos [OF assms] py_range_mem [OF step_of_pos [OF assms]] show ?thesis
    by (cases s) (auto simp: parse_range_def show_nat_not split_first_None small_int item_ok_def step_of_def)
next
  case (Range a b s)
  then have ab: "int a < 100" "int b < 100" using assms by (simp_all add: item_ok_def)
  have "item_base i \<noteq> ''*''" using Range show_nat_nonempty [of a] by (cases "show_nat a") auto
  moreover have "split_first (CHR ''-'') (item_base i) = Some (show_nat a, show_nat b)"
    using Range split_first_append [OF show_nat_not(2), of a "show_nat b"] by simp
  ultimately show ?thesis using Range assms py_range_mem [OF step_of_pos [OF assms]] ab
    by (auto simp: parse_range_def small_int item_ok_def)
qed

lemma parse_part_render:
  assumes "item_ok lo hi i" shows "parse_part lo hi (render_item i) = Inr (item_meaning lo hi i)"
proof -
  have "strip (render_item i) = render_item i" by (rule strip_id) (rule render_item_chars(2))
  then show ?thesis
    by (simp add: parse_part_def Let_def render_item_nonempty parse_step_render [OF assms]
        parse_range_render [OF assms])
qed

lemma parse_parts_render:
  "list_all (item_ok lo hi) items
    \<Longrightarrow> parse_parts lo hi (map render_item items) result = Inr (result \<union> field_meaning lo hi items)"
  by (induction items arbitrary: result) (auto simp: parse_part_render field_meaning_def)

lemma parse_field_render:
  assumes "items \<noteq> []" and "list_all (item_ok lo hi) items"
  shows "parse_field (render_field items) lo hi = Inr (field_meaning lo hi items)"
proof -
  have "split_on (CHR '','') (render_field items) = map render_item items"
    unfolding render_field_def using assms(1) render_item_chars(1) by (intro split_on_join) auto
  then show ?thesis by (simp add: parse_field_def parse_parts_render [OF assms(2)])
qed


text \<open>
  C32: what a written expression means. Five fields, each a comma-separated list of \<open>*\<close>, values and
  ranges with optional positive steps, in range and joined by spaces, parse to exactly the values they
  are documented to mean: a step counts from the start of its range, and \<open>N/S\<close> runs from \<open>N\<close> to the end
  of the field. The one form left out is a single value with the step 1: it is documented to run to
  the end of the field too, and the code reads it as the value alone (\<open>value_with_step_one\<close>).
\<close>

theorem parse_written_expression:
  assumes "list_all (\<lambda>((lo, hi), items). items \<noteq> [] \<and> list_all (item_ok lo hi) items) (zip FIELD_RANGES spec)"
    and "length spec = 5"
  shows "parse (join '' '' (map render_field spec))
    = Inr (map (\<lambda>((lo, hi), items). field_meaning lo hi items) (zip FIELD_RANGES spec))"
proof -
  let ?words = "map render_field spec"
  from assms(2) obtain a b c d e where spec: "spec = [a, b, c, d, e]"
    by (auto simp: numeral_eq_Suc length_Suc_conv)
  have items: "items \<noteq> []" if "items \<in> set spec" for items
    using assms(1) that by (auto simp: spec FIELD_RANGES_def)
  have chars: "f \<noteq> [] \<and> (\<forall>c \<in> set f. \<not> is_space c) \<and> hd f \<noteq> CHR ''@''" if f: "f \<in> set ?words" for f
  proof -
    from f obtain its where its: "its \<in> set spec" "f = render_field its" by auto
    have ends: "hd f = hd (render_item (hd its)) \<and> f \<noteq> []"
      unfolding its(2) render_field_def
      using join_ends [of "map render_item its" "'',''"] items [OF its(1)]
      by (force simp: hd_map render_item_nonempty)
    have sub: "set (join '','' xs) \<subseteq> insert (CHR '','') (\<Union> (set ` set xs))" for xs
      by (induction "'',''" xs rule: join.induct) auto
    have comma: "\<not> is_space CHR '',''" by (simp add: is_space_def cp_def)
    have nospace: "\<not> is_space c" if "c \<in> set f" for c
      using that sub [of "map render_item its"] render_item_chars(2) comma
      unfolding its(2) render_field_def by auto
    have "hd (render_item i) \<noteq> CHR ''@''" for i
    proof -
      have "hd (show_nat n) \<noteq> CHR ''@''" for n
        using show_nat_digits [of "hd (show_nat n)" n]
        by (auto simp: is_digit_def cp_def)
      then show ?thesis by (cases i) (simp_all add: render_item_def)
    qed
    with ends nospace show ?thesis by auto
  qed
  let ?e = "join '' '' ?words"
  have ne: "?words \<noteq> []" by (simp add: spec)
  have ends: "hd ?e = hd (render_field a)" "last ?e = last (render_field e)" "?e \<noteq> []"
    using join_ends [OF ne, of "'' ''"] chars by (auto simp: spec)
  have a: "render_field a \<in> set ?words" and e: "render_field e \<in> set ?words" by (simp_all add: spec)
  have "\<not> is_space (hd (render_field a))" "\<not> is_space (last (render_field e))"
    using chars [OF a] chars [OF e] by (meson hd_in_set last_in_set)+
  then have strip: "strip ?e = ?e" using ends by (intro strip_ends) simp_all
  have at: "take 1 ?e \<noteq> ''@''"
  proof
    assume "take 1 ?e = ''@''"
    with ends(3) have "hd ?e = CHR ''@''" by (cases ?e) simp_all
    with ends(1) chars [OF a] show False by simp
  qed
  have words: "words ?e = ?words"
  proof (rule words_join)
    show "is_space CHR '' ''" by (simp add: is_space_def cp_def)
  qed (use chars in blast)+
  have "parse ?e = parse_fields (zip ?words FIELD_RANGES)"
    unfolding parse_def strip resolve_alias_def using at words assms(2) by (simp add: Let_def)
  also have "\<dots> = Inr (map (\<lambda>((lo, hi), items). field_meaning lo hi items) (zip FIELD_RANGES spec))"
    using assms(1) by (simp add: spec FIELD_RANGES_def parse_field_render)
  finally show ?thesis .
qed

lemma parse_written_expression_witness:
  "parse ''*/15 9-17 1,15 * 1-5/2'' = Inr [field_meaning 0 59 [Any (Some 15)],
     field_meaning 0 23 [Range 9 17 None], field_meaning 1 31 [Value 1 None, Value 15 None],
     field_meaning 1 12 [Any None], field_meaning 0 6 [Range 1 5 (Some 2)]]"
proof -
  let ?spec = "[[Any (Some 15)], [Range 9 17 None], [Value 1 None, Value 15 None], [Any None],
    [Range 1 5 (Some 2)]]"
  have shown: "show_nat 15 = ''15''" "show_nat 9 = ''9''" "show_nat 17 = ''17''" "show_nat 1 = ''1''"
    "show_nat 5 = ''5''" "show_nat 2 = ''2''"
    by (simp_all add: show_nat.simps digit_char_def char_of_def bit_0)
  have "join '' '' (map render_field ?spec) = ''*/15 9-17 1,15 * 1-5/2''"
    using shown by (simp add: render_field_def render_item_def)
  moreover have "list_all (\<lambda>((lo, hi), items). items \<noteq> [] \<and> list_all (item_ok lo hi) items) (zip FIELD_RANGES ?spec)"
    using shown by (simp add: FIELD_RANGES_def item_ok_def)
  ultimately show ?thesis
    using parse_written_expression [of ?spec] by (simp add: FIELD_RANGES_def)
qed

lemma parse_in_ranges_witness:
  "case parse ''*/15 9-17 1,15 * 1-5/2'' of Inl _ \<Rightarrow> False
   | Inr sets \<Rightarrow> list_all2 (\<lambda>(lo, hi) v. v \<noteq> {} \<and> v \<subseteq> {lo..hi}) FIELD_RANGES sets"
proof (cases "parse ''*/15 9-17 1,15 * 1-5/2''")
  case (Inl e)
  from Inl show ?thesis
    by (simp add: parse_def resolve_alias_def words_def is_space_def cp_def strip_def Let_def
        FIELD_RANGES_def parse_field_def parse_part_def parse_step_def parse_range_def py_int_def
        is_int_space_def unsigned_int_def is_digit_def digit_val_def)
next
  case (Inr sets)
  from parse_in_ranges [OF this] Inr show ?thesis by simp
qed

subsection \<open>The search\<close>

definition due :: "int set list \<Rightarrow> zone \<Rightarrow> int \<Rightarrow> bool" where
  "due sets zone minute \<longleftrightarrow>
     (case zone minute of None \<Rightarrow> False | Some lt \<Rightarrow> \<not> lt_fold lt \<and> matches_fields sets lt)"

text \<open>What a search of \<open>n\<close> minutes from \<open>c\<close> returns, on each of its three outcomes.\<close>

definition scan_outcome :: "int set list \<Rightarrow> zone \<Rightarrow> nat \<Rightarrow> int \<Rightarrow> cron_error + int \<Rightarrow> bool" where
  "scan_outcome sets zone n c r \<longleftrightarrow>
     (case r of
        Inr m \<Rightarrow> c \<le> m \<and> m < c + int n \<and> due sets zone m \<and> {k \<in> {c..<m}. due sets zone k} = {}
      | Inl Cron_Parse_Error \<Rightarrow> {k \<in> {c..<c + int n}. due sets zone k} = {}
      | Inl Overflow_Error \<Rightarrow> MAX_MINUTE \<le> c + int n \<or> {k \<in> {c..<c + int n}. zone k = None} \<noteq> {})"

lemma scan_outcome_holds: "c < MAX_MINUTE \<Longrightarrow> scan_outcome sets zone n c (scan sets zone n c)"
proof (induction n arbitrary: c)
  case 0
  then show ?case by (simp add: scan_outcome_def)
next
  case (Suc n)
  show ?case
  proof (cases "zone c")
    case None
    then have "c \<in> {k \<in> {c..<c + int (Suc n)}. zone k = None}" by simp
    then have "{k \<in> {c..<c + int (Suc n)}. zone k = None} \<noteq> {}" by blast
    with None show ?thesis by (simp add: scan_outcome_def)
  next
    case (Some lt)
    show ?thesis
    proof (cases "due sets zone c")
      case True
      with Some show ?thesis by (simp add: scan_outcome_def due_def)
    next
      case False
      show ?thesis
      proof (cases "c + 1 < MAX_MINUTE")
        case True
        have split: "{c..<x} = insert c {c + 1..<x}" if "c < x" for x using that by auto
        have go: "scan sets zone (Suc n) c = scan sets zone n (c + 1)"
          using False Some True by (auto simp: due_def add_minute_def)
        from Suc.IH [OF True] False Some show ?thesis
          unfolding go scan_outcome_def
          by (auto split: sum.splits cron_error.splits simp: split [of "c + (1 + int n)"] algebra_simps)
             (use split in force)+
      next
        case False2: False
        with False Some Suc.prems show ?thesis by (simp add: scan_outcome_def due_def add_minute_def)
      qed
    qed
  qed
qed


text \<open>The first candidate: the minute after the one \<open>after\<close> lies in.\<close>

definition first_candidate :: "int \<Rightarrow> after_arg \<Rightarrow> int option" where
  "first_candidate now after =
     (case utc_of now after of Inl _ \<Rightarrow> None | Inr t \<Rightarrow> Some (t div 60000000 + 1))"

lemma next_run_is_due:
  assumes "next_run zones now expression after tz = Inr m" and "get_timezone zones tz = Inr zone"
  obtains sets where "parse expression = Inr sets" and "due sets zone m"
proof -
  from assms obtain sets c where p: "parse expression = Inr sets" "c < MAX_MINUTE"
    "scan sets zone max_iterations c = Inr m"
    by (auto simp: next_run_def add_minute_def split: sum.splits if_splits)
  with scan_outcome_holds [OF p(2), of sets zone max_iterations] that show ?thesis
    by (simp add: scan_outcome_def)
qed

text \<open>
  C24: the next run. For an expression that parses, a known zone and a starting instant, the search
  returns the earliest minute strictly after the instant whose local time matches all five fields
  and is not the second pass of a repeated hour; it reports failure only when the next 2,108,160
  minutes hold no such minute, and an overflow only when the calendar (or the zone's conversion) ends
  inside that window. What it returns also satisfies \<open>matches\<close> at its local time.
\<close>

theorem next_run_is_earliest:
  assumes "parse expression = Inr sets" and "get_timezone zones tz = Inr zone"
    and "first_candidate now after = Some c" and "c < MAX_MINUTE"
  shows "scan_outcome sets zone max_iterations c (next_run zones now expression after tz)
    \<and> (case next_run zones now expression after tz of
         Inl _ \<Rightarrow> True
       | Inr m \<Rightarrow> (case zone m of None \<Rightarrow> False
           | Some lt \<Rightarrow> \<not> lt_fold lt \<and> cron_matches expression lt = Inr True))"
proof -
  obtain t where t: "utc_of now after = Inr t" "c = t div 60000000 + 1"
    using assms(3) by (auto simp: first_candidate_def split: sum.splits)
  have run: "next_run zones now expression after tz = scan sets zone max_iterations c"
    using assms(1,2,4) t by (simp add: next_run_def add_minute_def)
  have out: "scan_outcome sets zone max_iterations c (scan sets zone max_iterations c)"
    by (rule scan_outcome_holds [OF assms(4)])
  show ?thesis unfolding run
  proof (intro conjI out)
    show "case scan sets zone max_iterations c of Inl _ \<Rightarrow> True
       | Inr m \<Rightarrow> (case zone m of None \<Rightarrow> False
           | Some lt \<Rightarrow> \<not> lt_fold lt \<and> cron_matches expression lt = Inr True)"
      using out assms(1)
      by (auto simp: scan_outcome_def due_def cron_matches_def split: sum.splits option.splits)
  qed
qed

text \<open>
  A zone with no offset that counts days as years, each a Monday the first of January; enough
  calendar for the witnesses.
\<close>

definition flat_zone :: zone where
  "flat_zone m = Some \<lparr>lt_year = m div 1440, lt_month = 1, lt_day = 1, lt_hour = (m div 60) mod 24,
     lt_minute = m mod 60, lt_isoweekday = 1, lt_fold = False\<rparr>"

definition demo_zones :: "string \<Rightarrow> zone option" where
  "demo_zones name = (if name = ''UTC'' then Some flat_zone else None)"

lemma demo_cron:
  "parse ''5 0 * * *'' = Inr [{5}, {0}, {1..31}, {1..12}, {0..6}]"
  "get_timezone demo_zones ''UTC'' = Inr flat_zone"
proof -
  let ?spec = "[[Value 5 None], [Value 0 None], [Any None], [Any None], [Any None]]"
  have shown: "show_nat 5 = ''5''" "show_nat 0 = ''0''"
    by (simp_all add: show_nat.simps digit_char_def char_of_def bit_0)
  have "join '' '' (map render_field ?spec) = ''5 0 * * *''"
    using shown by (simp add: render_field_def render_item_def)
  then have "parse ''5 0 * * *'' = parse (join '' '' (map render_field ?spec))" by (simp only:)
  also have "\<dots> = parse_fields (zip (map render_field ?spec) FIELD_RANGES)"
    using shown
    by (simp add: render_field_def render_item_def parse_def resolve_alias_def words_def is_space_def
        cp_def strip_def Let_def)
  also have "\<dots> = Inr [{5}, {0}, {1..31}, {1..12}, {0..6}]"
    by (auto simp: FIELD_RANGES_def parse_field_render item_ok_def field_meaning_def step_of_def)
  finally show "parse ''5 0 * * *'' = Inr [{5}, {0}, {1..31}, {1..12}, {0..6}]" .
  show "get_timezone demo_zones ''UTC'' = Inr flat_zone"
    by (simp add: get_timezone_def demo_zones_def strip_def is_space_def cp_def)
qed

lemma next_run_is_earliest_witness:
  "scan_outcome [{5}, {0}, {1..31}, {1..12}, {0..6}] flat_zone max_iterations 4
     (next_run demo_zones 0 ''5 0 * * *'' (After_Naive 200000000) ''UTC'')"
proof -
  have "first_candidate 0 (After_Naive 200000000) = Some 4" "(4::int) < MAX_MINUTE"
    by (simp_all add: first_candidate_def utc_of_def MAX_MINUTE_def)
  from next_run_is_earliest [OF demo_cron this] show ?thesis by simp
qed

text \<open>
  one run per local minute. If the zone determines an instant by its local clock and its fold
  flag, as every IANA zone does, then two next runs, of whatever expressions and starting points,
  that show the same local minute are the same instant: a wall-clock minute repeated by a fall-back
  is never run twice.
\<close>

theorem local_minute_runs_once:
  assumes zone: "\<And>m m'. zone m \<noteq> None \<Longrightarrow> zone m = zone m' \<Longrightarrow> m = m'"
    and "get_timezone zones tz = Inr zone"
    and "next_run zones now expression after tz = Inr m"
    and "next_run zones now' expression' after' tz = Inr m'"
    and "map_option (lt_fold_update (\<lambda>_. False)) (zone m) = map_option (lt_fold_update (\<lambda>_. False)) (zone m')"
  shows "m = m'"
proof -
  have first: "\<exists>lt. zone i = Some lt \<and> \<not> lt_fold lt"
    if run: "next_run zones n e a tz = Inr i" for n e a i
  proof -
    from next_run_is_due [OF run assms(2)] obtain sets where "due sets zone i" by metis
    then show ?thesis by (cases "zone i") (simp_all add: due_def)
  qed
  obtain lt lt' where "zone m = Some lt" "\<not> lt_fold lt" "zone m' = Some lt'" "\<not> lt_fold lt'"
    using first [OF assms(3)] first [OF assms(4)] by blast
  with assms(5) have "zone m = zone m'" by (cases lt; cases lt') simp
  with \<open>zone m = Some lt\<close> show ?thesis by (intro zone) simp_all
qed


lemma flat_zone_inject: "flat_zone m = flat_zone m' \<Longrightarrow> m = m'"
proof -
  have split: "k = 1440 * (k div 1440) + 60 * (k div 60 mod 24) + k mod 60" for k :: int
  proof -
    have "k = 60 * (k div 60) + k mod 60" by simp
    moreover have "k div 60 = 24 * (k div 60 div 24) + k div 60 mod 24" by simp
    moreover have "k div 60 div 24 = k div 1440" by (simp add: zdiv_zmult2_eq [symmetric])
    ultimately show ?thesis by linarith
  qed
  assume "flat_zone m = flat_zone m'"
  then have "m div 1440 = m' div 1440" "m div 60 mod 24 = m' div 60 mod 24" "m mod 60 = m' mod 60"
    by (simp_all add: flat_zone_def)
  then show "m = m'" using split [of m] split [of m'] by linarith
qed

lemma scan_now: "due sets zone c \<Longrightarrow> 0 < n \<Longrightarrow> scan sets zone n c = Inr c"
  by (cases n) (auto simp: due_def split: option.splits)

lemma demo_next_run:
  assumes "first_candidate now after = Some 5"
  shows "next_run demo_zones now ''5 0 * * *'' after ''UTC'' = Inr 5"
proof -
  have "due [{5}, {0}, {1..31}, {1..12}, {0..6}] flat_zone 5"
    by (simp add: due_def flat_zone_def matches_fields_def)
  then have "scan [{5}, {0}, {1..31}, {1..12}, {0..6}] flat_zone max_iterations 5 = Inr 5"
    by (rule scan_now) (simp add: max_iterations_def)
  with assms demo_cron show ?thesis
    by (auto simp: next_run_def first_candidate_def add_minute_def MAX_MINUTE_def split: sum.splits)
qed

lemma local_minute_runs_once_witness:
  "\<exists>m m'. next_run demo_zones 0 ''5 0 * * *'' (After_Naive 240000000) ''UTC'' = Inr m
     \<and> next_run demo_zones 299999999 ''5 0 * * *'' After_Now ''UTC'' = Inr m' \<and> m = m'"
proof -
  have runs: "next_run demo_zones 0 ''5 0 * * *'' (After_Naive 240000000) ''UTC'' = Inr 5"
    "next_run demo_zones 299999999 ''5 0 * * *'' After_Now ''UTC'' = Inr 5"
    by (rule demo_next_run, simp add: first_candidate_def utc_of_def)+
  have "(5::int) = 5"
    by (rule local_minute_runs_once [OF _ demo_cron(2) runs refl]) (rule flat_zone_inject)
  with runs show ?thesis by blast
qed

text \<open>
  A single value with the step 1 is the value alone, against the comment that a step given with a
  single value runs to the end of the field: \<open>5/1\<close> in the minutes is minute 5 only, while \<open>5/2\<close> is
  every second minute from 5 on.
\<close>

lemma value_with_step_one:
  "parse_field ''5/1'' 0 59 = Inr {5}" and "item_meaning 0 59 (Value 5 (Some 1)) = {5..59}"
  "parse_field ''5/2'' 0 59 = Inr {x. 5 \<le> x \<and> x \<le> 59 \<and> (x - 5) mod 2 = 0}"
proof -
  have r: "render_field [Value 5 (Some 2)] = ''5/2''"
    by (simp add: render_field_def render_item_def show_nat.simps digit_char_def char_of_def bit_0)
  have "item_ok 0 59 (Value 5 (Some 2))" by (simp add: item_ok_def show_nat.simps)
  then show "parse_field ''5/2'' 0 59 = Inr {x. 5 \<le> x \<and> x \<le> 59 \<and> (x - 5) mod 2 = 0}"
    using parse_field_render [of "[Value 5 (Some 2)]" 0 59] by (simp add: r field_meaning_def)
  show "item_meaning 0 59 (Value 5 (Some 1)) = {5..59}" by auto
  show "parse_field ''5/1'' 0 59 = Inr {5}" by code_simp
qed

end
