(* ===== verification/Failure_Streak.thy ===== *)
theory Failure_Streak
  imports Text
begin

text \<open>
  Model of \<open>kestrel_sovereign/features/scheduler/failure_streak.py\<close> and of the pause cause of
  \<open>scheduler/outcome.py\<close>: the durable streak of consecutive failures of a schedule, the marker raised
  at a threshold, and the growing delay after a failed permission hook. Durations are seconds.
\<close>

subsection \<open>The streak\<close>

record failure_streak =
  fs_count :: int
  fs_first_at :: "string option"
  fs_last_at :: "string option"
  fs_last_execution_id :: "string option"
  fs_flagged_at :: "string option"

definition no_streak :: failure_streak where
  "no_streak = \<lparr>fs_count = 0, fs_first_at = None, fs_last_at = None, fs_last_execution_id = None,
     fs_flagged_at = None\<rparr>"

text \<open>The five columns as stored, a null count read as zero.\<close>

type_synonym streak_row =
  "int option \<times> string option \<times> string option \<times> string option \<times> string option"

definition from_row :: "streak_row option \<Rightarrow> failure_streak" where
  "from_row row = (case row of
       None \<Rightarrow> no_streak
     | Some (count, first_at, last_at, last_execution_id, flagged_at) \<Rightarrow>
         \<lparr>fs_count = (case count of None \<Rightarrow> 0 | Some n \<Rightarrow> n), fs_first_at = first_at,
          fs_last_at = last_at, fs_last_execution_id = last_execution_id, fs_flagged_at = flagged_at\<rparr>)"

definition as_params :: "failure_streak \<Rightarrow> streak_row" where
  "as_params s = (Some (fs_count s), fs_first_at s, fs_last_at s, fs_last_execution_id s, fs_flagged_at s)"

definition FAILURE_STATUSES :: "string set" where
  "FAILURE_STATUSES = {''failed'', ''hook_failed''}"

text \<open>A stored time counts as present when it is a non-empty string.\<close>

definition present :: "string option \<Rightarrow> bool" where
  "present v \<longleftrightarrow> v \<noteq> None \<and> v \<noteq> Some []"

definition next_failure_streak ::
    "int \<Rightarrow> failure_streak \<Rightarrow> string \<times> string \<times> string \<Rightarrow> failure_streak" where
  "next_failure_streak threshold prior execution =
     (case execution of (status, at_time, execution_id) \<Rightarrow>
        if status = ''success'' then no_streak
        else if status \<notin> FAILURE_STATUSES then prior
        else let count = fs_count prior + 1 in
          prior\<lparr>fs_count := count,
            fs_first_at := (if fs_count prior \<noteq> 0 \<and> present (fs_first_at prior)
              then fs_first_at prior else Some at_time),
            fs_last_at := Some at_time, fs_last_execution_id := Some execution_id,
            fs_flagged_at := (if fs_flagged_at prior = None \<and> count \<ge> threshold
              then Some at_time else fs_flagged_at prior)\<rparr>)"

definition streak_flagged :: "failure_streak \<Rightarrow> failure_streak \<Rightarrow> bool" where
  "streak_flagged prior s \<longleftrightarrow> fs_flagged_at prior = None \<and> fs_flagged_at s \<noteq> None"

definition streak_recovered :: "failure_streak \<Rightarrow> failure_streak \<Rightarrow> bool" where
  "streak_recovered prior s \<longleftrightarrow> fs_flagged_at prior \<noteq> None \<and> fs_flagged_at s = None"

subsection \<open>The delay after a failed hook\<close>

definition int_bit_length :: "int \<Rightarrow> nat" where
  "int_bit_length n = bit_len (nat \<bar>n\<bar>)"

definition hook_failure_backoff :: "int \<Rightarrow> int \<Rightarrow> int \<Rightarrow> int" where
  "hook_failure_backoff consecutive_failures base_seconds max_seconds =
     (let base = max 0 base_seconds in
      if base = 0 then 0
      else let ceiling = max base max_seconds;
               exponent = nat (max 0 (consecutive_failures - 1))
           in if exponent \<ge> int_bit_length ceiling then ceiling
              else min ceiling (base * 2 ^ exponent))"

subsection \<open>The marker\<close>

definition FAILURE_SUMMARY_MAX_CHARS :: nat where "FAILURE_SUMMARY_MAX_CHARS = 500"

record failure_marker =
  fm_consecutive_failures :: int
  fm_first_failure_at :: "string option"
  fm_last_failure_at :: "string option"
  fm_last_error :: "string option"
  fm_flagged_at :: string

definition rstrip :: "string \<Rightarrow> string" where
  "rstrip s = rev (dropWhile is_space (rev s))"

text \<open>\<open>redact\<close> is the reader-side withholding of stored results, which belongs to the agent's privacy mode.\<close>

definition failure_streak_view ::
    "(string option \<Rightarrow> string option) \<Rightarrow> streak_row \<Rightarrow> int \<times> failure_marker option" where
  "failure_streak_view redact row =
     (case row of (count, first_at, last_at, flagged_at, last_result) \<Rightarrow>
        let n = (case count of None \<Rightarrow> 0 | Some n \<Rightarrow> n) in
        case flagged_at of
          None \<Rightarrow> (n, None)
        | Some flagged \<Rightarrow>
            let last_error = map_option (\<lambda>e. if length e > FAILURE_SUMMARY_MAX_CHARS
                  then rstrip (take (FAILURE_SUMMARY_MAX_CHARS - 3) e) @ ''...'' else e) (redact last_result)
            in (n, Some \<lparr>fm_consecutive_failures = n, fm_first_failure_at = first_at,
                 fm_last_failure_at = last_at, fm_last_error = last_error, fm_flagged_at = flagged\<rparr>))"

subsection \<open>The cause of a pause\<close>

definition BLOCKING_DECISIONS :: "string set" where "BLOCKING_DECISIONS = {''deny'', ''ask''}"

definition identifier_char :: "char \<Rightarrow> bool" where
  "identifier_char c \<longleftrightarrow>
     65 \<le> cp c \<and> cp c \<le> 90 \<or> 97 \<le> cp c \<and> cp c \<le> 122 \<or> is_digit c \<or> cp c \<in> {95, 46, 58, 45}"

definition pause_identifier :: "string option \<Rightarrow> string option" where
  "pause_identifier v = (case v of None \<Rightarrow> None
     | Some s \<Rightarrow> if list_all identifier_char s \<and> 1 \<le> length s \<and> length s \<le> 128 then Some s else None)"

type_synonym pause_cause = "string option \<times> string \<times> string option"

definition pause_cause_valid :: "pause_cause \<Rightarrow> bool" where
  "pause_cause_valid c \<longleftrightarrow> (case c of (hook, decision, tool) \<Rightarrow>
     decision \<in> BLOCKING_DECISIONS \<and> (hook = None \<or> pause_identifier hook \<noteq> None)
     \<and> (tool = None \<or> pause_identifier tool \<noteq> None))"

text \<open>\<open>PauseCause.of\<close> (\<open>None\<close>: the constructor raises) and \<open>PauseCause.from_row\<close>.\<close>

definition pause_cause_of :: "string option \<Rightarrow> string \<Rightarrow> string option \<Rightarrow> pause_cause option" where
  "pause_cause_of hook decision tool =
     (let c = (pause_identifier hook, decision, pause_identifier tool)
      in if pause_cause_valid c then Some c else None)"

definition pause_cause_from_row :: "(string option list) option \<Rightarrow> pause_cause option" where
  "pause_cause_from_row values = (case values of
       Some [hook, Some decision, tool] \<Rightarrow>
         if decision \<in> BLOCKING_DECISIONS then pause_cause_of hook decision tool else None
     | _ \<Rightarrow> None)"

definition pause_cause_params :: "pause_cause \<Rightarrow> string option list" where
  "pause_cause_params c = (case c of (hook, decision, tool) \<Rightarrow> [hook, Some decision, tool])"

subsection \<open>Properties\<close>

text \<open>The failures since the last success, as (time, execution) pairs in order.\<close>

fun trailing_failures :: "(string \<times> string) list \<Rightarrow> (string \<times> string \<times> string) list \<Rightarrow> (string \<times> string) list" where
  "trailing_failures acc [] = acc"
| "trailing_failures acc ((status, at_time, execution_id) # runs) =
     trailing_failures (if status = ''success'' then []
       else if status \<in> FAILURE_STATUSES then acc @ [(at_time, execution_id)] else acc) runs"

definition streak_of :: "nat \<Rightarrow> (string \<times> string) list \<Rightarrow> failure_streak" where
  "streak_of threshold fs =
     (if fs = [] then no_streak
      else \<lparr>fs_count = int (length fs), fs_first_at = Some (fst (hd fs)),
            fs_last_at = Some (fst (last fs)), fs_last_execution_id = Some (snd (last fs)),
            fs_flagged_at = (if threshold \<le> length fs then Some (fst (fs ! (threshold - 1))) else None)\<rparr>)"

lemma next_streak_of:
  assumes "1 \<le> threshold" and "fst (snd execution) \<noteq> []" and "list_all (\<lambda>f. fst f \<noteq> []) fs"
  shows "next_failure_streak (int threshold) (streak_of threshold fs) execution
    = streak_of threshold (trailing_failures fs [execution])"
proof -
  obtain status at_time ex where execution: "execution = (status, at_time, ex)" by (cases execution) auto
  consider "status = ''success''" | "status \<noteq> ''success''" "status \<notin> FAILURE_STATUSES"
    | "status \<noteq> ''success''" "status \<in> FAILURE_STATUSES" by blast
  then show ?thesis
  proof cases
    case 3
    show ?thesis
    proof (cases fs)
      case Nil
      with 3 assms show ?thesis
        by (auto simp: execution next_failure_streak_def streak_of_def no_streak_def Let_def)
    next
      case (Cons f fs')
      have idx: "(fs @ [(at_time, ex)]) ! (threshold - 1)
          = (if threshold \<le> length fs then fs ! (threshold - 1) else (at_time, ex))"
        if "threshold \<le> Suc (length fs)" using that assms(1) by (auto simp: nth_append)
      from Cons 3 assms idx show ?thesis
        by (auto simp: execution next_failure_streak_def streak_of_def Let_def present_def)
    qed
  qed (simp_all add: execution next_failure_streak_def streak_of_def)
qed

lemma trailing_failures_append:
  "trailing_failures acc (xs @ ys) = trailing_failures (trailing_failures acc xs) ys"
  by (induction acc xs rule: trailing_failures.induct) simp_all

lemma trailing_failures_times:
  "list_all (\<lambda>f. fst f \<noteq> []) acc \<Longrightarrow> list_all (\<lambda>r. fst (snd r) \<noteq> []) runs
    \<Longrightarrow> list_all (\<lambda>f. fst f \<noteq> []) (trailing_failures acc runs)"
  by (induction acc runs rule: trailing_failures.induct) auto

text \<open>
  C36: the durable streak is a faithful summary of the execution log. After any sequence of finalized
  executions (with their times and ids), the streak on the row counts exactly the failures since the
  last success, whatever other outcomes came in between; it names the first and the last of them, and
  it is flagged exactly when they reached the threshold, with the time of the failure that did so.
\<close>

theorem streak_summarises_log:
  assumes "1 \<le> threshold" and "list_all (\<lambda>r. fst (snd r) \<noteq> []) runs"
  shows "foldl (next_failure_streak (int threshold)) no_streak runs
    = streak_of threshold (trailing_failures [] runs)"
  using assms(2)
proof (induction runs rule: rev_induct)
  case Nil
  then show ?case by (simp add: streak_of_def)
next
  case (snoc execution runs)
  then have "list_all (\<lambda>f. fst f \<noteq> []) (trailing_failures [] runs)"
    by (intro trailing_failures_times) simp_all
  from next_streak_of [OF assms(1) _ this, of execution] snoc show ?case
    by (simp add: trailing_failures_append)
qed

lemma streak_summarises_log_witness:
  "fs_flagged_at (foldl (next_failure_streak 2) no_streak
     [(''failed'', ''t1'', ''e1''), (''success'', ''t2'', ''e2''), (''failed'', ''t3'', ''e3''),
      (''blocked'', ''t4'', ''e4''), (''hook_failed'', ''t5'', ''e5'')]) = Some ''t5''"
  using streak_summarises_log [of 2 "[(''failed'', ''t1'', ''e1''), (''success'', ''t2'', ''e2''),
      (''failed'', ''t3'', ''e3''), (''blocked'', ''t4'', ''e4''), (''hook_failed'', ''t5'', ''e5'')]"]
  by (simp add: streak_of_def FAILURE_STATUSES_def del: foldl_Cons)

text \<open>
  the backoff is the capped doubling. For every count of failures and every setting, cutting the
  exponent off at the bit length of the cap changes nothing: the delay is the base doubled once per
  further failure, capped; it never shrinks when the streak grows, it is never below the base nor
  above the larger of base and cap, and a base of zero or less means no delay.
\<close>

theorem backoff_is_capped_doubling:
  "hook_failure_backoff n base cap =
     (if base \<le> 0 then 0 else min (max base cap) (base * 2 ^ nat (n - 1)))
   \<and> hook_failure_backoff n base cap \<le> hook_failure_backoff (n + int k) base cap"
proof -
  have eq: "hook_failure_backoff m base cap =
      (if base \<le> 0 then 0 else min (max base cap) (base * 2 ^ nat (m - 1)))" for m
  proof (cases "base \<le> 0")
    case False
    define c where "c = max base cap"
    have "c < base * 2 ^ nat (m - 1)" if "int_bit_length c \<le> nat (m - 1)"
    proof -
      have "nat \<bar>c\<bar> < 2 ^ int_bit_length c" unfolding int_bit_length_def by (rule bit_len_upper)
      also have "\<dots> \<le> (2::nat) ^ nat (m - 1)" using that by (intro power_increasing) simp_all
      finally have "c < 2 ^ nat (m - 1)"
        using False by (simp add: c_def nat_less_iff)
      also have "\<dots> \<le> base * 2 ^ nat (m - 1)" using False by simp
      finally show ?thesis .
    qed
    moreover have "nat (max 0 (m - 1)) = nat (m - 1)" by simp
    ultimately show ?thesis using False
      by (auto simp: hook_failure_backoff_def Let_def c_def [symmetric])
  qed (simp add: hook_failure_backoff_def)
  have "base * 2 ^ nat (n - 1) \<le> base * 2 ^ nat (n + int k - 1)" if "\<not> base \<le> 0"
    using that by (intro mult_left_mono power_increasing) auto
  then have "min (max base cap) (base * 2 ^ nat (n - 1)) \<le> min (max base cap) (base * 2 ^ nat (n + int k - 1))"
    if "\<not> base \<le> 0" using that by (intro min.mono) auto
  then show ?thesis unfolding eq by (simp only: if_split) simp
qed

text \<open>What is stored is read back, and a pause cause survives its row.\<close>

lemma streak_row_roundtrip: "from_row (Some (as_params s)) = s"
  by (simp add: from_row_def as_params_def)

lemma pause_identifier_idem: "pause_identifier (pause_identifier v) = pause_identifier v"
  by (simp add: pause_identifier_def split: option.split)

lemma pause_cause_roundtrip:
  "pause_cause_of hook decision tool = Some c \<Longrightarrow> pause_cause_from_row (Some (pause_cause_params c)) = Some c"
proof -
  assume made: "pause_cause_of hook decision tool = Some c"
  then have c: "c = (pause_identifier hook, decision, pause_identifier tool)"
    by (simp add: pause_cause_of_def Let_def split: if_splits)
  with made have "decision \<in> BLOCKING_DECISIONS"
    by (simp add: pause_cause_of_def Let_def pause_cause_valid_def split: if_splits)
  with made show ?thesis unfolding c
    by (simp add: pause_cause_from_row_def pause_cause_params_def pause_cause_of_def pause_identifier_idem)
qed

end
