(* ===== verification/Constitution.thy ===== *)
theory Constitution
  imports Text "HOL-Library.List_Lexorder" "HOL-Library.Sublist"
begin

text \<open>
  Model of \<open>kestrel_sovereign/constitution/hierarchy.py\<close> (the four layers, the Amendment IX grants and
  the iron rule: lower layers narrow and never widen) and of the narrowing of spawned children in
  \<open>kestrel_sovereign/spawn/scoped_constitution.py\<close>. Verdicts carry the list of reasons in place of
  the message text; \<open>str\<close> of a container, \<open>float\<close> of a decimal text and SHA-256 are arguments.
\<close>

subsection \<open>Python values\<close>

text \<open>A float is its \<open>repr\<close> and how it compares with zero.\<close>

datatype float_sign = Negative | Zero | Positive | Not_A_Number

datatype pyval =
    PNone
  | PBool bool
  | PInt int
  | PFloat string float_sign
  | PStr string
  | PList "pyval list"
  | PTuple "pyval list"
  | PSet "pyval list"
  | PDict "(pyval \<times> pyval) list"

fun truthy :: "pyval \<Rightarrow> bool" where
  "truthy PNone \<longleftrightarrow> False"
| "truthy (PBool b) \<longleftrightarrow> b"
| "truthy (PInt n) \<longleftrightarrow> n \<noteq> 0"
| "truthy (PFloat r sign) \<longleftrightarrow> sign \<noteq> Zero"
| "truthy (PStr s) \<longleftrightarrow> s \<noteq> []"
| "truthy (PList xs) \<longleftrightarrow> xs \<noteq> []"
| "truthy (PTuple xs) \<longleftrightarrow> xs \<noteq> []"
| "truthy (PSet xs) \<longleftrightarrow> xs \<noteq> []"
| "truthy (PDict d) \<longleftrightarrow> d \<noteq> []"

fun is_list :: "pyval \<Rightarrow> bool" where "is_list (PList _) \<longleftrightarrow> True" | "is_list _ \<longleftrightarrow> False"
fun is_dict :: "pyval \<Rightarrow> bool" where "is_dict (PDict _) \<longleftrightarrow> True" | "is_dict _ \<longleftrightarrow> False"

text \<open>The items of a list, tuple or set; \<open>None\<close> for every other value.\<close>

fun sequence_items :: "pyval \<Rightarrow> pyval list option" where
  "sequence_items (PList xs) = Some xs"
| "sequence_items (PTuple xs) = Some xs"
| "sequence_items (PSet xs) = Some xs"
| "sequence_items _ = None"

type_synonym policy = "(string, pyval) dict"

text \<open>\<open>policy.get(key)\<close> used as a condition.\<close>

definition asks :: "policy \<Rightarrow> string \<Rightarrow> bool" where
  "asks policy key = (case dict_get policy key of None \<Rightarrow> False | Some v \<Rightarrow> truthy v)"

subsection \<open>Sections and lines of a text\<close>

fun find_sub :: "string \<Rightarrow> string \<Rightarrow> nat option" where
  "find_sub p [] = (if p = [] then Some 0 else None)"
| "find_sub p (c # s) = (if prefix p (c # s) then Some 0 else map_option Suc (find_sub p s))"

text \<open>The regular expression \<open>\\n#{1,level}\\s\<close> at the head of a text, and its first match.\<close>

definition heading_at :: "nat \<Rightarrow> string \<Rightarrow> bool" where
  "heading_at level s = (case s of [] \<Rightarrow> False
     | c # t \<Rightarrow> cp c = 10 \<and>
        (let k = length (takeWhile (\<lambda>d. cp d = 35) t)
         in 1 \<le> k \<and> k \<le> level \<and> (case drop k t of [] \<Rightarrow> False | d # _ \<Rightarrow> is_space d)))"

fun next_heading :: "nat \<Rightarrow> string \<Rightarrow> nat option" where
  "next_heading level [] = None"
| "next_heading level (c # s) =
     (if heading_at level (c # s) then Some 0 else map_option Suc (next_heading level s))"

definition extract_section :: "string \<Rightarrow> string \<Rightarrow> string" where
  "extract_section doc heading =
     (let level = length (takeWhile (\<lambda>d. cp d = 35) heading) in
      case find_sub heading doc of
        None \<Rightarrow> []
      | Some idx \<Rightarrow>
          (let body = drop (idx + length heading) doc in
           case next_heading level body of
             Some start \<Rightarrow> strip (take (length heading + start) (drop idx doc))
           | None \<Rightarrow> strip (drop idx doc)))"

text \<open>\<open>str.splitlines\<close>: the line boundaries of Latin-1 text, with \<open>\\r\\n\<close> as one.\<close>

definition is_linebreak :: "char \<Rightarrow> bool" where
  "is_linebreak c \<longleftrightarrow> cp c \<in> {10, 11, 12, 13, 28, 29, 30, 133}"

fun lines_from :: "string \<Rightarrow> string \<Rightarrow> string list" where
  "lines_from cur [] = (if cur = [] then [] else [rev cur])"
| "lines_from cur (c # s) =
     (if is_linebreak c then rev cur #
        (case s of [] \<Rightarrow> lines_from [] []
         | d # s' \<Rightarrow> if cp c = 13 \<and> cp d = 10 then lines_from [] s' else lines_from [] (d # s'))
      else lines_from (c # cur) s)"

definition splitlines :: "string \<Rightarrow> string list" where
  "splitlines s = lines_from [] s"

subsection \<open>Amendment IX\<close>

definition DANGEROUS_CAPABILITIES :: "string list" where
  "DANGEROUS_CAPABILITIES =
     [''filesystem_read'', ''filesystem_write'', ''filesystem_outside_workspace'',
      ''shell_execution_sandboxed'', ''shell_execution_host'']"

definition grant_of_line :: "string \<Rightarrow> string option" where
  "grant_of_line line =
     (let stripped = strip line in
      if \<not> prefix ''- [x] '' stripped then None
      else let name = strip (drop 6 stripped)
           in if name \<in> set DANGEROUS_CAPABILITIES then Some name else None)"

definition parse_amendment_ix_grants :: "string \<Rightarrow> string set" where
  "parse_amendment_ix_grants doc =
     (let section = extract_section doc ''### Amendment IX'' in
      if section = [] then {}
      else set (concat (map (\<lambda>l. case grant_of_line l of None \<Rightarrow> [] | Some n \<Rightarrow> [n]) (splitlines section))))"

subsection \<open>Layers and the iron rule\<close>

datatype layer = Universal_Values | Sovereign_Amendments | Enterprise_Policy | Agent_Identity

fun layer_number :: "layer \<Rightarrow> nat" where
  "layer_number Universal_Values = 1"
| "layer_number Sovereign_Amendments = 2"
| "layer_number Enterprise_Policy = 3"
| "layer_number Agent_Identity = 4"

text \<open>\<open>ConstitutionalLayer\<close> is an \<open>IntEnum\<close>: its members compare as their numbers.\<close>

lemma layer_number_inject: "layer_number l = layer_number m \<longleftrightarrow> l = m"
  by (cases l; cases m) simp_all

instantiation layer :: linorder
begin

definition less_eq_layer :: "layer \<Rightarrow> layer \<Rightarrow> bool" where
  "less_eq_layer l m \<longleftrightarrow> layer_number l \<le> layer_number m"

definition less_layer :: "layer \<Rightarrow> layer \<Rightarrow> bool" where
  "less_layer l m \<longleftrightarrow> layer_number l < layer_number m"

instance
  by standard (auto simp: less_eq_layer_def less_layer_def layer_number_inject)

end

lemmas layer_order = less_eq_layer_def less_layer_def

definition LAYER_MARKERS :: "(layer \<times> string) list" where
  "LAYER_MARKERS =
     [(Universal_Values, ''## Book I: Universal Values''),
      (Sovereign_Amendments, ''## Book II: The Sovereign Amendments''),
      (Enterprise_Policy, ''## Book III: Enterprise Policy''),
      (Agent_Identity, ''## Book IV: Agent Identity'')]"

record layer_data =
  ld_content :: string
  ld_constraints :: policy
  ld_metadata :: policy

record layered_constitution =
  lc_layers :: "(layer, layer_data) dict"
  lc_base_text :: string

definition from_constitution_text :: "string \<Rightarrow> layered_constitution" where
  "from_constitution_text doc =
     \<lparr>lc_layers = fold (\<lambda>(layer, marker). dict_put layer
        \<lparr>ld_content = extract_section doc marker, ld_constraints = [], ld_metadata = []\<rparr>) LAYER_MARKERS [],
      lc_base_text = doc\<rparr>"

definition set_layer ::
    "layer \<Rightarrow> string \<Rightarrow> policy option \<Rightarrow> policy option \<Rightarrow> layered_constitution \<Rightarrow> layered_constitution" where
  "set_layer layer content constraints metadata c =
     c\<lparr>lc_layers := dict_put layer
        \<lparr>ld_content = content, ld_constraints = (case constraints of None \<Rightarrow> [] | Some d \<Rightarrow> d),
         ld_metadata = (case metadata of None \<Rightarrow> [] | Some d \<Rightarrow> d)\<rparr> (lc_layers c)\<rparr>"

datatype reason =
    Asks string                 \<comment> \<open>a forbidden key is set\<close>
  | Extra_Features "string set"
  | Wrong_Type string
  | Nested "reason list"

text \<open>The reasons of a verdict; the policy is valid when there are none.\<close>

definition validate_enterprise_policy :: "policy \<Rightarrow> reason list" where
  "validate_enterprise_policy policy =
     map Asks (filter (asks policy)
       [''disable_honesty_properties'', ''override_sovereign_rights'', ''weaken_hard_constraints'',
        ''allow_deception'', ''disable_right_of_exit'', ''grant_capabilities''])"

definition validate_agent_identity :: "policy \<Rightarrow> reason list" where
  "validate_agent_identity identity =
     map Asks (filter (asks identity)
       [''override_constitution'', ''disable_audits'', ''bypass_enterprise_policy''])"

text \<open>\<open>None\<close>: the layers are in the wrong order and \<open>ValueError\<close> is raised.\<close>

definition validate_layer_narrowing :: "layer \<Rightarrow> layer \<Rightarrow> policy \<Rightarrow> reason list option" where
  "validate_layer_narrowing parent_layer child_layer child_policy =
     (if child_layer \<le> parent_layer then None
      else Some
       ((if asks child_policy ''grant_capabilities'' \<or> asks child_policy ''grant_features''
         then [Asks ''grant_capabilities''] else [])
        @ map Asks (filter (asks child_policy) [''override_constitution'', ''remove_restrictions''])
        @ (if parent_layer = Universal_Values
           then map Asks (filter (asks child_policy)
             [''disable_honesty_properties'', ''weaken_hard_constraints'']) else [])
        @ (if parent_layer \<le> Sovereign_Amendments
           then map Asks (filter (asks child_policy)
             [''override_sovereign_rights'', ''disable_right_of_exit'']) else [])))"

definition get_layer_hashes :: "(string \<Rightarrow> string) \<Rightarrow> layered_constitution \<Rightarrow> (layer \<times> string) list" where
  "get_layer_hashes sha256 c =
     map (\<lambda>(l, d). (l, sha256 (ld_content d))) (filter (\<lambda>(l, d). ld_content d \<noteq> []) (lc_layers c))"

definition verify_layer_integrity ::
    "(string \<Rightarrow> string) \<Rightarrow> layered_constitution \<Rightarrow> layer \<Rightarrow> string \<Rightarrow> bool" where
  "verify_layer_integrity sha256 c layer expected_hash =
     (case dict_get (lc_layers c) layer of
        None \<Rightarrow> False
      | Some d \<Rightarrow> \<not> sha256 (ld_content d) \<noteq> expected_hash)"


subsection \<open>Narrowing a spawned child\<close>

definition RESTRICTION_CONSTRAINTS :: "string list" where
  "RESTRICTION_CONSTRAINTS =
     [''read-only'', ''web-search-only'', ''no-wallet'', ''no-spawn'', ''no-memory-write'',
      ''no-file-access'', ''no-network'', ''no-tools'']"

definition FORBIDDEN_CONSTRAINT_KEYS :: "string list" where
  "FORBIDDEN_CONSTRAINT_KEYS = [''grant_features'', ''override_constitution'', ''remove_restrictions'']"

definition ascii_alnum :: "char \<Rightarrow> bool" where
  "ascii_alnum c \<longleftrightarrow> 65 \<le> cp c \<and> cp c \<le> 90 \<or> 97 \<le> cp c \<and> cp c \<le> 122 \<or> is_digit c"

text \<open>
  \<open>re.match\<close> of \<open>^[class]{1,n}$\<close>: the \<open>$\<close> also matches before one trailing newline.
\<close>

definition class_match :: "(char \<Rightarrow> bool) \<Rightarrow> nat \<Rightarrow> string \<Rightarrow> bool" where
  "class_match P n s \<longleftrightarrow>
     (\<exists>t \<in> {s, if s \<noteq> [] \<and> cp (last s) = 10 then butlast s else s}.
        list_all P t \<and> 1 \<le> length t \<and> length t \<le> n)"

definition safe_flag_key :: "string \<Rightarrow> bool" where
  "safe_flag_key = class_match (\<lambda>c. ascii_alnum c \<or> cp c \<in> {46, 95, 45}) 64"

definition safe_token :: "string \<Rightarrow> bool" where
  "safe_token = class_match (\<lambda>c. ascii_alnum c \<or> cp c \<in> {95, 46, 58, 47, 45}) 128"

definition is_safe_restriction_flag :: "pyval \<Rightarrow> pyval \<Rightarrow> bool" where
  "is_safe_restriction_flag key value =
     (case key of
        PStr k \<Rightarrow> k \<notin> set FORBIDDEN_CONSTRAINT_KEYS \<and> safe_flag_key k \<and>
          (case value of
             PBool b \<Rightarrow> b
           | PStr v \<Rightarrow> lower (strip v) \<in> set [''true'', ''1'', ''yes'', ''on'']
           | _ \<Rightarrow> False)
      | _ \<Rightarrow> False)"

text \<open>
  \<open>_nonneg_number\<close>: \<open>Inr None\<close> drops the value, \<open>Inl\<close> is the \<open>ValueError\<close> that \<open>int(value)\<close> can raise.
  \<open>to_float\<close> is \<open>float\<close> of a decimal text.
\<close>

datatype render_error = Render_Value_Error

definition decimal_text :: "string \<Rightarrow> bool" where
  "decimal_text s =
     (case split_first (CHR ''.'') s of
        None \<Rightarrow> s \<noteq> [] \<and> list_all is_digit s
      | Some (a, b) \<Rightarrow> a \<noteq> [] \<and> list_all is_digit a \<and> b \<noteq> [] \<and> list_all is_digit b)"

definition nonneg_number :: "(string \<Rightarrow> pyval option) \<Rightarrow> pyval \<Rightarrow> render_error + pyval option" where
  "nonneg_number to_float value =
     (case value of
        PInt n \<Rightarrow> Inr (if n \<ge> 0 then Some value else None)
      | PFloat r sign \<Rightarrow> Inr (if sign \<in> {Zero, Positive} then Some value else None)
      | PStr s \<Rightarrow>
          if decimal_text (strip s) then
            (if CHR ''.'' \<in> set s then
               (case to_float s of None \<Rightarrow> Inl Render_Value_Error | Some f \<Rightarrow> Inr (Some f))
             else (case py_int s of None \<Rightarrow> Inl Render_Value_Error | Some n \<Rightarrow> Inr (Some (PInt n))))
          else Inr None
      | _ \<Rightarrow> Inr None)"

text \<open>\<open>str(v)\<close>; containers through the argument.\<close>

definition show_int :: "int \<Rightarrow> string" where
  "show_int n = (if n < 0 then CHR ''-'' # show_nat (nat (- n)) else show_nat (nat n))"

fun py_str :: "(pyval \<Rightarrow> string) \<Rightarrow> pyval \<Rightarrow> string" where
  "py_str container PNone = ''None''"
| "py_str container (PBool b) = (if b then ''True'' else ''False'')"
| "py_str container (PInt n) = show_int n"
| "py_str container (PFloat r sign) = r"
| "py_str container (PStr s) = s"
| "py_str container v = container v"

definition safe_tokens :: "(pyval \<Rightarrow> string) \<Rightarrow> pyval list \<Rightarrow> string list" where
  "safe_tokens container items = filter safe_token (map (\<lambda>v. strip (py_str container v)) items)"

definition items_of :: "pyval \<Rightarrow> pyval list" where
  "items_of value = (case sequence_items value of Some xs \<Rightarrow> xs | None \<Rightarrow> [value])"

definition sanitize_arg_spec :: "(pyval \<Rightarrow> string) \<Rightarrow> (pyval \<times> pyval) list \<Rightarrow> (pyval \<times> pyval) list" where
  "sanitize_arg_spec container spec =
     concat (map (\<lambda>(arg_name, allowed).
       case arg_name of
         PStr a \<Rightarrow>
           (if \<not> safe_flag_key a then []
            else let values = safe_tokens container (items_of allowed)
                 in if values = [] then []
                    else [(PStr a, PList (map PStr (sort (remdups values))))])
       | _ \<Rightarrow> []) spec)"

definition sanitize_tool_args :: "(pyval \<Rightarrow> string) \<Rightarrow> pyval \<Rightarrow> (pyval \<times> pyval) list" where
  "sanitize_tool_args container value =
     (case value of
        PDict d \<Rightarrow>
          concat (map (\<lambda>(tool_name, arg_spec).
            case tool_name of
              PStr t \<Rightarrow>
                (if \<not> safe_flag_key t then []
                 else (case arg_spec of
                         PDict spec \<Rightarrow>
                           (let clean_args = sanitize_arg_spec container spec
                            in if clean_args = [] then [] else [(PStr t, PDict clean_args)])
                       | _ \<Rightarrow> []))
            | _ \<Rightarrow> []) d)
      | _ \<Rightarrow> [])"

definition sanitize_entry ::
    "(pyval \<Rightarrow> string) \<Rightarrow> (string \<Rightarrow> pyval option) \<Rightarrow> pyval \<Rightarrow> pyval \<Rightarrow> render_error + pyval option" where
  "sanitize_entry container to_float key value =
     (if key \<in> PStr ` set FORBIDDEN_CONSTRAINT_KEYS then Inr None
      else if key = PStr ''behavioral_rules'' then
        Inr (if (is_list value \<or> is_dict value) \<and> truthy value then Some value else None)
      else if key = PStr ''allowed_tools'' \<or> key = PStr ''restricted_tools'' then
        (if key = PStr ''allowed_tools'' \<and> sequence_items value = None then Inr None
         else let tools = safe_tokens container (items_of value)
              in Inr (if tools \<noteq> [] \<or> key = PStr ''allowed_tools''
                      then Some (PList (map PStr tools)) else None))
      else if key = PStr ''restricted_tool_args'' then
        (let tool_args = sanitize_tool_args container value
         in Inr (if tool_args = [] then None else Some (PDict tool_args)))
      else if key = PStr ''max_tokens'' then nonneg_number to_float value
      else if key \<in> PStr ` set RESTRICTION_CONSTRAINTS then Inr (Some value)
      else if is_safe_restriction_flag key value then Inr (Some value)
      else Inr None)"

fun sanitize_render_constraints ::
    "(pyval \<Rightarrow> string) \<Rightarrow> (string \<Rightarrow> pyval option) \<Rightarrow> (pyval \<times> pyval) list
     \<Rightarrow> render_error + (pyval \<times> pyval) list" where
  "sanitize_render_constraints container to_float [] = Inr []"
| "sanitize_render_constraints container to_float ((key, value) # raw) =
     (case sanitize_entry container to_float key value of
        Inl e \<Rightarrow> Inl e
      | Inr v \<Rightarrow>
          (case sanitize_render_constraints container to_float raw of
             Inl e \<Rightarrow> Inl e
           | Inr clean \<Rightarrow> Inr ((case v of None \<Rightarrow> [] | Some v \<Rightarrow> [(key, v)]) @ clean)))"

record scoped_constitution =
  sc_additional_constraints :: "(pyval \<times> pyval) list"
  sc_features_allowed :: "string list"
  sc_parent_features :: "string set"
  sc_enterprise_policy :: policy
  sc_agent_identity :: policy

definition bad_number :: "pyval \<Rightarrow> bool" where
  "bad_number value = (case value of
       PInt n \<Rightarrow> n < 0
     | PBool b \<Rightarrow> False
     | PFloat r sign \<Rightarrow> sign = Negative
     | _ \<Rightarrow> True)"

definition constraint_reasons :: "pyval \<Rightarrow> pyval \<Rightarrow> reason list" where
  "constraint_reasons key value =
     (case key of
        PStr k \<Rightarrow>
          (if k \<in> set FORBIDDEN_CONSTRAINT_KEYS then [Asks k]
           else if k = ''behavioral_rules'' then
             (if is_list value \<or> is_dict value then [] else [Wrong_Type k])
           else if k = ''restricted_tools'' \<or> k = ''allowed_tools'' then
             (if is_list value then [] else [Wrong_Type k])
           else if k = ''restricted_tool_args'' then
             (case value of
                PDict d \<Rightarrow> map (\<lambda>_. Wrong_Type k) (filter (\<lambda>(tool, spec). \<not> is_dict spec) d)
              | _ \<Rightarrow> [Wrong_Type k])
           else if k = ''max_tokens'' then (if bad_number value then [Wrong_Type k] else [])
           else [])
      | _ \<Rightarrow> [])"

definition validate_constraints :: "scoped_constitution \<Rightarrow> reason list" where
  "validate_constraints c =
     (if sc_features_allowed c \<noteq> [] \<and> sc_parent_features c \<noteq> {}
        \<and> set (sc_features_allowed c) - sc_parent_features c \<noteq> {}
      then [Extra_Features (set (sc_features_allowed c) - sc_parent_features c)] else [])
     @ concat (map (\<lambda>(key, value). constraint_reasons key value) (sc_additional_constraints c))
     @ (if sc_enterprise_policy c \<noteq> [] \<and> validate_enterprise_policy (sc_enterprise_policy c) \<noteq> []
        then [Nested (validate_enterprise_policy (sc_enterprise_policy c))] else [])
     @ (if sc_agent_identity c \<noteq> [] \<and> validate_agent_identity (sc_agent_identity c) \<noteq> []
        then [Nested (validate_agent_identity (sc_agent_identity c))] else [])"


subsection \<open>Grants\<close>

lemma dropWhile_split: "\<exists>a. s = a @ dropWhile P s \<and> list_all P a"
  by (metis list_all_iff set_takeWhileD takeWhile_dropWhile_id)

lemma strip_split: "\<exists>a b. s = a @ strip s @ b \<and> list_all is_space a"
proof -
  obtain a where a: "s = a @ dropWhile is_space s" "list_all is_space a"
    using dropWhile_split [of s is_space] by blast
  obtain b where b: "rev (dropWhile is_space s) = b @ dropWhile is_space (rev (dropWhile is_space s))"
    using dropWhile_split [of "rev (dropWhile is_space s)" is_space] by blast
  have "dropWhile is_space s = strip s @ rev b"
    unfolding strip_def using arg_cong [OF b, of rev] by simp
  with a show ?thesis by (intro exI [of _ a] exI [of _ "rev b"]) simp
qed

lemma sublist_strip: "sublist (strip s) s"
  using strip_split [of s] unfolding sublist_def by blast

lemma lines_from_sublist: "l \<in> set (lines_from cur s) \<Longrightarrow> sublist l (rev cur @ s)"
proof (induction cur s rule: lines_from.induct)
  case (1 cur)
  then show ?case by (auto split: if_splits)
next
  case (2 cur c s)
  show ?case
  proof (cases "is_linebreak c")
    case brk: True
    have tail: "sublist l (rev cur @ c # t)" if "sublist l t" for t
    proof -
      from that obtain a b where "t = a @ l @ b" unfolding sublist_def by blast
      then have "rev cur @ c # t = (rev cur @ c # a) @ l @ b" by simp
      then show ?thesis unfolding sublist_def by blast
    qed
    show ?thesis
    proof (cases "l = rev cur")
      case True
      then show ?thesis by (simp add: sublist_append_rightI)
    next
      case False
      show ?thesis
      proof (cases s)
        case Nil
        with 2 brk False show ?thesis by simp
      next
        case (Cons d s')
        have "sublist l s"
        proof (cases "cp c = 13 \<and> cp d = 10")
          case True
          with 2 brk False Cons have "sublist l s'" by simp
          then obtain a b where "s' = a @ l @ b" unfolding sublist_def by blast
          then have "s = (d # a) @ l @ b" using Cons by simp
          then show ?thesis unfolding sublist_def by blast
        next
          case False2: False
          with 2 brk False Cons show ?thesis by simp
        qed
        then show ?thesis by (rule tail)
      qed
    qed
  next
    case False
    with 2 show ?thesis by simp
  qed
qed

lemma sublist_take: "sublist (take n s) s"
  by (metis append_take_drop_id sublist_append_rightI)

lemma sublist_drop: "sublist (drop n s) s"
  by (metis append_take_drop_id sublist_append_leftI)

lemma extract_section_sublist: "sublist (extract_section doc heading) doc"
proof (cases "find_sub heading doc")
  case (Some idx)
  have "sublist (strip (take n (drop idx doc))) doc" "sublist (strip (drop idx doc)) doc" for n
    by (meson sublist_drop sublist_order.order_trans sublist_strip sublist_take)+
  with Some show ?thesis by (simp add: extract_section_def Let_def split: option.split)
qed (simp add: extract_section_def)

lemma grant_of_line_text:
  assumes "grant_of_line line = Some n"
  shows "n \<in> set DANGEROUS_CAPABILITIES
    \<and> (\<exists>spaces. list_all is_space spaces \<and> sublist (''- [x] '' @ spaces @ n) line)"
proof -
  from assms obtain t where t: "strip line = ''- [x] '' @ t" "n = strip t"
    "n \<in> set DANGEROUS_CAPABILITIES"
    by (auto simp: grant_of_line_def Let_def prefix_def split: if_splits)
  obtain a b where "t = a @ n @ b" "list_all is_space a" using strip_split [of t] t(2) by blast
  then have "strip line = [] @ (''- [x] '' @ a @ n) @ b" unfolding t(1) by simp
  then have "sublist (''- [x] '' @ a @ n) (strip line)" unfolding sublist_def by blast
  then have "sublist (''- [x] '' @ a @ n) line" using sublist_strip by (rule sublist_order.order_trans)
  with t(3) \<open>list_all is_space a\<close> show ?thesis by blast
qed

text \<open>
  no grant without its checkbox. Every capability that the parser of a constitution returns is one
  of the five governed by Amendment IX, and the text literally contains a list item with a lowercase
  \<open>[x]\<close> followed by that capability's name; and a text without the Amendment IX heading grants nothing.
\<close>

theorem grants_need_checkbox:
  assumes "n \<in> parse_amendment_ix_grants doc"
  shows "n \<in> set DANGEROUS_CAPABILITIES
    \<and> (\<exists>spaces. list_all is_space spaces \<and> sublist (''- [x] '' @ spaces @ n) doc)
    \<and> find_sub ''### Amendment IX'' doc \<noteq> None"
proof -
  from assms obtain line where line: "line \<in> set (splitlines (extract_section doc ''### Amendment IX''))"
    "grant_of_line line = Some n" and ne: "extract_section doc ''### Amendment IX'' \<noteq> []"
    by (auto simp: parse_amendment_ix_grants_def Let_def split: if_splits option.splits)
  have "sublist line doc"
    using lines_from_sublist [OF line(1) [unfolded splitlines_def]] extract_section_sublist
    by (simp, meson sublist_order.order_trans)
  moreover have "find_sub ''### Amendment IX'' doc \<noteq> None"
    using ne by (cases "find_sub ''### Amendment IX'' doc") (simp_all add: extract_section_def)
  ultimately show ?thesis using grant_of_line_text [OF line(2)] by (meson sublist_order.order_trans)
qed


text \<open>A document that is searched stays the same up to its first match when text is appended.\<close>

lemma find_sub_append: "find_sub p s = Some i \<Longrightarrow> find_sub p (s @ t) = Some i \<and> i + length p \<le> length s"
proof (induction s arbitrary: i)
  case Nil
  then have "p = []" "i = 0" by (auto split: if_splits)
  then show ?case by (cases t) simp_all
next
  case (Cons c s)
  show ?case
  proof (cases "prefix p (c # s)")
    case True
    then have "prefix p ((c # s) @ t)" by (rule prefix_prefix)
    with True Cons.prems prefix_length_le [OF True] show ?thesis by simp
  next
    case False
    with Cons.prems obtain j where j: "find_sub p s = Some j" "i = Suc j" by auto
    from Cons.IH [OF j(1)] have ih: "find_sub p (s @ t) = Some j" "j + length p \<le> length s" by simp_all
    have "\<not> prefix p ((c # s) @ t)"
    proof
      assume p: "prefix p ((c # s) @ t)"
      have "prefix (c # s) ((c # s) @ t)" by simp
      with p have "prefix p (c # s) \<or> prefix (c # s) p" by (rule prefix_same_cases)
      with False have "prefix (c # s) p" by simp
      then have "length (c # s) \<le> length p" by (rule prefix_length_le)
      with ih(2) show False by simp
    qed
    with ih j show ?thesis by simp
  qed
qed
lemma heading_at_append:
  assumes "t \<noteq> []" and "cp (hd t) = 10" and "s \<noteq> [] \<Longrightarrow> cp (last s) \<noteq> 35"
  shows "heading_at level ((c # s) @ t) = heading_at level (c # s)"
proof (cases "s = []")
  case True
  then show ?thesis using assms(1,2) by (cases t) (simp_all add: heading_at_def Let_def)
next
  case False
  then have "last s \<in> set s" and stop: "\<not> cp (last s) = 35" using assms(3) by simp_all
  then have tw: "takeWhile (\<lambda>d. cp d = 35) (s @ t) = takeWhile (\<lambda>d. cp d = 35) s" by (rule takeWhile_append1)
  define k where "k = length (takeWhile (\<lambda>d. cp d = 35) s)"
  have "k < length s"
  proof (rule ccontr)
    assume "\<not> k < length s"
    then have "takeWhile (\<lambda>d. cp d = 35) s = s"
      by (metis k_def length_takeWhile_le linorder_not_less nat_less_le takeWhile_eq_take take_all_iff)
    then have "\<forall>d \<in> set s. cp d = 35" by (metis set_takeWhileD)
    with \<open>last s \<in> set s\<close> stop show False by blast
  qed
  then have "drop k s \<noteq> []" and "drop k (s @ t) = drop k s @ t" by simp_all
  then obtain d r where "drop k s = d # r" "drop k (s @ t) = d # (r @ t)" by (cases "drop k s") auto
  then show ?thesis unfolding heading_at_def using tw by (simp add: Let_def k_def)
qed

lemma next_heading_append:
  assumes "heading_at level t" and "s \<noteq> [] \<Longrightarrow> cp (last s) \<noteq> 35"
  shows "next_heading level (s @ t) =
    (case next_heading level s of Some i \<Rightarrow> Some i | None \<Rightarrow> Some (length s))"
  using assms(2)
proof (induction s)
  case Nil
  then show ?case using assms(1) by (cases t) (simp_all add: heading_at_def)
next
  case (Cons c s)
  have t: "t \<noteq> []" "cp (hd t) = 10" using assms(1) by (cases t; simp add: heading_at_def)+
  have last: "s \<noteq> [] \<Longrightarrow> cp (last s) \<noteq> 35" using Cons.prems by (cases s) auto
  from heading_at_append [OF t last, of level c] Cons.IH [OF last] show ?case
    by (auto split: option.splits)
qed

lemma extract_section_append:
  assumes "find_sub heading doc \<noteq> None" and "heading_at (length (takeWhile (\<lambda>d. cp d = 35) heading)) extra"
    and "doc \<noteq> [] \<Longrightarrow> cp (last doc) \<noteq> 35"
  shows "extract_section (doc @ extra) heading = extract_section doc heading"
proof -
  from assms(1) obtain idx where idx: "find_sub heading doc = Some idx" by auto
  from find_sub_append [OF idx, of extra] have idx': "find_sub heading (doc @ extra) = Some idx"
    and len: "idx + length heading \<le> length doc" by simp_all
  define body where "body = drop (idx + length heading) doc"
  have last: "body \<noteq> [] \<Longrightarrow> cp (last body) \<noteq> 35"
    using assms(3) len unfolding body_def by (metis drop_Nil last_drop linorder_not_le drop_eq_Nil2)
  have app: "drop (idx + length heading) (doc @ extra) = body @ extra" using len by (simp add: body_def)
  have next_eq: "next_heading (length (takeWhile (\<lambda>d. cp d = 35) heading)) (body @ extra) =
    (case next_heading (length (takeWhile (\<lambda>d. cp d = 35) heading)) body of
       Some i \<Rightarrow> Some i | None \<Rightarrow> Some (length body))"
    by (rule next_heading_append [OF assms(2) last])
  have bound: "i \<le> length b" if "next_heading l b = Some i" for l b i
    using that by (induction b arbitrary: i) (auto split: if_splits)
  show ?thesis
  proof (cases "next_heading (length (takeWhile (\<lambda>d. cp d = 35) heading)) body")
    case None
    have "take (length heading + length body) (drop idx (doc @ extra)) = drop idx doc"
      using len by (simp add: body_def)
    then show ?thesis using None next_eq
      by (simp add: extract_section_def idx idx' app body_def [symmetric] del: drop_append take_append)
  next
    case (Some i)
    from bound [OF this] have "length heading + i \<le> length (drop idx doc)"
      using len by (simp add: body_def)
    then have "take (length heading + i) (drop idx (doc @ extra)) = take (length heading + i) (drop idx doc)"
      using len by simp
    then show ?thesis using Some next_eq
      by (simp add: extract_section_def idx idx' app body_def [symmetric] del: drop_append take_append)
  qed
qed

text \<open>
  text after the section grants nothing. If a constitution contains the Amendment IX heading and
  does not end with a hash sign, then appending any text that starts a new heading of the same or a
  higher level (one to three hash signs and a space), such as a lower Book or another amendment,
  leaves the granted capabilities exactly as they were.
\<close>

theorem later_sections_grant_nothing:
  assumes "find_sub ''### Amendment IX'' doc \<noteq> None" and "heading_at 3 extra" and "cp (last doc) \<noteq> 35"
  shows "parse_amendment_ix_grants (doc @ extra) = parse_amendment_ix_grants doc"
proof -
  have "length (takeWhile (\<lambda>d. cp d = 35) ''### Amendment IX'') = 3" by (simp add: cp_def)
  with assms extract_section_append [of "''### Amendment IX''" doc extra]
  have "extract_section (doc @ extra) ''### Amendment IX'' = extract_section doc ''### Amendment IX''" by metis
  then show ?thesis by (simp add: parse_amendment_ix_grants_def)
qed

text \<open>A constitution with one grant, for the witnesses; the book after it lists another in vain.\<close>

definition demo_amendment :: string where
  "demo_amendment = ''### Amendment IX'' @ [CHR 0x0A] @ ''- [x] filesystem_read''"

definition demo_book :: string where
  "demo_book = [CHR 0x0A] @ ''## Book III'' @ [CHR 0x0A] @ ''- [x] filesystem_write''"

lemma demo_grants: "parse_amendment_ix_grants demo_amendment = {''filesystem_read''}"
  by (simp add: demo_amendment_def parse_amendment_ix_grants_def extract_section_def heading_at_def
      strip_def is_space_def cp_def splitlines_def is_linebreak_def grant_of_line_def
      DANGEROUS_CAPABILITIES_def Let_def)

lemma grants_need_checkbox_witness:
  "\<exists>spaces. list_all is_space spaces \<and> sublist (''- [x] '' @ spaces @ ''filesystem_read'') demo_amendment"
  using grants_need_checkbox [of "''filesystem_read''" demo_amendment] demo_grants by simp

lemma later_sections_grant_nothing_witness:
  "parse_amendment_ix_grants (demo_amendment @ demo_book) = {''filesystem_read''}"
proof -
  have "find_sub ''### Amendment IX'' demo_amendment \<noteq> None" "cp (last demo_amendment) \<noteq> 35"
    by (simp_all add: demo_amendment_def cp_def)
  moreover have "heading_at 3 demo_book"
    by (simp add: demo_book_def heading_at_def cp_def is_space_def Let_def)
  ultimately show ?thesis using later_sections_grant_nothing demo_grants by simp
qed

text \<open>A checked box anywhere in the amendment grants, also outside \<open>#### Granted Capabilities\<close>.\<close>

lemma grant_outside_the_granted_subsection:
  "parse_amendment_ix_grants
     (''### Amendment IX'' @ [CHR 0x0A] @ ''Never write:'' @ [CHR 0x0A] @ ''- [x] shell_execution_host''
      @ [CHR 0x0A] @ ''#### Granted Capabilities'' @ [CHR 0x0A] @ ''- [ ] filesystem_read'')
   = {''shell_execution_host''}"
  by (simp add: parse_amendment_ix_grants_def extract_section_def heading_at_def
      strip_def is_space_def cp_def splitlines_def is_linebreak_def grant_of_line_def
      DANGEROUS_CAPABILITIES_def Let_def)


subsection \<open>Narrowing of the layers\<close>

text \<open>
  narrowing is hereditary. A policy that passes the iron rule for a lower layer under some upper
  layer asks for no capability, feature, constitution override or removal of restrictions; it passes
  the rule under every layer between the two; and if the upper layer is Book I, the check of Book III
  can object to nothing but \<open>allow_deception\<close>.
\<close>

theorem narrowing_is_hereditary:
  assumes "validate_layer_narrowing p c policy = Some []"
    and "p \<le> m" and "m < c"
  shows "validate_layer_narrowing m c policy = Some []
    \<and> (\<forall>key \<in> {''grant_capabilities'', ''grant_features'', ''override_constitution'', ''remove_restrictions''}.
        \<not> asks policy key)
    \<and> (p = Universal_Values \<longrightarrow> set (validate_enterprise_policy policy) \<subseteq> {Asks ''allow_deception''})"
proof -
  have order: "p = Universal_Values" if "m = Universal_Values"
    using assms(2) that by (cases p) (simp_all add: layer_order)
  have top: "Universal_Values \<le> Sovereign_Amendments" by (simp add: layer_order)
  from assms show ?thesis using order top
    by (auto simp: validate_layer_narrowing_def validate_enterprise_policy_def filter_empty_conv
        split: if_splits dest: order_trans leD)
qed

lemma narrowing_is_hereditary_witness:
  "validate_layer_narrowing Sovereign_Amendments Agent_Identity [(''behavioral_rules'', PList [PStr ''polite''])] = Some []
   \<and> validate_enterprise_policy [(''behavioral_rules'', PList [PStr ''polite''])] = []"
proof -
  let ?p = "[(''behavioral_rules'', PList [PStr ''polite''])]"
  have "validate_layer_narrowing Universal_Values Agent_Identity ?p = Some []"
    by (simp add: validate_layer_narrowing_def asks_def dict_get_def layer_order)
  from narrowing_is_hereditary [OF this, of Sovereign_Amendments] show ?thesis
    by (simp add: validate_enterprise_policy_def asks_def dict_get_def layer_order)
qed

text \<open>Book III's own check passes a policy that grants features, which the iron rule refuses.\<close>

lemma enterprise_check_misses_widening:
  "validate_enterprise_policy [(''grant_features'', PList [PStr ''x''])] = []
   \<and> validate_layer_narrowing Universal_Values Enterprise_Policy [(''grant_features'', PList [PStr ''x''])]
     = Some [Asks ''grant_capabilities'']"
  by (simp add: validate_enterprise_policy_def validate_layer_narrowing_def asks_def dict_get_def layer_order)

text \<open>A child of a parent with no features is given any feature it names.\<close>

lemma featureless_parent_bounds_nothing:
  "validate_constraints \<lparr>sc_additional_constraints = [], sc_features_allowed = [''shell''],
     sc_parent_features = {}, sc_enterprise_policy = [], sc_agent_identity = []\<rparr> = []"
  by (simp add: validate_constraints_def)

subsection \<open>Sanitising what is rendered\<close>

lemma dropWhile_keeps: "c \<in> set s \<Longrightarrow> P c \<or> c \<in> set (dropWhile P s)"
  by (induction s) auto

lemma strip_keeps: "c \<in> set s \<Longrightarrow> is_space c \<or> c \<in> set (strip s)"
  using dropWhile_keeps [of c s is_space] dropWhile_keeps [of c "rev (dropWhile is_space s)" is_space]
  by (auto simp: strip_def)

lemma strip_idem [simp]: "strip (strip s) = strip s"
proof (cases "strip s = []")
  case True
  moreover have "strip [] = []" by (simp add: strip_def)
  ultimately show ?thesis by simp
next
  case False
  let ?d = "dropWhile is_space s"
  obtain b where "rev ?d = b @ dropWhile is_space (rev ?d)"
    using dropWhile_split [of "rev ?d" is_space] by blast
  then have "?d = strip s @ rev b" unfolding strip_def by (metis rev_append rev_rev_ident)
  then have "hd (strip s) = hd ?d" and "?d \<noteq> []" using False by auto
  then have "\<not> is_space (hd (strip s))" using hd_dropWhile by metis
  moreover have "\<not> is_space (last (strip s))"
    using False unfolding strip_def by (metis hd_dropWhile last_rev rev_is_Nil_conv)
  ultimately show ?thesis using False by (intro strip_ends)
qed

text \<open>The clean tokens are a fixed point of the cleaning.\<close>

definition clean_token :: "string \<Rightarrow> bool" where
  "clean_token t \<longleftrightarrow> safe_token t \<and> strip t = t"

lemma safe_tokens_clean: "t \<in> set (safe_tokens container xs) \<Longrightarrow> clean_token t"
  by (auto simp: safe_tokens_def clean_token_def)

lemma safe_tokens_fixed: "list_all clean_token ts \<Longrightarrow> safe_tokens container (map PStr ts) = ts"
  by (induction ts) (auto simp: safe_tokens_def clean_token_def)

lemma items_of_list [simp]: "items_of (PList xs) = xs"
  by (simp add: items_of_def)

lemma sanitize_arg_spec_fixed:
  "sanitize_arg_spec container (sanitize_arg_spec container spec) = sanitize_arg_spec container spec"
proof (induction spec)
  case (Cons entry spec)
  obtain name allowed where e: "entry = (name, allowed)" by (cases entry)
  have app: "sanitize_arg_spec container (xs @ ys) =
    sanitize_arg_spec container xs @ sanitize_arg_spec container ys" for xs ys
    by (simp add: sanitize_arg_spec_def)
  have "sanitize_arg_spec container (sanitize_arg_spec container [entry]) = sanitize_arg_spec container [entry]"
  proof (cases "\<exists>a. name = PStr a \<and> safe_flag_key a \<and> safe_tokens container (items_of allowed) \<noteq> []")
    case True
    then obtain a where a: "name = PStr a" "safe_flag_key a" "safe_tokens container (items_of allowed) \<noteq> []"
      by blast
    define ts where "ts = sort (remdups (safe_tokens container (items_of allowed)))"
    have "list_all clean_token ts" unfolding ts_def list_all_iff using safe_tokens_clean by auto
    then have "safe_tokens container (map PStr ts) = ts" by (rule safe_tokens_fixed)
    moreover have "sort (remdups ts) = ts" unfolding ts_def
      by (simp add: distinct_remdups_id sorted_sort_id)
    moreover have "ts \<noteq> []" unfolding ts_def using a(3) by (metis set_empty set_remdups set_sort)
    ultimately show ?thesis using a
      by (simp add: e sanitize_arg_spec_def ts_def [symmetric])
  next
    case False
    then show ?thesis by (auto simp: e sanitize_arg_spec_def Let_def split: pyval.splits)
  qed
  then show ?case using Cons app [of "[entry]" spec] app by simp
qed (simp add: sanitize_arg_spec_def)

lemma sanitize_tool_args_fixed:
  "sanitize_tool_args container (PDict (sanitize_tool_args container value)) = sanitize_tool_args container value"
proof (cases "value")
  case (PDict d)
  have app: "sanitize_tool_args container (PDict (xs @ ys)) =
    sanitize_tool_args container (PDict xs) @ sanitize_tool_args container (PDict ys)" for xs ys
    by (simp add: sanitize_tool_args_def)
  have "sanitize_tool_args container (PDict (sanitize_tool_args container (PDict d))) =
    sanitize_tool_args container (PDict d)"
  proof (induction d)
    case (Cons entry d)
    obtain name spec where e: "entry = (name, spec)" by (cases entry)
    have "sanitize_tool_args container (PDict (sanitize_tool_args container (PDict [entry]))) =
      sanitize_tool_args container (PDict [entry])"
      by (auto simp: e sanitize_tool_args_def Let_def sanitize_arg_spec_fixed split: pyval.splits)
    then show ?case using Cons app [of "[entry]" d] app by simp
  qed (simp add: sanitize_tool_args_def)
  then show ?thesis using PDict by simp
qed (simp_all add: sanitize_tool_args_def)

lemma digits_text_nonneg:
  assumes "list_all is_digit (strip s)" and "py_int s = Some n"
  shows "0 \<le> n"
proof -
  let ?t = "rev (dropWhile is_int_space (rev (dropWhile is_int_space s)))"
  have "\<not> cp c = 45" if "c \<in> set s" for c
    using strip_keeps [OF that] assms(1) by (auto simp: list_all_iff is_space_def is_digit_def)
  moreover have "c \<in> set s" if "c \<in> set ?t" for c
    using that set_dropWhileD [of c is_int_space "rev (dropWhile is_int_space s)"]
      set_dropWhileD [of c is_int_space s] by simp
  ultimately have "\<not> cp c = 45" if "c \<in> set ?t" for c using that by blast
  then show ?thesis using assms(2)
    by (cases "?t") (auto simp: py_int_def split: if_splits option.splits)
qed

definition real_floats :: "(string \<Rightarrow> pyval option) \<Rightarrow> bool" where
  "real_floats to_float \<longleftrightarrow> (\<forall>s f. decimal_text (strip s) \<longrightarrow> to_float s = Some f \<longrightarrow>
     (\<exists>r sign. f = PFloat r sign \<and> sign \<in> {Zero, Positive}))"

lemma nonneg_number_fixed:
  assumes "nonneg_number to_float value = Inr (Some v)" and "real_floats to_float"
  shows "nonneg_number to_float v = Inr (Some v)"
proof (cases "value")
  case (PStr s)
  with assms(1) have dec: "decimal_text (strip s)" by (auto simp: nonneg_number_def split: if_splits)
  show ?thesis
  proof (cases "CHR ''.'' \<in> set s")
    case True
    with PStr dec assms(1) have "to_float s = Some v"
      by (auto simp: nonneg_number_def split: option.splits)
    with dec assms(2) show ?thesis unfolding real_floats_def by (fastforce simp: nonneg_number_def)
  next
    case False
    with PStr dec assms(1) obtain n where n: "py_int s = Some n" "v = PInt n"
      by (auto simp: nonneg_number_def split: option.splits)
    have "CHR ''.'' \<notin> set (strip s)"
      using False set_mono_sublist [OF sublist_strip [of s]] by blast
    then have "list_all is_digit (strip s)" using dec by (simp add: decimal_text_def split_first_None)
    from digits_text_nonneg [OF this n(1)] n(2) show ?thesis by (simp add: nonneg_number_def)
  qed
qed (use assms(1) in \<open>auto simp: nonneg_number_def split: if_splits\<close>)

lemma sanitize_entry_fixed:
  assumes "sanitize_entry container to_float key value = Inr (Some v)" and "real_floats to_float"
  shows "sanitize_entry container to_float key v = Inr (Some v)"
proof -
  consider (rules) "key = PStr ''behavioral_rules''"
    | (tools) "key = PStr ''allowed_tools'' \<or> key = PStr ''restricted_tools''"
    | (args) "key = PStr ''restricted_tool_args''"
    | (tokens) "key = PStr ''max_tokens''"
    | (other) "key \<notin> PStr ` {''behavioral_rules'', ''allowed_tools'', ''restricted_tools'',
        ''restricted_tool_args'', ''max_tokens''}" by auto
  then show ?thesis
  proof cases
    case rules
    with assms(1) show ?thesis by (auto simp: sanitize_entry_def split: if_splits)
  next
    case tools
    have clean: "list_all clean_token (safe_tokens container (items_of value))"
      using safe_tokens_clean by (auto simp: list_all_iff)
    note keep = safe_tokens_fixed [OF clean, of container]
    have v: "v = PList (map PStr (safe_tokens container (items_of value)))"
      using assms(1) tools
      by (auto simp: sanitize_entry_def FORBIDDEN_CONSTRAINT_KEYS_def Let_def split: if_splits)
    have "safe_tokens container (items_of value) \<noteq> [] \<or> key = PStr ''allowed_tools''"
      using assms(1) tools
      by (auto simp: sanitize_entry_def FORBIDDEN_CONSTRAINT_KEYS_def Let_def split: if_splits)
    with v tools keep show ?thesis
      by (auto simp: sanitize_entry_def FORBIDDEN_CONSTRAINT_KEYS_def)
  next
    case args
    with assms(1) show ?thesis
      by (auto simp: sanitize_entry_def Let_def sanitize_tool_args_fixed split: if_splits)
  next
    case tokens
    with assms(1) have "nonneg_number to_float value = Inr (Some v)"
      by (auto simp: sanitize_entry_def split: if_splits)
    from nonneg_number_fixed [OF this assms(2)] tokens show ?thesis
      by (simp add: sanitize_entry_def FORBIDDEN_CONSTRAINT_KEYS_def image_iff)
  next
    case other
    with assms(1) show ?thesis by (auto simp: sanitize_entry_def split: if_splits)
  qed
qed

subsection \<open>What a child may be shown\<close>

text \<open>
  The promise of the comments at the head of \<open>scoped_constitution.py\<close>, written from the alphabets
  and the words they list and not from the code's tests: a key is one of the structured restriction
  keys with a value of its safe shape, a named restriction, or a short identifier whose value says
  true. The documented identifier may be followed by one newline, which \<open>$\<close> lets through.
\<close>

definition identifier_letters :: string where
  "identifier_letters = ''ABCDEFGHIJKLMNOPQRSTUVWXYZabcdefghijklmnopqrstuvwxyz0123456789._-''"

definition short_identifier :: "string \<Rightarrow> bool" where
  "short_identifier k \<longleftrightarrow> (\<exists>t. (k = t \<or> k = t @ [CHR 0x0A]) \<and> t \<noteq> [] \<and> length t \<le> 64
     \<and> set t \<subseteq> set identifier_letters)"

definition token_letters :: string where
  "token_letters = ''ABCDEFGHIJKLMNOPQRSTUVWXYZabcdefghijklmnopqrstuvwxyz0123456789_.:/-''"

definition plain_token :: "string \<Rightarrow> bool" where
  "plain_token t \<longleftrightarrow> t \<noteq> [] \<and> length t \<le> 128
     \<and> set t \<subseteq> set token_letters"

definition says_true :: "pyval \<Rightarrow> bool" where
  "says_true v \<longleftrightarrow> v = PBool True \<or> (\<exists>a w b. v = PStr (a @ w @ b)
     \<and> list_all is_space (a @ b) \<and> lower w \<in> {''true'', ''1'', ''yes'', ''on''})"

definition tokens_only :: "string list \<Rightarrow> pyval \<Rightarrow> bool" where
  "tokens_only ts v \<longleftrightarrow> v = PList (map PStr ts) \<and> list_all plain_token ts"

definition plain_arg :: "pyval \<times> pyval \<Rightarrow> bool" where
  "plain_arg p \<longleftrightarrow> (\<exists>a ts. fst p = PStr a \<and> short_identifier a \<and> tokens_only ts (snd p)
     \<and> ts \<noteq> [] \<and> sorted ts \<and> distinct ts)"

definition plain_tool :: "pyval \<times> pyval \<Rightarrow> bool" where
  "plain_tool p \<longleftrightarrow> (\<exists>t d. fst p = PStr t \<and> short_identifier t \<and> snd p = PDict d \<and> d \<noteq> []
     \<and> list_all plain_arg d)"

definition shown_safely :: "pyval \<Rightarrow> pyval \<Rightarrow> bool" where
  "shown_safely key v \<longleftrightarrow> (\<exists>k. key = PStr k
     \<and> k \<notin> {''grant_features'', ''override_constitution'', ''remove_restrictions''}
     \<and> (if k = ''behavioral_rules'' then \<exists>x xs e d. v = PList (x # xs) \<or> v = PDict (e # d)
        else if k = ''allowed_tools'' then \<exists>ts. tokens_only ts v
        else if k = ''restricted_tools'' then \<exists>ts. tokens_only ts v \<and> ts \<noteq> []
        else if k = ''restricted_tool_args'' then \<exists>d. v = PDict d \<and> d \<noteq> [] \<and> list_all plain_tool d
        else if k = ''max_tokens''
          then (\<exists>n \<ge> 0. v = PInt n) \<or> (\<exists>r sign. v = PFloat r sign \<and> sign \<in> {Zero, Positive})
        else k \<in> {''read-only'', ''web-search-only'', ''no-wallet'', ''no-spawn'', ''no-memory-write'',
            ''no-file-access'', ''no-network'', ''no-tools''}
          \<or> short_identifier k \<and> says_true v))"

lemma strip_fixed_ends:
  assumes "strip t = t" and "t \<noteq> []"
  shows "\<not> is_space (last t)" and "\<not> is_space (hd t)"
proof -
  have r: "rev t = dropWhile is_space (rev (dropWhile is_space t))"
    using arg_cong [OF assms(1), of rev] by (simp add: strip_def)
  have "dropWhile is_space (rev (dropWhile is_space t)) \<noteq> []"
    using r assms(2) by (metis rev_is_Nil_conv)
  with r show "\<not> is_space (last t)" using assms(2) by (metis hd_dropWhile hd_rev)
  have "length (dropWhile is_space (rev (dropWhile is_space t))) \<le> length (dropWhile is_space t)"
    using length_dropWhile_le [of is_space "rev (dropWhile is_space t)"] by simp
  then have len: "length t \<le> length (dropWhile is_space t)" using arg_cong [OF r, of length] by simp
  show "\<not> is_space (hd t)"
  proof
    assume "is_space (hd t)"
    then have "length (dropWhile is_space t) \<le> length (tl t)"
      using assms(2) length_dropWhile_le [of is_space "tl t"] by (cases t) auto
    with len assms(2) show False by (cases t) auto
  qed
qed

lemma identifier_letter:
  "c \<in> set identifier_letters \<longleftrightarrow> ascii_alnum c \<or> cp c \<in> {46, 95, 45}"
proof -
  have "\<forall>c. c \<in> set identifier_letters \<longleftrightarrow> ascii_alnum c \<or> cp c \<in> {46, 95, 45}" by code_simp
  then show ?thesis by blast
qed

lemma token_letter:
  "c \<in> set token_letters \<longleftrightarrow> ascii_alnum c \<or> cp c \<in> {95, 46, 58, 47, 45}"
proof -
  have "\<forall>c. c \<in> set token_letters \<longleftrightarrow> ascii_alnum c \<or> cp c \<in> {95, 46, 58, 47, 45}" by code_simp
  then show ?thesis by blast
qed

lemma newline_cp: "cp c = 10 \<longleftrightarrow> c = CHR 0x0A"
proof -
  have "cp (CHR 0x0A) = 10" by (simp add: cp_def)
  then show ?thesis unfolding cp_def using of_char_eq_iff [of c "CHR 0x0A"] by metis
qed

lemma safe_flag_key_identifier: "safe_flag_key k = short_identifier k"
proof -
  have last: "(k \<noteq> [] \<and> cp (last k) = 10 \<and> t = butlast k) \<longleftrightarrow> k = t @ [CHR 0x0A]" for t
    by (auto simp: newline_cp) (metis append_butlast_last_id)
  have "safe_flag_key k \<longleftrightarrow> (\<exists>t. (k = t \<or> k \<noteq> [] \<and> cp (last k) = 10 \<and> t = butlast k)
      \<and> list_all (\<lambda>c. ascii_alnum c \<or> cp c \<in> {46, 95, 45}) t \<and> 1 \<le> length t \<and> length t \<le> 64)"
    by (auto simp: safe_flag_key_def class_match_def)
  also have "\<dots> \<longleftrightarrow> (\<exists>t. (k = t \<or> k = t @ [CHR 0x0A])
      \<and> list_all (\<lambda>c. ascii_alnum c \<or> cp c \<in> {46, 95, 45}) t \<and> 1 \<le> length t \<and> length t \<le> 64)"
    by (simp only: last)
  also have "\<dots> \<longleftrightarrow> short_identifier k"
    unfolding short_identifier_def
    by (intro iff_exI) (auto simp: list_all_iff identifier_letter subset_iff Suc_le_eq)
  finally show ?thesis .
qed

lemma clean_token_plain: "clean_token t = plain_token t"
proof
  assume c: "clean_token t"
  have "cp (last t) \<noteq> 10" if "t \<noteq> []"
    using strip_fixed_ends(1) [OF _ that] c by (auto simp: clean_token_def is_space_def)
  with c have p: "list_all (\<lambda>c. ascii_alnum c \<or> cp c \<in> {95, 46, 58, 47, 45}) t" "1 \<le> length t" "length t \<le> 128"
    by (auto simp: clean_token_def safe_token_def class_match_def split: if_splits)
  then show "plain_token t" by (auto simp: plain_token_def list_all_iff token_letter subset_iff)
next
  assume p: "plain_token t"
  then have l: "list_all (\<lambda>c. ascii_alnum c \<or> cp c \<in> {95, 46, 58, 47, 45}) t"
    by (auto simp: plain_token_def list_all_iff token_letter subset_iff)
  then have "\<not> is_space c" if "c \<in> set t" for c
    using that by (auto simp: list_all_iff is_space_def ascii_alnum_def is_digit_def)
  then have "strip t = t" by (rule strip_id)
  moreover have "safe_token t" using p l
    by (auto simp: safe_token_def class_match_def plain_token_def Suc_le_eq)
  ultimately show "clean_token t" by (simp add: clean_token_def)
qed

lemma strip_around:
  assumes "list_all is_space a" and "list_all is_space b" and "w \<noteq> []" and "\<not> is_space (hd w)" and "\<not> is_space (last w)"
  shows "strip (a @ w @ b) = w"
proof -
  have "dropWhile is_space (a @ w @ b) = w @ b"
    using assms by (cases w) (auto simp: list_all_iff dropWhile_append2)
  moreover have "dropWhile is_space (rev b @ rev w) = dropWhile is_space (rev w)"
    using assms(2) dropWhile_append2 [of "rev b" is_space "rev w"] by (simp add: list_all_iff)
  moreover have "dropWhile is_space (rev w) = rev w"
    using assms(3,5) by (cases "rev w") (auto simp: hd_rev [symmetric])
  ultimately show ?thesis by (simp add: strip_def)
qed

lemma strip_both: "\<exists>a b. s = a @ strip s @ b \<and> list_all is_space a \<and> list_all is_space b"
proof -
  obtain a where a: "s = a @ dropWhile is_space s" "list_all is_space a"
    using dropWhile_split [of s is_space] by blast
  obtain b where b: "rev (dropWhile is_space s) = b @ dropWhile is_space (rev (dropWhile is_space s))" "list_all is_space b"
    using dropWhile_split [of "rev (dropWhile is_space s)" is_space] by blast
  have "dropWhile is_space s = strip s @ rev b"
    unfolding strip_def using arg_cong [OF b(1), of rev] by simp
  with a b(2) show ?thesis by (intro exI [of _ a] exI [of _ "rev b"]) (simp add: list_all_iff)
qed

lemma space_lower: "is_space c \<Longrightarrow> is_space (lower_char c)"
  by (auto simp: is_space_def lower_char_def is_upper_def)

lemma truth_word_ends:
  assumes "lower w \<in> {''true'', ''1'', ''yes'', ''on''}"
  shows "w \<noteq> []" and "\<not> is_space (hd w)" and "\<not> is_space (last w)"
proof -
  show w: "w \<noteq> []" using assms by (auto simp: lower_def)
  have "lower_char (hd w) = hd (lower w)" "lower_char (last w) = last (lower w)"
    using w by (simp_all add: lower_def hd_map last_map)
  with assms have "\<not> is_space (lower_char (hd w))" "\<not> is_space (lower_char (last w))"
    by (auto simp: is_space_def cp_def)
  with space_lower show "\<not> is_space (hd w)" "\<not> is_space (last w)" by blast+
qed

lemma flag_spec:
  "is_safe_restriction_flag (PStr k) v \<longleftrightarrow>
     k \<notin> {''grant_features'', ''override_constitution'', ''remove_restrictions''} \<and> short_identifier k \<and> says_true v"
proof -
  have "lower (strip s) \<in> {''true'', ''1'', ''yes'', ''on''} \<longleftrightarrow> says_true (PStr s)" for s
  proof
    assume "lower (strip s) \<in> {''true'', ''1'', ''yes'', ''on''}"
    then show "says_true (PStr s)" using strip_both [of s] unfolding says_true_def by fastforce
  next
    assume "says_true (PStr s)"
    then obtain a w b where s: "s = a @ w @ b" "list_all is_space (a @ b)"
      and w: "lower w \<in> {''true'', ''1'', ''yes'', ''on''}"
      unfolding says_true_def by blast
    from s(2) have "strip s = w" unfolding s(1)
      by (intro strip_around truth_word_ends [OF w]) simp_all
    with w show "lower (strip s) \<in> {''true'', ''1'', ''yes'', ''on''}" by simp
  qed
  moreover have "says_true (PBool b) = b" for b by (simp add: says_true_def)
  ultimately show ?thesis
    by (auto simp: is_safe_restriction_flag_def FORBIDDEN_CONSTRAINT_KEYS_def safe_flag_key_identifier
        split: pyval.splits) (auto simp: says_true_def)
qed

lemma concat_kept:
  assumes "\<And>x. x \<in> set xs \<Longrightarrow> length (f x) \<le> 1"
  shows "concat (map f xs) = xs \<longleftrightarrow> (\<forall>x \<in> set xs. f x = [x])"
  using assms
proof (induction xs)
  case (Cons x xs)
  have len: "length (concat (map f ys)) \<le> length ys" if "set ys \<subseteq> set xs" for ys
    using that Cons.prems by (induction ys) (simp, fastforce simp: le_Suc_eq)
  have "length (f x) \<le> 1" using Cons.prems by simp
  then consider "f x = []" | y where "f x = [y]" by (cases "f x") auto
  then show ?case
  proof cases
    case 1
    with len [of xs] have "concat (map f (x # xs)) \<noteq> x # xs"
      by (metis append_Nil concat.simps(2) impossible_Cons list.simps(9) order_refl)
    with 1 show ?thesis by simp
  next
    case 2
    with Cons show ?thesis by auto
  qed
qed simp

lemma tokens_fixed:
  "v = PList (map PStr (safe_tokens container (items_of v))) \<longleftrightarrow> (\<exists>ts. tokens_only ts v)"
proof
  assume "v = PList (map PStr (safe_tokens container (items_of v)))"
  moreover have "list_all plain_token (safe_tokens container (items_of v))"
    using safe_tokens_clean by (auto simp: list_all_iff clean_token_plain [symmetric])
  ultimately show "\<exists>ts. tokens_only ts v" unfolding tokens_only_def by blast
next
  assume "\<exists>ts. tokens_only ts v"
  then show "v = PList (map PStr (safe_tokens container (items_of v)))"
    using safe_tokens_fixed [of _ container] by (auto simp: tokens_only_def clean_token_plain [symmetric] list_all_iff)
qed

lemma arg_spec_fixed: "sanitize_arg_spec container d = d \<longleftrightarrow> list_all plain_arg d"
proof -
  let ?f = "\<lambda>(arg_name, allowed). case arg_name of
         PStr a \<Rightarrow>
           (if \<not> safe_flag_key a then []
            else let values = safe_tokens container (items_of allowed)
                 in if values = [] then []
                    else [(PStr a, PList (map PStr (sort (remdups values))))])
       | _ \<Rightarrow> []"
  have one: "length (?f p) \<le> 1" for p by (auto simp: Let_def split: pyval.split prod.split)
  have fixed: "?f p = [p] \<longleftrightarrow> plain_arg p" for p
  proof
    assume f: "?f p = [p]"
    then obtain a v where p: "p = (PStr a, v)" and k: "safe_flag_key a"
      and ts: "safe_tokens container (items_of v) \<noteq> []"
        "v = PList (map PStr (sort (remdups (safe_tokens container (items_of v)))))"
      by (cases p; cases "fst p") (auto simp: Let_def split: if_splits)
    have "list_all plain_token (sort (remdups (safe_tokens container (items_of v))))"
      using safe_tokens_clean by (auto simp: list_all_iff clean_token_plain [symmetric])
    moreover have "sort (remdups (safe_tokens container (items_of v))) \<noteq> []"
      using ts(1) by (metis set_empty set_remdups set_sort)
    ultimately show "plain_arg p" using ts(2) k unfolding plain_arg_def tokens_only_def p
      by (intro exI [of _ a] exI [of _ "sort (remdups (safe_tokens container (items_of v)))"])
        (simp add: safe_flag_key_identifier)
  next
    assume "plain_arg p"
    then obtain a ts where p: "p = (PStr a, PList (map PStr ts))" and k: "short_identifier a"
      and ts: "list_all plain_token ts" "ts \<noteq> []" "sorted ts" "distinct ts"
      by (cases p) (auto simp: plain_arg_def tokens_only_def)
    have "safe_tokens container (map PStr ts) = ts"
      using ts(1) by (intro safe_tokens_fixed) (simp add: list_all_iff clean_token_plain)
    with ts k show "?f p = [p]"
      by (simp add: p safe_flag_key_identifier distinct_remdups_id sorted_sort_id)
  qed
  show ?thesis using concat_kept [of d ?f] one fixed by (simp add: sanitize_arg_spec_def list_all_iff)
qed

lemma tool_args_fixed: "sanitize_tool_args container (PDict d) = d \<longleftrightarrow> list_all plain_tool d"
proof -
  let ?f = "\<lambda>(tool_name, arg_spec). case tool_name of
        PStr t \<Rightarrow>
          (if \<not> safe_flag_key t then []
           else (case arg_spec of
                   PDict spec \<Rightarrow>
                     (let clean_args = sanitize_arg_spec container spec
                      in if clean_args = [] then [] else [(PStr t, PDict clean_args)])
                 | _ \<Rightarrow> []))
      | _ \<Rightarrow> []"
  have one: "length (?f p) \<le> 1" for p by (auto simp: Let_def split: pyval.split prod.split)
  have fixed: "?f p = [p] \<longleftrightarrow> plain_tool p" for p
  proof
    assume "?f p = [p]"
    then obtain t spec where "p = (PStr t, PDict spec)" "safe_flag_key t" "spec \<noteq> []"
      "sanitize_arg_spec container spec = spec"
      by (cases p; cases "fst p"; cases "snd p") (auto simp: Let_def split: if_splits)
    then show "plain_tool p" by (simp add: plain_tool_def safe_flag_key_identifier arg_spec_fixed)
  next
    assume "plain_tool p"
    then obtain t spec where "p = (PStr t, PDict spec)" "short_identifier t" "spec \<noteq> []"
      "sanitize_arg_spec container spec = spec"
      by (cases p) (auto simp: plain_tool_def arg_spec_fixed)
    then show "?f p = [p]" by (simp add: safe_flag_key_identifier)
  qed
  show ?thesis using concat_kept [of d ?f] one fixed by (simp add: sanitize_tool_args_def list_all_iff)
qed

lemma behavioral_value:
  "(is_list v \<or> is_dict v) \<and> truthy v \<longleftrightarrow> (\<exists>x xs e d. v = PList (x # xs) \<or> v = PDict (e # d))"
  by (cases v) (auto simp: neq_Nil_conv)

lemma nonneg_number_kept:
  assumes "real_floats to_float"
  shows "nonneg_number to_float v = Inr (Some v) \<longleftrightarrow>
    (\<exists>n \<ge> 0. v = PInt n) \<or> (\<exists>r sign. v = PFloat r sign \<and> sign \<in> {Zero, Positive})"
proof (cases v)
  case (PStr s)
  have "to_float s \<noteq> Some (PStr s)" if "decimal_text (strip s)"
    using assms that unfolding real_floats_def by fastforce
  with PStr show ?thesis by (auto simp: nonneg_number_def split: if_splits option.splits)
qed (auto simp: nonneg_number_def)

lemma sanitize_entry_kept:
  assumes "real_floats to_float"
  shows "sanitize_entry container to_float key v = Inr (Some v) \<longleftrightarrow> shown_safely key v"
proof -
  show ?thesis
  proof (cases "\<exists>k. key = PStr k")
    case False
    then have "\<not> is_safe_restriction_flag key v" by (auto simp: is_safe_restriction_flag_def split: pyval.split)
    with False have "sanitize_entry container to_float key v = Inr None"
      by (auto simp: sanitize_entry_def image_iff)
    with False show ?thesis by (simp add: shown_safely_def)
  next
    case True
    then obtain k where key: "key = PStr k" ..
    let ?forbidden = "k \<in> {''grant_features'', ''override_constitution'', ''remove_restrictions''}"
    consider (forbidden) ?forbidden | (rules) "k = ''behavioral_rules''" | (allowed) "k = ''allowed_tools''"
      | (restricted) "k = ''restricted_tools''" | (args) "k = ''restricted_tool_args''"
      | (tokens) "k = ''max_tokens''"
      | (flag) "\<not> ?forbidden" "k \<noteq> ''behavioral_rules''" "k \<noteq> ''allowed_tools''" "k \<noteq> ''restricted_tools''"
        "k \<noteq> ''restricted_tool_args''" "k \<noteq> ''max_tokens''"
      by argo
    then show ?thesis
    proof cases
      case forbidden
      then show ?thesis by (auto simp: key sanitize_entry_def FORBIDDEN_CONSTRAINT_KEYS_def shown_safely_def)
    next
      case rules
      then show ?thesis using behavioral_value [of v]
        by (simp add: key sanitize_entry_def FORBIDDEN_CONSTRAINT_KEYS_def shown_safely_def image_iff)
    next
      case allowed
      have "sequence_items v \<noteq> None" if "tokens_only ts v" for ts using that by (auto simp: tokens_only_def)
      with allowed show ?thesis using tokens_fixed [of v container]
        by (auto simp: key sanitize_entry_def FORBIDDEN_CONSTRAINT_KEYS_def shown_safely_def image_iff Let_def)
    next
      case restricted
      have "safe_tokens container (items_of v) = ts" if "tokens_only ts v" for ts
        using that safe_tokens_fixed [of ts container]
        by (auto simp: tokens_only_def clean_token_plain [symmetric] list_all_iff)
      with restricted show ?thesis using tokens_fixed [of v container]
        by (auto simp: key sanitize_entry_def FORBIDDEN_CONSTRAINT_KEYS_def shown_safely_def image_iff Let_def tokens_only_def)
    next
      case args
      have "PDict (sanitize_tool_args container v) = v \<longleftrightarrow> (\<exists>d. v = PDict d \<and> list_all plain_tool d)"
        using tool_args_fixed [of container] by metis
      with args show ?thesis
        by (auto simp: key sanitize_entry_def FORBIDDEN_CONSTRAINT_KEYS_def shown_safely_def image_iff Let_def
            tool_args_fixed [symmetric])
    next
      case tokens
      then show ?thesis using nonneg_number_kept [OF assms, of v]
        by (simp add: key sanitize_entry_def FORBIDDEN_CONSTRAINT_KEYS_def shown_safely_def image_iff)
    next
      case flag
      then show ?thesis
        by (simp add: key sanitize_entry_def FORBIDDEN_CONSTRAINT_KEYS_def shown_safely_def image_iff
            RESTRICTION_CONSTRAINTS_def flag_spec)
    qed
  qed
qed

text \<open>
  C38: the sanitiser is exact, safe and stable. What it lets through to a child's governing text is
  safe to show (\<open>shown_safely\<close>: a structured restriction key with a value of its safe shape, a named
  restriction, or a short identifier whose value says true; never a forbidden key); every entry's key
  was in the mandate; an entry of the mandate that is safe to show is kept as it is; and sanitising
  the result again changes nothing. \<open>float\<close> of a non-negative decimal text is assumed to be a
  non-negative float (\<open>real_floats\<close>).
\<close>

theorem sanitizer_safe_and_stable:
  assumes "sanitize_render_constraints container to_float raw = Inr clean" and "real_floats to_float"
  shows "sanitize_render_constraints container to_float clean = Inr clean
    \<and> set (map fst clean) \<subseteq> set (map fst raw)
    \<and> (\<forall>(key, v) \<in> set clean. shown_safely key v)
    \<and> (\<forall>(key, v) \<in> set raw. shown_safely key v \<longrightarrow> (key, v) \<in> set clean)"
  using assms(1)
proof (induction raw arbitrary: clean)
  case (Cons entry raw)
  note kept = sanitize_entry_kept [OF assms(2), of container]
  obtain key v0 where e: "entry = (key, v0)" by (cases entry)
  with Cons.prems obtain r rest where r: "sanitize_entry container to_float key v0 = Inr r"
    "sanitize_render_constraints container to_float raw = Inr rest"
    "clean = (case r of None \<Rightarrow> [] | Some v \<Rightarrow> [(key, v)]) @ rest"
    by (auto split: sum.splits)
  note ih = Cons.IH [OF r(2)]
  show ?case
  proof (cases r)
    case None
    with r(1) kept [of key v0] have "\<not> shown_safely key v0" by simp
    with ih r(3) None show ?thesis by (auto simp: e)
  next
    case (Some v)
    with r(1) have out: "sanitize_entry container to_float key v0 = Inr (Some v)" by simp
    note fixed = sanitize_entry_fixed [OF out assms(2)]
    have "shown_safely key v" using fixed kept by blast
    moreover have "v = v0" if "shown_safely key v0" using that kept [of key v0] out by simp
    moreover have "clean = (key, v) # rest" using r(3) Some by simp
    ultimately show ?thesis using fixed ih by (auto simp: e)
  qed
qed simp

text \<open>A flag whose text says something else is dropped; one that says yes is kept.\<close>

lemma sanitizer_safe_and_stable_witness:
  "sanitize_render_constraints (\<lambda>_. []) (\<lambda>_. Some (PFloat ''0.5'' Positive))
     [(PStr ''max_tokens'', PInt 7)] = Inr [(PStr ''max_tokens'', PInt 7)]"
proof -
  have "sanitize_render_constraints (\<lambda>_. []) (\<lambda>_. Some (PFloat ''0.5'' Positive))
     [(PStr ''override_constitution'', PBool True), (PStr ''note'', PStr ''ignore''), (PStr ''max_tokens'', PInt 7)]
     = Inr [(PStr ''max_tokens'', PInt 7)]"
    by (simp add: sanitize_entry_def nonneg_number_def FORBIDDEN_CONSTRAINT_KEYS_def RESTRICTION_CONSTRAINTS_def
        is_safe_restriction_flag_def lower_def lower_char_def is_upper_def strip_def is_space_def cp_def image_iff)
  from sanitizer_safe_and_stable [OF this] show ?thesis by (simp add: real_floats_def)
qed

text \<open>A text the filter accepts can still make \<open>int\<close> raise; the flag pattern accepts a newline.\<close>

lemma accepted_number_raises:
  "nonneg_number (\<lambda>_. None) (PStr [CHR 0x1C, CHR ''5'']) = Inl Render_Value_Error"
  by (simp add: nonneg_number_def decimal_text_def strip_def is_space_def is_digit_def cp_def py_int_def
      is_int_space_def unsigned_int_def)

lemma flag_with_newline_is_safe:
  "is_safe_restriction_flag (PStr (''no_web'' @ [CHR 0x0A])) (PBool True)"
  by (simp add: is_safe_restriction_flag_def FORBIDDEN_CONSTRAINT_KEYS_def safe_flag_key_def
      class_match_def ascii_alnum_def is_digit_def cp_def)

end
