(* ===== verification/Start_Order.thy ===== *)
theory Start_Order
  imports Prelude "HOL-Library.Multiset" "HOL-Library.Product_Lexorder" "HOL-Library.List_Lexorder" "HOL-Library.Char_ord"
begin

text \<open>
  Model of \<open>kestrel_sovereign/host_features/start_order.py\<close>: the scan of the services a host feature
  consumes, and the order in which host features start, provider before consumer. Objects are
  addresses of a heap; \<open>ServiceRequirement.accepts\<close> (of the SDK) and the lookup among the services
  that are already active are arguments. Python sets of indices are ascending lists.
\<close>

subsection \<open>Scanning a feature for requirements\<close>

text \<open>\<open>rq_rest\<close> stands for whatever else the SDK's class compares.\<close>

record 'x requirement =
  rq_agent_id :: "string option"
  rq_name :: string
  rq_minimum_version :: string
  rq_rest :: 'x

datatype 'x obj_kind = Requirement_Object "'x requirement" | Mapping_Object | Container_Object | Instance_Object

text \<open>
  \<open>ob_items\<close>: the values of a dictionary or the items of a container; \<open>ob_attributes\<close>: the values of
  \<open>__dict__\<close> when there is one; \<open>ob_slots\<close>: the filled slots in the order of the class hierarchy.
\<close>

record 'x obj =
  ob_kind :: "'x obj_kind"
  ob_module :: string
  ob_items :: "nat list"
  ob_attributes :: "nat list option"
  ob_slots :: "nat list"

type_synonym 'x heap = "nat \<Rightarrow> 'x obj"

definition REQUIREMENT_SCAN_BUDGET :: nat where
  "REQUIREMENT_SCAN_BUDGET = 4096"

record 'x requirement_scan =
  rs_requirements :: "'x requirement list"
  rs_complete :: bool

definition package_of :: "'x obj \<Rightarrow> string" where
  "package_of ob = takeWhile (\<lambda>c. c \<noteq> CHR ''.'') (ob_module ob)"

definition members :: "'x obj \<Rightarrow> nat list" where
  "members ob = (case ob_kind ob of
       Mapping_Object \<Rightarrow> ob_items ob
     | Container_Object \<Rightarrow> ob_items ob
     | _ \<Rightarrow> (case ob_attributes ob of None \<Rightarrow> [] | Some vs \<Rightarrow> vs) @ ob_slots ob)"

definition may_hold_requirement :: "'x obj \<Rightarrow> string \<Rightarrow> bool" where
  "may_hold_requirement ob package \<longleftrightarrow> ob_kind ob \<noteq> Instance_Object \<or> package_of ob = package"

text \<open>The loop; the head of \<open>pending\<close> is the end of the code's list.\<close>

function scan_from :: "'x heap \<Rightarrow> string \<Rightarrow> nat list \<Rightarrow> nat list \<Rightarrow> 'x requirement list \<Rightarrow> 'x requirement_scan" where
  "scan_from heap package [] seen found = \<lparr>rs_requirements = found, rs_complete = True\<rparr>"
| "scan_from heap package (v # pending) seen found =
     (if v \<in> set seen then scan_from heap package pending seen found
      else if length seen \<ge> REQUIREMENT_SCAN_BUDGET
        then \<lparr>rs_requirements = found, rs_complete = False\<rparr>
      else case ob_kind (heap v) of
          Requirement_Object r \<Rightarrow>
            scan_from heap package pending (v # seen) (if r \<in> set found then found else found @ [r])
        | _ \<Rightarrow>
            scan_from heap package
              (rev (filter (\<lambda>w. may_hold_requirement (heap w) package) (members (heap v))) @ pending)
              (v # seen) found)"
  by pat_completeness auto
termination
  by (relation "inv_image (less_than <*lex*> less_than)
      (\<lambda>(heap, package, pending, seen, found). (REQUIREMENT_SCAN_BUDGET - length seen, length pending))")
    auto

definition scan_service_requirements :: "'x heap \<Rightarrow> nat \<Rightarrow> 'x requirement_scan" where
  "scan_service_requirements heap feature =
     scan_from heap (package_of (heap feature)) [feature] [] []"

subsection \<open>The dependency graph\<close>

record 'd registration =
  rg_agent_id :: "string option"
  rg_descriptor :: 'd

record 'd host_feature =
  hf_object :: nat
  hf_name :: string
  hf_services :: "'d registration list"

definition service_registration_satisfies ::
    "('x requirement \<Rightarrow> 'd \<Rightarrow> bool) \<Rightarrow> 'd registration \<Rightarrow> 'x requirement \<Rightarrow> bool" where
  "service_registration_satisfies accepts registration requirement \<longleftrightarrow>
     rg_agent_id registration = rq_agent_id requirement \<and> accepts requirement (rg_descriptor registration)"

definition requirements_of :: "'x heap \<Rightarrow> 'd host_feature \<Rightarrow> 'x requirement list" where
  "requirements_of heap f = rs_requirements (scan_service_requirements heap (hf_object f))"

definition matches_of ::
    "('x requirement \<Rightarrow> 'd \<Rightarrow> bool) \<Rightarrow> 'd host_feature list \<Rightarrow> 'x requirement \<Rightarrow> nat list" where
  "matches_of accepts pairs requirement =
     filter (\<lambda>p. list_ex (\<lambda>reg. service_registration_satisfies accepts reg requirement)
       (hf_services (pairs ! p))) [0..<length pairs]"

definition providers_of ::
    "('x requirement \<Rightarrow> 'd \<Rightarrow> bool) \<Rightarrow> 'x heap \<Rightarrow> 'd host_feature list \<Rightarrow> nat \<Rightarrow> nat list" where
  "providers_of accepts heap pairs consumer =
     filter (\<lambda>p. p \<noteq> consumer \<and>
         list_ex (\<lambda>r. p \<in> set (matches_of accepts pairs r)) (requirements_of heap (pairs ! consumer)))
       [0..<length pairs]"

definition provider_table ::
    "('x requirement \<Rightarrow> 'd \<Rightarrow> bool) \<Rightarrow> 'x heap \<Rightarrow> 'd host_feature list \<Rightarrow> nat list list" where
  "provider_table accepts heap pairs = map (providers_of accepts heap pairs) [0..<length pairs]"

text \<open>What is logged for each requirement.\<close>

datatype start_diagnostic =
    Scan_Stopped string nat
  | Nobody_Provides string string
  | Dependency_Cycle "string list"

definition consumer_diagnostics ::
    "('x requirement \<Rightarrow> 'd \<Rightarrow> bool) \<Rightarrow> ('x requirement \<Rightarrow> bool) \<Rightarrow> 'x heap \<Rightarrow> 'd host_feature list \<Rightarrow> nat
     \<Rightarrow> start_diagnostic list" where
  "consumer_diagnostics accepts active heap pairs consumer =
     (let f = pairs ! consumer; scan = scan_service_requirements heap (hf_object f)
      in (if rs_complete scan then [] else [Scan_Stopped (hf_name f) (length (rs_requirements scan))])
         @ map (\<lambda>r. Nobody_Provides (hf_name f) (rq_name r))
             (filter (\<lambda>r. matches_of accepts pairs r = [] \<and> \<not> active r) (rs_requirements scan)))"

definition entry :: "'a list list \<Rightarrow> nat \<Rightarrow> 'a list" where
  "entry xss i = (if i < length xss then xss ! i else [])"

text \<open>\<open>_reachable\<close>.\<close>

function reach_from :: "nat list list \<Rightarrow> nat list \<Rightarrow> nat list \<Rightarrow> nat list" where
  "reach_from providers [] reached = reached"
| "reach_from providers (index # pending) reached =
     (if index \<in> set reached then reach_from providers pending reached
      else reach_from providers (rev (entry providers index) @ pending) (index # reached))"
  by pat_completeness auto

lemma card_mark: "i < n \<Longrightarrow> i \<notin> A \<Longrightarrow> card ({..<n} - insert i A) < card ({..<n} - (A :: nat set))"
  by (rule psubset_card_mono) auto

lemma card_mark_le: "A \<subseteq> B \<Longrightarrow> card ({..<n} - B) \<le> card ({..<n} - (A :: nat set))"
  by (rule card_mono) auto

termination reach_from
proof (relation "inv_image (less_than <*lex*> less_than)
    (\<lambda>(providers, pending, reached). (card ({..<length providers} - set reached), length pending))")
  fix providers :: "nat list list" and index :: nat and pending reached :: "nat list"
  assume new: "index \<notin> set reached"
  show "((providers, rev (entry providers index) @ pending, index # reached), providers, index # pending, reached)
    \<in> inv_image (less_than <*lex*> less_than)
        (\<lambda>(providers, pending, reached). (card ({..<length providers} - set reached), length pending))"
  proof (cases "index < length providers")
    case True
    with new card_mark [OF True new] show ?thesis by simp
  next
    case False
    then have "entry providers index = []" and
      "{..<length providers} - insert index (set reached) = {..<length providers} - set reached"
      by (auto simp: entry_def)
    then show ?thesis by simp
  qed
qed auto

definition reachable :: "nat list list \<Rightarrow> nat \<Rightarrow> nat list" where
  "reachable providers start = reach_from providers (rev (entry providers start)) []"

subsection \<open>Cycles and the order\<close>

text \<open>The members of the component of a feature: itself and what it reaches both ways.\<close>

definition component_members :: "nat list list \<Rightarrow> nat \<Rightarrow> nat list" where
  "component_members providers index =
     filter (\<lambda>other. other = index
         \<or> (other \<in> set (reachable providers index) \<and> index \<in> set (reachable providers other)))
       [0..<length providers]"

definition component_step ::
    "nat list list \<Rightarrow> nat \<Rightarrow> (nat, nat) dict \<times> nat list list \<Rightarrow> (nat, nat) dict \<times> nat list list" where
  "component_step providers index st =
     (case st of (component_of, components) \<Rightarrow>
        if dict_get component_of index \<noteq> None then st
        else let ms = component_members providers index
             in (fold (\<lambda>m. dict_put m (length components)) ms component_of, components @ [ms]))"

definition find_components :: "nat list list \<Rightarrow> (nat, nat) dict \<times> nat list list" where
  "find_components providers = fold (component_step providers) [0..<length providers] ([], [])"

text \<open>The components a component consumes from, by their first member.\<close>

definition upstream :: "nat list list \<Rightarrow> (nat, nat) dict \<Rightarrow> nat list list \<Rightarrow> nat \<Rightarrow> nat list" where
  "upstream providers component_of components component =
     sort_key (\<lambda>c. hd (entry components c)) (remdups (filter (\<lambda>c. c \<noteq> component)
       (concat (map (\<lambda>m. concat (map (\<lambda>p. case dict_get component_of p of None \<Rightarrow> [] | Some c \<Rightarrow> [c])
         (entry providers m))) (entry components component)))))"

text \<open>\<open>place\<close> on a list of components, those already placed skipped.\<close>

function place_all ::
    "nat list list \<Rightarrow> nat list list \<Rightarrow> nat list \<Rightarrow> nat list \<Rightarrow> nat list \<Rightarrow> nat list \<times> nat list" where
  "place_all ups components [] placed order = (placed, order)"
| "place_all ups components (c # cs) placed order =
     (if c \<in> set placed then place_all ups components cs placed order
      else let (placed', order') = place_all ups components (entry ups c) (c # placed) order
           in place_all ups components cs placed' (order' @ entry components c))"
  by pat_completeness auto

lemma place_all_grows:
  "place_all_dom (ups, components, cs, placed, order) \<Longrightarrow>
   set placed \<subseteq> set (fst (place_all ups components cs placed order))"
proof (induction rule: place_all.pinduct)
  case (2 ups components c cs placed order)
  then show ?case by (auto simp: place_all.psimps split: prod.split) blast
qed (simp add: place_all.psimps)

termination place_all
proof (relation "inv_image (less_than <*lex*> less_than)
    (\<lambda>(ups, components, cs, placed, order). (card ({..<length ups} - set placed), length cs))")
  fix ups components :: "nat list list" and c and cs placed order :: "nat list"
  assume new: "c \<notin> set placed"
  show "((ups, components, entry ups c, c # placed, order), ups, components, c # cs, placed, order)
    \<in> inv_image (less_than <*lex*> less_than)
        (\<lambda>(ups, components, cs, placed, order). (card ({..<length ups} - set placed), length cs))"
  proof (cases "c < length ups")
    case True
    with card_mark [OF True new] show ?thesis by simp
  next
    case False
    then have "entry ups c = []" and "{..<length ups} - insert c (set placed) = {..<length ups} - set placed"
      by (auto simp: entry_def)
    then show ?thesis by simp
  qed
next
  fix ups components :: "nat list list" and c and cs placed order r :: "nat list"
    and placed' order' :: "nat list" and pr
  assume dom: "place_all_dom (ups, components, entry ups c, c # placed, order)"
    and pr: "pr = place_all ups components (entry ups c) (c # placed) order" "(placed', order') = pr"
  have "set placed \<subseteq> set placed'" using place_all_grows [OF dom] pr by (metis fst_conv insert_subset list.simps(15))
  from card_mark_le [OF this, of "length ups"]
  show "((ups, components, cs, placed', order' @ entry components c), ups, components, c # cs, placed, order)
    \<in> inv_image (less_than <*lex*> less_than)
        (\<lambda>(ups, components, cs, placed, order). (card ({..<length ups} - set placed), length cs))"
    by auto
qed auto

definition start_indices :: "nat list list \<Rightarrow> nat list" where
  "start_indices providers =
     (case find_components providers of (component_of, components) \<Rightarrow>
        snd (place_all (map (upstream providers component_of components) [0..<length components]) components
          (map (\<lambda>i. case dict_get component_of i of None \<Rightarrow> length components | Some c \<Rightarrow> c)
            [0..<length providers]) [] []))"

definition cycle_diagnostics :: "'d host_feature list \<Rightarrow> nat list list \<Rightarrow> start_diagnostic list" where
  "cycle_diagnostics pairs components =
     map (\<lambda>ms. Dependency_Cycle (map (\<lambda>m. hf_name (pairs ! m)) ms))
       (filter (\<lambda>ms. length ms > 1) components)"

definition order_host_features_for_start ::
    "('x requirement \<Rightarrow> 'd \<Rightarrow> bool) \<Rightarrow> ('x requirement \<Rightarrow> bool) \<Rightarrow> 'x heap \<Rightarrow> 'd host_feature list
     \<Rightarrow> start_diagnostic list \<times> 'd host_feature list" where
  "order_host_features_for_start accepts active heap pairs =
     (let providers = provider_table accepts heap pairs
      in (concat (map (consumer_diagnostics accepts active heap pairs) [0..<length pairs])
            @ cycle_diagnostics pairs (snd (find_components providers)),
          map ((!) pairs) (start_indices providers)))"


subsection \<open>The scan finds every requirement\<close>

text \<open>What a feature holds: itself, and what is reached through values that may hold a requirement.\<close>

inductive held :: "'x heap \<Rightarrow> string \<Rightarrow> nat \<Rightarrow> nat \<Rightarrow> bool" for heap package source where
  held_root: "held heap package source source"
| held_member: "held heap package source v \<Longrightarrow> (\<And>r. ob_kind (heap v) \<noteq> Requirement_Object r) \<Longrightarrow>
    w \<in> set (members (heap v)) \<Longrightarrow> may_hold_requirement (heap w) package \<Longrightarrow> held heap package source w"

definition scan_inv :: "'x heap \<Rightarrow> string \<Rightarrow> nat \<Rightarrow> nat list \<Rightarrow> nat list \<Rightarrow> 'x requirement list \<Rightarrow> bool" where
  "scan_inv heap package source pending seen found \<longleftrightarrow>
     source \<in> set seen \<union> set pending \<and> distinct seen \<and> distinct found
     \<and> (\<forall>v \<in> set seen \<union> set pending. held heap package source v)
     \<and> (\<forall>r. r \<in> set found \<longleftrightarrow> (\<exists>v \<in> set seen. ob_kind (heap v) = Requirement_Object r))
     \<and> (\<forall>v \<in> set seen. \<forall>w \<in> set (members (heap v)). (\<forall>r. ob_kind (heap v) \<noteq> Requirement_Object r)
          \<longrightarrow> may_hold_requirement (heap w) package \<longrightarrow> w \<in> set seen \<union> set pending)"

lemma scan_invD:
  assumes "scan_inv heap package source pending seen found"
  shows "source \<in> set seen \<union> set pending" and "distinct seen" and "distinct found"
    and "v \<in> set seen \<union> set pending \<Longrightarrow> held heap package source v"
    and "r \<in> set found \<longleftrightarrow> (\<exists>v \<in> set seen. ob_kind (heap v) = Requirement_Object r)"
    and "v \<in> set seen \<Longrightarrow> w \<in> set (members (heap v)) \<Longrightarrow> (\<And>r. ob_kind (heap v) \<noteq> Requirement_Object r)
      \<Longrightarrow> may_hold_requirement (heap w) package \<Longrightarrow> w \<in> set seen \<union> set pending"
  using assms unfolding scan_inv_def by (blast+)

lemma scan_inv_skip:
  assumes "scan_inv heap package source (v # pending) seen found" and "v \<in> set seen"
  shows "scan_inv heap package source pending seen found"
  using assms unfolding scan_inv_def by (simp add: insert_absorb)

lemma scan_inv_requirement:
  assumes "scan_inv heap package source (v # pending) seen found" and "v \<notin> set seen"
    and kind: "ob_kind (heap v) = Requirement_Object r"
  shows "scan_inv heap package source pending (v # seen) (if r \<in> set found then found else found @ [r])"
proof -
  note inv = scan_invD [OF assms(1)]
  have "held heap package source u" if "u \<in> set (v # seen) \<union> set pending" for u using inv(4) that by auto
  moreover have "q \<in> set (if r \<in> set found then found else found @ [r])
      \<longleftrightarrow> (\<exists>u \<in> set (v # seen). ob_kind (heap u) = Requirement_Object q)" for q
    using inv(5) [of q] kind by auto
  moreover have "w \<in> set (v # seen) \<union> set pending"
    if "u \<in> set (v # seen)" "w \<in> set (members (heap u))" "\<forall>q. ob_kind (heap u) \<noteq> Requirement_Object q"
      "may_hold_requirement (heap w) package" for u w
    using inv(6) [of u w] that kind by auto
  ultimately show ?thesis unfolding scan_inv_def using inv(1,2,3) assms(2) by simp
qed

lemma scan_inv_object:
  assumes "scan_inv heap package source (v # pending) seen found" and "v \<notin> set seen"
    and kind: "\<And>r. ob_kind (heap v) \<noteq> Requirement_Object r"
  shows "scan_inv heap package source
    (rev (filter (\<lambda>w. may_hold_requirement (heap w) package) (members (heap v))) @ pending) (v # seen) found"
proof -
  note inv = scan_invD [OF assms(1)]
  have held_v: "held heap package source v" using inv(4) by simp
  let ?new = "rev (filter (\<lambda>w. may_hold_requirement (heap w) package) (members (heap v)))"
  have "held heap package source u" if "u \<in> set (v # seen) \<union> set (?new @ pending)" for u
    using inv(4) that held_member [OF held_v kind] by auto
  moreover have "q \<in> set found \<longleftrightarrow> (\<exists>u \<in> set (v # seen). ob_kind (heap u) = Requirement_Object q)" for q
    using inv(5) [of q] kind by auto
  moreover have "w \<in> set (v # seen) \<union> set (?new @ pending)"
    if "u \<in> set (v # seen)" "w \<in> set (members (heap u))" "\<forall>q. ob_kind (heap u) \<noteq> Requirement_Object q"
      "may_hold_requirement (heap w) package" for u w
    using inv(6) [of u w] that by auto
  moreover have "source \<in> set (v # seen) \<union> set (?new @ pending)" using inv(1) by auto
  moreover have "distinct (v # seen)" using inv(2) assms(2) by simp
  ultimately show ?thesis unfolding scan_inv_def using inv(3) by blast
qed

lemma scan_from_exact:
  assumes "scan_inv heap package source pending seen found"
  shows "distinct (rs_requirements (scan_from heap package pending seen found))
    \<and> (if rs_complete (scan_from heap package pending seen found)
       then set (rs_requirements (scan_from heap package pending seen found))
         = {r. \<exists>v. held heap package source v \<and> ob_kind (heap v) = Requirement_Object r}
       else \<exists>vs. distinct vs \<and> length vs > REQUIREMENT_SCAN_BUDGET \<and> (\<forall>v \<in> set vs. held heap package source v))"
  using assms
proof (induction heap package pending seen found rule: scan_from.induct)
  case (1 heap package seen found)
  note inv = scan_invD [OF "1.prems"]
  have "v \<in> set seen" if "held heap package source v" for v
    using that by (induction rule: held.induct) (use inv(1,6) in auto)
  with inv(4) have "{r. \<exists>v. held heap package source v \<and> ob_kind (heap v) = Requirement_Object r} = set found"
    using inv(5) by (intro set_eqI iffI; simp) blast+
  with inv(3) show ?case by simp
next
  case (2 heap package v pending seen found)
  note inv = scan_invD [OF "2.prems"]
  show ?case
  proof (cases "v \<in> set seen")
    case True
    with "2.IH"(1) [OF True scan_inv_skip [OF "2.prems" True]] show ?thesis by simp
  next
    case new: False
    show ?thesis
    proof (cases "length seen \<ge> REQUIREMENT_SCAN_BUDGET")
      case True
      have "distinct (v # seen)" "length (v # seen) > REQUIREMENT_SCAN_BUDGET" 
        "\<forall>u \<in> set (v # seen). held heap package source u"
        using True new inv(2,4) by auto
      then have "\<exists>vs. distinct vs \<and> length vs > REQUIREMENT_SCAN_BUDGET \<and> (\<forall>u \<in> set vs. held heap package source u)"
        by blast
      with True new inv(3) show ?thesis by simp
    next
      case False
      show ?thesis
      proof (cases "\<exists>r. ob_kind (heap v) = Requirement_Object r")
        case True
        then obtain r where r: "ob_kind (heap v) = Requirement_Object r" by blast
        from "2.IH"(2) [OF new False r scan_inv_requirement [OF "2.prems" new r]] show ?thesis
          using new False r by simp
      next
        case False_obj: False
        then have kind: "\<And>r. ob_kind (heap v) \<noteq> Requirement_Object r" by blast
        note step = scan_inv_object [OF "2.prems" new kind]
        consider "ob_kind (heap v) = Mapping_Object" | "ob_kind (heap v) = Container_Object"
          | "ob_kind (heap v) = Instance_Object"
          using kind by (cases "ob_kind (heap v)") blast+
        then show ?thesis
          using "2.IH"(3-5) [OF new False _ step] new False by cases simp_all
      qed
    qed
  qed
qed

text \<open>
  the scan misses nothing. For every object graph, cyclic ones included, the scan of a feature
  ends; unless it stopped at its budget it returns, each once, exactly the requirements that the
  feature holds; and it stops early only for a feature that holds more than 4,096 objects.
\<close>

theorem scan_finds_every_requirement:
  "distinct (rs_requirements (scan_service_requirements heap feature))
   \<and> (if rs_complete (scan_service_requirements heap feature)
      then set (rs_requirements (scan_service_requirements heap feature))
        = {r. \<exists>v. held heap (package_of (heap feature)) feature v \<and> ob_kind (heap v) = Requirement_Object r}
      else \<exists>vs. distinct vs \<and> length vs > 4096
        \<and> set vs \<subseteq> {v. held heap (package_of (heap feature)) feature v})"
proof -
  have "scan_inv heap (package_of (heap feature)) feature [feature] [] []"
    by (auto simp: scan_inv_def intro: held_root)
  from scan_from_exact [OF this] show ?thesis
    unfolding scan_service_requirements_def REQUIREMENT_SCAN_BUDGET_def subset_iff mem_Collect_eq Ball_def .
qed


subsection \<open>Reachability\<close>

definition consumes :: "nat list list \<Rightarrow> (nat \<times> nat) set" where
  "consumes providers = {(c, p). p \<in> set (entry providers c)}"

lemma reach_from_exact:
  assumes "set (entry providers start) \<subseteq> set reached \<union> set pending"
    and "set reached \<union> set pending \<subseteq> {x. (start, x) \<in> (consumes providers)\<^sup>+}"
    and "\<And>x y. x \<in> set reached \<Longrightarrow> y \<in> set (entry providers x) \<Longrightarrow> y \<in> set reached \<union> set pending"
  shows "set (reach_from providers pending reached) = {x. (start, x) \<in> (consumes providers)\<^sup>+}"
  using assms
proof (induction providers pending reached rule: reach_from.induct)
  case (1 providers reached)
  have "x \<in> set reached" if "(start, x) \<in> (consumes providers)\<^sup>+" for x
    using that
  proof (induction rule: trancl_induct)
    case (base y)
    then show ?case using "1.prems"(1) by (auto simp: consumes_def)
  next
    case (step y z)
    then show ?case using "1.prems"(3) [of y z] by (auto simp: consumes_def)
  qed
  with "1.prems"(2) show ?case by auto
next
  case (2 providers index pending reached)
  show ?case
  proof (cases "index \<in> set reached")
    case True
    have "set (reach_from providers pending reached) = {x. (start, x) \<in> (consumes providers)\<^sup>+}"
      by (rule "2.IH"(1) [OF True]) (use "2.prems" True in auto)
    with True show ?thesis by simp
  next
    case False
    have reach: "(start, index) \<in> (consumes providers)\<^sup>+" using "2.prems"(2) by auto
    have "(start, y) \<in> (consumes providers)\<^sup>+" if "y \<in> set (entry providers index)" for y
      by (rule trancl_into_trancl [OF reach]) (use that in \<open>simp add: consumes_def\<close>)
    then have "set (reach_from providers (rev (entry providers index) @ pending) (index # reached))
        = {x. (start, x) \<in> (consumes providers)\<^sup>+}"
      by (intro "2.IH"(2) [OF False]) (use "2.prems" in auto)
    with False show ?thesis by simp
  qed
qed

lemma set_reachable: "set (reachable providers start) = {x. (start, x) \<in> (consumes providers)\<^sup>+}"
  unfolding reachable_def by (rule reach_from_exact) (auto simp: consumes_def)

text \<open>Two features are in one component when they are the same or need each other.\<close>

definition entangled :: "nat list list \<Rightarrow> nat \<Rightarrow> nat \<Rightarrow> bool" where
  "entangled providers i j \<longleftrightarrow>
     i = j \<or> ((i, j) \<in> (consumes providers)\<^sup>+ \<and> (j, i) \<in> (consumes providers)\<^sup>+)"

lemma entangled_refl [simp]: "entangled providers i i"
  by (simp add: entangled_def)

lemma entangled_sym: "entangled providers i j \<longleftrightarrow> entangled providers j i"
  by (auto simp: entangled_def)

lemma entangled_trans: "entangled providers i j \<Longrightarrow> entangled providers j k \<Longrightarrow> entangled providers i k"
  unfolding entangled_def by (metis trancl_trans)

lemma component_members_eq:
  "component_members providers i = filter (entangled providers i) [0..<length providers]"
  by (auto simp: component_members_def entangled_def set_reachable intro: filter_cong)


subsection \<open>Components\<close>

lemma dict_get_put_all:
  "dict_get (fold (\<lambda>m. dict_put m v) ms d) x = (if x \<in> set ms then Some v else dict_get d x)"
  by (induction ms arbitrary: d) auto

definition components_ok :: "nat list list \<Rightarrow> nat \<Rightarrow> (nat, nat) dict \<times> nat list list \<Rightarrow> bool" where
  "components_ok providers k st \<longleftrightarrow> (case st of (component_of, components) \<Rightarrow>
     (\<forall>x c. dict_get component_of x = Some c \<longleftrightarrow> c < length components \<and> x \<in> set (components ! c))
     \<and> (\<forall>c < length components. \<exists>i < length providers.
          components ! c = filter (entangled providers i) [0..<length providers])
     \<and> (\<forall>i < k. dict_get component_of i \<noteq> None))"

lemma components_okI:
  assumes "\<And>x c. dict_get co x = Some c \<longleftrightarrow> c < length cs \<and> x \<in> set (cs ! c)"
    and "\<And>c. c < length cs \<Longrightarrow> \<exists>i < length providers. cs ! c = filter (entangled providers i) [0..<length providers]"
    and "\<And>i. i < k \<Longrightarrow> dict_get co i \<noteq> None"
  shows "components_ok providers k (co, cs)"
  using assms by (simp add: components_ok_def)

lemma components_okD:
  assumes "components_ok providers k (co, cs)"
  shows "dict_get co x = Some c \<longleftrightarrow> c < length cs \<and> x \<in> set (cs ! c)"
    and "c < length cs \<Longrightarrow> \<exists>i < length providers. cs ! c = filter (entangled providers i) [0..<length providers]"
    and "i < k \<Longrightarrow> dict_get co i \<noteq> None"
  using assms unfolding components_ok_def prod.case by blast+

lemma component_step_ok:
  assumes "components_ok providers k st" and "k < length providers"
  shows "components_ok providers (Suc k) (component_step providers k st)"
proof -
  obtain co cs where st: "st = (co, cs)" by (cases st)
  note ok = components_okD [OF assms(1) [unfolded st]]
  show ?thesis
  proof (cases "dict_get co k")
    case (Some d)
    have "components_ok providers (Suc k) (co, cs)"
    proof (rule components_okI [OF ok(1,2)])
      fix i assume "i < Suc k"
      then show "dict_get co i \<noteq> None" using ok(3) [of i] Some by (cases "i = k") simp_all
    qed
    with Some show ?thesis by (simp add: st component_step_def)
  next
    case None
    define ms where "ms = component_members providers k"
    have ms: "ms = filter (entangled providers k) [0..<length providers]"
      by (simp add: ms_def component_members_eq)
    have fresh: "dict_get co m = None" if "m \<in> set ms" for m
    proof (rule ccontr)
      assume "dict_get co m \<noteq> None"
      then obtain c where c: "c < length cs" "m \<in> set (cs ! c)" using ok(1) by blast
      from ok(2) [OF c(1)] obtain i where i: "cs ! c = filter (entangled providers i) [0..<length providers]"
        by blast
      have "entangled providers i m" "entangled providers k m" using c(2) that by (simp_all add: i ms)
      then have "entangled providers i k" using entangled_sym entangled_trans by metis
      then have "k \<in> set (cs ! c)" using assms(2) by (simp add: i)
      with c(1) ok(1) [of k c] None show False by simp
    qed
    let ?co = "fold (\<lambda>m. dict_put m (length cs)) ms co"
    have "components_ok providers (Suc k) (?co, cs @ [ms])"
    proof (rule components_okI)
      fix x c
      show "dict_get ?co x = Some c \<longleftrightarrow> c < length (cs @ [ms]) \<and> x \<in> set ((cs @ [ms]) ! c)"
        using ok(1) [of x c] fresh [of x]
        by (auto simp: dict_get_put_all nth_append less_Suc_eq split: if_splits)
    next
      fix c assume "c < length (cs @ [ms])"
      then show "\<exists>i < length providers. (cs @ [ms]) ! c = filter (entangled providers i) [0..<length providers]"
        using ok(2) [of c] ms assms(2) by (auto simp: nth_append less_Suc_eq)
    next
      fix i assume "i < Suc k"
      then show "dict_get ?co i \<noteq> None"
        using ok(3) [of i] assms(2) by (auto simp: dict_get_put_all ms less_Suc_eq)
    qed
    with None show ?thesis by (simp add: st component_step_def ms_def Let_def)
  qed
qed

lemma find_components_ok: "components_ok providers (length providers) (find_components providers)"
proof -
  have "components_ok providers k (fold (component_step providers) [0..<k] ([], []))"
    if "k \<le> length providers" for k
    using that
  proof (induction k)
    case 0
    show ?case by (simp add: components_ok_def)
  next
    case (Suc k)
    then show ?case using component_step_ok by simp
  qed
  then show ?thesis by (simp add: find_components_def)
qed


subsection \<open>Placing upstream components first\<close>

lemma place_all_append:
  "place_all ups components (xs @ ys) placed order =
   (case place_all ups components xs placed order of (placed', order') \<Rightarrow>
      place_all ups components ys placed' order')"
  by (induction ups components xs placed order rule: place_all.induct) (auto split: prod.splits)

text \<open>Everything a listed component consumes from is in \<open>D\<close> or listed before it.\<close>

fun upstream_first :: "nat list list \<Rightarrow> nat set \<Rightarrow> nat list \<Rightarrow> bool" where
  "upstream_first ups D [] \<longleftrightarrow> True"
| "upstream_first ups D (e # es) \<longleftrightarrow> set (entry ups e) \<subseteq> D \<and> upstream_first ups (insert e D) es"

lemma upstream_first_append:
  "upstream_first ups D (xs @ ys) \<longleftrightarrow> upstream_first ups D xs \<and> upstream_first ups (D \<union> set xs) ys"
  by (induction xs arbitrary: D) auto

lemma place_all_listed:
  assumes "acyclic (consumes ups)" and "set placed = D \<union> stack"
    and "\<And>x c. x \<in> stack \<Longrightarrow> c \<in> set cs \<Longrightarrow> (x, c) \<in> (consumes ups)\<^sup>+"
  shows "\<exists>ext placed'. place_all ups components cs placed order =
        (placed', order @ concat (map (entry components) ext))
     \<and> set placed' = set placed \<union> set ext \<and> distinct ext \<and> set ext \<inter> set placed = {}
     \<and> set cs \<subseteq> set placed' \<and> (\<forall>e \<in> set ext. \<exists>c \<in> set cs. (c, e) \<in> (consumes ups)\<^sup>*)
     \<and> upstream_first ups D ext"
  using assms
proof (induction ups components cs placed order arbitrary: D stack rule: place_all.induct)
  case (1 ups components placed order)
  then show ?case by simp
next
  case (2 ups components c cs placed order)
  show ?case
  proof (cases "c \<in> set placed")
    case True
    obtain ext placed' where rest: "place_all ups components cs placed order =
          (placed', order @ concat (map (entry components) ext))"
      "set placed' = set placed \<union> set ext" "distinct ext" "set ext \<inter> set placed = {}"
      "set cs \<subseteq> set placed'" "\<forall>e \<in> set ext. \<exists>c \<in> set cs. (c, e) \<in> (consumes ups)\<^sup>*"
      "upstream_first ups D ext"
      using "2.IH"(1) [OF True "2.prems"(1,2)] "2.prems"(3) by (metis list.set_intros(2))
    then show ?thesis using True by (intro exI [of _ ext] exI [of _ placed']) auto
  next
    case False
    have step: "(c, u) \<in> consumes ups" if "u \<in> set (entry ups c)" for u using that by (simp add: consumes_def)
    have stack1: "(x, u) \<in> (consumes ups)\<^sup>+" if "x \<in> insert c stack" "u \<in> set (entry ups c)" for x u
      using that step [OF that(2)] "2.prems"(3) [of x c]
      by (cases "x = c") (auto intro: trancl_into_trancl)
    have placed1: "set (c # placed) = D \<union> insert c stack" using "2.prems"(2) by auto
    obtain ext1 placed1 where inner: "place_all ups components (entry ups c) (c # placed) order =
          (placed1, order @ concat (map (entry components) ext1))"
      "set placed1 = set (c # placed) \<union> set ext1" "distinct ext1" "set ext1 \<inter> set (c # placed) = {}"
      "set (entry ups c) \<subseteq> set placed1" "\<forall>e \<in> set ext1. \<exists>u \<in> set (entry ups c). (u, e) \<in> (consumes ups)\<^sup>*"
      "upstream_first ups D ext1"
      using "2.IH"(2) [OF False "2.prems"(1) placed1 stack1] by metis
    have placed2: "set placed1 = (D \<union> set (ext1 @ [c])) \<union> stack" using inner(2) "2.prems"(2) by auto
    have stack2: "(x, d) \<in> (consumes ups)\<^sup>+" if "x \<in> stack" "d \<in> set cs" for x d
      using that "2.prems"(3) by simp
    obtain ext2 placed' where outer: "place_all ups components cs placed1
          ((order @ concat (map (entry components) ext1)) @ entry components c) =
          (placed', ((order @ concat (map (entry components) ext1)) @ entry components c)
            @ concat (map (entry components) ext2))"
      "set placed' = set placed1 \<union> set ext2" "distinct ext2" "set ext2 \<inter> set placed1 = {}"
      "set cs \<subseteq> set placed'" "\<forall>e \<in> set ext2. \<exists>d \<in> set cs. (d, e) \<in> (consumes ups)\<^sup>*"
      "upstream_first ups (D \<union> set (ext1 @ [c])) ext2"
      using "2.IH"(3) [OF False inner(1) [symmetric] refl "2.prems"(1) placed2 stack2] by metis
    have "u \<in> D \<union> set ext1" if u: "u \<in> set (entry ups c)" for u
    proof -
      have "(u, u) \<notin> (consumes ups)\<^sup>+" using "2.prems"(1) by (simp add: acyclic_def)
      then have "u \<notin> insert c stack" using stack1 [OF _ u] by blast
      with inner(2,5) u "2.prems"(2) show ?thesis by auto
    qed
    then have first: "upstream_first ups D (ext1 @ c # ext2)"
      using inner(7) outer(7) by (auto simp: upstream_first_append)
    have reach: "\<exists>d \<in> set (c # cs). (d, e) \<in> (consumes ups)\<^sup>*" if "e \<in> set (ext1 @ c # ext2)" for e
    proof -
      consider "e \<in> set ext1" | "e = c" | "e \<in> set ext2" using \<open>e \<in> set (ext1 @ c # ext2)\<close> by auto
      then show ?thesis
      proof cases
        case 1
        then obtain u where "u \<in> set (entry ups c)" "(u, e) \<in> (consumes ups)\<^sup>*" using inner(6) by blast
        then have "(c, e) \<in> (consumes ups)\<^sup>*" using step by (meson converse_rtrancl_into_rtrancl)
        then show ?thesis by auto
      next
        case 2
        then show ?thesis by auto
      next
        case 3
        then show ?thesis using outer(6) by auto
      qed
    qed
    have "place_all ups components (c # cs) placed order =
        (placed', order @ concat (map (entry components) (ext1 @ c # ext2)))"
      using False inner(1) outer(1) by simp
    moreover have "set placed' = set placed \<union> set (ext1 @ c # ext2)" using inner(2) outer(2) by auto
    moreover have "distinct (ext1 @ c # ext2)" using inner(2,3,4) outer(2,3,4) by auto
    moreover have "set (ext1 @ c # ext2) \<inter> set placed = {}" using False inner(2,4) outer(4) by auto
    moreover have "set (c # cs) \<subseteq> set placed'" using inner(2) outer(2,5) by auto
    ultimately show ?thesis using first reach by blast
  qed
qed


subsection \<open>The order of the features\<close>

definition table_ok :: "nat list list \<Rightarrow> bool" where
  "table_ok providers \<longleftrightarrow> (\<forall>c p. p \<in> set (entry providers c) \<longrightarrow> p < length providers)"

text \<open>\<open>x\<close> stands somewhere before \<open>y\<close>.\<close>

definition before :: "'a list \<Rightarrow> 'a \<Rightarrow> 'a \<Rightarrow> bool" where
  "before xs x y \<longleftrightarrow> (\<exists>us vs. xs = us @ vs \<and> x \<in> set us \<and> y \<in> set vs)"

lemma before_concat:
  assumes "before es c d" and "x \<in> set (f c)" and "y \<in> set (f d)"
  shows "before (concat (map f es)) x y"
proof -
  from assms(1) obtain us vs where "es = us @ vs" "c \<in> set us" "d \<in> set vs" unfolding before_def by blast
  then have "concat (map f es) = concat (map f us) @ concat (map f vs)"
    "x \<in> set (concat (map f us))" "y \<in> set (concat (map f vs))" using assms(2,3) by auto
  then show ?thesis unfolding before_def by blast
qed

lemma before_inside:
  assumes "c \<in> set es" and "before (f c) x y"
  shows "before (concat (map f es)) x y"
proof -
  from split_list [OF assms(1)] obtain us vs where es: "es = us @ c # vs" by blast
  from assms(2) obtain as bs where f: "f c = as @ bs" "x \<in> set as" "y \<in> set bs" unfolding before_def by blast
  have "concat (map f es) = (concat (map f us) @ as) @ (bs @ concat (map f vs))"
    unfolding es by (simp add: f(1))
  moreover have "x \<in> set (concat (map f us) @ as)" "y \<in> set (bs @ concat (map f vs))" using f(2,3) by simp_all
  ultimately show ?thesis unfolding before_def by blast
qed

lemma upstream_first_before:
  "upstream_first ups {} es \<Longrightarrow> e \<in> set es \<Longrightarrow> u \<in> set (entry ups e) \<Longrightarrow> before es u e"
proof -
  assume a: "upstream_first ups {} es" "e \<in> set es" "u \<in> set (entry ups e)"
  from split_list [OF a(2)] obtain xs ys where es: "es = xs @ e # ys" by blast
  with a have "u \<in> set xs" by (auto simp: upstream_first_append)
  then show ?thesis unfolding before_def es by (intro exI [of _ xs] exI [of _ "e # ys"]) simp
qed

lemma upstream_first_ancestors:
  assumes "upstream_first ups {} es" and "(e, u) \<in> (consumes ups)\<^sup>+" and "es = xs @ e # ys"
  shows "u \<in> set xs"
  using assms(2,3)
proof (induction rule: trancl_induct)
  case (base u)
  with assms(1) show ?case by (auto simp: upstream_first_append consumes_def)
next
  case (step u v)
  from split_list [OF step.IH [OF step.prems]] obtain as bs where xs: "xs = as @ u # bs" by blast
  with assms(1) step have "v \<in> set as" by (auto simp: upstream_first_append consumes_def)
  with xs show ?case by simp
qed

lemma upstream_first_before_all:
  assumes "upstream_first ups {} es" and "e \<in> set es" and "(e, u) \<in> (consumes ups)\<^sup>+"
  shows "before es u e"
proof -
  from split_list [OF assms(2)] obtain xs ys where es: "es = xs @ e # ys" by blast
  from upstream_first_ancestors [OF assms(1,3) es] have "u \<in> set xs" .
  then show ?thesis unfolding before_def es by (intro exI [of _ xs] exI [of _ "e # ys"]) simp
qed

lemma set_optional_item: "set (case o' of None \<Rightarrow> [] | Some c \<Rightarrow> [c]) = set_option o'"
  by (cases o') auto

lemma sorted_before: "sorted_wrt (<) xs \<Longrightarrow> i \<in> set xs \<Longrightarrow> j \<in> set xs \<Longrightarrow> (i :: nat) < j \<Longrightarrow> before xs i j"
proof -
  assume a: "sorted_wrt (<) xs" "i \<in> set xs" "j \<in> set xs" "i < j"
  from split_list [OF a(2)] obtain us vs where xs: "xs = us @ i # vs" by blast
  with a have "j \<in> set vs" by (auto simp: sorted_wrt_append)
  then show ?thesis unfolding before_def xs by (intro exI [of _ "us @ [i]"] exI [of _ vs]) simp
qed

lemma before_front:
  assumes "before (xs @ ys) j i" and "distinct (xs @ ys)" and "i \<in> set xs"
  shows "j \<in> set xs"
proof -
  from assms(1) obtain us vs where e: "xs @ ys = us @ vs" "j \<in> set us" "i \<in> set vs" unfolding before_def by blast
  from e(1) obtain w where "xs = us @ w \<or> us = xs @ w" by (auto simp: append_eq_append_conv2)
  then show ?thesis
  proof
    assume "us = xs @ w"
    with assms(3) have "i \<in> set us" by simp
    with e(1,3) assms(2) show ?thesis by auto
  qed (use e(2) in simp)
qed

locale placed_features =
  fixes providers :: "nat list list" and component_of :: "(nat, nat) dict" and components :: "nat list list"
    and n :: nat
  assumes found: "find_components providers = (component_of, components)"
    and table: "table_ok providers" and n_def: "n = length providers"
begin

definition ups :: "nat list list" where
  "ups = map (upstream providers component_of components) [0..<length components]"

lemmas ok = components_okD [OF find_components_ok [of providers, unfolded found]]

lemma component_total: "i < n \<Longrightarrow> \<exists>c. dict_get component_of i = Some c"
  using ok(3) n_def by blast

lemma component_range: "dict_get component_of i = Some c \<Longrightarrow> c < length components \<and> i < n"
proof -
  assume "dict_get component_of i = Some c"
  then have "c < length components" "i \<in> set (components ! c)" using ok(1) by simp_all
  with ok(2) [of c] show ?thesis by (auto simp: n_def)
qed

lemma same_component: "dict_get component_of i = Some c \<Longrightarrow>
  dict_get component_of j = Some c \<longleftrightarrow> entangled providers i j \<and> j < n"
proof -
  assume i: "dict_get component_of i = Some c"
  then have c: "c < length components" "i \<in> set (components ! c)" using ok(1) by simp_all
  from ok(2) [OF c(1)] obtain k where
    k: "components ! c = filter (entangled providers k) [0..<length providers]" by blast
  have ki: "entangled providers k i" using c(2) by (simp add: k)
  have "dict_get component_of j = Some c \<longleftrightarrow> entangled providers k j \<and> j < n"
    using ok(1) [of j c] c(1) by (simp add: k n_def conj_commute)
  moreover have "entangled providers k j \<longleftrightarrow> entangled providers i j"
    using ki entangled_sym entangled_trans by metis
  ultimately show ?thesis by simp
qed

lemma in_component: "i \<in> set (entry components c) \<longleftrightarrow> dict_get component_of i = Some c"
  using ok(1) [of i c] by (simp add: entry_def)

lemma component_sorted: "sorted_wrt (<) (entry components c)"
proof (cases "c < length components")
  case True
  from ok(2) [OF True] obtain k where
    "components ! c = filter (entangled providers k) [0..<length providers]" by blast
  then show ?thesis using True by (simp add: entry_def sorted_wrt_filter)
qed (simp add: entry_def)

lemma ups_iff: "u \<in> set (entry ups c) \<longleftrightarrow> u \<noteq> c \<and>
  (\<exists>m p. dict_get component_of m = Some c \<and> p \<in> set (entry providers m) \<and> dict_get component_of p = Some u)"
proof (cases "c < length components")
  case True
  then have "set (entry ups c) = set (upstream providers component_of components c)"
    by (simp add: entry_def ups_def)
  also have "\<dots> = {u. u \<noteq> c \<and> (\<exists>m \<in> set (entry components c). \<exists>p \<in> set (entry providers m).
      dict_get component_of p = Some u)}"
    unfolding upstream_def by (auto simp: set_optional_item)
  finally show ?thesis by (auto simp: in_component)
next
  case False
  then show ?thesis using component_range by (auto simp: entry_def ups_def)
qed

text \<open>Edges between components are paths between their members.\<close>

lemma ups_path:
  assumes "(c, u) \<in> (consumes ups)\<^sup>+" and "dict_get component_of m = Some c" and "dict_get component_of x = Some u"
  shows "(m, x) \<in> (consumes providers)\<^sup>+"
  using assms
proof (induction arbitrary: x rule: trancl_induct)
  case (base u)
  then obtain m' p where e: "dict_get component_of m' = Some c" "p \<in> set (entry providers m')"
    "dict_get component_of p = Some u" by (auto simp: consumes_def ups_iff)
  have "(m', p) \<in> (consumes providers)\<^sup>+" using e(2) by (auto simp: consumes_def)
  moreover have "entangled providers m m'" using same_component [OF base.prems(1)] e(1) by simp
  moreover have "entangled providers p x" using same_component [OF e(3)] base.prems(2) by simp
  ultimately show ?case unfolding entangled_def by (metis trancl_trans)
next
  case (step u v)
  then obtain m' p where e: "dict_get component_of m' = Some u" "p \<in> set (entry providers m')"
    "dict_get component_of p = Some v" by (auto simp: consumes_def ups_iff)
  have "(m, m') \<in> (consumes providers)\<^sup>+" by (rule step.IH [OF step.prems(1) e(1)])
  moreover have "(m', p) \<in> (consumes providers)\<^sup>+" using e(2) by (auto simp: consumes_def)
  moreover have "entangled providers p x" using same_component [OF e(3)] step.prems(2) by simp
  ultimately show ?case unfolding entangled_def by (metis trancl_trans)
qed

lemma acyclic_components: "acyclic (consumes ups)"
  unfolding acyclic_def
proof (intro allI notI)
  fix c assume "(c, c) \<in> (consumes ups)\<^sup>+"
  then obtain u where u: "(c, u) \<in> consumes ups" "(u, c) \<in> (consumes ups)\<^sup>*" by (meson tranclD)
  then obtain m p where m: "u \<noteq> c" "dict_get component_of m = Some c" "dict_get component_of p = Some u"
    by (auto simp: consumes_def ups_iff)
  have "(u, c) \<in> (consumes ups)\<^sup>+" using u(2) m(1) by (simp add: rtrancl_eq_or_trancl)
  from ups_path [OF this m(3,2)] ups_path [OF r_into_trancl [OF u(1)] m(2,3)]
  have "entangled providers m p" by (simp add: entangled_def)
  then have "dict_get component_of p = Some c"
    using same_component [OF m(2)] component_range [OF m(3)] by simp
  with m show False by simp
qed

definition start_list :: "nat list" where
  "start_list = map (\<lambda>i. case dict_get component_of i of None \<Rightarrow> length components | Some c \<Rightarrow> c) [0..<n]"

lemma start_list_in: "i < k \<Longrightarrow> k \<le> n \<Longrightarrow> dict_get component_of i = Some c \<Longrightarrow> c \<in> set (take k start_list)"
  unfolding start_list_def take_map by (force simp: image_iff)

lemma start_list_of: "c \<in> set (take k start_list) \<Longrightarrow> \<exists>i < k. dict_get component_of i = Some c"
proof -
  have upt: "set (take k [0..<n]) = {..<min k n}" by (cases "k \<le> n") auto
  assume "c \<in> set (take k start_list)"
  then obtain i where i: "i < k" "i < n"
    "c = (case dict_get component_of i of None \<Rightarrow> length components | Some c \<Rightarrow> c)"
    unfolding start_list_def take_map set_map upt by auto
  then show ?thesis using component_total [OF i(2)] by auto
qed

lemma start_indices_eq: "start_indices providers = snd (place_all ups components start_list [] [])"
  unfolding start_indices_def found prod.case ups_def start_list_def unfolding n_def ..

text \<open>The order, cut after the first \<open>k\<close> features of the discovery order have been placed.\<close>

lemma start_indices_split:
  obtains es1 es2 where "start_indices providers = concat (map (entry components) es1) @ concat (map (entry components) es2)"
    and "distinct (es1 @ es2)" and "upstream_first ups {} (es1 @ es2)"
    and "set (take k start_list) \<subseteq> set es1" and "set start_list \<subseteq> set (es1 @ es2)"
    and "\<forall>e \<in> set es1. \<exists>c \<in> set (take k start_list). (c, e) \<in> (consumes ups)\<^sup>*"
proof -
  obtain es1 pl1 where one: "place_all ups components (take k start_list) [] [] = (pl1, concat (map (entry components) es1))"
    "set pl1 = set es1" "distinct es1" "set (take k start_list) \<subseteq> set pl1"
    "\<forall>e \<in> set es1. \<exists>c \<in> set (take k start_list). (c, e) \<in> (consumes ups)\<^sup>*" "upstream_first ups {} es1"
    using place_all_listed [OF acyclic_components, of "[]" "{}" "{}" "take k start_list" components "[]"] by auto
  have "set pl1 = set es1 \<union> {}" using one(2) by simp
  from place_all_listed [OF acyclic_components this, of "drop k start_list" components "concat (map (entry components) es1)"]
  obtain es2 pl2 where two: "place_all ups components (drop k start_list) pl1 (concat (map (entry components) es1))
      = (pl2, concat (map (entry components) es1) @ concat (map (entry components) es2))"
    "set pl2 = set pl1 \<union> set es2" "distinct es2" "set es2 \<inter> set pl1 = {}" "set (drop k start_list) \<subseteq> set pl2"
    "upstream_first ups (set es1) es2" by auto
  have "start_indices providers = concat (map (entry components) es1) @ concat (map (entry components) es2)"
    using place_all_append [of ups components "take k start_list" "drop k start_list" "[]" "[]"]
    by (simp add: start_indices_eq one(1) two(1))
  moreover have "set start_list \<subseteq> set (es1 @ es2)"
  proof -
    have "set start_list = set (take k start_list) \<union> set (drop k start_list)"
      by (metis append_take_drop_id set_append)
    then show ?thesis using one(2,4) two(2,5) by auto
  qed
  ultimately show ?thesis
    using that [of es1 es2] one two by (auto simp: upstream_first_append Int_commute)
qed

lemma start_distinct: "distinct (start_indices providers)"
proof -
  obtain es1 es2 where e: "start_indices providers = concat (map (entry components) es1) @ concat (map (entry components) es2)"
    "distinct (es1 @ es2)" by (rule start_indices_split)
  have "distinct (concat (map (entry components) es))" if "distinct es" for es
    using that
  proof (induction es)
    case (Cons c es)
    have "distinct (entry components c)" using component_sorted strict_sorted_iff by blast
    moreover have "set (entry components c) \<inter> set (concat (map (entry components) es)) = {}"
      using Cons.prems by (auto simp: in_component)
    ultimately show ?case using Cons by simp
  qed simp
  from this [OF e(2)] show ?thesis by (simp add: e(1))
qed

lemma start_set: "set (start_indices providers) = {..<n}"
proof -
  obtain es1 es2 where e: "start_indices providers = concat (map (entry components) es1) @ concat (map (entry components) es2)"
    "set start_list \<subseteq> set (es1 @ es2)" by (rule start_indices_split)
  have "i \<in> set (start_indices providers)" if i: "i < n" for i
  proof -
    obtain c where c: "dict_get component_of i = Some c" using component_total [OF i] by blast
    have "c \<in> set start_list" using start_list_in [OF i order_refl c] by (simp add: start_list_def)
    then show ?thesis using e c in_component by auto
  qed
  moreover have "i < n" if "i \<in> set (start_indices providers)" for i
    using that component_range by (auto simp: e(1) in_component)
  ultimately show ?thesis by auto
qed

text \<open>A path between features is a path between their components.\<close>

lemma path_ups:
  assumes "(i, p) \<in> (consumes providers)\<^sup>+" and "dict_get component_of i = Some c"
  shows "\<exists>u. dict_get component_of p = Some u \<and> (c, u) \<in> (consumes ups)\<^sup>*"
  using assms(1)
proof (induction rule: trancl_induct)
  case (base p)
  then have p: "p \<in> set (entry providers i)" "p < n" using table by (auto simp: consumes_def table_ok_def n_def)
  obtain u where u: "dict_get component_of p = Some u" using component_total p(2) by blast
  have "(c, u) \<in> consumes ups" if "u \<noteq> c" using that assms(2) u p(1) by (auto simp: consumes_def ups_iff)
  with u show ?case by (cases "u = c") auto
next
  case (step p q)
  then obtain u where u: "dict_get component_of p = Some u" "(c, u) \<in> (consumes ups)\<^sup>*" by blast
  from step have q: "q \<in> set (entry providers p)" "q < n" using table by (auto simp: consumes_def table_ok_def n_def)
  obtain v where v: "dict_get component_of q = Some v" using component_total q(2) by blast
  have "(u, v) \<in> consumes ups" if "v \<noteq> u" using that u(1) v q(1) by (auto simp: consumes_def ups_iff)
  with u(2) v show ?case by (cases "v = u") auto
qed

lemma provider_first:
  assumes "(i, p) \<in> (consumes providers)\<^sup>+" and "i < n" and "(p, i) \<notin> (consumes providers)\<^sup>+"
  shows "before (start_indices providers) p i"
proof -
  obtain c where c: "dict_get component_of i = Some c" using component_total assms(2) by blast
  obtain u where u: "dict_get component_of p = Some u" "(c, u) \<in> (consumes ups)\<^sup>*"
    using path_ups [OF assms(1) c] by blast
  have "\<not> entangled providers i p" using assms(1,3) by (auto simp: entangled_def)
  then have "u \<noteq> c" using same_component [OF c, of p] u(1) by auto
  then have edge: "(c, u) \<in> (consumes ups)\<^sup>+" using u(2) by (simp add: rtrancl_eq_or_trancl)
  obtain es1 es2 where e: "start_indices providers = concat (map (entry components) es1) @ concat (map (entry components) es2)"
    "upstream_first ups {} (es1 @ es2)" "set start_list \<subseteq> set (es1 @ es2)" by (rule start_indices_split)
  have "c \<in> set (es1 @ es2)" using e(3) start_list_in [OF assms(2) order_refl c] by (auto simp: start_list_def)
  from upstream_first_before_all [OF e(2) this edge] have "before (es1 @ es2) u c" .
  from before_concat [OF this, of p "entry components" i] show ?thesis using c u(1) by (simp add: e(1) in_component)
qed

lemma cycle_in_discovery_order:
  assumes "entangled providers i j" and "i < j" and "j < n"
  shows "before (start_indices providers) i j"
proof -
  obtain c where c: "dict_get component_of i = Some c" using component_total assms(2,3) by force
  then have "dict_get component_of j = Some c" using same_component assms by blast
  with c have "before (entry components c) i j"
    using sorted_before [OF component_sorted _ _ assms(2)] in_component by blast
  moreover obtain es1 es2 where e: "start_indices providers = concat (map (entry components) es1) @ concat (map (entry components) es2)"
    "set start_list \<subseteq> set (es1 @ es2)" by (rule start_indices_split)
  moreover have "c \<in> set (es1 @ es2)" using e(2) start_list_in [OF _ order_refl c] assms(2,3) by (auto simp: start_list_def)
  ultimately show ?thesis using before_inside [of c "es1 @ es2" "entry components" i j] by simp
qed

lemma only_needed_jump_ahead:
  assumes "before (start_indices providers) j i" and "i < j" and "j < n"
  shows "\<exists>k \<le> i. (k, j) \<in> (consumes providers)\<^sup>+"
proof -
  obtain es1 es2 where e: "start_indices providers = concat (map (entry components) es1) @ concat (map (entry components) es2)"
    "set (take (Suc i) start_list) \<subseteq> set es1"
    "\<forall>e \<in> set es1. \<exists>c \<in> set (take (Suc i) start_list). (c, e) \<in> (consumes ups)\<^sup>*"
    by (rule start_indices_split [of "Suc i"])
  obtain c where c: "dict_get component_of i = Some c" using component_total assms(2,3) by force
  have "c \<in> set es1" using e(2) start_list_in [OF _ _ c, of "Suc i"] assms(2,3) by auto
  then have "i \<in> set (concat (map (entry components) es1))" using c in_component by auto
  from before_front [OF assms(1) [unfolded e(1)] start_distinct [unfolded e(1)] this]
  obtain d where d: "d \<in> set es1" "dict_get component_of j = Some d" using in_component by auto
  from e(3) d(1) obtain b where b: "b \<in> set (take (Suc i) start_list)" "(b, d) \<in> (consumes ups)\<^sup>*" by blast
  obtain k where k: "k \<le> i" "dict_get component_of k = Some b" using start_list_of [OF b(1)] less_Suc_eq_le by blast
  have "(k, j) \<in> (consumes providers)\<^sup>+"
  proof (cases "b = d")
    case True
    then have "entangled providers k j" using same_component [OF k(2)] d(2) by simp
    then show ?thesis using k(1) assms(2) by (auto simp: entangled_def)
  next
    case False
    then have "(b, d) \<in> (consumes ups)\<^sup>+" using b(2) by (simp add: rtrancl_eq_or_trancl)
    from ups_path [OF this k(2) d(2)] show ?thesis .
  qed
  with k(1) show ?thesis by blast
qed

end

lemma length_provider_table [simp]: "length (provider_table accepts heap pairs) = length pairs"
  by (simp add: provider_table_def)

lemma entry_provider_table: "entry (provider_table accepts heap pairs) c =
    (if c < length pairs then providers_of accepts heap pairs c else [])"
  by (simp add: entry_def provider_table_def)

lemma provider_table_ok: "table_ok (provider_table accepts heap pairs)"
  by (auto simp: table_ok_def entry_provider_table providers_of_def)

interpretation start_order: placed_features "provider_table accepts heap pairs"
    "fst (find_components (provider_table accepts heap pairs))"
    "snd (find_components (provider_table accepts heap pairs))" "length pairs"
  for accepts :: "'x requirement \<Rightarrow> 'd \<Rightarrow> bool" and heap :: "'x heap" and pairs :: "'d host_feature list"
  by unfold_locales (simp_all add: provider_table_ok)

subsection \<open>Properties of the start order\<close>

text \<open>\<open>needs accepts heap pairs\<close>: the direct dependencies between the features, by their indices.\<close>

definition needs ::
    "('x requirement \<Rightarrow> 'd \<Rightarrow> bool) \<Rightarrow> 'x heap \<Rightarrow> 'd host_feature list \<Rightarrow> (nat \<times> nat) set" where
  "needs accepts heap pairs = {(c, p). c < length pairs \<and> p \<in> set (providers_of accepts heap pairs c)}"

lemma consumes_provider_table: "consumes (provider_table accepts heap pairs) = needs accepts heap pairs"
  by (auto simp: consumes_def needs_def entry_provider_table split: if_splits)

text \<open>
  nothing else moves. A feature starts before one that was discovered earlier only because a
  feature discovered no later than that one needs it: independent features keep their order.
\<close>

lemma only_providers_move_ahead:
  assumes "before (start_indices (provider_table accepts heap pairs)) late early"
    and "early < late" and "late < length pairs"
  shows "\<exists>k \<le> early. (k, late) \<in> (needs accepts heap pairs)\<^sup>+"
  using start_order.only_needed_jump_ahead [OF assms] by (simp add: consumes_provider_table)

text \<open>
  The dependencies between the features, from what the features hold and offer and not from the scan:
  \<open>c\<close> depends on another feature \<open>p\<close> when some object that \<open>c\<close> holds is a requirement which a service
  registered by \<open>p\<close> meets.
\<close>

definition depends ::
    "('x requirement \<Rightarrow> 'd \<Rightarrow> bool) \<Rightarrow> 'x heap \<Rightarrow> 'd host_feature list \<Rightarrow> (nat \<times> nat) set" where
  "depends accepts heap pairs = {(c, p). c < length pairs \<and> p < length pairs \<and> c \<noteq> p \<and>
     (\<exists>v r reg. held heap (package_of (heap (hf_object (pairs ! c)))) (hf_object (pairs ! c)) v
        \<and> ob_kind (heap v) = Requirement_Object r \<and> reg \<in> set (hf_services (pairs ! p))
        \<and> rg_agent_id reg = rq_agent_id r \<and> accepts r (rg_descriptor reg))}"

definition fully_scanned :: "'x heap \<Rightarrow> 'd host_feature list \<Rightarrow> bool" where
  "fully_scanned heap pairs \<longleftrightarrow> (\<forall>f \<in> set pairs. rs_complete (scan_service_requirements heap (hf_object f)))"

lemma needs_depends:
  assumes "fully_scanned heap pairs"
  shows "needs accepts heap pairs = depends accepts heap pairs"
proof -
  have "set (requirements_of heap (pairs ! c)) = {r. \<exists>v. held heap (package_of (heap (hf_object (pairs ! c))))
      (hf_object (pairs ! c)) v \<and> ob_kind (heap v) = Requirement_Object r}" if "c < length pairs" for c
    using scan_finds_every_requirement [of heap "hf_object (pairs ! c)"] assms that
    by (auto simp: fully_scanned_def requirements_of_def)
  then show ?thesis
    by (force simp: needs_def depends_def providers_of_def matches_of_def list_ex_iff service_registration_satisfies_def)
qed

text \<open>
  C31: the start order is always a permutation of the activatable features: nothing is dropped or
  repeated. As long as no scan stopped at its budget, every feature that another one depends on,
  directly or through others, starts before it unless the two depend on each other; the members of a
  dependency cycle, directly connected or not, start in the order they were discovered; and a feature
  starts before one discovered earlier only because a feature discovered no later than that one
  depends on it.
\<close>

theorem providers_start_before_consumers:
  "\<exists>order. snd (order_host_features_for_start accepts active heap pairs) = map ((!) pairs) order
    \<and> mset order = mset [0..<length pairs]
    \<and> (fully_scanned heap pairs \<longrightarrow>
        (\<forall>c p. (c, p) \<in> (depends accepts heap pairs)\<^sup>+ \<and> (p, c) \<notin> (depends accepts heap pairs)\<^sup>+
           \<longrightarrow> before order p c)
      \<and> (\<forall>i j. i < j \<and> (i, j) \<in> (depends accepts heap pairs)\<^sup>+ \<and> (j, i) \<in> (depends accepts heap pairs)\<^sup>+
           \<longrightarrow> before order i j)
      \<and> (\<forall>early late. early < late \<and> late < length pairs \<and> before order late early
           \<longrightarrow> (\<exists>k \<le> early. (k, late) \<in> (depends accepts heap pairs)\<^sup>+)))"
proof -
  let ?t = "provider_table accepts heap pairs" and ?order = "start_indices (provider_table accepts heap pairs)"
  have range: "c < length pairs" if "(c, p) \<in> (consumes ?t)\<^sup>+" for c p
    using that unfolding consumes_provider_table by (auto simp: needs_def dest: tranclD)
  have perm: "mset ?order = mset [0..<length pairs]"
    using set_eq_iff_mset_eq_distinct [OF start_order.start_distinct [of accepts heap pairs] distinct_upt,
        where i1 = 0 and j1 = "length pairs"]
      start_order.start_set [of accepts heap pairs] by (simp add: lessThan_atLeast0)
  have "before ?order p c" if "(c, p) \<in> (consumes ?t)\<^sup>+" "(p, c) \<notin> (consumes ?t)\<^sup>+" for c p
    by (rule start_order.provider_first [OF that(1) range [OF that(1)] that(2)])
  moreover have "before ?order i j" if "i < j" "(i, j) \<in> (consumes ?t)\<^sup>+" "(j, i) \<in> (consumes ?t)\<^sup>+" for i j
    by (rule start_order.cycle_in_discovery_order) (use that range [OF that(3)] in \<open>simp_all add: entangled_def\<close>)
  ultimately show ?thesis
    using perm needs_depends [of heap pairs accepts] only_providers_move_ahead [of accepts heap pairs]
    by (intro exI [of _ ?order]) (simp add: order_host_features_for_start_def Let_def consumes_provider_table, metis)
qed

text \<open>A consumer discovered first, a bystander, and the provider discovered last.\<close>

definition demo_heap :: "unit heap" where
  "demo_heap a = (if a = 10
     then \<lparr>ob_kind = Requirement_Object \<lparr>rq_agent_id = None, rq_name = ''runs'', rq_minimum_version = ''1.0'', rq_rest = ()\<rparr>,
           ob_module = ''kestrel_sdk'', ob_items = [], ob_attributes = None, ob_slots = []\<rparr>
     else \<lparr>ob_kind = Instance_Object, ob_module = ''talon.feature'', ob_items = [],
           ob_attributes = (if a = 0 then Some [0, 10] else Some []), ob_slots = []\<rparr>)"

definition demo_features :: "string host_feature list" where
  "demo_features =
     [\<lparr>hf_object = 0, hf_name = ''talon'', hf_services = []\<rparr>,
      \<lparr>hf_object = 1, hf_name = ''notes'', hf_services = []\<rparr>,
      \<lparr>hf_object = 2, hf_name = ''workflows'', hf_services = [\<lparr>rg_agent_id = None, rg_descriptor = ''runs''\<rparr>]\<rparr>]"

definition demo_accepts :: "unit requirement \<Rightarrow> string \<Rightarrow> bool" where
  "demo_accepts r d \<longleftrightarrow> rq_name r = d"

lemma demo_scan:
  "scan_service_requirements demo_heap 0
    = \<lparr>rs_requirements = [\<lparr>rq_agent_id = None, rq_name = ''runs'', rq_minimum_version = ''1.0'', rq_rest = ()\<rparr>],
       rs_complete = True\<rparr>"
  "scan_service_requirements demo_heap 1 = \<lparr>rs_requirements = [], rs_complete = True\<rparr>"
  "scan_service_requirements demo_heap 2 = \<lparr>rs_requirements = [], rs_complete = True\<rparr>"
  by (simp_all add: scan_service_requirements_def demo_heap_def members_def may_hold_requirement_def
      package_of_def REQUIREMENT_SCAN_BUDGET_def)

lemma demo_table: "provider_table demo_accepts demo_heap demo_features = [[2], [], []]"
  by (simp add: provider_table_def providers_of_def requirements_of_def matches_of_def demo_features_def
      demo_scan demo_scan(2) [unfolded One_nat_def] service_registration_satisfies_def demo_accepts_def upt_rec numeral_3_eq_3)

lemma demo_order: "start_indices (provider_table demo_accepts demo_heap demo_features) = [2, 0, 1]"
  by (simp add: demo_table start_indices_def find_components_def component_step_def component_members_def
      reachable_def entry_def upstream_def dict_put_def dict_get_def Let_def upt_rec numeral_3_eq_3 numeral_2_eq_2)

lemma demo_needs: "needs demo_accepts demo_heap demo_features = {(0, 2)}"
  unfolding consumes_provider_table [symmetric] demo_table
  by (auto simp: consumes_def entry_def nth_Cons' split: if_splits)

lemma demo_scanned: "fully_scanned demo_heap demo_features"
  by (simp add: fully_scanned_def demo_features_def demo_scan demo_scan(2) [unfolded One_nat_def])

lemma providers_start_before_consumers_witness:
  "\<exists>order. snd (order_host_features_for_start demo_accepts (\<lambda>_. False) demo_heap demo_features)
      = map ((!) demo_features) order \<and> before order 2 0"
proof -
  have d: "depends demo_accepts demo_heap demo_features = {(0, 2)}"
    using needs_depends [OF demo_scanned, of demo_accepts] demo_needs by simp
  have "(0, 2) \<in> (depends demo_accepts demo_heap demo_features)\<^sup>+"
    "(2, 0) \<notin> (depends demo_accepts demo_heap demo_features)\<^sup>+"
    unfolding d by (auto dest: tranclD)
  then show ?thesis
    using providers_start_before_consumers [of demo_accepts "\<lambda>_. False" demo_heap demo_features] demo_scanned
    by blast
qed

end
