(* ===== verification/Paged_Text.thy ===== *)
theory Paged_Text
  imports Text
begin

text \<open>
  Model of \<open>kestrel_sovereign/features/paged_text.py\<close> and of \<open>largest_fitting_result\<close> in
  \<open>features/base.py\<close>: ranged reads of a text whose chunks fit the cap on tool results, and the batches
  of follow-up reads they offer. A text is a list of code points. \<open>json.dumps\<close> is modelled by the
  length of what it writes; the shape the SDK's \<open>ToolResult\<close> wraps around a confirmation and its
  data is the argument \<open>size_of\<close>.
\<close>

type_synonym ptext = "nat list"

definition chars :: "string \<Rightarrow> ptext" where
  "chars s = map cp s"

subsection \<open>Requests\<close>

text \<open>What a model supplies for \<open>offset\<close> or \<open>limit\<close>.\<close>

datatype page_arg = Not_Given | Given_Bool bool | Given_Int int | Given_Integral_Float int
  | Given_Text string | Given_Other

datatype page_error = Page_Request_Error | Page_Value_Error

record page_request =
  pg_offset :: nat
  pg_limit :: "nat option"

text \<open>The pattern \<open>\\s*[+-]?\\d+\\s*\<close> on the whole text.\<close>

definition integer_text :: "string \<Rightarrow> bool" where
  "integer_text s =
     (let t = dropWhile is_space s;
          u = (case t of [] \<Rightarrow> [] | c # r \<Rightarrow> if c \<in> {CHR ''+'', CHR ''-''} then r else t)
      in takeWhile is_digit u \<noteq> [] \<and> list_all is_space (dropWhile is_digit u))"

definition page_int :: "page_arg \<Rightarrow> int \<Rightarrow> page_error + nat" where
  "page_int value lo =
     (let parsed = (case value of
          Given_Int n \<Rightarrow> Inr n
        | Given_Integral_Float n \<Rightarrow> Inr n
        | Given_Text s \<Rightarrow> if integer_text s
            then (case py_int s of Some n \<Rightarrow> Inr n | None \<Rightarrow> Inl Page_Value_Error)
            else Inl Page_Request_Error
        | _ \<Rightarrow> Inl Page_Request_Error)
      in case parsed of Inl e \<Rightarrow> Inl e | Inr n \<Rightarrow> if n < lo then Inl Page_Request_Error else Inr (nat n))"

definition make_page_request :: "page_arg \<Rightarrow> page_arg \<Rightarrow> page_error + page_request" where
  "make_page_request offset limit =
     (case (if offset = Not_Given then Inr 0 else page_int offset 0) of
        Inl e \<Rightarrow> Inl e
      | Inr start \<Rightarrow>
          (case (if limit = Not_Given then Inr None else map_sum id Some (page_int limit 1)) of
             Inl e \<Rightarrow> Inl e
           | Inr wanted \<Rightarrow> Inr \<lparr>pg_offset = start, pg_limit = wanted\<rparr>))"

subsection \<open>Lengths of serialized values\<close>

definition escaped_width :: "nat \<Rightarrow> nat" where
  "escaped_width c =
     (if c \<in> {8, 9, 10, 12, 13, 34, 92} then 2
      else if 32 \<le> c \<and> c \<le> 126 then 1
      else if c < 65536 then 6 else 12)"

definition escaped :: "ptext \<Rightarrow> nat" where
  "escaped s = sum_list (map escaped_width s)"

datatype json = JNull | JBool bool | JNum nat | JStr ptext | JArr "nat list"

text \<open>The lengths of \<open>json.dumps\<close>: of a value, and of an object as its key-value pairs.\<close>

definition separators :: "nat \<Rightarrow> nat" where
  "separators n = 2 * (n - 1)"

fun json_len :: "json \<Rightarrow> nat" where
  "json_len JNull = 4"
| "json_len (JBool b) = (if b then 4 else 5)"
| "json_len (JNum n) = length (show_nat n)"
| "json_len (JStr s) = 2 + escaped s"
| "json_len (JArr ns) = 2 + sum_list (map (\<lambda>n. length (show_nat n)) ns) + separators (length ns)"

definition object_len :: "(string \<times> json) list \<Rightarrow> nat" where
  "object_len fs = 2 + sum_list (map (\<lambda>(k, v). 2 + escaped (chars k) + 2 + json_len v) fs) + separators (length fs)"

subsection \<open>One chunk as a result\<close>

definition MAX_BATCH_CHARS :: nat where
  "MAX_BATCH_CHARS = 24000"

record batch =
  ba_limit :: nat
  ba_offsets :: "nat list"

text \<open>What is read: the text, its digest, the names for messages and the identifying fields.\<close>

record reading =
  rd_text :: ptext
  rd_digest :: ptext
  rd_tool_name :: ptext
  rd_subject :: ptext
  rd_data :: "(string, json) dict"
  rd_cap :: nat

record page_result =
  pr_first :: nat
  pr_end :: nat
  pr_chunk :: ptext
  pr_batch :: "batch option"
  pr_has_more :: bool
  pr_returned :: nat

definition requested_end :: "reading \<Rightarrow> page_request \<Rightarrow> nat" where
  "requested_end rd page =
     (case pg_limit page of None \<Rightarrow> length (rd_text rd)
      | Some l \<Rightarrow> min (pg_offset page + l) (length (rd_text rd)))"

definition numeral_text :: "nat \<Rightarrow> ptext" where
  "numeral_text n = chars (show_nat n)"

definition confirmation :: "reading \<Rightarrow> page_request \<Rightarrow> page_result \<Rightarrow> ptext" where
  "confirmation rd page r =
     chars ''Read '' @ rd_subject rd @ chars '': characters '' @ numeral_text (pr_first r) @ [8211] @ numeral_text (pr_end r)
       @ chars '' of '' @ numeral_text (length (rd_text rd)) @ chars ''.''
     @ (case pg_limit page of
          Some l \<Rightarrow> if pr_end r < requested_end rd page
            then chars '' That is fewer than limit='' @ numeral_text l @ chars '': the next chunk starts at offset=''
                   @ numeral_text (pr_end r) @ chars ''.''
            else []
        | None \<Rightarrow> [])
     @ (if \<not> pr_has_more r then chars '' End of file.''
        else case pr_batch r of
          None \<Rightarrow> chars '' More remains; call '' @ rd_tool_name rd @ chars '' again with offset='' @ numeral_text (pr_end r)
            @ chars '' for the next chunk.''
        | Some b \<Rightarrow> chars '' More remains: call '' @ rd_tool_name rd
            @ chars '' once for each offset in batch_offsets with limit='' @ numeral_text (ba_limit b)
            @ chars '', all in one response (or with offset='' @ numeral_text (pr_end r)
            @ chars '' for the next chunk alone).'')"

definition page_fields :: "reading \<Rightarrow> page_result \<Rightarrow> (string, json) dict" where
  "page_fields rd r =
     (let fs = dict_put ''truncated'' (JBool (pr_has_more r))
           (dict_put ''next_offset'' (if pr_has_more r then JNum (pr_end r) else JNull)
           (dict_put ''total_chars'' (JNum (length (rd_text rd)))
           (dict_put ''returned_chars'' (JNum (pr_returned r))
           (dict_put ''offset'' (JNum (pr_first r)) (rd_data rd)))));
          fs = (case (pr_has_more r, pr_batch r) of
             (True, Some b) \<Rightarrow> dict_put ''batch_offsets'' (JArr (ba_offsets b))
               (dict_put ''batch_limit'' (JNum (ba_limit b)) fs)
           | _ \<Rightarrow> fs)
      in dict_put ''content'' (JStr (pr_chunk r)) (dict_put ''content_sha256'' (JStr (rd_digest rd)) fs))"

type_synonym size_measure = "ptext \<Rightarrow> (string, json) dict \<Rightarrow> nat"

definition result_len :: "size_measure \<Rightarrow> reading \<Rightarrow> page_request \<Rightarrow> page_result \<Rightarrow> nat" where
  "result_len size_of rd page r = size_of (confirmation rd page r) (page_fields rd r)"

subsection \<open>Choosing a chunk\<close>

text \<open>\<open>range(first, stop, step)\<close>.\<close>

function range_list :: "nat \<Rightarrow> nat \<Rightarrow> nat \<Rightarrow> nat list" where
  "range_list first stop step =
     (if step = 0 \<or> first \<ge> stop then [] else first # range_list (first + step) stop step)"
  by pat_completeness auto
termination by (relation "measure (\<lambda>(first, stop, step). stop - first)") auto

declare range_list.simps [simp del]

definition batch_chunks :: "nat \<Rightarrow> nat" where
  "batch_chunks cap = (let n = (if cap > 0 then MAX_BATCH_CHARS div cap else 0) in if n < 2 then 0 else n)"

definition empty_result :: "reading \<Rightarrow> batch option \<Rightarrow> bool \<Rightarrow> page_result" where
  "empty_result rd widest has_more =
     (let total = length (rd_text rd)
      in \<lparr>pr_first = total, pr_end = total, pr_chunk = [], pr_batch = widest, pr_has_more = has_more,
          pr_returned = total\<rparr>)"

definition widest_batch :: "reading \<Rightarrow> batch option" where
  "widest_batch rd =
     (if batch_chunks (rd_cap rd) = 0 then None
      else Some \<lparr>ba_limit = length (rd_text rd),
                 ba_offsets = replicate (batch_chunks (rd_cap rd)) (length (rd_text rd))\<rparr>)"

definition envelope :: "size_measure \<Rightarrow> reading \<Rightarrow> page_request \<Rightarrow> nat" where
  "envelope size_of rd page =
     max (result_len size_of rd page (empty_result rd (widest_batch rd) True))
         (result_len size_of rd page (empty_result rd None False))"

definition room :: "size_measure \<Rightarrow> reading \<Rightarrow> page_request \<Rightarrow> int" where
  "room size_of rd page = int (rd_cap rd) - int (envelope size_of rd page)"

text \<open>The running sums of the escaped widths from \<open>start\<close>, and the width of a window.\<close>

definition reach :: "reading \<Rightarrow> nat \<Rightarrow> nat" where
  "reach rd start = min (length (rd_text rd)) (start + rd_cap rd * (batch_chunks (rd_cap rd) + 1))"

definition widths :: "reading \<Rightarrow> nat \<Rightarrow> nat list" where
  "widths rd start = (let window = take (reach rd start - start) (drop start (rd_text rd))
     in map (\<lambda>k. escaped (take k window)) [0..<Suc (length window)])"

definition escaped_len :: "reading \<Rightarrow> nat \<Rightarrow> nat \<Rightarrow> nat \<Rightarrow> int" where
  "escaped_len rd start first end = int (widths rd start ! (end - start)) - int (widths rd start ! (first - start))"

definition batch_fits :: "reading \<Rightarrow> int \<Rightarrow> nat \<Rightarrow> nat \<Rightarrow> nat list \<Rightarrow> bool" where
  "batch_fits rd left start width offsets \<longleftrightarrow>
     list_all (\<lambda>offset. escaped_len rd start offset (min (offset + width) (length (rd_text rd))) \<le> left) offsets"

definition offsets_from :: "reading \<Rightarrow> nat \<Rightarrow> nat \<Rightarrow> nat \<Rightarrow> nat list" where
  "offsets_from rd end calls width = range_list end (min (length (rd_text rd)) (end + calls * width)) width"

function batch_search ::
    "reading \<Rightarrow> int \<Rightarrow> nat \<Rightarrow> nat \<Rightarrow> nat \<Rightarrow> int \<Rightarrow> int \<Rightarrow> batch option \<Rightarrow> batch option" where
  "batch_search rd left start end calls lo hi best =
     (if lo \<le> hi then
        let width = (lo + hi) div 2;
            offsets = offsets_from rd end calls (nat width)
        in if batch_fits rd left start (nat width) offsets
           then batch_search rd left start end calls (width + 1) hi
                  (Some \<lparr>ba_limit = nat width, ba_offsets = offsets\<rparr>)
           else batch_search rd left start end calls lo (width - 1) best
      else best)"
  by pat_completeness auto
termination
  by (relation "measure (\<lambda>(rd, left, start, end, calls, lo, hi, best). nat (hi - lo + 1))") auto

declare batch_search.simps [simp del]

definition batch_of :: "reading \<Rightarrow> int \<Rightarrow> nat \<Rightarrow> nat \<Rightarrow> nat \<Rightarrow> batch option" where
  "batch_of rd left start end calls =
     batch_search rd left start end calls 1 (min (int (length (rd_text rd)) - int end) left) None"

definition covered :: "reading \<Rightarrow> batch \<Rightarrow> int" where
  "covered rd b = int (min (length (rd_text rd)) (last (ba_offsets b) + ba_limit b)) - int (hd (ba_offsets b))"

fun best_batch :: "reading \<Rightarrow> int \<Rightarrow> nat \<Rightarrow> nat \<Rightarrow> nat \<Rightarrow> batch option \<Rightarrow> batch option" where
  "best_batch rd left start end 0 best = best"
| "best_batch rd left start end (Suc calls) best =
     best_batch rd left start end calls
       (case batch_of rd left start end (Suc calls) of
          None \<Rightarrow> best
        | Some b \<Rightarrow> (case best of None \<Rightarrow> Some b
            | Some c \<Rightarrow> if covered rd b \<ge> covered rd c then Some b else best))"

definition batch_after :: "reading \<Rightarrow> int \<Rightarrow> nat \<Rightarrow> nat \<Rightarrow> batch option" where
  "batch_after rd left start end =
     (case best_batch rd left start end (batch_chunks (rd_cap rd)) None of
        None \<Rightarrow> None
      | Some b \<Rightarrow> if length (ba_offsets b) > 1 then Some b else None)"

definition build :: "size_measure \<Rightarrow> reading \<Rightarrow> page_request \<Rightarrow> nat \<Rightarrow> page_result" where
  "build size_of rd page end =
     (let start = pg_offset page; has_more = end < length (rd_text rd);
          chunk = take (end - start) (drop start (rd_text rd))
      in \<lparr>pr_first = start, pr_end = end, pr_chunk = chunk,
          pr_batch = (if has_more \<and> batch_chunks (rd_cap rd) \<noteq> 0
                      then batch_after rd (room size_of rd page) start end else None),
          pr_has_more = has_more, pr_returned = length chunk\<rparr>)"

text \<open>\<open>largest_fitting_result\<close>: bisection over what is measured.\<close>

function largest_fitting_result ::
    "(int \<Rightarrow> 'r) \<Rightarrow> ('r \<Rightarrow> nat) \<Rightarrow> nat \<Rightarrow> int \<Rightarrow> int \<Rightarrow> (int \<times> 'r) option \<Rightarrow> (int \<times> 'r) option" where
  "largest_fitting_result mk len cap lo hi best =
     (if lo \<le> hi then
        let mid = (lo + hi) div 2; result = mk mid
        in if len result \<le> cap then largest_fitting_result mk len cap (mid + 1) hi (Some (mid, result))
           else largest_fitting_result mk len cap lo (mid - 1) best
      else best)"
  by pat_completeness auto
termination
  by (relation "measure (\<lambda>(mk, len, cap, lo, hi, best). nat (hi - lo + 1))") auto

declare largest_fitting_result.simps [simp del]

datatype page_failure = Past_End nat | Does_Not_Fit nat

definition paged_text_result :: "size_measure \<Rightarrow> reading \<Rightarrow> page_request \<Rightarrow> page_failure + page_result" where
  "paged_text_result size_of rd page =
     (let total = length (rd_text rd); start = pg_offset page; stop = requested_end rd page; cap = rd_cap rd;
          whole = build size_of rd page stop
      in if start > total then Inl (Past_End total)
         else if stop - start \<le> cap \<and> result_len size_of rd page whole \<le> cap then Inr whole
         else let shortest = (if start < stop then start + 1 else start) in
           case largest_fitting_result (\<lambda>n. build size_of rd page (nat n)) (result_len size_of rd page) cap
                  (int shortest) (min (int stop - 1) (int (start + cap))) None of
             None \<Rightarrow> Inl (Does_Not_Fit (result_len size_of rd page (build size_of rd page shortest)))
           | Some (_, r) \<Rightarrow> Inr r)"

subsection \<open>Bisection\<close>

lemma largest_fitting_Some:
  "largest_fitting_result mk len cap lo hi best = Some (n, r) \<Longrightarrow>
   best = Some (n, r) \<or> (lo \<le> n \<and> n \<le> hi \<and> r = mk n \<and> len r \<le> cap)"
proof (induction mk len cap lo hi best rule: largest_fitting_result.induct)
  case (1 mk len cap lo hi best)
  show ?case
  proof (cases "lo \<le> hi")
    case True
    let ?mid = "(lo + hi) div 2"
    have mid: "lo \<le> ?mid" "?mid \<le> hi" using True by linarith+
    show ?thesis
    proof (cases "len (mk ?mid) \<le> cap")
      case fit: True
      with 1 True have "Some (?mid, mk ?mid) = Some (n, r)
          \<or> (?mid + 1 \<le> n \<and> n \<le> hi \<and> r = mk n \<and> len r \<le> cap)"
        by (simp add: largest_fitting_result.simps [of mk len cap lo hi] Let_def)
      with mid fit show ?thesis by auto
    next
      case False
      with 1 True have "best = Some (n, r) \<or> (lo \<le> n \<and> n \<le> ?mid - 1 \<and> r = mk n \<and> len r \<le> cap)"
        by (simp add: largest_fitting_result.simps [of mk len cap lo hi] Let_def)
      with mid show ?thesis by auto
    qed
  qed (use 1 in \<open>simp add: largest_fitting_result.simps [of mk len cap lo hi]\<close>)
qed

lemma largest_fitting_None:
  "largest_fitting_result mk len cap lo hi best = None \<Longrightarrow>
   best = None \<and> (lo \<le> hi \<longrightarrow> \<not> len (mk lo) \<le> cap)"
proof (induction mk len cap lo hi best rule: largest_fitting_result.induct)
  case (1 mk len cap lo hi best)
  show ?case
  proof (cases "lo \<le> hi")
    case True
    let ?mid = "(lo + hi) div 2"
    show ?thesis
    proof (cases "len (mk ?mid) \<le> cap")
      case fit: True
      with 1 True show ?thesis by (auto simp: largest_fitting_result.simps [of mk len cap lo hi] Let_def)
    next
      case False
      with 1 True have "best = None \<and> (lo \<le> ?mid - 1 \<longrightarrow> \<not> len (mk lo) \<le> cap)"
        by (simp add: largest_fitting_result.simps [of mk len cap lo hi] Let_def)
      moreover have "?mid = lo" if "\<not> lo \<le> ?mid - 1" using that True by linarith
      ultimately show ?thesis using False by auto
    qed
  qed (use 1 in \<open>simp add: largest_fitting_result.simps [of mk len cap lo hi]\<close>)
qed

subsection \<open>What a successful read returns\<close>

definition slice :: "'a list \<Rightarrow> nat \<Rightarrow> nat \<Rightarrow> 'a list" where
  "slice xs a b = take (b - a) (drop a xs)"

lemma slice_length [simp]: "b \<le> length xs \<Longrightarrow> length (slice xs a b) = b - a"
  by (simp add: slice_def)

lemma slice_append: "a \<le> b \<Longrightarrow> b \<le> c \<Longrightarrow> slice xs a b @ slice xs b c = slice xs a c"
proof -
  assume le: "a \<le> b" "b \<le> c"
  then have "c - a = (b - a) + (c - b)" and "drop b xs = drop (b - a) (drop a xs)" by simp_all
  then show ?thesis unfolding slice_def by (metis take_add)
qed

lemma slice_empty [simp]: "slice xs a a = []"
  by (simp add: slice_def)

lemma slice_all: "slice xs a (length xs) = drop a xs"
  by (simp add: slice_def)

lemma build_simps [simp]:
  "pr_first (build size_of rd page end) = pg_offset page"
  "pr_end (build size_of rd page end) = end"
  "pr_chunk (build size_of rd page end) = slice (rd_text rd) (pg_offset page) end"
  "pr_has_more (build size_of rd page end) \<longleftrightarrow> end < length (rd_text rd)"
  by (simp_all add: build_def Let_def slice_def)

lemma requested_end_bounds:
  "pg_offset page \<le> length (rd_text rd) \<Longrightarrow>
   pg_offset page \<le> requested_end rd page \<and> requested_end rd page \<le> length (rd_text rd)"
  by (simp add: requested_end_def split: option.split)

lemma paged_text_result_Inr:
  assumes "paged_text_result size_of rd page = Inr r"
  obtains fin where "r = build size_of rd page fin" and "pg_offset page \<le> fin"
    and "fin \<le> requested_end rd page" and "fin \<le> pg_offset page + rd_cap rd"
    and "fin = pg_offset page \<Longrightarrow> requested_end rd page = pg_offset page"
    and "result_len size_of rd page r \<le> rd_cap rd" and "pg_offset page \<le> length (rd_text rd)"
proof -
  let ?start = "pg_offset page" and ?stop = "requested_end rd page"
  from assms have start: "?start \<le> length (rd_text rd)"
    by (auto simp: paged_text_result_def Let_def split: if_splits)
  from requested_end_bounds [OF this] have stop: "?start \<le> ?stop" by simp
  show ?thesis
  proof (cases "?stop - ?start \<le> rd_cap rd \<and> result_len size_of rd page (build size_of rd page ?stop) \<le> rd_cap rd")
    case True
    with assms start have "r = build size_of rd page ?stop" by (simp add: paged_text_result_def Let_def)
    with True start stop show ?thesis by (intro that [of ?stop]) auto
  next
    case False
    define lo where "lo = (if ?start < ?stop then ?start + 1 else ?start)"
    from assms start False obtain n where fit: "largest_fitting_result (\<lambda>n. build size_of rd page (nat n))
        (result_len size_of rd page) (rd_cap rd) (int lo) (min (int ?stop - 1) (int (?start + rd_cap rd))) None = Some (n, r)"
      by (auto simp: paged_text_result_def Let_def lo_def split: option.splits if_splits)
    from largest_fitting_Some [OF this] have n: "int lo \<le> n" "n \<le> int ?stop - 1" "n \<le> int (?start + rd_cap rd)"
      "r = build size_of rd page (nat n)" "result_len size_of rd page r \<le> rd_cap rd" by auto
    then have "?start < nat n" using stop by (auto simp: lo_def split: if_splits)
    with n start show ?thesis by (intro that [of "nat n"]) auto
  qed
qed

text \<open>
  a page fits, or says why not. A read that succeeds returns exactly the characters of the text
  from its offset to its reported fin, at least one while characters remain and the limit allows it,
  never more than the limit; its serialized result is within the cap; and it reports more to come
  exactly when the fin of the text is not reached. A read fails only when its offset is past the fin,
  or when the result with the smallest chunk is itself over the cap.
\<close>

theorem page_fits_or_says_why:
  assumes "\<And>c fs. 0 < size_of c fs"
  shows "case paged_text_result size_of rd page of
      Inr r \<Rightarrow> result_len size_of rd page r \<le> rd_cap rd
        \<and> pr_first r = pg_offset page \<and> pr_chunk r = slice (rd_text rd) (pg_offset page) (pr_end r)
        \<and> pr_end r \<le> requested_end rd page \<and> pr_end r \<ge> min (pg_offset page + 1) (requested_end rd page)
        \<and> (pr_has_more r \<longleftrightarrow> pr_end r < length (rd_text rd))
    | Inl (Past_End n) \<Rightarrow> pg_offset page > length (rd_text rd) \<and> n = length (rd_text rd)
    | Inl (Does_Not_Fit smallest) \<Rightarrow> smallest > rd_cap rd \<and> smallest = result_len size_of rd page
        (build size_of rd page (min (pg_offset page + 1) (requested_end rd page)))"
proof (cases "paged_text_result size_of rd page")
  case (Inr r)
  from paged_text_result_Inr [OF this] obtain fin where "r = build size_of rd page fin" "pg_offset page \<le> fin"
    "fin \<le> requested_end rd page" "fin = pg_offset page \<Longrightarrow> requested_end rd page = pg_offset page"
    "result_len size_of rd page r \<le> rd_cap rd" by metis
  with Inr show ?thesis by (cases "fin = pg_offset page") auto
next
  case (Inl e)
  let ?start = "pg_offset page" and ?stop = "requested_end rd page"
  show ?thesis
  proof (cases e)
    case (Past_End n)
    with Inl show ?thesis by (auto simp: paged_text_result_def Let_def split: if_splits option.splits)
  next
    case (Does_Not_Fit smallest)
    have start: "?start \<le> length (rd_text rd)"
      using Inl Does_Not_Fit by (auto simp: paged_text_result_def Let_def split: if_splits)
    note bounds = requested_end_bounds [OF this]
    define lo where "lo = (if ?start < ?stop then ?start + 1 else ?start)"
    have lo: "lo = min (?start + 1) ?stop" using bounds by (auto simp: lo_def)
    have whole: "\<not> (?stop - ?start \<le> rd_cap rd \<and> result_len size_of rd page (build size_of rd page ?stop) \<le> rd_cap rd)"
      using Inl start by (auto simp: paged_text_result_def Let_def)
    then have "largest_fitting_result (\<lambda>n. build size_of rd page (nat n)) (result_len size_of rd page) (rd_cap rd)
        (int lo) (min (int ?stop - 1) (int (?start + rd_cap rd))) None = None"
      and small: "smallest = result_len size_of rd page (build size_of rd page lo)"
      using Inl Does_Not_Fit start
      by (auto simp: paged_text_result_def Let_def lo_def split: if_splits option.splits)
    from largest_fitting_None [OF this(1)]
    have probed: "int lo \<le> min (int ?stop - 1) (int (?start + rd_cap rd)) \<Longrightarrow>
        \<not> result_len size_of rd page (build size_of rd page lo) \<le> rd_cap rd" by simp
    have "0 < smallest" using small assms by (simp add: result_len_def)
    have "smallest > rd_cap rd"
    proof (cases "lo = ?stop")
      case True
      then have "?stop - ?start \<le> 1" by (auto simp: lo_def split: if_splits)
      with whole True small \<open>0 < smallest\<close> show ?thesis by (cases "rd_cap rd") auto
    next
      case False
      then have "lo = ?start + 1" "lo < ?stop" using lo bounds by (auto simp: min_def split: if_splits)
      with probed small \<open>0 < smallest\<close> show ?thesis by (cases "rd_cap rd") auto
    qed
    with Inl Does_Not_Fit small lo show ?thesis by simp
  qed
qed

subsection \<open>Reading to the end\<close>

text \<open>Following \<open>next_offset\<close>, with a bound on the number of calls.\<close>

fun read_all :: "size_measure \<Rightarrow> reading \<Rightarrow> nat option \<Rightarrow> nat \<Rightarrow> nat \<Rightarrow> ptext list option" where
  "read_all size_of rd limit 0 offset = None"
| "read_all size_of rd limit (Suc calls) offset =
     (case paged_text_result size_of rd \<lparr>pg_offset = offset, pg_limit = limit\<rparr> of
        Inl _ \<Rightarrow> None
      | Inr r \<Rightarrow> if pr_has_more r then map_option ((#) (pr_chunk r)) (read_all size_of rd limit calls (pr_end r))
          else Some [pr_chunk r])"

lemma read_all_rest:
  assumes "\<And>offset. offset \<le> length (rd_text rd) \<Longrightarrow>
      \<exists>r. paged_text_result size_of rd \<lparr>pg_offset = offset, pg_limit = limit\<rparr> = Inr r"
    and "limit \<noteq> Some 0" and "offset \<le> length (rd_text rd)" and "length (rd_text rd) - offset < calls"
  shows "\<exists>chunks. read_all size_of rd limit calls offset = Some chunks \<and> concat chunks = drop offset (rd_text rd)"
  using assms(3,4)
proof (induction calls arbitrary: offset)
  case (Suc calls)
  let ?page = "\<lparr>pg_offset = offset, pg_limit = limit\<rparr>"
  from assms(1) [OF Suc.prems(1)] obtain r where r: "paged_text_result size_of rd ?page = Inr r" by blast
  obtain fin where fin: "r = build size_of rd ?page fin" "offset \<le> fin" "fin \<le> requested_end rd ?page"
    "fin = offset \<Longrightarrow> requested_end rd ?page = offset"
    using paged_text_result_Inr [OF r] by (metis page_request.select_convs(1))
  have fin_le: "fin \<le> length (rd_text rd)"
    using fin(3) requested_end_bounds [of ?page rd] Suc.prems(1) by simp
  show ?case
  proof (cases "fin < length (rd_text rd)")
    case False
    then show ?thesis using r fin(1) fin_le by (simp add: slice_all)
  next
    case True
    have "offset < fin"
    proof (rule ccontr)
      assume "\<not> offset < fin"
      with fin(2,4) have "requested_end rd ?page = offset" "fin = offset" by simp_all
      with True assms(2) show False by (auto simp: requested_end_def split: option.splits)
    qed
    with Suc.prems(2) fin_le have "length (rd_text rd) - fin < calls" by linarith
    then obtain chunks where chunks: "read_all size_of rd limit calls fin = Some chunks"
      "concat chunks = drop fin (rd_text rd)" using Suc.IH [OF fin_le] by blast
    have "slice (rd_text rd) offset fin @ drop fin (rd_text rd) = drop offset (rd_text rd)"
      using slice_append [OF fin(2) fin_le, of "rd_text rd"] by (simp add: slice_all)
    with chunks show ?thesis using r fin(1) True by simp
  qed
qed simp

text \<open>
  C39: the pages of a text are the text. If the cap leaves room for a page at every offset, then
  following \<open>next_offset\<close> from the start, with any limit, ends after at most one call per character
  and one more, and the chunks joined in order are the text.
\<close>

theorem pages_rebuild_the_text:
  assumes "\<And>offset. offset \<le> length (rd_text rd) \<Longrightarrow>
      \<exists>r. paged_text_result size_of rd \<lparr>pg_offset = offset, pg_limit = limit\<rparr> = Inr r"
    and "limit \<noteq> Some 0"
  shows "\<exists>chunks. read_all size_of rd limit (Suc (length (rd_text rd))) 0 = Some chunks
    \<and> concat chunks = rd_text rd"
  using read_all_rest [OF assms, of 0 "Suc (length (rd_text rd))"] by simp

subsection \<open>Widths\<close>

lemma escaped_append [simp]: "escaped (xs @ ys) = escaped xs + escaped ys"
  by (simp add: escaped_def)

lemma escaped_Nil [simp]: "escaped [] = 0"
  by (simp add: escaped_def)

lemma escaped_Cons [simp]: "escaped (c # s) = escaped_width c + escaped s"
  by (simp add: escaped_def)

lemma escaped_ge_length: "length s \<le> escaped s"
proof (induction s)
  case (Cons c s)
  have "1 \<le> escaped_width c" by (simp add: escaped_width_def)
  with Cons show ?case by (simp add: escaped_def)
qed simp

definition plain :: "char \<Rightarrow> bool" where
  "plain c \<longleftrightarrow> 32 \<le> cp c \<and> cp c \<le> 126 \<and> cp c \<noteq> 34 \<and> cp c \<noteq> 92"

lemma escaped_plain: "list_all plain s \<Longrightarrow> escaped (chars s) = length s"
  by (induction s) (auto simp: escaped_def chars_def plain_def escaped_width_def)

lemma escaped_numeral [simp]: "escaped (numeral_text n) = length (show_nat n)"
proof -
  have "list_all plain (show_nat n)"
    unfolding list_all_iff
  proof
    fix c assume "c \<in> set (show_nat n)"
    then have "48 \<le> cp c \<and> cp c \<le> 57" using show_nat_digits by (simp add: is_digit_def)
    then show "plain c" by (simp add: plain_def)
  qed
  then show ?thesis by (simp add: numeral_text_def escaped_plain)
qed

lemma show_nat_mono: "m \<le> n \<Longrightarrow> length (show_nat m) \<le> length (show_nat n)"
proof (induction n arbitrary: m rule: less_induct)
  case (less n)
  show ?case
  proof (cases "m < 10")
    case True
    then have "length (show_nat m) = 1" by (subst show_nat.simps) simp
    then show ?thesis by (simp add: Suc_leI)
  next
    case False
    then have "length (show_nat (m div 10)) \<le> length (show_nat (n div 10))"
      using less by (intro less.IH) (auto intro: div_le_mono)
    then show ?thesis using False less.prems
      by (subst (1 2) show_nat.simps) simp
  qed
qed

lemma widths_nth:
  assumes "start \<le> i" and "i \<le> reach rd start"
  shows "widths rd start ! (i - start) = escaped (slice (rd_text rd) start i)"
    and "i - start < length (widths rd start)"
proof -
  have "reach rd start \<le> length (rd_text rd)" by (simp add: reach_def)
  then have "i - start < Suc (min (length (rd_text rd) - start) (reach rd start - start))"
    and "\<And>k. min (i - start) (reach rd start - start) = i - start" using assms by auto
  then show "i - start < length (widths rd start)" "widths rd start ! (i - start) = escaped (slice (rd_text rd) start i)"
    by (simp_all add: widths_def Let_def slice_def take_take del: upt_Suc)
qed

lemma escaped_len_slice:
  assumes "start \<le> a" and "a \<le> b" and "b \<le> reach rd start"
  shows "escaped_len rd start a b = int (escaped (slice (rd_text rd) a b))"
proof -
  have "escaped (slice (rd_text rd) start b) = escaped (slice (rd_text rd) start a) + escaped (slice (rd_text rd) a b)"
    using slice_append [OF assms(1,2), of "rd_text rd"] by (metis escaped_append)
  then show ?thesis using assms by (simp add: escaped_len_def widths_nth)
qed

subsection \<open>Batches\<close>

text \<open>A batch that may be offered at \<open>end\<close> by a call whose chunk starts at \<open>start\<close>.\<close>

definition batch_ok :: "reading \<Rightarrow> int \<Rightarrow> nat \<Rightarrow> nat \<Rightarrow> nat \<Rightarrow> batch \<Rightarrow> bool" where
  "batch_ok rd left start end calls b \<longleftrightarrow>
     1 \<le> ba_limit b \<and> int (ba_limit b) \<le> left \<and> int (ba_limit b) \<le> int (length (rd_text rd)) - int end
     \<and> ba_offsets b = offsets_from rd end calls (ba_limit b)
     \<and> batch_fits rd left start (ba_limit b) (ba_offsets b)"

lemma batch_search_ok:
  "batch_search rd left start end calls lo hi best = Some b \<Longrightarrow> 1 \<le> lo \<Longrightarrow>
   hi \<le> min (int (length (rd_text rd)) - int end) left \<Longrightarrow>
   (\<And>c. best = Some c \<Longrightarrow> batch_ok rd left start end calls c) \<Longrightarrow> batch_ok rd left start end calls b"
proof (induction rd left start "end" calls lo hi best rule: batch_search.induct)
  case (1 rd left start fin calls lo hi best)
  show ?case
  proof (cases "lo \<le> hi")
    case True
    define mid where "mid = (lo + hi) div 2"
    define offs where "offs = offsets_from rd fin calls (nat mid)"
    have mid: "1 \<le> mid" "mid \<le> hi" using True "1.prems"(2) by (auto simp: mid_def)
    note unfold = batch_search.simps [of rd left start fin calls lo hi best]
    show ?thesis
    proof (cases "batch_fits rd left start (nat mid) offs")
      case fits: True
      show ?thesis
      proof (rule "1.IH"(1) [OF True mid_def offs_def fits])
        show "batch_search rd left start fin calls (mid + 1) hi (Some \<lparr>ba_limit = nat mid, ba_offsets = offs\<rparr>) = Some b"
          using "1.prems"(1) True fits by (simp add: unfold mid_def [symmetric] offs_def [symmetric] Let_def)
        fix c assume "Some \<lparr>ba_limit = nat mid, ba_offsets = offs\<rparr> = Some c"
        then show "batch_ok rd left start fin calls c"
          using mid "1.prems"(3) fits by (auto simp: batch_ok_def offs_def)
      qed (use mid "1.prems"(3) in auto)
    next
      case False
      show ?thesis
      proof (rule "1.IH"(2) [OF True mid_def offs_def False])
        show "batch_search rd left start fin calls lo (mid - 1) best = Some b"
          using "1.prems"(1) True False by (simp add: unfold mid_def [symmetric] offs_def [symmetric] Let_def)
      qed (use mid "1.prems"(2,3,4) in auto)
    qed
  next
    case False
    then show ?thesis using "1.prems"(1,4) by (simp add: batch_search.simps [of rd left start fin calls lo hi])
  qed
qed

lemma batch_of_ok: "batch_of rd left start end calls = Some b \<Longrightarrow> batch_ok rd left start end calls b"
  unfolding batch_of_def by (erule batch_search_ok) auto

lemma best_batch_ok:
  "best_batch rd left start end calls best = Some b \<Longrightarrow>
   (\<And>c. best = Some c \<Longrightarrow> \<exists>k \<le> limit. batch_ok rd left start end k c) \<Longrightarrow> calls \<le> limit \<Longrightarrow>
   \<exists>k \<le> limit. batch_ok rd left start end k b"
proof (induction rd left start "end" calls best rule: best_batch.induct)
  case (2 rd left start fin calls best)
  show ?case
  proof (cases "batch_of rd left start fin (Suc calls)")
    case None
    with 2 show ?thesis by simp
  next
    case (Some d)
    from batch_of_ok [OF this] "2.prems"(3) have "\<exists>k \<le> limit. batch_ok rd left start fin k d" by blast
    with 2 Some show ?thesis by (auto split: option.splits if_splits)
  qed
qed simp

lemma batch_after_ok:
  assumes "batch_after rd left start end = Some b"
  shows "\<exists>k \<le> batch_chunks (rd_cap rd). batch_ok rd left start end k b" and "1 < length (ba_offsets b)"
proof -
  from assms have "best_batch rd left start end (batch_chunks (rd_cap rd)) None = Some b"
    and "1 < length (ba_offsets b)" by (auto simp: batch_after_def split: option.splits if_splits)
  from best_batch_ok [OF this(1)] this(2)
  show "\<exists>k \<le> batch_chunks (rd_cap rd). batch_ok rd left start end k b" "1 < length (ba_offsets b)" by auto
qed

lemma range_list_elems:
  "x \<in> set (range_list first stop step) \<Longrightarrow> first \<le> x \<and> x < stop \<and> step dvd (x - first)"
proof (induction first stop step rule: range_list.induct)
  case (1 first stop step)
  show ?case
  proof (cases "step = 0 \<or> first \<ge> stop")
    case True
    with "1.prems" show ?thesis by (simp add: range_list.simps [of first])
  next
    case False
    with "1.prems" have "x = first \<or> x \<in> set (range_list (first + step) stop step)"
      by (simp add: range_list.simps [of first])
    then show ?thesis
    proof
      assume "x \<in> set (range_list (first + step) stop step)"
      from "1.IH" [OF False this] have ih: "first + step \<le> x" "x < stop" "step dvd (x - (first + step))" by simp_all
      then have "x - first = step + (x - (first + step))" by simp
      then show ?thesis using ih by (metis add_leD1 dvd_add_triv_left_iff)
    qed (use False in simp)
  qed
qed

lemma range_list_count: "0 < step \<Longrightarrow> stop \<le> first + n * step \<Longrightarrow> length (range_list first stop step) \<le> n"
proof (induction first stop step arbitrary: n rule: range_list.induct)
  case (1 first stop step)
  show ?case
  proof (cases "first \<ge> stop")
    case True
    then show ?thesis by (simp add: range_list.simps [of first])
  next
    case False
    with "1.prems" obtain m where n: "n = Suc m" by (cases n) auto
    have "length (range_list (first + step) stop step) \<le> m"
      by (rule "1.IH") (use False "1.prems" n in auto)
    with False "1.prems" n show ?thesis by (simp add: range_list.simps [of first])
  qed
qed

lemma range_list_slices:
  "0 < step \<Longrightarrow> first < stop \<Longrightarrow> stop \<le> length xs \<Longrightarrow>
   concat (map (\<lambda>o'. slice xs o' (min (o' + step) (length xs))) (range_list first stop step))
   = slice xs first (min (last (range_list first stop step) + step) (length xs))"
proof (induction first stop step rule: range_list.induct)
  case (1 first stop step)
  show ?case
  proof (cases "first + step < stop")
    case True
    let ?rest = "range_list (first + step) stop step"
    have ne: "?rest \<noteq> []" using True "1.prems" by (subst range_list.simps) simp
    have "concat (map (\<lambda>o'. slice xs o' (min (o' + step) (length xs))) ?rest)
        = slice xs (first + step) (min (last ?rest + step) (length xs))"
      by (rule "1.IH") (use True "1.prems" in auto)
    moreover have "first + step \<le> last ?rest" "last ?rest < stop"
      using range_list_elems [OF last_in_set [OF ne]] by simp_all
    moreover have "range_list first stop step = first # ?rest"
      using "1.prems" by (simp add: range_list.simps [of first])
    ultimately show ?thesis using ne True "1.prems"
      by (simp add: slice_append min_def)
  next
    case False
    then have "range_list (first + step) stop step = []" by (subst range_list.simps) simp
    then have "range_list first stop step = [first]" using "1.prems" by (simp add: range_list.simps [of first])
    then show ?thesis by simp
  qed
qed

text \<open>Every position a batch reads lies in the window whose widths were summed.\<close>

lemma batch_ok_offset:
  assumes "batch_ok rd left start end calls b" and "start \<le> end" and "end \<le> start + rd_cap rd"
    and "calls \<le> batch_chunks (rd_cap rd)" and "left \<le> int (rd_cap rd)" and "x \<in> set (ba_offsets b)"
  shows "end \<le> x" and "x < length (rd_text rd)" and "min (x + ba_limit b) (length (rd_text rd)) \<le> reach rd start"
    and "int (escaped (slice (rd_text rd) x (min (x + ba_limit b) (length (rd_text rd))))) \<le> left"
proof -
  let ?w = "ba_limit b" and ?n = "length (rd_text rd)"
  have b: "1 \<le> ?w" "int ?w \<le> left" "ba_offsets b = offsets_from rd end calls ?w"
    "batch_fits rd left start ?w (ba_offsets b)" using assms(1) unfolding batch_ok_def by blast+
  from assms(6) have x: "end \<le> x" "x < ?n" "x < end + calls * ?w" "?w dvd (x - end)"
    using range_list_elems [OF assms(6) [unfolded b(3) offsets_from_def]] by simp_all
  then show "end \<le> x" "x < ?n" by simp_all
  have "x + ?w \<le> end + calls * ?w"
  proof -
    from x(4) obtain k where k: "x - end = ?w * k" by blast
    have "x - end < calls * ?w" using x(1,3) by linarith
    then have "k * ?w < calls * ?w" unfolding k by (simp only: mult.commute)
    then have "Suc k \<le> calls" by simp
    then have "Suc k * ?w \<le> calls * ?w" by (rule mult_le_mono1)
    with k x(1) show ?thesis by (simp add: mult.commute)
  qed
  also have "\<dots> \<le> (start + rd_cap rd) + batch_chunks (rd_cap rd) * rd_cap rd"
    using assms(3,4,5) b(2) by (intro add_mono mult_le_mono) auto
  finally show reach: "min (x + ?w) ?n \<le> reach rd start" by (auto simp: reach_def algebra_simps)
  have "escaped_len rd start x (min (x + ?w) ?n) \<le> left"
    using b(4) assms(6) by (simp add: batch_fits_def list_all_iff)
  then show "int (escaped (slice (rd_text rd) x (min (x + ?w) ?n))) \<le> left"
    using escaped_len_slice [OF _ _ reach, of x] x assms(2) by simp
qed

subsection \<open>The envelope\<close>

text \<open>
  What is assumed of the SDK's wrapper: the confirmation and the data are each serialized once, in a
  result that is otherwise of a fixed length; and the identifying fields are none of the position fields.
\<close>

definition wraps_once :: "size_measure \<Rightarrow> bool" where
  "wraps_once size_of \<longleftrightarrow> (\<exists>base. \<forall>c fs. size_of c fs = base + escaped c + object_len fs)"

definition position_fields :: "string set" where
  "position_fields = {''offset'', ''returned_chars'', ''total_chars'', ''next_offset'', ''truncated'',
     ''batch_limit'', ''batch_offsets'', ''content_sha256'', ''content''}"

definition fresh_data :: "reading \<Rightarrow> bool" where
  "fresh_data rd \<longleftrightarrow> set (map fst (rd_data rd)) \<inter> position_fields = {}"

lemma dict_put_fresh: "k \<notin> fst ` set d \<Longrightarrow> dict_put k v d = d @ [(k, v)]"
  unfolding dict_put_def by (induction d) auto

definition tail_fields :: "reading \<Rightarrow> page_result \<Rightarrow> (string \<times> json) list" where
  "tail_fields rd r =
     [(''offset'', JNum (pr_first r)), (''returned_chars'', JNum (pr_returned r)),
      (''total_chars'', JNum (length (rd_text rd))),
      (''next_offset'', if pr_has_more r then JNum (pr_end r) else JNull), (''truncated'', JBool (pr_has_more r))]
     @ (case (pr_has_more r, pr_batch r) of
          (True, Some b) \<Rightarrow> [(''batch_limit'', JNum (ba_limit b)), (''batch_offsets'', JArr (ba_offsets b))]
        | _ \<Rightarrow> [])
     @ [(''content_sha256'', JStr (rd_digest rd)), (''content'', JStr (pr_chunk r))]"

lemma page_fields_fresh:
  assumes "fresh_data rd"
  shows "page_fields rd r = rd_data rd @ tail_fields rd r"
proof -
  have fresh: "k \<notin> fst ` set (rd_data rd)" if "k \<in> position_fields" for k
    using assms that by (auto simp: fresh_data_def)
  note keys = fresh [unfolded position_fields_def]
  show ?thesis
    by (simp add: page_fields_def tail_fields_def Let_def dict_put_fresh keys image_Un split: option.split bool.split)
qed

definition field_len :: "string \<times> json \<Rightarrow> nat" where
  "field_len f = 4 + escaped (chars (fst f)) + json_len (snd f)"

lemma object_len_append:
  "object_len (xs @ ys) = 2 + sum_list (map field_len xs) + sum_list (map field_len ys)
     + separators (length xs + length ys)"
proof -
  have "(\<lambda>(k, v). 2 + escaped (chars k) + 2 + json_len v) = field_len"
    by (auto simp: fun_eq_iff field_len_def)
  then show ?thesis unfolding object_len_def by simp
qed

lemma separators_mono: "m \<le> n \<Longrightarrow> separators m \<le> separators n"
  by (simp add: separators_def)

lemma offsets_len_le:
  assumes "\<And>x. x \<in> set xs \<Longrightarrow> x \<le> t" and "length xs \<le> n"
  shows "json_len (JArr xs) \<le> json_len (JArr (replicate n t))"
proof -
  have "sum_list (map (\<lambda>n. length (show_nat n)) xs) \<le> length xs * length (show_nat t)"
    using assms(1) by (induction xs) (auto intro: add_mono show_nat_mono)
  also have "\<dots> \<le> n * length (show_nat t)" using assms(2) by simp
  finally show ?thesis
    using separators_mono [OF assms(2)] by (simp add: sum_list_replicate map_replicate)
qed

text \<open>A result whose positions lie in the text and that carries no note of a shortened page.\<close>

definition in_envelope :: "reading \<Rightarrow> page_request \<Rightarrow> page_result \<Rightarrow> bool" where
  "in_envelope rd page r \<longleftrightarrow>
     pr_first r \<le> length (rd_text rd) \<and> pr_end r \<le> length (rd_text rd) \<and> pr_returned r \<le> length (rd_text rd)
     \<and> \<not> pr_end r < requested_end rd page \<and> requested_end rd page \<le> length (rd_text rd)
     \<and> (\<forall>b. pr_batch r = Some b \<longrightarrow> batch_chunks (rd_cap rd) \<noteq> 0 \<and> ba_limit b \<le> length (rd_text rd)
          \<and> (\<forall>x \<in> set (ba_offsets b). x \<le> length (rd_text rd))
          \<and> length (ba_offsets b) \<le> batch_chunks (rd_cap rd))"

lemma in_envelopeD:
  assumes "in_envelope rd page r"
  shows "pr_first r \<le> length (rd_text rd)" and "pr_end r \<le> length (rd_text rd)"
    and "pr_returned r \<le> length (rd_text rd)"
    and "\<not> pr_end r < requested_end rd page" and "\<not> length (rd_text rd) < requested_end rd page"
    and "pr_batch r = Some b \<Longrightarrow> batch_chunks (rd_cap rd) \<noteq> 0 \<and> ba_limit b \<le> length (rd_text rd)
      \<and> json_len (JArr (ba_offsets b))
        \<le> json_len (JArr (replicate (batch_chunks (rd_cap rd)) (length (rd_text rd))))"
  using assms offsets_len_le unfolding in_envelope_def by auto

lemma escaped_confirmation:
  assumes "\<not> pr_end r < requested_end rd page"
  shows "escaped (confirmation rd page r) =
    escaped (chars ''Read '') + escaped (rd_subject rd) + escaped (chars '': characters '')
    + length (show_nat (pr_first r)) + 6 + length (show_nat (pr_end r)) + escaped (chars '' of '')
    + length (show_nat (length (rd_text rd))) + escaped (chars ''.'')
    + (if \<not> pr_has_more r then 13
       else case pr_batch r of
          None \<Rightarrow> 59 + escaped (rd_tool_name rd) + length (show_nat (pr_end r))
        | Some b \<Rightarrow> 135 + escaped (rd_tool_name rd) + length (show_nat (ba_limit b)) + length (show_nat (pr_end r)))"
proof -
  have dash: "escaped_width 8211 = 6" by (simp add: escaped_width_def)
  have lit: "escaped (chars '' End of file.'') = 13" "escaped (chars '' More remains; call '') = 20"
    "escaped (chars '' again with offset='') = 19" "escaped (chars '' for the next chunk.'') = 20"
    "escaped (chars '' More remains: call '') = 20"
    "escaped (chars '' once for each offset in batch_offsets with limit='') = 50"
    "escaped (chars '', all in one response (or with offset='') = 38"
    "escaped (chars '' for the next chunk alone).'') = 27"
    by (subst escaped_plain; simp add: plain_def cp_def)+
  show ?thesis using assms
    by (simp add: confirmation_def lit dash split: option.split)
qed

lemma empty_result_simps [simp]:
  "pr_first (empty_result rd w m) = length (rd_text rd)" "pr_end (empty_result rd w m) = length (rd_text rd)"
  "pr_chunk (empty_result rd w m) = []" "pr_batch (empty_result rd w m) = w" "pr_has_more (empty_result rd w m) = m"
  "pr_returned (empty_result rd w m) = length (rd_text rd)"
  by (simp_all add: empty_result_def Let_def)

text \<open>The counterpart of a result among the two that the envelope is measured on.\<close>

definition widest_of :: "reading \<Rightarrow> page_result \<Rightarrow> page_result" where
  "widest_of rd r = (if pr_has_more r then empty_result rd (widest_batch rd) True else empty_result rd None False)"

lemma confirmation_le:
  assumes "in_envelope rd page r"
  shows "escaped (confirmation rd page r) \<le> escaped (confirmation rd page (widest_of rd r))"
proof -
  note d = in_envelopeD [OF assms]
  have "\<not> pr_end (widest_of rd r) < requested_end rd page" using d(5) by (simp add: widest_of_def)
  note e = escaped_confirmation [OF d(4)] escaped_confirmation [OF this]
  have le: "length (show_nat (pr_first r)) \<le> length (show_nat (length (rd_text rd)))"
    "length (show_nat (pr_end r)) \<le> length (show_nat (length (rd_text rd)))"
    using d(1,2) by (simp_all add: show_nat_mono)
  have ba: "length (show_nat (ba_limit b)) \<le> length (show_nat (length (rd_text rd)))" if "pr_batch r = Some b" for b
    using d(6) [OF that] by (simp add: show_nat_mono)
  show ?thesis
  proof (cases "pr_has_more r")
    case False
    with e le show ?thesis by (simp add: widest_of_def)
  next
    case True
    show ?thesis
    proof (cases "pr_batch r")
      case None
      with e le True show ?thesis by (simp add: widest_of_def widest_batch_def)
    next
      case (Some b)
      with d(6) [OF Some] ba [OF Some] e le True show ?thesis by (simp add: widest_of_def widest_batch_def)
    qed
  qed
qed

lemma fields_le:
  assumes "in_envelope rd page r" and "fresh_data rd"
  shows "object_len (page_fields rd r) \<le> object_len (page_fields rd (widest_of rd r)) + escaped (pr_chunk r)"
proof -
  note d = in_envelopeD [OF assms(1)]
  have le: "length (show_nat (pr_first r)) \<le> length (show_nat (length (rd_text rd)))"
    "length (show_nat (pr_end r)) \<le> length (show_nat (length (rd_text rd)))"
    "length (show_nat (pr_returned r)) \<le> length (show_nat (length (rd_text rd)))"
    using d(1-3) by (simp_all add: show_nat_mono)
  have sums: "sum_list (map field_len (tail_fields rd r))
      \<le> sum_list (map field_len (tail_fields rd (widest_of rd r))) + escaped (pr_chunk r)
    \<and> length (tail_fields rd r) \<le> length (tail_fields rd (widest_of rd r))"
  proof (cases "pr_has_more r")
    case False
    with le show ?thesis by (simp add: widest_of_def tail_fields_def field_len_def)
  next
    case True
    show ?thesis
    proof (cases "pr_batch r")
      case None
      with le True show ?thesis by (simp add: widest_of_def tail_fields_def field_len_def widest_batch_def)
    next
      case (Some b)
      have ba: "length (show_nat (ba_limit b)) \<le> length (show_nat (length (rd_text rd)))"
        using d(6) [OF Some] by (simp add: show_nat_mono)
      with le True Some d(6) [OF Some] show ?thesis
        by (simp add: widest_of_def tail_fields_def field_len_def widest_batch_def del: json_len.simps(5))
    qed
  qed
  then show ?thesis
    using separators_mono [of "length (rd_data rd) + length (tail_fields rd r)"
        "length (rd_data rd) + length (tail_fields rd (widest_of rd r))"]
    by (simp add: page_fields_fresh [OF assms(2)] object_len_append)
qed

lemma result_len_le:
  assumes "in_envelope rd page r" and "fresh_data rd" and "wraps_once size_of"
  shows "result_len size_of rd page r \<le> envelope size_of rd page + escaped (pr_chunk r)"
proof -
  from assms(3) obtain base where base: "\<And>c fs. size_of c fs = base + escaped c + object_len fs"
    unfolding wraps_once_def by blast
  have "result_len size_of rd page r \<le> result_len size_of rd page (widest_of rd r) + escaped (pr_chunk r)"
    using confirmation_le [OF assms(1)] fields_le [OF assms(1,2)] by (simp add: result_len_def base)
  also have "result_len size_of rd page (widest_of rd r) \<le> envelope size_of rd page"
    by (simp add: widest_of_def envelope_def)
  finally show ?thesis by simp
qed

subsection \<open>Batched calls return exactly what they promise\<close>

lemma requested_end_le: "requested_end rd page \<le> length (rd_text rd)"
  by (simp add: requested_end_def split: option.split)

lemma envelope_same: "envelope size_of rd page = envelope size_of rd page'"
proof -
  have "\<not> length (rd_text rd) < requested_end rd p" for p using requested_end_le [of rd p] by simp
  then have "confirmation rd page (empty_result rd w m) = confirmation rd page' (empty_result rd w m)" for w m
    by (simp add: confirmation_def split: option.split)
  then show ?thesis by (simp add: envelope_def result_len_def)
qed

lemma room_same: "room size_of rd page = room size_of rd page'"
  unfolding room_def by (simp add: envelope_same [of size_of rd page page'])

lemma build_batch:
  assumes "pr_batch (build size_of rd page end) = Some b"
  shows "batch_chunks (rd_cap rd) \<noteq> 0" and "batch_after rd (room size_of rd page) (pg_offset page) end = Some b"
    and "end < length (rd_text rd)"
  using assms by (auto simp: build_def Let_def split: if_splits)

lemma room_le: "room size_of rd page \<le> int (rd_cap rd)"
  by (simp add: room_def)

lemma build_in_envelope:
  assumes "pg_offset page \<le> end" and "end \<le> length (rd_text rd)" and "end = requested_end rd page"
    and "end \<le> pg_offset page + rd_cap rd"
  shows "in_envelope rd page (build size_of rd page end)"
proof -
  have ret: "pr_returned (build size_of rd page end) = end - pg_offset page"
    using assms(2) by (simp add: build_def Let_def)
  have "ba_limit b \<le> length (rd_text rd) \<and> (\<forall>x \<in> set (ba_offsets b). x \<le> length (rd_text rd))
      \<and> length (ba_offsets b) \<le> batch_chunks (rd_cap rd) \<and> batch_chunks (rd_cap rd) \<noteq> 0"
    if b: "pr_batch (build size_of rd page end) = Some b" for b
  proof -
    note bb = build_batch [OF b]
    from batch_after_ok [OF bb(2)] obtain k where k: "k \<le> batch_chunks (rd_cap rd)"
      "batch_ok rd (room size_of rd page) (pg_offset page) end k b" by blast
    have lim: "1 \<le> ba_limit b" "int (ba_limit b) \<le> int (length (rd_text rd)) - int end"
      "ba_offsets b = offsets_from rd end k (ba_limit b)" using k(2) unfolding batch_ok_def by blast+
    have "length (ba_offsets b) \<le> k"
      unfolding lim(3) offsets_from_def using lim(1) by (intro range_list_count) auto
    moreover have "\<forall>x \<in> set (ba_offsets b). x \<le> length (rd_text rd)"
      using batch_ok_offset(2) [OF k(2) assms(1,4) k(1) room_le] by (simp add: less_imp_le)
    ultimately show ?thesis using lim(2) k(1) bb(1) by auto
  qed
  then show ?thesis
    unfolding in_envelope_def using assms ret requested_end_le [of rd page] by auto
qed

lemma batched_call:
  assumes "fresh_data rd" and "wraps_once size_of" and "x < length (rd_text rd)" and "1 \<le> w"
    and "int w \<le> room size_of rd \<lparr>pg_offset = x, pg_limit = Some w\<rparr>"
    and "int (escaped (slice (rd_text rd) x (min (x + w) (length (rd_text rd)))))
      \<le> room size_of rd \<lparr>pg_offset = x, pg_limit = Some w\<rparr>"
  shows "paged_text_result size_of rd \<lparr>pg_offset = x, pg_limit = Some w\<rparr> =
    Inr (build size_of rd \<lparr>pg_offset = x, pg_limit = Some w\<rparr> (min (x + w) (length (rd_text rd))))"
proof -
  let ?page = "\<lparr>pg_offset = x, pg_limit = Some w\<rparr>" and ?stop = "min (x + w) (length (rd_text rd))"
  have stop: "requested_end rd ?page = ?stop" by (simp add: requested_end_def)
  have w: "w \<le> rd_cap rd" using assms(5) room_le [of size_of rd ?page] by linarith
  have env: "in_envelope rd ?page (build size_of rd ?page ?stop)"
    by (rule build_in_envelope) (use assms(3) w stop in auto)
  have "result_len size_of rd ?page (build size_of rd ?page ?stop)
      \<le> envelope size_of rd ?page + escaped (slice (rd_text rd) x ?stop)"
    using result_len_le [OF env assms(1,2)] by simp
  also have "\<dots> \<le> rd_cap rd" using assms(6) by (simp add: room_def)
  finally have "result_len size_of rd ?page (build size_of rd ?page ?stop) \<le> rd_cap rd" .
  moreover have "?stop - x \<le> rd_cap rd" using w by simp
  ultimately show ?thesis using assms(3) unfolding paged_text_result_def Let_def stop by simp
qed

text \<open>
  C40: a batch keeps its promise. If a read offers a batch, then it offers at least two and at most
  \<open>MAX_BATCH_CHARS div cap\<close> offsets, the first where the read's own chunk ends; a call at each of them
  with the batch's limit succeeds under the cap and returns exactly that many characters (the rest
  of the text at its end); and the chunks joined in order continue the text without a gap. Assumed is
  that the wrapper serializes the confirmation and the data once, and that the identifying fields are
  not named like position fields.
\<close>

theorem batch_keeps_its_promise:
  assumes "wraps_once size_of" and "fresh_data rd" and "paged_text_result size_of rd page = Inr r"
    and "pr_batch r = Some b"
  shows "hd (ba_offsets b) = pr_end r \<and> 2 \<le> length (ba_offsets b)
    \<and> length (ba_offsets b) * rd_cap rd \<le> MAX_BATCH_CHARS
    \<and> (\<forall>x \<in> set (ba_offsets b). \<exists>r'. paged_text_result size_of rd \<lparr>pg_offset = x, pg_limit = Some (ba_limit b)\<rparr> = Inr r'
        \<and> pr_chunk r' = slice (rd_text rd) x (min (x + ba_limit b) (length (rd_text rd))))
    \<and> concat (map (\<lambda>x. slice (rd_text rd) x (min (x + ba_limit b) (length (rd_text rd)))) (ba_offsets b))
      = slice (rd_text rd) (pr_end r) (min (last (ba_offsets b) + ba_limit b) (length (rd_text rd)))"
proof -
  obtain fin where fin: "r = build size_of rd page fin" "pg_offset page \<le> fin" "fin \<le> pg_offset page + rd_cap rd"
    using paged_text_result_Inr [OF assms(3)] by metis
  have "pr_batch (build size_of rd page fin) = Some b" using assms(4) fin(1) by simp
  note bb = build_batch [OF this]
  from batch_after_ok [OF bb(2)] obtain k where k: "k \<le> batch_chunks (rd_cap rd)"
    "batch_ok rd (room size_of rd page) (pg_offset page) fin k b" and two: "1 < length (ba_offsets b)" by blast
  let ?w = "ba_limit b" and ?n = "length (rd_text rd)"
  have w: "1 \<le> ?w" "int ?w \<le> room size_of rd page" "ba_offsets b = offsets_from rd fin k ?w"
    using k(2) unfolding batch_ok_def by blast+
  define stop where "stop = min ?n (fin + k * ?w)"
  have offs: "ba_offsets b = range_list fin stop ?w" by (simp add: w(3) offsets_from_def stop_def)
  have ne: "range_list fin stop ?w \<noteq> []" using two offs by auto
  then have lt: "fin < stop" by (subst (asm) range_list.simps) (auto split: if_splits)
  have hd: "hd (ba_offsets b) = fin" unfolding offs using lt w(1) by (subst range_list.simps) simp
  have "length (ba_offsets b) \<le> k"
    unfolding offs using w(1) by (intro range_list_count) (auto simp: stop_def)
  then have "length (ba_offsets b) * rd_cap rd \<le> batch_chunks (rd_cap rd) * rd_cap rd"
    using k(1) by (intro mult_le_mono1) simp
  also have "\<dots> \<le> MAX_BATCH_CHARS" by (simp add: batch_chunks_def Let_def)
  finally have count: "length (ba_offsets b) * rd_cap rd \<le> MAX_BATCH_CHARS" .
  have calls: "\<exists>r'. paged_text_result size_of rd \<lparr>pg_offset = x, pg_limit = Some ?w\<rparr> = Inr r'
      \<and> pr_chunk r' = slice (rd_text rd) x (min (x + ?w) ?n)" if x: "x \<in> set (ba_offsets b)" for x
  proof -
    note o = batch_ok_offset [OF k(2) fin(2,3) k(1) room_le x]
    have "paged_text_result size_of rd \<lparr>pg_offset = x, pg_limit = Some ?w\<rparr> =
        Inr (build size_of rd \<lparr>pg_offset = x, pg_limit = Some ?w\<rparr> (min (x + ?w) ?n))"
      by (rule batched_call [OF assms(2,1) o(2) w(1)])
        (use w(2) o(4) room_same [of size_of rd page "\<lparr>pg_offset = x, pg_limit = Some ?w\<rparr>"] in simp_all)
    then show ?thesis by simp
  qed
  have "concat (map (\<lambda>x. slice (rd_text rd) x (min (x + ?w) ?n)) (ba_offsets b))
      = slice (rd_text rd) fin (min (last (ba_offsets b) + ?w) ?n)"
    unfolding offs using w(1) lt by (intro range_list_slices) (auto simp: stop_def)
  then show ?thesis using hd two count calls fin(1) by simp
qed

subsection \<open>Witnesses\<close>

text \<open>Seven letters under a cap that leaves room for two characters a page.\<close>

definition demo_reading :: reading where
  "demo_reading = \<lparr>rd_text = [97, 98, 99, 100, 101, 102, 103], rd_digest = [], rd_tool_name = [],
     rd_subject = [], rd_data = [], rd_cap = 8000\<rparr>"

definition demo_size :: size_measure where
  "demo_size c fs = 7657 + escaped c + object_len fs"

definition demo_page :: page_request where
  "demo_page = \<lparr>pg_offset = 0, pg_limit = Some 2\<rparr>"

lemma demo_wrap: "wraps_once demo_size" "fresh_data demo_reading" "0 < demo_size c fs"
  by (auto simp: wraps_once_def demo_size_def fresh_data_def demo_reading_def)

lemma show_digit [simp]: "n < 10 \<Longrightarrow> show_nat n = [digit_char n]"
  by (subst show_nat.simps) simp

lemma demo_room: "room demo_size demo_reading \<lparr>pg_offset = 0, pg_limit = l\<rparr> = 2"
proof -
  let ?page = "\<lparr>pg_offset = 0, pg_limit = l\<rparr>"
  have "page_fields demo_reading r = tail_fields demo_reading r" for r
    using page_fields_fresh [OF demo_wrap(2)] by (simp add: demo_reading_def)
  then have fields: "object_len (page_fields demo_reading r) = 2 + sum_list (map field_len (tail_fields demo_reading r))
      + separators (length (tail_fields demo_reading r))" for r
    using object_len_append [of "[]" "tail_fields demo_reading r"] by simp
  have lit: "escaped (chars ''offset'') = 6" "escaped (chars ''returned_chars'') = 14" "escaped (chars ''total_chars'') = 11"
    "escaped (chars ''next_offset'') = 11" "escaped (chars ''truncated'') = 9" "escaped (chars ''batch_limit'') = 11"
    "escaped (chars ''batch_offsets'') = 13" "escaped (chars ''content_sha256'') = 14" "escaped (chars ''content'') = 7"
    "escaped (chars ''Read '') = 5" "escaped (chars '': characters '') = 13" "escaped (chars '' of '') = 4"
    "escaped (chars ''.'') = 1"
    by (subst escaped_plain; simp add: plain_def cp_def)+
  have "\<not> pr_end (empty_result demo_reading w m) < requested_end demo_reading ?page" for w m
    using requested_end_le [of demo_reading ?page] by simp
  note conf = escaped_confirmation [OF this]
  show ?thesis
    by (simp add: room_def envelope_def result_len_def demo_size_def conf fields)
      (simp add: demo_reading_def tail_fields_def field_len_def lit widest_batch_def batch_chunks_def
        MAX_BATCH_CHARS_def separators_def numeral_3_eq_3)
qed

lemma demo_read:
  "paged_text_result demo_size demo_reading demo_page = Inr (build demo_size demo_reading demo_page 2)"
proof -
  have "paged_text_result demo_size demo_reading \<lparr>pg_offset = 0, pg_limit = Some 2\<rparr> =
      Inr (build demo_size demo_reading \<lparr>pg_offset = 0, pg_limit = Some 2\<rparr> (min (0 + 2) (length (rd_text demo_reading))))"
    by (rule batched_call [OF demo_wrap(2,1)])
      (simp_all add: demo_room, simp_all add: demo_reading_def slice_def escaped_width_def)
  moreover have "min (0 + 2) (length (rd_text demo_reading)) = 2" by (simp add: demo_reading_def)
  ultimately show ?thesis unfolding demo_page_def by (simp only:)
qed

lemma demo_batch:
  "pr_batch (build demo_size demo_reading demo_page 2) = Some \<lparr>ba_limit = 2, ba_offsets = [2, 4, 6]\<rparr>"
proof -
  have "batch_after demo_reading 2 0 2 = Some \<lparr>ba_limit = 2, ba_offsets = [2, 4, 6]\<rparr>"
    by (simp add: batch_after_def batch_chunks_def demo_reading_def MAX_BATCH_CHARS_def numeral_3_eq_3
        batch_of_def batch_search.simps offsets_from_def range_list.simps batch_fits_def escaped_len_def
        widths_def reach_def covered_def Let_def escaped_width_def upt_rec)
  then show ?thesis
    by (simp add: build_def demo_page_def demo_room Let_def)
      (simp add: demo_reading_def batch_chunks_def MAX_BATCH_CHARS_def)
qed

lemma batch_keeps_its_promise_witness:
  "\<exists>r'. paged_text_result demo_size demo_reading \<lparr>pg_offset = 6, pg_limit = Some 2\<rparr> = Inr r' \<and> pr_chunk r' = [103]"
  using batch_keeps_its_promise [OF demo_wrap(1,2) demo_read demo_batch]
  by (simp add: demo_reading_def slice_def)

lemma page_fits_or_says_why_witness: "result_len demo_size demo_reading demo_page (build demo_size demo_reading demo_page 2) \<le> 8000"
  using page_fits_or_says_why [where size_of = demo_size and rd = demo_reading and page = demo_page, OF demo_wrap(3)]
  by (simp add: demo_read) (simp add: demo_reading_def)

lemma escaped_narrow: "\<forall>c \<in> set xs. escaped_width c = 1 \<Longrightarrow> escaped xs = length xs"
  by (induction xs) auto

lemma demo_every_offset:
  assumes "offset \<le> length (rd_text demo_reading)"
  shows "\<exists>r. paged_text_result demo_size demo_reading \<lparr>pg_offset = offset, pg_limit = Some 2\<rparr> = Inr r"
proof (cases "offset = 7")
  case True
  let ?page = "\<lparr>pg_offset = 7, pg_limit = Some 2\<rparr>"
  have stop: "requested_end demo_reading ?page = 7" by (simp add: requested_end_def demo_reading_def)
  have "in_envelope demo_reading ?page (build demo_size demo_reading ?page 7)"
    by (rule build_in_envelope) (simp_all add: stop, simp_all add: demo_reading_def)
  from result_len_le [OF this demo_wrap(2,1)]
  have "result_len demo_size demo_reading ?page (build demo_size demo_reading ?page 7) \<le> envelope demo_size demo_reading ?page"
    by simp
  also have "int \<dots> \<le> 8000" using demo_room [of "Some 2"] room_same [of demo_size demo_reading ?page "\<lparr>pg_offset = 0, pg_limit = Some 2\<rparr>"]
    by (simp add: room_def) (simp add: demo_reading_def)
  finally show ?thesis using True by (simp add: paged_text_result_def Let_def stop) (simp add: demo_reading_def)
next
  case False
  then have lt: "offset < length (rd_text demo_reading)" using assms by (simp add: demo_reading_def)
  let ?page = "\<lparr>pg_offset = offset, pg_limit = Some 2\<rparr>"
  have room: "room demo_size demo_reading ?page = 2"
    using demo_room room_same [of demo_size demo_reading ?page] by metis
  let ?s = "slice (rd_text demo_reading) offset (min (offset + 2) (length (rd_text demo_reading)))"
  have "set ?s \<subseteq> set (rd_text demo_reading)"
    unfolding slice_def by (meson order_trans set_drop_subset set_take_subset)
  then have "\<forall>c \<in> set ?s. escaped_width c = 1" by (auto simp: demo_reading_def escaped_width_def)
  then have narrow: "escaped ?s = length ?s" by (rule escaped_narrow)
  have "length ?s \<le> 2" using lt by simp
  then have "int (escaped ?s) \<le> room demo_size demo_reading ?page" unfolding room narrow by simp
  moreover have "int 2 \<le> room demo_size demo_reading ?page" unfolding room by simp
  ultimately show ?thesis using batched_call [OF demo_wrap(2,1) lt, of 2] by simp
qed

lemma pages_rebuild_the_text_witness:
  "\<exists>chunks. read_all demo_size demo_reading (Some 2) 8 0 = Some chunks
     \<and> concat chunks = [97, 98, 99, 100, 101, 102, 103]"
proof -
  have "Suc (length (rd_text demo_reading)) = 8" "rd_text demo_reading = [97, 98, 99, 100, 101, 102, 103]"
    by (simp_all add: demo_reading_def)
  moreover have "\<exists>chunks. read_all demo_size demo_reading (Some 2) (Suc (length (rd_text demo_reading))) 0 = Some chunks
      \<and> concat chunks = rd_text demo_reading"
    by (rule pages_rebuild_the_text) (erule demo_every_offset, simp)
  ultimately show ?thesis by (simp only:)
qed

text \<open>An offset the pattern accepts and \<open>int\<close> refuses raises another error than the documented one.\<close>

lemma accepted_offset_raises_value_error:
  "make_page_request (Given_Text [CHR 0x1C, CHR ''5'']) Not_Given = Inl Page_Value_Error"
  by (simp add: make_page_request_def page_int_def integer_text_def py_int_def is_space_def is_digit_def
      is_int_space_def unsigned_int_def cp_def)

end
