(* ===== verification/Wait_Registry.thy ===== *)
theory Wait_Registry
  imports Text "HOL-Library.List_Lexorder" "HOL-Library.Char_ord"
begin

text \<open>
  Model of \<open>kestrel_sovereign/waits/engine.py\<close>: the registry that maps each kind of wait to a stack of
  owners, the parser of wait references and the loop that polls the effective owner. Providers are
  values of an arbitrary type, compared by identity; \<open>kind_attr\<close> reads a provider's \<open>kind\<close> attribute
  (\<open>None\<close> when it is absent or not a string). The SDK's \<open>Outcome\<close> and \<open>ToolResult\<close> are not part of
  the repository: an outcome is a value of an arbitrary type with its documented predicate as an
  argument, a result is the constructor call the code makes. A poll's answer and the readings of the
  monotonic clock are arguments indexed by the number of the poll.
\<close>

subsection \<open>The registry\<close>

type_synonym 'p wait_registry = "(string, 'p list) dict"

datatype wait_error = Wait_Value_Error

definition stack_of :: "'p wait_registry \<Rightarrow> string \<Rightarrow> 'p list" where
  "stack_of stacks kind = (case dict_get stacks kind of None \<Rightarrow> [] | Some stack \<Rightarrow> stack)"

definition validate_kind :: "('p \<Rightarrow> string option) \<Rightarrow> 'p \<Rightarrow> wait_error + string" where
  "validate_kind kind_attr provider =
     (case kind_attr provider of
        None \<Rightarrow> Inl Wait_Value_Error
      | Some kind \<Rightarrow> if kind = [] \<or> CHR '':'' \<in> set kind then Inl Wait_Value_Error else Inr kind)"

definition register ::
  "('p \<Rightarrow> string option) \<Rightarrow> 'p \<Rightarrow> bool \<Rightarrow> 'p wait_registry \<Rightarrow> (wait_error + unit) \<times> 'p wait_registry" where
  "register kind_attr provider replace stacks =
     (case validate_kind kind_attr provider of
        Inl e \<Rightarrow> (Inl e, stacks)
      | Inr kind \<Rightarrow>
          (let stack = stack_of stacks kind;
               existing = filter (\<lambda>p. p = provider) stack;
               stack' = filter (\<lambda>p. p \<noteq> provider) stack
           in if stack' \<noteq> [] \<and> \<not> replace \<and> existing = []
              then (Inl Wait_Value_Error, dict_put kind stack' stacks)
              else (Inr (), dict_put kind (stack' @ [provider]) stacks)))"

definition unregister :: "string \<Rightarrow> 'p wait_registry \<Rightarrow> bool \<times> 'p wait_registry" where
  "unregister kind stacks =
     (let stack = stack_of stacks kind in
      if stack = [] then (False, stacks)
      else let stack' = butlast stack in
        (True, if stack' = [] then dict_del kind stacks else dict_put kind stack' stacks))"

text \<open>The scan from the top of the stack: \<open>None\<close> when the provider is not on it.\<close>

fun delete_last :: "'p \<Rightarrow> 'p list \<Rightarrow> 'p list option" where
  "delete_last provider [] = None"
| "delete_last provider (p # stack) =
     (case delete_last provider stack of
        Some stack' \<Rightarrow> Some (p # stack')
      | None \<Rightarrow> if p = provider then Some stack else None)"

definition deregister :: "string \<Rightarrow> 'p \<Rightarrow> 'p wait_registry \<Rightarrow> bool \<times> 'p wait_registry" where
  "deregister kind provider stacks =
     (let stack = stack_of stacks kind in
      if stack = [] then (False, stacks)
      else let was_current = (last stack = provider) in
        (case delete_last provider stack of
           None \<Rightarrow> (False, stacks)
         | Some stack' \<Rightarrow>
             (was_current, if stack' = [] then dict_del kind stacks else dict_put kind stack' stacks)))"

definition restore_if_current ::
  "string \<Rightarrow> 'p \<Rightarrow> 'p option \<Rightarrow> 'p wait_registry \<Rightarrow> bool \<times> 'p wait_registry" where
  "restore_if_current kind expected previous stacks = deregister kind expected stacks"

definition wr_get :: "string \<Rightarrow> 'p wait_registry \<Rightarrow> 'p option" where
  "wr_get kind stacks = (let stack = stack_of stacks kind in if stack = [] then None else Some (last stack))"

definition wr_contains :: "string \<Rightarrow> 'p \<Rightarrow> 'p wait_registry \<Rightarrow> bool" where
  "wr_contains kind provider stacks = list_ex (\<lambda>item. item = provider) (stack_of stacks kind)"

definition wr_kinds :: "'p wait_registry \<Rightarrow> string list" where
  "wr_kinds stacks = sort (map fst (filter (\<lambda>(kind, stack). stack \<noteq> []) stacks))"

text \<open>The calls of the registry's clients and what they return.\<close>

datatype 'p wr_op = Register 'p bool | Unregister string | Deregister string 'p
  | Restore_If_Current string 'p "'p option" | Get string | Contains string 'p | Kinds

datatype 'p wr_answer = Returned_None | Raised wait_error | Returned_Bool bool
  | Returned_Provider "'p option" | Returned_Kinds "string list"

definition bool_answer :: "bool \<times> 's \<Rightarrow> 'p wr_answer \<times> 's" where
  "bool_answer r = (Returned_Bool (fst r), snd r)"

definition unit_answer :: "(wait_error + unit) \<times> 's \<Rightarrow> 'p wr_answer \<times> 's" where
  "unit_answer r = ((case fst r of Inl e \<Rightarrow> Raised e | Inr _ \<Rightarrow> Returned_None), snd r)"

fun wr_call :: "('p \<Rightarrow> string option) \<Rightarrow> 'p wr_op \<Rightarrow> 'p wait_registry \<Rightarrow> 'p wr_answer \<times> 'p wait_registry" where
  "wr_call kind_attr (Register p replace) st = unit_answer (register kind_attr p replace st)"
| "wr_call kind_attr (Unregister k) st = bool_answer (unregister k st)"
| "wr_call kind_attr (Deregister k p) st = bool_answer (deregister k p st)"
| "wr_call kind_attr (Restore_If_Current k p q) st = bool_answer (restore_if_current k p q st)"
| "wr_call kind_attr (Get k) st = (Returned_Provider (wr_get k st), st)"
| "wr_call kind_attr (Contains k p) st = (Returned_Bool (wr_contains k p st), st)"
| "wr_call kind_attr Kinds st = (Returned_Kinds (wr_kinds st), st)"

subsection \<open>The contract: one list of live claims\<close>

text \<open>
  What the registry promises: a list of claims \<open>(kind, owner)\<close>, oldest first. Registering appends,
  tearing down removes, and the owner of a kind is the one of its newest claim.
\<close>

type_synonym 'p claims = "(string \<times> 'p) list"

definition owners :: "'p claims \<Rightarrow> string \<Rightarrow> 'p list" where
  "owners cs k = map snd (filter (\<lambda>c. fst c = k) cs)"

definition newest_owner :: "'p claims \<Rightarrow> string \<Rightarrow> 'p option" where
  "newest_owner cs k = (if owners cs k = [] then None else Some (last (owners cs k)))"

definition drop_claim :: "string \<Rightarrow> 'p \<Rightarrow> 'p claims \<Rightarrow> 'p claims" where
  "drop_claim k p cs = filter (\<lambda>c. c \<noteq> (k, p)) cs"

definition claim :: "('p \<Rightarrow> string option) \<Rightarrow> 'p \<Rightarrow> bool \<Rightarrow> 'p claims \<Rightarrow> (wait_error + unit) \<times> 'p claims" where
  "claim kind_attr p replace cs =
     (case kind_attr p of
        None \<Rightarrow> (Inl Wait_Value_Error, cs)
      | Some k \<Rightarrow>
          if k \<noteq> [] \<and> CHR '':'' \<notin> set k \<and> (replace \<or> owners cs k = [] \<or> (k, p) \<in> set cs)
          then (Inr (), drop_claim k p cs @ [(k, p)])
          else (Inl Wait_Value_Error, cs))"

definition release_newest :: "string \<Rightarrow> 'p claims \<Rightarrow> bool \<times> 'p claims" where
  "release_newest k cs =
     (case newest_owner cs k of None \<Rightarrow> (False, cs) | Some p \<Rightarrow> (True, drop_claim k p cs))"

definition release :: "string \<Rightarrow> 'p \<Rightarrow> 'p claims \<Rightarrow> bool \<times> 'p claims" where
  "release k p cs = (newest_owner cs k = Some p, drop_claim k p cs)"

fun claims_call :: "('p \<Rightarrow> string option) \<Rightarrow> 'p wr_op \<Rightarrow> 'p claims \<Rightarrow> 'p wr_answer \<times> 'p claims" where
  "claims_call kind_attr (Register p replace) cs = unit_answer (claim kind_attr p replace cs)"
| "claims_call kind_attr (Unregister k) cs = bool_answer (release_newest k cs)"
| "claims_call kind_attr (Deregister k p) cs = bool_answer (release k p cs)"
| "claims_call kind_attr (Restore_If_Current k p q) cs = bool_answer (release k p cs)"
| "claims_call kind_attr (Get k) cs = (Returned_Provider (newest_owner cs k), cs)"
| "claims_call kind_attr (Contains k p) cs = (Returned_Bool ((k, p) \<in> set cs), cs)"
| "claims_call kind_attr Kinds cs = (Returned_Kinds (sorted_list_of_set (fst ` set cs)), cs)"

text \<open>Both sides along a sequence of calls: the answers, and the state at the end.\<close>

fun answers :: "('c \<Rightarrow> 's \<Rightarrow> 'a \<times> 's) \<Rightarrow> 'c list \<Rightarrow> 's \<Rightarrow> 'a list" where
  "answers call [] st = []"
| "answers call (c # cs) st = fst (call c st) # answers call cs (snd (call c st))"

definition after_calls :: "('c \<Rightarrow> 's \<Rightarrow> 'a \<times> 's) \<Rightarrow> 'c list \<Rightarrow> 's \<Rightarrow> 's" where
  "after_calls call cs st = run (\<lambda>st c. snd (call c st)) st cs"

subsection \<open>Simulation\<close>

text \<open>
  A contract between an implementation and its specification: related states answer alike and stay
  related. The client's conclusion is that no sequence of calls tells them apart.
\<close>

locale simulation =
  fixes conc :: "'c \<Rightarrow> 's \<Rightarrow> 'a \<times> 's"
    and spec :: "'c \<Rightarrow> 't \<Rightarrow> 'a \<times> 't"
    and rel :: "'s \<Rightarrow> 't \<Rightarrow> bool"
  assumes same_answer: "rel s t \<Longrightarrow> fst (conc c s) = fst (spec c t)"
    and stay_related: "rel s t \<Longrightarrow> rel (snd (conc c s)) (snd (spec c t))"
begin

lemma answers_agree: "rel s t \<Longrightarrow> answers conc cs s = answers spec cs t"
  by (induction cs arbitrary: s t) (simp_all add: same_answer stay_related)

lemma end_related: "rel s t \<Longrightarrow> rel (after_calls conc cs s) (after_calls spec cs t)"
  unfolding after_calls_def by (induction cs arbitrary: s t) (simp_all add: stay_related)

end

definition wr_related :: "'p wait_registry \<Rightarrow> 'p claims \<Rightarrow> bool" where
  "wr_related st cs \<longleftrightarrow> dict_wf st \<and> distinct cs \<and> (\<forall>k. stack_of st k = owners cs k)"

lemma stack_of_put [simp]: "stack_of (dict_put k s st) j = (if j = k then s else stack_of st j)"
  by (simp add: stack_of_def)

lemma stack_of_del [simp]: "stack_of (dict_del k st) j = (if j = k then [] else stack_of st j)"
  by (simp add: stack_of_def)

lemma owners_drop: "owners (drop_claim k p cs) j =
    (if j = k then filter (\<lambda>q. q \<noteq> p) (owners cs k) else owners cs j)"
  by (induction cs) (auto simp: owners_def drop_claim_def)

lemma owners_add: "owners (cs @ [(k, p)]) j = (if j = k then owners cs k @ [p] else owners cs j)"
  by (simp add: owners_def)

lemma owners_mem: "p \<in> set (owners cs k) \<longleftrightarrow> (k, p) \<in> set cs"
  by (force simp: owners_def)

lemma distinct_owners: "distinct cs \<Longrightarrow> distinct (owners cs k)"
  by (induction cs) (auto simp: owners_def)

lemma distinct_drop: "distinct cs \<Longrightarrow> distinct (drop_claim k p cs)"
  by (simp add: drop_claim_def)

lemma not_in_drop: "(k, p) \<notin> set (drop_claim k p cs)"
  by (simp add: drop_claim_def)

lemma filter_neq_id: "p \<notin> set s \<Longrightarrow> filter (\<lambda>q. q \<noteq> p) s = s"
  by (induction s) auto

lemma delete_last_distinct:
  "distinct s \<Longrightarrow> delete_last p s = (if p \<in> set s then Some (filter (\<lambda>q. q \<noteq> p) s) else None)"
proof (induction s)
  case (Cons q s)
  then show ?case by (auto simp: filter_neq_id)
qed simp

lemma butlast_filter:
  assumes "distinct s" and "s \<noteq> []"
  shows "butlast s = filter (\<lambda>q. q \<noteq> last s) s"
proof -
  from assms obtain b a where s: "s = b @ [a]" by (metis append_butlast_last_id)
  with assms(1) show ?thesis by (simp add: filter_neq_id)
qed

lemmas wr_related_simps = wr_related_def owners_drop owners_add distinct_drop not_in_drop dict_wf_put dict_wf_del

lemma claim_code:
  "wr_related st cs \<Longrightarrow> kind_attr p = Some k \<Longrightarrow>
   filter (\<lambda>q. q = p) (stack_of st k) = [] \<longleftrightarrow> (k, p) \<notin> set cs"
  by (auto simp: wr_related_def owners_mem [symmetric] filter_empty_conv)

lemma register_related:
  assumes "wr_related st cs"
  shows "fst (register kind_attr p replace st) = fst (claim kind_attr p replace cs)"
    and "wr_related (snd (register kind_attr p replace st)) (snd (claim kind_attr p replace cs))"
proof -
  have "fst (register kind_attr p replace st) = fst (claim kind_attr p replace cs) \<and>
    wr_related (snd (register kind_attr p replace st)) (snd (claim kind_attr p replace cs))"
  proof (cases "kind_attr p")
    case None
    with assms show ?thesis by (simp add: register_def claim_def validate_kind_def)
  next
    case (Some k)
    let ?s = "filter (\<lambda>q. q \<noteq> p) (stack_of st k)"
    have ex: "filter (\<lambda>q. q = p) (stack_of st k) = [] \<longleftrightarrow> (k, p) \<notin> set cs"
      by (rule claim_code [of st cs kind_attr p k]) (fact assms Some)+
    have eq: "stack_of st k = owners cs k" using assms by (simp add: wr_related_def)
    have id: "?s = stack_of st k" if "(k, p) \<notin> set cs"
      using that by (simp add: eq filter_neq_id owners_mem)
    show ?thesis
    proof (cases "k = [] \<or> CHR '':'' \<in> set k")
      case True
      with Some assms show ?thesis by (auto simp: register_def claim_def validate_kind_def)
    next
      case kind: False
      show ?thesis
      proof (cases "replace \<or> owners cs k = [] \<or> (k, p) \<in> set cs")
        case True
        then have "?s = [] \<or> replace \<or> filter (\<lambda>q. q = p) (stack_of st k) \<noteq> []"
          by (auto simp: ex [unfolded eq] eq)
        with True Some kind assms show ?thesis
          using eq by (auto simp: register_def claim_def validate_kind_def Let_def wr_related_simps
            ex [unfolded eq])
      next
        case False
        then have "?s \<noteq> []" and "\<not> replace" and "filter (\<lambda>q. q = p) (stack_of st k) = []"
          using id by (auto simp: ex [unfolded eq] eq)
        with False Some kind assms id show ?thesis
          by (auto simp: register_def claim_def validate_kind_def Let_def wr_related_simps)
      qed
    qed
  qed
  then show "fst (register kind_attr p replace st) = fst (claim kind_attr p replace cs)"
    and "wr_related (snd (register kind_attr p replace st)) (snd (claim kind_attr p replace cs))" by auto
qed

lemma unregister_related:
  assumes "wr_related st cs"
  shows "fst (unregister k st) = fst (release_newest k cs) \<and>
    wr_related (snd (unregister k st)) (snd (release_newest k cs))"
proof (cases "owners cs k = []")
  case True
  with assms show ?thesis by (auto simp: unregister_def release_newest_def newest_owner_def wr_related_def)
next
  case False
  have eq: "stack_of st k = owners cs k" using assms by (simp add: wr_related_def)
  have bl: "butlast (stack_of st k) = filter (\<lambda>q. q \<noteq> last (owners cs k)) (owners cs k)"
    unfolding eq using assms False by (intro butlast_filter) (auto simp: wr_related_def distinct_owners)
  from False assms bl show ?thesis
    by (auto simp: unregister_def release_newest_def newest_owner_def Let_def eq wr_related_simps)
qed

lemma deregister_related:
  assumes "wr_related st cs"
  shows "fst (deregister k p st) = fst (release k p cs) \<and>
    wr_related (snd (deregister k p st)) (snd (release k p cs))"
proof -
  have eq: "stack_of st k = owners cs k" using assms by (simp add: wr_related_def)
  have d: "delete_last p (owners cs k) =
      (if (k, p) \<in> set cs then Some (filter (\<lambda>q. q \<noteq> p) (owners cs k)) else None)"
    using assms by (simp add: delete_last_distinct distinct_owners wr_related_def owners_mem)
  show ?thesis
  proof (cases "(k, p) \<in> set cs")
    case True
    then have "owners cs k \<noteq> []" using owners_mem [of p cs k] by auto
    with True assms d show ?thesis
      by (auto simp: deregister_def release_def newest_owner_def Let_def eq wr_related_simps)
  next
    case False
    then have "drop_claim k p cs = cs" by (auto simp: drop_claim_def filter_id_conv)
    moreover have "owners cs k = [] \<or> last (owners cs k) \<noteq> p"
      using False owners_mem [of p cs k] last_in_set by metis
    ultimately show ?thesis using False assms d
      by (auto simp: deregister_def release_def newest_owner_def Let_def eq)
  qed
qed

lemma kinds_related:
  assumes "wr_related st cs"
  shows "wr_kinds st = sorted_list_of_set (fst ` set cs)"
proof -
  let ?ks = "map fst (filter (\<lambda>(k, s). s \<noteq> []) st)"
  have "distinct ?ks"
    using assms distinct_map_filter [of fst st] by (simp add: wr_related_def dict_wf_def)
  moreover have "set ?ks = fst ` set cs"
  proof -
    have "k \<in> set ?ks \<longleftrightarrow> stack_of st k \<noteq> []" for k
      using assms by (force simp: wr_related_def stack_of_def dict_get_iff dict_get_None
        split: option.splits)
    moreover have "owners cs k \<noteq> [] \<longleftrightarrow> k \<in> fst ` set cs" for k
      by (force simp: owners_def filter_empty_conv)
    ultimately show ?thesis using assms by (auto simp: wr_related_def)
  qed
  ultimately show ?thesis
    unfolding wr_kinds_def by (metis sorted_list_of_set_sort_remdups distinct_remdups_id)
qed

lemma calls_related:
  assumes rel: "wr_related st cs"
  shows "fst (wr_call kind_attr c st) = fst (claims_call kind_attr c cs)"
    and "wr_related (snd (wr_call kind_attr c st)) (snd (claims_call kind_attr c cs))"
proof -
  have eq: "stack_of st k = owners cs k" for k using rel by (simp add: wr_related_def)
  have mem: "list_ex (\<lambda>i. i = p) (owners cs k) \<longleftrightarrow> (k, p) \<in> set cs" for k p
    by (simp add: list_ex_iff owners_mem)
  note ops = register_related [OF rel] unregister_related [OF rel] deregister_related [OF rel]
  show "fst (wr_call kind_attr c st) = fst (claims_call kind_attr c cs)"
    by (cases c) (simp_all add: unit_answer_def bool_answer_def restore_if_current_def ops
      kinds_related [OF rel] wr_get_def newest_owner_def eq wr_contains_def mem)
  show "wr_related (snd (wr_call kind_attr c st)) (snd (claims_call kind_attr c cs))"
    by (cases c) (simp_all add: unit_answer_def bool_answer_def restore_if_current_def ops rel)
qed

interpretation wr: simulation "wr_call kind_attr" "claims_call kind_attr" wr_related for kind_attr
  by unfold_locales (rule calls_related; assumption)+

lemma wr_related_empty [simp]: "wr_related [] []"
  by (simp add: wr_related_def stack_of_def owners_def)

lemma release_lemmas:
  "(k, p) \<notin> set (snd (release k p cs))" "set (snd (release j q cs)) \<subseteq> set cs"
  "set (snd (release_newest j cs)) \<subseteq> set cs"
  by (auto simp: release_def release_newest_def drop_claim_def split: option.splits)

lemma only_registering_claims:
  assumes "(k, p) \<in> set (snd (claims_call kind_attr c cs))"
  shows "(k, p) \<in> set cs \<or> (\<exists>replace. c = Register p replace)"
  using assms release_lemmas
  by (cases c) (force simp: unit_answer_def bool_answer_def claim_def drop_claim_def split: option.splits if_splits)+

text \<open>
  C18: The registry's stacks keep what their contract promises: over any sequence of registrations,
  removals and queries, whatever their order, every answer (the owner returned, membership, the
  sorted kinds, the booleans of removal and the errors) is the one of a plain list of live claims,
  whose newest claim of a kind is the kind's owner.
\<close>

theorem registry_refines_claims:
  "answers (wr_call kind_attr) calls [] = answers (claims_call kind_attr) calls []"
  by (rule wr.answers_agree) simp

text \<open>
  Teardown is final: once an owner has been deregistered, wherever in the stack it sat, no later
  removal of other owners makes it effective or present again; only registering it anew does.
\<close>

theorem teardown_is_final:
  assumes "\<forall>c \<in> set later. \<forall>replace. c \<noteq> Register p replace"
    and "st = after_calls (wr_call kind_attr) (before @ Deregister k p # later) []"
  shows "\<not> wr_contains k p st \<and> wr_get k st \<noteq> Some p"
proof -
  define cs where "cs = after_calls (claims_call kind_attr) (before @ Deregister k p # later) []"
  have rel: "wr_related st cs" unfolding assms(2) cs_def by (rule wr.end_related) simp
  have "(k, p) \<notin> set (run (\<lambda>st c. snd (claims_call kind_attr c st)) cs0 later)"
    if "(k, p) \<notin> set cs0" for cs0
    using assms(1) that
  proof (induction later arbitrary: cs0)
    case (Cons c later)
    then have "(k, p) \<notin> set (snd (claims_call kind_attr c cs0))"
      using only_registering_claims [of k p kind_attr c cs0] by auto
    with Cons show ?case by simp
  qed simp
  then have "(k, p) \<notin> set cs"
    by (simp add: cs_def after_calls_def run_append bool_answer_def release_lemmas(1))
  moreover have eq: "stack_of st k = owners cs k" using rel by (simp add: wr_related_def)
  ultimately have "p \<notin> set (stack_of st k)" by (simp add: owners_mem)
  then show ?thesis using last_in_set
    by (auto simp: wr_contains_def wr_get_def list_ex_iff Let_def)
qed

theorem teardown_is_final_witness:
  "wr_get ''talon'' (after_calls (wr_call (\<lambda>_. Some ''talon''))
     ([Register (0::nat) False, Register 1 True, Register 2 True] @ Deregister ''talon'' 1 #
      [Deregister ''talon'' 2, Get ''talon'']) []) \<noteq> Some 1"
  using teardown_is_final [where later = "[Deregister ''talon'' 2, Get ''talon'']" and p = "1::nat"
    and kind_attr = "\<lambda>_. Some ''talon''" and k = "''talon''"
    and before = "[Register 0 False, Register 1 True, Register 2 True]", OF _ refl] by simp

subsection \<open>Wait references\<close>

text \<open>A reference as the tool receives it: \<open>None\<close> is a value that is not a string.\<close>

definition parse_ref :: "string option \<Rightarrow> wait_error + string \<times> string" where
  "parse_ref ref =
     (case ref of
        None \<Rightarrow> Inl Wait_Value_Error
      | Some text \<Rightarrow>
          (case split_first (CHR '':'') text of
             None \<Rightarrow> Inl Wait_Value_Error
           | Some (kind, handle) \<Rightarrow>
               (let kind = strip kind; handle = strip handle in
                if kind = [] \<or> handle = [] then Inl Wait_Value_Error else Inr (kind, handle))))"

subsection \<open>The poll loop\<close>

definition MAX_HANDLE_WAIT_SECONDS :: int where "MAX_HANDLE_WAIT_SECONDS = 3600"
definition DEFAULT_POLL_INTERVAL_SECONDS :: int where "DEFAULT_POLL_INTERVAL_SECONDS = 5"

datatype 'v payload = Text_Value string | Int_Value int | Bool_Value bool | Their_Value 'v

record ('o, 'v) wait_status =
  ws_outcome :: 'o
  ws_summary :: string
  ws_data :: "(string, 'v payload) dict"

text \<open>What \<open>int(x)\<close> does with an argument, and what a poll does: a control error propagates.\<close>

datatype int_argument = Converts int | Rejected | Overflows

datatype ('o, 'v) poll_answer = Polled "('o, 'v) wait_status" | Poll_Raised string | Poll_Control string

datatype 'v message = Summary string | Caveat "'v payload" | Still_Pending int string | Timed_Out int
  | Poll_Error string | Not_Integers | Out_Of_Range | Exceeds_Maximum int | Malformed_Ref | No_Provider

type_synonym 'v wait_data = "(string, 'v payload) dict"

datatype 'v wait_result = Ok_Result "'v message" "'v wait_data" | Failed_Result "'v message" "'v wait_data"
  | Partial_Result "'v message" "'v message" "'v wait_data" | Control_Error string | Overflow_Error

text \<open>What the loop asks of the SDK's enumeration, of the provider's values and of the clock.\<close>

record ('o, 'v) wait_world =
  ww_terminal :: "'o \<Rightarrow> bool"
  ww_done :: 'o
  ww_failed :: 'o
  ww_truthy :: "'v payload \<Rightarrow> bool"
  ww_start :: rat
  ww_clock :: "nat \<Rightarrow> rat"

text \<open>\<open>int(time.monotonic() - start)\<close> after a poll; \<open>int\<close> truncates towards zero.\<close>

definition truncated :: "rat \<Rightarrow> int" where
  "truncated x = (if x < 0 then - \<lfloor>- x\<rfloor> else \<lfloor>x\<rfloor>)"

definition elapsed :: "('o, 'v) wait_world \<Rightarrow> nat \<Rightarrow> int" where
  "elapsed w i = truncated (ww_clock w i - ww_start w)"

fun dict_update :: "('k, 'v) dict \<Rightarrow> ('k \<times> 'v) list \<Rightarrow> ('k, 'v) dict" where
  "dict_update d [] = d"
| "dict_update d ((k, v) # kvs) = dict_update (dict_put k v d) kvs"

definition terminal_result ::
  "('o, 'v) wait_world \<Rightarrow> string \<Rightarrow> int \<Rightarrow> ('o, 'v) wait_status \<Rightarrow> 'v wait_result" where
  "terminal_result w label waited status =
     (let data = dict_update (ws_data status)
            [(''ref'', Text_Value label), (''waited_seconds'', Int_Value waited), (''timed_out'', Bool_Value False)]
      in if ws_outcome status = ww_done w then Ok_Result (Summary (ws_summary status)) data
         else if ws_outcome status = ww_failed w then Failed_Result (Summary (ws_summary status)) data
         else Partial_Result (Summary (ws_summary status))
           (case dict_get data ''caveat'' of
              Some v \<Rightarrow> if ww_truthy w v then Caveat v else Summary (ws_summary status)
            | None \<Rightarrow> Summary (ws_summary status)) data)"

definition timeout_result ::
  "string \<Rightarrow> int \<Rightarrow> int \<Rightarrow> ('o, 'v) wait_status \<Rightarrow> 'v wait_result" where
  "timeout_result label timeout_val waited status =
     Partial_Result (Still_Pending waited (ws_summary status)) (Timed_Out timeout_val)
       (dict_update (ws_data status)
          [(''ref'', Text_Value label), (''waited_seconds'', Int_Value waited),
           (''timeout_seconds'', Int_Value timeout_val), (''timed_out'', Bool_Value True)])"

partial_function (option) poll_loop ::
  "('o, 'v) wait_world \<Rightarrow> (nat \<Rightarrow> ('o, 'v) poll_answer) \<Rightarrow> string \<Rightarrow> int \<Rightarrow> nat \<Rightarrow> (nat \<times> 'v wait_result) option" where
  "poll_loop w poll label timeout_val i =
     (case poll i of
        Poll_Control e \<Rightarrow> Some (i, Control_Error e)
      | Poll_Raised e \<Rightarrow>
          Some (i, Failed_Result (Poll_Error e)
            [(''ref'', Text_Value label), (''waited_seconds'', Int_Value (elapsed w i))])
      | Polled status \<Rightarrow>
          if ww_terminal w (ws_outcome status) then Some (i, terminal_result w label (elapsed w i) status)
          else if elapsed w i \<ge> timeout_val
          then Some (i, timeout_result label timeout_val (elapsed w i) status)
          else poll_loop w poll label timeout_val (Suc i))"

text \<open>The result with the number of the last poll, which is 0 for the answers given without polling.\<close>

definition run_wait_loop ::
  "('o, 'v) wait_world \<Rightarrow> (nat \<Rightarrow> ('o, 'v) poll_answer) \<Rightarrow> string \<Rightarrow> int_argument \<Rightarrow> int_argument \<Rightarrow> int
     \<Rightarrow> (nat \<times> 'v wait_result) option" where
  "run_wait_loop w poll label timeout_seconds poll_interval_seconds max_seconds =
     (case timeout_seconds of
        Rejected \<Rightarrow> Some (0, Failed_Result Not_Integers [])
      | Overflows \<Rightarrow> Some (0, Overflow_Error)
      | Converts timeout_val \<Rightarrow>
          (case poll_interval_seconds of
             Rejected \<Rightarrow> Some (0, Failed_Result Not_Integers [])
           | Overflows \<Rightarrow> Some (0, Overflow_Error)
           | Converts poll_val \<Rightarrow>
               if timeout_val < 0 \<or> poll_val \<le> 0 then Some (0, Failed_Result Out_Of_Range [])
               else if timeout_val > max_seconds
               then Some (0, Failed_Result (Exceeds_Maximum max_seconds)
                 [(''ref'', Text_Value label), (''requested_seconds'', Int_Value timeout_val),
                  (''max_seconds'', Int_Value max_seconds)])
               else poll_loop w poll label timeout_val 0))"

text \<open>
  The tool: \<open>poll\<close> is what polling the handle of a provider answers; the known kinds of the failure
  are the registry's.
\<close>

definition wait ::
  "('o, 'v) wait_world \<Rightarrow> ('p \<Rightarrow> string \<Rightarrow> nat \<Rightarrow> ('o, 'v) poll_answer) \<Rightarrow> 'p wait_registry \<Rightarrow> string option \<Rightarrow>
     int_argument \<Rightarrow> int_argument \<Rightarrow> int \<Rightarrow> string list \<times> (nat \<times> 'v wait_result) option" where
  "wait w poll stacks ref timeout_seconds poll_interval_seconds max_seconds =
     (case parse_ref ref of
        Inl e \<Rightarrow> ([], Some (0, Failed_Result Malformed_Ref []))
      | Inr (kind, handle) \<Rightarrow>
          (case wr_get kind stacks of
             None \<Rightarrow> (wr_kinds stacks, Some (0, Failed_Result No_Provider [(''ref'', Text_Value (the ref))]))
           | Some provider \<Rightarrow>
               ([], run_wait_loop w (poll provider handle) (the ref)
                  timeout_seconds poll_interval_seconds max_seconds)))"

lemma dict_get_update_same:
  "dict_get (dict_update d kvs) k = (case map_of (rev kvs) k of Some v \<Rightarrow> Some v | None \<Rightarrow> dict_get d k)"
  by (induction d kvs rule: dict_update.induct) (auto simp: map_add_def split: option.splits)

text \<open>A poll after which the loop goes on.\<close>

definition goes_on ::
  "('o, 'v) wait_world \<Rightarrow> (nat \<Rightarrow> ('o, 'v) poll_answer) \<Rightarrow> int \<Rightarrow> nat \<Rightarrow> bool" where
  "goes_on w poll timeout_val i \<longleftrightarrow>
     (\<exists>status. poll i = Polled status \<and> \<not> ww_terminal w (ws_outcome status) \<and> elapsed w i < timeout_val)"

lemma poll_loop_on: "goes_on w poll t i \<Longrightarrow> poll_loop w poll label t i = poll_loop w poll label t (Suc i)"
  by (subst poll_loop.simps) (auto simp: goes_on_def)

lemma poll_loop_ends:
  assumes "\<forall>j < n. goes_on w poll t (i + j)" and "\<not> goes_on w poll t (i + n)"
  shows "\<exists>r. poll_loop w poll label t i = Some (i + n, r)"
  using assms
proof (induction n arbitrary: i)
  case 0
  then show ?case
    by (subst poll_loop.simps) (auto simp: goes_on_def split: poll_answer.splits)
next
  case (Suc n)
  have "\<forall>j < n. goes_on w poll t (Suc i + j)" using Suc.prems(1) by auto
  then have "\<exists>r. poll_loop w poll label t (Suc i) = Some (Suc i + n, r)"
    using Suc.prems(2) by (intro Suc.IH) auto
  moreover have "goes_on w poll t i" using Suc.prems(1) by force
  ultimately show ?case by (simp add: poll_loop_on)
qed

lemma clock_grows:
  assumes "\<And>i. ww_clock w i + d \<le> ww_clock w (Suc i)"
  shows "ww_clock w 0 + of_nat n * d \<le> ww_clock w n"
proof (induction n)
  case (Suc n)
  have "ww_clock w 0 + of_nat (Suc n) * d = (ww_clock w 0 + of_nat n * d) + d" by (simp add: algebra_simps)
  also have "\<dots> \<le> ww_clock w (Suc n)" using Suc assms [of n] by linarith
  finally show ?case .
qed simp

lemma elapsed_ge:
  assumes "of_int t \<le> ww_clock w i - ww_start w" and "0 \<le> t"
  shows "t \<le> elapsed w i"
proof -
  have "(0::rat) \<le> of_int t" using assms(2) by simp
  then have "\<not> ww_clock w i - ww_start w < 0" using assms(1) by linarith
  then show ?thesis using assms(1) by (simp add: elapsed_def truncated_def le_floor_iff)
qed

fun result_data :: "'v wait_result \<Rightarrow> 'v wait_data" where
  "result_data (Ok_Result m data) = data"
| "result_data (Failed_Result m data) = data"
| "result_data (Partial_Result m m' data) = data"
| "result_data (Control_Error e) = []"
| "result_data Overflow_Error = []"

text \<open>What the last poll's answer makes of a wait, spelled out.\<close>

definition verdict ::
  "('o, 'v) wait_world \<Rightarrow> ('o, 'v) poll_answer \<Rightarrow> int \<Rightarrow> int \<Rightarrow> 'v wait_result \<Rightarrow> bool" where
  "verdict w answer waited timeout_val r \<longleftrightarrow>
     (case answer of
        Poll_Control e \<Rightarrow> r = Control_Error e
      | Poll_Raised e \<Rightarrow> (\<exists>data. r = Failed_Result (Poll_Error e) data)
      | Polled st \<Rightarrow>
          (if \<not> ww_terminal w (ws_outcome st)
           then waited \<ge> timeout_val \<and> dict_get (result_data r) ''timed_out'' = Some (Bool_Value True) \<and>
             (\<exists>m data. r = Partial_Result m (Timed_Out timeout_val) data)
           else dict_get (result_data r) ''timed_out'' = Some (Bool_Value False) \<and>
             (\<forall>k. k \<notin> {''ref'', ''waited_seconds'', ''timed_out''} \<longrightarrow>
                dict_get (result_data r) k = dict_get (ws_data st) k) \<and>
             (if ws_outcome st = ww_done w then \<exists>data. r = Ok_Result (Summary (ws_summary st)) data
              else if ws_outcome st = ww_failed w then \<exists>data. r = Failed_Result (Summary (ws_summary st)) data
              else \<exists>m data. r = Partial_Result (Summary (ws_summary st)) m data)))"

lemma terminal_result_verdict:
  assumes "ww_terminal w (ws_outcome st)"
  shows "verdict w (Polled st) waited t (terminal_result w label waited st)"
    and "dict_get (result_data (terminal_result w label waited st)) ''ref'' = Some (Text_Value label)"
    and "dict_get (result_data (terminal_result w label waited st)) ''waited_seconds'' = Some (Int_Value waited)"
  using assms by (auto simp: verdict_def terminal_result_def Let_def)

lemma timeout_result_verdict:
  assumes "\<not> ww_terminal w (ws_outcome st)" and "t \<le> waited"
  shows "verdict w (Polled st) waited t (timeout_result label t waited st)"
    and "dict_get (result_data (timeout_result label t waited st)) ''ref'' = Some (Text_Value label)"
    and "dict_get (result_data (timeout_result label t waited st)) ''waited_seconds'' = Some (Int_Value waited)"
  using assms by (auto simp: verdict_def timeout_result_def)

lemma poll_loop_verdict:
  assumes "\<not> goes_on w poll t i" and "poll_loop w poll label t i = Some (n, r)"
  shows "n = i \<and> verdict w (poll i) (elapsed w i) t r \<and>
    ((\<forall>e. poll i \<noteq> Poll_Control e) \<longrightarrow>
      dict_get (result_data r) ''ref'' = Some (Text_Value label) \<and>
      dict_get (result_data r) ''waited_seconds'' = Some (Int_Value (elapsed w i)))"
proof (cases "poll i")
  case (Polled st)
  show ?thesis
  proof (cases "ww_terminal w (ws_outcome st)")
    case True
    with Polled assms(2) have "n = i" "r = terminal_result w label (elapsed w i) st"
      by (auto simp: poll_loop.simps [of w poll label t i])
    with True Polled show ?thesis by (simp add: terminal_result_verdict)
  next
    case False
    with assms(1) Polled have t: "t \<le> elapsed w i" by (simp add: goes_on_def)
    with False Polled assms(2) have "n = i" "r = timeout_result label t (elapsed w i) st"
      by (auto simp: poll_loop.simps [of w poll label t i])
    with False t Polled show ?thesis by (simp add: timeout_result_verdict)
  qed
qed (use assms(2) in \<open>auto simp: poll_loop.simps [of w poll label t i] verdict_def dict_get_def\<close>)

lemma poll_loop_returns:
  assumes "0 \<le> t" and "0 < d" and "ww_start w \<le> ww_clock w 0"
    and "\<forall>i. ww_clock w i + d \<le> ww_clock w (Suc i)"
  shows "\<exists>n r. poll_loop w poll label t 0 = Some (n, r) \<and> of_nat n * d < of_int t + d \<and>
    (\<forall>j < n. goes_on w poll t j) \<and> \<not> goes_on w poll t n"
proof -
  have far: "t \<le> elapsed w i" if "of_int t \<le> of_nat i * d" for i
    using clock_grows [of w d i] assms that by (intro elapsed_ge) auto
  define N where "N = nat \<lceil>of_int t / d\<rceil>"
  have "of_int t \<le> of_nat N * d"
  proof -
    have "of_int t / d \<le> of_nat N" unfolding N_def by linarith
    with assms(2) show ?thesis by (simp add: pos_divide_le_eq)
  qed
  then have "\<not> goes_on w poll t N" using far [of N] by (auto simp: goes_on_def)
  then obtain n where n: "\<not> goes_on w poll t n" and least: "\<forall>j < n. goes_on w poll t j"
    using exists_least_iff [of "\<lambda>n. \<not> goes_on w poll t n"] by auto
  obtain r where "poll_loop w poll label t 0 = Some (n, r)"
    using poll_loop_ends [of n w poll t 0 label] n least by auto
  moreover have "of_nat n * d < of_int t + d"
  proof (cases n)
    case 0
    with assms(1,2) show ?thesis by (simp add: add_nonneg_pos)
  next
    case (Suc m)
    with least have "\<not> t \<le> elapsed w m" by (auto simp: goes_on_def)
    with far [of m] have "of_nat m * d < of_int t" by linarith
    with Suc show ?thesis by (simp add: algebra_simps)
  qed
  ultimately show ?thesis using n least by blast
qed

text \<open>
  C33: A wait always returns: with a clock that moves on by some positive amount between polls, a held
  wait within the ceiling ends with the first poll that is terminal, raises or finds the timeout
  passed, after at most \<open>timeout / d + 1\<close> polls; the result is the one that poll calls for (DONE,
  FAILED, mixed, or a timeout that names itself), it carries the reference and the seconds waited, and
  a terminal result keeps the provider's own data.
\<close>

theorem wait_loop_returns:
  assumes "0 \<le> t" and "t \<le> max_seconds" and "0 < p" and "0 < d"
    and "ww_start w \<le> ww_clock w 0" and "\<forall>i. ww_clock w i + d \<le> ww_clock w (Suc i)"
  shows "\<exists>n r. run_wait_loop w poll label (Converts t) (Converts p) max_seconds = Some (n, r) \<and>
    of_nat n * d < of_int t + d \<and>
    (\<forall>j < n. \<exists>st. poll j = Polled st \<and> \<not> ww_terminal w (ws_outcome st) \<and> elapsed w j < t) \<and>
    verdict w (poll n) (elapsed w n) t r \<and>
    ((\<forall>e. poll n \<noteq> Poll_Control e) \<longrightarrow>
      dict_get (result_data r) ''ref'' = Some (Text_Value label) \<and>
      dict_get (result_data r) ''waited_seconds'' = Some (Int_Value (elapsed w n)))"
proof -
  obtain n r where loop: "poll_loop w poll label t 0 = Some (n, r)" and n: "of_nat n * d < of_int t + d"
    and on: "\<forall>j < n. goes_on w poll t j" and off: "\<not> goes_on w poll t n"
    using poll_loop_returns [OF assms(1,4-6), of poll label] by blast
  have "poll_loop w poll label t 0 = poll_loop w poll label t n"
    using on by (induction n) (auto simp: poll_loop_on [of w poll t _ label])
  with loop have "poll_loop w poll label t n = Some (n, r)" by simp
  note v = poll_loop_verdict [OF off this]
  have "run_wait_loop w poll label (Converts t) (Converts p) max_seconds = Some (n, r)"
    using loop assms(1-3) by (simp add: run_wait_loop_def)
  with n on v show ?thesis unfolding goes_on_def by blast
qed

definition demo_world :: "(bool option, unit) wait_world" where
  "demo_world = \<lparr>ww_terminal = (\<lambda>x. x \<noteq> None), ww_done = Some True, ww_failed = Some False,
     ww_truthy = (\<lambda>_. True), ww_start = 0, ww_clock = (\<lambda>i. 5 * of_nat i)\<rparr>"

definition pending_forever :: "nat \<Rightarrow> (bool option, unit) poll_answer" where
  "pending_forever i = Polled \<lparr>ws_outcome = None, ws_summary = ''running'', ws_data = []\<rparr>"

theorem wait_loop_returns_witness:
  "\<exists>n r. run_wait_loop demo_world pending_forever ''ci:7'' (Converts 12) (Converts 5) MAX_HANDLE_WAIT_SECONDS
      = Some (n, r) \<and> of_nat n * 5 < (of_int 12 :: rat) + 5"
  using wait_loop_returns [of 12 MAX_HANDLE_WAIT_SECONDS 5 5 demo_world pending_forever "''ci:7''"]
  by (auto simp: MAX_HANDLE_WAIT_SECONDS_def demo_world_def)

text \<open>The kinds a reference can name, against the kinds that register.\<close>

lemma strip_edges:
  assumes "strip s \<noteq> []"
  shows "\<not> is_space (hd (strip s)) \<and> \<not> is_space (last (strip s))"
proof -
  define t where "t = dropWhile is_space s"
  have st: "strip s = rev (dropWhile is_space (rev t))" by (simp add: strip_def t_def)
  have t: "strip s @ rev (takeWhile is_space (rev t)) = t"
    unfolding st by (metis rev_append rev_rev_ident takeWhile_dropWhile_id)
  then have "hd t = hd (strip s)" and "t \<noteq> []" using assms by (metis hd_append2, auto)
  then have "\<not> is_space (hd (strip s))" using hd_dropWhile [of is_space s] by (simp add: t_def)
  moreover have "\<not> is_space (last (strip s))"
    using assms hd_dropWhile [of is_space "rev t"] by (simp add: st last_rev)
  ultimately show ?thesis ..
qed

lemma strip_strip [simp]: "strip (strip s) = strip s"
proof (cases "strip s = []")
  case True
  then show ?thesis by (simp add: strip_def [of "[]"])
qed (simp add: strip_edges strip_ends)

lemma set_strip: "set (strip s) \<subseteq> set s"
  unfolding strip_def by (metis set_dropWhileD set_rev subsetI)

lemma split_first_left: "split_first c s = Some (a, b) \<Longrightarrow> c \<notin> set a"
  by (induction c s arbitrary: a b rule: split_first.induct) (auto split: if_splits option.splits)

lemma kinds_a_reference_can_name:
  "(\<exists>ref handle. parse_ref ref = Inr (kind, handle)) \<longleftrightarrow>
     kind \<noteq> [] \<and> CHR '':'' \<notin> set kind \<and> strip kind = kind"
proof
  assume "\<exists>ref handle. parse_ref ref = Inr (kind, handle)"
  then obtain ref h where "parse_ref ref = Inr (kind, h)" by blast
  then obtain t k h where "split_first (CHR '':'') t = Some (k, h)" and "kind = strip k" and "kind \<noteq> []"
    by (auto simp: parse_ref_def Let_def split: option.splits if_splits)
  then show "kind \<noteq> [] \<and> CHR '':'' \<notin> set kind \<and> strip kind = kind"
    using set_strip [of k] by (auto dest: split_first_left)
next
  assume k: "kind \<noteq> [] \<and> CHR '':'' \<notin> set kind \<and> strip kind = kind"
  moreover have "strip ''x'' = ''x''" by (simp add: strip_def is_space_def cp_def)
  ultimately have "parse_ref (Some (kind @ CHR '':'' # ''x'')) = Inr (kind, ''x'')"
    by (simp add: parse_ref_def split_first_append)
  then show "\<exists>ref handle. parse_ref ref = Inr (kind, handle)" by blast
qed

text \<open>A kind with a blank at an edge registers, but no reference names it.\<close>

lemma blank_kind_is_unreachable:
  "fst (register (\<lambda>_. Some ''ci '') (0::nat) False []) = Inr ()"
  "\<nexists>ref handle. parse_ref ref = Inr (''ci '', handle)"
  by (simp add: register_def validate_kind_def Let_def stack_of_def)
    (simp add: kinds_a_reference_can_name strip_def is_space_def cp_def)

text \<open>Answers given without polling carry neither the reference nor the seconds waited.\<close>

lemma rejected_wait_has_no_data:
  "run_wait_loop w poll label (Converts (-1)) (Converts 5) 3600 = Some (0, Failed_Result Out_Of_Range [])"
  by (simp add: run_wait_loop_def)

text \<open>
  A well-formed reference \<open>kind:handle\<close> is served by the newest live owner of its kind, polled
  with the handle (which may contain colons), and a kind without owner fails with the sorted list of
  the kinds that have one.
\<close>

theorem wait_reaches_newest_owner:
  assumes "kind \<noteq> []" and "CHR '':'' \<notin> set kind" and "strip kind = kind" and "strip handle \<noteq> []"
    and "st = after_calls (wr_call kind_attr) calls []" and "cs = after_calls (claims_call kind_attr) calls []"
  shows "wait w poll st (Some (kind @ CHR '':'' # handle)) ts ps ms =
    (case newest_owner cs kind of
       Some provider \<Rightarrow> ([], run_wait_loop w (poll provider (strip handle)) (kind @ CHR '':'' # handle) ts ps ms)
     | None \<Rightarrow> (sorted_list_of_set (fst ` set cs),
         Some (0, Failed_Result No_Provider [(''ref'', Text_Value (kind @ CHR '':'' # handle))])))"
proof -
  have rel: "wr_related st cs" unfolding assms(5,6) by (rule wr.end_related) simp
  then have "wr_get kind st = newest_owner cs kind"
    by (simp add: wr_get_def newest_owner_def wr_related_def)
  with assms(1-4) kinds_related [OF rel] show ?thesis
    by (simp add: wait_def parse_ref_def split_first_append Let_def split: option.splits)
qed

theorem wait_reaches_newest_owner_witness:
  "wait demo_world (\<lambda>p h. if p = (1::nat) \<and> h = ''a:7'' then pending_forever else (\<lambda>_. Poll_Raised ''wrong''))
     (after_calls (wr_call (\<lambda>_. Some ''ci'')) [Register 0 False, Register 1 True] []) (Some ''ci:a:7'')
     (Converts 12) (Converts 5) 3600 =
   ([], run_wait_loop demo_world pending_forever ''ci:a:7'' (Converts 12) (Converts 5) 3600)"
proof -
  have "newest_owner (after_calls (claims_call (\<lambda>_. Some ''ci'')) [Register (0::nat) False, Register 1 True] []) ''ci'' = Some 1"
    by (simp add: after_calls_def unit_answer_def claim_def drop_claim_def owners_def newest_owner_def)
  then show ?thesis
    using wait_reaches_newest_owner [where kind = "''ci''" and handle = "''a:7''" and kind_attr = "\<lambda>_. Some ''ci''"
      and calls = "[Register (0::nat) False, Register 1 True]" and w = demo_world
      and poll = "\<lambda>p h. if p = (1::nat) \<and> h = ''a:7'' then pending_forever else (\<lambda>_. Poll_Raised ''wrong'')",
      OF _ _ _ _ refl refl]
    by (simp add: strip_def is_space_def cp_def)
qed

end
