(* ===== verification/Multikey.thy ===== *)
theory Multikey
  imports Text "HOL-Library.Word"
begin

text \<open>
  Model of \<open>kestrel_sovereign/security/multikey.py\<close> and of the suite registry of
  \<open>security/crypto_suite.py\<close> it reads: unsigned varints, base58btc and the Multikey strings
  \<open>z...\<close> that carry public keys. A byte is an \<open>8 word\<close>, a Python integer a \<open>nat\<close> once its sign is
  checked. The key (de)serializers belong to the cryptography libraries and are arguments.
\<close>

unbundle bit_operations_syntax

type_synonym byte = "8 word"

datatype multikey_error = Multikey_Value_Error | Crypto_Suite_Error

subsection \<open>Varints\<close>

lemma drop_bit_decreases [termination_simp]: "0 < drop_bit 7 n \<Longrightarrow> drop_bit 7 n < (n :: nat)"
  by (simp add: drop_bit_eq_div)

fun varint_bytes :: "nat \<Rightarrow> byte list" where
  "varint_bytes n =
     (let b = word_of_nat (n AND 0x7F); rest = drop_bit 7 n
      in if rest \<noteq> 0 then (b OR 0x80) # varint_bytes rest else [b])"

declare varint_bytes.simps [simp del]

definition encode_varint :: "int \<Rightarrow> multikey_error + byte list" where
  "encode_varint n = (if n < 0 then Inl Multikey_Value_Error else Inr (varint_bytes (nat n)))"

fun decode_varint_from :: "nat \<Rightarrow> nat \<Rightarrow> nat \<Rightarrow> byte list \<Rightarrow> multikey_error + nat \<times> nat" where
  "decode_varint_from n shift i [] = Inl Multikey_Value_Error"
| "decode_varint_from n shift i (b # bs) =
     (let n = n OR push_bit shift (unat (b AND 0x7F))
      in if b AND 0x80 = 0 then Inr (n, i + 1)
         else if shift + 7 > 63 then Inl Multikey_Value_Error
         else decode_varint_from n (shift + 7) (i + 1) bs)"

declare decode_varint_from.simps(2) [simp del]

definition decode_varint :: "byte list \<Rightarrow> multikey_error + nat \<times> nat" where
  "decode_varint bs = decode_varint_from 0 0 0 bs"

subsection \<open>base58btc\<close>

definition B58_ALPHABET :: string where
  "B58_ALPHABET = ''123456789ABCDEFGHJKLMNPQRSTUVWXYZabcdefghijkmnopqrstuvwxyz''"

text \<open>\<open>int.from_bytes(data, "big")\<close>, \<open>n.to_bytes(size, "big")\<close> and the digit loops.\<close>

definition from_bytes :: "byte list \<Rightarrow> nat" where
  "from_bytes bs = foldl (\<lambda>n b. 256 * n + unat b) 0 bs"

definition to_bytes :: "nat \<Rightarrow> nat \<Rightarrow> byte list" where
  "to_bytes len n = map (\<lambda>i. word_of_nat (n div 256 ^ (len - 1 - i))) [0..<len]"

fun b58_digits :: "nat \<Rightarrow> string" where
  "b58_digits n = (if n = 0 then [] else b58_digits (n div 58) @ [B58_ALPHABET ! (n mod 58)])"

declare b58_digits.simps [simp del]

definition base58btc_encode :: "byte list \<Rightarrow> string" where
  "base58btc_encode bs =
     (if bs = [] then []
      else replicate (length (takeWhile (\<lambda>b. b = 0) bs)) (CHR ''1'') @ b58_digits (from_bytes bs))"

fun index_of :: "'a \<Rightarrow> 'a list \<Rightarrow> nat option" where
  "index_of x [] = None"
| "index_of x (y # ys) = (if x = y then Some 0 else map_option Suc (index_of x ys))"

fun b58_value :: "nat \<Rightarrow> string \<Rightarrow> nat option" where
  "b58_value n [] = Some n"
| "b58_value n (c # cs) =
     (case index_of c B58_ALPHABET of None \<Rightarrow> None | Some digit \<Rightarrow> b58_value (n * 58 + digit) cs)"

definition base58btc_decode :: "string \<Rightarrow> multikey_error + byte list" where
  "base58btc_decode s =
     (if s = [] then Inr []
      else case b58_value 0 s of
        None \<Rightarrow> Inl Multikey_Value_Error
      | Some n \<Rightarrow>
          (let body = (if n = 0 then [] else to_bytes ((bit_len n + 7) div 8) n)
           in Inr (replicate (length (takeWhile (\<lambda>c. c = CHR ''1'') s)) 0 @ body)))"

subsection \<open>Signing suites and Multikey strings\<close>

text \<open>The suites registered when \<open>crypto_suite\<close> is imported.\<close>

datatype suite = Secp256k1 | Ed25519 | ML_DSA_65 | SLH_DSA_SHA2_128S

fun alg_id :: "suite \<Rightarrow> string" where
  "alg_id Secp256k1 = ''ecdsa-secp256k1-sha256''"
| "alg_id Ed25519 = ''ed25519''"
| "alg_id ML_DSA_65 = ''ml-dsa-65''"
| "alg_id SLH_DSA_SHA2_128S = ''slh-dsa-sha2-128s''"

fun is_post_quantum :: "suite \<Rightarrow> bool" where
  "is_post_quantum Secp256k1 = False"
| "is_post_quantum Ed25519 = False"
| "is_post_quantum ML_DSA_65 = True"
| "is_post_quantum SLH_DSA_SHA2_128S = True"

fun public_key_multicodec :: "suite \<Rightarrow> byte list" where
  "public_key_multicodec Secp256k1 = [0xe7, 0x01]"
| "public_key_multicodec Ed25519 = [0xed, 0x01]"
| "public_key_multicodec ML_DSA_65 = [0x87, 0x24]"
| "public_key_multicodec SLH_DSA_SHA2_128S = [0x88, 0x24]"

definition REGISTRY :: "(string, suite) dict" where
  "REGISTRY = map (\<lambda>s. (alg_id s, s)) [Secp256k1, Ed25519, ML_DSA_65, SLH_DSA_SHA2_128S]"

definition public_key_to_multibase :: "(suite \<Rightarrow> 'k \<Rightarrow> byte list) \<Rightarrow> suite \<Rightarrow> 'k \<Rightarrow> string" where
  "public_key_to_multibase serialize s key =
     CHR ''z'' # base58btc_encode (public_key_multicodec s @ serialize s key)"

definition decode_multikey_payload :: "string \<Rightarrow> multikey_error + nat \<times> byte list \<times> byte list" where
  "decode_multikey_payload s =
     (case s of
        [] \<Rightarrow> Inl Crypto_Suite_Error
      | c # rest \<Rightarrow>
          if c \<noteq> CHR ''z'' then Inl Crypto_Suite_Error
          else case base58btc_decode rest of
            Inl e \<Rightarrow> Inl Crypto_Suite_Error
          | Inr raw \<Rightarrow>
              if raw = [] then Inl Crypto_Suite_Error
              else case decode_varint raw of
                Inl e \<Rightarrow> Inl Crypto_Suite_Error
              | Inr (codec_value, consumed) \<Rightarrow> Inr (codec_value, take consumed raw, drop consumed raw))"

text \<open>\<open>None\<close> from the library's deserializer is its \<open>CryptoSuiteError\<close>.\<close>

definition multibase_to_public_key ::
  "(suite \<Rightarrow> byte list \<Rightarrow> 'k option) \<Rightarrow> string \<Rightarrow> multikey_error + suite \<times> 'k" where
  "multibase_to_public_key deserialize s =
     (case decode_multikey_payload s of
        Inl e \<Rightarrow> Inl e
      | Inr (codec_value, codec_bytes, pub_bytes) \<Rightarrow>
          (case find (\<lambda>s. public_key_multicodec s = codec_bytes) (map snd REGISTRY) of
             None \<Rightarrow> Inl Crypto_Suite_Error
           | Some suite \<Rightarrow>
               (case deserialize suite pub_bytes of
                  None \<Rightarrow> Inl Crypto_Suite_Error
                | Some key \<Rightarrow> Inr (suite, key))))"

subsection \<open>base58btc is a bijection\<close>

lemma byte_256 [simp]: "(256 :: byte) = 0"
  by simp

lemma from_bytes_snoc: "from_bytes (bs @ [b]) = 256 * from_bytes bs + unat b"
  by (simp add: from_bytes_def)

lemma from_bytes_zeros: "from_bytes (replicate z 0 @ bs) = from_bytes bs"
proof -
  have "foldl (\<lambda>n b. 256 * n + unat (b :: byte)) 0 (replicate z 0) = 0" by (induction z) simp_all
  then show ?thesis by (simp add: from_bytes_def)
qed

lemma from_bytes_pos: "bs \<noteq> [] \<Longrightarrow> hd bs \<noteq> 0 \<Longrightarrow> from_bytes bs \<noteq> 0"
proof (induction bs rule: rev_induct)
  case (snoc b bs)
  then show ?case
  proof (cases "bs = []")
    case True
    with snoc.prems show ?thesis by (simp add: from_bytes_def unat_eq_zero)
  qed (simp add: from_bytes_snoc)
qed simp

lemma bit_len_div: "n div 2 ^ k \<noteq> 0 \<Longrightarrow> bit_len n = bit_len (n div 2 ^ k) + k"
proof (induction k arbitrary: n)
  case (Suc k)
  then have half: "n div 2 div 2 ^ k \<noteq> 0" by (simp add: div_mult2_eq)
  then have "bit_len (n div 2) = bit_len (n div 2 div 2 ^ k) + k" by (rule Suc.IH)
  moreover have "n \<noteq> 0" using half by (cases "n = 0") simp_all
  then have "bit_len n = Suc (bit_len (n div 2))" by (subst bit_len.simps) simp
  ultimately show ?case by (simp add: div_mult2_eq)
qed simp

lemma bit_len_256: "n div 256 \<noteq> 0 \<Longrightarrow> bit_len n = bit_len (n div 256) + 8"
  using bit_len_div [of n 8] by simp

lemma to_bytes_Suc: "to_bytes (Suc len) n = to_bytes len (n div 256) @ [word_of_nat n]"
proof -
  have "n div 256 ^ (len - i) = n div 256 div 256 ^ (len - 1 - i)" if "i < len" for i
  proof -
    have "len - i = Suc (len - 1 - i)" using that by simp
    then show ?thesis by (metis div_mult2_eq power_Suc)
  qed
  then have "map (\<lambda>i. word_of_nat (n div 256 ^ (len - i))) [0..<len] = to_bytes len (n div 256)"
    unfolding to_bytes_def by (intro map_cong) auto
  then show ?thesis by (simp add: to_bytes_def)
qed

definition minimal_bytes :: "nat \<Rightarrow> byte list" where
  "minimal_bytes n = to_bytes ((bit_len n + 7) div 8) n"

lemma minimal_bytes_0 [simp]: "minimal_bytes 0 = []"
  by (simp add: minimal_bytes_def to_bytes_def bit_len_0)

lemma bit_len_le: "n < 2 ^ k \<Longrightarrow> bit_len n \<le> k"
proof (rule ccontr)
  assume "n < 2 ^ k" and "\<not> bit_len n \<le> k"
  then have "k \<le> bit_len n - 1" and "n \<noteq> 0" by (simp, metis bit_len_0 le0)
  then have "(2::nat) ^ k \<le> 2 ^ (bit_len n - 1)" by (intro power_increasing) auto
  with bit_len_lower [OF \<open>n \<noteq> 0\<close>] \<open>n < 2 ^ k\<close> show False by linarith
qed

lemma minimal_bytes_step:
  assumes "n \<noteq> 0"
  shows "minimal_bytes n = minimal_bytes (n div 256) @ [word_of_nat n]"
proof (cases "n div 256 = 0")
  case True
  then have "n < 2 ^ 8" by (simp add: div_eq_0_iff)
  then have "bit_len n \<le> 8" by (rule bit_len_le)
  moreover have "bit_len n \<noteq> 0" using assms by (subst bit_len.simps) simp
  ultimately have "(bit_len n + 7) div 8 = Suc 0" by linarith
  with True show ?thesis by (simp add: minimal_bytes_def to_bytes_def bit_len_0)
next
  case False
  have "(bit_len n + 7) div 8 = Suc ((bit_len (n div 256) + 7) div 8)"
    by (simp add: bit_len_256 [OF False])
  then show ?thesis by (simp add: minimal_bytes_def to_bytes_Suc)
qed

lemma minimal_bytes_canonical: "n \<noteq> 0 \<Longrightarrow> minimal_bytes n \<noteq> [] \<and> hd (minimal_bytes n) \<noteq> 0"
proof (induction n rule: less_induct)
  case (less n)
  show ?case
  proof (cases "n div 256 = 0")
    case True
    with less.prems have "unat (word_of_nat n :: byte) = n" by (simp add: div_eq_0_iff unat_of_nat)
    with less.prems have "(word_of_nat n :: byte) \<noteq> 0" by force
    with True less.prems show ?thesis by (simp add: minimal_bytes_step [of n])
  next
    case False
    have "n div 256 < n" using less.prems by simp
    with less.IH False show ?thesis using less.prems by (simp add: minimal_bytes_step [of n])
  qed
qed

lemma from_minimal_bytes: "from_bytes (minimal_bytes n) = n"
proof (induction n rule: less_induct)
  case (less n)
  show ?case
  proof (cases "n = 0")
    case False
    then have "from_bytes (minimal_bytes (n div 256)) = n div 256" using less.IH by simp
    with False show ?thesis by (simp add: minimal_bytes_step from_bytes_snoc unat_of_nat)
  qed (simp add: from_bytes_def)
qed

lemma minimal_from_bytes: "bs = [] \<or> hd bs \<noteq> 0 \<Longrightarrow> minimal_bytes (from_bytes bs) = bs"
proof (induction bs rule: rev_induct)
  case (snoc b bs)
  let ?n = "from_bytes (bs @ [b])"
  have lt: "unat b < 256" using unsigned_less [of b] by simp
  then have "?n div 256 = from_bytes bs" by (simp add: from_bytes_snoc)
  moreover have "(word_of_nat ?n :: byte) = b"
    by (simp add: from_bytes_snoc del: word_of_nat_eq_iff)
  moreover have "?n \<noteq> 0" using snoc.prems by (intro from_bytes_pos) auto
  moreover have "minimal_bytes (from_bytes bs) = bs" using snoc by (cases bs) (auto simp: from_bytes_def)
  ultimately show ?case by (simp add: minimal_bytes_step)
qed (simp add: from_bytes_def)

lemma index_of_Some: "index_of x ys = Some i \<Longrightarrow> i < length ys \<and> ys ! i = x"
  by (induction ys arbitrary: i) (auto split: if_splits)

lemma index_of_nth: "distinct ys \<Longrightarrow> i < length ys \<Longrightarrow> index_of (ys ! i) ys = Some i"
proof (induction ys arbitrary: i)
  case (Cons y ys)
  then show ?case by (cases i) auto
qed simp

lemma alphabet_facts: "distinct B58_ALPHABET" "length B58_ALPHABET = 58" "B58_ALPHABET ! 0 = CHR ''1''"
  by (simp_all add: B58_ALPHABET_def)

lemma index_alphabet: "i < 58 \<Longrightarrow> index_of (B58_ALPHABET ! i) B58_ALPHABET = Some i"
  by (rule index_of_nth) (simp_all add: alphabet_facts)

lemma b58_value_append: "b58_value n (s @ t) = (case b58_value n s of None \<Rightarrow> None | Some m \<Rightarrow> b58_value m t)"
  by (induction n s rule: b58_value.induct) (auto split: option.splits)

lemma b58_value_digits: "b58_value 0 (b58_digits n) = Some n"
proof (induction n rule: b58_digits.induct)
  case (1 n)
  then show ?case by (subst b58_digits.simps) (simp add: b58_value_append index_alphabet)
qed

lemma b58_digits_canonical: "n \<noteq> 0 \<Longrightarrow> b58_digits n \<noteq> [] \<and> hd (b58_digits n) \<noteq> CHR ''1''"
proof (induction n rule: b58_digits.induct)
  case (1 n)
  show ?case
  proof (cases "n div 58 = 0")
    case True
    with "1.prems" have n: "n < 58" "0 < n" by (simp_all add: div_eq_0_iff)
    have "B58_ALPHABET ! n \<noteq> B58_ALPHABET ! 0"
      using n alphabet_facts(1,2) by (metis nth_eq_iff_index_eq not_gr_zero zero_less_numeral)
    with True n show ?thesis
      by (subst (1 2) b58_digits.simps) (simp add: b58_digits.simps [of 0] alphabet_facts(3))
  next
    case False
    with 1 show ?thesis by (subst (1 2) b58_digits.simps) simp
  qed
qed

lemma b58_value_zeros: "b58_value 0 (replicate z (CHR ''1'') @ s) = b58_value 0 s"
  using index_alphabet [of 0] by (induction z) (simp_all add: alphabet_facts(3))

lemma takeWhile_replicate: "xs = [] \<or> hd xs \<noteq> x \<Longrightarrow> takeWhile (\<lambda>y. y = x) (replicate n x @ xs) = replicate n x"
  by (induction n) (cases xs; simp)+

lemma leading_split:
  obtains n rest where "xs = replicate n x @ rest" and "rest = [] \<or> hd rest \<noteq> x"
proof
  have "takeWhile (\<lambda>y. y = x) xs = replicate (length (takeWhile (\<lambda>y. y = x) xs)) x"
    by (metis (mono_tags, lifting) replicate_eqI set_takeWhileD)
  then show "xs = replicate (length (takeWhile (\<lambda>y. y = x) xs)) x @ dropWhile (\<lambda>y. y = x) xs"
    by (metis takeWhile_dropWhile_id)
  show "dropWhile (\<lambda>y. y = x) xs = [] \<or> hd (dropWhile (\<lambda>y. y = x) xs) \<noteq> x"
    using hd_dropWhile by blast
qed

lemma base58_encode_split:
  assumes "body = [] \<or> hd body \<noteq> 0"
  shows "base58btc_encode (replicate z 0 @ body) = replicate z (CHR ''1'') @ b58_digits (from_bytes body)"
proof (cases "replicate z 0 @ body = []")
  case True
  then show ?thesis by (simp add: base58btc_encode_def from_bytes_def b58_digits.simps [of 0])
next
  case False
  then show ?thesis
    using assms by (auto simp: base58btc_encode_def takeWhile_replicate from_bytes_zeros)
qed

lemma base58_decode_split:
  assumes "t = [] \<or> hd t \<noteq> CHR ''1''"
  shows "base58btc_decode (replicate z (CHR ''1'') @ t) =
    (case b58_value 0 t of None \<Rightarrow> Inl Multikey_Value_Error | Some n \<Rightarrow> Inr (replicate z 0 @ minimal_bytes n))"
proof (cases "replicate z (CHR ''1'') @ t = []")
  case True
  then show ?thesis by (simp add: base58btc_decode_def)
next
  case False
  then show ?thesis using assms
    by (auto simp: base58btc_decode_def b58_value_zeros takeWhile_replicate Let_def minimal_bytes_def
      to_bytes_def bit_len_0 split: option.splits)
qed

lemma b58_digits_value:
  "t = [] \<or> hd t \<noteq> CHR ''1'' \<Longrightarrow> b58_value 0 t = Some n \<Longrightarrow> b58_digits n = t \<and> (t \<noteq> [] \<longrightarrow> n \<noteq> 0)"
proof (induction t arbitrary: n rule: rev_induct)
  case Nil
  then show ?case by (simp add: b58_digits.simps [of 0])
next
  case (snoc c t)
  from snoc.prems(2) obtain m d where m: "b58_value 0 t = Some m" and d: "index_of c B58_ALPHABET = Some d"
    and n: "n = m * 58 + d"
    by (auto simp: b58_value_append split: option.splits)
  have "d < 58" and c: "B58_ALPHABET ! d = c" using index_of_Some [OF d] by (simp_all add: alphabet_facts)
  have "t = [] \<or> hd t \<noteq> CHR ''1''" using snoc.prems(1) by (cases t) auto
  then have t: "b58_digits m = t" "t \<noteq> [] \<longrightarrow> m \<noteq> 0" using snoc.IH [OF _ m] by blast+
  have "n \<noteq> 0"
  proof (cases "t = []")
    case True
    with snoc.prems(1) have "c \<noteq> CHR ''1''" by simp
    then have "d \<noteq> 0" using c alphabet_facts(3) by metis
    with n show ?thesis by simp
  next
    case False
    with t(2) n show ?thesis by simp
  qed
  moreover have "n div 58 = m" "n mod 58 = d" using n \<open>d < 58\<close> by simp_all
  ultimately show ?case using t(1) c by (subst b58_digits.simps) simp
qed

lemma base58_encode_decode: "base58btc_decode (base58btc_encode bs) = Inr bs"
proof -
  obtain z body where bs: "bs = replicate z 0 @ body" and body: "body = [] \<or> hd body \<noteq> 0"
    by (rule leading_split [of bs 0])
  have "b58_digits (from_bytes body) = [] \<or> hd (b58_digits (from_bytes body)) \<noteq> CHR ''1''"
    using b58_digits_canonical [of "from_bytes body"] by (cases "from_bytes body = 0") (simp_all add: b58_digits.simps [of 0])
  with body show ?thesis
    by (simp add: bs base58_encode_split base58_decode_split b58_value_digits minimal_from_bytes)
qed

lemma base58_decode_encode: "base58btc_decode s = Inr bs \<Longrightarrow> base58btc_encode bs = s"
proof -
  assume dec: "base58btc_decode s = Inr bs"
  obtain z t where s: "s = replicate z (CHR ''1'') @ t" and t: "t = [] \<or> hd t \<noteq> CHR ''1''"
    by (rule leading_split [of s "CHR ''1''"])
  from dec obtain n where n: "b58_value 0 t = Some n" and bs: "bs = replicate z 0 @ minimal_bytes n"
    by (auto simp: s base58_decode_split [OF t] split: option.splits)
  have "minimal_bytes n = [] \<or> hd (minimal_bytes n) \<noteq> 0"
    using minimal_bytes_canonical [of n] by (cases "n = 0") simp_all
  then show ?thesis
    using b58_digits_value [OF t n] by (simp add: bs s base58_encode_split from_minimal_bytes)
qed

subsection \<open>Varints decode to what they encode\<close>

lemma low_bits: "word_of_nat (n AND 0x7F) = (word_of_nat (n mod 128) :: byte)"
proof -
  have "n AND 0x7F = n mod 128"
    using take_bit_eq_mask [of 7 n] by (simp add: mask_eq_exp_minus_1 take_bit_eq_mod)
  then show ?thesis by simp
qed

lemma byte_masks:
  assumes "x < 128"
  shows "unat (word_of_nat x AND (0x7F :: byte)) = x" and "word_of_nat x AND (0x80 :: byte) = 0"
    and "unat ((word_of_nat x OR 0x80) AND (0x7F :: byte)) = x"
    and "(word_of_nat x OR 0x80) AND (0x80 :: byte) \<noteq> 0"
proof -
  have u: "unat (word_of_nat x :: byte) = x" using assms by (simp add: unsigned_of_nat take_bit_nat_eq_self)
  have m: "w AND 0x7F = take_bit 7 w" for w :: byte
    by (simp add: take_bit_eq_mask mask_eq_exp_minus_1)
  have tx: "take_bit 7 (word_of_nat x :: byte) = word_of_nat x"
    using assms by (simp flip: of_nat_take_bit add: take_bit_nat_eq_self)
  have t80: "take_bit 7 (0x80 :: byte) = 0" by simp
  have b: "\<not> bit (word_of_nat x :: byte) 7"
    using tx by (metis bit_take_bit_iff less_irrefl)
  show "unat (word_of_nat x AND (0x7F :: byte)) = x" by (simp add: m tx u)
  show "word_of_nat x AND (0x80 :: byte) = 0"
    using b and_exp_eq_0_iff_not_bit [of "word_of_nat x :: byte" 7] by simp
  show "unat ((word_of_nat x OR 0x80) AND (0x7F :: byte)) = x"
    by (simp only: m take_bit_or tx t80 or.right_neutral u)
  have "bit (0x80 :: byte) 7" by simp
  then have "bit (word_of_nat x OR (0x80 :: byte)) 7" by (simp add: bit_or_iff)
  then show "(word_of_nat x OR 0x80) AND (0x80 :: byte) \<noteq> 0"
    using and_exp_eq_0_iff_not_bit [of "word_of_nat x OR 0x80 :: byte" 7] by simp
qed

lemma or_push_bit: "m < 2 ^ k \<Longrightarrow> m OR push_bit k x = m + x * (2 ^ k :: nat)"
proof -
  assume "m < 2 ^ k"
  then have "take_bit k m = m" by (simp add: take_bit_nat_eq_self)
  then have "\<And>n. bit m n \<Longrightarrow> n < k" by (metis bit_take_bit_iff)
  then have "\<not> bit m n" if "k \<le> n" for n using that by fastforce
  then have "m + push_bit k x = m OR push_bit k x"
    by (intro disjunctive_add_eq_or bit_eqI) (auto simp: bit_and_iff bit_push_bit_iff)
  then show ?thesis by (simp add: push_bit_eq_mult)
qed

lemma varint_bytes_step:
  "varint_bytes n =
     (if n div 128 \<noteq> 0 then (word_of_nat (n mod 128) OR 0x80) # varint_bytes (n div 128)
      else [word_of_nat (n mod 128)])"
  by (subst varint_bytes.simps) (simp only: low_bits drop_bit_eq_div Let_def, simp)

lemma decode_step_last:
  "m < 2 ^ k \<Longrightarrow> x < 128 \<Longrightarrow>
   decode_varint_from m k i (word_of_nat x # bs) = Inr (m + x * 2 ^ k, i + 1)"
  by (simp add: decode_varint_from.simps(2) byte_masks or_push_bit)

lemma decode_step_more:
  "m < 2 ^ k \<Longrightarrow> x < 128 \<Longrightarrow>
   decode_varint_from m k i ((word_of_nat x OR 0x80) # bs) =
     (if k + 7 > 63 then Inl Multikey_Value_Error else decode_varint_from (m + x * 2 ^ k) (k + 7) (i + 1) bs)"
  by (simp add: decode_varint_from.simps(2) byte_masks or_push_bit Let_def)

lemma decode_varint_bytes:
  assumes "m < 2 ^ (7 * k)" and "k \<le> 9"
  shows "decode_varint_from m (7 * k) i (varint_bytes n @ rest) =
    (if n < 2 ^ (70 - 7 * k) then Inr (m + n * 2 ^ (7 * k), i + length (varint_bytes n))
     else Inl Multikey_Value_Error)"
  using assms
proof (induction n arbitrary: m k i rule: less_induct)
  case (less n)
  have x: "n mod 128 < 128" by simp
  show ?case
  proof (cases "n div 128 = 0")
    case True
    then have "n < 128" by (simp add: div_eq_0_iff)
    moreover have "(2::nat) ^ 7 \<le> 2 ^ (70 - 7 * k)" using less.prems(2) by (intro power_increasing) auto
    ultimately have "n < 2 ^ (70 - 7 * k)" by simp
    with True \<open>n < 128\<close> show ?thesis
      by (simp add: varint_bytes_step [of n] decode_step_last [OF less.prems(1)])
  next
    case False
    let ?m = "m + n mod 128 * 2 ^ (7 * k)"
    have v: "varint_bytes n = (word_of_nat (n mod 128) OR 0x80) # varint_bytes (n div 128)"
      using False by (simp add: varint_bytes_step [of n])
    show ?thesis
    proof (cases "k = 9")
      case True
      then have "\<not> n < 2 ^ (70 - 7 * k)" using False by (simp add: div_eq_0_iff)
      moreover have "7 * k + 7 > 63" using True by simp
      ultimately show ?thesis by (simp only: v append_Cons decode_step_more [OF less.prems(1) x] if_True if_False)
    next
      case k: False
      have "n mod 128 * 2 ^ (7 * k) + 2 ^ (7 * k) \<le> 128 * 2 ^ (7 * k)"
        using x by (metis Suc_leI add.commute mult_Suc mult_le_mono1)
      then have "?m < 128 * 2 ^ (7 * k)" using less.prems(1) by linarith
      then have "?m < 2 ^ (7 * Suc k)" by (simp add: power_add)
      moreover have "Suc k \<le> 9" and "n div 128 < n" using k less.prems(2) False by auto
      ultimately have "decode_varint_from ?m (7 * Suc k) (i + 1) (varint_bytes (n div 128) @ rest) =
        (if n div 128 < 2 ^ (70 - 7 * Suc k)
         then Inr (?m + n div 128 * 2 ^ (7 * Suc k), i + 1 + length (varint_bytes (n div 128)))
         else Inl Multikey_Value_Error)"
        by (intro less.IH)
      moreover have "n div 128 < 2 ^ (70 - 7 * Suc k) \<longleftrightarrow> n < 2 ^ (70 - 7 * k)"
      proof -
        obtain j where j: "70 - 7 * Suc k = j" "70 - 7 * k = j + 7" using \<open>Suc k \<le> 9\<close> by fastforce
        have p: "(2::nat) ^ (j + 7) = 2 ^ j * 128" by (simp add: power_add)
        show ?thesis unfolding j p by (rule div_less_iff_less_mult) simp
      qed
      moreover have "?m + n div 128 * 2 ^ (7 * Suc k) = m + n * 2 ^ (7 * k)"
      proof -
        have "n = n div 128 * 128 + n mod 128" by simp
        then have "n * a = n mod 128 * a + n div 128 * (128 * a)" for a
          by (metis add.commute add_mult_distrib mult.assoc)
        then show ?thesis by (simp add: power_add)
      qed
      moreover have "\<not> 7 * k + 7 > 63" using \<open>Suc k \<le> 9\<close> by simp
      ultimately show ?thesis
        by (simp add: v decode_step_more [OF less.prems(1) x, simplified] add.commute)
    qed
  qed
qed

lemma decode_varint_encode:
  "decode_varint (varint_bytes n @ rest) =
     (if n < 2 ^ 70 then Inr (n, length (varint_bytes n)) else Inl Multikey_Value_Error)"
  using decode_varint_bytes [of 0 0 0 n rest] by (simp add: decode_varint_def)

text \<open>
  C34: base58btc is exact in both directions: a text decodes to some bytes precisely when it is the
  encoding of those bytes. A varint written by the encoder is read back with its length, whatever
  follows it, precisely when its value fits 70 bits, and is refused otherwise.
\<close>

theorem base58_and_varint_round_trip:
  "(base58btc_decode s = Inr bs) = (s = base58btc_encode bs) \<and>
   decode_varint (varint_bytes n @ rest) =
     (if n < 2 ^ 70 then Inr (n, length (varint_bytes n)) else Inl Multikey_Value_Error)"
  using base58_encode_decode base58_decode_encode decode_varint_encode by metis

text \<open>Not minimal, and beyond 63 bits: both are read.\<close>

lemma decode_varint_is_lenient:
  "decode_varint [0x80, 0x00] = Inr (0, 2)"
  "decode_varint (varint_bytes (2 ^ 69) @ rest) = Inr (2 ^ 69, length (varint_bytes (2 ^ 69)))"
  by (simp add: decode_varint_def decode_varint_from.simps(2)) (simp add: decode_varint_encode)

subsection \<open>Multikey strings\<close>

lemma codec_prefix: "decode_varint (public_key_multicodec s @ raw) = Inr (case s of
    Secp256k1 \<Rightarrow> 0xe7 | Ed25519 \<Rightarrow> 0xed | ML_DSA_65 \<Rightarrow> 0x1207 | SLH_DSA_SHA2_128S \<Rightarrow> 0x1208, 2)"
  by (cases s) (simp_all add: decode_varint_def decode_varint_from.simps(2))

lemma codec_inject: "public_key_multicodec s = public_key_multicodec t \<Longrightarrow> s = t"
  by (cases s; cases t; simp)

lemma codec_length [simp]: "length (public_key_multicodec s) = 2"
  by (cases s) simp_all

lemma find_codec: "find (\<lambda>s. public_key_multicodec s = cb) (map snd REGISTRY) = Some s \<longleftrightarrow>
    public_key_multicodec s = cb"
  by (cases s) (auto simp: REGISTRY_def)

text \<open>
  A Multikey string decodes to a suite and a key exactly when it is \<open>z\<close> followed by the base58btc
  text of that suite's codec and key bytes which the suite's deserializer accepts: no second string,
  prefix or codec denotes the same key bytes, and a key of one suite is never read as another's.
\<close>

theorem multikey_decodes_exactly:
  "(multibase_to_public_key deserialize s = Inr (suite, key)) =
   (\<exists>raw. s = CHR ''z'' # base58btc_encode (public_key_multicodec suite @ raw) \<and>
      deserialize suite raw = Some key)"
proof
  assume "multibase_to_public_key deserialize s = Inr (suite, key)"
  then obtain v cb pb where p: "decode_multikey_payload s = Inr (v, cb, pb)"
    and f: "public_key_multicodec suite = cb" and d: "deserialize suite pb = Some key"
    by (auto simp: multibase_to_public_key_def find_codec split: sum.splits option.splits)
  from p obtain rest bs n where s: "s = CHR ''z'' # rest" and r: "base58btc_decode rest = Inr bs"
    and "cb = take n bs" and "pb = drop n bs"
    by (auto simp: decode_multikey_payload_def split: list.splits sum.splits if_splits)
  then have "bs = public_key_multicodec suite @ pb" using f by simp
  with s base58_decode_encode [OF r] d
  show "\<exists>raw. s = CHR ''z'' # base58btc_encode (public_key_multicodec suite @ raw) \<and> deserialize suite raw = Some key"
    by blast
next
  assume "\<exists>raw. s = CHR ''z'' # base58btc_encode (public_key_multicodec suite @ raw) \<and> deserialize suite raw = Some key"
  then obtain raw where s: "s = CHR ''z'' # base58btc_encode (public_key_multicodec suite @ raw)"
    and d: "deserialize suite raw = Some key" by blast
  have "public_key_multicodec suite @ raw \<noteq> []" by (cases suite) simp_all
  then have "\<exists>v. decode_multikey_payload s = Inr (v, public_key_multicodec suite, raw)"
    by (simp add: s decode_multikey_payload_def base58_encode_decode codec_prefix)
  then show "multibase_to_public_key deserialize s = Inr (suite, key)"
    using d find_codec [of "public_key_multicodec suite" suite] by (auto simp: multibase_to_public_key_def)
qed

lemma multikey_round_trip:
  "deserialize s (serialize s key) = Some key \<Longrightarrow>
   multibase_to_public_key deserialize (public_key_to_multibase serialize s key) = Inr (s, key)"
  by (auto simp: multikey_decodes_exactly public_key_to_multibase_def)

end
