(* ===== verification/Signatures.thy ===== *)
theory Signatures
  imports Multikey
begin

text \<open>
  Model of \<open>kestrel_sovereign/security/verify_policy.py\<close> and \<open>security/signature_verification.py\<close>:
  which entries of a signature array verify against a list of verification methods, and which sets of
  verified entries satisfy a policy. External material is a JSON value of any shape. The library's key
  deserializer and signature check are arguments, collected in a record. Diagnostic texts are
  constructors of a datatype.
\<close>

subsection \<open>External values\<close>

datatype jval = J_Null | J_Bool bool | J_Int int | J_Str string | J_List "jval list"
  | J_Obj "(string \<times> jval) list"

fun j_get :: "jval \<Rightarrow> string \<Rightarrow> jval" where
  "j_get (J_Obj d) k = (case dict_get d k of Some v \<Rightarrow> v | None \<Rightarrow> J_Null)"
| "j_get _ k = J_Null"

fun is_obj :: "jval \<Rightarrow> bool" where
  "is_obj (J_Obj d) = True"
| "is_obj _ = False"

subsection \<open>Policies\<close>

datatype verify_policy = LEGACY_ALLOWED | HYBRID_REQUIRED | PQ_REQUIRED

datatype context_kind = ARCHIVAL_IMPORT | LIVE_IDENTITY_ASSERTION | NEW_IDENTITY_ISSUANCE
  | SPAWN_MANDATE_VERIFICATION | CONSTITUTION_AUDIT_ROUTINE | CONSTITUTION_CHECKPOINT

fun default_policy_for :: "context_kind \<Rightarrow> verify_policy" where
  "default_policy_for ARCHIVAL_IMPORT = LEGACY_ALLOWED"
| "default_policy_for LIVE_IDENTITY_ASSERTION = LEGACY_ALLOWED"
| "default_policy_for NEW_IDENTITY_ISSUANCE = HYBRID_REQUIRED"
| "default_policy_for SPAWN_MANDATE_VERIFICATION = LEGACY_ALLOWED"
| "default_policy_for CONSTITUTION_AUDIT_ROUTINE = LEGACY_ALLOWED"
| "default_policy_for CONSTITUTION_CHECKPOINT = PQ_REQUIRED"

datatype fatal_finding = Not_A_List | Method_Not_Object nat | Id_Not_String nat | Duplicate_Kid string
  | Signatures_Not_A_List

datatype rejection = Entry_Not_Object | Field_Not_String string | Unknown_Kid string | Bad_Method_Key string
  | Wrong_Alg string suite | Bad_Hex string | Does_Not_Verify string

datatype policy_reason = Missing_Alg | No_Signatures | Unknown_Alg | Post_Cutoff_Classical | Satisfied verify_policy
  | Hybrid_Missing bool bool | No_Post_Quantum | Fatal "fatal_finding list"
  | With_Rejected policy_reason "(nat \<times> rejection) list" | Not_Evaluated
  | Archival_Absent | Archival_Method_Missing | Archival_Wrong_Suite | Archival_Not_Pinned | Archival_No_Pin

record policy_result =
  pr_ok :: bool
  pr_reason :: policy_reason
  pr_algs :: "string set"

definition classify :: "string \<Rightarrow> bool option" where
  "classify alg = map_option is_post_quantum (dict_get REGISTRY alg)"

text \<open>
  An entry is represented by the text its \<open>alg\<close> field holds (\<open>None\<close>: absent, or not an object). The
  scan returns the algorithms seen before an entry without one, or all with the three flags.
\<close>

fun scan_algs :: "string option list \<Rightarrow> string list \<Rightarrow> bool \<Rightarrow> bool \<Rightarrow> bool
    \<Rightarrow> string list + string list \<times> bool \<times> bool \<times> bool" where
  "scan_algs [] seen has_classical has_pq has_unknown = Inr (seen, has_classical, has_pq, has_unknown)"
| "scan_algs (entry # entries) seen has_classical has_pq has_unknown =
     (case entry of
        None \<Rightarrow> Inl seen
      | Some alg \<Rightarrow>
          if alg = [] then Inl seen
          else case classify alg of
            None \<Rightarrow> scan_algs entries (seen @ [alg]) has_classical has_pq True
          | Some kind \<Rightarrow>
              if kind then scan_algs entries (seen @ [alg]) has_classical True has_unknown
              else scan_algs entries (seen @ [alg]) True has_pq has_unknown)"

definition result :: "bool \<Rightarrow> policy_reason \<Rightarrow> string list \<Rightarrow> policy_result" where
  "result ok reason seen = \<lparr>pr_ok = ok, pr_reason = reason, pr_algs = set seen\<rparr>"

definition evaluate_signatures :: "string option list \<Rightarrow> verify_policy \<Rightarrow> bool \<Rightarrow> policy_result" where
  "evaluate_signatures entries policy post_cutoff_classical_allowed =
     (case scan_algs entries [] False False False of
        Inl seen \<Rightarrow> result False Missing_Alg seen
      | Inr (seen, has_classical, has_pq, has_unknown) \<Rightarrow>
          if seen = [] then result False No_Signatures seen
          else if has_unknown then result False Unknown_Alg seen
          else if \<not> post_cutoff_classical_allowed \<and> \<not> has_pq then result False Post_Cutoff_Classical seen
          else case policy of
            LEGACY_ALLOWED \<Rightarrow> result True (Satisfied LEGACY_ALLOWED) seen
          | HYBRID_REQUIRED \<Rightarrow>
              if has_classical \<and> has_pq then result True (Satisfied HYBRID_REQUIRED) seen
              else result False (Hybrid_Missing (\<not> has_classical) (\<not> has_pq)) seen
          | PQ_REQUIRED \<Rightarrow>
              if has_pq then result True (Satisfied PQ_REQUIRED) seen
              else result False No_Post_Quantum seen)"

subsection \<open>Verification methods by kid\<close>

definition verification_method_kid :: "string \<Rightarrow> string" where
  "verification_method_kid vm_id =
     (if CHR ''#'' \<in> set vm_id then rev (takeWhile (\<lambda>c. c \<noteq> CHR ''#'') (rev vm_id)) else vm_id)"

record method_index =
  mi_methods :: "(string, jval) dict"
  mi_fatal :: "fatal_finding list"

text \<open>The dictionary \<open>first_id_for_kid\<close> has the keys of \<open>methods\<close> throughout the loop.\<close>

fun index_methods :: "nat \<Rightarrow> jval list \<Rightarrow> method_index \<Rightarrow> method_index" where
  "index_methods i [] idx = idx"
| "index_methods i (vm # vms) idx =
     index_methods (Suc i) vms
       (if \<not> is_obj vm then idx\<lparr>mi_fatal := mi_fatal idx @ [Method_Not_Object i]\<rparr>
        else case j_get vm ''id'' of
          J_Null \<Rightarrow> idx
        | J_Str vm_id \<Rightarrow>
            (let kid = verification_method_kid vm_id in
             if kid = [] then idx
             else if dict_get (mi_methods idx) kid \<noteq> None
             then idx\<lparr>mi_fatal := mi_fatal idx @ [Duplicate_Kid kid]\<rparr>
             else idx\<lparr>mi_methods := dict_put kid vm (mi_methods idx)\<rparr>)
        | _ \<Rightarrow> idx\<lparr>mi_fatal := mi_fatal idx @ [Id_Not_String i]\<rparr>)"

definition index_verification_methods :: "jval \<Rightarrow> method_index" where
  "index_verification_methods vms =
     (case vms of
        J_List l \<Rightarrow> index_methods 0 l \<lparr>mi_methods = [], mi_fatal = []\<rparr>
      | _ \<Rightarrow> \<lparr>mi_methods = [], mi_fatal = [Not_A_List]\<rparr>)"

subsection \<open>Entries\<close>

record 'k crypto =
  cr_deserialize :: "suite \<Rightarrow> byte list \<Rightarrow> 'k option"
  cr_verify :: "suite \<Rightarrow> byte list \<Rightarrow> byte list \<Rightarrow> 'k \<Rightarrow> bool"

definition decode_verification_method_key :: "'k crypto \<Rightarrow> jval \<Rightarrow> (suite \<times> 'k) option" where
  "decode_verification_method_key cr vm =
     (case j_get vm ''publicKeyMultibase'' of
        J_Str multibase \<Rightarrow>
          (case multibase_to_public_key (cr_deserialize cr) multibase of
             Inl e \<Rightarrow> None
           | Inr key \<Rightarrow> Some key)
      | _ \<Rightarrow> None)"

text \<open>\<open>bytes.fromhex\<close>: pairs of hexadecimal digits, ASCII blanks between the pairs.\<close>

definition hex_digit :: "char \<Rightarrow> nat option" where
  "hex_digit c =
     (let n = cp c in
      if 48 \<le> n \<and> n \<le> 57 then Some (n - 48)
      else if 97 \<le> n \<and> n \<le> 102 then Some (n - 87)
      else if 65 \<le> n \<and> n \<le> 70 then Some (n - 55)
      else None)"

fun fromhex :: "string \<Rightarrow> byte list option" where
  "fromhex [] = Some []"
| "fromhex (c # cs) =
     (if cp c \<in> {9, 10, 11, 12, 13, 32} then fromhex cs
      else case cs of
        [] \<Rightarrow> None
      | d # ds \<Rightarrow>
          (case (hex_digit c, hex_digit d) of
             (Some h, Some l) \<Rightarrow> map_option (\<lambda>bs. word_of_nat (16 * h + l) # bs) (fromhex ds)
           | _ \<Rightarrow> None))"

definition nonempty_text :: "jval \<Rightarrow> string option" where
  "nonempty_text v = (case v of J_Str s \<Rightarrow> if s = [] then None else Some s | _ \<Rightarrow> None)"

text \<open>\<open>None\<close> is the empty reason: the entry verifies.\<close>

definition check_entry :: "'k crypto \<Rightarrow> byte list \<Rightarrow> jval \<Rightarrow> (string, jval) dict \<Rightarrow> rejection option" where
  "check_entry cr data entry methods =
     (if \<not> is_obj entry then Some Entry_Not_Object
      else case nonempty_text (j_get entry ''alg'') of
        None \<Rightarrow> Some (Field_Not_String ''alg'')
      | Some alg \<Rightarrow>
      (case nonempty_text (j_get entry ''kid'') of
        None \<Rightarrow> Some (Field_Not_String ''kid'')
      | Some kid \<Rightarrow>
      (case nonempty_text (j_get entry ''sig'') of
        None \<Rightarrow> Some (Field_Not_String ''sig'')
      | Some sig_hex \<Rightarrow>
      (case dict_get methods kid of
        None \<Rightarrow> Some (Unknown_Kid kid)
      | Some vm \<Rightarrow>
      (case decode_verification_method_key cr vm of
        None \<Rightarrow> Some (Bad_Method_Key kid)
      | Some (suite, public_key) \<Rightarrow>
          if alg_id suite \<noteq> alg then Some (Wrong_Alg kid suite)
          else case fromhex sig_hex of
            None \<Rightarrow> Some (Bad_Hex kid)
          | Some sig_bytes \<Rightarrow>
              if cr_verify cr suite data sig_bytes public_key then None else Some (Does_Not_Verify kid))))))"

record verification =
  ve_verified :: "jval list"
  ve_rejected :: "(nat \<times> rejection) list"
  ve_fatal :: "fatal_finding list"

fun check_entries ::
  "'k crypto \<Rightarrow> byte list \<Rightarrow> (string, jval) dict \<Rightarrow> nat \<Rightarrow> jval list \<Rightarrow> jval list \<times> (nat \<times> rejection) list" where
  "check_entries cr data methods i [] = ([], [])"
| "check_entries cr data methods i (entry # entries) =
     (let (verified, rejected) = check_entries cr data methods (Suc i) entries in
      case check_entry cr data entry methods of
        None \<Rightarrow> (entry # verified, rejected)
      | Some reason \<Rightarrow> (verified, (i, reason) # rejected))"

definition verify_signature_entries :: "'k crypto \<Rightarrow> byte list \<Rightarrow> jval \<Rightarrow> jval \<Rightarrow> verification" where
  "verify_signature_entries cr data signatures verification_methods =
     (let index = index_verification_methods verification_methods in
      case signatures of
        J_List entries \<Rightarrow>
          if mi_fatal index \<noteq> [] then \<lparr>ve_verified = [], ve_rejected = [], ve_fatal = mi_fatal index\<rparr>
          else (let (verified, rejected) = check_entries cr data (mi_methods index) 0 entries
            in \<lparr>ve_verified = verified, ve_rejected = rejected, ve_fatal = []\<rparr>)
      | _ \<Rightarrow> \<lparr>ve_verified = [], ve_rejected = [], ve_fatal = mi_fatal index @ [Signatures_Not_A_List]\<rparr>)"

definition entry_alg :: "jval \<Rightarrow> string option" where
  "entry_alg entry = (case j_get entry ''alg'' of J_Str alg \<Rightarrow> Some alg | _ \<Rightarrow> None)"

definition evaluate :: "verification \<Rightarrow> verify_policy \<Rightarrow> bool \<Rightarrow> policy_result" where
  "evaluate v policy post_cutoff_classical_allowed =
     (if ve_fatal v \<noteq> [] then result False (Fatal (ve_fatal v)) []
      else let r = evaluate_signatures (map entry_alg (ve_verified v)) policy post_cutoff_classical_allowed in
        if pr_ok r \<or> ve_rejected v = [] then r
        else r\<lparr>pr_reason := With_Rejected (pr_reason r) (ve_rejected v)\<rparr>)"

subsection \<open>What a policy accepts\<close>

lemma alg_id_inject [simp]: "alg_id s = alg_id t \<longleftrightarrow> s = t"
  by (cases s; cases t) simp_all

lemma alg_id_nonempty [simp]: "alg_id s \<noteq> []"
  by (cases s) simp_all

lemma classify_alg_id [simp]: "classify (alg_id s) = Some (is_post_quantum s)"
  by (cases s) (simp_all add: classify_def REGISTRY_def dict_get_def)

lemma classify_Some: "classify alg = Some kind \<longleftrightarrow> (\<exists>s. alg = alg_id s \<and> is_post_quantum s = kind)"
proof
  assume "classify alg = Some kind"
  then obtain s where "dict_get REGISTRY alg = Some s" and "is_post_quantum s = kind"
    by (auto simp: classify_def)
  moreover from this(1) have "alg = alg_id s"
    using dict_get_in [of REGISTRY alg s] by (auto simp: REGISTRY_def)
  ultimately show "\<exists>s. alg = alg_id s \<and> is_post_quantum s = kind" by blast
qed auto

text \<open>The suites named by a list of entries, all of which must name one.\<close>

definition names_suites :: "string option list \<Rightarrow> suite list \<Rightarrow> bool" where
  "names_suites entries suites \<longleftrightarrow> entries = map (\<lambda>s. Some (alg_id s)) suites"

lemma scan_suites:
  "scan_algs (map (\<lambda>s. Some (alg_id s)) suites) seen c q u =
     Inr (seen @ map alg_id suites, c \<or> list_ex (\<lambda>s. \<not> is_post_quantum s) suites,
       q \<or> list_ex is_post_quantum suites, u)"
  by (induction suites arbitrary: seen c q) auto

lemma scan_keeps_unknown: "scan_algs entries seen c q True = Inr (seen', c', q', u') \<Longrightarrow> u'"
  by (induction entries arbitrary: seen c q) (auto split: option.splits if_splits)

lemma scan_known:
  "scan_algs entries seen c q u = Inr (seen', c', q', False) \<Longrightarrow> \<exists>suites. names_suites entries suites"
proof (induction entries arbitrary: seen c q u)
  case (Cons entry entries)
  then obtain alg where e: "entry = Some alg" and ne: "alg \<noteq> []" by (auto split: option.splits if_splits)
  show ?case
  proof (cases "classify alg")
    case None
    with Cons.prems e ne scan_keeps_unknown show ?thesis by fastforce
  next
    case (Some kind)
    then obtain s where s: "alg = alg_id s" using classify_Some by blast
    have "\<exists>suites. names_suites entries suites"
      using Cons.prems Cons.IH e ne Some by (cases kind) auto
    then obtain suites where "names_suites entries suites" by blast
    then have "names_suites (entry # entries) (s # suites)" by (simp add: names_suites_def e s)
    then show ?thesis by blast
  qed
qed (auto simp: names_suites_def intro: exI [of _ "[]"])

lemma suite_names_inject [simp]:
  "map (\<lambda>s. Some (alg_id s)) ss = map (\<lambda>s. Some (alg_id s)) ts \<longleftrightarrow> ss = ts"
proof -
  have "inj (\<lambda>s. Some (alg_id s))" by (simp add: inj_def)
  then show ?thesis by (metis map_injective)
qed

text \<open>
  A set of entries is accepted exactly when every one of them names a registered suite, there is
  at least one, and the policy holds of them: a classical and a post-quantum suite under
  HYBRID_REQUIRED, a post-quantum one under PQ_REQUIRED, and after a cutoff a post-quantum one under
  every policy. One unknown or missing algorithm refuses the whole set.
\<close>

theorem evaluate_accepts_exactly:
  "pr_ok (evaluate_signatures entries policy allowed) =
   (\<exists>suites. entries = map (\<lambda>s. Some (alg_id s)) suites \<and> suites \<noteq> [] \<and>
      (\<not> allowed \<or> policy \<noteq> LEGACY_ALLOWED \<longrightarrow> (\<exists>s \<in> set suites. is_post_quantum s)) \<and>
      (policy = HYBRID_REQUIRED \<longrightarrow> (\<exists>s \<in> set suites. \<not> is_post_quantum s)))"
proof (cases "\<exists>suites. names_suites entries suites")
  case True
  then obtain suites where e: "entries = map (\<lambda>s. Some (alg_id s)) suites" by (auto simp: names_suites_def)
  show ?thesis
    by (cases policy) (auto simp: evaluate_signatures_def result_def e scan_suites list_ex_iff)
next
  case False
  then have "\<not> pr_ok (evaluate_signatures entries policy allowed)"
    using scan_known [of entries "[]" False False False]
    by (auto simp: evaluate_signatures_def result_def split: sum.splits verify_policy.splits)
  with False show ?thesis by (auto simp: names_suites_def)
qed

theorem evaluate_accepts_exactly_witness:
  "\<not> pr_ok (evaluate_signatures [Some ''ed25519''] LEGACY_ALLOWED False)"
proof -
  have "[Some ''ed25519''] = map (\<lambda>s. Some (alg_id s)) suites \<longleftrightarrow> suites = [Ed25519]" for suites
    using suite_names_inject [of "[Ed25519]" suites] by (simp del: suite_names_inject) blast
  then show ?thesis
    using evaluate_accepts_exactly [of "[Some ''ed25519'']" LEGACY_ALLOWED False] by simp
qed

subsection \<open>Which entries verify\<close>

text \<open>The kid of a method of a list: \<open>None\<close> for an unaddressable one.\<close>

definition kid_of :: "jval \<Rightarrow> string option" where
  "kid_of vm =
     (case j_get vm ''id'' of
        J_Str vm_id \<Rightarrow> if verification_method_kid vm_id = [] then None else Some (verification_method_kid vm_id)
      | _ \<Rightarrow> None)"

definition index_step :: "nat \<Rightarrow> jval \<Rightarrow> method_index \<Rightarrow> method_index" where
  "index_step i vm idx =
     (if \<not> is_obj vm then idx\<lparr>mi_fatal := mi_fatal idx @ [Method_Not_Object i]\<rparr>
      else case j_get vm ''id'' of
        J_Null \<Rightarrow> idx
      | J_Str vm_id \<Rightarrow>
          (let kid = verification_method_kid vm_id in
           if kid = [] then idx
           else if dict_get (mi_methods idx) kid \<noteq> None
           then idx\<lparr>mi_fatal := mi_fatal idx @ [Duplicate_Kid kid]\<rparr>
           else idx\<lparr>mi_methods := dict_put kid vm (mi_methods idx)\<rparr>)
      | _ \<Rightarrow> idx\<lparr>mi_fatal := mi_fatal idx @ [Id_Not_String i]\<rparr>)"

lemma index_methods_step: "index_methods i (vm # vms) idx = index_methods (Suc i) vms (index_step i vm idx)"
  by (simp add: index_step_def)

lemma index_step_cases:
  "mi_fatal (index_step i vm idx) = [] \<longleftrightarrow>
     mi_fatal idx = [] \<and> is_obj vm \<and> (j_get vm ''id'' = J_Null \<or> (\<exists>s. j_get vm ''id'' = J_Str s)) \<and>
     (\<forall>kid. kid_of vm = Some kid \<longrightarrow> dict_get (mi_methods idx) kid = None)"
  "mi_fatal (index_step i vm idx) = [] \<Longrightarrow> mi_methods (index_step i vm idx) =
     (case kid_of vm of None \<Rightarrow> mi_methods idx | Some kid \<Rightarrow> dict_put kid vm (mi_methods idx))"
  by (auto simp: index_step_def kid_of_def Let_def split: jval.splits)

declare index_methods.simps(2) [simp del]

lemma index_fatal_grows: "mi_fatal (index_methods i l idx) = [] \<Longrightarrow> mi_fatal idx = []"
proof (induction l arbitrary: i idx)
  case (Cons vm l)
  from Cons.prems have "mi_fatal (index_methods (Suc i) l (index_step i vm idx)) = []"
    by (simp only: index_methods_step)
  from Cons.IH [OF this] show ?case by (simp only: index_step_cases(1))
qed simp

definition methods_for :: "string \<Rightarrow> jval list \<Rightarrow> jval list" where
  "methods_for kid l = filter (\<lambda>vm. kid_of vm = Some kid) l"

lemma index_methods_exact:
  assumes "mi_fatal (index_methods i l idx) = []"
  shows "(\<forall>vm \<in> set l. is_obj vm \<and> (j_get vm ''id'' = J_Null \<or> (\<exists>s. j_get vm ''id'' = J_Str s))) \<and>
    (case dict_get (mi_methods idx) kid of
       Some vm \<Rightarrow> methods_for kid l = [] \<and> dict_get (mi_methods (index_methods i l idx)) kid = Some vm
     | None \<Rightarrow>
         (case dict_get (mi_methods (index_methods i l idx)) kid of
            Some vm \<Rightarrow> methods_for kid l = [vm]
          | None \<Rightarrow> methods_for kid l = []))"
  using assms
proof (induction l arbitrary: i idx)
  case Nil
  then show ?case by (simp add: methods_for_def split: option.splits)
next
  case (Cons vm l)
  define idx' where "idx' = index_step i vm idx"
  have rest: "index_methods i (vm # l) idx = index_methods (Suc i) l idx'"
    by (simp only: index_methods_step idx'_def)
  with Cons.prems have fatal: "mi_fatal (index_methods (Suc i) l idx') = []" by simp
  note IH = Cons.IH [OF fatal]
  from index_fatal_grows [OF fatal] have f: "mi_fatal (index_step i vm idx) = []" by (simp only: idx'_def)
  note vm = f [unfolded index_step_cases(1)]
  have m: "mi_methods idx' = (case kid_of vm of None \<Rightarrow> mi_methods idx | Some kid \<Rightarrow> dict_put kid vm (mi_methods idx))"
    unfolding idx'_def by (rule index_step_cases(2) [OF f])
  show ?case
  proof (cases "kid_of vm = Some kid")
    case True
    then have "dict_get (mi_methods idx) kid = None" and "dict_get (mi_methods idx') kid = Some vm"
      using vm m by auto
    with IH vm True show ?thesis unfolding rest by (simp add: methods_for_def)
  next
    case False
    then have "dict_get (mi_methods idx') kid = dict_get (mi_methods idx) kid"
      using m by (auto split: option.splits)
    moreover have "methods_for kid (vm # l) = methods_for kid l" using False by (simp add: methods_for_def)
    ultimately show ?thesis using IH vm unfolding rest by (simp split: option.splits)
  qed
qed

lemma index_methods_ok:
  assumes "\<forall>vm \<in> set l. is_obj vm \<and> (j_get vm ''id'' = J_Null \<or> (\<exists>s. j_get vm ''id'' = J_Str s))"
    and "\<forall>kid. length (methods_for kid l) \<le> (if dict_get (mi_methods idx) kid = None then 1 else 0)"
    and "mi_fatal idx = []"
  shows "mi_fatal (index_methods i l idx) = []"
  using assms
proof (induction l arbitrary: i idx)
  case (Cons vm l)
  have new: "dict_get (mi_methods idx) kid = None" if "kid_of vm = Some kid" for kid
    using Cons.prems(2) [rule_format, of kid] that by (auto simp: methods_for_def split: if_splits)
  with Cons.prems have f: "mi_fatal (index_step i vm idx) = []" by (simp add: index_step_cases(1))
  have "length (methods_for kid l) \<le> (if dict_get (mi_methods (index_step i vm idx)) kid = None then 1 else 0)" for kid
    using Cons.prems(2) [rule_format, of kid] new [of kid] index_step_cases(2) [OF f]
    by (auto simp: methods_for_def split: option.splits if_splits)
  with Cons f show ?case by (simp add: index_methods_step)
qed simp

text \<open>A list of methods the index takes: objects, textual or absent ids, no kid twice.\<close>

definition sound_methods :: "jval list \<Rightarrow> bool" where
  "sound_methods l \<longleftrightarrow>
     (\<forall>vm \<in> set l. is_obj vm \<and> (j_get vm ''id'' = J_Null \<or> (\<exists>s. j_get vm ''id'' = J_Str s))) \<and>
     (\<forall>kid. length (methods_for kid l) \<le> 1)"

lemma index_sound:
  "mi_fatal (index_verification_methods vms) = [] \<longleftrightarrow> (\<exists>l. vms = J_List l \<and> sound_methods l)"
proof (cases vms)
  case (J_List l)
  let ?e = "\<lparr>mi_methods = [], mi_fatal = []\<rparr>"
  have "sound_methods l \<longleftrightarrow> mi_fatal (index_methods 0 l ?e) = []"
  proof
    assume f: "mi_fatal (index_methods 0 l ?e) = []"
    have "length (methods_for kid l) \<le> 1" for kid
      using index_methods_exact [OF f, of kid] by (simp split: option.splits)
    with index_methods_exact [OF f] show "sound_methods l" unfolding sound_methods_def by blast
  next
    assume "sound_methods l"
    then show "mi_fatal (index_methods 0 l ?e) = []"
      by (intro index_methods_ok) (simp_all add: sound_methods_def)
  qed
  then show ?thesis by (simp add: J_List index_verification_methods_def)
qed (simp_all add: index_verification_methods_def)

lemma index_lookup:
  assumes "sound_methods l"
  shows "dict_get (mi_methods (index_verification_methods (J_List l))) kid = Some vm \<longleftrightarrow> methods_for kid l = [vm]"
proof -
  have "mi_fatal (index_verification_methods (J_List l)) = []" using assms index_sound by blast
  then have "mi_fatal (index_methods 0 l \<lparr>mi_methods = [], mi_fatal = []\<rparr>) = []"
    by (simp add: index_verification_methods_def)
  from index_methods_exact [OF this, of kid] show ?thesis
    by (auto simp: index_verification_methods_def split: option.splits)
qed

text \<open>An entry carries a signature over \<open>data\<close> by the key of a suite in a list of methods.\<close>

definition signed_by :: "'k crypto \<Rightarrow> byte list \<Rightarrow> jval list \<Rightarrow> jval \<Rightarrow> suite \<Rightarrow> 'k \<Rightarrow> bool" where
  "signed_by cr data l entry suite key \<longleftrightarrow>
     is_obj entry \<and> j_get entry ''alg'' = J_Str (alg_id suite) \<and>
     (\<exists>kid sig_hex sig_bytes vm multibase.
        j_get entry ''kid'' = J_Str kid \<and> kid \<noteq> [] \<and> methods_for kid l = [vm] \<and>
        j_get entry ''sig'' = J_Str sig_hex \<and> sig_hex \<noteq> [] \<and> fromhex sig_hex = Some sig_bytes \<and>
        j_get vm ''publicKeyMultibase'' = J_Str multibase \<and>
        multibase_to_public_key (cr_deserialize cr) multibase = Inr (suite, key) \<and>
        cr_verify cr suite data sig_bytes key)"

lemma decode_key_Some:
  "decode_verification_method_key cr vm = Some (suite, key) \<longleftrightarrow>
     (\<exists>multibase. j_get vm ''publicKeyMultibase'' = J_Str multibase \<and>
        multibase_to_public_key (cr_deserialize cr) multibase = Inr (suite, key))"
  by (auto simp: decode_verification_method_key_def split: jval.splits sum.splits)

lemma nonempty_text_Some: "nonempty_text v = Some s \<longleftrightarrow> v = J_Str s \<and> s \<noteq> []"
  by (auto simp: nonempty_text_def split: jval.splits)

lemma check_entry_exact:
  assumes "\<And>kid vm. dict_get methods kid = Some vm \<longleftrightarrow> methods_for kid l = [vm]"
  shows "check_entry cr data entry methods = None \<longleftrightarrow> (\<exists>suite key. signed_by cr data l entry suite key)"
proof
  assume "check_entry cr data entry methods = None"
  then obtain alg kid sg vm suite key sb where
    "is_obj entry" "nonempty_text (j_get entry ''alg'') = Some alg" "nonempty_text (j_get entry ''kid'') = Some kid"
    "nonempty_text (j_get entry ''sig'') = Some sg" "dict_get methods kid = Some vm"
    "decode_verification_method_key cr vm = Some (suite, key)" "alg_id suite = alg" "fromhex sg = Some sb"
    "cr_verify cr suite data sb key"
    by (auto simp: check_entry_def split: option.splits if_splits prod.splits)
  then have "signed_by cr data l entry suite key"
    using assms by (auto simp: signed_by_def nonempty_text_Some decode_key_Some)
  then show "\<exists>suite key. signed_by cr data l entry suite key" by blast
next
  assume "\<exists>suite key. signed_by cr data l entry suite key"
  then obtain suite key kid sg sb vm where
    "is_obj entry" "nonempty_text (j_get entry ''alg'') = Some (alg_id suite)"
    "nonempty_text (j_get entry ''kid'') = Some kid"
    "nonempty_text (j_get entry ''sig'') = Some sg" "dict_get methods kid = Some vm"
    "decode_verification_method_key cr vm = Some (suite, key)" "fromhex sg = Some sb"
    "cr_verify cr suite data sb key"
    using assms by (auto simp: signed_by_def nonempty_text_Some decode_key_Some)
  then show "check_entry cr data entry methods = None" by (simp add: check_entry_def)
qed

lemma check_entries_verified:
  "set (fst (check_entries cr data methods i entries)) =
     {e \<in> set entries. check_entry cr data e methods = None}"
proof (induction entries arbitrary: i)
  case (Cons e entries)
  then show ?case
    by (cases "check_entry cr data e methods") (auto simp: case_prod_beta Let_def)
qed simp

lemma verified_exact:
  "e \<in> set (ve_verified (verify_signature_entries cr data signatures vms)) \<longleftrightarrow>
     (\<exists>entries l. signatures = J_List entries \<and> vms = J_List l \<and> sound_methods l \<and> e \<in> set entries \<and>
        (\<exists>suite key. signed_by cr data l e suite key))"
proof (cases "mi_fatal (index_verification_methods vms) = []")
  case True
  then obtain l where l: "vms = J_List l" "sound_methods l" using index_sound by blast
  note look = index_lookup [OF l(2)]
  show ?thesis
  proof (cases signatures)
    case (J_List entries)
    have "ve_verified (verify_signature_entries cr data signatures vms) =
      fst (check_entries cr data (mi_methods (index_verification_methods vms)) 0 entries)"
      using True by (simp add: verify_signature_entries_def J_List Let_def case_prod_beta)
    then show ?thesis
      using check_entry_exact [of "mi_methods (index_verification_methods vms)" l cr data] look l
      by (simp add: check_entries_verified J_List)
  qed (simp_all add: verify_signature_entries_def)
next
  case False
  then have "\<not> (\<exists>l. vms = J_List l \<and> sound_methods l)" using index_sound by blast
  then show ?thesis using False
    by (auto simp: verify_signature_entries_def Let_def split: jval.splits)
qed

text \<open>The suites of the keys in \<open>vms\<close> that really signed \<open>data\<close>.\<close>

definition signers :: "'k crypto \<Rightarrow> byte list \<Rightarrow> jval \<Rightarrow> jval \<Rightarrow> suite set" where
  "signers cr data signatures vms =
     {suite. \<exists>entries l e key. signatures = J_List entries \<and> vms = J_List l \<and> sound_methods l \<and>
        e \<in> set entries \<and> signed_by cr data l e suite key}"

lemma signed_by_alg: "signed_by cr data l e suite key \<Longrightarrow> entry_alg e = Some (alg_id suite)"
  by (simp add: signed_by_def entry_alg_def)

lemma all_named: "\<forall>e \<in> set es. \<exists>s. f e = Some (alg_id s) \<Longrightarrow> \<exists>suites. map f es = map (\<lambda>s. Some (alg_id s)) suites"
proof (induction es)
  case (Cons e es)
  then obtain s suites where "f e = Some (alg_id s)" and "map f es = map (\<lambda>s. Some (alg_id s)) suites" by auto
  then have "map f (e # es) = map (\<lambda>s. Some (alg_id s)) (s # suites)" by simp
  then show ?case by blast
qed simp

lemma accepted_iff_signed:
  "pr_ok (evaluate (verify_signature_entries cr data signatures vms) policy allowed) \<longleftrightarrow>
     signers cr data signatures vms \<noteq> {} \<and>
     (\<not> allowed \<or> policy \<noteq> LEGACY_ALLOWED \<longrightarrow> (\<exists>s \<in> signers cr data signatures vms. is_post_quantum s)) \<and>
     (policy = HYBRID_REQUIRED \<longrightarrow> (\<exists>s \<in> signers cr data signatures vms. \<not> is_post_quantum s))"
proof -
  let ?v = "verify_signature_entries cr data signatures vms"
  have fatal: "ve_fatal ?v \<noteq> [] \<Longrightarrow> ve_verified ?v = []"
    by (auto simp: verify_signature_entries_def Let_def case_prod_beta split: jval.splits if_splits)
  have mem: "e \<in> set (ve_verified ?v) \<longleftrightarrow> (\<exists>entries l. signatures = J_List entries \<and> vms = J_List l \<and>
      sound_methods l \<and> e \<in> set entries \<and> (\<exists>suite key. signed_by cr data l e suite key))" for e
    by (rule verified_exact)
  have "\<forall>e \<in> set (ve_verified ?v). \<exists>s. entry_alg e = Some (alg_id s)"
  proof
    fix e assume "e \<in> set (ve_verified ?v)"
    then obtain l suite key where "signed_by cr data l e suite key" by (auto simp: mem)
    from signed_by_alg [OF this] show "\<exists>s. entry_alg e = Some (alg_id s)" by blast
  qed
  then obtain suites where suites: "map entry_alg (ve_verified ?v) = map (\<lambda>s. Some (alg_id s)) suites"
    using all_named by blast
  have "s \<in> set suites \<longleftrightarrow> s \<in> signers cr data signatures vms" for s
  proof -
    have "s \<in> set suites \<longleftrightarrow> Some (alg_id s) \<in> set (map (\<lambda>s. Some (alg_id s)) suites)" by auto
    also have "\<dots> \<longleftrightarrow> (\<exists>e \<in> set (ve_verified ?v). entry_alg e = Some (alg_id s))"
      by (simp only: suites [symmetric]) (auto intro: rev_image_eqI)
    also have "\<dots> \<longleftrightarrow> s \<in> signers cr data signatures vms"
    proof
      assume "\<exists>e \<in> set (ve_verified ?v). entry_alg e = Some (alg_id s)"
      then obtain e entries l suite key where "entry_alg e = Some (alg_id s)" "signatures = J_List entries"
        "vms = J_List l" "sound_methods l" "e \<in> set entries" and s: "signed_by cr data l e suite key"
        by (auto simp: mem)
      moreover from signed_by_alg [OF s] this(1) have "suite = s" by simp
      ultimately show "s \<in> signers cr data signatures vms" unfolding signers_def by blast
    next
      assume "s \<in> signers cr data signatures vms"
      then obtain entries l e key where "signatures = J_List entries" "vms = J_List l" "sound_methods l"
        "e \<in> set entries" and s: "signed_by cr data l e s key" unfolding signers_def by blast
      then have "e \<in> set (ve_verified ?v)" unfolding mem by blast
      with signed_by_alg [OF s] show "\<exists>e \<in> set (ve_verified ?v). entry_alg e = Some (alg_id s)" by blast
    qed
    finally show ?thesis .
  qed
  then have set: "signers cr data signatures vms = set suites" by blast
  have ok: "pr_ok (evaluate ?v policy allowed) \<longleftrightarrow>
      ve_fatal ?v = [] \<and> pr_ok (evaluate_signatures (map (\<lambda>s. Some (alg_id s)) suites) policy allowed)"
    by (simp add: evaluate_def suites result_def Let_def)
  have "pr_ok (evaluate_signatures (map (\<lambda>s. Some (alg_id s)) suites) policy allowed) \<longleftrightarrow>
      suites \<noteq> [] \<and> (\<not> allowed \<or> policy \<noteq> LEGACY_ALLOWED \<longrightarrow> (\<exists>s \<in> set suites. is_post_quantum s)) \<and>
      (policy = HYBRID_REQUIRED \<longrightarrow> (\<exists>s \<in> set suites. \<not> is_post_quantum s))"
    by (cases policy) (auto simp: evaluate_signatures_def result_def scan_suites list_ex_iff)
  moreover have "suites = []" if "ve_fatal ?v \<noteq> []" using fatal [OF that] suites by simp
  ultimately show ?thesis unfolding ok set by auto
qed

text \<open>
  C25: A signature array is accepted exactly when keys published in the method list really signed the
  data: some entry verifies under the one method with its kid whose decoded key type is the algorithm
  it claims, the classical and post-quantum kinds the policy wants are among those keys, and the list
  is well formed (objects, textual ids, no kid twice). Malformed material is refused, never raised.
\<close>

theorem accepted_exactly_when_signed:
  "pr_ok (evaluate (verify_signature_entries cr data signatures vms) policy allowed) =
   (signers cr data signatures vms \<noteq> {} \<and>
     (\<not> allowed \<or> policy \<noteq> LEGACY_ALLOWED \<longrightarrow> (\<exists>s \<in> signers cr data signatures vms. is_post_quantum s)) \<and>
     (policy = HYBRID_REQUIRED \<longrightarrow> (\<exists>s \<in> signers cr data signatures vms. \<not> is_post_quantum s)))"
  by (rule accepted_iff_signed)

text \<open>A library whose signatures are the keys themselves, and a hybrid pair of methods under it.\<close>

definition demo_crypto :: "byte list crypto" where
  "demo_crypto = \<lparr>cr_deserialize = (\<lambda>s raw. Some raw), cr_verify = (\<lambda>s data sig key. sig = key)\<rparr>"

definition demo_method :: "string \<Rightarrow> suite \<Rightarrow> byte list \<Rightarrow> jval" where
  "demo_method kid s key = J_Obj [(''id'', J_Str (''did:web:x#'' @ kid)),
     (''publicKeyMultibase'', J_Str (public_key_to_multibase (\<lambda>s raw. raw) s key))]"

definition demo_entry :: "string \<Rightarrow> suite \<Rightarrow> string \<Rightarrow> jval" where
  "demo_entry kid s sig = J_Obj [(''alg'', J_Str (alg_id s)), (''kid'', J_Str kid), (''sig'', J_Str sig)]"

definition demo_methods :: "jval list" where
  "demo_methods = [demo_method ''c'' Ed25519 [0x01], demo_method ''q'' ML_DSA_65 [0x02]]"

definition demo_signatures :: "jval list" where
  "demo_signatures = [demo_entry ''c'' Ed25519 ''01'', demo_entry ''q'' ML_DSA_65 ''02'']"

lemma demo_key: "multibase_to_public_key (cr_deserialize demo_crypto)
    (public_key_to_multibase (\<lambda>s raw. raw) s key) = Inr (s, key)"
  by (rule multikey_round_trip) (simp add: demo_crypto_def)

lemma demo_kids: "kid_of (demo_method ''c'' s k) = Some ''c''" "kid_of (demo_method ''q'' s k) = Some ''q''"
  by (simp_all add: kid_of_def demo_method_def verification_method_kid_def dict_get_def)

lemma demo_sound: "sound_methods demo_methods"
  by (auto simp: sound_methods_def demo_methods_def methods_for_def demo_kids) (simp_all add: demo_method_def dict_get_def)

lemma demo_signed:
  "signed_by demo_crypto data demo_methods (demo_entry ''c'' Ed25519 ''01'') Ed25519 [0x01]"
  "signed_by demo_crypto data demo_methods (demo_entry ''q'' ML_DSA_65 ''02'') ML_DSA_65 [0x02]"
proof -
  have "methods_for ''c'' demo_methods = [demo_method ''c'' Ed25519 [0x01]]"
    "methods_for ''q'' demo_methods = [demo_method ''q'' ML_DSA_65 [0x02]]"
    by (simp_all add: methods_for_def demo_methods_def demo_kids)
  moreover have "j_get (demo_method kid s key) ''publicKeyMultibase'' =
      J_Str (public_key_to_multibase (\<lambda>s raw. raw) s key)" for kid s key
    by (simp add: demo_method_def dict_get_def)
  moreover have "fromhex ''01'' = Some [0x01]" "fromhex ''02'' = Some [0x02]"
    by (simp_all add: hex_digit_def cp_def)
  ultimately show "signed_by demo_crypto data demo_methods (demo_entry ''c'' Ed25519 ''01'') Ed25519 [0x01]"
    "signed_by demo_crypto data demo_methods (demo_entry ''q'' ML_DSA_65 ''02'') ML_DSA_65 [0x02]"
    by (simp_all add: signed_by_def demo_entry_def dict_get_def demo_key) (simp_all add: demo_crypto_def)
qed

lemma demo_signers:
  "{Ed25519, ML_DSA_65} \<subseteq> signers demo_crypto data (J_List demo_signatures) (J_List demo_methods)"
  unfolding signers_def using demo_sound demo_signed [of data] by (auto simp: demo_signatures_def)

theorem accepted_exactly_when_signed_witness:
  "pr_ok (evaluate (verify_signature_entries demo_crypto [0x07] (J_List demo_signatures) (J_List demo_methods))
     HYBRID_REQUIRED False)"
  using demo_signers [of "[0x07]"] unfolding accepted_exactly_when_signed by force

end
