(* ===== verification/Succession.thy ===== *)
theory Succession
  imports Signatures "HOL-Library.Product_Lexorder" "HOL-Library.List_Lexorder" "HOL-Library.Char_ord"
    "HOL-Library.Multiset"
begin

text \<open>
  Model of \<open>kestrel_sovereign/identity/succession.py\<close> and \<open>identity/succession_chain.py\<close>: statements
  that hand an identity over to new keys, their verification, the chains they form and the
  verification of an artifact against a chain. What the code takes from libraries is collected in a
  record of arguments: the signature library, \<open>datetime.fromisoformat\<close> (local time and offset in
  microseconds), the canonical JSON text of the signed fields, SHA-256 in hexadecimal and the
  Ethereum address of a key. Reasons are not modelled beyond the policy results.
\<close>

record 'k world =
  wo_crypto :: "'k crypto"
  wo_fromisoformat :: "string \<Rightarrow> (int \<times> int option) option"
  wo_dumps :: "(string \<times> jval) list \<Rightarrow> byte list option"
  wo_sha256 :: "byte list \<Rightarrow> string"
  wo_address :: "'k \<Rightarrow> string option"

record statement =
  st_predecessor_did :: jval
  st_successor_did :: jval
  st_effective_from :: jval
  st_reason :: jval
  st_predecessor_methods :: jval
  st_successor_methods :: jval
  st_predecessor_signatures :: jval
  st_successor_signatures :: jval
  st_archival_signature :: jval
  st_archival_method :: jval
  st_statement_id :: jval
  st_created_at :: jval

subsection \<open>Payload and identifier\<close>

definition signed_fields :: "statement \<Rightarrow> (string \<times> jval) list" where
  "signed_fields s =
     [(''predecessor_did'', st_predecessor_did s), (''successor_did'', st_successor_did s),
      (''effective_from'', st_effective_from s), (''reason'', st_reason s),
      (''predecessor_verification_methods'', st_predecessor_methods s),
      (''successor_verification_methods'', st_successor_methods s)]"

definition signable_payload :: "'k world \<Rightarrow> statement \<Rightarrow> byte list option" where
  "signable_payload w s = wo_dumps w (signed_fields s)"

definition compute_statement_id :: "'k world \<Rightarrow> statement \<Rightarrow> string option" where
  "compute_statement_id w s = map_option (wo_sha256 w) (signable_payload w s)"

subsection \<open>Timestamps\<close>

datatype chain_error = Bad_Timestamp | Self_Succession nat | Link_Broken nat | Method_Link_Broken nat
  | Not_After nat

text \<open>\<open>s.replace("Z", "+00:00")\<close>, applied when the text ends with a \<open>Z\<close>.\<close>

definition with_offset :: "string \<Rightarrow> string" where
  "with_offset s =
     (if s \<noteq> [] \<and> last s = CHR ''Z'' then concat (map (\<lambda>c. if c = CHR ''Z'' then ''+00:00'' else [c]) s) else s)"

definition parse_iso8601_utc :: "'k world \<Rightarrow> jval \<Rightarrow> chain_error + int" where
  "parse_iso8601_utc w v =
     (case v of
        J_Str s \<Rightarrow>
          if s = [] then Inl Bad_Timestamp
          else (case wo_fromisoformat w (with_offset s) of
             None \<Rightarrow> Inl Bad_Timestamp
           | Some (t, None) \<Rightarrow> Inl Bad_Timestamp
           | Some (t, Some offset) \<Rightarrow> if offset \<noteq> 0 then Inl Bad_Timestamp else Inr t)
      | _ \<Rightarrow> Inl Bad_Timestamp)"

definition validate_iso8601_utc :: "'k world \<Rightarrow> jval \<Rightarrow> bool" where
  "validate_iso8601_utc w v =
     (case v of
        J_Str s \<Rightarrow>
          s \<noteq> [] \<and>
          (case wo_fromisoformat w (with_offset s) of
             None \<Rightarrow> False
           | Some (t, None) \<Rightarrow> False
           | Some (t, Some offset) \<Rightarrow> offset = 0)
      | _ \<Rightarrow> False)"

subsection \<open>Binding of methods to a DID\<close>

definition starts_with :: "string \<Rightarrow> string \<Rightarrow> bool" where
  "starts_with p s \<longleftrightarrow> take (length p) s = p"

fun truthy :: "jval \<Rightarrow> bool" where
  "truthy J_Null = False"
| "truthy (J_Bool b) = b"
| "truthy (J_Int n) = (n \<noteq> 0)"
| "truthy (J_Str s) = (s \<noteq> [])"
| "truthy (J_List l) = (l \<noteq> [])"
| "truthy (J_Obj d) = (d \<noteq> [])"

definition verify_did_pkh_binding :: "'k world \<Rightarrow> string \<Rightarrow> jval list \<Rightarrow> bool" where
  "verify_did_pkh_binding w did vms \<longleftrightarrow>
     (let expected = lower (drop (length ''did:pkh:eip155:1:'') did) in
      starts_with ''0x'' expected \<and> length expected = 42 \<and> vms \<noteq> [] \<and>
      list_all (\<lambda>vm. is_obj vm \<and>
        (case decode_verification_method_key (wo_crypto w) vm of
           None \<Rightarrow> False
         | Some (suite, key) \<Rightarrow>
             alg_id suite = ''ecdsa-secp256k1-sha256'' \<and>
             (case wo_address w key of None \<Rightarrow> False | Some a \<Rightarrow> lower a = expected))) vms)"

definition verify_did_key_binding :: "string \<Rightarrow> jval list \<Rightarrow> bool" where
  "verify_did_key_binding did vms \<longleftrightarrow>
     (let expected = drop (length ''did:key:'') did in
      vms \<noteq> [] \<and> list_all (\<lambda>vm. is_obj vm \<and> j_get vm ''publicKeyMultibase'' = J_Str expected) vms)"

type_synonym resolver = "string \<Rightarrow> jval option"

fun published_by_id :: "jval list \<Rightarrow> (string, jval) dict \<Rightarrow> (string, jval) dict" where
  "published_by_id [] d = d"
| "published_by_id (m # ms) d =
     published_by_id ms
       (case j_get m ''id'' of J_Str i \<Rightarrow> if is_obj m then dict_put i m d else d | _ \<Rightarrow> d)"

definition verify_did_web_binding :: "resolver option \<Rightarrow> string \<Rightarrow> jval list \<Rightarrow> bool" where
  "verify_did_web_binding resolve did vms \<longleftrightarrow>
     (case resolve of
        None \<Rightarrow> False
      | Some r \<Rightarrow>
          (case r did of
             None \<Rightarrow> False
           | Some resolved \<Rightarrow>
               is_obj resolved \<and>
               (let published = (if truthy (j_get resolved ''verificationMethod'')
                                 then j_get resolved ''verificationMethod'' else J_List [])
                in case published of
                  J_List l \<Rightarrow>
                    list_all (\<lambda>vm. is_obj vm \<and>
                      (case j_get vm ''id'' of
                         J_Str i \<Rightarrow>
                           (case dict_get (published_by_id l []) i of
                              None \<Rightarrow> False
                            | Some m \<Rightarrow> j_get vm ''publicKeyMultibase'' = j_get m ''publicKeyMultibase'')
                       | _ \<Rightarrow> False)) vms
                | _ \<Rightarrow> False)))"

definition verify_did_binding :: "'k world \<Rightarrow> resolver option \<Rightarrow> jval \<Rightarrow> jval \<Rightarrow> bool" where
  "verify_did_binding w resolve did verification_methods \<longleftrightarrow>
     (case did of
        J_Str d \<Rightarrow>
          d \<noteq> [] \<and> mi_fatal (index_verification_methods verification_methods) = [] \<and>
          (case verification_methods of
             J_List vms \<Rightarrow>
               if starts_with ''did:pkh:eip155:1:'' d then verify_did_pkh_binding w d vms
               else if starts_with ''did:key:'' d then verify_did_key_binding d vms
               else if starts_with ''did:web:'' d then verify_did_web_binding resolve d vms
               else False
           | _ \<Rightarrow> False)
      | _ \<Rightarrow> False)"

definition adaptive_predecessor_policy :: "'k world \<Rightarrow> resolver option \<Rightarrow> jval \<Rightarrow> jval \<Rightarrow> verify_policy" where
  "adaptive_predecessor_policy w resolve predecessor_did embedded_vms =
     (let authoritative =
        (case (predecessor_did, resolve) of
           (J_Str d, Some r) \<Rightarrow>
             if starts_with ''did:web:'' d
             then (case r d of
                Some resolved \<Rightarrow>
                  (case j_get resolved ''verificationMethod'' of J_List l \<Rightarrow> J_List l | _ \<Rightarrow> embedded_vms)
              | None \<Rightarrow> embedded_vms)
             else embedded_vms
         | _ \<Rightarrow> embedded_vms)
      in case authoritative of
           J_List vms \<Rightarrow>
             if list_ex (\<lambda>vm. is_obj vm \<and>
                  (case decode_verification_method_key (wo_crypto w) vm of
                     None \<Rightarrow> False | Some (suite, key) \<Rightarrow> is_post_quantum suite)) vms
             then HYBRID_REQUIRED else LEGACY_ALLOWED
         | _ \<Rightarrow> HYBRID_REQUIRED)"

subsection \<open>One statement\<close>

record succession_result =
  sr_ok :: bool
  sr_predecessor :: policy_result
  sr_successor :: policy_result
  sr_archival :: "policy_result option"
  sr_id_consistent :: bool
  sr_predecessor_bound :: bool
  sr_successor_bound :: bool

definition unevaluated_result :: succession_result where
  "unevaluated_result =
     \<lparr>sr_ok = False, sr_predecessor = result False Not_Evaluated [], sr_successor = result False Not_Evaluated [],
      sr_archival = None, sr_id_consistent = False, sr_predecessor_bound = False, sr_successor_bound = False\<rparr>"

definition archival_result ::
  "'k world \<Rightarrow> byte list \<Rightarrow> statement \<Rightarrow> bool \<Rightarrow> string option \<Rightarrow> policy_result option" where
  "archival_result w payload s require_archival trusted =
     (if \<not> require_archival \<and> \<not> truthy (st_archival_signature s) then None
      else if \<not> truthy (st_archival_signature s) then Some (result False Archival_Absent [])
      else if \<not> truthy (st_archival_method s) then Some (result False Archival_Method_Missing [])
      else
        (let r = evaluate (verify_signature_entries (wo_crypto w) payload
                (J_List [st_archival_signature s]) (J_List [st_archival_method s])) PQ_REQUIRED True;
             r = (if pr_ok r \<and> alg_id SLH_DSA_SHA2_128S \<notin> pr_algs r
                  then r\<lparr>pr_ok := False, pr_reason := Archival_Wrong_Suite\<rparr> else r)
         in if \<not> pr_ok r then Some r
            else case trusted of
              Some pin \<Rightarrow>
                if j_get (st_archival_method s) ''publicKeyMultibase'' \<noteq> J_Str pin
                then Some (r\<lparr>pr_ok := False, pr_reason := Archival_Not_Pinned\<rparr>) else Some r
            | None \<Rightarrow>
                if require_archival then Some (r\<lparr>pr_ok := False, pr_reason := Archival_No_Pin\<rparr>) else Some r))"

definition verify_succession ::
  "'k world \<Rightarrow> verify_policy option \<Rightarrow> verify_policy \<Rightarrow> bool \<Rightarrow> string option \<Rightarrow> resolver option
     \<Rightarrow> statement \<Rightarrow> succession_result" where
  "verify_succession w predecessor_policy successor_policy require_archival trusted resolve s =
     (let policy = (case predecessor_policy of
                      Some p \<Rightarrow> p
                    | None \<Rightarrow> adaptive_predecessor_policy w resolve (st_predecessor_did s) (st_predecessor_methods s))
      in if \<not> validate_iso8601_utc w (st_effective_from s) then unevaluated_result
         else case signable_payload w s of
           None \<Rightarrow> unevaluated_result
         | Some payload \<Rightarrow>
             (let pred_bound = verify_did_binding w resolve (st_predecessor_did s) (st_predecessor_methods s);
                  succ_bound = verify_did_binding w resolve (st_successor_did s) (st_successor_methods s);
                  pred = evaluate (verify_signature_entries (wo_crypto w) payload
                           (st_predecessor_signatures s) (st_predecessor_methods s)) policy True;
                  succ = evaluate (verify_signature_entries (wo_crypto w) payload
                           (st_successor_signatures s) (st_successor_methods s)) successor_policy True;
                  archival = archival_result w payload s require_archival trusted;
                  id_ok = (truthy (st_statement_id s) \<and>
                           Some (st_statement_id s) = map_option J_Str (compute_statement_id w s))
              in \<lparr>sr_ok = (pred_bound \<and> succ_bound \<and> pr_ok pred \<and> pr_ok succ \<and> id_ok \<and>
                            (case archival of None \<Rightarrow> True | Some a \<Rightarrow> pr_ok a)),
                   sr_predecessor = pred, sr_successor = succ, sr_archival = archival,
                   sr_id_consistent = id_ok, sr_predecessor_bound = pred_bound, sr_successor_bound = succ_bound\<rparr>))"

subsection \<open>Chains\<close>

type_synonym chain = "statement list"

type_synonym linkage_key = "bool \<times> string \<times> bool \<times> string"

text \<open>\<open>None\<close> for malformed material; a field that is present must be a text.\<close>

definition linkage_field :: "jval \<Rightarrow> (bool \<times> string) option" where
  "linkage_field v = (case v of J_Null \<Rightarrow> Some (True, []) | J_Str t \<Rightarrow> Some (False, t) | _ \<Rightarrow> None)"

definition linkage_key :: "jval \<Rightarrow> linkage_key option" where
  "linkage_key vm =
     (if \<not> is_obj vm then None
      else case (linkage_field (j_get vm ''id''), linkage_field (j_get vm ''publicKeyMultibase'')) of
        (Some (a, i), Some (b, m)) \<Rightarrow> Some (a, i, b, m)
      | _ \<Rightarrow> None)"

fun collect :: "('a \<Rightarrow> 'b option) \<Rightarrow> 'a list \<Rightarrow> 'b list option" where
  "collect f [] = Some []"
| "collect f (x # xs) =
     (case f x of None \<Rightarrow> None | Some y \<Rightarrow> map_option (\<lambda>ys. y # ys) (collect f xs))"

definition vm_linkage_keys :: "jval \<Rightarrow> linkage_key list option" where
  "vm_linkage_keys vms = (case vms of J_List l \<Rightarrow> map_option sort (collect linkage_key l) | _ \<Rightarrow> None)"

definition check_link :: "'k world \<Rightarrow> nat \<Rightarrow> statement option \<Rightarrow> statement \<Rightarrow> chain_error + unit" where
  "check_link w i prev s =
     (if st_predecessor_did s = st_successor_did s then Inl (Self_Succession i)
      else case parse_iso8601_utc w (st_effective_from s) of
        Inl e \<Rightarrow> Inl e
      | Inr cur_t \<Rightarrow>
          (case prev of
             None \<Rightarrow> Inr ()
           | Some p \<Rightarrow>
               if st_predecessor_did s \<noteq> st_successor_did p then Inl (Link_Broken i)
               else if vm_linkage_keys (st_successor_methods p) = None \<or>
                 vm_linkage_keys (st_successor_methods p) \<noteq> vm_linkage_keys (st_predecessor_methods s)
               then Inl (Method_Link_Broken i)
               else (case parse_iso8601_utc w (st_effective_from p) of
                  Inl e \<Rightarrow> Inl e
                | Inr prev_t \<Rightarrow> if cur_t \<le> prev_t then Inl (Not_After i) else Inr ())))"

fun check_links :: "'k world \<Rightarrow> nat \<Rightarrow> statement option \<Rightarrow> statement list \<Rightarrow> chain_error + unit" where
  "check_links w i prev [] = Inr ()"
| "check_links w i prev (s # ss) =
     (case check_link w i prev s of Inl e \<Rightarrow> Inl e | Inr _ \<Rightarrow> check_links w (Suc i) (Some s) ss)"

definition build_chain :: "'k world \<Rightarrow> statement list \<Rightarrow> chain_error + chain" where
  "build_chain w statements =
     (case check_links w 0 None statements of Inl e \<Rightarrow> Inl e | Inr _ \<Rightarrow> Inr statements)"

record active_identity =
  ai_did :: jval
  ai_methods :: jval
  ai_is_root :: bool
  ai_index :: "nat option"
  ai_post_cutoff :: bool

definition root_identity :: "jval \<Rightarrow> jval \<Rightarrow> active_identity" where
  "root_identity did vms =
     \<lparr>ai_did = did, ai_methods = vms, ai_is_root = True, ai_index = None, ai_post_cutoff = False\<rparr>"

fun find_active :: "'k world \<Rightarrow> int \<Rightarrow> nat \<Rightarrow> statement list \<Rightarrow> nat option \<Rightarrow> chain_error + nat option" where
  "find_active w t i [] active = Inr active"
| "find_active w t i (s # ss) active =
     (case parse_iso8601_utc w (st_effective_from s) of
        Inl e \<Rightarrow> Inl e
      | Inr eff \<Rightarrow> if eff \<le> t then find_active w t (Suc i) ss (Some i) else Inr active)"

text \<open>The copies \<open>_copy_vms\<close> takes are the lists themselves here.\<close>

definition resolve_active_identity ::
  "'k world \<Rightarrow> jval \<Rightarrow> jval \<Rightarrow> chain \<Rightarrow> jval \<Rightarrow> chain_error + active_identity" where
  "resolve_active_identity w root_did root_vms chain artifact_timestamp =
     (case parse_iso8601_utc w artifact_timestamp of
        Inl e \<Rightarrow> Inl e
      | Inr t \<Rightarrow>
          if chain = [] then Inr (root_identity root_did root_vms)
          else (case find_active w t 0 chain None of
             Inl e \<Rightarrow> Inl e
           | Inr None \<Rightarrow> Inr (root_identity root_did root_vms)
           | Inr (Some i) \<Rightarrow>
               Inr \<lparr>ai_did = st_successor_did (chain ! i), ai_methods = st_successor_methods (chain ! i),
                    ai_is_root = False, ai_index = Some i, ai_post_cutoff = True\<rparr>))"

fun linkage_dids :: "statement list \<Rightarrow> (string, jval) dict \<Rightarrow> (string, jval) dict" where
  "linkage_dids [] d = d"
| "linkage_dids (s # ss) d =
     linkage_dids ss (case st_successor_did s of J_Str did \<Rightarrow> dict_put did (st_successor_methods s) d | _ \<Rightarrow> d)"

text \<open>\<open>list(x)\<close> of a method set: \<open>None\<close> where it raises.\<close>

fun py_list :: "jval \<Rightarrow> jval list option" where
  "py_list (J_List l) = Some l"
| "py_list (J_Str s) = Some (map (\<lambda>c. J_Str [c]) s)"
| "py_list (J_Obj d) = Some (map (J_Str \<circ> fst) d)"
| "py_list _ = None"

definition chain_resolver :: "chain \<Rightarrow> resolver option \<Rightarrow> resolver" where
  "chain_resolver chain user did =
     (case dict_get (linkage_dids (butlast chain) []) did of
        Some vms \<Rightarrow>
          map_option (\<lambda>l. J_Obj [(''id'', J_Str did), (''verificationMethod'', J_List l)]) (py_list vms)
      | None \<Rightarrow> (case user of Some r \<Rightarrow> r did | None \<Rightarrow> None))"

definition verify_chain_signatures ::
  "'k world \<Rightarrow> verify_policy option \<Rightarrow> verify_policy \<Rightarrow> bool \<Rightarrow> string option \<Rightarrow> resolver option
     \<Rightarrow> chain \<Rightarrow> bool \<times> succession_result list" where
  "verify_chain_signatures w predecessor_policy successor_policy require_archival trusted user chain =
     (let rs = map (verify_succession w predecessor_policy successor_policy require_archival trusted
                      (Some (chain_resolver chain user))) chain
      in (list_all sr_ok rs, rs))"

subsection \<open>Artifacts\<close>

record artifact_result =
  ar_ok :: bool
  ar_active :: active_identity
  ar_chain_ok :: bool
  ar_statements :: "succession_result list"
  ar_policy :: policy_result

definition unanchored_result :: "jval \<Rightarrow> artifact_result" where
  "unanchored_result root_did =
     \<lparr>ar_ok = False, ar_active = root_identity root_did (J_List []), ar_chain_ok = False, ar_statements = [],
      ar_policy = result False Not_Evaluated []\<rparr>"

definition anchored :: "jval \<Rightarrow> jval \<Rightarrow> chain \<Rightarrow> bool" where
  "anchored root_did root_vms chain \<longleftrightarrow>
     (case chain of
        [] \<Rightarrow> True
      | first # _ \<Rightarrow>
          st_predecessor_did first = root_did \<and> vm_linkage_keys root_vms \<noteq> None \<and>
          vm_linkage_keys root_vms = vm_linkage_keys (st_predecessor_methods first))"

definition verify_artifact_against_chain ::
  "'k world \<Rightarrow> jval \<Rightarrow> jval \<Rightarrow> chain \<Rightarrow> jval \<Rightarrow> byte list \<Rightarrow> jval \<Rightarrow> verify_policy \<Rightarrow> bool \<Rightarrow> bool
     \<Rightarrow> string option \<Rightarrow> resolver option \<Rightarrow> chain_error + artifact_result" where
  "verify_artifact_against_chain w root_did root_vms chain artifact_timestamp payload signatures policy
       verify_chain require_archival trusted user =
     (if \<not> anchored root_did root_vms chain then Inr (unanchored_result root_did)
      else
        (let chain_sigs = (if verify_chain
               then verify_chain_signatures w None HYBRID_REQUIRED require_archival trusted user chain
               else (True, []))
         in case resolve_active_identity w root_did root_vms chain artifact_timestamp of
              Inl e \<Rightarrow> Inl e
            | Inr active \<Rightarrow>
                (let r = evaluate (verify_signature_entries (wo_crypto w) payload signatures (ai_methods active))
                           policy (\<not> ai_post_cutoff active)
                 in Inr \<lparr>ar_ok = (fst chain_sigs \<and> pr_ok r), ar_active = active, ar_chain_ok = fst chain_sigs,
                         ar_statements = snd chain_sigs, ar_policy = r\<rparr>)))"

subsection \<open>Which chains are built\<close>

definition effective_at :: "'k world \<Rightarrow> statement \<Rightarrow> int" where
  "effective_at w s = projr (parse_iso8601_utc w (st_effective_from s))"

definition link_holds :: "'k world \<Rightarrow> statement option \<Rightarrow> statement \<Rightarrow> bool" where
  "link_holds w prev s \<longleftrightarrow>
     st_predecessor_did s \<noteq> st_successor_did s \<and> \<not> isl (parse_iso8601_utc w (st_effective_from s)) \<and>
     (case prev of
        None \<Rightarrow> True
      | Some p \<Rightarrow>
          st_predecessor_did s = st_successor_did p \<and>
          vm_linkage_keys (st_successor_methods p) = vm_linkage_keys (st_predecessor_methods s) \<and>
          vm_linkage_keys (st_successor_methods p) \<noteq> None \<and>
          \<not> isl (parse_iso8601_utc w (st_effective_from p)) \<and> effective_at w p < effective_at w s)"

lemma check_link_holds: "check_link w i prev s = Inr () \<longleftrightarrow> link_holds w prev s"
  by (cases prev; cases "parse_iso8601_utc w (st_effective_from s)"; cases "vm_linkage_keys (st_predecessor_methods s)")
    (auto simp: check_link_def link_holds_def effective_at_def split: sum.splits)

lemma check_links_hold:
  "check_links w i prev ss = Inr () \<longleftrightarrow>
     (\<forall>j < length ss. link_holds w (if j = 0 then prev else Some (ss ! (j - 1))) (ss ! j))"
proof (induction ss arbitrary: i prev)
  case (Cons s ss)
  have "check_links w i prev (s # ss) = Inr () \<longleftrightarrow> link_holds w prev s \<and> check_links w (Suc i) (Some s) ss = Inr ()"
    using check_link_holds [of w i prev s] by (auto split: sum.splits)
  also have "\<dots> \<longleftrightarrow> (\<forall>j < length (s # ss). link_holds w (if j = 0 then prev else Some ((s # ss) ! (j - 1))) ((s # ss) ! j))"
    unfolding Cons.IH
    by (auto simp: nth_Cons' less_Suc_eq_0_disj)
  finally show ?case .
qed simp

lemma built_links:
  assumes "build_chain w ss = Inr chain"
  shows "chain = ss" and "\<And>j. j < length ss \<Longrightarrow> link_holds w (if j = 0 then None else Some (ss ! (j - 1))) (ss ! j)"
proof -
  from assms have c: "check_links w 0 None ss = Inr ()" and "chain = ss"
    by (auto simp: build_chain_def split: sum.splits)
  then show "chain = ss" by simp
  from c show "\<And>j. j < length ss \<Longrightarrow> link_holds w (if j = 0 then None else Some (ss ! (j - 1))) (ss ! j)"
    by (simp add: check_links_hold)
qed

text \<open>
  A list of statements is accepted as a chain exactly when no statement succeeds itself, every
  cutoff is a UTC timestamp, and each statement takes over from the one before: same DID, the same
  well-formed set of keys (id and multibase), and a strictly later cutoff. The chain is the list
  itself.
\<close>

theorem build_chain_exact:
  "(build_chain w ss = Inr chain) =
   (chain = ss \<and>
    (\<forall>i < length ss. st_predecessor_did (ss ! i) \<noteq> st_successor_did (ss ! i) \<and>
       \<not> isl (parse_iso8601_utc w (st_effective_from (ss ! i)))) \<and>
    (\<forall>i. Suc i < length ss \<longrightarrow>
       st_predecessor_did (ss ! Suc i) = st_successor_did (ss ! i) \<and>
       vm_linkage_keys (st_successor_methods (ss ! i)) = vm_linkage_keys (st_predecessor_methods (ss ! Suc i)) \<and>
       vm_linkage_keys (st_successor_methods (ss ! i)) \<noteq> None \<and>
       effective_at w (ss ! i) < effective_at w (ss ! Suc i)))"
proof -
  have "(build_chain w ss = Inr chain) = (chain = ss \<and> check_links w 0 None ss = Inr ())"
    by (auto simp: build_chain_def split: sum.splits)
  also have "check_links w 0 None ss = Inr () \<longleftrightarrow>
      (\<forall>j < length ss. link_holds w (if j = 0 then None else Some (ss ! (j - 1))) (ss ! j))"
    by (simp add: check_links_hold)
  also have "\<dots> \<longleftrightarrow>
    (\<forall>i < length ss. st_predecessor_did (ss ! i) \<noteq> st_successor_did (ss ! i) \<and>
       \<not> isl (parse_iso8601_utc w (st_effective_from (ss ! i)))) \<and>
    (\<forall>i. Suc i < length ss \<longrightarrow> link_holds w (Some (ss ! i)) (ss ! Suc i))"
    by (auto simp: link_holds_def split: if_splits) (metis One_nat_def Suc_pred diff_Suc_1 not_gr_zero)+
  also have "\<dots> \<longleftrightarrow>
    (\<forall>i < length ss. st_predecessor_did (ss ! i) \<noteq> st_successor_did (ss ! i) \<and>
       \<not> isl (parse_iso8601_utc w (st_effective_from (ss ! i)))) \<and>
    (\<forall>i. Suc i < length ss \<longrightarrow>
       st_predecessor_did (ss ! Suc i) = st_successor_did (ss ! i) \<and>
       vm_linkage_keys (st_successor_methods (ss ! i)) = vm_linkage_keys (st_predecessor_methods (ss ! Suc i)) \<and>
       vm_linkage_keys (st_successor_methods (ss ! i)) \<noteq> None \<and>
       effective_at w (ss ! i) < effective_at w (ss ! Suc i))"
    unfolding link_holds_def using Suc_lessD by auto
  finally show ?thesis .
qed

lemma built_timed:
  "build_chain w ss = Inr chain \<Longrightarrow> i < length chain \<Longrightarrow>
     parse_iso8601_utc w (st_effective_from (chain ! i)) = Inr (effective_at w (chain ! i))"
  using built_links [of w ss chain]
  by (cases "parse_iso8601_utc w (st_effective_from (chain ! i))") (force simp: link_holds_def effective_at_def)+

lemma built_increasing:
  assumes "build_chain w ss = Inr chain" and "i < j" and "j < length chain"
  shows "effective_at w (chain ! i) < effective_at w (chain ! j)"
  using assms(2,3)
proof (induction j)
  case (Suc j)
  have "effective_at w (chain ! j) < effective_at w (chain ! Suc j)"
    using built_links [OF assms(1)] Suc.prems(2) by (fastforce simp: link_holds_def)
  with Suc show ?case by (cases "i = j") auto
qed simp

subsection \<open>The identity in force\<close>

lemma find_active_exact:
  assumes "\<forall>j < length ss. parse_iso8601_utc w (st_effective_from (ss ! j)) = Inr (effective_at w (ss ! j))"
    and "\<forall>j k. j < k \<and> k < length ss \<longrightarrow> effective_at w (ss ! j) < effective_at w (ss ! k)"
  shows "\<exists>n \<le> length ss. find_active w t i ss active = Inr (if n = 0 then active else Some (i + n - 1)) \<and>
    (\<forall>j < n. effective_at w (ss ! j) \<le> t) \<and> (\<forall>j < length ss. n \<le> j \<longrightarrow> t < effective_at w (ss ! j))"
  using assms
proof (induction ss arbitrary: i active)
  case (Cons s ss)
  have tail: "\<forall>j < length ss. parse_iso8601_utc w (st_effective_from (ss ! j)) = Inr (effective_at w (ss ! j))"
    "\<forall>j k. j < k \<and> k < length ss \<longrightarrow> effective_at w (ss ! j) < effective_at w (ss ! k)"
    using Cons.prems by (metis Suc_less_eq length_Cons nth_Cons_Suc)+
  have s: "parse_iso8601_utc w (st_effective_from s) = Inr (effective_at w s)" using Cons.prems(1) by force
  show ?case
  proof (cases "effective_at w s \<le> t")
    case True
    from Cons.IH [OF tail] obtain n where n: "n \<le> length ss"
      "find_active w t (Suc i) ss (Some i) = Inr (if n = 0 then Some i else Some (Suc i + n - 1))"
      "\<forall>j < n. effective_at w (ss ! j) \<le> t" "\<forall>j < length ss. n \<le> j \<longrightarrow> t < effective_at w (ss ! j)" by blast
    then show ?thesis using s True
      by (intro exI [of _ "Suc n"]) (auto simp: less_Suc_eq_0_disj nth_Cons' split: if_splits)
  next
    case False
    have "t < effective_at w ((s # ss) ! j)" if "j < length (s # ss)" for j
    proof (cases j)
      case (Suc k)
      then have "effective_at w ((s # ss) ! 0) < effective_at w ((s # ss) ! j)" using Cons.prems(2) that by blast
      with False show ?thesis by simp
    qed (use False in simp)
    then show ?thesis using s False by (intro exI [of _ 0]) auto
  qed
qed simp

lemma active_exact:
  assumes "build_chain w ss = Inr chain" and "parse_iso8601_utc w ts = Inr t"
  shows "\<exists>a. resolve_active_identity w root_did root_vms chain ts = Inr a \<and>
    (case ai_index a of
       None \<Rightarrow> a = root_identity root_did root_vms \<and> (\<forall>j < length chain. t < effective_at w (chain ! j))
     | Some i \<Rightarrow> i < length chain \<and> effective_at w (chain ! i) \<le> t \<and>
         (\<forall>j < length chain. i < j \<longrightarrow> t < effective_at w (chain ! j)) \<and>
         ai_did a = st_successor_did (chain ! i) \<and> ai_methods a = st_successor_methods (chain ! i) \<and>
         \<not> ai_is_root a \<and> ai_post_cutoff a)"
proof -
  obtain n where n: "n \<le> length chain" "find_active w t 0 chain None = Inr (if n = 0 then None else Some (n - 1))"
    "\<forall>j < n. effective_at w (chain ! j) \<le> t" "\<forall>j < length chain. n \<le> j \<longrightarrow> t < effective_at w (chain ! j)"
    using find_active_exact [of chain w t 0 None] built_timed [OF assms(1)] built_increasing [OF assms(1)] by auto
  show ?thesis
  proof (cases "n = 0")
    case True
    with n assms(2) show ?thesis by (simp add: resolve_active_identity_def root_identity_def)
  next
    case False
    with n assms(2) have "resolve_active_identity w root_did root_vms chain ts =
      Inr \<lparr>ai_did = st_successor_did (chain ! (n - 1)), ai_methods = st_successor_methods (chain ! (n - 1)),
           ai_is_root = False, ai_index = Some (n - 1), ai_post_cutoff = True\<rparr>"
      by (auto simp: resolve_active_identity_def)
    with False n show ?thesis by auto
  qed
qed

subsection \<open>Published keys\<close>

definition published :: "'k crypto \<Rightarrow> jval \<Rightarrow> (suite \<times> 'k) set" where
  "published cr vms =
     {sk. \<exists>l vm. vms = J_List l \<and> vm \<in> set l \<and> decode_verification_method_key cr vm = Some sk}"

lemma decode_multibase:
  "decode_verification_method_key cr vm = Some sk \<Longrightarrow> \<exists>mb. j_get vm ''publicKeyMultibase'' = J_Str mb"
  by (auto simp: decode_verification_method_key_def split: jval.splits)

lemma decode_obj: "decode_verification_method_key cr vm = Some sk \<Longrightarrow> is_obj vm"
  by (cases vm) (auto simp: decode_verification_method_key_def)

lemma decode_same:
  "j_get vm ''publicKeyMultibase'' = j_get vm' ''publicKeyMultibase'' \<Longrightarrow>
   decode_verification_method_key cr vm = decode_verification_method_key cr vm'"
  by (simp add: decode_verification_method_key_def)

lemma linkage_field_inject: "linkage_field v = Some r \<Longrightarrow> linkage_field v' = Some r \<Longrightarrow> v = v'"
  by (auto simp: linkage_field_def split: jval.splits)

lemma linkage_key_multibase:
  assumes "linkage_key vm = Some k" and "linkage_key vm' = Some k"
  shows "j_get vm ''publicKeyMultibase'' = j_get vm' ''publicKeyMultibase''"
proof -
  obtain a i b m where k: "k = (a, i, b, m)" by (cases k)
  have "linkage_field (j_get v ''publicKeyMultibase'') = Some (b, m)" if "linkage_key v = Some k" for v
    using that by (auto simp: linkage_key_def k split: option.splits if_splits)
  with assms show ?thesis by (blast intro: linkage_field_inject)
qed

lemma collect_Some: "collect f xs = Some ys \<Longrightarrow> (\<forall>x \<in> set xs. \<exists>y. f x = Some y) \<and> set ys = {y. \<exists>x \<in> set xs. f x = Some y}"
  by (induction xs arbitrary: ys) (auto split: option.splits)

lemma linked_published_subset:
  assumes "vm_linkage_keys a = vm_linkage_keys b" and "vm_linkage_keys a \<noteq> None"
  shows "published cr a \<subseteq> published cr b"
proof
  fix sk assume "sk \<in> published cr a"
  then obtain la vm where a: "a = J_List la" and vm: "vm \<in> set la"
    and d: "decode_verification_method_key cr vm = Some sk" by (auto simp: published_def)
  from assms obtain ks where "vm_linkage_keys a = Some ks" "vm_linkage_keys b = Some ks" by auto
  then obtain lb ka kb where b: "b = J_List lb" and c: "collect linkage_key la = Some ka" "collect linkage_key lb = Some kb"
    and "sort ka = sort kb" by (auto simp: vm_linkage_keys_def a split: jval.splits)
  then have "set ka = set kb" by (metis set_sort)
  moreover obtain k where k: "linkage_key vm = Some k" using collect_Some [OF c(1)] vm by blast
  ultimately have "k \<in> set kb" using collect_Some [OF c(1)] vm by blast
  then obtain vm' where "vm' \<in> set lb" and "linkage_key vm' = Some k" using collect_Some [OF c(2)] by blast
  moreover from this(2) k d have "decode_verification_method_key cr vm' = Some sk"
    using linkage_key_multibase [of vm k vm'] decode_same [of vm vm' cr] by simp
  ultimately show "sk \<in> published cr b" by (auto simp: published_def b)
qed

lemma linked_published:
  "vm_linkage_keys a = vm_linkage_keys b \<Longrightarrow> vm_linkage_keys a \<noteq> None \<Longrightarrow> published cr a = published cr b"
  using linked_published_subset [of a b cr] linked_published_subset [of b a cr] by auto

text \<open>A key of \<open>vms\<close> signed \<open>data\<close>, by an entry of \<open>signatures\<close>.\<close>

definition signed_with :: "'k crypto \<Rightarrow> byte list \<Rightarrow> jval \<Rightarrow> suite \<Rightarrow> 'k \<Rightarrow> bool" where
  "signed_with cr data signatures suite key \<longleftrightarrow>
     (\<exists>entries entry sig_hex sig_bytes. signatures = J_List entries \<and> entry \<in> set entries \<and>
        j_get entry ''alg'' = J_Str (alg_id suite) \<and> j_get entry ''sig'' = J_Str sig_hex \<and>
        fromhex sig_hex = Some sig_bytes \<and> cr_verify cr suite data sig_bytes key)"

lemma signers_published:
  assumes "suite \<in> signers cr data signatures vms"
  shows "\<exists>key. (suite, key) \<in> published cr vms \<and> signed_with cr data signatures suite key"
proof -
  from assms obtain entries l e key where *: "signatures = J_List entries" "vms = J_List l" "e \<in> set entries"
    and s: "signed_by cr data l e suite key" by (auto simp: signers_def)
  from s obtain kid sg sb vm mb where "methods_for kid l = [vm]" "j_get vm ''publicKeyMultibase'' = J_Str mb"
    "multibase_to_public_key (cr_deserialize cr) mb = Inr (suite, key)" "j_get e ''alg'' = J_Str (alg_id suite)"
    "j_get e ''sig'' = J_Str sg" "fromhex sg = Some sb" "cr_verify cr suite data sb key"
    by (auto simp: signed_by_def)
  moreover from this(1) have "vm \<in> set (methods_for kid l)" by simp
  then have "vm \<in> set l" by (simp add: methods_for_def)
  ultimately have "(suite, key) \<in> published cr vms" "signed_with cr data signatures suite key"
    using * by (auto simp: published_def signed_with_def decode_key_Some)
  then show ?thesis by blast
qed

lemma accepted_published:
  assumes "pr_ok (evaluate (verify_signature_entries cr data signatures vms) policy allowed)"
  shows "\<exists>suite key. (suite, key) \<in> published cr vms \<and> signed_with cr data signatures suite key"
    and "\<not> allowed \<or> policy \<noteq> LEGACY_ALLOWED \<Longrightarrow> \<exists>suite key. is_post_quantum suite \<and>
      (suite, key) \<in> published cr vms \<and> signed_with cr data signatures suite key"
proof -
  note ok = assms [unfolded accepted_iff_signed]
  then obtain s where "s \<in> signers cr data signatures vms" by blast
  then show "\<exists>suite key. (suite, key) \<in> published cr vms \<and> signed_with cr data signatures suite key"
    using signers_published by blast
  assume "\<not> allowed \<or> policy \<noteq> LEGACY_ALLOWED"
  with ok obtain q where "is_post_quantum q" "q \<in> signers cr data signatures vms" by blast
  then show "\<exists>suite key. is_post_quantum suite \<and> (suite, key) \<in> published cr vms \<and> signed_with cr data signatures suite key"
    using signers_published by blast
qed

subsection \<open>Artifacts after a rotation\<close>

lemma artifact_accepted:
  assumes "verify_artifact_against_chain w root_did root_vms chain ts payload signatures policy vc ra tr user = Inr r"
    and "ar_ok r"
  shows "\<exists>a. resolve_active_identity w root_did root_vms chain ts = Inr a \<and> anchored root_did root_vms chain \<and>
    pr_ok (evaluate (verify_signature_entries (wo_crypto w) payload signatures (ai_methods a)) policy (\<not> ai_post_cutoff a)) \<and>
    (vc \<longrightarrow> fst (verify_chain_signatures w None HYBRID_REQUIRED ra tr user chain))"
  using assms
  by (auto simp: verify_artifact_against_chain_def unanchored_result_def Let_def split: if_splits sum.splits)

text \<open>
  C15: Once a rotation has taken effect at an artifact's time, no policy accepts the artifact without a
  post-quantum signature over its payload by a key that the statement then in force published for its
  successor: neither an older key nor a classical key alone will do, and the chain starts at the
  caller's root.
\<close>

theorem after_rotation_needs_new_key:
  assumes "build_chain w ss = Inr chain" and "parse_iso8601_utc w ts = Inr t"
    and "verify_artifact_against_chain w root_did root_vms chain ts payload signatures policy vc ra tr user = Inr r"
    and "ar_ok r" and "i < length chain" and "effective_at w (chain ! i) \<le> t"
    and "\<forall>j < length chain. i < j \<longrightarrow> t < effective_at w (chain ! j)"
  shows "st_predecessor_did (chain ! 0) = root_did \<and>
    (\<exists>suite key. is_post_quantum suite \<and>
       (suite, key) \<in> published (wo_crypto w) (st_successor_methods (chain ! i)) \<and>
       signed_with (wo_crypto w) payload signatures suite key)"
proof -
  obtain a where a: "resolve_active_identity w root_did root_vms chain ts = Inr a"
    and anchor: "anchored root_did root_vms chain"
    and ok: "pr_ok (evaluate (verify_signature_entries (wo_crypto w) payload signatures (ai_methods a)) policy (\<not> ai_post_cutoff a))"
    using artifact_accepted [OF assms(3,4)] by blast
  from active_exact [OF assms(1,2), of root_did root_vms] a
  have ex: "case ai_index a of
       None \<Rightarrow> a = root_identity root_did root_vms \<and> (\<forall>j < length chain. t < effective_at w (chain ! j))
     | Some i \<Rightarrow> i < length chain \<and> effective_at w (chain ! i) \<le> t \<and>
         (\<forall>j < length chain. i < j \<longrightarrow> t < effective_at w (chain ! j)) \<and>
         ai_did a = st_successor_did (chain ! i) \<and> ai_methods a = st_successor_methods (chain ! i) \<and>
         \<not> ai_is_root a \<and> ai_post_cutoff a" by auto
  have "ai_index a = Some i"
  proof (cases "ai_index a")
    case None
    with ex assms(5,6) show ?thesis by force
  next
    case (Some k)
    with ex have "k < length chain" "effective_at w (chain ! k) \<le> t"
      "\<forall>j < length chain. k < j \<longrightarrow> t < effective_at w (chain ! j)" by auto
    with assms(5-7) Some show ?thesis by (metis linorder_neqE_nat not_le)
  qed
  with ex have m: "ai_methods a = st_successor_methods (chain ! i)" and p: "ai_post_cutoff a" by auto
  have "st_predecessor_did (chain ! 0) = root_did" using anchor assms(5) by (cases chain) (simp_all add: anchored_def)
  moreover have "\<exists>suite key. is_post_quantum suite \<and> (suite, key) \<in> published (wo_crypto w) (ai_methods a) \<and>
    signed_with (wo_crypto w) payload signatures suite key"
    using accepted_published(2) [OF ok] p by simp
  ultimately show ?thesis by (simp add: m)
qed

text \<open>A chain of one statement, over a library whose signatures are the keys.\<close>

definition demo_world :: "byte list world" where
  "demo_world = \<lparr>wo_crypto = demo_crypto, wo_fromisoformat = (\<lambda>s. Some (int (length s), Some 0)),
     wo_dumps = (\<lambda>fields. Some [0x07]), wo_sha256 = (\<lambda>data. ''id''), wo_address = (\<lambda>key. None)\<rparr>"

definition demo_root_key :: string where
  "demo_root_key = public_key_to_multibase (\<lambda>s raw. raw) Ed25519 [0x01]"

definition demo_root_did :: jval where
  "demo_root_did = J_Str (''did:key:'' @ demo_root_key)"

definition demo_root_methods :: jval where
  "demo_root_methods = J_List [demo_method ''c'' Ed25519 [0x01]]"

definition demo_statement :: statement where
  "demo_statement =
     \<lparr>st_predecessor_did = demo_root_did, st_successor_did = J_Str ''did:web:x'',
      st_effective_from = J_Str ''t'', st_reason = J_Str [],
      st_predecessor_methods = demo_root_methods, st_successor_methods = J_List demo_methods,
      st_predecessor_signatures = J_List [demo_entry ''c'' Ed25519 ''01''],
      st_successor_signatures = J_List demo_signatures,
      st_archival_signature = J_Null, st_archival_method = J_Null,
      st_statement_id = J_Str ''id'', st_created_at = J_Str []\<rparr>"

definition demo_resolver :: resolver where
  "demo_resolver did = Some (J_Obj [(''verificationMethod'', J_List demo_methods)])"

lemma demo_built: "build_chain demo_world [demo_statement] = Inr [demo_statement]"
  by (simp add: build_chain_def check_link_def demo_statement_def demo_root_did_def parse_iso8601_utc_def demo_world_def with_offset_def)

lemma demo_times: "effective_at demo_world demo_statement = 1" "parse_iso8601_utc demo_world (J_Str ''tt'') = Inr 2"
  by (simp_all add: effective_at_def demo_statement_def parse_iso8601_utc_def demo_world_def with_offset_def)

lemma demo_root_sound: "sound_methods [demo_method ''c'' Ed25519 [0x01]]"
  by (auto simp: sound_methods_def methods_for_def demo_kids) (simp_all add: demo_method_def dict_get_def)

lemma demo_root_signed:
  "Ed25519 \<in> signers demo_crypto data (J_List [demo_entry ''c'' Ed25519 ''01'']) demo_root_methods"
proof -
  have "signed_by demo_crypto data [demo_method ''c'' Ed25519 [0x01]] (demo_entry ''c'' Ed25519 ''01'') Ed25519 [0x01]"
    using demo_signed(1) [of data] unfolding signed_by_def demo_methods_def methods_for_def
    by (auto simp: demo_kids demo_entry_def dict_get_def)
  then show ?thesis unfolding signers_def demo_root_methods_def using demo_root_sound by auto
qed

lemma demo_anchored: "anchored demo_root_did demo_root_methods [demo_statement]"
  by (simp add: anchored_def demo_statement_def demo_root_methods_def vm_linkage_keys_def linkage_key_def
    linkage_field_def demo_method_def dict_get_def)

lemma demo_bound:
  "verify_did_binding demo_world (Some (chain_resolver [demo_statement] (Some demo_resolver)))
     demo_root_did demo_root_methods"
  "verify_did_binding demo_world (Some (chain_resolver [demo_statement] (Some demo_resolver)))
     (J_Str ''did:web:x'') (J_List demo_methods)"
proof -
  have "mi_fatal (index_verification_methods demo_root_methods) = []"
    "mi_fatal (index_verification_methods (J_List demo_methods)) = []"
    unfolding index_sound demo_root_methods_def using demo_root_sound demo_sound by auto
  then show "verify_did_binding demo_world (Some (chain_resolver [demo_statement] (Some demo_resolver)))
     demo_root_did demo_root_methods"
    "verify_did_binding demo_world (Some (chain_resolver [demo_statement] (Some demo_resolver)))
     (J_Str ''did:web:x'') (J_List demo_methods)"
    by (simp_all add: verify_did_binding_def demo_root_did_def starts_with_def verify_did_key_binding_def demo_root_methods_def
      demo_root_key_def verify_did_web_binding_def chain_resolver_def demo_resolver_def demo_methods_def
      demo_method_def dict_get_def dict_put_def)
qed

lemma demo_world_crypto [simp]: "wo_crypto demo_world = demo_crypto"
  by (simp add: demo_world_def)

lemma demo_adaptive: "adaptive_predecessor_policy demo_world resolve demo_root_did
    demo_root_methods = LEGACY_ALLOWED"
proof -
  have "decode_verification_method_key demo_crypto (demo_method ''c'' Ed25519 [0x01]) = Some (Ed25519, [0x01])"
    by (simp add: decode_verification_method_key_def demo_method_def dict_get_def demo_key)
  then show ?thesis
    by (simp add: adaptive_predecessor_policy_def demo_root_did_def starts_with_def demo_root_methods_def split: option.splits)
qed

lemma demo_sides:
  "pr_ok (evaluate (verify_signature_entries demo_crypto data (J_List [demo_entry ''c'' Ed25519 ''01''])
     demo_root_methods) LEGACY_ALLOWED True)"
  "pr_ok (evaluate (verify_signature_entries demo_crypto data (J_List demo_signatures) (J_List demo_methods))
     HYBRID_REQUIRED allowed)"
  using demo_root_signed [of data] demo_signers [of data] unfolding accepted_iff_signed by force+

lemma demo_verified:
  "sr_ok (verify_succession demo_world None HYBRID_REQUIRED False None
     (Some (chain_resolver [demo_statement] (Some demo_resolver))) demo_statement)"
proof -
  have f: "st_predecessor_did demo_statement = demo_root_did"
    "st_successor_did demo_statement = J_Str ''did:web:x''" "st_effective_from demo_statement = J_Str ''t''"
    "st_predecessor_methods demo_statement = demo_root_methods"
    "st_successor_methods demo_statement = J_List demo_methods"
    "st_predecessor_signatures demo_statement = J_List [demo_entry ''c'' Ed25519 ''01'']"
    "st_successor_signatures demo_statement = J_List demo_signatures"
    "st_archival_signature demo_statement = J_Null" "st_statement_id demo_statement = J_Str ''id''"
    by (simp_all add: demo_statement_def)
  have "validate_iso8601_utc demo_world (J_Str ''t'')" "signable_payload demo_world s = Some [0x07]"
    "compute_statement_id demo_world s = Some ''id''" for s
    by (simp_all add: validate_iso8601_utc_def demo_world_def with_offset_def signable_payload_def compute_statement_id_def)
  then show ?thesis
    by (simp add: verify_succession_def f demo_bound demo_adaptive demo_sides archival_result_def)
qed

lemma demo_artifact:
  "\<exists>r. verify_artifact_against_chain demo_world demo_root_did demo_root_methods
     [demo_statement] (J_Str ''tt'') [0x09] (J_List demo_signatures) LEGACY_ALLOWED True False None
     (Some demo_resolver) = Inr r \<and> ar_ok r"
proof -
  have chain: "fst (verify_chain_signatures demo_world None HYBRID_REQUIRED False None (Some demo_resolver) [demo_statement])"
    by (simp add: verify_chain_signatures_def demo_verified)
  obtain a where a: "resolve_active_identity demo_world root rvms [demo_statement] (J_Str ''tt'') = Inr a"
    "ai_methods a = J_List demo_methods" "ai_post_cutoff a" for root rvms
    by (simp add: resolve_active_identity_def demo_times demo_built)
      (simp add: demo_statement_def parse_iso8601_utc_def demo_world_def with_offset_def)
  have "pr_ok (evaluate (verify_signature_entries demo_crypto [0x09] (J_List demo_signatures) (J_List demo_methods))
      LEGACY_ALLOWED False)"
    using demo_signers [of "[0x09]"] unfolding accepted_iff_signed by force
  with chain a show ?thesis by (simp add: verify_artifact_against_chain_def demo_anchored Let_def)
qed

theorem after_rotation_needs_new_key_witness:
  "\<exists>suite key. is_post_quantum suite \<and> (suite, key) \<in> published demo_crypto (J_List demo_methods) \<and>
     signed_with demo_crypto [0x09] (J_List demo_signatures) suite key"
proof -
  obtain r where "verify_artifact_against_chain demo_world demo_root_did demo_root_methods
     [demo_statement] (J_Str ''tt'') [0x09] (J_List demo_signatures) LEGACY_ALLOWED True False None
     (Some demo_resolver) = Inr r" and "ar_ok r" using demo_artifact by blast
  from after_rotation_needs_new_key [OF demo_built demo_times(2) this, of 0]
  show ?thesis by (simp add: demo_times(1)) (simp add: demo_statement_def)
qed

subsection \<open>Who authorises a rotation\<close>

lemma verified_statement:
  assumes "sr_ok (verify_succession w pp sp ra tr resolve s)"
  shows "\<exists>p. signable_payload w s = Some p \<and>
    pr_ok (evaluate (verify_signature_entries (wo_crypto w) p (st_predecessor_signatures s) (st_predecessor_methods s))
      (case pp of Some q \<Rightarrow> q | None \<Rightarrow> adaptive_predecessor_policy w resolve (st_predecessor_did s) (st_predecessor_methods s))
      True) \<and>
    pr_ok (evaluate (verify_signature_entries (wo_crypto w) p (st_successor_signatures s) (st_successor_methods s)) sp True)"
  using assms by (auto simp: verify_succession_def unevaluated_result_def Let_def split: if_splits option.splits)

definition has_pq :: "'k world \<Rightarrow> jval \<Rightarrow> bool" where
  "has_pq w vms \<longleftrightarrow> (\<exists>suite key. is_post_quantum suite \<and> (suite, key) \<in> published (wo_crypto w) vms)"

lemma adaptive_hybrid:
  assumes "has_pq w embedded"
    and "\<And>d r resolved l. did = J_Str d \<Longrightarrow> resolve = Some r \<Longrightarrow> r d = Some resolved \<Longrightarrow>
      j_get resolved ''verificationMethod'' = J_List l \<Longrightarrow> has_pq w (J_List l)"
  shows "adaptive_predecessor_policy w resolve did embedded = HYBRID_REQUIRED"
proof -
  let ?hybrid = "\<lambda>vms. case vms of
      J_List vms \<Rightarrow>
        if list_ex (\<lambda>vm. is_obj vm \<and>
             (case decode_verification_method_key (wo_crypto w) vm of
                None \<Rightarrow> False | Some (suite, key) \<Rightarrow> is_post_quantum suite)) vms
        then HYBRID_REQUIRED else LEGACY_ALLOWED
    | _ \<Rightarrow> HYBRID_REQUIRED"
  have hybrid: "?hybrid vms = HYBRID_REQUIRED" if "has_pq w vms" for vms
  proof -
    from that obtain l vm suite key where l: "vms = J_List l" "vm \<in> set l"
      "decode_verification_method_key (wo_crypto w) vm = Some (suite, key)" "is_post_quantum suite"
      by (auto simp: has_pq_def published_def)
    then have "is_obj vm" by (simp add: decode_obj)
    with l show ?thesis by (auto simp: list_ex_iff)
  qed
  have "\<exists>vms. adaptive_predecessor_policy w resolve did embedded = ?hybrid vms \<and> has_pq w vms"
  proof (cases "\<exists>d r resolved l. did = J_Str d \<and> resolve = Some r \<and> starts_with ''did:web:'' d \<and>
      r d = Some resolved \<and> j_get resolved ''verificationMethod'' = J_List l")
    case True
    then obtain d r resolved l where *: "did = J_Str d" "resolve = Some r" "starts_with ''did:web:'' d"
      "r d = Some resolved" "j_get resolved ''verificationMethod'' = J_List l" by blast
    with assms(2) have "has_pq w (J_List l)" by blast
    moreover have "adaptive_predecessor_policy w resolve did embedded = ?hybrid (J_List l)"
      by (simp add: adaptive_predecessor_policy_def *)
    ultimately show ?thesis by blast
  next
    case False
    then have "adaptive_predecessor_policy w resolve did embedded = ?hybrid embedded"
      by (auto simp: adaptive_predecessor_policy_def Let_def split: jval.splits option.splits)
    with assms(1) show ?thesis by blast
  qed
  then show ?thesis using hybrid by auto
qed

lemma linkage_dids_from: "dict_get (linkage_dids ss d) did = Some vms \<Longrightarrow>
    dict_get d did = Some vms \<or> (\<exists>s \<in> set ss. vms = st_successor_methods s)"
  by (induction ss arbitrary: d) (fastforce split: jval.splits if_splits)+

lemma linkage_dids_has: "s \<in> set ss \<Longrightarrow> st_successor_did s = J_Str did \<Longrightarrow> dict_get (linkage_dids ss d) did \<noteq> None"
proof (induction ss arbitrary: d)
  case (Cons x ss)
  have keep: "dict_get d did \<noteq> None \<Longrightarrow> dict_get (linkage_dids ss d) did \<noteq> None" for d
    by (induction ss arbitrary: d) (auto split: jval.splits)
  show ?case
  proof (cases "x = s")
    case True
    with Cons.prems keep show ?thesis by auto
  qed (use Cons in auto)
qed simp

text \<open>
  C14: Behind every accepted artifact stands an unbroken line of authority: each rotation of a verified
  chain was signed, over its own payload, by a key that the identity before it published (the caller's
  root for the first), and every rotation after the first by a post-quantum one; no later rotation can
  be authorised by a classical key alone.
\<close>

theorem rotations_are_authorised:
  assumes "build_chain w ss = Inr chain"
    and "verify_artifact_against_chain w root_did root_vms chain ts payload signatures policy True ra tr user = Inr r"
    and "ar_ok r" and "i < length chain"
  shows "\<exists>p suite key. signable_payload w (chain ! i) = Some p \<and>
    (suite, key) \<in> published (wo_crypto w) (if i = 0 then root_vms else st_successor_methods (chain ! (i - 1))) \<and>
    signed_with (wo_crypto w) p (st_predecessor_signatures (chain ! i)) suite key \<and>
    (i = 0 \<or> is_post_quantum suite)"
proof -
  let ?s = "chain ! i" and ?res = "Some (chain_resolver chain user)"
  from artifact_accepted [OF assms(2,3)] have anchor: "anchored root_did root_vms chain"
    and all: "\<forall>s \<in> set chain. sr_ok (verify_succession w None HYBRID_REQUIRED ra tr ?res s)"
    by (auto simp: verify_chain_signatures_def Let_def list_all_iff)
  have pq: "has_pq w (st_successor_methods s)" if "s \<in> set chain" for s
  proof -
    from verified_statement [OF all [rule_format, OF that]] obtain q where
      ok: "pr_ok (evaluate (verify_signature_entries (wo_crypto w) q (st_successor_signatures s)
        (st_successor_methods s)) HYBRID_REQUIRED True)" by blast
    from accepted_published(2) [OF ok] show ?thesis unfolding has_pq_def by blast
  qed
  have "?s \<in> set chain" using assms(4) by simp
  from verified_statement [OF all [rule_format, OF this], unfolded option.case]
  obtain p where p: "signable_payload w ?s = Some p"
    and ok: "pr_ok (evaluate (verify_signature_entries (wo_crypto w) p (st_predecessor_signatures ?s)
        (st_predecessor_methods ?s)) (adaptive_predecessor_policy w ?res (st_predecessor_did ?s)
        (st_predecessor_methods ?s)) True)" by blast
  show ?thesis
  proof (cases "i = 0")
    case True
    obtain first rest where c: "chain = first # rest" using assms(4) by (cases chain) auto
    have a: "vm_linkage_keys root_vms = vm_linkage_keys (st_predecessor_methods ?s)" "vm_linkage_keys root_vms \<noteq> None"
      using anchor unfolding True anchored_def c list.case nth_Cons_0 by blast+
    note pub = linked_published [OF a, of "wo_crypto w"]
    from accepted_published(1) [OF ok] obtain suite key where
      "(suite, key) \<in> published (wo_crypto w) (st_predecessor_methods ?s)"
      "signed_with (wo_crypto w) p (st_predecessor_signatures ?s) suite key" by blast
    with p True pub show ?thesis by (intro exI [of _ p] exI [of _ suite] exI [of _ key]) simp
  next
    case False
    let ?prev = "chain ! (i - 1)"
    have prev: "?prev \<in> set chain" "?prev \<in> set (butlast chain)"
    proof -
      have "i - 1 < length (butlast chain)" using False assms(4) by simp
      then show "?prev \<in> set (butlast chain)" by (metis nth_butlast nth_mem)
      then show "?prev \<in> set chain" by (rule in_set_butlastD)
    qed
    have link: "link_holds w (Some ?prev) ?s"
      using built_links(2) [OF assms(1), of i] assms(4) False by (simp add: built_links(1) [OF assms(1)])
    note l = link [unfolded link_holds_def option.case]
    from l have did: "st_predecessor_did ?s = st_successor_did ?prev" by blast
    from l have pub: "published (wo_crypto w) (st_successor_methods ?prev) = published (wo_crypto w) (st_predecessor_methods ?s)"
      by (intro linked_published) blast+
    have "adaptive_predecessor_policy w ?res (st_predecessor_did ?s) (st_predecessor_methods ?s) = HYBRID_REQUIRED"
    proof (rule adaptive_hybrid)
      show "has_pq w (st_predecessor_methods ?s)" using pq [OF prev(1)] unfolding has_pq_def pub .
      fix d r resolved l
      assume d: "st_predecessor_did ?s = J_Str d" "?res = Some r" "r d = Some resolved"
        and l: "j_get resolved ''verificationMethod'' = J_List l"
      have "dict_get (linkage_dids (butlast chain) []) d \<noteq> None"
        using linkage_dids_has [OF prev(2)] did d(1) by simp
      then obtain vms where vms: "dict_get (linkage_dids (butlast chain) []) d = Some vms" by blast
      with linkage_dids_from [OF vms] obtain s where s: "s \<in> set (butlast chain)" "vms = st_successor_methods s" by auto
      then have "has_pq w vms" using pq in_set_butlastD by metis
      then obtain l' where "vms = J_List l'" by (auto simp: has_pq_def published_def)
      with vms d l have "l = l'" by (auto simp: chain_resolver_def dict_get_def)
      with \<open>has_pq w vms\<close> \<open>vms = J_List l'\<close> show "has_pq w (J_List l)" by simp
    qed
    with ok have "\<exists>suite key. is_post_quantum suite \<and> (suite, key) \<in> published (wo_crypto w) (st_predecessor_methods ?s) \<and>
        signed_with (wo_crypto w) p (st_predecessor_signatures ?s) suite key"
      using accepted_published(2) by (metis verify_policy.distinct(1))
    then obtain suite key where "is_post_quantum suite"
      "(suite, key) \<in> published (wo_crypto w) (st_predecessor_methods ?s)"
      "signed_with (wo_crypto w) p (st_predecessor_signatures ?s) suite key" by blast
    with p False pub show ?thesis by (intro exI [of _ p] exI [of _ suite] exI [of _ key]) simp
  qed
qed

theorem rotations_are_authorised_witness:
  "\<exists>suite key. (suite, key) \<in> published demo_crypto demo_root_methods \<and>
     signed_with demo_crypto [0x07] (J_List [demo_entry ''c'' Ed25519 ''01'']) suite key"
proof -
  obtain r where "verify_artifact_against_chain demo_world demo_root_did demo_root_methods
     [demo_statement] (J_Str ''tt'') [0x09] (J_List demo_signatures) LEGACY_ALLOWED True False None
     (Some demo_resolver) = Inr r" and "ar_ok r" using demo_artifact by blast
  from rotations_are_authorised [OF demo_built this, of 0]
  have "\<exists>p suite key. signable_payload demo_world demo_statement = Some p \<and>
    (suite, key) \<in> published demo_crypto demo_root_methods \<and>
    signed_with demo_crypto p (st_predecessor_signatures demo_statement) suite key" by auto
  moreover have "signable_payload demo_world demo_statement = Some [0x07]"
    by (simp add: signable_payload_def demo_world_def)
  moreover have "st_predecessor_signatures demo_statement = J_List [demo_entry ''c'' Ed25519 ''01'']"
    by (simp add: demo_statement_def)
  ultimately show ?thesis by auto
qed

theorem build_chain_exact_witness:
  "st_predecessor_did demo_statement \<noteq> st_successor_did demo_statement"
  using build_chain_exact [of demo_world "[demo_statement]" "[demo_statement]"] demo_built by simp

text \<open>Two statements that hand the same root to different successors in the same window: each is a chain.\<close>

lemma rival_chains_are_both_built:
  "build_chain demo_world [demo_statement\<lparr>st_successor_did := J_Str ''did:web:y''\<rparr>] =
     Inr [demo_statement\<lparr>st_successor_did := J_Str ''did:web:y''\<rparr>]"
  by (simp add: build_chain_def check_link_def demo_statement_def demo_root_did_def parse_iso8601_utc_def
    demo_world_def with_offset_def)

end
