(* ===== verification/Ceremony.thy ===== *)
theory Ceremony
  imports Succession
begin

text \<open>
  Model of the writing side of \<open>kestrel_sovereign/identity/succession.py\<close>: the key pairs and the
  registry lookup of \<open>security/crypto_suite.py\<close>, the signatures of both parties, the archival
  countersignature, the finalization and the dictionary form of a statement. The signature library
  is an argument; what is proved about it follows from its documented contract (a signature made
  with the private half of a pair verifies under the public half).
\<close>

subsection \<open>Signing\<close>

text \<open>\<open>sig.hex()\<close>.\<close>

definition hex_char :: "nat \<Rightarrow> char" where
  "hex_char n = (if n < 10 then char_of (48 + n) else char_of (87 + n))"

definition to_hex :: "byte list \<Rightarrow> string" where
  "to_hex bs = concat (map (\<lambda>b. [hex_char (unat b div 16), hex_char (unat b mod 16)]) bs)"

record ('k, 'p) keypair =
  kp_suite_id :: string
  kp_private :: 'p
  kp_public :: 'k

datatype sign_error = Not_Serializable | No_Such_Suite | Sign_Failed | Not_Iterable | Not_Archival_Suite | Bad_Method

definition get_suite :: "string \<Rightarrow> sign_error + suite" where
  "get_suite alg = (case dict_get REGISTRY alg of None \<Rightarrow> Inl No_Such_Suite | Some s \<Rightarrow> Inr s)"

text \<open>The library's signer: \<open>None\<close> when it raises.\<close>

type_synonym 'p signer = "suite \<Rightarrow> byte list \<Rightarrow> 'p \<Rightarrow> byte list option"

definition signature_entry :: "suite \<Rightarrow> string \<Rightarrow> byte list \<Rightarrow> jval" where
  "signature_entry s kid sg =
     J_Obj [(''alg'', J_Str (alg_id s)), (''kid'', J_Str kid), (''sig'', J_Str (to_hex sg))]"

fun sign_all :: "'p signer \<Rightarrow> byte list \<Rightarrow> (('k, 'p) keypair \<times> string) list \<Rightarrow> jval list \<Rightarrow> sign_error + jval list" where
  "sign_all sign payload [] sigs = Inr sigs"
| "sign_all sign payload ((kp, kid) # kps) sigs =
     (case get_suite (kp_suite_id kp) of
        Inl e \<Rightarrow> Inl e
      | Inr s \<Rightarrow>
          (case sign s payload (kp_private kp) of
             None \<Rightarrow> Inl Sign_Failed
           | Some sg \<Rightarrow> sign_all sign payload kps (sigs @ [signature_entry s kid sg])))"

definition signed_list ::
  "'p signer \<Rightarrow> 'k world \<Rightarrow> statement \<Rightarrow> jval \<Rightarrow> (('k, 'p) keypair \<times> string) list \<Rightarrow> sign_error + jval" where
  "signed_list sign w s old kps =
     (case signable_payload w s of
        None \<Rightarrow> Inl Not_Serializable
      | Some payload \<Rightarrow>
          (case py_list old of
             None \<Rightarrow> Inl Not_Iterable
           | Some sigs \<Rightarrow> map_sum id J_List (sign_all sign payload kps sigs)))"

definition sign_predecessor ::
  "'p signer \<Rightarrow> 'k world \<Rightarrow> statement \<Rightarrow> (('k, 'p) keypair \<times> string) list \<Rightarrow> sign_error + statement" where
  "sign_predecessor sign w s kps =
     map_sum id (\<lambda>sigs. s\<lparr>st_predecessor_signatures := sigs\<rparr>)
       (signed_list sign w s (st_predecessor_signatures s) kps)"

definition sign_successor ::
  "'p signer \<Rightarrow> 'k world \<Rightarrow> statement \<Rightarrow> (('k, 'p) keypair \<times> string) list \<Rightarrow> sign_error + statement" where
  "sign_successor sign w s kps =
     map_sum id (\<lambda>sigs. s\<lparr>st_successor_signatures := sigs\<rparr>)
       (signed_list sign w s (st_successor_signatures s) kps)"

text \<open>\<open>now\<close> is the ISO text of the clock.\<close>

definition finalize :: "'k world \<Rightarrow> string \<Rightarrow> statement \<Rightarrow> sign_error + statement" where
  "finalize w now s =
     (case compute_statement_id w s of
        None \<Rightarrow> Inl Not_Serializable
      | Some i \<Rightarrow>
          Inr (s\<lparr>st_statement_id := J_Str i,
                 st_created_at := (if truthy (st_created_at s) then st_created_at s else J_Str now)\<rparr>))"

text \<open>The whole ceremony: both sides sign, then the statement is finalized.\<close>

definition sign_and_finalize ::
  "'p signer \<Rightarrow> 'k world \<Rightarrow> string \<Rightarrow> (('k, 'p) keypair \<times> string) list \<Rightarrow> (('k, 'p) keypair \<times> string) list
     \<Rightarrow> statement \<Rightarrow> sign_error + statement" where
  "sign_and_finalize sign w now preds succs s =
     (case sign_predecessor sign w s preds of
        Inl e \<Rightarrow> Inl e
      | Inr s1 \<Rightarrow> (case sign_successor sign w s1 succs of Inl e \<Rightarrow> Inl e | Inr s2 \<Rightarrow> finalize w now s2))"

lemma cp_char_of: "n < 256 \<Longrightarrow> cp (char_of n) = n"
  by (simp add: cp_def)

lemma hex_digit_char: "n < 16 \<Longrightarrow> hex_digit (hex_char n) = Some n"
  by (auto simp: hex_digit_def hex_char_def cp_char_of)

lemma hex_char_not_blank: "n < 16 \<Longrightarrow> cp (hex_char n) \<notin> {9, 10, 11, 12, 13, 32}"
  by (auto simp: hex_char_def cp_char_of)

lemma fromhex_to_hex: "fromhex (to_hex bs) = Some bs"
proof (induction bs)
  case (Cons b bs)
  have lt: "unat b < 256" using unsigned_less [of b] by simp
  have "to_hex (b # bs) = hex_char (unat b div 16) # hex_char (unat b mod 16) # to_hex bs" by (simp add: to_hex_def)
  moreover have "unat b div 16 < 16" using lt by linarith
  moreover have "word_of_nat (16 * (unat b div 16) + unat b mod 16) = b" by simp
  ultimately show ?case using Cons hex_char_not_blank [of "unat b div 16"]
    by (simp add: hex_digit_char del: word_of_nat_eq_iff)
qed (simp add: to_hex_def)

lemma to_hex_nonempty: "bs \<noteq> [] \<Longrightarrow> to_hex bs \<noteq> []"
  by (cases bs) (simp_all add: to_hex_def)

lemma sign_all_result:
  "sign_all sign payload kps sigs = Inr out \<Longrightarrow>
     set sigs \<subseteq> set out \<and>
     (\<forall>(kp, kid) \<in> set kps. \<exists>s sg. get_suite (kp_suite_id kp) = Inr s \<and> sign s payload (kp_private kp) = Some sg \<and>
        signature_entry s kid sg \<in> set out)"
proof (induction kps arbitrary: sigs)
  case (Cons x kps)
  obtain kp kid where x: "x = (kp, kid)" by (cases x)
  from Cons.prems obtain s sg where s: "get_suite (kp_suite_id kp) = Inr s" "sign s payload (kp_private kp) = Some sg"
    and rest: "sign_all sign payload kps (sigs @ [signature_entry s kid sg]) = Inr out"
    by (auto simp: x split: sum.splits option.splits)
  from Cons.IH [OF rest] s show ?case by (auto simp: x)
qed simp

lemma get_suite_alg: "get_suite alg = Inr s \<longleftrightarrow> alg = alg_id s"
proof
  assume "get_suite alg = Inr s"
  then have "dict_get REGISTRY alg = Some s" by (simp add: get_suite_def split: option.splits)
  then show "alg = alg_id s" using dict_get_in [of REGISTRY alg s] by (auto simp: REGISTRY_def)
qed (cases s; simp add: get_suite_def REGISTRY_def dict_get_def)

text \<open>A key pair whose public half is published under a kid of a method list.\<close>

definition published_at :: "'k world \<Rightarrow> jval list \<Rightarrow> ('k, 'p) keypair \<Rightarrow> string \<Rightarrow> suite \<Rightarrow> bool" where
  "published_at w l kp kid s \<longleftrightarrow>
     kp_suite_id kp = alg_id s \<and> kid \<noteq> [] \<and>
     (\<exists>vm. methods_for kid l = [vm] \<and> decode_verification_method_key (wo_crypto w) vm = Some (s, kp_public kp))"

text \<open>The documented contract of the signature library, for the key pairs used.\<close>

definition signs_for :: "'p signer \<Rightarrow> 'k world \<Rightarrow> ('k, 'p) keypair \<Rightarrow> suite \<Rightarrow> bool" where
  "signs_for sign w kp s \<longleftrightarrow>
     (\<forall>data sg. sign s data (kp_private kp) = Some sg \<longrightarrow>
        sg \<noteq> [] \<and> cr_verify (wo_crypto w) s data sg (kp_public kp))"

lemma signers_of_signed:
  assumes "sign_all sign payload kps sigs = Inr out" and "sound_methods l"
    and "(kp, kid) \<in> set kps" and "published_at w l kp kid s" and "signs_for sign w kp s"
  shows "s \<in> signers (wo_crypto w) payload (J_List out) (J_List l)"
proof -
  from sign_all_result [OF assms(1)] assms(3) obtain s' sg where s': "get_suite (kp_suite_id kp) = Inr s'"
    and sg: "sign s' payload (kp_private kp) = Some sg" and mem: "signature_entry s' kid sg \<in> set out" by blast
  from s' assms(4) have "s' = s" by (simp add: get_suite_alg published_at_def)
  with sg assms(5) have v: "sg \<noteq> []" "cr_verify (wo_crypto w) s payload sg (kp_public kp)"
    by (auto simp: signs_for_def)
  have "signed_by (wo_crypto w) payload l (signature_entry s kid sg) s (kp_public kp)"
    using assms(4) v fromhex_to_hex [of sg] to_hex_nonempty [of sg]
    by (auto simp: signed_by_def signature_entry_def dict_get_def published_at_def decode_key_Some)
  with mem \<open>s' = s\<close> assms(2) show ?thesis by (auto simp: signers_def)
qed

definition can_sign :: "'p signer \<Rightarrow> 'k world \<Rightarrow> jval \<Rightarrow> (('k, 'p) keypair \<times> string) list \<Rightarrow> suite \<Rightarrow> bool" where
  "can_sign sign w vms kps s \<longleftrightarrow>
     (\<exists>l kp kid. vms = J_List l \<and> (kp, kid) \<in> set kps \<and> published_at w l kp kid s \<and> signs_for sign w kp s)"

lemma signers_can_sign:
  assumes "sign_all sign payload kps sigs = Inr out" and "can_sign sign w vms kps s"
    and "mi_fatal (index_verification_methods vms) = []"
  shows "s \<in> signers (wo_crypto w) payload (J_List out) vms"
proof -
  from assms(2) obtain l kp kid where l: "vms = J_List l" and k: "(kp, kid) \<in> set kps" "published_at w l kp kid s" "signs_for sign w kp s"
    by (auto simp: can_sign_def)
  have "sound_methods l" using assms(3) unfolding index_sound l by simp
  from signers_of_signed [OF assms(1) this k] show ?thesis by (simp add: l)
qed

lemma bound_indexed: "verify_did_binding w resolve did vms \<Longrightarrow> mi_fatal (index_verification_methods vms) = []"
  by (auto simp: verify_did_binding_def split: jval.splits)

lemma signed_list_result:
  assumes "signed_list sign w s old kps = Inr v"
  shows "\<exists>payload sigs out. signable_payload w s = Some payload \<and> sign_all sign payload kps sigs = Inr out \<and> v = J_List out"
proof -
  from assms obtain payload sigs where p: "signable_payload w s = Some payload"
    and m: "map_sum id J_List (sign_all sign payload kps sigs) = Inr v"
    by (auto simp: signed_list_def split: option.splits)
  then show ?thesis by (cases "sign_all sign payload kps sigs") auto
qed

lemma sign_predecessor_result:
  assumes "sign_predecessor sign w s kps = Inr s1"
  shows "\<exists>payload sigs out. signable_payload w s = Some payload \<and> sign_all sign payload kps sigs = Inr out \<and>
    s1 = s\<lparr>st_predecessor_signatures := J_List out\<rparr>"
proof (cases "signed_list sign w s (st_predecessor_signatures s) kps")
  case (Inr v)
  with signed_list_result [OF Inr] assms show ?thesis by (auto simp: sign_predecessor_def)
qed (use assms in \<open>simp add: sign_predecessor_def\<close>)

lemma sign_successor_result:
  assumes "sign_successor sign w s kps = Inr s1"
  shows "\<exists>payload sigs out. signable_payload w s = Some payload \<and> sign_all sign payload kps sigs = Inr out \<and>
    s1 = s\<lparr>st_successor_signatures := J_List out\<rparr>"
proof (cases "signed_list sign w s (st_successor_signatures s) kps")
  case (Inr v)
  with signed_list_result [OF Inr] assms show ?thesis by (auto simp: sign_successor_def)
qed (use assms in \<open>simp add: sign_successor_def\<close>)

lemma ceremony_result:
  assumes "sign_and_finalize sign w now preds succs s = Inr s'"
  shows "\<exists>payload a b old old' i c. signable_payload w s = Some payload \<and>
    sign_all sign payload preds old = Inr a \<and> sign_all sign payload succs old' = Inr b \<and>
    compute_statement_id w s = Some i \<and>
    s' = s\<lparr>st_predecessor_signatures := J_List a, st_successor_signatures := J_List b,
           st_statement_id := J_Str i, st_created_at := c\<rparr>"
proof -
  have p: "signable_payload w (s\<lparr>st_predecessor_signatures := x\<rparr>) = signable_payload w s"
    "signable_payload w (s\<lparr>st_predecessor_signatures := x, st_successor_signatures := y\<rparr>) = signable_payload w s" for x y
    by (simp_all add: signable_payload_def signed_fields_def)
  from assms obtain s1 s2 where s1: "sign_predecessor sign w s preds = Inr s1"
    and s2: "sign_successor sign w s1 succs = Inr s2" and f: "finalize w now s2 = Inr s'"
    by (auto simp: sign_and_finalize_def split: sum.splits)
  from sign_predecessor_result [OF s1] obtain payload old a where a: "signable_payload w s = Some payload"
    "sign_all sign payload preds old = Inr a" and e1: "s1 = s\<lparr>st_predecessor_signatures := J_List a\<rparr>" by blast
  from sign_successor_result [OF s2] obtain payload' old' b where b: "signable_payload w s1 = Some payload'"
    "sign_all sign payload' succs old' = Inr b" and e2: "s2 = s1\<lparr>st_successor_signatures := J_List b\<rparr>" by blast
  from b(1) a(1) have "payload' = payload" by (simp add: e1 p)
  from f obtain i where i: "compute_statement_id w s = Some i"
    and e3: "\<exists>c. s' = s2\<lparr>st_statement_id := J_Str i, st_created_at := c\<rparr>"
    by (auto simp: finalize_def compute_statement_id_def e1 e2 p split: option.splits)
  from e3 obtain c where "s' = s2\<lparr>st_statement_id := J_Str i, st_created_at := c\<rparr>" by blast
  with a b(2) i \<open>payload' = payload\<close> show ?thesis
    by (intro exI [of _ payload] exI [of _ a] exI [of _ b] exI [of _ old] exI [of _ old'] exI [of _ i] exI [of _ c])
      (simp add: e1 e2)
qed

text \<open>
  C16: A rotation that is signed and finalized verifies: whenever both method sets are bound to their
  DIDs, the cutoff is a UTC timestamp and the signing keys are published ones (for the successor a
  classical and a post-quantum key, for the predecessor whatever its adaptive policy wants), the
  statement the ceremony returns passes verification, its identifier included.
\<close>

theorem signed_statement_verifies:
  assumes "sign_and_finalize sign w now preds succs s = Inr s'"
    and "validate_iso8601_utc w (st_effective_from s)"
    and "verify_did_binding w resolve (st_predecessor_did s) (st_predecessor_methods s)"
    and "verify_did_binding w resolve (st_successor_did s) (st_successor_methods s)"
    and "\<not> truthy (st_archival_signature s)" and "\<And>data. wo_sha256 w data \<noteq> []"
    and "can_sign sign w (st_predecessor_methods s) preds c"
    and "adaptive_predecessor_policy w resolve (st_predecessor_did s) (st_predecessor_methods s) = HYBRID_REQUIRED \<Longrightarrow>
      \<not> is_post_quantum c \<and> (\<exists>q. is_post_quantum q \<and> can_sign sign w (st_predecessor_methods s) preds q)"
    and "can_sign sign w (st_successor_methods s) succs c'" and "\<not> is_post_quantum c'"
    and "can_sign sign w (st_successor_methods s) succs q'" and "is_post_quantum q'"
  shows "sr_ok (verify_succession w None HYBRID_REQUIRED False trusted resolve s')"
proof -
  from ceremony_result [OF assms(1)] obtain payload a b old old' i cr where
    payload: "signable_payload w s = Some payload" and a: "sign_all sign payload preds old = Inr a"
    and b: "sign_all sign payload succs old' = Inr b" and i: "compute_statement_id w s = Some i"
    and s': "s' = s\<lparr>st_predecessor_signatures := J_List a, st_successor_signatures := J_List b,
       st_statement_id := J_Str i, st_created_at := cr\<rparr>" by blast
  note pred = signers_can_sign [OF a _ bound_indexed [OF assms(3)]]
  note succ = signers_can_sign [OF b _ bound_indexed [OF assms(4)]]
  let ?policy = "adaptive_predecessor_policy w resolve (st_predecessor_did s) (st_predecessor_methods s)"
  have legacy: "?policy = LEGACY_ALLOWED \<or> ?policy = HYBRID_REQUIRED"
    by (simp add: adaptive_predecessor_policy_def Let_def split: jval.splits)
  have p: "pr_ok (evaluate (verify_signature_entries (wo_crypto w) payload (J_List a) (st_predecessor_methods s)) ?policy True)"
    unfolding accepted_iff_signed using legacy assms(8) pred [OF assms(7)] pred by auto
  have q: "pr_ok (evaluate (verify_signature_entries (wo_crypto w) payload (J_List b) (st_successor_methods s)) HYBRID_REQUIRED True)"
    unfolding accepted_iff_signed using succ [OF assms(9)] succ [OF assms(11)] assms(10,12) by auto
  have e: "signable_payload w s' = Some payload" "compute_statement_id w s' = Some i" "i \<noteq> []"
    using payload i assms(6) by (auto simp: s' signable_payload_def signed_fields_def compute_statement_id_def)
  have f: "st_predecessor_did s' = st_predecessor_did s" "st_successor_did s' = st_successor_did s"
    "st_effective_from s' = st_effective_from s" "st_predecessor_methods s' = st_predecessor_methods s"
    "st_successor_methods s' = st_successor_methods s" "st_archival_signature s' = st_archival_signature s"
    "st_predecessor_signatures s' = J_List a" "st_successor_signatures s' = J_List b" "st_statement_id s' = J_Str i"
    by (simp_all add: s')
  show ?thesis
    using assms(2-5) p q e by (simp add: verify_succession_def f archival_result_def Let_def)
qed

definition demo_signer :: "byte list signer" where
  "demo_signer s data key = Some key"

definition demo_pair :: "suite \<Rightarrow> byte list \<Rightarrow> string \<Rightarrow> (byte list, byte list) keypair \<times> string" where
  "demo_pair s key kid = (\<lparr>kp_suite_id = alg_id s, kp_private = key, kp_public = key\<rparr>, kid)"

definition demo_draft :: statement where
  "demo_draft = demo_statement\<lparr>st_predecessor_signatures := J_List [], st_successor_signatures := J_List [],
     st_statement_id := J_Str []\<rparr>"

lemma demo_published:
  "published_at demo_world [demo_method ''c'' Ed25519 [0x01]]
     \<lparr>kp_suite_id = alg_id Ed25519, kp_private = [0x01], kp_public = [0x01]\<rparr> ''c'' Ed25519"
  "published_at demo_world demo_methods
     \<lparr>kp_suite_id = alg_id Ed25519, kp_private = [0x01], kp_public = [0x01]\<rparr> ''c'' Ed25519"
  "published_at demo_world demo_methods
     \<lparr>kp_suite_id = alg_id ML_DSA_65, kp_private = [0x02], kp_public = [0x02]\<rparr> ''q'' ML_DSA_65"
proof -
  have c: "wo_crypto demo_world = demo_crypto" by (simp add: demo_world_def)
  have d: "decode_verification_method_key demo_crypto (demo_method kid s key) = Some (s, key)" for kid s key
    by (simp add: decode_verification_method_key_def demo_method_def dict_get_def demo_key)
  have m: "methods_for ''c'' [demo_method ''c'' Ed25519 [0x01]] = [demo_method ''c'' Ed25519 [0x01]]"
    "methods_for ''c'' demo_methods = [demo_method ''c'' Ed25519 [0x01]]"
    "methods_for ''q'' demo_methods = [demo_method ''q'' ML_DSA_65 [0x02]]"
    by (simp_all add: methods_for_def demo_methods_def demo_kids)
  show "published_at demo_world [demo_method ''c'' Ed25519 [0x01]]
     \<lparr>kp_suite_id = alg_id Ed25519, kp_private = [0x01], kp_public = [0x01]\<rparr> ''c'' Ed25519"
    unfolding published_at_def c m(1) by (simp add: d del: alg_id.simps)
  show "published_at demo_world demo_methods
     \<lparr>kp_suite_id = alg_id Ed25519, kp_private = [0x01], kp_public = [0x01]\<rparr> ''c'' Ed25519"
    unfolding published_at_def c m(2) by (simp add: d del: alg_id.simps)
  show "published_at demo_world demo_methods
     \<lparr>kp_suite_id = alg_id ML_DSA_65, kp_private = [0x02], kp_public = [0x02]\<rparr> ''q'' ML_DSA_65"
    unfolding published_at_def c m(3) by (simp add: d del: alg_id.simps)
qed

lemma demo_signs: "signs_for demo_signer demo_world \<lparr>kp_suite_id = a, kp_private = [x], kp_public = [x]\<rparr> s"
  by (simp add: signs_for_def demo_signer_def demo_world_def demo_crypto_def)

lemma can_signI:
  "(kp, kid) \<in> set kps \<Longrightarrow> published_at w l kp kid s \<Longrightarrow> signs_for sign w kp s \<Longrightarrow> can_sign sign w (J_List l) kps s"
  unfolding can_sign_def by blast

lemma demo_can_sign:
  "can_sign demo_signer demo_world demo_root_methods [demo_pair Ed25519 [0x01] ''c''] Ed25519"
  "can_sign demo_signer demo_world (J_List demo_methods) [demo_pair Ed25519 [0x01] ''c'', demo_pair ML_DSA_65 [0x02] ''q''] Ed25519"
  "can_sign demo_signer demo_world (J_List demo_methods) [demo_pair Ed25519 [0x01] ''c'', demo_pair ML_DSA_65 [0x02] ''q''] ML_DSA_65"
  unfolding demo_root_methods_def demo_pair_def
  by (rule can_signI [OF _ demo_published(1) demo_signs] can_signI [OF _ demo_published(2) demo_signs]
    can_signI [OF _ demo_published(3) demo_signs], simp)+

theorem signed_statement_verifies_witness:
  "\<exists>s'. sign_and_finalize demo_signer demo_world ''now'' [demo_pair Ed25519 [0x01] ''c'']
      [demo_pair Ed25519 [0x01] ''c'', demo_pair ML_DSA_65 [0x02] ''q''] demo_draft = Inr s' \<and>
    sr_ok (verify_succession demo_world None HYBRID_REQUIRED False None
      (Some (chain_resolver [demo_statement] (Some demo_resolver))) s')"
proof -
  have g: "get_suite (alg_id s) = Inr s" for s by (simp add: get_suite_alg)
  have "\<exists>s'. sign_and_finalize demo_signer demo_world ''now'' [demo_pair Ed25519 [0x01] ''c'']
      [demo_pair Ed25519 [0x01] ''c'', demo_pair ML_DSA_65 [0x02] ''q''] demo_draft = Inr s'"
    by (simp add: sign_and_finalize_def sign_predecessor_def sign_successor_def signed_list_def finalize_def
      signable_payload_def compute_statement_id_def demo_draft_def demo_world_def demo_pair_def demo_signer_def g
      del: alg_id.simps)
  then obtain s' where s': "sign_and_finalize demo_signer demo_world ''now'' [demo_pair Ed25519 [0x01] ''c'']
      [demo_pair Ed25519 [0x01] ''c'', demo_pair ML_DSA_65 [0x02] ''q''] demo_draft = Inr s'" by blast
  have f: "st_predecessor_did demo_draft = demo_root_did" "st_successor_did demo_draft = J_Str ''did:web:x''"
    "st_predecessor_methods demo_draft = demo_root_methods" "st_successor_methods demo_draft = J_List demo_methods"
    "st_effective_from demo_draft = J_Str ''t''" "st_archival_signature demo_draft = J_Null"
    by (simp_all add: demo_draft_def demo_statement_def)
  have v: "validate_iso8601_utc demo_world (J_Str ''t'')" "wo_sha256 demo_world data \<noteq> []" for data
    by (simp_all add: validate_iso8601_utc_def demo_world_def with_offset_def)
  from signed_statement_verifies [OF s', unfolded f, OF v(1) demo_bound _ v(2) demo_can_sign(1) _ demo_can_sign(2) _ demo_can_sign(3)]
  show ?thesis using s' by (simp add: demo_adaptive)
qed

subsection \<open>Archival countersignature\<close>

text \<open>
  \<open>"#" in vm_id\<close> and the \<open>rsplit\<close> after it; \<open>None\<close> where Python raises: a number has no
  containment, a list or a dictionary that contains the text has no \<open>rsplit\<close>.
\<close>

definition kid_from_id :: "string \<Rightarrow> jval \<Rightarrow> string option" where
  "kid_from_id kid vm_id =
     (case vm_id of
        J_Str i \<Rightarrow> Some (if CHR ''#'' \<in> set i then verification_method_kid i else kid)
      | J_List l \<Rightarrow> if J_Str ''#'' \<in> set l then None else Some kid
      | J_Obj d \<Rightarrow> if ''#'' \<in> fst ` set d then None else Some kid
      | _ \<Rightarrow> None)"

definition resolve_kid :: "string \<Rightarrow> jval \<Rightarrow> string option" where
  "resolve_kid kid effective_vm =
     (if truthy effective_vm \<and> kid = ''archival''
      then if is_obj effective_vm
        then kid_from_id kid (if truthy (j_get effective_vm ''id'') then j_get effective_vm ''id'' else J_Str [])
        else None
      else Some kid)"

text \<open>\<open>dict(verification_method)\<close> of a dictionary is a copy of it.\<close>

definition archival_countersign ::
  "'p signer \<Rightarrow> 'k world \<Rightarrow> statement \<Rightarrow> ('k, 'p) keypair \<Rightarrow> string \<Rightarrow> jval \<Rightarrow> sign_error + statement" where
  "archival_countersign sign w s kp kid verification_method =
     (if kp_suite_id kp \<noteq> alg_id SLH_DSA_SHA2_128S then Inl Not_Archival_Suite
      else case signable_payload w s of
        None \<Rightarrow> Inl Not_Serializable
      | Some payload \<Rightarrow>
          (let effective_vm = (if truthy verification_method then verification_method else st_archival_method s)
           in case resolve_kid kid effective_vm of
             None \<Rightarrow> Inl Bad_Method
           | Some resolved_kid \<Rightarrow>
               (case sign SLH_DSA_SHA2_128S payload (kp_private kp) of
                  None \<Rightarrow> Inl Sign_Failed
                | Some sg \<Rightarrow>
                    Inr (s\<lparr>st_archival_signature := signature_entry SLH_DSA_SHA2_128S resolved_kid sg,
                           st_archival_method := effective_vm\<rparr>))))"

lemma archival_leaves_payload:
  "signable_payload w (s\<lparr>st_archival_signature := x, st_archival_method := y\<rparr>) = signable_payload w s"
  by (simp add: signable_payload_def signed_fields_def)

lemma archival_countersign_result:
  assumes "archival_countersign sign w s kp kid vm = Inr s'"
  shows "\<exists>payload vm' kid' sg. signable_payload w s = Some payload \<and> kp_suite_id kp = alg_id SLH_DSA_SHA2_128S \<and>
     vm' = (if truthy vm then vm else st_archival_method s) \<and> resolve_kid kid vm' = Some kid' \<and>
     sign SLH_DSA_SHA2_128S payload (kp_private kp) = Some sg \<and>
     s' = s\<lparr>st_archival_signature := signature_entry SLH_DSA_SHA2_128S kid' sg, st_archival_method := vm'\<rparr>"
  using assms unfolding archival_countersign_def Let_def
  by (cases "signable_payload w s"; cases "resolve_kid kid (if truthy vm then vm else st_archival_method s)";
      auto split: if_splits option.splits)

text \<open>The default kid of an identifier with a fragment is the fragment, which is the kid verifiers derive.\<close>

lemma resolve_kid_default:
  "j_get vm ''id'' = J_Str i \<Longrightarrow> CHR ''#'' \<in> set i \<Longrightarrow> is_obj vm \<Longrightarrow> resolve_kid ''archival'' vm = Some (verification_method_kid i)"
  by (cases vm; cases i) (auto simp: resolve_kid_def kid_from_id_def)

lemma single_signed:
  assumes "sound_methods l" and "signed_by cr data l e s key"
  shows "verify_signature_entries cr data (J_List [e]) (J_List l) = \<lparr>ve_verified = [e], ve_rejected = [], ve_fatal = []\<rparr>"
proof -
  have f: "mi_fatal (index_verification_methods (J_List l)) = []" using assms(1) index_sound by blast
  have "check_entry cr data e (mi_methods (index_verification_methods (J_List l))) = None"
    using check_entry_exact [of "mi_methods (index_verification_methods (J_List l))" l cr data e]
      index_lookup [OF assms(1)] assms(2) by blast
  with f show ?thesis by (simp add: verify_signature_entries_def)
qed

lemma single_accepted:
  assumes "sound_methods l" and "signed_by cr data l e s key" and "is_post_quantum s"
  shows "evaluate (verify_signature_entries cr data (J_List [e]) (J_List l)) PQ_REQUIRED True =
    result True (Satisfied PQ_REQUIRED) [alg_id s]"
  using assms(3) by (simp add: single_signed [OF assms(1,2)] evaluate_def signed_by_alg [OF assms(2)]
    evaluate_signatures_def result_def)

text \<open>
  A countersignature adds to a rotation and takes nothing away: a statement that verifies still
  verifies after the archival countersignature, and then even where one is required, when the
  embedded method carries the pinned key with the default kid and that key is the archival pair's.
\<close>

theorem countersigned_statement_verifies:
  assumes "archival_countersign sign w s kp ''archival'' vm = Inr s'"
    and "sr_ok (verify_succession w pp sp False trusted resolve s)"
    and "vm' = (if truthy vm then vm else st_archival_method s)" and "is_obj vm'"
    and "j_get vm' ''id'' = J_Str i" and "CHR ''#'' \<in> set i" and "verification_method_kid i \<noteq> []"
    and "j_get vm' ''publicKeyMultibase'' = J_Str pin"
    and "decode_verification_method_key (wo_crypto w) vm' = Some (SLH_DSA_SHA2_128S, kp_public kp)"
    and "signs_for sign w kp SLH_DSA_SHA2_128S"
  shows "sr_ok (verify_succession w pp sp True (Some pin) resolve s')"
proof -
  from archival_countersign_result [OF assms(1)] assms(3) obtain payload kid' sg where
    payload: "signable_payload w s = Some payload" and kid: "resolve_kid ''archival'' vm' = Some kid'"
    and sg: "sign SLH_DSA_SHA2_128S payload (kp_private kp) = Some sg"
    and s': "s' = s\<lparr>st_archival_signature := signature_entry SLH_DSA_SHA2_128S kid' sg, st_archival_method := vm'\<rparr>"
    by blast
  from kid have k: "kid' = verification_method_kid i" by (simp add: resolve_kid_default [OF assms(5,6,4)])
  from sg assms(10) have v: "sg \<noteq> []" "cr_verify (wo_crypto w) SLH_DSA_SHA2_128S payload sg (kp_public kp)"
    by (auto simp: signs_for_def)
  have kid_of: "kid_of vm' = Some kid'"
    using assms(4,5,7) by (simp add: kid_of_def k)
  have sound: "sound_methods [vm']" using assms(4,5) by (simp add: sound_methods_def methods_for_def)
  let ?e = "signature_entry SLH_DSA_SHA2_128S kid' sg"
  have "methods_for kid' [vm'] = [vm']" by (simp add: methods_for_def kid_of)
  then have signed: "signed_by (wo_crypto w) payload [vm'] ?e SLH_DSA_SHA2_128S (kp_public kp)"
    using v fromhex_to_hex [of sg] to_hex_nonempty [of sg] assms(7,9)
    by (auto simp: signed_by_def signature_entry_def dict_get_def decode_key_Some k)
  have r: "evaluate (verify_signature_entries (wo_crypto w) payload (J_List [?e]) (J_List [vm'])) PQ_REQUIRED True =
      result True (Satisfied PQ_REQUIRED) [alg_id SLH_DSA_SHA2_128S]"
    by (rule single_accepted [OF sound signed]) simp
  have t: "truthy vm'" "truthy ?e" using assms(4,5) by (cases vm'; auto simp: signature_entry_def dict_get_def)+
  have a: "archival_result w payload s' True (Some pin) = Some (result True (Satisfied PQ_REQUIRED) [alg_id SLH_DSA_SHA2_128S])"
    using t assms(8) r by (simp add: archival_result_def s' result_def del: alg_id.simps)
  have e: "signable_payload w s' = Some payload" "compute_statement_id w s' = compute_statement_id w s"
    using payload by (simp_all add: s' archival_leaves_payload compute_statement_id_def)
  have f: "st_predecessor_did s' = st_predecessor_did s" "st_successor_did s' = st_successor_did s"
    "st_effective_from s' = st_effective_from s" "st_predecessor_methods s' = st_predecessor_methods s"
    "st_successor_methods s' = st_successor_methods s" "st_statement_id s' = st_statement_id s"
    "st_predecessor_signatures s' = st_predecessor_signatures s" "st_successor_signatures s' = st_successor_signatures s"
    by (simp_all add: s')
  have n: "\<not> sr_ok unevaluated_result" by (simp add: unevaluated_result_def)
  show ?thesis
  proof (cases "validate_iso8601_utc w (st_effective_from s)")
    case True
    with assms(2) payload show ?thesis
      by (simp add: verify_succession_def Let_def f e a result_def split: option.splits)
  qed (use assms(2) n in \<open>simp add: verify_succession_def\<close>)
qed

definition demo_archival :: jval where
  "demo_archival = demo_method ''s'' SLH_DSA_SHA2_128S [0x03]"

definition demo_archival_pair :: "(byte list, byte list) keypair" where
  "demo_archival_pair = \<lparr>kp_suite_id = alg_id SLH_DSA_SHA2_128S, kp_private = [0x03], kp_public = [0x03]\<rparr>"

lemma demo_archival_fields:
  "is_obj demo_archival" "truthy demo_archival" "j_get demo_archival ''id'' = J_Str ''did:web:x#s''"
  "j_get demo_archival ''publicKeyMultibase'' = J_Str (public_key_to_multibase (\<lambda>s raw. raw) SLH_DSA_SHA2_128S [0x03])"
  "decode_verification_method_key demo_crypto demo_archival = Some (SLH_DSA_SHA2_128S, [0x03])"
  by (simp_all add: demo_archival_def decode_verification_method_key_def demo_method_def dict_get_def demo_key)

theorem countersigned_statement_verifies_witness:
  "\<exists>s'. archival_countersign demo_signer demo_world demo_statement demo_archival_pair ''archival'' demo_archival = Inr s' \<and>
    sr_ok (verify_succession demo_world None HYBRID_REQUIRED True
      (Some (public_key_to_multibase (\<lambda>s raw. raw) SLH_DSA_SHA2_128S [0x03]))
      (Some (chain_resolver [demo_statement] (Some demo_resolver))) s')"
proof -
  have r: "resolve_kid ''archival'' demo_archival = Some ''s''"
    by (simp add: resolve_kid_default [OF demo_archival_fields(3) _ demo_archival_fields(1)] verification_method_kid_def)
  obtain payload where p: "signable_payload demo_world demo_statement = Some payload"
    by (simp add: signable_payload_def demo_world_def)
  have "\<exists>s'. archival_countersign demo_signer demo_world demo_statement demo_archival_pair ''archival'' demo_archival = Inr s'"
    by (simp add: archival_countersign_def demo_archival_pair_def p r demo_archival_fields(2) demo_signer_def del: alg_id.simps)
  then obtain s' where s': "archival_countersign demo_signer demo_world demo_statement demo_archival_pair ''archival'' demo_archival = Inr s'"
    by blast
  have k: "signs_for demo_signer demo_world demo_archival_pair SLH_DSA_SHA2_128S" "kp_public demo_archival_pair = [0x03]"
    by (simp_all add: demo_archival_pair_def demo_signs del: alg_id.simps)
  have "sr_ok (verify_succession demo_world None HYBRID_REQUIRED True
      (Some (public_key_to_multibase (\<lambda>s raw. raw) SLH_DSA_SHA2_128S [0x03]))
      (Some (chain_resolver [demo_statement] (Some demo_resolver))) s')"
    by (rule countersigned_statement_verifies [OF s' demo_verified, of demo_archival "''did:web:x#s''"])
      (simp_all add: demo_archival_fields k verification_method_kid_def)
  with s' show ?thesis by blast
qed

subsection \<open>Dictionary form\<close>

text \<open>
  \<open>to_dict\<close> copies every list and dictionary. \<open>None\<close> where a field is not of its declared type (a
  list of dictionaries, a dictionary or nothing); Python raises for most such values.
\<close>

definition dicts_of :: "jval \<Rightarrow> jval option" where
  "dicts_of v = (case v of J_List l \<Rightarrow> if list_all is_obj l then Some (J_List l) else None | _ \<Rightarrow> None)"

definition dict_or_none :: "jval \<Rightarrow> jval option" where
  "dict_or_none v = (if \<not> truthy v then Some J_Null else if is_obj v then Some v else None)"

definition to_dict :: "statement \<Rightarrow> (string, jval) dict option" where
  "to_dict s =
     (case (dicts_of (st_predecessor_methods s), dicts_of (st_successor_methods s),
            dicts_of (st_predecessor_signatures s), dicts_of (st_successor_signatures s),
            dict_or_none (st_archival_signature s), dict_or_none (st_archival_method s)) of
        (Some pm, Some sm, Some ps, Some ss, Some asig, Some am) \<Rightarrow>
          Some [(''predecessor_did'', st_predecessor_did s), (''successor_did'', st_successor_did s),
                (''effective_from'', st_effective_from s), (''reason'', st_reason s),
                (''predecessor_verification_methods'', pm), (''successor_verification_methods'', sm),
                (''predecessor_signatures'', ps), (''successor_signatures'', ss),
                (''archival_signature'', asig), (''archival_verification_method'', am),
                (''statement_id'', st_statement_id s), (''created_at'', st_created_at s)]
      | _ \<Rightarrow> None)"

text \<open>\<open>data.get(key, default)\<close>, \<open>list(data.get(key) or [])\<close> and \<open>data.get(key) or None\<close>.\<close>

definition get_default :: "(string, jval) dict \<Rightarrow> string \<Rightarrow> jval \<Rightarrow> jval" where
  "get_default d k v = (case dict_get d k of None \<Rightarrow> v | Some x \<Rightarrow> x)"

definition list_field :: "(string, jval) dict \<Rightarrow> string \<Rightarrow> jval option" where
  "list_field d k =
     (let v = get_default d k J_Null in if truthy v then map_option J_List (py_list v) else Some (J_List []))"

definition or_none :: "(string, jval) dict \<Rightarrow> string \<Rightarrow> jval" where
  "or_none d k = (let v = get_default d k J_Null in if truthy v then v else J_Null)"

definition from_dict :: "(string, jval) dict \<Rightarrow> statement option" where
  "from_dict d =
     (case (dict_get d ''predecessor_did'', dict_get d ''successor_did'', dict_get d ''effective_from'',
            list_field d ''predecessor_verification_methods'', list_field d ''successor_verification_methods'',
            list_field d ''predecessor_signatures'', list_field d ''successor_signatures'') of
        (Some pd, Some sd, Some ef, Some pm, Some sm, Some ps, Some ss) \<Rightarrow>
          Some \<lparr>st_predecessor_did = pd, st_successor_did = sd, st_effective_from = ef,
                st_reason = get_default d ''reason'' (J_Str []),
                st_predecessor_methods = pm, st_successor_methods = sm,
                st_predecessor_signatures = ps, st_successor_signatures = ss,
                st_archival_signature = or_none d ''archival_signature'',
                st_archival_method = or_none d ''archival_verification_method'',
                st_statement_id = get_default d ''statement_id'' (J_Str []),
                st_created_at = get_default d ''created_at'' (J_Str [])\<rparr>
      | _ \<Rightarrow> None)"

lemma dicts_of_Some: "dicts_of v = Some u \<Longrightarrow> \<exists>l. v = J_List l \<and> u = v"
  by (auto simp: dicts_of_def split: jval.splits if_splits)

lemma dict_or_none_Some: "dict_or_none v = Some u \<Longrightarrow> u = (if truthy v then v else J_Null)"
  by (auto simp: dict_or_none_def split: if_splits)

lemma list_field_of: "get_default d k J_Null = J_List l \<Longrightarrow> list_field d k = Some (J_List l)"
  by (simp add: list_field_def)

lemma verify_archival_cong:
  assumes "\<And>payload. archival_result w payload (s\<lparr>st_archival_signature := x, st_archival_method := y\<rparr>) req trusted =
    archival_result w payload s req trusted"
  shows "verify_succession w pp sp req trusted resolve (s\<lparr>st_archival_signature := x, st_archival_method := y\<rparr>) =
    verify_succession w pp sp req trusted resolve s"
  by (simp add: verify_succession_def archival_leaves_payload compute_statement_id_def assms Let_def cong: option.case_cong)

text \<open>
  What is archived can be read back and still means the same: the dictionary form of a statement
  reads back to a statement with every field as it was, except that an empty archival field becomes
  none, and it verifies exactly as the original does, in every component of the result.
\<close>

theorem archived_statement_verifies_the_same:
  assumes "to_dict s = Some d"
  shows "\<exists>s'. from_dict d = Some s' \<and> to_dict s' = Some d \<and>
     verify_succession w pp sp req trusted resolve s' = verify_succession w pp sp req trusted resolve s"
proof -
  let ?n = "\<lambda>v. if truthy v then v else J_Null"
  let ?s = "s\<lparr>st_archival_signature := ?n (st_archival_signature s), st_archival_method := ?n (st_archival_method s)\<rparr>"
  from assms obtain pm sm ps ss asig am where
    o: "dicts_of (st_predecessor_methods s) = Some pm" "dicts_of (st_successor_methods s) = Some sm"
      "dicts_of (st_predecessor_signatures s) = Some ps" "dicts_of (st_successor_signatures s) = Some ss"
      "dict_or_none (st_archival_signature s) = Some asig" "dict_or_none (st_archival_method s) = Some am"
    by (auto simp: to_dict_def split: option.splits)
  from dicts_of_Some [OF o(1)] dicts_of_Some [OF o(2)] dicts_of_Some [OF o(3)] dicts_of_Some [OF o(4)]
  obtain a b c e where l: "st_predecessor_methods s = J_List a" "st_successor_methods s = J_List b"
    "st_predecessor_signatures s = J_List c" "st_successor_signatures s = J_List e"
    "pm = J_List a" "sm = J_List b" "ps = J_List c" "ss = J_List e" by blast
  note n = dict_or_none_Some [OF o(5)] dict_or_none_Some [OF o(6)]
  have d: "d = [(''predecessor_did'', st_predecessor_did s), (''successor_did'', st_successor_did s),
                (''effective_from'', st_effective_from s), (''reason'', st_reason s),
                (''predecessor_verification_methods'', J_List a), (''successor_verification_methods'', J_List b),
                (''predecessor_signatures'', J_List c), (''successor_signatures'', J_List e),
                (''archival_signature'', ?n (st_archival_signature s)),
                (''archival_verification_method'', ?n (st_archival_method s)),
                (''statement_id'', st_statement_id s), (''created_at'', st_created_at s)]"
    using assms o l by (simp add: to_dict_def n)
  have g: "list_field d ''predecessor_verification_methods'' = Some (J_List a)"
    "list_field d ''successor_verification_methods'' = Some (J_List b)"
    "list_field d ''predecessor_signatures'' = Some (J_List c)"
    "list_field d ''successor_signatures'' = Some (J_List e)"
    by (rule list_field_of, simp add: d get_default_def dict_get_def)+
  have "from_dict d = Some ?s"
    by (simp add: from_dict_def g) (simp add: d get_default_def or_none_def dict_get_def l)
  moreover have "to_dict ?s = Some d"
    using o by (simp add: to_dict_def d l) (simp add: dict_or_none_def split: if_splits)
  moreover have "verify_succession w pp sp req trusted resolve ?s = verify_succession w pp sp req trusted resolve s"
    by (rule verify_archival_cong) (simp add: archival_result_def Let_def cong: option.case_cong)
  ultimately show ?thesis by blast
qed

theorem archived_statement_verifies_the_same_witness:
  "\<exists>d s'. to_dict demo_statement = Some d \<and> from_dict d = Some s' \<and>
     sr_ok (verify_succession demo_world None HYBRID_REQUIRED False None
       (Some (chain_resolver [demo_statement] (Some demo_resolver))) s')"
proof -
  have "\<exists>d. to_dict demo_statement = Some d"
    by (simp add: to_dict_def demo_statement_def dicts_of_def dict_or_none_def demo_root_methods_def demo_methods_def
      demo_method_def demo_entry_def demo_signatures_def)
  then obtain d where d: "to_dict demo_statement = Some d" by blast
  from archived_statement_verifies_the_same [OF d] demo_verified show ?thesis using d by metis
qed

end
