(* ===== verification/Retention.thy ===== *)
theory Retention
  imports Prelude "HOL-Library.Multiset"
begin

text \<open>
  Model of \<open>kestrel_sovereign/storage/sync/retention.py\<close>: which backups of a class are kept. A
  timestamp is its local time in microseconds since 0001-01-01 with its offset from UTC; the calendar
  is the proleptic Gregorian one of \<open>datetime\<close>. Ages are compared exactly; the code divides by 86400
  in doubles, which resolve a microsecond for ages of up to two centuries. Object identity is the
  field \<open>it_id\<close>.
\<close>

subsection \<open>Dates\<close>

definition DAY :: int where "DAY = 86400000000"

record timestamp =
  ts_wall :: int
  ts_offset :: "int option"

definition normalize_ts :: "timestamp \<Rightarrow> timestamp" where
  "normalize_ts t =
     (case ts_offset t of
        None \<Rightarrow> t\<lparr>ts_offset := Some 0\<rparr>
      | Some d \<Rightarrow> \<lparr>ts_wall = ts_wall t - d, ts_offset = Some 0\<rparr>)"

text \<open>The instant, by which \<open>datetime\<close> orders timestamps with an offset.\<close>

definition instant :: "timestamp \<Rightarrow> int" where
  "instant t = ts_wall (normalize_ts t)"

definition leap :: "int \<Rightarrow> bool" where
  "leap y \<longleftrightarrow> y mod 4 = 0 \<and> (y mod 100 \<noteq> 0 \<or> y mod 400 = 0)"

fun month_day :: "int list \<Rightarrow> int \<Rightarrow> int \<Rightarrow> int \<times> int" where
  "month_day [] m n = (m, n + 1)"
| "month_day (len # lens) m n = (if n < len then (m, n + 1) else month_day lens (m + 1) (n - len))"

definition civil :: "int \<Rightarrow> int \<times> int \<times> int" where
  "civil d =
     (let n400 = d div 146097; n = d mod 146097;
          n100 = n div 36524; n = n mod 36524;
          n4 = n div 1461; n = n mod 1461;
          n1 = n div 365; n = n mod 365;
          year = n400 * 400 + n100 * 100 + n4 * 4 + n1 + 1
      in if n1 = 4 \<or> n100 = 4 then (year - 1, 12, 31)
         else (let (m, day) = month_day [31, if leap year then 29 else 28, 31, 30, 31, 30, 31, 31, 30, 31, 30, 31] 1 n
           in (year, m, day)))"

definition day_of :: "timestamp \<Rightarrow> int" where
  "day_of t = ts_wall t div DAY"

definition year_month :: "timestamp \<Rightarrow> int \<times> int" where
  "year_month t = (let (y, m, d) = civil (day_of t) in (y, m))"

definition days_before_year :: "int \<Rightarrow> int" where
  "days_before_year y = (y - 1) * 365 + (y - 1) div 4 - (y - 1) div 100 + (y - 1) div 400"

text \<open>The Monday of ISO week 1; day 0 is a Monday.\<close>

definition isoweek1monday :: "int \<Rightarrow> int" where
  "isoweek1monday y =
     (let firstday = days_before_year y; firstweekday = firstday mod 7; monday = firstday - firstweekday
      in if firstweekday > 3 then monday + 7 else monday)"

definition iso_week :: "timestamp \<Rightarrow> int \<times> int" where
  "iso_week t =
     (let today = day_of t; year = fst (civil today); week = (today - isoweek1monday year) div 7
      in if week < 0 then (year - 1, (today - isoweek1monday (year - 1)) div 7 + 1)
         else if week \<ge> 52 \<and> today \<ge> isoweek1monday (year + 1) then (year + 1, 1)
         else (year, week + 1))"

subsection \<open>Policies and items\<close>

datatype data_class = WORKING_MEMORY | IDENTITY

record class_policy =
  keep_all_days :: int
  weekly_until_months :: "int option"
  weekly_forever :: bool
  monthly_forever :: bool
  weekly_until_weeks :: "int option"
  monthly_until_months :: "int option"

definition bounded :: "class_policy \<Rightarrow> bool" where
  "bounded p \<longleftrightarrow> \<not> (weekly_forever p \<or> monthly_forever p)"

fun DEFAULT_RETENTION_POLICY :: "data_class \<Rightarrow> class_policy" where
  "DEFAULT_RETENTION_POLICY WORKING_MEMORY =
     \<lparr>keep_all_days = 7, weekly_until_months = None, weekly_forever = False, monthly_forever = False,
      weekly_until_weeks = Some 8, monthly_until_months = Some 12\<rparr>"
| "DEFAULT_RETENTION_POLICY IDENTITY =
     \<lparr>keep_all_days = 30, weekly_until_months = Some 12, weekly_forever = False, monthly_forever = True,
      weekly_until_weeks = None, monthly_until_months = None\<rparr>"

record item =
  it_id :: nat
  it_key :: string
  it_time :: timestamp
  it_class :: data_class

text \<open>\<open>RetentionItem(...)\<close>: a timestamp without offset is taken as UTC.\<close>

definition make_item :: "nat \<Rightarrow> string \<Rightarrow> timestamp \<Rightarrow> data_class \<Rightarrow> item" where
  "make_item i key t c =
     \<lparr>it_id = i, it_key = key,
      it_time = (if ts_offset t = None then t\<lparr>ts_offset := Some 0\<rparr> else t), it_class = c\<rparr>"

datatype retention_reason = Newest | Keep_All_Window | Weekly_Thinned | Monthly_Thinned | Expired | Weekly | Monthly

record decision =
  de_item :: item
  de_keep :: bool
  de_reason :: retention_reason

definition months_between :: "timestamp \<Rightarrow> timestamp \<Rightarrow> int" where
  "months_between older newer =
     (let (y0, m0, d0) = civil (day_of older); (y1, m1, d1) = civil (day_of newer);
          months = (y1 - y0) * 12 + (m1 - m0)
      in max (if d1 < d0 then months - 1 else months) 0)"

definition uses_weekly :: "class_policy \<Rightarrow> timestamp \<Rightarrow> timestamp \<Rightarrow> bool" where
  "uses_weekly p t now \<longleftrightarrow>
     weekly_forever p \<or>
     (case weekly_until_weeks p of None \<Rightarrow> False | Some w \<Rightarrow> instant now - instant t < w * 7 * DAY) \<or>
     (case weekly_until_months p of None \<Rightarrow> False | Some m \<Rightarrow> months_between (normalize_ts t) now < m)"

definition uses_monthly :: "class_policy \<Rightarrow> timestamp \<Rightarrow> timestamp \<Rightarrow> bool" where
  "uses_monthly p t now \<longleftrightarrow>
     monthly_forever p \<or>
     (case monthly_until_months p of None \<Rightarrow> False | Some m \<Rightarrow> months_between (normalize_ts t) now < m)"

subsection \<open>Decisions\<close>

record buckets =
  bu_weekly :: "(int \<times> int, item) dict"
  bu_monthly :: "(int \<times> int, item) dict"
  bu_initial :: "(string, decision) dict"

definition decided :: "item \<Rightarrow> bool \<Rightarrow> retention_reason \<Rightarrow> buckets \<Rightarrow> buckets" where
  "decided x keep reason b =
     b\<lparr>bu_initial := dict_put (it_key x) \<lparr>de_item = x, de_keep = keep, de_reason = reason\<rparr> (bu_initial b)\<rparr>"

definition reserve_periodic_bucket :: "class_policy \<Rightarrow> timestamp \<Rightarrow> item \<Rightarrow> buckets \<Rightarrow> buckets" where
  "reserve_periodic_bucket p now x b =
     (if uses_weekly p (it_time x) now
      then b\<lparr>bu_weekly := dict_put (iso_week (it_time x)) x (bu_weekly b)\<rparr>
      else if uses_monthly p (it_time x) now
      then b\<lparr>bu_monthly := dict_put (year_month (it_time x)) x (bu_monthly b)\<rparr>
      else b)"

definition put_if_newer :: "(int \<times> int) \<Rightarrow> item \<Rightarrow> (int \<times> int, item) dict \<Rightarrow> (int \<times> int, item) dict" where
  "put_if_newer bucket x d =
     (case dict_get d bucket of
        None \<Rightarrow> dict_put bucket x d
      | Some current \<Rightarrow> if instant (it_time x) > instant (it_time current) then dict_put bucket x d else d)"

definition recent :: "class_policy \<Rightarrow> timestamp \<Rightarrow> item \<Rightarrow> bool" where
  "recent p now x \<longleftrightarrow> instant now - instant (it_time x) < keep_all_days p * DAY"

definition decide_item :: "class_policy \<Rightarrow> timestamp \<Rightarrow> item option \<Rightarrow> item \<Rightarrow> buckets \<Rightarrow> buckets" where
  "decide_item p now newest x b =
     (if newest = Some x
      then (let b = decided x True Newest b in
        if \<not> recent p now x then reserve_periodic_bucket p now x b else b)
      else if recent p now x then decided x True Keep_All_Window b
      else if uses_weekly p (it_time x) now
      then decided x False Weekly_Thinned
        (b\<lparr>bu_weekly := put_if_newer (iso_week (it_time x)) x (bu_weekly b)\<rparr>)
      else if uses_monthly p (it_time x) now
      then decided x False Monthly_Thinned
        (b\<lparr>bu_monthly := put_if_newer (year_month (it_time x)) x (bu_monthly b)\<rparr>)
      else decided x False Expired b)"

text \<open>\<open>max\<close> returns the first of equal elements; \<open>sorted(..., reverse=True)\<close> keeps their order.\<close>

fun first_max :: "(item \<Rightarrow> int) \<Rightarrow> item list \<Rightarrow> item option" where
  "first_max f [] = None"
| "first_max f (x # xs) =
     (case first_max f xs of None \<Rightarrow> Some x | Some y \<Rightarrow> if f y > f x then Some y else Some x)"

definition item_instant :: "item \<Rightarrow> int" where
  "item_instant x = instant (it_time x)"

definition newest_first :: "item list \<Rightarrow> item list" where
  "newest_first xs = sort_key (\<lambda>x. - item_instant x) xs"

definition keep_values :: "retention_reason \<Rightarrow> item list \<Rightarrow> (string, decision) dict \<Rightarrow> (string, decision) dict" where
  "keep_values reason xs d =
     foldl (\<lambda>d x. dict_put (it_key x) \<lparr>de_item = x, de_keep = True, de_reason = reason\<rparr> d) d xs"

definition decide_class :: "class_policy \<Rightarrow> timestamp \<Rightarrow> item list \<Rightarrow> decision list" where
  "decide_class p now class_items =
     (let newest = first_max item_instant class_items;
          b = foldl (\<lambda>b x. decide_item p now newest x b)
                \<lparr>bu_weekly = [], bu_monthly = [], bu_initial = []\<rparr> (newest_first class_items)
      in map snd (keep_values Monthly (map snd (bu_monthly b))
           (keep_values Weekly (map snd (bu_weekly b)) (bu_initial b))))"

text \<open>The classes in the order of their first items.\<close>

definition classes_of :: "item list \<Rightarrow> data_class list" where
  "classes_of items = rev (remdups (rev (map it_class items)))"

definition decide :: "(data_class \<Rightarrow> class_policy option) \<Rightarrow> item list \<Rightarrow> timestamp \<Rightarrow> decision list" where
  "decide policies items now =
     (let now = normalize_ts now;
          decisions = concat (map (\<lambda>c.
            decide_class (case policies c of Some p \<Rightarrow> p | None \<Rightarrow> DEFAULT_RETENTION_POLICY c) now
              (filter (\<lambda>x. it_class x = c) items)) (classes_of items))
      in sort_key (\<lambda>d. - item_instant (de_item d)) decisions)"

definition deletions :: "(data_class \<Rightarrow> class_policy option) \<Rightarrow> item list \<Rightarrow> timestamp \<Rightarrow> item list" where
  "deletions policies items now = map de_item (filter (\<lambda>d. \<not> de_keep d) (decide policies items now))"

subsection \<open>The order of a class\<close>

lemma hd_insort: "hd (insort_key f x ys) = (if ys = [] \<or> f x \<le> f (hd ys) then x else hd ys)"
  by (cases ys) auto

lemma first_max_hd:
  "first_max item_instant xs = (if xs = [] then None else Some (hd (newest_first xs)))"
proof (induction xs)
  case (Cons x xs)
  have e: "newest_first (x # xs) = insort_key (\<lambda>x. - item_instant x) x (newest_first xs)"
    by (simp add: newest_first_def)
  have "newest_first xs = [] \<longleftrightarrow> xs = []" by (metis length_0_conv length_sort newest_first_def)
  with Cons show ?case by (auto simp: e hd_insort)
qed simp

lemma newest_first_facts [simp]:
  "set (newest_first xs) = set xs" "length (newest_first xs) = length xs"
  "distinct (map f (newest_first xs)) = distinct (map f xs)"
proof -
  show "set (newest_first xs) = set xs" "length (newest_first xs) = length xs" by (simp_all add: newest_first_def)
  have "mset (map f (newest_first xs)) = mset (map f xs)" by (simp add: newest_first_def)
  then show "distinct (map f (newest_first xs)) = distinct (map f xs)"
    by (metis mset_eq_imp_distinct_iff)
qed

lemma newest_first_sorted: "sorted (map (\<lambda>x. - item_instant x) (newest_first xs))"
  by (simp add: newest_first_def)

subsection \<open>What one pass leaves\<close>

text \<open>The bucket of an item that only periodic retention can keep.\<close>

definition slot :: "class_policy \<Rightarrow> timestamp \<Rightarrow> item \<Rightarrow> ((int \<times> int) + (int \<times> int)) option" where
  "slot p now x =
     (if recent p now x then None
      else if uses_weekly p (it_time x) now then Some (Inl (iso_week (it_time x)))
      else if uses_monthly p (it_time x) now then Some (Inr (year_month (it_time x)))
      else None)"

definition holder :: "class_policy \<Rightarrow> timestamp \<Rightarrow> item list \<Rightarrow> (int \<times> int) + (int \<times> int) \<Rightarrow> item option" where
  "holder p now xs k = find (\<lambda>x. slot p now x = Some k) xs"

lemma holder_Nil [simp]: "holder p now [] k = None"
  by (simp add: holder_def)

lemma holder_snoc: "holder p now (xs @ [x]) k =
    (case holder p now xs k of Some y \<Rightarrow> Some y | None \<Rightarrow> if slot p now x = Some k then Some x else None)"
  by (induction xs) (auto simp: holder_def)

lemma holder_mem: "holder p now xs k = Some x \<Longrightarrow> x \<in> set xs \<and> slot p now x = Some k"
  by (auto simp: holder_def find_Some_iff)

definition pass_inv :: "class_policy \<Rightarrow> timestamp \<Rightarrow> item option \<Rightarrow> item list \<Rightarrow> buckets \<Rightarrow> bool" where
  "pass_inv p now newest xs b \<longleftrightarrow>
     dict_wf (bu_weekly b) \<and> dict_wf (bu_monthly b) \<and> dict_wf (bu_initial b) \<and>
     (\<forall>k. dict_get (bu_weekly b) k = holder p now xs (Inl k)) \<and>
     (\<forall>k. dict_get (bu_monthly b) k = holder p now xs (Inr k)) \<and>
     fst ` set (bu_initial b) = it_key ` set xs \<and>
     (\<forall>x \<in> set xs. \<exists>reason. dict_get (bu_initial b) (it_key x) =
        Some \<lparr>de_item = x, de_keep = (newest = Some x \<or> recent p now x), de_reason = reason\<rparr>)"

lemma put_if_newer_same:
  assumes "\<And>y. dict_get d k = Some y \<Longrightarrow> item_instant x \<le> item_instant y"
  shows "put_if_newer k x d = (case dict_get d k of None \<Rightarrow> dict_put k x d | Some y \<Rightarrow> d)"
  using assms by (force simp: put_if_newer_def item_instant_def split: option.splits)

lemma put_if_newer_wf: "dict_wf d \<Longrightarrow> dict_wf (put_if_newer k x d)"
  by (auto simp: put_if_newer_def split: option.splits)

lemma decided_initial:
  assumes "fst ` set (bu_initial b) = it_key ` set xs" and "dict_wf (bu_initial b)"
    and "\<forall>y \<in> set xs. \<exists>reason. dict_get (bu_initial b) (it_key y) =
        Some \<lparr>de_item = y, de_keep = K y, de_reason = reason\<rparr>"
    and "it_key x \<notin> it_key ` set xs"
  shows "fst ` set (bu_initial (decided x (K x) r b)) = it_key ` set (xs @ [x])"
    and "dict_wf (bu_initial (decided x (K x) r b))"
    and "\<forall>y \<in> set (xs @ [x]). \<exists>reason. dict_get (bu_initial (decided x (K x) r b)) (it_key y) =
        Some \<lparr>de_item = y, de_keep = K y, de_reason = reason\<rparr>"
proof -
  have other: "it_key y \<noteq> it_key x" if "y \<in> set xs" for y using assms(4) that by (metis imageI)
  show "fst ` set (bu_initial (decided x (K x) r b)) = it_key ` set (xs @ [x])"
    using assms(1) by (simp add: decided_def keys_dict_put)
  show "dict_wf (bu_initial (decided x (K x) r b))" using assms(2) by (simp add: decided_def dict_wf_put)
  show "\<forall>y \<in> set (xs @ [x]). \<exists>reason. dict_get (bu_initial (decided x (K x) r b)) (it_key y) =
        Some \<lparr>de_item = y, de_keep = K y, de_reason = reason\<rparr>"
    using assms(3) other by (auto simp: decided_def)
qed

text \<open>One item, after all the newer ones.\<close>

lemma pass_step:
  assumes inv: "pass_inv p now newest xs b" and fresh: "it_key x \<notin> it_key ` set xs"
    and older: "\<forall>y \<in> set xs. item_instant x \<le> item_instant y"
    and newest: "newest = Some x \<Longrightarrow> xs = []"
  shows "pass_inv p now newest (xs @ [x]) (decide_item p now newest x b)"
proof -
  let ?K = "\<lambda>y. newest = Some y \<or> recent p now y"
  have w: "dict_get (bu_weekly b) k = holder p now xs (Inl k)" and m: "dict_get (bu_monthly b) k = holder p now xs (Inr k)" for k
    using inv unfolding pass_inv_def by blast+
  have wf: "dict_wf (bu_weekly b)" "dict_wf (bu_monthly b)" using inv by (simp_all add: pass_inv_def)
  have "put_if_newer k x (bu_weekly b) = (case holder p now xs (Inl k) of None \<Rightarrow> dict_put k x (bu_weekly b) | Some y \<Rightarrow> bu_weekly b)" for k
    unfolding w [symmetric] by (rule put_if_newer_same) (use older holder_mem w in metis)
  moreover have "put_if_newer k x (bu_monthly b) = (case holder p now xs (Inr k) of None \<Rightarrow> dict_put k x (bu_monthly b) | Some y \<Rightarrow> bu_monthly b)" for k
    unfolding m [symmetric] by (rule put_if_newer_same) (use older holder_mem m in metis)
  ultimately have buckets:
    "dict_get (bu_weekly (decide_item p now newest x b)) k = holder p now (xs @ [x]) (Inl k)"
    "dict_get (bu_monthly (decide_item p now newest x b)) k = holder p now (xs @ [x]) (Inr k)" for k
    using newest w m
    by (auto simp: decide_item_def decided_def reserve_periodic_bucket_def holder_snoc slot_def Let_def split: option.splits)
  have wf': "dict_wf (bu_weekly (decide_item p now newest x b))" "dict_wf (bu_monthly (decide_item p now newest x b))"
    using wf by (auto simp: decide_item_def decided_def reserve_periodic_bucket_def Let_def put_if_newer_wf dict_wf_put)
  have "\<exists>r. bu_initial (decide_item p now newest x b) = bu_initial (decided x (?K x) r b)"
    by (auto simp: decide_item_def decided_def reserve_periodic_bucket_def Let_def)
  then obtain r where r: "bu_initial (decide_item p now newest x b) = bu_initial (decided x (?K x) r b)" by blast
  have init: "fst ` set (bu_initial b) = it_key ` set xs" "dict_wf (bu_initial b)"
    "\<forall>y \<in> set xs. \<exists>reason. dict_get (bu_initial b) (it_key y) =
        Some \<lparr>de_item = y, de_keep = ?K y, de_reason = reason\<rparr>"
    using inv by (simp_all add: pass_inv_def)
  note d = decided_initial [of b xs ?K x r, OF init fresh]
  show ?thesis unfolding pass_inv_def r using buckets wf' d by blast
qed

lemma pass_all:
  assumes "distinct (map it_key (ps @ xs))" and "sorted (map (\<lambda>x. - item_instant x) (ps @ xs))"
    and "pass_inv p now newest ps b" and "\<forall>x. newest = Some x \<longrightarrow> (ps @ xs \<noteq> [] \<longrightarrow> x = hd (ps @ xs))"
  shows "pass_inv p now newest (ps @ xs) (foldl (\<lambda>b x. decide_item p now newest x b) b xs)"
  using assms
proof (induction xs arbitrary: ps b)
  case (Cons x xs)
  have fresh: "it_key x \<notin> it_key ` set ps" using Cons.prems(1) by auto
  have older: "\<forall>y \<in> set ps. item_instant x \<le> item_instant y" using Cons.prems(2) by (auto simp: sorted_append)
  have newest: "newest = Some x \<Longrightarrow> ps = []"
  proof (rule ccontr)
    assume "newest = Some x" and "ps \<noteq> []"
    then have "x = hd ps" using Cons.prems(4) by simp
    with fresh \<open>ps \<noteq> []\<close> show False by simp
  qed
  have "pass_inv p now newest ((ps @ [x]) @ xs)
      (foldl (\<lambda>b x. decide_item p now newest x b) (decide_item p now newest x b) xs)"
    by (rule Cons.IH) (use Cons.prems pass_step [OF Cons.prems(3) fresh older newest] in simp_all)
  then show ?case by simp
qed simp

lemma keep_values_get:
  assumes "inj_on it_key (set xs)"
  shows "dict_get (keep_values r xs d) k =
    (if k \<in> it_key ` set xs
     then Some \<lparr>de_item = the_inv_into (set xs) it_key k, de_keep = True, de_reason = r\<rparr>
     else dict_get d k)"
  using assms
proof (induction xs rule: rev_induct)
  case (snoc x xs)
  have e: "keep_values r (xs @ [x]) d = dict_put (it_key x) \<lparr>de_item = x, de_keep = True, de_reason = r\<rparr> (keep_values r xs d)"
    by (simp add: keep_values_def)
  have i: "inj_on it_key (set xs)" using snoc.prems by (simp add: inj_on_insert)
  show ?case
  proof (cases "k = it_key x")
    case True
    have "the_inv_into (set (xs @ [x])) it_key (it_key x) = x" by (rule the_inv_into_f_f [OF snoc.prems]) simp
    with True show ?thesis by (simp add: e)
  next
    case False
    have "the_inv_into (set xs) it_key k = the_inv_into (set (xs @ [x])) it_key k" if "k \<in> it_key ` set xs"
    proof -
      from that obtain y where y: "y \<in> set xs" "k = it_key y" by blast
      have "the_inv_into (set (xs @ [x])) it_key (it_key y) = y"
        by (rule the_inv_into_f_f [OF snoc.prems]) (use y in simp)
      with y the_inv_into_f_f [OF i y(1)] show ?thesis by simp
    qed
    with False snoc.IH [OF i] show ?thesis by (auto simp: e)
  qed
qed (simp add: keep_values_def)

lemma keep_values_wf: "dict_wf d \<Longrightarrow> dict_wf (keep_values r xs d)"
  unfolding keep_values_def by (induction xs arbitrary: d) (simp_all add: dict_wf_put)

lemma keep_values_keys: "fst ` set (keep_values r xs d) = it_key ` set xs \<union> fst ` set d"
  unfolding keep_values_def by (induction xs arbitrary: d) (auto simp: keys_dict_put)

text \<open>The decision of a class on one of its items: the newest item, a recent one or the holder of its bucket.\<close>

definition kept :: "class_policy \<Rightarrow> timestamp \<Rightarrow> item list \<Rightarrow> item \<Rightarrow> bool" where
  "kept p now xs x \<longleftrightarrow>
     x = hd xs \<or> recent p now x \<or> (\<exists>k. slot p now x = Some k \<and> holder p now xs k = Some x)"

lemma dict_values: "dict_wf d \<Longrightarrow> v \<in> set (map snd d) \<longleftrightarrow> (\<exists>k. dict_get d k = Some v)"
  using dict_get_iff by force

lemma decide_class_exact:
  assumes keys: "distinct (map it_key items)"
  defines "xs \<equiv> newest_first items"
  shows "(\<exists>d \<in> set (decide_class p now items). de_item d = x \<and> de_keep d = keep) \<longleftrightarrow>
    x \<in> set items \<and> keep = kept p now xs x"
proof -
  let ?newest = "first_max item_instant items"
  define b where "b = foldl (\<lambda>b x. decide_item p now ?newest x b) \<lparr>bu_weekly = [], bu_monthly = [], bu_initial = []\<rparr> xs"
  have "pass_inv p now ?newest ([] @ xs) b"
    unfolding b_def
  proof (rule pass_all)
    show "\<forall>x. ?newest = Some x \<longrightarrow> [] @ xs \<noteq> [] \<longrightarrow> x = hd ([] @ xs)"
      by (auto simp: first_max_hd xs_def split: if_splits)
  qed (use keys newest_first_sorted in \<open>simp_all add: xs_def pass_inv_def\<close>)
  then have inv: "pass_inv p now ?newest xs b" by simp
  have S: "set xs = set items" by (simp add: xs_def)
  have inj: "inj_on it_key (set xs)" using keys by (simp add: S distinct_map)
  let ?wk = "map snd (bu_weekly b)" and ?mo = "map snd (bu_monthly b)"
  have wk: "y \<in> set ?wk \<longleftrightarrow> (\<exists>k. holder p now xs (Inl k) = Some y)" for y
    using inv dict_values [of "bu_weekly b" y] unfolding pass_inv_def by metis
  have mo: "y \<in> set ?mo \<longleftrightarrow> (\<exists>k. holder p now xs (Inr k) = Some y)" for y
    using inv dict_values [of "bu_monthly b" y] unfolding pass_inv_def by metis
  have sub: "set ?wk \<subseteq> set xs" "set ?mo \<subseteq> set xs" using wk mo holder_mem by blast+
  define f where "f = keep_values Monthly ?mo (keep_values Weekly ?wk (bu_initial b))"
  have wf: "dict_wf f" unfolding f_def using inv by (intro keep_values_wf) (simp add: pass_inv_def)
  have keysf: "fst ` set f = it_key ` set xs"
    unfolding f_def keep_values_keys using inv sub by (auto simp: pass_inv_def)
  have get: "\<exists>reason. dict_get f (it_key y) = Some \<lparr>de_item = y, de_keep = kept p now xs y, de_reason = reason\<rparr>"
    if y: "y \<in> set xs" for y
  proof -
    have nw: "?newest = Some y \<longleftrightarrow> y = hd xs" using y by (auto simp: first_max_hd xs_def)
    have mem: "it_key y \<in> it_key ` A \<longleftrightarrow> y \<in> A" if "A \<subseteq> set xs" for A
      using that inj y by (auto simp: inj_on_def)
    have inv_y: "the_inv_into A it_key (it_key y) = y" if "A \<subseteq> set xs" "y \<in> A" for A
      using that inj by (meson inj_on_subset the_inv_into_f_f)
    have hold: "(\<exists>k. slot p now y = Some k \<and> holder p now xs k = Some y) \<longleftrightarrow> y \<in> set ?wk \<or> y \<in> set ?mo"
      unfolding wk mo using holder_mem by (metis sum.exhaust)
    have iw: "inj_on it_key (set ?wk)" and im: "inj_on it_key (set ?mo)" using inj sub inj_on_subset by blast+
    obtain reason where r: "dict_get (bu_initial b) (it_key y) =
        Some \<lparr>de_item = y, de_keep = (?newest = Some y \<or> recent p now y), de_reason = reason\<rparr>"
      using inv y unfolding pass_inv_def by blast
    show ?thesis
    proof (cases "y \<in> set ?mo")
      case True
      then show ?thesis using hold inv_y [OF sub(2)] mem [OF sub(2)]
        by (auto simp: f_def keep_values_get [OF im] kept_def)
    next
      case not_mo: False
      show ?thesis
      proof (cases "y \<in> set ?wk")
        case True
        then show ?thesis using hold not_mo inv_y [OF sub(1)] mem [OF sub(1)] mem [OF sub(2)]
          by (auto simp: f_def keep_values_get [OF im] keep_values_get [OF iw] kept_def)
      next
        case False
        then show ?thesis using hold not_mo r nw mem [OF sub(1)] mem [OF sub(2)]
          by (auto simp: f_def keep_values_get [OF im] keep_values_get [OF iw] kept_def)
      qed
    qed
  qed
  have "decide_class p now items = map snd f" by (simp add: decide_class_def f_def b_def xs_def Let_def)
  then have mem: "d \<in> set (decide_class p now items) \<longleftrightarrow> (\<exists>y \<in> set xs. dict_get f (it_key y) = Some d)" for d
    using dict_values [OF wf, of d] keysf dict_get_key [of f _ d] by (metis imageE imageI)
  show ?thesis
  proof
    assume "\<exists>d \<in> set (decide_class p now items). de_item d = x \<and> de_keep d = keep"
    then obtain d y where d: "de_item d = x" "de_keep d = keep" "y \<in> set xs" "dict_get f (it_key y) = Some d"
      unfolding Bex_def mem by blast
    from get [OF d(3)] d(4) have "de_item d = y" "de_keep d = kept p now xs y" by auto
    with d S show "x \<in> set items \<and> keep = kept p now xs x" by simp
  next
    assume x: "x \<in> set items \<and> keep = kept p now xs x"
    then have "x \<in> set xs" using S by simp
    with get [OF this] x show "\<exists>d \<in> set (decide_class p now items). de_item d = x \<and> de_keep d = keep"
      unfolding Bex_def mem by force
  qed
qed

subsection \<open>What is deleted\<close>

definition policy_of :: "(data_class \<Rightarrow> class_policy option) \<Rightarrow> data_class \<Rightarrow> class_policy" where
  "policy_of policies c = (case policies c of Some p \<Rightarrow> p | None \<Rightarrow> DEFAULT_RETENTION_POLICY c)"

lemma set_classes_of [simp]: "set (classes_of items) = it_class ` set items"
  by (simp add: classes_of_def)

lemma decide_members:
  "d \<in> set (decide policies items now) \<longleftrightarrow>
     (\<exists>c \<in> it_class ` set items. d \<in> set (decide_class (policy_of policies c) (normalize_ts now)
        (filter (\<lambda>x. it_class x = c) items)))"
  by (simp add: decide_def policy_of_def Let_def)

lemma class_keys:
  assumes "distinct (map (\<lambda>x. (it_class x, it_key x)) items)"
  shows "distinct (map it_key (filter (\<lambda>x. it_class x = c) items))"
  using assms by (induction items) (auto simp: image_iff)

lemma deleted_iff:
  assumes keys: "distinct (map (\<lambda>x. (it_class x, it_key x)) items)"
  shows "x \<in> set (deletions policies items now) \<longleftrightarrow> x \<in> set items \<and>
    \<not> kept (policy_of policies (it_class x)) (normalize_ts now)
       (newest_first (filter (\<lambda>y. it_class y = it_class x) items)) x"
proof -
  let ?D = "\<lambda>c. decide_class (policy_of policies c) (normalize_ts now) (filter (\<lambda>x. it_class x = c) items)"
  have "x \<in> set (deletions policies items now) \<longleftrightarrow>
      (\<exists>c \<in> it_class ` set items. \<exists>d \<in> set (?D c). de_item d = x \<and> de_keep d = False)"
    unfolding deletions_def by (auto simp: decide_members)
  also have "\<dots> \<longleftrightarrow> (\<exists>c \<in> it_class ` set items. x \<in> set items \<and> it_class x = c \<and>
      \<not> kept (policy_of policies c) (normalize_ts now) (newest_first (filter (\<lambda>y. it_class y = c) items)) x)"
    unfolding decide_class_exact [OF class_keys [OF keys]] by auto
  finally show ?thesis by auto
qed

lemma not_kept_index:
  assumes "x \<in> set xs" and "distinct xs"
  shows "\<not> kept p now xs x \<longleftrightarrow>
    (\<exists>i. 0 < i \<and> i < length xs \<and> xs ! i = x \<and> \<not> recent p now x \<and>
       (slot p now x = None \<or> (\<exists>j < i. slot p now (xs ! j) = slot p now x)))"
proof -
  from assms(1) obtain i where i: "i < length xs" "xs ! i = x" by (auto simp: in_set_conv_nth)
  have u: "j < length xs \<and> xs ! j = x \<longleftrightarrow> j = i" for j using i assms(2) nth_eq_iff_index_eq by blast
  have h: "x = hd xs \<longleftrightarrow> i = 0"
  proof -
    have "xs \<noteq> []" using assms(1) by auto
    then have "hd xs = xs ! 0" "0 < length xs" by (simp_all add: hd_conv_nth)
    with u [of 0] i show ?thesis by auto
  qed
  have "holder p now xs k = Some x \<longleftrightarrow> slot p now x = Some k \<and> (\<forall>j < i. slot p now (xs ! j) \<noteq> Some k)" for k
    unfolding holder_def find_Some_iff using u i by metis
  then have "\<not> kept p now xs x \<longleftrightarrow> 0 < i \<and> \<not> recent p now x \<and>
      (slot p now x = None \<or> (\<exists>j < i. slot p now (xs ! j) = slot p now x))"
    unfolding kept_def h by (cases "slot p now x") auto
  then show ?thesis using u i by metis
qed

lemma deletions_index:
  assumes "distinct (map (\<lambda>x. (it_class x, it_key x)) items)"
    and "p = policy_of policies (it_class x)" and "t = normalize_ts now"
    and "xs = newest_first (filter (\<lambda>y. it_class y = it_class x) items)"
  shows "(x \<in> set (deletions policies items now)) =
    (x \<in> set items \<and>
     (\<exists>i. 0 < i \<and> i < length xs \<and> xs ! i = x \<and> \<not> recent p t x \<and>
        (slot p t x = None \<or> (\<exists>j < i. slot p t (xs ! j) = slot p t x))))"
proof (cases "x \<in> set items")
  case True
  then have "x \<in> set xs" by (simp add: assms(4))
  moreover have "distinct xs"
    using class_keys [OF assms(1)] distinct_map newest_first_facts(3) unfolding assms(4) by metis
  ultimately show ?thesis
    using deleted_iff [OF assms(1)] not_kept_index [of x xs p t] True by (simp add: assms(2-4))
qed (simp add: deleted_iff [OF assms(1)])

text \<open>
  The rules of the policy's documentation, written without the code's tests. A backup is young while
  its age is below the keep-all window. Its period is its ISO week while weekly retention applies to
  it, then its calendar month while monthly retention does. It is below an age of \<open>m\<close> months until the
  date \<open>m\<close> months after its own. Of two backups of one instant the first given counts as the newer.
\<close>

datatype period = Week "int \<times> int" | Month "int \<times> int" | No_Period

definition age :: "timestamp \<Rightarrow> item \<Rightarrow> int" where
  "age now x = instant now - instant (it_time x)"

definition below_months :: "int \<Rightarrow> timestamp \<Rightarrow> item \<Rightarrow> bool" where
  "below_months m now x =
     (let (y0, m0, d0) = civil (day_of (normalize_ts (it_time x))); (y1, m1, d1) = civil (day_of now)
      in 0 < m \<and> (12 * y1 + m1 < 12 * y0 + m0 + m \<or> 12 * y1 + m1 = 12 * y0 + m0 + m \<and> d1 < d0))"

definition period_of :: "class_policy \<Rightarrow> timestamp \<Rightarrow> item \<Rightarrow> period" where
  "period_of p now x =
     (if weekly_forever p \<or> (\<exists>w. weekly_until_weeks p = Some w \<and> age now x < 7 * DAY * w)
         \<or> (\<exists>m. weekly_until_months p = Some m \<and> below_months m now x)
      then Week (iso_week (it_time x))
      else if monthly_forever p \<or> (\<exists>m. monthly_until_months p = Some m \<and> below_months m now x)
      then Month (year_month (it_time x)) else No_Period)"

fun precedes :: "'a list \<Rightarrow> 'a \<Rightarrow> 'a \<Rightarrow> bool" where
  "precedes [] y x \<longleftrightarrow> False"
| "precedes (z # zs) y x \<longleftrightarrow> y = z \<and> x \<in> set zs \<or> precedes zs y x"

definition newer :: "item list \<Rightarrow> item \<Rightarrow> item \<Rightarrow> bool" where
  "newer items y x \<longleftrightarrow> y \<in> set items \<and> it_class y = it_class x
     \<and> (instant (it_time x) < instant (it_time y)
        \<or> instant (it_time x) = instant (it_time y) \<and> precedes items y x)"

lemma precedes_filter: "precedes (filter P zs) y x \<longleftrightarrow> precedes zs y x \<and> P y \<and> P x"
  by (induction zs) auto

lemma precedes_members: "precedes zs y x \<Longrightarrow> y \<in> set zs \<and> x \<in> set zs"
  by (induction zs) auto

lemma precedes_total: "y \<in> set zs \<Longrightarrow> x \<in> set zs \<Longrightarrow> y \<noteq> x \<Longrightarrow> precedes zs y x \<or> precedes zs x y"
  by (induction zs) auto

lemma precedes_antisym: "distinct zs \<Longrightarrow> precedes zs y x \<Longrightarrow> \<not> precedes zs x y \<and> y \<noteq> x"
  by (induction zs) (auto dest: precedes_members)

lemma precedes_sorted: "sorted (map f zs) \<Longrightarrow> precedes zs y x \<Longrightarrow> f y \<le> f x"
  by (induction zs) auto

lemma precedes_nth:
  assumes "distinct zs" and "i < length zs" and "zs ! i = x"
  shows "precedes zs y x \<longleftrightarrow> (\<exists>j < i. zs ! j = y)"
  using assms
proof (induction zs arbitrary: i)
  case (Cons z zs)
  show ?case
  proof (cases i)
    case 0
    with Cons.prems show ?thesis by (auto dest: precedes_members)
  next
    case (Suc k)
    with Cons.prems have "x \<in> set zs" by auto
    moreover have "(\<exists>j < Suc k. (z # zs) ! j = y) \<longleftrightarrow> y = z \<or> (\<exists>j < k. zs ! j = y)"
      by (auto simp: less_Suc_eq_0_disj)
    ultimately show ?thesis using Cons Suc by auto
  qed
qed simp

lemma precedes_newest:
  assumes d: "distinct zs" and x: "x \<in> set zs" and y: "y \<in> set zs"
  shows "precedes (newest_first zs) y x \<longleftrightarrow>
    item_instant x < item_instant y \<or> item_instant x = item_instant y \<and> precedes zs y x"
proof -
  let ?f = "\<lambda>x. - item_instant x"
  have le: "?f u \<le> ?f v" if "precedes (newest_first zs) u v" for u v
    by (rule precedes_sorted [OF newest_first_sorted that])
  have same: "precedes (newest_first zs) y x \<longleftrightarrow> precedes zs y x" if "item_instant x = item_instant y"
  proof -
    have "filter (\<lambda>z. ?f z = ?f x) (newest_first zs) = filter (\<lambda>z. ?f z = ?f x) zs"
      unfolding newest_first_def by (rule sort_key_stable)
    then show ?thesis
      using precedes_filter [of "\<lambda>z. ?f z = ?f x" "newest_first zs" y x]
        precedes_filter [of "\<lambda>z. ?f z = ?f x" zs y x] that by simp
  qed
  show ?thesis
  proof (cases "item_instant x = item_instant y")
    case False
    have "precedes (newest_first zs) y x \<or> precedes (newest_first zs) x y"
      using False x y by (intro precedes_total) auto
    with False le [of y x] le [of x y] show ?thesis by auto
  qed (simp add: same)
qed

lemma months_below:
  "months_between (normalize_ts (it_time x)) now < m \<longleftrightarrow> below_months m now x"
  by (auto simp: months_between_def below_months_def Let_def split: prod.split)

lemma uses_weekly_spec: "uses_weekly p (it_time x) now \<longleftrightarrow>
    weekly_forever p \<or> (\<exists>w. weekly_until_weeks p = Some w \<and> age now x < 7 * DAY * w)
    \<or> (\<exists>m. weekly_until_months p = Some m \<and> below_months m now x)"
  by (auto simp: uses_weekly_def age_def months_below mult_ac split: option.splits)

lemma uses_monthly_spec: "uses_monthly p (it_time x) now \<longleftrightarrow>
    monthly_forever p \<or> (\<exists>m. monthly_until_months p = Some m \<and> below_months m now x)"
  by (auto simp: uses_monthly_def months_below split: option.splits)

lemma recent_age: "recent p now x \<longleftrightarrow> age now x < keep_all_days p * DAY"
  by (simp add: recent_def age_def)

lemma slot_period:
  assumes "\<not> recent p now x"
  shows "slot p now x = None \<longleftrightarrow> period_of p now x = No_Period"
    and "slot p now y = slot p now x \<longleftrightarrow>
      (if period_of p now x = No_Period then slot p now y = None
       else keep_all_days p * DAY \<le> age now y \<and> period_of p now y = period_of p now x)"
  using assms recent_age [of p now y]
  by (auto simp: slot_def period_of_def uses_weekly_spec [symmetric] uses_monthly_spec [symmetric])

lemma hd_newest: "zs \<noteq> [] \<Longrightarrow> hd (newest_first zs) = newest_first zs ! 0"
  by (rule hd_conv_nth) (metis length_0_conv newest_first_facts(2))

text \<open>
  C26: As long as no two backups of one class share a key, a backup is deleted exactly when its age is
  past the keep-all window, some backup of its class is newer, and either no periodic retention
  applies to it or a newer backup of the class past the window falls into the same week or month: the
  newest backup always stays, and every week and month that retention covers keeps its newest backup.
  The hypothesis on keys is needed (\<open>shared_key_deletes_the_newest\<close> below).
\<close>

theorem deletions_exact:
  assumes "distinct (map (\<lambda>x. (it_class x, it_key x)) items)"
    and "p = policy_of policies (it_class x)" and "t = normalize_ts now"
  shows "x \<in> set (deletions policies items now) \<longleftrightarrow>
    x \<in> set items \<and> keep_all_days p * DAY \<le> age t x \<and> (\<exists>y. newer items y x)
    \<and> (period_of p t x = No_Period
       \<or> (\<exists>y. newer items y x \<and> keep_all_days p * DAY \<le> age t y \<and> period_of p t y = period_of p t x))"
proof (cases "x \<in> set items")
  case True
  define zs where "zs = filter (\<lambda>y. it_class y = it_class x) items"
  define xs where "xs = newest_first zs"
  have x: "x \<in> set zs" using True by (simp add: zs_def)
  have dz: "distinct zs" using class_keys [OF assms(1)] distinct_map unfolding zs_def by metis
  then have dx: "distinct xs" using newest_first_facts(3) [of id zs] by (simp add: xs_def)
  obtain i where i: "i < length xs" "xs ! i = x"
    using x unfolding xs_def by (metis in_set_conv_nth newest_first_facts(1))
  have u: "j < length xs \<and> xs ! j = x \<longleftrightarrow> j = i" for j using i dx nth_eq_iff_index_eq by blast
  have newer: "newer items y x \<longleftrightarrow> precedes xs y x" for y
  proof (cases "y \<in> set zs")
    case True
    then have y: "y \<in> set items" "it_class y = it_class x" by (simp_all add: zs_def)
    have "precedes zs y x \<longleftrightarrow> precedes items y x" unfolding zs_def precedes_filter using y by simp
    then show ?thesis unfolding xs_def precedes_newest [OF dz x True] newer_def item_instant_def using y by simp
  next
    case False
    then have "\<not> newer items y x" by (auto simp: newer_def zs_def)
    moreover have "\<not> precedes xs y x" using precedes_members [of xs y x] False by (auto simp: xs_def)
    ultimately show ?thesis by simp
  qed
  have ex: "(\<exists>y. newer items y x \<and> Q y) \<longleftrightarrow> (\<exists>j < i. Q (xs ! j))" for Q
    unfolding newer precedes_nth [OF dx i] by auto
  have "x \<in> set (deletions policies items now) \<longleftrightarrow> 0 < i \<and> \<not> recent p t x
      \<and> (slot p t x = None \<or> (\<exists>j < i. slot p t (xs ! j) = slot p t x))"
  proof -
    have "(\<exists>k. 0 < k \<and> k < length xs \<and> xs ! k = x \<and> Q k) \<longleftrightarrow> 0 < i \<and> Q i" for Q
    proof -
      have "(\<exists>k. 0 < k \<and> k < length xs \<and> xs ! k = x \<and> Q k) \<longleftrightarrow> (\<exists>k. (k < length xs \<and> xs ! k = x) \<and> 0 < k \<and> Q k)"
        by blast
      then show ?thesis unfolding u by simp
    qed
    then show ?thesis unfolding deletions_index [OF assms xs_def [unfolded zs_def]] using True by simp
  qed
  also have "\<dots> \<longleftrightarrow> (\<exists>y. newer items y x \<and> True) \<and> \<not> recent p t x
      \<and> (period_of p t x = No_Period
         \<or> (\<exists>y. newer items y x \<and> keep_all_days p * DAY \<le> age t y \<and> period_of p t y = period_of p t x))"
    unfolding ex using slot_period [of p t x] by auto
  finally show ?thesis using True recent_age [of p t x] by auto
qed (use deleted_iff [OF assms(1)] in simp)

definition demo_time :: "int \<Rightarrow> timestamp" where
  "demo_time d = \<lparr>ts_wall = d * DAY, ts_offset = Some 0\<rparr>"

text \<open>Three working-memory backups and a month later: the older of two in one ISO week goes.\<close>

definition demo_items :: "item list" where
  "demo_items = [make_item 0 ''a'' (demo_time 739000) WORKING_MEMORY, make_item 1 ''b'' (demo_time 739002) WORKING_MEMORY,
     make_item 2 ''c'' (demo_time 739030) WORKING_MEMORY]"

theorem deletions_exact_witness:
  "hd demo_items \<in> set (deletions (\<lambda>_. None) demo_items (demo_time 739031))"
proof -
  let ?x = "make_item 0 ''a'' (demo_time 739000) WORKING_MEMORY"
  let ?y = "make_item 1 ''b'' (demo_time 739002) WORKING_MEMORY"
  let ?t = "normalize_ts (demo_time 739031)"
  let ?p = "DEFAULT_RETENTION_POLICY WORKING_MEMORY"
  have week: "iso_week (demo_time 739000) = iso_week (demo_time 739002)" by code_simp
  have keys: "distinct (map (\<lambda>x. (it_class x, it_key x)) demo_items)" by (simp add: demo_items_def make_item_def)
  have policy: "?p = policy_of (\<lambda>_. None) (it_class ?x)"
    by (simp add: policy_of_def make_item_def)
  have ages: "age ?t ?x = 31 * DAY" "age ?t ?y = 29 * DAY"
    by (simp_all add: age_def make_item_def demo_time_def instant_def normalize_ts_def DAY_def)
  then have "period_of ?p ?t ?y = period_of ?p ?t ?x" using week
    by (simp add: period_of_def DAY_def) (simp add: make_item_def demo_time_def)
  moreover have "newer demo_items ?y ?x"
    by (simp add: newer_def demo_items_def make_item_def demo_time_def instant_def normalize_ts_def DAY_def)
  moreover have "?x \<in> set demo_items" "hd demo_items = ?x" by (simp_all add: demo_items_def)
  moreover have "keep_all_days ?p * DAY \<le> age ?t ?x" "keep_all_days ?p * DAY \<le> age ?t ?y"
    unfolding ages by (simp_all add: DAY_def)
  ultimately show ?thesis using deletions_exact [OF keys policy refl, of "demo_time 739031"] by auto
qed

text \<open>
  A bounded policy lets every backup but the newest go once its age is past each of its limits.
\<close>

lemma bounded_backups_expire:
  assumes "bounded p" and "\<not> recent p now x"
    and "\<forall>w. weekly_until_weeks p = Some w \<longrightarrow> w * 7 * DAY \<le> instant now - item_instant x"
    and "\<forall>m. weekly_until_months p = Some m \<or> monthly_until_months p = Some m \<longrightarrow>
      m \<le> months_between (normalize_ts (it_time x)) now"
  shows "slot p now x = None"
  using assms by (auto simp: slot_def uses_weekly_def uses_monthly_def bounded_def item_instant_def split: option.splits)

text \<open>Two backups of a class under one key share a decision, and the newest may lose it.\<close>

lemma shared_key_deletes_the_newest:
  "map de_keep (decide (\<lambda>_. None)
     [make_item 0 ''k'' (demo_time 739030) WORKING_MEMORY, make_item 1 ''k'' (demo_time 738000) WORKING_MEMORY]
     (demo_time 739031)) = [False]"
  by code_simp

end
