(* ===== verification/Delivery_Queue.thy ===== *)
theory Delivery_Queue
  imports Text "HOL-Library.Product_Lexorder" "HOL-Library.List_Lexorder" "HOL-Library.Char_ord"
begin

text \<open>
  Model of \<open>kestrel_sovereign/features/delivery/queue.py\<close> and \<open>models.py\<close>: the durable outbound
  queue, its dead letters and the ledger of idempotency keys, as functions of the three tables. A
  transaction is one function; statements outside a transaction are separate functions, so that a
  crash between them can be stated. Instants are microseconds (the ISO texts the code stores sort
  like them), identifiers from \<open>uuid4\<close> and clock readings are arguments, and so are SHA-256 and the
  JSON encoder. A \<open>SELECT\<close> with ties returns the first row in table order.
  A transaction is its own here: on SQLite it may join one of the caller, who then commits the part
  that was executed before an error. For keyed enqueues that part is modelled (\<open>kept\<close>, \<open>compensate\<close>),
  for burials and retries of dead letters in \<open>Delivery_Halted\<close>; a purge cut off in a joined transaction is not.
\<close>

subsection \<open>Tables\<close>

datatype delivery_status = PENDING | IN_FLIGHT | DELIVERED | FAILED | DEAD_LETTER

record queue_entry =
  q_id :: string
  q_agent :: string
  q_channel :: string
  q_recipient :: string
  q_content :: string
  q_hash :: "string option"
  q_canonical :: "string option"
  q_status :: delivery_status
  q_attempts :: int
  q_max_retries :: int
  q_next_retry :: "int option"
  q_error :: "string option"
  q_created :: int
  q_delivered :: "int option"

record dead_letter =
  d_id :: string
  d_original :: string
  d_agent :: string
  d_channel :: string
  d_recipient :: string
  d_content :: string
  d_error :: string
  d_attempts :: int
  d_created :: int
  d_max_retries :: "int option"
  d_retry :: "string option"
  d_legacy :: "string option"

record key_claim =
  l_agent :: string
  l_key :: string
  l_entry :: string
  l_payload :: string
  l_created :: int
  l_compensating :: bool
  l_previous :: "string option"
  l_retries :: "int option"
  l_legacy :: "string option"

record tables =
  queue :: "queue_entry list"
  dead :: "dead_letter list"
  ledger :: "key_claim list"

datatype strategy = Savepoint | Joined

record config =
  cf_agent :: string
  cf_max_retries :: int
  cf_batch :: int
  cf_strategy :: "strategy option"

datatype state_reason = Not_Persisted | No_Retry_Policy | Dedup_Disappeared | Many_Replacements
  | Unlinked_Row | Unsafe_Nesting | Inconsistent_Policies | No_Compatibility_Hash | Lost_Source | Lost_Row

text \<open>\<open>update_rows\<close> and \<open>delete_rows\<close> are \<open>UPDATE\<close> and \<open>DELETE\<close> with a \<open>WHERE\<close> clause.\<close>

definition update_rows :: "('r \<Rightarrow> bool) \<Rightarrow> ('r \<Rightarrow> 'r) \<Rightarrow> 'r list \<Rightarrow> 'r list" where
  "update_rows p f rows = map (\<lambda>r. if p r then f r else r) rows"

definition delete_rows :: "('r \<Rightarrow> bool) \<Rightarrow> 'r list \<Rightarrow> 'r list" where
  "delete_rows p rows = filter (\<lambda>r. \<not> p r) rows"

definition limit :: "int \<Rightarrow> 'r list \<Rightarrow> 'r list" where
  "limit n rows = (if n < 0 then rows else take (nat n) rows)"

definition is_row :: "string \<Rightarrow> string \<Rightarrow> queue_entry \<Rightarrow> bool" where
  "is_row agent i r \<longleftrightarrow> q_id r = i \<and> q_agent r = agent"

definition find_row :: "string \<Rightarrow> string \<Rightarrow> tables \<Rightarrow> queue_entry option" where
  "find_row agent i t = find (is_row agent i) (queue t)"

text \<open>The two \<open>NOT EXISTS\<close> clauses of every query that looks for deliverable rows, negated.\<close>

definition tombstoned :: "tables \<Rightarrow> queue_entry \<Rightarrow> bool" where
  "tombstoned t r \<longleftrightarrow>
     list_ex (\<lambda>d. d_agent d = q_agent r \<and> d_original d = q_id r) (dead t) \<or>
     list_ex (\<lambda>d. d_agent d = q_agent r \<and> d_retry d = Some (q_id r)) (dead t)"

subsection \<open>Content\<close>

text \<open>Python values as the encoder sees them; \<open>P_Number\<close> is a float and whether it is finite.\<close>

datatype pyval = P_None | P_Bool bool | P_Int int | P_Number bool string | P_Str string
  | P_Seq "pyval list" | P_Dict "(string option \<times> pyval) list" | P_Other string

datatype json_error = Not_Finite string | Bad_Key string | Not_Json string

text \<open>A value is a tree here, so the check for a cycle has nothing to find. A key that is not a text is \<open>None\<close>.\<close>

fun validate_json_value :: "pyval \<Rightarrow> string \<Rightarrow> json_error option"
  and validate_items :: "pyval list \<Rightarrow> nat \<Rightarrow> string \<Rightarrow> json_error option"
  and validate_members :: "(string option \<times> pyval) list \<Rightarrow> string \<Rightarrow> json_error option" where
  "validate_json_value P_None path = None"
| "validate_json_value (P_Bool b) path = None"
| "validate_json_value (P_Int n) path = None"
| "validate_json_value (P_Str s) path = None"
| "validate_json_value (P_Number fin s) path = (if fin then None else Some (Not_Finite path))"
| "validate_json_value (P_Seq vs) path = validate_items vs 0 path"
| "validate_json_value (P_Dict ms) path = validate_members ms path"
| "validate_json_value (P_Other s) path = Some (Not_Json path)"
| "validate_items [] i path = None"
| "validate_items (v # vs) i path =
     (case validate_json_value v (path @ ''['' @ show_nat i @ '']'') of
        Some e \<Rightarrow> Some e | None \<Rightarrow> validate_items vs (Suc i) path)"
| "validate_members [] path = None"
| "validate_members ((k, v) # ms) path =
     (case k of
        None \<Rightarrow> Some (Bad_Key path)
      | Some key \<Rightarrow>
          (case validate_json_value v (path @ ''.'' @ key) of
             Some e \<Rightarrow> Some e | None \<Rightarrow> validate_members ms path))"

text \<open>
  The encoder and the hash. \<open>co_dumps\<close> is \<open>json.dumps(content, default=str)\<close> (\<open>None\<close> where it raises),
  \<open>co_sorted\<close> the sorted compact form of valid JSON, \<open>co_recanon\<close> the sorted form of a stored text
  (\<open>None\<close> when it does not parse) and \<open>co_request\<close> the canonical text of a keyed request.
\<close>

record codec =
  co_sha :: "string \<Rightarrow> string"
  co_dumps :: "pyval \<Rightarrow> string option"
  co_sorted :: "pyval \<Rightarrow> string"
  co_recanon :: "string \<Rightarrow> string option"
  co_request :: "string \<Rightarrow> string \<Rightarrow> string \<Rightarrow> int option \<Rightarrow> string"

datatype delivery_error = Empty_Key | Oversized_Key | Bad_Content json_error | Not_Serializable
  | Conflict | Terminal | State_Error state_reason | Database_Error

definition compute_content_hash :: "codec \<Rightarrow> string \<Rightarrow> string \<Rightarrow> string" where
  "compute_content_hash co recipient content_json = co_sha co (recipient @ '':'' @ content_json)"

definition persisted_content_hashes :: "codec \<Rightarrow> string \<Rightarrow> string \<Rightarrow> string \<times> string" where
  "persisted_content_hashes co recipient content_json =
     (let raw_hash = compute_content_hash co recipient content_json in
      case co_recanon co content_json of
        None \<Rightarrow> (raw_hash, raw_hash)
      | Some canonical_json \<Rightarrow> (raw_hash, compute_content_hash co recipient canonical_json))"

definition canonical_content_json :: "codec \<Rightarrow> pyval \<Rightarrow> json_error + string" where
  "canonical_content_json co content =
     (case validate_json_value content ''content'' of Some e \<Rightarrow> Inl e | None \<Rightarrow> Inr (co_sorted co content))"

definition text_or :: "string option \<Rightarrow> string \<Rightarrow> string" where
  "text_or v d = (case v of None \<Rightarrow> d | Some s \<Rightarrow> if s = [] then d else s)"

definition second :: int where "second = 1000000"

definition compute_backoff :: "nat \<Rightarrow> int" where
  "compute_backoff attempt = min (5 * 5 ^ attempt) 3600"

definition dedup_cutoff :: "int \<Rightarrow> int" where
  "dedup_cutoff now = now - 60 * second"

subsection \<open>Lookups\<close>

text \<open>\<open>req\<close> restricts a lookup to a channel and a retry policy.\<close>

definition dedup_eligible ::
  "string \<Rightarrow> string \<Rightarrow> int \<Rightarrow> (string \<times> int) option \<Rightarrow> tables \<Rightarrow> queue_entry \<Rightarrow> bool" where
  "dedup_eligible agent recipient cutoff req t r \<longleftrightarrow>
     q_agent r = agent \<and> q_recipient r = recipient \<and> cutoff \<le> q_created r \<and>
     (case req of None \<Rightarrow> True | Some (channel, retries) \<Rightarrow> q_channel r = channel \<and> q_max_retries r = retries) \<and>
     \<not> tombstoned t r"

definition same_content :: "string \<Rightarrow> string \<Rightarrow> queue_entry \<Rightarrow> bool" where
  "same_content canonical legacy r \<longleftrightarrow>
     q_hash r \<in> {Some canonical, Some legacy} \<or> q_canonical r = Some canonical"

definition newest_first :: "queue_entry list \<Rightarrow> queue_entry list" where
  "newest_first rows = sort_key (\<lambda>r. - q_created r) rows"

fun repair_hashes :: "codec \<Rightarrow> string \<Rightarrow> string \<Rightarrow> string \<Rightarrow> queue_entry list \<Rightarrow> tables \<Rightarrow> string option \<times> tables" where
  "repair_hashes co agent recipient canonical [] t = (None, t)"
| "repair_hashes co agent recipient canonical (r # rs) t =
     (let repaired = snd (persisted_content_hashes co recipient (text_or (Some (q_content r)) ''{}''));
          t' = t\<lparr>queue := update_rows (\<lambda>x. is_row agent (q_id r) x \<and> q_canonical x = None)
                            (\<lambda>x. x\<lparr>q_canonical := Some repaired\<rparr>) (queue t)\<rparr>
      in if repaired = canonical then (Some (q_id r), t')
         else repair_hashes co agent recipient canonical rs t')"

definition find_recent_duplicate ::
  "codec \<Rightarrow> string \<Rightarrow> string \<Rightarrow> string \<Rightarrow> string \<Rightarrow> int \<Rightarrow> (string \<times> int) option \<Rightarrow> tables
     \<Rightarrow> string option \<times> tables" where
  "find_recent_duplicate co agent recipient canonical legacy cutoff req t =
     (let eligible = filter (dedup_eligible agent recipient cutoff req t) (queue t) in
      case newest_first (filter (same_content canonical legacy) eligible) of
        r # rs \<Rightarrow> (Some (q_id r), t)
      | [] \<Rightarrow> repair_hashes co agent recipient canonical
               (newest_first (filter (\<lambda>r. q_canonical r = None) eligible)) t)"

definition has_unlinked_compatible_queue_row ::
  "string \<Rightarrow> string \<Rightarrow> string \<Rightarrow> string \<Rightarrow> string \<Rightarrow> int \<Rightarrow> int \<Rightarrow> tables \<Rightarrow> bool" where
  "has_unlinked_compatible_queue_row agent recipient canonical legacy channel retries claim_created t \<longleftrightarrow>
     list_ex (\<lambda>r. dedup_eligible agent recipient claim_created (Some (channel, retries)) t r \<and>
       same_content canonical legacy r \<and>
       \<not> list_ex (\<lambda>l. l_agent l = agent \<and> l_entry l = q_id r) (ledger t)) (queue t)"

text \<open>The distinct identifiers of replacements anchored to a prior entry; more than one is an error.\<close>

definition find_replacement_for_prior_entry ::
  "string \<Rightarrow> string \<Rightarrow> string \<Rightarrow> string \<Rightarrow> string \<Rightarrow> string \<Rightarrow> int \<Rightarrow> tables
     \<Rightarrow> delivery_error + string option" where
  "find_replacement_for_prior_entry agent prior recipient canonical legacy channel retries t =
     (let rows = filter (\<lambda>r. q_agent r = agent \<and> q_recipient r = recipient \<and> q_channel r = channel \<and>
            q_max_retries r = retries \<and> same_content canonical legacy r \<and> \<not> tombstoned t r \<and>
            list_ex (\<lambda>l. l_agent l = agent \<and> l_entry l = q_id r \<and> l_previous l = Some prior) (ledger t)) (queue t)
      in case remdups (map q_id rows) of
           [] \<Rightarrow> Inr None
         | [i] \<Rightarrow> Inr (Some i)
         | _ \<Rightarrow> Inl (State_Error Many_Replacements))"

definition first_of :: "'a option \<Rightarrow> 'a option \<Rightarrow> 'a option" where
  "first_of x y = (case x of None \<Rightarrow> y | Some v \<Rightarrow> Some v)"

definition find_dead_letter_for_queue_id :: "string \<Rightarrow> string \<Rightarrow> tables \<Rightarrow> dead_letter option" where
  "find_dead_letter_for_queue_id agent i t =
     first_of (find (\<lambda>d. d_agent d = agent \<and> d_original d = i) (dead t))
       (find (\<lambda>d. d_agent d = agent \<and> d_retry d = Some i) (dead t))"

definition lock_dead_letter :: "string \<Rightarrow> string \<Rightarrow> tables \<Rightarrow> dead_letter option" where
  "lock_dead_letter agent i t =
     first_of (find (\<lambda>d. d_agent d = agent \<and> d_id d = i) (dead t)) (find_dead_letter_for_queue_id agent i t)"

definition find_claim :: "string \<Rightarrow> string \<Rightarrow> tables \<Rightarrow> key_claim option" where
  "find_claim agent digest t = find (\<lambda>l. l_agent l = agent \<and> l_key l = digest) (ledger t)"

subsection \<open>Enqueue\<close>

definition new_entry ::
  "string \<Rightarrow> string \<Rightarrow> string \<Rightarrow> string \<Rightarrow> string \<Rightarrow> string \<Rightarrow> string \<Rightarrow> int \<Rightarrow> int \<Rightarrow> queue_entry" where
  "new_entry i agent channel recipient content legacy canonical retries now =
     \<lparr>q_id = i, q_agent = agent, q_channel = channel, q_recipient = recipient, q_content = content,
      q_hash = Some legacy, q_canonical = Some canonical, q_status = PENDING, q_attempts = 0,
      q_max_retries = retries, q_next_retry = Some now, q_error = None, q_created = now, q_delivered = None\<rparr>"

text \<open>\<open>id\<close> is the primary key of the table, whoever owns the row.\<close>

definition insert_entry :: "queue_entry \<Rightarrow> tables \<Rightarrow> tables option" where
  "insert_entry r t =
     (if q_id r \<in> set (map q_id (queue t)) then None else Some (t\<lparr>queue := queue t @ [r]\<rparr>))"

definition enqueue_plain ::
  "codec \<Rightarrow> config \<Rightarrow> string \<Rightarrow> string \<Rightarrow> pyval \<Rightarrow> int option \<Rightarrow> string \<Rightarrow> int \<Rightarrow> int \<Rightarrow> tables
     \<Rightarrow> (delivery_error + string) \<times> tables" where
  "enqueue_plain co cf channel recipient content max_retries entry_id cutoff_now now t =
     (let retries = (case max_retries of Some m \<Rightarrow> m | None \<Rightarrow> cf_max_retries cf) in
      case co_dumps co content of
        None \<Rightarrow> (Inl Not_Serializable, t)
      | Some content_json \<Rightarrow>
          (let (legacy, canonical) = persisted_content_hashes co recipient content_json;
               (existing, t') = find_recent_duplicate co (cf_agent cf) recipient canonical legacy
                                  (dedup_cutoff cutoff_now) None t
           in case existing of
                Some i \<Rightarrow> (Inr i, t')
              | None \<Rightarrow>
                  (case insert_entry (new_entry entry_id (cf_agent cf) channel recipient content_json legacy
                                        canonical retries now) t' of
                     None \<Rightarrow> (Inl Database_Error, t)
                   | Some t'' \<Rightarrow> (Inr entry_id, t''))))"

text \<open>What a keyed request amounts to once it is validated and hashed.\<close>

record request =
  rq_channel :: string
  rq_recipient :: string
  rq_content :: string
  rq_legacy :: string
  rq_canonical :: string
  rq_retries :: int
  rq_digest :: string
  rq_payload :: string

definition utf8_length :: "string \<Rightarrow> nat" where
  "utf8_length s = sum_list (map (\<lambda>c. if cp c < 128 then 1 else 2) s)"

definition prepare_request ::
  "codec \<Rightarrow> config \<Rightarrow> string \<Rightarrow> string \<Rightarrow> pyval \<Rightarrow> int option \<Rightarrow> string \<Rightarrow> delivery_error + request" where
  "prepare_request co cf channel recipient content max_retries key =
     (if key = [] then Inl Empty_Key
      else if utf8_length key > 4096 then Inl Oversized_Key
      else case canonical_content_json co content of
        Inl e \<Rightarrow> Inl (Bad_Content e)
      | Inr content_json \<Rightarrow>
          (case co_dumps co content of
             None \<Rightarrow> Inl Not_Serializable
           | Some legacy_json \<Rightarrow>
               Inr \<lparr>rq_channel = channel, rq_recipient = recipient, rq_content = content_json,
                    rq_legacy = compute_content_hash co recipient legacy_json,
                    rq_canonical = compute_content_hash co recipient content_json,
                    rq_retries = (case max_retries of Some m \<Rightarrow> m | None \<Rightarrow> cf_max_retries cf),
                    rq_digest = co_sha co key,
                    rq_payload = co_sha co (co_request co channel recipient content_json max_retries)\<rparr>))"

definition claim_key :: "string \<Rightarrow> request \<Rightarrow> string \<Rightarrow> int \<Rightarrow> tables \<Rightarrow> tables" where
  "claim_key agent rq candidate now t =
     (if find_claim agent (rq_digest rq) t \<noteq> None then t
      else t\<lparr>ledger := ledger t @ [\<lparr>l_agent = agent, l_key = rq_digest rq, l_entry = candidate,
              l_payload = rq_payload rq, l_created = now, l_compensating = False, l_previous = None,
              l_retries = Some (rq_retries rq), l_legacy = Some (rq_legacy rq)\<rparr>]\<rparr>)"

text \<open>The row of the claim is there: fill in what an older writer left out and adopt it.\<close>

definition adopt_live :: "string \<Rightarrow> string \<Rightarrow> key_claim \<Rightarrow> queue_entry \<Rightarrow> tables \<Rightarrow> (delivery_error + string) \<times> tables" where
  "adopt_live agent digest c r t =
     (if l_retries c = None \<and> l_previous c \<noteq> None then (Inl (State_Error No_Retry_Policy), t)
      else
        (let mine = (\<lambda>l. l_agent l = agent \<and> l_key l = digest);
             t1 = (if l_retries c = None
                   then t\<lparr>ledger := update_rows (\<lambda>l. mine l \<and> l_retries l = None)
                            (\<lambda>l. l\<lparr>l_retries := Some (q_max_retries r)\<rparr>) (ledger t)\<rparr>
                   else t);
             t2 = (if l_legacy c = None
                   then t1\<lparr>ledger := update_rows (\<lambda>l. mine l \<and> l_legacy l = None)
                            (\<lambda>l. l\<lparr>l_legacy := q_hash r\<rparr>) (ledger t1)\<rparr>
                   else t1)
         in (Inr (l_entry c), t2)))"

text \<open>\<open>UPDATE delivery_idempotency SET entry_id = new, previous_entry_id = old\<close> for claims that satisfy \<open>p\<close>.\<close>

definition move_claims :: "(key_claim \<Rightarrow> bool) \<Rightarrow> string \<Rightarrow> string \<Rightarrow> int \<Rightarrow> (key_claim \<Rightarrow> key_claim) \<Rightarrow> tables \<Rightarrow> tables" where
  "move_claims p new old now f t =
     t\<lparr>ledger := update_rows p
         (\<lambda>l. f (l\<lparr>l_entry := new, l_created := now, l_compensating := False, l_previous := Some old\<rparr>)) (ledger t)\<rparr>"

definition recreate_entry ::
  "string \<Rightarrow> request \<Rightarrow> string \<Rightarrow> int \<Rightarrow> key_claim \<Rightarrow> int \<Rightarrow> tables \<Rightarrow> (delivery_error + string) \<times> tables" where
  "recreate_entry agent rq candidate now c stored t =
     (let old = l_entry c;
          t1 = (if old \<noteq> candidate
                then move_claims (\<lambda>l. l_agent l = agent \<and> l_key l = rq_digest rq \<and> l_entry l = old)
                       candidate old now id t
                else t)
      in case insert_entry (new_entry candidate agent (rq_channel rq) (rq_recipient rq) (rq_content rq)
                 (text_or (l_legacy c) (rq_legacy rq)) (rq_canonical rq) stored now) t1 of
           None \<Rightarrow> (Inl Database_Error, t1)
         | Some t2 \<Rightarrow>
             (Inr candidate,
              if old \<noteq> candidate
              then move_claims (\<lambda>l. l_agent l = agent \<and> l_entry l = old) candidate old now id t2 else t2))"

definition repair_claim ::
  "codec \<Rightarrow> string \<Rightarrow> request \<Rightarrow> string \<Rightarrow> int \<Rightarrow> int \<Rightarrow> string option \<Rightarrow> key_claim \<Rightarrow> tables
     \<Rightarrow> (delivery_error + string) \<times> tables" where
  "repair_claim co agent rq candidate cutoff_now now dup c t =
     (if lock_dead_letter agent (l_entry c) t \<noteq> None then (Inl Terminal, t)
      else case l_retries c of
        None \<Rightarrow> (Inl (State_Error No_Retry_Policy), t)
      | Some stored \<Rightarrow>
          (let (dup', t1) = (if stored \<noteq> rq_retries rq
                 then find_recent_duplicate co agent (rq_recipient rq) (rq_canonical rq) (rq_legacy rq)
                        (dedup_cutoff cutoff_now) (Some (rq_channel rq, stored)) t
                 else (dup, t));
               owned = (\<lambda>l. l_agent l = agent \<and> l_entry l = l_entry c)
           in case dup' of
                Some i \<Rightarrow>
                  (case find_row agent i t1 of
                     None \<Rightarrow> (Inl (State_Error Dedup_Disappeared), t1)
                   | Some r \<Rightarrow> (Inr i, move_claims owned i (l_entry c) now (\<lambda>l. l\<lparr>l_legacy := q_hash r\<rparr>) t1))
              | None \<Rightarrow>
                  (let legacy = text_or (l_legacy c) (rq_legacy rq) in
                   case find_replacement_for_prior_entry agent (l_entry c) (rq_recipient rq) (rq_canonical rq)
                          legacy (rq_channel rq) stored t1 of
                     Inl e \<Rightarrow> (Inl e, t1)
                   | Inr (Some i) \<Rightarrow> (Inr i, move_claims owned i (l_entry c) now id t1)
                   | Inr None \<Rightarrow>
                       if l_entry c \<noteq> candidate \<and>
                          has_unlinked_compatible_queue_row agent (rq_recipient rq) (rq_canonical rq) legacy
                            (rq_channel rq) stored (l_created c) t1
                       then (Inl (State_Error Unlinked_Row), t1)
                       else recreate_entry agent rq candidate now c stored t1)))"

text \<open>The body of the transaction; on an error the second component is what was written before it.\<close>

definition keyed_body ::
  "codec \<Rightarrow> string \<Rightarrow> request \<Rightarrow> string \<Rightarrow> int \<Rightarrow> int \<Rightarrow> tables \<Rightarrow> (delivery_error + string) \<times> tables" where
  "keyed_body co agent rq candidate cutoff_now now t =
     (let (dup, t0) = find_recent_duplicate co agent (rq_recipient rq) (rq_canonical rq) (rq_legacy rq)
                        (dedup_cutoff cutoff_now) (Some (rq_channel rq, rq_retries rq)) t;
          t1 = claim_key agent rq candidate now t0
      in case find_claim agent (rq_digest rq) t1 of
           None \<Rightarrow> (Inl (State_Error Not_Persisted), t1)
         | Some c \<Rightarrow>
             if l_payload c \<noteq> rq_payload rq then (Inl Conflict, t1)
             else if find_dead_letter_for_queue_id agent (l_entry c) t1 \<noteq> None then (Inl Terminal, t1)
             else (case find_row agent (l_entry c) t1 of
               Some r \<Rightarrow> adopt_live agent (rq_digest rq) c r t1
             | None \<Rightarrow> repair_claim co agent rq candidate cutoff_now now dup c t1))"

text \<open>
  The compensation of a backend whose nested transactions join the outer one: the marker update and
  the trigger it fires for the one claim of this call.
\<close>

definition compensate :: "string \<Rightarrow> string \<Rightarrow> string \<Rightarrow> tables \<Rightarrow> tables" where
  "compensate agent digest candidate t =
     (let mark = (\<lambda>l. l_agent l = agent \<and> l_key l = digest \<and> l_entry l = candidate \<and> \<not> l_compensating l)
      in if \<not> list_ex mark (ledger t) then t
         else
           (let marked = update_rows mark (\<lambda>l. l\<lparr>l_compensating := True\<rparr>) (ledger t);
                restored = update_rows (\<lambda>l. l_agent l = agent \<and> l_entry l = candidate \<and> l_previous l \<noteq> None)
                  (\<lambda>l. l\<lparr>l_entry := the (l_previous l), l_previous := None, l_compensating := False\<rparr>) marked;
                kept = delete_rows (\<lambda>l. l_agent l = agent \<and> l_key l = digest \<and> l_entry l = candidate \<and>
                  l_compensating l \<and> l_previous l = None) restored
            in t\<lparr>queue := delete_rows (is_row agent candidate) (queue t), ledger := kept\<rparr>))"

text \<open>\<open>kept\<close>: an outer transaction catches the error and commits what the joined one wrote.\<close>

definition enqueue_idempotent ::
  "codec \<Rightarrow> config \<Rightarrow> string \<Rightarrow> string \<Rightarrow> pyval \<Rightarrow> int option \<Rightarrow> string \<Rightarrow> string \<Rightarrow> int \<Rightarrow> int \<Rightarrow> bool
     \<Rightarrow> tables \<Rightarrow> (delivery_error + string) \<times> tables" where
  "enqueue_idempotent co cf channel recipient content max_retries key candidate cutoff_now now kept t =
     (case prepare_request co cf channel recipient content max_retries key of
        Inl e \<Rightarrow> (Inl e, t)
      | Inr rq \<Rightarrow>
          (case cf_strategy cf of
             None \<Rightarrow> (Inl (State_Error Unsafe_Nesting), t)
           | Some strategy \<Rightarrow>
               (case keyed_body co (cf_agent cf) rq candidate cutoff_now now t of
                  (Inr i, t') \<Rightarrow> (Inr i, t')
                | (Inl e, t') \<Rightarrow>
                    (Inl e, if strategy = Joined \<and> kept
                            then compensate (cf_agent cf) (rq_digest rq) candidate t' else t))))"

subsection \<open>Delivery\<close>

text \<open>What the callback did: a result, or an execution-control error that leaves the row in flight.\<close>

datatype outcome = Success | Failure "string option" | Control

type_synonym provider = "string \<Rightarrow> string \<Rightarrow> string \<Rightarrow> outcome"

definition no_provider :: "string \<Rightarrow> string" where
  "no_provider channel =
     ''No delivery provider configured; install or register a provider for channel '' @ [CHR 0x27] @ channel @ [CHR 0x27]"

definition delivery_result :: "provider option \<Rightarrow> bool \<Rightarrow> queue_entry \<Rightarrow> outcome" where
  "delivery_result deliver allow_noop e =
     (case deliver of
        Some d \<Rightarrow> d (q_channel e) (q_recipient e) (q_content e)
      | None \<Rightarrow> if allow_noop then Success else Failure (Some (no_provider (q_channel e))))"

definition set_entry :: "string \<Rightarrow> string \<Rightarrow> (queue_entry \<Rightarrow> queue_entry) \<Rightarrow> tables \<Rightarrow> tables" where
  "set_entry agent i f t = t\<lparr>queue := update_rows (is_row agent i) f (queue t)\<rparr>"

definition mark_in_flight :: "string \<Rightarrow> queue_entry \<Rightarrow> tables \<Rightarrow> tables" where
  "mark_in_flight agent e t = set_entry agent (q_id e) (\<lambda>r. r\<lparr>q_status := IN_FLIGHT\<rparr>) t"

text \<open>A burial that runs to its end; what a joined transaction may keep of it is \<open>halted_move\<close> in \<open>Delivery_Halted\<close>.\<close>

definition move_to_dead_letter :: "string \<Rightarrow> string \<Rightarrow> string \<Rightarrow> string \<Rightarrow> int \<Rightarrow> tables \<Rightarrow> tables option" where
  "move_to_dead_letter agent i reason fresh now t =
     (case find_row agent i t of
        None \<Rightarrow> Some t
      | Some r \<Rightarrow>
          if find_dead_letter_for_queue_id agent i t \<noteq> None
          then Some (t\<lparr>queue := delete_rows (is_row agent i) (queue t)\<rparr>)
          else if fresh \<in> set (map d_id (dead t)) then None
          else Some (t\<lparr>queue := delete_rows (is_row agent i) (queue t),
                 dead := dead t @ [\<lparr>d_id = fresh, d_original = q_id r, d_agent = q_agent r,
                   d_channel = q_channel r, d_recipient = q_recipient r, d_content = q_content r,
                   d_error = reason, d_attempts = q_attempts r, d_created = now,
                   d_max_retries = Some (q_max_retries r), d_retry = None, d_legacy = q_hash r\<rparr>]\<rparr>))"

definition show_int :: "int \<Rightarrow> string" where
  "show_int n = (if n < 0 then CHR ''-'' # show_nat (nat (- n)) else show_nat (nat n))"

definition exhausted_reason :: "int \<Rightarrow> string option \<Rightarrow> string" where
  "exhausted_reason max_retries error =
     ''Max retries ('' @ show_int max_retries @ '') exceeded. Last error: '' @
       (case error of None \<Rightarrow> ''None'' | Some e \<Rightarrow> e)"

text \<open>The statement that records the outcome; \<open>e\<close> is the row as it was fetched.\<close>

definition settle_delivery :: "string \<Rightarrow> queue_entry \<Rightarrow> outcome \<Rightarrow> int \<Rightarrow> tables \<Rightarrow> tables" where
  "settle_delivery agent e result now t =
     (let new_attempts = q_attempts e + 1 in
      case result of
        Control \<Rightarrow> t
      | Success \<Rightarrow>
          set_entry agent (q_id e)
            (\<lambda>r. r\<lparr>q_status := DELIVERED, q_attempts := new_attempts, q_delivered := Some now, q_error := None\<rparr>) t
      | Failure error \<Rightarrow>
          if new_attempts \<ge> q_max_retries e
          then set_entry agent (q_id e)
                 (\<lambda>r. r\<lparr>q_status := FAILED, q_attempts := new_attempts, q_error := error\<rparr>) t
          else set_entry agent (q_id e)
                 (\<lambda>r. r\<lparr>q_status := FAILED, q_attempts := new_attempts,
                        q_next_retry := Some (now + compute_backoff (nat new_attempts) * second), q_error := error\<rparr>) t)"

definition bury_exhausted :: "string \<Rightarrow> queue_entry \<Rightarrow> outcome \<Rightarrow> string \<Rightarrow> int \<Rightarrow> tables \<Rightarrow> tables option" where
  "bury_exhausted agent e result fresh now t =
     (case result of
        Failure error \<Rightarrow>
          if q_attempts e + 1 \<ge> q_max_retries e
          then move_to_dead_letter agent (q_id e) (exhausted_reason (q_max_retries e) error) fresh now t
          else Some t
      | _ \<Rightarrow> Some t)"

text \<open>
  One attempt. \<open>done_steps\<close> is how many of its statements are executed before the process dies: the
  mark, the record of the outcome, the move to the dead letters. An attempt that runs to its end has 3.
\<close>

definition attempt_delivery ::
  "config \<Rightarrow> provider option \<Rightarrow> bool \<Rightarrow> queue_entry \<Rightarrow> string \<Rightarrow> int \<Rightarrow> nat \<Rightarrow> tables \<Rightarrow> tables" where
  "attempt_delivery cf deliver allow_noop e fresh now done_steps t =
     (let agent = cf_agent cf;
          t1 = (if done_steps < 1 then t else mark_in_flight agent e t);
          result = delivery_result deliver allow_noop e;
          t2 = (if done_steps < 2 then t1 else settle_delivery agent e result now t1)
      in if done_steps < 3 then t2
         else (case bury_exhausted agent e result fresh now t2 of None \<Rightarrow> t2 | Some t3 \<Rightarrow> t3))"

definition deliverable :: "string \<Rightarrow> tables \<Rightarrow> queue_entry \<Rightarrow> bool" where
  "deliverable agent t r \<longleftrightarrow> q_agent r = agent \<and> q_status r \<in> {PENDING, FAILED} \<and> \<not> tombstoned t r"

definition soonest_first :: "queue_entry list \<Rightarrow> queue_entry list" where
  "soonest_first rows = sort_key (\<lambda>r. case q_next_retry r of None \<Rightarrow> (0 :: int, 0) | Some n \<Rightarrow> (1, n)) rows"

definition due :: "int \<Rightarrow> queue_entry \<Rightarrow> bool" where
  "due now r \<longleftrightarrow> (case q_next_retry r of None \<Rightarrow> False | Some n \<Rightarrow> n \<le> now)"

definition next_batch :: "config \<Rightarrow> int \<Rightarrow> tables \<Rightarrow> queue_entry list" where
  "next_batch cf now t =
     limit (cf_batch cf) (soonest_first (filter (\<lambda>r. deliverable (cf_agent cf) t r \<and> due now r) (queue t)))"

text \<open>
  The rows of a batch one after the other; each attempt comes with its fresh identifier and clock
  reading, and \<open>stop\<close> is how many attempts are made before a requested stop is seen.
\<close>

fun process_rows ::
  "config \<Rightarrow> provider option \<Rightarrow> bool \<Rightarrow> queue_entry list \<Rightarrow> (string \<times> int) list \<Rightarrow> nat \<Rightarrow> tables \<Rightarrow> nat \<times> tables" where
  "process_rows cf deliver noop (e # es) ((fresh, now) # ps) (Suc stop) t =
     (if delivery_result deliver noop e = Control then (0, attempt_delivery cf deliver noop e fresh now 3 t)
      else (let (n, t') = process_rows cf deliver noop es ps stop (attempt_delivery cf deliver noop e fresh now 3 t)
            in (Suc n, t')))"
| "process_rows cf deliver noop _ _ _ t = (0, t)"

definition process_pending ::
  "config \<Rightarrow> provider option \<Rightarrow> bool \<Rightarrow> int \<Rightarrow> (string \<times> int) list \<Rightarrow> nat \<Rightarrow> tables \<Rightarrow> nat \<times> tables" where
  "process_pending cf deliver noop now ps stop t = process_rows cf deliver noop (next_batch cf now t) ps stop t"

definition stale_in_flight :: "string \<Rightarrow> tables \<Rightarrow> queue_entry \<Rightarrow> bool" where
  "stale_in_flight agent t r \<longleftrightarrow> q_agent r = agent \<and> q_status r = IN_FLIGHT \<and> \<not> tombstoned t r"

definition reclaim_in_flight :: "config \<Rightarrow> int \<Rightarrow> tables \<Rightarrow> nat \<times> tables" where
  "reclaim_in_flight cf now t =
     (let count = length (filter (stale_in_flight (cf_agent cf) t) (queue t)) in
      (count,
       if count > 0
       then t\<lparr>queue := update_rows (stale_in_flight (cf_agent cf) t)
                 (\<lambda>r. r\<lparr>q_status := PENDING, q_next_retry := Some now\<rparr>) (queue t)\<rparr>
       else t))"

subsection \<open>Retry\<close>

datatype retry_result = Entry_Not_Found | Re_Enqueued string string | Already_Delivered | Currently_In_Flight
  | Queued_For_Retry string

definition some_values :: "'a option list \<Rightarrow> 'a list" where
  "some_values vs = remdups (map the (filter (\<lambda>v. v \<noteq> None) vs))"

definition first_value :: "'a list \<Rightarrow> 'a option" where
  "first_value vs = (case vs of [] \<Rightarrow> None | v # _ \<Rightarrow> Some v)"

text \<open>The five statements of a retry that runs to its end; its beginnings are \<open>halted_retry\<close> in \<open>Delivery_Halted\<close>.\<close>

definition retry_dead_letter ::
  "codec \<Rightarrow> config \<Rightarrow> dead_letter \<Rightarrow> string \<Rightarrow> int \<Rightarrow> tables \<Rightarrow> delivery_error + (retry_result \<times> tables)" where
  "retry_dead_letter co cf d fresh now t =
     (let agent = cf_agent cf;
          new_id = text_or (d_retry d) fresh;
          (computed_legacy, canonical) = persisted_content_hashes co (d_recipient d) (d_content d);
          claims = filter (\<lambda>l. l_agent l = agent \<and> l_entry l = d_original d) (ledger t);
          policies = some_values (map l_retries claims);
          hashes = some_values (map l_legacy claims)
      in if length policies > 1 then Inl (State_Error Inconsistent_Policies)
         else if d_legacy d = None \<and> length hashes > 1 then Inl (State_Error No_Compatibility_Hash)
         else
           (let legacy = text_or (d_legacy d) (text_or (first_value hashes) computed_legacy);
                policy = (case first_value policies of
                            Some p \<Rightarrow> p
                          | None \<Rightarrow> (case d_max_retries d of Some m \<Rightarrow> m | None \<Rightarrow> cf_max_retries cf));
                dead1 = update_rows (\<lambda>x. d_id x = d_id d \<and> d_agent x = agent \<and> d_retry x = None)
                          (\<lambda>x. x\<lparr>d_retry := Some new_id\<rparr>) (dead t);
                queue1 = (if d_original d \<noteq> new_id then delete_rows (is_row agent (d_original d)) (queue t)
                          else queue t);
                t1 = t\<lparr>queue := queue1, dead := dead1\<rparr>;
                t2 = (case insert_entry (new_entry new_id agent (d_channel d) (d_recipient d) (d_content d)
                             legacy canonical policy now) t1 of None \<Rightarrow> t1 | Some t' \<Rightarrow> t');
                ledger1 = update_rows (\<lambda>l. l_agent l = agent \<and> l_entry l = d_original d)
                  (\<lambda>l. l\<lparr>l_entry := new_id, l_created := now, l_compensating := False,
                         l_previous := first_of (l_previous l) (Some (d_original d)),
                         l_retries := first_of (l_retries l) (Some policy),
                         l_legacy := first_of (l_legacy l) (Some legacy)\<rparr>) (ledger t2);
                gone = (\<lambda>x. d_id x = d_id d \<and> d_agent x = agent)
            in if \<not> list_ex gone (dead t2) then Inl (State_Error Lost_Source)
               else Inr (Re_Enqueued new_id (d_original d),
                         t2\<lparr>ledger := ledger1, dead := delete_rows gone (dead t2)\<rparr>)))"

definition retry_live :: "config \<Rightarrow> string \<Rightarrow> int \<Rightarrow> queue_entry \<Rightarrow> tables \<Rightarrow> retry_result \<times> tables" where
  "retry_live cf i now r t =
     (case q_status r of
        DELIVERED \<Rightarrow> (Already_Delivered, t)
      | IN_FLIGHT \<Rightarrow> (Currently_In_Flight, t)
      | _ \<Rightarrow> (Queued_For_Retry i,
              set_entry (cf_agent cf) i (\<lambda>x. x\<lparr>q_status := PENDING, q_next_retry := Some now, q_error := None\<rparr>) t))"

definition retry_entry ::
  "codec \<Rightarrow> config \<Rightarrow> string \<Rightarrow> string \<Rightarrow> int \<Rightarrow> tables \<Rightarrow> (delivery_error + retry_result) \<times> tables" where
  "retry_entry co cf i fresh now t =
     (case lock_dead_letter (cf_agent cf) i t of
        Some d \<Rightarrow>
          (case retry_dead_letter co cf d fresh now t of
             Inl e \<Rightarrow> (Inl e, t) | Inr (r, t') \<Rightarrow> (Inr r, t'))
      | None \<Rightarrow>
          (case find_row (cf_agent cf) i t of
             None \<Rightarrow> (Inr Entry_Not_Found, t)
           | Some r \<Rightarrow> (let (res, t') = retry_live cf i now r t in (Inr res, t'))))"

subsection \<open>Purge and reports\<close>

definition purgeable :: "string \<Rightarrow> int \<Rightarrow> queue_entry \<Rightarrow> bool" where
  "purgeable agent cutoff r \<longleftrightarrow>
     q_agent r = agent \<and> q_status r = DELIVERED \<and> (case q_delivered r of None \<Rightarrow> False | Some n \<Rightarrow> n < cutoff)"

text \<open>The identifiers the subquery selects, and the rows the statement deletes and returns.\<close>

definition purge_batch :: "string \<Rightarrow> int \<Rightarrow> tables \<Rightarrow> string list" where
  "purge_batch agent cutoff t =
     take 500 (map q_id (sort_key (\<lambda>r. (case q_delivered r of None \<Rightarrow> 0 | Some n \<Rightarrow> n, q_id r))
       (filter (purgeable agent cutoff) (queue t))))"

definition delete_ids :: "string \<Rightarrow> string list \<Rightarrow> tables \<Rightarrow> string list \<times> tables" where
  "delete_ids agent ids t =
     (let purged = map q_id (filter (\<lambda>r. q_id r \<in> set ids) (queue t)) in
      (purged,
       t\<lparr>queue := delete_rows (\<lambda>r. q_id r \<in> set ids) (queue t),
         ledger := delete_rows (\<lambda>l. l_agent l = agent \<and> l_entry l \<in> set purged) (ledger t)\<rparr>))"

function purge_loop :: "string \<Rightarrow> int \<Rightarrow> tables \<Rightarrow> nat \<times> tables" where
  "purge_loop agent cutoff t =
     (let (purged, t') = delete_ids agent (purge_batch agent cutoff t) t in
      if purged = [] then (0, t)
      else if length purged < 500 then (length purged, t')
      else (let (n, t'') = purge_loop agent cutoff t' in (length purged + n, t'')))"
  by pat_completeness auto

lemma delete_ids_shrinks:
  "delete_ids agent ids t = (purged, t') \<Longrightarrow> length (queue t') + length purged = length (queue t)"
  using sum_length_filter_compl [of "\<lambda>r. q_id r \<in> set ids" "queue t"]
  by (auto simp: delete_ids_def delete_rows_def Let_def)

termination purge_loop
  by (relation "measure (\<lambda>(agent, cutoff, t). length (queue t))")
    (auto dest!: delete_ids_shrinks [OF sym] simp flip: length_greater_0_conv)

declare purge_loop.simps [simp del]

definition purge_delivered :: "config \<Rightarrow> int \<Rightarrow> int \<Rightarrow> tables \<Rightarrow> nat \<times> tables" where
  "purge_delivered cf older_than_hours now t =
     purge_loop (cf_agent cf) (now - older_than_hours * 3600 * second) t"

record status_counts =
  n_pending :: nat
  n_in_flight :: nat
  n_delivered :: nat
  n_failed :: nat
  n_dead_letter :: nat

definition get_status_counts :: "config \<Rightarrow> tables \<Rightarrow> status_counts" where
  "get_status_counts cf t =
     (let n = (\<lambda>s. length (filter (\<lambda>r. q_agent r = cf_agent cf \<and> \<not> tombstoned t r \<and> q_status r = s) (queue t)))
      in \<lparr>n_pending = n PENDING, n_in_flight = n IN_FLIGHT, n_delivered = n DELIVERED, n_failed = n FAILED,
          n_dead_letter = length (filter (\<lambda>d. d_agent d = cf_agent cf) (dead t))\<rparr>)"

definition get_pending_entries :: "config \<Rightarrow> int \<Rightarrow> tables \<Rightarrow> queue_entry list" where
  "get_pending_entries cf n t = limit n (soonest_first (filter (deliverable (cf_agent cf) t) (queue t)))"

definition get_dead_letter_entries :: "config \<Rightarrow> int \<Rightarrow> tables \<Rightarrow> dead_letter list" where
  "get_dead_letter_entries cf n t =
     limit n (sort_key (\<lambda>d. - d_created d) (filter (\<lambda>d. d_agent d = cf_agent cf) (dead t)))"

end
