(* ===== verification/Delivery_Safety.thy ===== *)
theory Delivery_Safety
  imports Delivery_Queue
begin

text \<open>
  What the delivery queue promises: in every state that its operations reach, by whatever
  interleaving of agents, workers and crashes, an idempotency key is anchored to one delivery, a
  dead letter is never delivered again on its own, and nothing is delivered more often than its
  policy allows.
\<close>

subsection \<open>Rows\<close>

lemma update_rows_Nil [simp]: "update_rows p f [] = []"
  by (simp add: update_rows_def)

lemma map_update_rows: "(\<And>r. p r \<Longrightarrow> g (f r) = g r) \<Longrightarrow> map g (update_rows p f rows) = map g rows"
  by (simp add: update_rows_def)

lemma in_update_rows: "x \<in> set (update_rows p f rows) \<longleftrightarrow> (\<exists>r \<in> set rows. x = (if p r then f r else r))"
  by (auto simp: update_rows_def)

lemma in_delete_rows [simp]: "x \<in> set (delete_rows p rows) \<longleftrightarrow> x \<in> set rows \<and> \<not> p x"
  by (auto simp: delete_rows_def)

lemma distinct_delete_rows: "distinct (map g rows) \<Longrightarrow> distinct (map g (delete_rows p rows))"
  by (simp add: delete_rows_def distinct_map_filter)

lemma update_rows_id: "(\<And>r. r \<in> set rows \<Longrightarrow> p r \<Longrightarrow> f r = r) \<Longrightarrow> update_rows p f rows = rows"
  by (auto simp: update_rows_def intro: map_idI)

lemma delete_rows_none: "(\<And>r. r \<in> set rows \<Longrightarrow> \<not> p r) \<Longrightarrow> delete_rows p rows = rows"
  by (simp add: delete_rows_def)

lemma distinct_key: "distinct (map g rows) \<Longrightarrow> x \<in> set rows \<Longrightarrow> y \<in> set rows \<Longrightarrow> g x = g y \<Longrightarrow> x = y"
  by (meson distinct_map inj_onD)

lemma ex_update_rows: "(\<And>r. P (f r) = P r) \<Longrightarrow> (\<exists>x \<in> set (update_rows p f rows). P x) = (\<exists>x \<in> set rows. P x)"
  by (auto simp: update_rows_def)

lemma find_SomeD: "find P xs = Some x \<Longrightarrow> x \<in> set xs \<and> P x"
  by (auto simp: find_Some_iff)

lemma find_appended: "find P (xs @ ys) = (case find P xs of None \<Rightarrow> find P ys | Some x \<Rightarrow> Some x)"
  by (induction xs) auto

lemma update_rows_append: "update_rows p f (xs @ ys) = update_rows p f xs @ update_rows p f ys"
  by (simp add: update_rows_def)

lemma delete_update_rows:
  "(\<And>r. r \<in> set rows \<Longrightarrow> p r \<Longrightarrow> q r \<and> q (f r)) \<Longrightarrow> delete_rows q (update_rows p f rows) = delete_rows q rows"
  by (induction rows) (auto simp: delete_rows_def update_rows_def)

lemma delete_rows_cong: "(\<And>r. r \<in> set rows \<Longrightarrow> p r = q r) \<Longrightarrow> delete_rows p rows = delete_rows q rows"
  by (auto simp: delete_rows_def intro: filter_cong)

lemma find_row_Some: "find_row agent i t = Some r \<Longrightarrow> r \<in> set (queue t) \<and> q_id r = i \<and> q_agent r = agent"
  unfolding find_row_def is_row_def by (auto simp: find_Some_iff)

lemma find_row_None: "find_row agent i t = None \<longleftrightarrow> (\<forall>r \<in> set (queue t). \<not> is_row agent i r)"
  by (auto simp: find_row_def find_None_iff)

lemma find_claim_Some:
  "find_claim agent k t = Some c \<Longrightarrow> c \<in> set (ledger t) \<and> l_agent c = agent \<and> l_key c = k"
  unfolding find_claim_def by (auto simp: find_Some_iff)

lemma find_claim_None: "find_claim agent k t = None \<longleftrightarrow> (\<forall>l \<in> set (ledger t). \<not> (l_agent l = agent \<and> l_key l = k))"
  by (auto simp: find_claim_def find_None_iff)

definition dead_for :: "string \<Rightarrow> string \<Rightarrow> dead_letter \<Rightarrow> bool" where
  "dead_for agent i d \<longleftrightarrow> d_agent d = agent \<and> (d_original d = i \<or> d_retry d = Some i)"

lemma find_dead_None: "find_dead_letter_for_queue_id agent i t = None \<longleftrightarrow> (\<forall>d \<in> set (dead t). \<not> dead_for agent i d)"
  by (auto simp: find_dead_letter_for_queue_id_def first_of_def find_None_iff dead_for_def split: option.splits
    dest!: find_SomeD)

lemma find_dead_Some: "find_dead_letter_for_queue_id agent i t = Some d \<Longrightarrow> d \<in> set (dead t) \<and> dead_for agent i d"
  by (auto simp: find_dead_letter_for_queue_id_def first_of_def find_Some_iff dead_for_def split: option.splits)

lemma lock_dead_Some:
  "lock_dead_letter agent i t = Some d \<Longrightarrow> d \<in> set (dead t) \<and> d_agent d = agent \<and> (d_id d = i \<or> dead_for agent i d)"
  using find_dead_Some [of agent i t d]
  by (auto simp: lock_dead_letter_def first_of_def find_Some_iff dead_for_def split: option.splits)

lemma tombstoned_iff: "tombstoned t r \<longleftrightarrow> (\<exists>d \<in> set (dead t). dead_for (q_agent r) (q_id r) d)"
  by (auto simp: tombstoned_def list_ex_iff dead_for_def)

subsection \<open>The invariant\<close>

text \<open>A claim is anchored when its delivery is still there under its retry policy, live or as a dead letter.\<close>

definition held_by :: "key_claim \<Rightarrow> queue_entry \<Rightarrow> bool" where
  "held_by l r \<longleftrightarrow> is_row (l_agent l) (l_entry l) r \<and> l_retries l = Some (q_max_retries r)"

definition buried_in :: "key_claim \<Rightarrow> dead_letter \<Rightarrow> bool" where
  "buried_in l d \<longleftrightarrow> dead_for (l_agent l) (l_entry l) d \<and> l_retries l = d_max_retries d"

definition backed :: "tables \<Rightarrow> key_claim \<Rightarrow> bool" where
  "backed t l \<longleftrightarrow> (\<exists>r \<in> set (queue t). held_by l r) \<or> (\<exists>d \<in> set (dead t). buried_in l d)"

definition good_row :: "queue_entry \<Rightarrow> bool" where
  "good_row r \<longleftrightarrow> q_hash r \<noteq> None \<and> q_canonical r \<noteq> None \<and> (q_status r = DELIVERED \<longrightarrow> q_delivered r \<noteq> None) \<and>
     q_next_retry r \<noteq> None"

definition good_claim :: "key_claim \<Rightarrow> bool" where
  "good_claim l \<longleftrightarrow> l_retries l \<noteq> None \<and> l_legacy l \<noteq> None \<and> \<not> l_compensating l"

definition sound :: "tables \<Rightarrow> bool" where
  "sound t \<longleftrightarrow>
     distinct (map q_id (queue t)) \<and> distinct (map d_id (dead t)) \<and>
     distinct (map (\<lambda>d. (d_agent d, d_original d)) (dead t)) \<and>
     distinct (map (\<lambda>l. (l_agent l, l_key l)) (ledger t)) \<and>
     (\<forall>r \<in> set (queue t). good_row r \<and> \<not> tombstoned t r) \<and>
     (\<forall>d \<in> set (dead t). d_retry d = None \<and> d_legacy d \<noteq> None \<and> d_max_retries d \<noteq> None) \<and>
     (\<forall>l \<in> set (ledger t). good_claim l \<and> backed t l)"

definition known :: "tables \<Rightarrow> string set" where
  "known t = q_id ` set (queue t) \<union> d_id ` set (dead t) \<union> d_original ` set (dead t) \<union> l_entry ` set (ledger t) \<union>
     {i. Some i \<in> l_previous ` set (ledger t)}"

text \<open>Changing rows in place, without touching what identifies them.\<close>

definition in_place :: "(queue_entry \<Rightarrow> queue_entry) \<Rightarrow> bool" where
  "in_place f \<longleftrightarrow> (\<forall>r. q_id (f r) = q_id r \<and> q_agent (f r) = q_agent r \<and> q_max_retries (f r) = q_max_retries r)"

lemma update_queue_sound:
  assumes "sound t" and "in_place f" and "\<And>r. r \<in> set (queue t) \<Longrightarrow> p r \<Longrightarrow> good_row r \<Longrightarrow> good_row (f r)"
  shows "sound (t\<lparr>queue := update_rows p f (queue t)\<rparr>)"
proof -
  have ids: "map q_id (update_rows p f (queue t)) = map q_id (queue t)"
    using assms(2) by (intro map_update_rows) (simp add: in_place_def)
  have tomb: "tombstoned (t\<lparr>queue := q\<rparr>) r = tombstoned t r" for q r by (simp add: tombstoned_def)
  have row: "held_by l (f r) = held_by l r" for l r
    using assms(2) by (simp add: in_place_def is_row_def held_by_def)
  have anch: "backed (t\<lparr>queue := update_rows p f (queue t)\<rparr>) l = backed t l" for l
    unfolding backed_def using ex_update_rows [of "held_by l" f p "queue t", OF row] by simp
  have rows: "good_row r \<and> \<not> tombstoned t r" if m: "r \<in> set (update_rows p f (queue t))" for r
  proof -
    from m obtain x where x: "x \<in> set (queue t)" "r = (if p x then f x else x)" by (auto simp: in_update_rows)
    with assms(1) have g: "good_row x" "\<not> tombstoned t x" by (auto simp: sound_def)
    moreover have "tombstoned t r = tombstoned t x" using assms(2) x(2) by (simp add: tombstoned_iff in_place_def)
    moreover have "good_row r" using x g(1) assms(3) by simp
    ultimately show ?thesis by simp
  qed
  show ?thesis using assms(1) rows by (simp add: sound_def ids tomb anch)
qed

lemma set_entry_sound:
  assumes "sound t" and "in_place f" and "\<And>r. good_row r \<Longrightarrow> good_row (f r)"
  shows "sound (set_entry agent i f t)"
  unfolding set_entry_def using assms by (intro update_queue_sound) auto

lemma known_set_entry: "in_place f \<Longrightarrow> known (set_entry agent i f t) = known t"
proof -
  assume f: "in_place f"
  have "map q_id (update_rows (is_row agent i) f (queue t)) = map q_id (queue t)"
    using f by (intro map_update_rows) (simp add: in_place_def)
  then have "q_id ` set (update_rows (is_row agent i) f (queue t)) = q_id ` set (queue t)"
    by (metis list.set_map)
  then show ?thesis by (simp add: known_def set_entry_def)
qed

text \<open>A new row under a fresh identifier.\<close>

lemma insert_entry_sound:
  assumes "sound t" and "q_id r \<notin> known t" and "good_row r"
  shows "insert_entry r t = Some (t\<lparr>queue := queue t @ [r]\<rparr>)" and "sound (t\<lparr>queue := queue t @ [r]\<rparr>)"
proof -
  have new: "q_id r \<notin> q_id ` set (queue t)" using assms(2) by (auto simp: known_def)
  then show "insert_entry r t = Some (t\<lparr>queue := queue t @ [r]\<rparr>)" by (simp add: insert_entry_def)
  have tomb: "tombstoned (t\<lparr>queue := q\<rparr>) x = tombstoned t x" for q x by (simp add: tombstoned_def)
  have "\<not> tombstoned t r"
  proof
    assume "tombstoned t r"
    then obtain d where d: "d \<in> set (dead t)" "dead_for (q_agent r) (q_id r) d" by (auto simp: tombstoned_iff)
    with assms(1) have "d_retry d = None" by (auto simp: sound_def)
    with d have "d_original d = q_id r" by (simp add: dead_for_def)
    moreover have "d_original d \<in> known t" using d(1) by (simp add: known_def)
    ultimately have "q_id r \<in> known t" by simp
    with assms(2) show False by simp
  qed
  then show "sound (t\<lparr>queue := queue t @ [r]\<rparr>)"
    using assms new by (auto simp: sound_def tomb backed_def)
qed

text \<open>Duplicates are only ever adopted from eligible rows, and a sound queue has no hash to repair.\<close>

lemma newest_first_set [simp]: "set (newest_first rows) = set rows"
  by (simp add: newest_first_def)

lemma find_recent_duplicate_sound:
  assumes "sound t"
  shows "snd (find_recent_duplicate co agent recipient canonical legacy cutoff req t) = t"
    and "fst (find_recent_duplicate co agent recipient canonical legacy cutoff req t) = Some i \<Longrightarrow>
      \<exists>r \<in> set (queue t). q_id r = i \<and> dedup_eligible agent recipient cutoff req t r \<and> same_content canonical legacy r"
    and "fst (find_recent_duplicate co agent recipient canonical legacy cutoff req t) = None \<Longrightarrow>
      \<forall>r \<in> set (queue t). \<not> (dedup_eligible agent recipient cutoff req t r \<and> same_content canonical legacy r)"
proof -
  let ?e = "filter (dedup_eligible agent recipient cutoff req t) (queue t)"
  have n: "filter (\<lambda>r. q_canonical r = None) ?e = []"
    using assms by (auto simp: filter_empty_conv sound_def good_row_def)
  show "snd (find_recent_duplicate co agent recipient canonical legacy cutoff req t) = t"
    using n by (simp add: find_recent_duplicate_def Let_def newest_first_def split: list.splits)
  show "\<forall>r \<in> set (queue t). \<not> (dedup_eligible agent recipient cutoff req t r \<and> same_content canonical legacy r)"
    if "fst (find_recent_duplicate co agent recipient canonical legacy cutoff req t) = None"
  proof (cases "newest_first (filter (same_content canonical legacy) ?e)")
    case Nil
    then have "set (filter (same_content canonical legacy) ?e) = {}" by (metis newest_first_set set_empty)
    then show ?thesis by auto
  next
    case (Cons x xs)
    with that show ?thesis by (simp add: find_recent_duplicate_def Let_def)
  qed
  show "\<exists>r \<in> set (queue t). q_id r = i \<and> dedup_eligible agent recipient cutoff req t r \<and> same_content canonical legacy r"
    if "fst (find_recent_duplicate co agent recipient canonical legacy cutoff req t) = Some i"
  proof (cases "newest_first (filter (same_content canonical legacy) ?e)")
    case Nil
    with that n show ?thesis by (simp add: find_recent_duplicate_def Let_def newest_first_def)
  next
    case (Cons x xs)
    then have "x \<in> set (filter (same_content canonical legacy) ?e)" by (metis newest_first_set list.set_intros(1))
    with Cons that show ?thesis by (auto simp: find_recent_duplicate_def Let_def)
  qed
qed

subsection \<open>Every operation keeps it\<close>

lemma enqueue_plain_sound:
  assumes "sound t" and "entry_id \<notin> known t"
  shows "sound (snd (enqueue_plain co cf channel recipient content m entry_id cn now t))"
proof (cases "co_dumps co content")
  case (Some json)
  obtain legacy canonical where h: "persisted_content_hashes co recipient json = (legacy, canonical)" by fastforce
  let ?dup = "find_recent_duplicate co (cf_agent cf) recipient canonical legacy (dedup_cutoff cn) None t"
  have dup: "?dup = (fst ?dup, t)" using find_recent_duplicate_sound(1) [OF assms(1)] by (metis prod.collapse)
  let ?r = "new_entry entry_id (cf_agent cf) channel recipient json legacy canonical
    (case m of Some m \<Rightarrow> m | None \<Rightarrow> cf_max_retries cf) now"
  have r: "q_id ?r \<notin> known t" "good_row ?r" using assms(2) by (simp_all add: new_entry_def good_row_def)
  note ins = insert_entry_sound [OF assms(1) r]
  show ?thesis
  proof (cases "fst ?dup")
    case None
    then have "enqueue_plain co cf channel recipient content m entry_id cn now t = (Inr entry_id, t\<lparr>queue := queue t @ [?r]\<rparr>)"
      using Some h dup ins(1) by (simp add: enqueue_plain_def Let_def case_prod_beta)
    with ins(2) show ?thesis by simp
  next
    case (Some i)
    then have "snd (enqueue_plain co cf channel recipient content m entry_id cn now t) = t"
      using \<open>co_dumps co content = Some json\<close> h dup by (simp add: enqueue_plain_def Let_def case_prod_beta)
    with assms(1) show ?thesis by simp
  qed
qed (use assms in \<open>simp add: enqueue_plain_def\<close>)

text \<open>A key that is claimed already: a replay reads and changes nothing.\<close>

definition replay_answer :: "request \<Rightarrow> key_claim \<Rightarrow> tables \<Rightarrow> delivery_error + string" where
  "replay_answer rq c t =
     (if l_payload c \<noteq> rq_payload rq then Inl Conflict
      else if \<exists>d \<in> set (dead t). dead_for (l_agent c) (l_entry c) d then Inl Terminal
      else Inr (l_entry c))"

lemma keyed_claimed:
  assumes "sound t" and "find_claim agent (rq_digest rq) t = Some c"
  shows "keyed_body co agent rq candidate cn now t = (replay_answer rq c t, t)"
proof -
  let ?dup = "find_recent_duplicate co agent (rq_recipient rq) (rq_canonical rq) (rq_legacy rq) (dedup_cutoff cn)
    (Some (rq_channel rq, rq_retries rq)) t"
  obtain dv where dup: "?dup = (dv, t)" using find_recent_duplicate_sound(1) [OF assms(1)] by (metis prod.collapse)
  have key_claim: "claim_key agent rq candidate now t = t" using assms(2) by (simp add: claim_key_def)
  have c: "c \<in> set (ledger t)" "l_agent c = agent" using find_claim_Some [OF assms(2)] by auto
  then have good: "l_retries c \<noteq> None" "l_legacy c \<noteq> None" and anch: "backed t c"
    using assms(1) by (auto simp: sound_def good_claim_def)
  show ?thesis
  proof (cases "l_payload c = rq_payload rq \<and> \<not> (\<exists>d \<in> set (dead t). dead_for (l_agent c) (l_entry c) d)")
    case True
    then have nd: "find_dead_letter_for_queue_id agent (l_entry c) t = None" by (simp add: find_dead_None c(2))
    from True anch have "find_row agent (l_entry c) t \<noteq> None" by (auto simp: backed_def held_by_def buried_in_def find_row_None c(2))
    then obtain r where "find_row agent (l_entry c) t = Some r" by blast
    with True nd dup key_claim assms(2) good show ?thesis
      by (auto simp: keyed_body_def replay_answer_def adopt_live_def)
  next
    case False
    then have "l_payload c = rq_payload rq \<Longrightarrow> find_dead_letter_for_queue_id agent (l_entry c) t \<noteq> None"
      by (auto simp: find_dead_None c(2))
    with False dup key_claim assms(2) show ?thesis
      by (auto simp: keyed_body_def replay_answer_def)
  qed
qed

text \<open>A new key: one new row, or one recent row of the same content adopted.\<close>

definition first_claim :: "string \<Rightarrow> request \<Rightarrow> string \<Rightarrow> int \<Rightarrow> key_claim" where
  "first_claim agent rq candidate now =
     \<lparr>l_agent = agent, l_key = rq_digest rq, l_entry = candidate, l_payload = rq_payload rq, l_created = now,
      l_compensating = False, l_previous = None, l_retries = Some (rq_retries rq), l_legacy = Some (rq_legacy rq)\<rparr>"

definition adopting_claim :: "string \<Rightarrow> request \<Rightarrow> string \<Rightarrow> int \<Rightarrow> queue_entry \<Rightarrow> key_claim" where
  "adopting_claim agent rq candidate now r =
     (first_claim agent rq candidate now)\<lparr>l_entry := q_id r, l_previous := Some candidate, l_legacy := q_hash r\<rparr>"

definition keyed_entry :: "string \<Rightarrow> request \<Rightarrow> string \<Rightarrow> int \<Rightarrow> queue_entry" where
  "keyed_entry agent rq candidate now =
     new_entry candidate agent (rq_channel rq) (rq_recipient rq) (rq_content rq) (rq_legacy rq) (rq_canonical rq)
       (rq_retries rq) now"

lemma claim_key_new:
  "find_claim agent (rq_digest rq) t = None \<Longrightarrow>
     claim_key agent rq candidate now t = t\<lparr>ledger := ledger t @ [first_claim agent rq candidate now]\<rparr>"
  by (simp add: claim_key_def first_claim_def)

lemma find_claim_appended:
  "find_claim agent (rq_digest rq) t = None \<Longrightarrow>
     find_claim agent (rq_digest rq) (t\<lparr>ledger := ledger t @ [first_claim agent rq candidate now]\<rparr>) =
       Some (first_claim agent rq candidate now)"
  by (simp add: find_claim_def find_appended first_claim_def split: option.splits)

lemma fresh_not_dead:
  assumes "sound t" and "i \<notin> known t"
  shows "lock_dead_letter agent i t = None" and "find_dead_letter_for_queue_id agent i t = None"
    and "find_row agent i t = None"
proof -
  have d: "\<not> dead_for agent i d \<and> d_id d \<noteq> i" if "d \<in> set (dead t)" for d
  proof -
    have "d_retry d = None" using assms(1) that by (auto simp: sound_def)
    moreover have "d_original d \<in> known t" "d_id d \<in> known t" using that by (auto simp: known_def)
    ultimately show ?thesis using assms(2) by (auto simp: dead_for_def)
  qed
  then show "find_dead_letter_for_queue_id agent i t = None" by (simp add: find_dead_None)
  then show "lock_dead_letter agent i t = None"
    using d by (auto simp: lock_dead_letter_def first_of_def find_None_iff split: option.splits dest!: find_SomeD)
  show "find_row agent i t = None" using assms(2) by (auto simp: find_row_None is_row_def known_def)
qed

lemma dead_ledger [simp]:
  "lock_dead_letter agent i (t\<lparr>ledger := x\<rparr>) = lock_dead_letter agent i t"
  "find_dead_letter_for_queue_id agent i (t\<lparr>ledger := x\<rparr>) = find_dead_letter_for_queue_id agent i t"
  "find_row agent i (t\<lparr>ledger := x\<rparr>) = find_row agent i t"
  by (simp_all add: lock_dead_letter_def find_dead_letter_for_queue_id_def find_row_def)

lemma keyed_new:
  assumes "sound t" and "find_claim agent (rq_digest rq) t = None" and "candidate \<notin> known t"
    and "dup = fst (find_recent_duplicate co agent (rq_recipient rq) (rq_canonical rq) (rq_legacy rq)
    (dedup_cutoff cn) (Some (rq_channel rq, rq_retries rq)) t)"
  shows "dup = None \<Longrightarrow> keyed_body co agent rq candidate cn now t =
      (Inr candidate, t\<lparr>queue := queue t @ [keyed_entry agent rq candidate now],
         ledger := ledger t @ [first_claim agent rq candidate now]\<rparr>)"
    and "dup = Some i \<Longrightarrow> \<exists>r. find_row agent i t = Some r \<and> q_max_retries r = rq_retries rq \<and> keyed_body co agent rq candidate cn now t =
      (Inr i, t\<lparr>ledger := ledger t @ [adopting_claim agent rq candidate now r]\<rparr>)"
proof -
  let ?dup = "find_recent_duplicate co agent (rq_recipient rq) (rq_canonical rq) (rq_legacy rq) (dedup_cutoff cn)
    (Some (rq_channel rq, rq_retries rq)) t"
  let ?c = "first_claim agent rq candidate now"
  let ?t1 = "t\<lparr>ledger := ledger t @ [?c]\<rparr>"
  have d: "?dup = (dup, t)" unfolding assms(4) using find_recent_duplicate_sound(1) [OF assms(1)] by (metis prod.collapse)
  note fresh = fresh_not_dead [OF assms(1,3)]
  have c: "l_entry ?c = candidate" "l_payload ?c = rq_payload rq" "l_retries ?c = Some (rq_retries rq)"
    "l_legacy ?c = Some (rq_legacy rq)" "l_agent ?c = agent" "l_previous ?c = None"
    by (simp_all add: first_claim_def)
  have body: "keyed_body co agent rq candidate cn now t = repair_claim co agent rq candidate cn now dup ?c ?t1"
    using d c fresh by (simp add: keyed_body_def claim_key_new [OF assms(2)] find_claim_appended [OF assms(2)])
  have others: "\<not> (l_agent l = agent \<and> l_entry l = candidate)" if "l \<in> set (ledger t)" for l
    using assms(3) that by (auto simp: known_def)
  show "\<exists>r. find_row agent i t = Some r \<and> q_max_retries r = rq_retries rq \<and> keyed_body co agent rq candidate cn now t =
      (Inr i, t\<lparr>ledger := ledger t @ [adopting_claim agent rq candidate now r]\<rparr>)" if dup: "dup = Some i"
  proof -
    from find_recent_duplicate_sound(2) [OF assms(1), of co agent "rq_recipient rq" "rq_canonical rq" "rq_legacy rq"
      "dedup_cutoff cn" "Some (rq_channel rq, rq_retries rq)" i] dup
    obtain x where x: "x \<in> set (queue t)" "q_id x = i" "q_agent x = agent" "q_max_retries x = rq_retries rq"
      unfolding assms(4) by (auto simp: dedup_eligible_def)
    then have "find_row agent i t \<noteq> None" by (auto simp: find_row_None is_row_def)
    then obtain r where r: "find_row agent i t = Some r" by blast
    have "distinct (map q_id (queue t))" using assms(1) by (simp add: sound_def)
    from distinct_key [OF this x(1), of r] find_row_Some [OF r] x(2) have "r = x" by simp
    have "update_rows (\<lambda>l. l_agent l = agent \<and> l_entry l = candidate) f (ledger t) = ledger t" for f
      by (rule update_rows_id) (use others in blast)
    then have "update_rows (\<lambda>l. l_agent l = agent \<and> l_entry l = candidate) f (ledger t @ [?c]) = ledger t @ [f ?c]" for f
      using c by (simp add: update_rows_append) (simp add: update_rows_def)
    then have "keyed_body co agent rq candidate cn now t =
        (Inr i, t\<lparr>ledger := ledger t @ [adopting_claim agent rq candidate now r]\<rparr>)"
      unfolding body using c fresh r dup find_row_Some [OF r]
      by (simp add: repair_claim_def move_claims_def adopting_claim_def first_claim_def)
    with r x(4) \<open>r = x\<close> show ?thesis by blast
  qed
  show "keyed_body co agent rq candidate cn now t =
      (Inr candidate, t\<lparr>queue := queue t @ [keyed_entry agent rq candidate now], ledger := ledger t @ [?c]\<rparr>)"
    if dup: "dup = None"
  proof -
    have no: "list_ex (\<lambda>l. l_agent l = agent \<and> l_entry l = q_id r \<and> l_previous l = Some candidate) (ledger ?t1) = False" for r
    proof -
      have "l_previous l \<noteq> Some candidate" if "l \<in> set (ledger t)" for l
        using assms(3) that by (auto simp: known_def image_def)
      then show ?thesis using c(6) by (auto simp: list_ex_iff)
    qed
    then have rep: "find_replacement_for_prior_entry agent candidate recipient canonical legacy channel retries ?t1 = Inr None"
      for recipient canonical legacy channel retries
      unfolding find_replacement_for_prior_entry_def no by simp
    have "candidate \<notin> set (map q_id (queue t))" using assms(3) by (auto simp: known_def)
    then have ins: "insert_entry (keyed_entry agent rq candidate now) ?t1 =
        Some (?t1\<lparr>queue := queue t @ [keyed_entry agent rq candidate now]\<rparr>)"
      by (simp add: insert_entry_def keyed_entry_def new_entry_def)
    have leg: "text_or (Some x) x = x" for x by (simp add: text_or_def)
    show ?thesis
      unfolding body using c fresh dup rep ins
      by (simp add: repair_claim_def recreate_entry_def leg keyed_entry_def)
  qed
qed

lemma append_claim_sound:
  assumes "sound t" and "find_claim (l_agent l) (l_key l) t = None" and "good_claim l" and "backed t l"
  shows "sound (t\<lparr>ledger := ledger t @ [l]\<rparr>)"
proof -
  have "backed (t\<lparr>ledger := x\<rparr>) = backed t" "tombstoned (t\<lparr>ledger := x\<rparr>) = tombstoned t" for x
    by (auto simp: backed_def tombstoned_def)
  then show ?thesis using assms by (auto simp: sound_def find_claim_None)
qed

lemma keyed_body_sound:
  assumes "sound t" and "candidate \<notin> known t"
  shows "sound (snd (keyed_body co agent rq candidate cn now t))"
proof (cases "find_claim agent (rq_digest rq) t")
  case (Some c)
  with assms(1) show ?thesis by (simp add: keyed_claimed)
next
  case None
  note new = keyed_new [where co = co and cn = cn and now = now, OF assms(1) None assms(2) refl]
  show ?thesis
  proof (cases "fst (find_recent_duplicate co agent (rq_recipient rq) (rq_canonical rq) (rq_legacy rq)
    (dedup_cutoff cn) (Some (rq_channel rq, rq_retries rq)) t)")
    case (Some i)
    from new(2) [OF Some] obtain r where r: "find_row agent i t = Some r" "q_max_retries r = rq_retries rq" and b: "keyed_body co agent rq candidate cn now t =
      (Inr i, t\<lparr>ledger := ledger t @ [adopting_claim agent rq candidate now r]\<rparr>)" by blast
    from find_row_Some [OF r(1)] have m: "r \<in> set (queue t)" "q_id r = i" "q_agent r = agent" by auto
    with assms(1) have "q_hash r \<noteq> None" by (auto simp: sound_def good_row_def)
    have "held_by (adopting_claim agent rq candidate now r) r"
      using m r(2) by (simp add: held_by_def is_row_def adopting_claim_def first_claim_def)
    then have "backed t (adopting_claim agent rq candidate now r)" using m(1) by (auto simp: backed_def)
    then show ?thesis unfolding b using None \<open>q_hash r \<noteq> None\<close> assms(1)
      by (auto intro!: append_claim_sound simp: adopting_claim_def first_claim_def good_claim_def)
  next
    case n: None
    let ?r = "keyed_entry agent rq candidate now"
    have r: "q_id ?r \<notin> known t" "good_row ?r" using assms(2) by (simp_all add: keyed_entry_def new_entry_def good_row_def)
    let ?t = "t\<lparr>queue := queue t @ [?r]\<rparr>"
    have "find_claim agent (rq_digest rq) ?t = None" using None by (simp add: find_claim_def)
    moreover have "backed ?t (first_claim agent rq candidate now)"
      by (auto simp: backed_def held_by_def first_claim_def is_row_def keyed_entry_def new_entry_def)
    ultimately have "sound (?t\<lparr>ledger := ledger ?t @ [first_claim agent rq candidate now]\<rparr>)"
      using insert_entry_sound(2) [OF assms(1) r]
      by (intro append_claim_sound) (simp_all add: first_claim_def good_claim_def)
    then show ?thesis unfolding new(1) [OF n] by simp
  qed
qed

text \<open>Errors write nothing, so the compensation of a joined transaction has nothing to undo.\<close>

lemma keyed_error_unchanged:
  assumes "sound t" and "candidate \<notin> known t" and "keyed_body co agent rq candidate cn now t = (Inl e, t')"
  shows "t' = t" and "compensate agent (rq_digest rq) candidate t' = t"
proof -
  show "t' = t"
  proof (cases "find_claim agent (rq_digest rq) t")
    case (Some c)
    with assms show ?thesis by (simp add: keyed_claimed)
  next
    case None
    note new = keyed_new [where co = co and cn = cn and now = now, OF assms(1) None assms(2) refl]
    show ?thesis
    proof (cases "fst (find_recent_duplicate co agent (rq_recipient rq) (rq_canonical rq) (rq_legacy rq)
      (dedup_cutoff cn) (Some (rq_channel rq, rq_retries rq)) t)")
      case None
      with new(1) assms(3) show ?thesis by simp
    next
      case (Some i)
      from new(2) [OF Some] assms(3) show ?thesis by auto
    qed
  qed
  moreover have "\<not> list_ex (\<lambda>l. l_agent l = agent \<and> l_key l = rq_digest rq \<and> l_entry l = candidate \<and> \<not> l_compensating l) (ledger t)"
    using assms(2) by (auto simp: list_ex_iff known_def)
  ultimately show "compensate agent (rq_digest rq) candidate t' = t" by (simp add: compensate_def)
qed

lemma enqueue_idempotent_sound:
  assumes "sound t" and "candidate \<notin> known t"
  shows "sound (snd (enqueue_idempotent co cf channel recipient content m key candidate cn now kept t))"
proof (cases "prepare_request co cf channel recipient content m key")
  case (Inr rq)
  show ?thesis
  proof (cases "keyed_body co (cf_agent cf) rq candidate cn now t")
    case (Pair r t')
    have "sound t'" using keyed_body_sound [OF assms, of co "cf_agent cf" rq cn now] by (simp add: Pair)
    show ?thesis
    proof (cases r)
      case (Inl e)
      with keyed_error_unchanged [OF assms, of co "cf_agent cf" rq cn now e t'] Pair assms(1) show ?thesis
        by (simp add: enqueue_idempotent_def Inr split: option.splits)
    next
      case (Inr i)
      with \<open>sound t'\<close> assms(1) Pair \<open>prepare_request co cf channel recipient content m key = Inr rq\<close> show ?thesis
        by (simp add: enqueue_idempotent_def split: option.splits)
    qed
  qed
qed (use assms in \<open>simp add: enqueue_idempotent_def\<close>)

text \<open>Moving a row to the dead letters hands its claims over to the tombstone.\<close>

definition tombstone :: "string \<Rightarrow> string \<Rightarrow> int \<Rightarrow> queue_entry \<Rightarrow> dead_letter" where
  "tombstone fresh reason now r =
     \<lparr>d_id = fresh, d_original = q_id r, d_agent = q_agent r, d_channel = q_channel r, d_recipient = q_recipient r,
      d_content = q_content r, d_error = reason, d_attempts = q_attempts r, d_created = now,
      d_max_retries = Some (q_max_retries r), d_retry = None, d_legacy = q_hash r\<rparr>"

lemma move_to_dead_letter_live:
  assumes "sound t" and "find_row agent i t = Some r" and "fresh \<notin> known t"
  shows "move_to_dead_letter agent i reason fresh now t =
    Some (t\<lparr>queue := delete_rows (is_row agent i) (queue t), dead := dead t @ [tombstone fresh reason now r]\<rparr>)"
proof -
  from find_row_Some [OF assms(2)] have r: "r \<in> set (queue t)" "q_id r = i" "q_agent r = agent" by auto
  with assms(1) have "\<not> tombstoned t r" by (auto simp: sound_def)
  with r have "find_dead_letter_for_queue_id agent i t = None" by (simp add: find_dead_None tombstoned_iff)
  moreover have "fresh \<notin> set (map d_id (dead t))" using assms(3) by (auto simp: known_def)
  ultimately show ?thesis using assms(2) by (simp add: move_to_dead_letter_def tombstone_def)
qed

lemma move_to_dead_letter_sound:
  assumes "sound t" and "fresh \<notin> known t" and "move_to_dead_letter agent i reason fresh now t = Some t'"
  shows "sound t'"
proof (cases "find_row agent i t")
  case None
  with assms(1,3) show ?thesis by (simp add: move_to_dead_letter_def)
next
  case (Some r)
  let ?d = "tombstone fresh reason now r" and ?q = "delete_rows (is_row agent i) (queue t)"
  have t': "t' = t\<lparr>queue := ?q, dead := dead t @ [?d]\<rparr>"
    using assms(3) move_to_dead_letter_live [OF assms(1) Some assms(2)] by simp
  from find_row_Some [OF Some] have r: "r \<in> set (queue t)" "q_id r = i" "q_agent r = agent" by auto
  with assms(1) have g: "good_row r" by (auto simp: sound_def)
  have dead: "dead_for a j ?d \<longleftrightarrow> a = agent \<and> j = i" for a j using r by (auto simp: dead_for_def tombstone_def)
  have ids: "distinct (map q_id (queue t))" "distinct (map d_id (dead t))" using assms(1) by (auto simp: sound_def)
  have "distinct (map d_id (dead t @ [?d]))" using ids(2) assms(2) by (auto simp: known_def tombstone_def)
  moreover have "good_row x \<and> \<not> tombstoned t' x" if "x \<in> set ?q" for x
  proof -
    from that have x: "x \<in> set (queue t)" "\<not> is_row agent i x" by auto
    with assms(1) have "good_row x" "\<not> tombstoned t x" by (auto simp: sound_def)
    with x(2) show ?thesis by (auto simp: t' tombstoned_iff dead is_row_def)
  qed
  moreover have "backed t' l" if l: "l \<in> set (ledger t)" for l
  proof -
    have "backed t l" using assms(1) l by (auto simp: sound_def)
    then show ?thesis unfolding backed_def
    proof (elim disjE bexE)
      fix x assume x: "x \<in> set (queue t)" "held_by l x"
      show "(\<exists>r \<in> set (queue t'). held_by l r) \<or> (\<exists>d \<in> set (dead t'). buried_in l d)"
      proof (cases "is_row agent i x")
        case True
        then have "x = r" using distinct_key [OF ids(1) x(1) r(1)] r(2) by (simp add: is_row_def)
        with x(2) True have "buried_in l ?d"
          by (auto simp: held_by_def buried_in_def dead is_row_def) (simp add: tombstone_def)
        then show ?thesis by (auto simp: t')
      next
        case False
        with x show ?thesis by (auto simp: t')
      qed
    qed (auto simp: t')
  qed
  moreover have "distinct (map (\<lambda>d. (d_agent d, d_original d)) (dead t @ [?d]))"
  proof -
    have "\<not> tombstoned t r" using assms(1) r(1) by (auto simp: sound_def)
    then have "\<forall>d \<in> set (dead t). \<not> (d_agent d = q_agent r \<and> d_original d = q_id r)"
      by (auto simp: tombstoned_iff dead_for_def)
    then show ?thesis using assms(1) by (auto simp: sound_def tombstone_def)
  qed
  ultimately show ?thesis
    using assms(1) g ids distinct_delete_rows [OF ids(1)]
    by (auto simp: sound_def t' good_row_def tombstone_def)
qed

lemma attempt_delivery_sound:
  assumes "sound t" and "fresh \<notin> known t"
  shows "sound (attempt_delivery cf deliver noop e fresh now n t)"
proof -
  let ?a = "cf_agent cf" and ?res = "delivery_result deliver noop e"
  let ?t1 = "if n < 1 then t else mark_in_flight ?a e t"
  let ?t2 = "if n < 2 then ?t1 else settle_delivery ?a e ?res now ?t1"
  have m: "sound (mark_in_flight ?a e x) \<and> fresh \<notin> known (mark_in_flight ?a e x)" if "sound x" "fresh \<notin> known x" for x
    unfolding mark_in_flight_def using that
    by (auto intro!: set_entry_sound simp: known_set_entry in_place_def good_row_def)
  have t1: "sound ?t1" "fresh \<notin> known ?t1" using m [OF assms] assms by auto
  have s: "sound (settle_delivery ?a e ?res now x) \<and> fresh \<notin> known (settle_delivery ?a e ?res now x)"
    if "sound x" "fresh \<notin> known x" for x
    unfolding settle_delivery_def Let_def using that
    by (auto split: outcome.splits intro!: set_entry_sound simp: known_set_entry in_place_def good_row_def)
  define t2 where "t2 = ?t2"
  have t2: "sound t2" "fresh \<notin> known t2" using s [OF t1] t1 by (auto simp: t2_def)
  have "sound t3" if "bury_exhausted ?a e ?res fresh now t2 = Some t3" for t3
    using that t2 move_to_dead_letter_sound [OF t2]
    by (auto simp: bury_exhausted_def split: outcome.splits if_splits)
  moreover have "attempt_delivery cf deliver noop e fresh now n t =
      (if n < 3 then t2 else case bury_exhausted ?a e ?res fresh now t2 of None \<Rightarrow> t2 | Some t3 \<Rightarrow> t3)"
    unfolding attempt_delivery_def Let_def t2_def by (rule refl)
  ultimately show ?thesis using t2(1) by (simp split: option.splits)
qed

lemma reclaim_sound: "sound t \<Longrightarrow> sound (snd (reclaim_in_flight cf now t))"
  by (auto simp: reclaim_in_flight_def Let_def in_place_def good_row_def intro!: update_queue_sound)

text \<open>A retried dead letter becomes one new row, and every claim of the delivery follows it.\<close>

lemma some_values_const: "set vs \<subseteq> {Some m} \<Longrightarrow> some_values vs = (if vs = [] then [] else [m])"
proof -
  assume "set vs \<subseteq> {Some m}"
  then have "map the (filter (\<lambda>v. v \<noteq> None) vs) = replicate (length vs) m" by (induction vs) auto
  moreover have "remdups (replicate n m) = (if n = 0 then [] else [m])" for n by (induction n) (auto simp: set_replicate_conv_if)
  ultimately show ?thesis by (simp add: some_values_def)
qed

lemma buried_claims:
  assumes "sound t" and "d \<in> set (dead t)" and "l \<in> set (ledger t)" and "l_agent l = d_agent d" and "l_entry l = d_original d"
  shows "l_retries l = d_max_retries d"
proof -
  have "backed t l" using assms(1,3) by (auto simp: sound_def)
  then show ?thesis unfolding backed_def
  proof (elim disjE bexE)
    fix r assume r: "r \<in> set (queue t)" "held_by l r"
    with assms(2,4,5) have "tombstoned t r" by (auto simp: tombstoned_iff held_by_def is_row_def dead_for_def)
    with r(1) assms(1) show ?thesis by (auto simp: sound_def)
  next
    fix x assume x: "x \<in> set (dead t)" "buried_in l x"
    have "d_retry x = None" and u: "distinct (map (\<lambda>d. (d_agent d, d_original d)) (dead t))"
      using assms(1) x(1) by (auto simp: sound_def)
    with x have "d_agent x = l_agent l" "d_original x = l_entry l" by (auto simp: buried_in_def dead_for_def)
    with assms(4,5) have "x = d" using distinct_key [OF u x(1) assms(2)] by simp
    with x(2) show ?thesis by (simp add: buried_in_def)
  qed
qed

text \<open>The claims of a delivery follow it to the new row.\<close>

definition follow :: "string \<Rightarrow> dead_letter \<Rightarrow> string \<Rightarrow> int \<Rightarrow> int \<Rightarrow> string \<Rightarrow> key_claim list \<Rightarrow> key_claim list" where
  "follow agent d fresh now policy legacy claims =
     update_rows (\<lambda>l. l_agent l = agent \<and> l_entry l = d_original d)
       (\<lambda>l. l\<lparr>l_entry := fresh, l_created := now, l_compensating := False,
              l_previous := first_of (l_previous l) (Some (d_original d)),
              l_retries := first_of (l_retries l) (Some policy), l_legacy := first_of (l_legacy l) (Some legacy)\<rparr>) claims"

lemma retry_dead_letter_exact:
  assumes "sound t" and "fresh \<notin> known t" and "fresh \<noteq> []" and "d \<in> set (dead t)" and "d_agent d = cf_agent cf"
  shows "\<exists>legacy canonical. retry_dead_letter co cf d fresh now t =
    Inr (Re_Enqueued fresh (d_original d),
      t\<lparr>queue := queue t @ [new_entry fresh (cf_agent cf) (d_channel d) (d_recipient d) (d_content d)
           legacy canonical (the (d_max_retries d)) now],
        dead := delete_rows (\<lambda>x. x = d) (dead t),
        ledger := follow (cf_agent cf) d fresh now (the (d_max_retries d)) legacy (ledger t)\<rparr>)"
proof -
  let ?a = "cf_agent cf" and ?o = "d_original d"
  from assms(1,4) have dn: "d_retry d = None" and ids: "distinct (map q_id (queue t))" "distinct (map d_id (dead t))"
    by (auto simp: sound_def)
  from assms(1,4) have "d_legacy d \<noteq> None" "d_max_retries d \<noteq> None" by (auto simp: sound_def)
  then obtain y m where y: "d_legacy d = Some y" and m: "d_max_retries d = Some m" by blast
  have new_id: "text_or (d_retry d) fresh = fresh" by (simp add: dn text_or_def)
  have "?o \<in> known t" using assms(4) by (simp add: known_def)
  with assms(2) have ne: "?o \<noteq> fresh" by blast
  have no_row: "\<not> is_row ?a ?o r" if "r \<in> set (queue t)" for r
  proof
    assume "is_row ?a ?o r"
    then have "tombstoned t r" using assms(4,5) by (auto simp: tombstoned_iff is_row_def dead_for_def)
    with assms(1) that show False by (auto simp: sound_def)
  qed
  have q1: "delete_rows (is_row ?a ?o) (queue t) = queue t" by (rule delete_rows_none) (rule no_row)
  have same: "x = d" if "x \<in> set (dead t)" "d_id x = d_id d" for x
    using distinct_key [OF ids(2) that(1) assms(4) that(2)] .
  let ?dead1 = "update_rows (\<lambda>x. d_id x = d_id d \<and> d_agent x = ?a \<and> d_retry x = None) (\<lambda>x. x\<lparr>d_retry := Some fresh\<rparr>) (dead t)"
  have "delete_rows (\<lambda>x. d_id x = d_id d \<and> d_agent x = ?a) ?dead1 = delete_rows (\<lambda>x. d_id x = d_id d \<and> d_agent x = ?a) (dead t)"
    by (rule delete_update_rows) simp
  also have "\<dots> = delete_rows (\<lambda>x. x = d) (dead t)"
    by (rule delete_rows_cong) (use same assms(5) in blast)
  finally have gone: "delete_rows (\<lambda>x. d_id x = d_id d \<and> d_agent x = ?a) ?dead1 = delete_rows (\<lambda>x. x = d) (dead t)" .
  have there: "list_ex (\<lambda>x. d_id x = d_id d \<and> d_agent x = ?a) ?dead1"
    unfolding list_ex_iff by (subst ex_update_rows) (use assms(4,5) in auto)
  have ins: "insert_entry (new_entry fresh ?a c r b l k n now) (t\<lparr>dead := x\<rparr>) =
      Some (t\<lparr>queue := queue t @ [new_entry fresh ?a c r b l k n now], dead := x\<rparr>)" for c r b l k n x
    using assms(2) by (auto simp: insert_entry_def new_entry_def known_def)
  obtain computed canonical where h: "persisted_content_hashes co (d_recipient d) (d_content d) = (computed, canonical)" by fastforce
  let ?claims = "filter (\<lambda>l. l_agent l = ?a \<and> l_entry l = ?o) (ledger t)"
  have "set (map l_retries ?claims) \<subseteq> {Some m}"
    using buried_claims [OF assms(1,4)] assms(5) m by auto
  then have pol: "some_values (map l_retries ?claims) = (if map l_retries ?claims = [] then [] else [m])" by (rule some_values_const)
  define legacy where "legacy = text_or (Some y) (text_or (first_value (some_values (map l_legacy ?claims))) computed)"
  have t1: "t\<lparr>queue := queue t, dead := ?dead1\<rparr> = t\<lparr>dead := ?dead1\<rparr>" by simp
  have "retry_dead_letter co cf d fresh now t = Inr (Re_Enqueued fresh ?o,
      t\<lparr>queue := queue t @ [new_entry fresh ?a (d_channel d) (d_recipient d) (d_content d) legacy canonical m now],
        dead := delete_rows (\<lambda>x. x = d) (dead t), ledger := follow ?a d fresh now m legacy (ledger t)\<rparr>)"
    unfolding retry_dead_letter_def Let_def h new_id pol m y prod.case q1 if_P [OF ne] t1 ins option.case
      legacy_def [symmetric] follow_def
    using there gone by (auto simp: first_value_def)
  then show ?thesis using m by auto
qed

lemma retry_dead_letter_sound:
  assumes "sound t" and "fresh \<notin> known t" and "fresh \<noteq> []" and "d \<in> set (dead t)" and "d_agent d = cf_agent cf"
    and "retry_dead_letter co cf d fresh now t = Inr (res, t')"
  shows "sound t'"
proof -
  let ?a = "cf_agent cf" and ?o = "d_original d" and ?m = "the (d_max_retries d)"
  from retry_dead_letter_exact [OF assms(1-5), of co now] assms(6) obtain legacy canonical where
    t': "t' = t\<lparr>queue := queue t @ [new_entry fresh ?a (d_channel d) (d_recipient d) (d_content d) legacy canonical ?m now],
        dead := delete_rows (\<lambda>x. x = d) (dead t), ledger := follow ?a d fresh now ?m legacy (ledger t)\<rparr>" by auto
  let ?r = "new_entry fresh ?a (d_channel d) (d_recipient d) (d_content d) legacy canonical ?m now"
  let ?mine = "\<lambda>l. l_agent l = ?a \<and> l_entry l = ?o"
  from assms(1,4) have dn: "d_retry d = None" "d_max_retries d \<noteq> None"
    and ids: "distinct (map d_id (dead t))" "distinct (map (\<lambda>d. (d_agent d, d_original d)) (dead t))"
    by (auto simp: sound_def)
  have r: "q_id ?r \<notin> known t" "good_row ?r" using assms(2) by (simp_all add: new_entry_def good_row_def)
  note ins_sound = insert_entry_sound(2) [OF assms(1) r]
  have keys: "map (\<lambda>l. (l_agent l, l_key l)) (follow ?a d fresh now ?m legacy (ledger t)) = map (\<lambda>l. (l_agent l, l_key l)) (ledger t)"
    unfolding follow_def by (rule map_update_rows) simp
  have rows: "good_row x \<and> \<not> tombstoned t' x" if "x \<in> set (queue t @ [?r])" for x
  proof -
    from that ins_sound have "good_row x" "\<not> tombstoned (t\<lparr>queue := queue t @ [?r]\<rparr>) x" by (auto simp: sound_def)
    then show ?thesis by (auto simp: t' tombstoned_iff)
  qed
  have claims: "good_claim l \<and> backed t' l" if lm: "l \<in> set (follow ?a d fresh now ?m legacy (ledger t))" for l
  proof -
    from lm obtain x where x: "x \<in> set (ledger t)"
      and l: "l = (if ?mine x then x\<lparr>l_entry := fresh, l_created := now, l_compensating := False,
              l_previous := first_of (l_previous x) (Some ?o),
              l_retries := first_of (l_retries x) (Some ?m), l_legacy := first_of (l_legacy x) (Some legacy)\<rparr> else x)"
      unfolding follow_def in_update_rows by blast
    with assms(1) have g: "good_claim x" "backed t x" by (auto simp: sound_def)
    show ?thesis
    proof (cases "?mine x")
      case True
      have "l_retries x = d_max_retries d" using buried_claims [OF assms(1,4) x] True assms(5) by simp
      then have "held_by l ?r" using True l dn(2) by (auto simp: held_by_def is_row_def new_entry_def first_of_def)
      then have "backed t' l" by (auto simp: backed_def t')
      moreover have "good_claim l" using g(1) True l by (auto simp: good_claim_def first_of_def)
      ultimately show ?thesis by simp
    next
      case False
      have keep: "y \<in> set (dead t')" if "y \<in> set (dead t)" "buried_in x y" for y
        using that False assms(5) dn by (auto simp: t' buried_in_def dead_for_def)
      from g(2) have "backed t' x" unfolding backed_def
      proof (elim disjE bexE)
        fix y assume "y \<in> set (queue t)" "held_by x y"
        then show "(\<exists>r \<in> set (queue t'). held_by x r) \<or> (\<exists>d \<in> set (dead t'). buried_in x d)" by (auto simp: t')
      qed (use keep in blast)
      moreover have "l = x" unfolding l by (rule if_not_P [OF False])
      ultimately show ?thesis using g(1) by simp
    qed
  qed
  have "distinct (map q_id (queue t @ [?r]))" using ins_sound by (simp add: sound_def)
  then show ?thesis
    using assms(1) rows claims keys distinct_delete_rows [OF ids(1)] distinct_delete_rows [OF ids(2)]
    by (simp add: sound_def t')
qed

lemma retry_entry_sound:
  assumes "sound t" and "fresh \<notin> known t" and "fresh \<noteq> []"
  shows "sound (snd (retry_entry co cf i fresh now t))"
proof (cases "lock_dead_letter (cf_agent cf) i t")
  case (Some d)
  from lock_dead_Some [OF Some] have d: "d \<in> set (dead t)" "d_agent d = cf_agent cf" by auto
  show ?thesis
  proof (cases "retry_dead_letter co cf d fresh now t")
    case (Inl e)
    with Some assms(1) show ?thesis by (simp add: retry_entry_def)
  next
    case (Inr rt)
    obtain res t' where rt: "rt = (res, t')" by fastforce
    from retry_dead_letter_sound [OF assms d Inr [unfolded rt]] Some Inr show ?thesis by (simp add: retry_entry_def rt)
  qed
next
  case None
  have "sound (set_entry (cf_agent cf) i (\<lambda>x. x\<lparr>q_status := PENDING, q_next_retry := Some now, q_error := None\<rparr>) t)"
    using assms(1) by (auto intro!: set_entry_sound simp: in_place_def good_row_def)
  then show ?thesis using None assms(1)
    by (auto simp: retry_entry_def retry_live_def split: option.splits delivery_status.splits)
qed

text \<open>The purge, batch by batch.\<close>

lemma purge_batch_set:
  "i \<in> set (purge_batch agent cutoff t) \<Longrightarrow> \<exists>r \<in> set (queue t). q_id r = i \<and> purgeable agent cutoff r"
  by (auto simp: purge_batch_def dest!: in_set_takeD)

lemma delete_ids_sound:
  assumes "sound t" and "\<And>i. i \<in> set ids \<Longrightarrow> \<exists>r \<in> set (queue t). q_id r = i \<and> q_agent r = agent"
  shows "sound (snd (delete_ids agent ids t))"
proof -
  let ?t = "snd (delete_ids agent ids t)"
  have q: "queue ?t = delete_rows (\<lambda>r. q_id r \<in> set ids) (queue t)" "dead ?t = dead t"
    "ledger ?t = delete_rows (\<lambda>l. l_agent l = agent \<and> l_entry l \<in> set (map q_id (filter (\<lambda>r. q_id r \<in> set ids) (queue t)))) (ledger t)"
    by (simp_all add: delete_ids_def Let_def)
  have ids: "distinct (map q_id (queue t))" using assms(1) by (simp add: sound_def)
  have owner: "q_agent r = agent" if "r \<in> set (queue t)" "q_id r \<in> set ids" for r
    using assms(2) [OF that(2)] distinct_key [OF ids _ that(1)] by metis
  have "backed ?t l" if l: "l \<in> set (ledger ?t)" for l
  proof -
    from l have m: "l \<in> set (ledger t)" by (simp add: q)
    with assms(1) have "backed t l" by (auto simp: sound_def)
    then show ?thesis unfolding backed_def
    proof (elim disjE bexE)
      fix r assume r: "r \<in> set (queue t)" "held_by l r"
      have "q_id r \<notin> set ids"
      proof
        assume i: "q_id r \<in> set ids"
        with owner [OF r(1)] r have "l_agent l = agent" "l_entry l = q_id r" by (auto simp: held_by_def is_row_def)
        with l i r(1) show False by (auto simp: q)
      qed
      with r show "(\<exists>r \<in> set (queue ?t). held_by l r) \<or> (\<exists>d \<in> set (dead ?t). buried_in l d)"
        by (auto simp: q)
    qed (auto simp: q)
  qed
  moreover have "tombstoned ?t = tombstoned t" by (auto simp: tombstoned_def q)
  moreover have "distinct (map q_id (queue ?t))" "distinct (map (\<lambda>l. (l_agent l, l_key l)) (ledger ?t))"
    using assms(1) unfolding q by (auto intro!: distinct_delete_rows simp: sound_def)
  ultimately show ?thesis using assms(1) by (auto simp: sound_def q)
qed

lemma purge_loop_sound: "sound t \<Longrightarrow> sound (snd (purge_loop agent cutoff t))"
proof (induction agent cutoff t rule: purge_loop.induct)
  case (1 agent cutoff t)
  obtain purged t' where d: "delete_ids agent (purge_batch agent cutoff t) t = (purged, t')" by fastforce
  have "sound (snd (delete_ids agent (purge_batch agent cutoff t) t))"
    using purge_batch_set [of _ agent cutoff t]
    by (intro delete_ids_sound 1(2)) (force simp: purgeable_def)
  then have s: "sound t'" by (simp add: d)
  show ?case using 1 d s
    by (subst purge_loop.simps) (simp add: case_prod_beta)
qed

end
