(* ===== verification/Delivery_Promises.thy ===== *)
theory Delivery_Promises
  imports Delivery_Safety
begin

text \<open>
  The delivery queue over time: every call and every crash is an event, runs are sequences of events
  of any agents on one database, and the properties are stated of the tables that runs from the
  empty database reach.
\<close>

datatype event =
    Enqueue string string pyval "int option" string int int
  | Keyed string string pyval "int option" string string int int bool
  | Attempt "provider option" bool queue_entry string int nat
  | Retry string string int
  | Bury string string string int
  | Purge int int
  | Reclaim int

text \<open>
  An attempt may carry any snapshot of a row: between the fetch of a batch and the attempt other
  calls may run.
\<close>

fun queue_step :: "codec \<Rightarrow> tables \<Rightarrow> config \<times> event \<Rightarrow> tables" where
  "queue_step co t (cf, Enqueue channel recipient content m i cn now) =
     snd (enqueue_plain co cf channel recipient content m i cn now t)"
| "queue_step co t (cf, Keyed channel recipient content m key i cn now kept) =
     snd (enqueue_idempotent co cf channel recipient content m key i cn now kept t)"
| "queue_step co t (cf, Attempt deliver noop e fresh now steps) = attempt_delivery cf deliver noop e fresh now steps t"
| "queue_step co t (cf, Retry i fresh now) = snd (retry_entry co cf i fresh now t)"
| "queue_step co t (cf, Bury i reason fresh now) =
     (case move_to_dead_letter (cf_agent cf) i reason fresh now t of None \<Rightarrow> t | Some t' \<Rightarrow> t')"
| "queue_step co t (cf, Purge hours now) = snd (purge_delivered cf hours now t)"
| "queue_step co t (cf, Reclaim now) = snd (reclaim_in_flight cf now t)"

fun fresh_of :: "event \<Rightarrow> string option" where
  "fresh_of (Enqueue channel recipient content m i cn now) = Some i"
| "fresh_of (Keyed channel recipient content m key i cn now kept) = Some i"
| "fresh_of (Attempt deliver noop e fresh now steps) = Some fresh"
| "fresh_of (Retry i fresh now) = Some fresh"
| "fresh_of (Bury i reason fresh now) = Some fresh"
| "fresh_of _ = None"

text \<open>Identifiers of \<open>uuid4\<close> are new and not empty.\<close>

definition fresh_ids :: "tables \<Rightarrow> config \<times> event \<Rightarrow> bool" where
  "fresh_ids t e \<longleftrightarrow> (case fresh_of (snd e) of None \<Rightarrow> True | Some i \<Rightarrow> i \<noteq> [] \<and> i \<notin> known t)"

lemma queue_step_sound: "sound t \<Longrightarrow> fresh_ids t e \<Longrightarrow> sound (queue_step co t e)"
proof -
  assume s: "sound t" and f: "fresh_ids t e"
  obtain cf ev where e: "e = (cf, ev)" by fastforce
  show ?thesis
  proof (cases ev)
    case (Enqueue channel recipient content m i cn now)
    with f show ?thesis unfolding e by (simp add: fresh_ids_def e enqueue_plain_sound [OF s])
  next
    case (Keyed channel recipient content m key i cn now kept)
    with f show ?thesis unfolding e by (simp add: fresh_ids_def e enqueue_idempotent_sound [OF s])
  next
    case (Attempt deliver noop r fresh now steps)
    with f show ?thesis unfolding e by (simp add: fresh_ids_def e attempt_delivery_sound [OF s])
  next
    case (Retry i fresh now)
    with f show ?thesis unfolding e by (simp add: fresh_ids_def e retry_entry_sound [OF s])
  next
    case (Bury i reason fresh now)
    with f have "fresh \<notin> known t" by (simp add: fresh_ids_def e)
    then show ?thesis unfolding e Bury
      using s move_to_dead_letter_sound [OF s, of fresh "cf_agent cf" i reason now] by (simp split: option.splits)
  next
    case (Purge hours now)
    show ?thesis unfolding e Purge by (simp add: purge_delivered_def purge_loop_sound [OF s])
  next
    case (Reclaim now)
    show ?thesis unfolding e Reclaim by (simp add: reclaim_sound [OF s])
  qed
qed

interpretation dq: guarded_machine "queue_step co" fresh_ids sound for co
  by unfold_locales (rule queue_step_sound; assumption)

definition empty_tables :: tables where
  "empty_tables = \<lparr>queue = [], dead = [], ledger = []\<rparr>"

lemma empty_sound: "sound empty_tables"
  by (simp add: sound_def empty_tables_def)

text \<open>
  In every state that a run of calls, attempts and crashes of any agents reaches, in which the other
  transactions commit or roll back as a whole (see \<open>Delivery_Halted\<close> for burials and retries that a
  joined transaction keeps by halves), an identifier names one row, an idempotency key has one claim, every claim still has its delivery (a live row or
  a dead letter of the same owner, with the retry policy it was accepted under), and no live row
  belongs to a dead letter.
\<close>

theorem claims_keep_their_delivery:
  assumes "run_ok fresh_ids (queue_step co) empty_tables es" and "t = run (queue_step co) empty_tables es"
  shows "distinct (map q_id (queue t)) \<and> distinct (map (\<lambda>l. (l_agent l, l_key l)) (ledger t)) \<and>
    (\<forall>l \<in> set (ledger t).
       (\<exists>r \<in> set (queue t). q_id r = l_entry l \<and> q_agent r = l_agent l \<and> l_retries l = Some (q_max_retries r)) \<or>
       (\<exists>d \<in> set (dead t). d_original d = l_entry l \<and> d_agent d = l_agent l \<and> l_retries l = d_max_retries d)) \<and>
    (\<forall>r \<in> set (queue t). \<not> tombstoned t r)"
proof -
  have s: "sound t" unfolding assms(2) by (rule dq.run_inv [OF empty_sound assms(1)])
  then have no_retry: "\<forall>d \<in> set (dead t). d_retry d = None" and anch: "\<forall>l \<in> set (ledger t). backed t l"
    by (auto simp: sound_def)
  have "(\<exists>r \<in> set (queue t). q_id r = l_entry l \<and> q_agent r = l_agent l \<and> l_retries l = Some (q_max_retries r)) \<or>
       (\<exists>d \<in> set (dead t). d_original d = l_entry l \<and> d_agent d = l_agent l \<and> l_retries l = d_max_retries d)"
    if "l \<in> set (ledger t)" for l
  proof -
    from anch that have "backed t l" by blast
    then show ?thesis using no_retry unfolding backed_def held_by_def buried_in_def is_row_def dead_for_def by auto
  qed
  with s show ?thesis by (simp add: sound_def)
qed

subsection \<open>A key means one delivery\<close>

definition claim_of :: "string \<Rightarrow> string \<Rightarrow> tables \<Rightarrow> (string \<times> string) option" where
  "claim_of agent k t = map_option (\<lambda>l. (l_entry l, l_payload l)) (find_claim agent k t)"

lemma set_entry_ledger [simp]: "ledger (set_entry agent i f t) = ledger t" "dead (set_entry agent i f t) = dead t"
  by (simp_all add: set_entry_def)

lemma settle_ledger: "ledger (settle_delivery agent e r now t) = ledger t"
  by (simp add: settle_delivery_def Let_def split: outcome.splits)

lemma move_ledger: "move_to_dead_letter agent i reason fresh now t = Some t' \<Longrightarrow> ledger t' = ledger t"
  by (auto simp: move_to_dead_letter_def split: option.splits if_splits)

lemma attempt_ledger: "ledger (attempt_delivery cf deliver noop e fresh now n t) = ledger t"
proof -
  have "ledger (mark_in_flight a e x) = ledger x" for a x by (simp add: mark_in_flight_def)
  moreover have "bury_exhausted a e r fresh now x = Some y \<Longrightarrow> ledger y = ledger x" for a r x y
    by (auto simp: bury_exhausted_def move_ledger split: outcome.splits if_splits)
  ultimately show ?thesis by (auto simp: attempt_delivery_def Let_def settle_ledger split: option.splits)
qed

lemma enqueue_plain_ledger:
  assumes "sound t"
  shows "ledger (snd (enqueue_plain co cf channel recipient content m i cn now t)) = ledger t"
proof (cases "co_dumps co content")
  case (Some json)
  obtain legacy canonical where h: "persisted_content_hashes co recipient json = (legacy, canonical)" by fastforce
  obtain dup where "find_recent_duplicate co (cf_agent cf) recipient canonical legacy (dedup_cutoff cn) None t = (dup, t)"
    using find_recent_duplicate_sound(1) [OF assms] by (metis prod.collapse)
  with Some h show ?thesis
    by (auto simp: enqueue_plain_def Let_def insert_entry_def split: option.splits)
qed (simp add: enqueue_plain_def)

text \<open>Only a purge removes a claim, only a retry moves it to another entry.\<close>

fun is_purge :: "event \<Rightarrow> bool" where
  "is_purge (Purge hours now) = True" | "is_purge _ = False"

fun is_retry :: "event \<Rightarrow> bool" where
  "is_retry (Retry i fresh now) = True" | "is_retry _ = False"

lemma find_claim_update:
  assumes "\<And>l. l_agent (f l) = l_agent l \<and> l_key (f l) = l_key l"
  shows "find (\<lambda>l. l_agent l = a \<and> l_key l = k) (update_rows p f ls) =
    map_option (\<lambda>l. if p l then f l else l) (find (\<lambda>l. l_agent l = a \<and> l_key l = k) ls)"
  by (induction ls) (auto simp: update_rows_def assms)

lemma find_claim_delete:
  assumes "\<And>l. l \<in> set ls \<Longrightarrow> l_agent l = a \<Longrightarrow> l_key l = k \<Longrightarrow> \<not> p l"
  shows "find (\<lambda>l. l_agent l = a \<and> l_key l = k) (delete_rows p ls) = find (\<lambda>l. l_agent l = a \<and> l_key l = k) ls"
  using assms by (induction ls) (auto simp: delete_rows_def)

subsection \<open>The purge\<close>

lemma purge_batch_full:
  assumes "length (purge_batch agent cutoff t) < 500"
  shows "set (purge_batch agent cutoff t) = q_id ` set (filter (purgeable agent cutoff) (queue t))"
proof -
  have "length (map q_id (sort_key (\<lambda>r. (case q_delivered r of None \<Rightarrow> 0 | Some n \<Rightarrow> n, q_id r))
      (filter (purgeable agent cutoff) (queue t)))) < 500"
    using assms by (simp add: purge_batch_def min_def split: if_splits)
  then show ?thesis by (simp add: purge_batch_def)
qed

lemma purge_batch_distinct: "distinct (map q_id (queue t)) \<Longrightarrow> distinct (purge_batch agent cutoff t)"
proof -
  assume "distinct (map q_id (queue t))"
  then have "distinct (map q_id (filter (purgeable agent cutoff) (queue t)))" by (simp add: distinct_map_filter)
  then show ?thesis unfolding purge_batch_def by (intro distinct_take) (simp add: distinct_map)
qed

lemma purge_loop_exact:
  assumes "sound t"
  shows "purge_loop agent cutoff t =
    (length (filter (purgeable agent cutoff) (queue t)),
     t\<lparr>queue := delete_rows (purgeable agent cutoff) (queue t),
       ledger := delete_rows (\<lambda>l. l_agent l = agent \<and> l_entry l \<in> q_id ` {r \<in> set (queue t). purgeable agent cutoff r}) (ledger t)\<rparr>)"
  using assms
proof (induction agent cutoff t rule: purge_loop.induct)
  case (1 agent cutoff t)
  let ?P = "purgeable agent cutoff" and ?ids = "purge_batch agent cutoff t"
  let ?gone = "filter (\<lambda>r. q_id r \<in> set ?ids) (queue t)"
  let ?claims = "\<lambda>ls rs. delete_rows (\<lambda>l. l_agent l = agent \<and> l_entry l \<in> q_id ` {r \<in> set rs. ?P r}) ls"
  have ids: "distinct (map q_id (queue t))" using 1(2) by (simp add: sound_def)
  have P: "?P r" if "r \<in> set (queue t)" "q_id r \<in> set ?ids" for r
    using purge_batch_set [OF that(2)] distinct_key [OF ids that(1)] by metis
  obtain purged t' where d: "delete_ids agent ?ids t = (purged, t')" by fastforce
  then have pu: "purged = map q_id ?gone"
    and t': "t' = t\<lparr>queue := delete_rows (\<lambda>r. q_id r \<in> set ?ids) (queue t),
       ledger := delete_rows (\<lambda>l. l_agent l = agent \<and> l_entry l \<in> set purged) (ledger t)\<rparr>"
    by (auto simp: delete_ids_def Let_def)
  have set_pu: "set purged = set ?ids"
    unfolding pu using purge_batch_set [of _ agent cutoff t] by fastforce
  have dist: "distinct purged" "distinct ?ids"
    using ids by (simp_all add: pu distinct_map_filter purge_batch_distinct)
  then have len: "length purged = length ?ids" using set_pu by (metis distinct_card)
  have split: "length (filter ?P (queue t)) = length purged + length (filter ?P (queue t'))"
  proof -
    have "filter (\<lambda>r. q_id r \<in> set ?ids) (filter ?P (queue t)) = ?gone"
      using P by (auto simp: filter_filter intro!: filter_cong)
    moreover have "filter (\<lambda>r. q_id r \<notin> set ?ids) (filter ?P (queue t)) = filter ?P (queue t')"
      by (simp add: t' delete_rows_def conj_commute)
    ultimately show ?thesis
      using sum_length_filter_compl [of "\<lambda>r. q_id r \<in> set ?ids" "filter ?P (queue t)"] by (simp add: pu)
  qed
  have rest: "delete_rows ?P (queue t') = delete_rows ?P (queue t)"
    using P by (auto simp: t' delete_rows_def filter_filter intro!: filter_cong)
  have all: "?P r \<longleftrightarrow> q_id r \<in> set ?ids" if "length purged < 500" "r \<in> set (queue t)" for r
  proof -
    from that(1) have "set ?ids = q_id ` set (filter ?P (queue t))" by (intro purge_batch_full) (simp add: len)
    with P [OF that(2)] that(2) show ?thesis by auto
  qed
  have claims: "?claims (ledger t') (queue t') = ?claims (ledger t) (queue t)"
  proof -
    have "l_entry l \<in> set purged \<or> l_entry l \<in> q_id ` {r \<in> set (queue t'). ?P r} \<longleftrightarrow> l_entry l \<in> q_id ` {r \<in> set (queue t). ?P r}" for l
      unfolding set_pu t' using P purge_batch_set [of "l_entry l" agent cutoff t] by (auto simp: image_iff) metis+
    then show ?thesis by (auto simp: t' delete_rows_def filter_filter intro!: filter_cong)
  qed
  have s': "sound t'" using delete_ids_sound [OF 1(2), of ?ids agent] purge_batch_set [of _ agent cutoff t] d
    by (fastforce simp: purgeable_def)
  show ?case
  proof (cases "length purged < 500")
    case True
    note a = all [OF True]
    have q: "delete_rows (\<lambda>r. q_id r \<in> set ?ids) (queue t) = delete_rows ?P (queue t)"
      by (rule delete_rows_cong) (simp add: a)
    have "set ?ids = q_id ` set (filter ?P (queue t))" by (rule purge_batch_full) (use True in \<open>simp add: len\<close>)
    then have "set purged = q_id ` {r \<in> set (queue t). ?P r}" unfolding set_pu by simp
    then have t'_all: "t' = t\<lparr>queue := delete_rows ?P (queue t), ledger := ?claims (ledger t) (queue t)\<rparr>" by (simp add: t' q)
    have none: "filter ?P (queue t') = []" using a by (auto simp: t' filter_empty_conv)
    show ?thesis
    proof (cases "purged = []")
      case True
      then have "queue t' = queue t" "ledger t' = ledger t" unfolding t' using set_pu by (simp_all add: delete_rows_def)
      then have "t' = t" using t' by simp
      with True d split none t'_all show ?thesis by (subst purge_loop.simps) simp
    next
      case False
      with \<open>length purged < 500\<close> d split none t'_all show ?thesis by (subst purge_loop.simps) simp
    qed
  next
    case False
    then have "purged \<noteq> []" by auto
    with False d 1(1) s' have "purge_loop agent cutoff t' =
        (length (filter ?P (queue t')), t'\<lparr>queue := delete_rows ?P (queue t'), ledger := ?claims (ledger t') (queue t')\<rparr>)"
      by simp
    then have "purge_loop agent cutoff t =
        (length purged + length (filter ?P (queue t')), t'\<lparr>queue := delete_rows ?P (queue t'), ledger := ?claims (ledger t') (queue t')\<rparr>)"
      using False \<open>purged \<noteq> []\<close> d by (subst purge_loop.simps) simp
    moreover have "t'\<lparr>queue := x, ledger := y\<rparr> = t\<lparr>queue := x, ledger := y\<rparr>" for x y by (simp add: t')
    ultimately show ?thesis by (simp only: split rest claims)
  qed
qed

text \<open>
  The purge, which works in batches of 500, ends, and removes exactly the agent's delivered rows
  whose delivery is older than the retention, together with the claims that name one of them; it
  reports their number and leaves everything else, dead letters and their claims included, alone.
\<close>

theorem purge_removes_exactly:
  assumes "sound t" and "cutoff = now - hours * 3600 * 1000000"
  shows "purge_delivered cf hours now t =
    (length (filter (purgeable (cf_agent cf) cutoff) (queue t)),
     t\<lparr>queue := filter (\<lambda>r. \<not> purgeable (cf_agent cf) cutoff r) (queue t),
       ledger := filter (\<lambda>l. \<not> (l_agent l = cf_agent cf \<and>
         (\<exists>r \<in> set (queue t). purgeable (cf_agent cf) cutoff r \<and> q_id r = l_entry l))) (ledger t)\<rparr>)"
proof -
  have e: "l_entry l \<in> q_id ` {r \<in> set (queue t). purgeable a c r} \<longleftrightarrow>
      (\<exists>r \<in> set (queue t). purgeable a c r \<and> q_id r = l_entry l)" for l a c
    unfolding image_iff by (metis (mono_tags, lifting) mem_Collect_eq)
  show ?thesis
    unfolding purge_delivered_def purge_loop_exact [OF assms(1)] delete_rows_def assms(2) second_def e by (rule refl)
qed

subsection \<open>What happens to a key_claim\<close>

lemma enqueue_idempotent_claims:
  assumes "sound t" and "candidate \<notin> known t" and "claim_of a k t = Some x"
  shows "claim_of a k (snd (enqueue_idempotent co cf channel recipient content m key candidate cn now kept t)) = Some x"
proof (cases "prepare_request co cf channel recipient content m key")
  case (Inr rq)
  have body: "claim_of a k (snd (keyed_body co (cf_agent cf) rq candidate cn now t)) = Some x"
  proof (cases "find_claim (cf_agent cf) (rq_digest rq) t")
    case (Some c)
    with assms(1,3) show ?thesis by (simp add: keyed_claimed)
  next
    case None
    note new = keyed_new [where co = co and cn = cn and now = now, OF assms(1) None assms(2) refl]
    have keep: "claim_of a k (t\<lparr>ledger := ledger t @ [l]\<rparr>) = Some x" "claim_of a k (t\<lparr>queue := q, ledger := ledger t @ [l]\<rparr>) = Some x" for l q
      using assms(3) by (auto simp: claim_of_def find_claim_def find_appended)
    show ?thesis
    proof (cases "fst (find_recent_duplicate co (cf_agent cf) (rq_recipient rq) (rq_canonical rq) (rq_legacy rq)
      (dedup_cutoff cn) (Some (rq_channel rq, rq_retries rq)) t)")
      case None
      from new(1) [OF this] show ?thesis by (simp add: keep)
    next
      case (Some i)
      from new(2) [OF this] show ?thesis by (auto simp: keep)
    qed
  qed
  obtain r t' where k: "keyed_body co (cf_agent cf) rq candidate cn now t = (r, t')" by fastforce
  show ?thesis
  proof (cases r)
    case (Inl e)
    with keyed_error_unchanged [OF assms(1,2), of co "cf_agent cf" rq cn now e t'] k assms(3) Inr show ?thesis
      by (simp add: enqueue_idempotent_def split: option.splits)
  next
    case (Inr i)
    with body k assms(3) \<open>prepare_request co cf channel recipient content m key = Inr rq\<close> show ?thesis
      by (simp add: enqueue_idempotent_def split: option.splits)
  qed
qed (use assms in \<open>simp add: enqueue_idempotent_def\<close>)

lemma follow_claims:
  "claim_of a k (t\<lparr>queue := q, dead := d', ledger := follow agent d fresh now p lg (ledger t)\<rparr>) =
     map_option (\<lambda>(e, py). (if a = agent \<and> e = d_original d then fresh else e, py)) (claim_of a k t)"
  by (cases "find (\<lambda>l. l_agent l = a \<and> l_key l = k) (ledger t)")
    (auto simp: claim_of_def find_claim_def follow_def find_claim_update dest!: find_SomeD)

lemma retry_entry_claims:
  assumes "sound t" and "fresh \<notin> known t" and "fresh \<noteq> []" and "claim_of a k t = Some (e, py)"
  shows "\<exists>e'. claim_of a k (snd (retry_entry co cf i fresh now t)) = Some (e', py)"
proof (cases "lock_dead_letter (cf_agent cf) i t")
  case (Some d)
  from lock_dead_Some [OF Some] have d: "d \<in> set (dead t)" "d_agent d = cf_agent cf" by auto
  from retry_dead_letter_exact [OF assms(1-3) d, of co now] Some show ?thesis
    by (auto simp: retry_entry_def follow_claims assms(4))
next
  case None
  have "claim_of a k (set_entry ag j f t) = claim_of a k t" for ag j f
    by (simp add: claim_of_def find_claim_def)
  then show ?thesis using None assms(4)
    by (auto simp: retry_entry_def retry_live_def split: option.splits delivery_status.splits)
qed

lemma step_claims:
  assumes "sound t" and "fresh_ids t (cf, ev)" and "claim_of a k t = Some (e, py)"
    and "cf_agent cf = a \<Longrightarrow> \<not> is_purge ev"
  shows "\<exists>e'. claim_of a k (queue_step co t (cf, ev)) = Some (e', py) \<and> (\<not> is_retry ev \<longrightarrow> e' = e)"
proof (cases ev)
  case (Enqueue channel recipient content m i cn now)
  then show ?thesis using assms(3) enqueue_plain_ledger [OF assms(1)] by (simp add: claim_of_def find_claim_def)
next
  case (Keyed channel recipient content m key i cn now kept)
  with assms(2) have "i \<notin> known t" by (simp add: fresh_ids_def)
  from enqueue_idempotent_claims [OF assms(1) this assms(3)] show ?thesis by (simp add: Keyed)
next
  case (Attempt deliver noop r fresh now steps)
  then show ?thesis using assms(3) by (simp add: claim_of_def find_claim_def attempt_ledger)
next
  case (Retry i fresh now)
  with assms(2) have "fresh \<notin> known t" "fresh \<noteq> []" by (simp_all add: fresh_ids_def)
  from retry_entry_claims [OF assms(1) this assms(3)] show ?thesis by (simp add: Retry)
next
  case (Bury i reason fresh now)
  then show ?thesis using assms(3) move_ledger [of "cf_agent cf" i reason fresh now t]
    by (auto simp: claim_of_def find_claim_def split: option.splits)
next
  case (Purge hours now)
  with assms(4) have ne: "cf_agent cf \<noteq> a" by auto
  have "claim_of a k (snd (purge_delivered cf hours now t)) = claim_of a k t"
    using ne by (simp add: purge_delivered_def purge_loop_exact [OF assms(1)] claim_of_def find_claim_def find_claim_delete)
  with assms(3) show ?thesis by (simp add: Purge)
next
  case (Reclaim now)
  then show ?thesis using assms(3) by (simp add: claim_of_def find_claim_def reclaim_in_flight_def Let_def)
qed

lemma run_claims:
  assumes "sound t" and "run_ok fresh_ids (queue_step co) t es" and "claim_of a k t = Some (e, py)"
    and "\<forall>(cf, ev) \<in> set es. cf_agent cf = a \<longrightarrow> \<not> is_purge ev"
  shows "\<exists>e'. claim_of a k (run (queue_step co) t es) = Some (e', py) \<and>
    ((\<forall>(cf, ev) \<in> set es. \<not> is_retry ev) \<longrightarrow> e' = e)"
  using assms
proof (induction es arbitrary: t e)
  case (Cons x es)
  obtain cf ev where x: "x = (cf, ev)" by fastforce
  from Cons.prems(2) have f: "fresh_ids t x" "run_ok fresh_ids (queue_step co) (queue_step co t x) es" by simp_all
  from step_claims [OF Cons.prems(1) f(1) [unfolded x] Cons.prems(3)] Cons.prems(4) obtain e1 where
    e1: "claim_of a k (queue_step co t x) = Some (e1, py)" "\<not> is_retry ev \<longrightarrow> e1 = e" by (auto simp: x)
  have p: "\<forall>(cf, ev) \<in> set es. cf_agent cf = a \<longrightarrow> \<not> is_purge ev" using Cons.prems(4) by simp
  from Cons.IH [OF queue_step_sound [OF Cons.prems(1) f(1)] f(2) e1(1) p] obtain e' where
    e': "claim_of a k (run (queue_step co) (queue_step co t x) es) = Some (e', py)"
      "(\<forall>(cf, ev) \<in> set es. \<not> is_retry ev) \<longrightarrow> e' = e1" by auto
  with e1(2) show ?case by (auto simp: x)
qed simp

lemma replay_enqueue:
  assumes "sound t" and "prepare_request co cf channel recipient content m key = Inr rq" and "cf_strategy cf \<noteq> None"
    and "find_claim (cf_agent cf) (rq_digest rq) t = Some c" and "candidate \<notin> known t"
  shows "enqueue_idempotent co cf channel recipient content m key candidate cn now kept t = (replay_answer rq c t, t)"
proof -
  note k = keyed_claimed [OF assms(1,4), of co candidate cn now]
  have u: "compensate (cf_agent cf) (rq_digest rq) candidate t = t" if "replay_answer rq c t = Inl e" for e
    using keyed_error_unchanged(2) [OF assms(1,5), of co "cf_agent cf" rq cn now e t] k that by simp
  show ?thesis using assms(2,3) k u
    by (cases "replay_answer rq c t") (auto simp: enqueue_idempotent_def split: option.splits)
qed

text \<open>A claim that was accepted or adopted names the entry that was returned.\<close>

lemma accepted_claim:
  assumes "sound t" and "candidate \<notin> known t" and "prepare_request co cf channel recipient content m key = Inr rq"
    and "enqueue_idempotent co cf channel recipient content m key candidate cn now kept t = (Inr e, t')"
  shows "claim_of (cf_agent cf) (rq_digest rq) t' = Some (e, rq_payload rq)"
proof -
  have b: "keyed_body co (cf_agent cf) rq candidate cn now t = (Inr e, t')"
    using assms(3,4) by (auto simp: enqueue_idempotent_def split: option.splits sum.splits prod.splits)
  show ?thesis
  proof (cases "find_claim (cf_agent cf) (rq_digest rq) t")
    case (Some c)
    with b keyed_claimed [OF assms(1) Some, of co candidate cn now] show ?thesis
      by (auto simp: replay_answer_def claim_of_def split: if_splits)
  next
    case None
    note new = keyed_new [where co = co and cn = cn and now = now, OF assms(1) None assms(2) refl]
    have f: "find (\<lambda>l. l_agent l = cf_agent cf \<and> l_key l = rq_digest rq) (ledger t @ [l]) = Some l"
      if "l_agent l = cf_agent cf" "l_key l = rq_digest rq" for l
      using None that by (simp add: find_appended find_claim_def)
    show ?thesis
    proof (cases "fst (find_recent_duplicate co (cf_agent cf) (rq_recipient rq) (rq_canonical rq) (rq_legacy rq)
      (dedup_cutoff cn) (Some (rq_channel rq, rq_retries rq)) t)")
      case None
      from new(1) [OF this] b show ?thesis
        by (auto simp: claim_of_def find_claim_def f first_claim_def)
    next
      case (Some i)
      from new(2) [OF this] b show ?thesis
        by (auto simp: claim_of_def find_claim_def f adopting_claim_def first_claim_def dest!: find_row_Some)
    qed
  qed
qed

lemma prepare_other_config:
  assumes "prepare_request co cf channel recipient content m key = Inr rq"
  shows "\<exists>rq'. prepare_request co cf' channel recipient content m key = Inr rq' \<and>
    rq_digest rq' = rq_digest rq \<and> rq_payload rq' = rq_payload rq"
  using assms by (auto simp: prepare_request_def split: if_splits sum.splits option.splits)

text \<open>
  C11: A keyed enqueue happens once: after one has returned an entry, the same call with the same key,
  whenever it is repeated, whatever ran in between and even under another default policy, inserts
  nothing and changes nothing. It returns a live entry of the same agent, the very same one unless a
  dead letter was retried by hand, or says that the delivery is a dead letter; only the purge of the
  agent's delivered rows ends this.
\<close>

theorem keyed_enqueue_happens_once:
  assumes "run_ok fresh_ids (queue_step co) empty_tables past" and "t = run (queue_step co) empty_tables past"
    and "candidate \<notin> known t"
    and "enqueue_idempotent co cf channel recipient content m key candidate cn now kept t = (Inr e, t1)"
    and "run_ok fresh_ids (queue_step co) t1 es" and "t2 = run (queue_step co) t1 es"
    and "\<forall>(cf1, ev) \<in> set es. cf_agent cf1 = cf_agent cf \<longrightarrow> \<not> is_purge ev"
    and "cf_agent cf' = cf_agent cf" and "cf_strategy cf' \<noteq> None" and "candidate' \<notin> known t2"
  shows "\<exists>r. enqueue_idempotent co cf' channel recipient content m key candidate' cn' now' kept' t2 = (r, t2) \<and>
    (r = Inl Terminal \<or> (\<exists>e'. r = Inr e' \<and> find_row (cf_agent cf) e' t2 \<noteq> None \<and>
       ((\<forall>(cf1, ev) \<in> set es. \<not> is_retry ev) \<longrightarrow> e' = e)))"
proof -
  have s: "sound t" unfolding assms(2) by (rule dq.run_inv [OF empty_sound assms(1)])
  have s1: "sound t1" using enqueue_idempotent_sound [OF s assms(3), of co cf channel recipient content m key cn now kept] assms(4) by simp
  have s2: "sound t2" unfolding assms(6) by (rule dq.run_inv [OF s1 assms(5)])
  obtain rq where rq: "prepare_request co cf channel recipient content m key = Inr rq"
    using assms(4) by (auto simp: enqueue_idempotent_def split: sum.splits)
  from prepare_other_config [OF rq] obtain rq' where rq': "prepare_request co cf' channel recipient content m key = Inr rq'"
    "rq_digest rq' = rq_digest rq" "rq_payload rq' = rq_payload rq" by blast
  from run_claims [OF s1 assms(5) accepted_claim [OF s assms(3) rq assms(4)] assms(7)] obtain e' where
    e': "claim_of (cf_agent cf) (rq_digest rq) t2 = Some (e', rq_payload rq)"
      "(\<forall>(cf1, ev) \<in> set es. \<not> is_retry ev) \<longrightarrow> e' = e" unfolding assms(6) by blast
  then obtain c where c: "find_claim (cf_agent cf) (rq_digest rq) t2 = Some c" "l_entry c = e'" "l_payload c = rq_payload rq"
    by (auto simp: claim_of_def)
  have ans: "enqueue_idempotent co cf' channel recipient content m key candidate' cn' now' kept' t2 = (replay_answer rq' c t2, t2)"
    by (rule replay_enqueue [OF s2 rq'(1) assms(9) _ assms(10)]) (simp add: assms(8) rq'(2) c)
  from find_claim_Some [OF c(1)] s2 have "backed t2 c" "l_agent c = cf_agent cf" by (auto simp: sound_def)
  then have "replay_answer rq' c t2 = Inl Terminal \<or> (replay_answer rq' c t2 = Inr e' \<and> find_row (cf_agent cf) e' t2 \<noteq> None)"
    using c by (auto simp: replay_answer_def rq'(3) backed_def buried_in_def held_by_def find_row_None)
  with ans e'(2) show ?thesis by auto
qed

subsection \<open>Failing deliveries\<close>

text \<open>A row attempted again and again, each time as it stands, while the provider fails.\<close>

fun failing :: "config \<Rightarrow> provider \<Rightarrow> string \<Rightarrow> (string \<times> int) list \<Rightarrow> tables \<Rightarrow> tables" where
  "failing cf d i [] t = t"
| "failing cf d i ((fresh, now) # ps) t =
     (case find_row (cf_agent cf) i t of
        None \<Rightarrow> failing cf d i ps t
      | Some e \<Rightarrow> failing cf d i ps (attempt_delivery cf (Some d) False e fresh now 3 t))"

lemma find_row_set_entry:
  assumes "in_place f" and "find_row agent i t = Some r"
  shows "find_row agent i (set_entry agent i f t) = Some (f r)"
proof -
  have "is_row agent i (f x) = is_row agent i x" for x using assms(1) by (simp add: in_place_def is_row_def)
  then have "find (is_row agent i) (update_rows (is_row agent i) f rows) = map_option f (find (is_row agent i) rows)" for rows
    by (induction rows) (auto simp: update_rows_def)
  with assms(2) show ?thesis by (simp add: find_row_def set_entry_def)
qed

lemma move_then_gone:
  assumes "move_to_dead_letter agent i reason fresh now t = Some t'"
  shows "find_row agent i t' = None"
  using assms by (auto simp: move_to_dead_letter_def find_row_None split: option.splits if_splits)

lemma find_row_in_place_other: "in_place f \<Longrightarrow> sound t \<Longrightarrow> fresh \<notin> known t \<Longrightarrow>
    (\<And>r. good_row r \<Longrightarrow> good_row (f r)) \<Longrightarrow> sound (set_entry agent i f t) \<and> fresh \<notin> known (set_entry agent i f t)"
  by (simp add: set_entry_sound known_set_entry)

lemma attempt_that_fails:
  assumes "sound t" and "fresh \<notin> known t" and "find_row (cf_agent cf) i t = Some e"
    and "d (q_channel e) (q_recipient e) (q_content e) = Failure err"
    and t'_def: "t' = attempt_delivery cf (Some d) False e fresh now 3 t"
  shows "q_attempts e + 1 < q_max_retries e \<Longrightarrow> find_row (cf_agent cf) i t' =
      Some (e\<lparr>q_status := FAILED, q_attempts := q_attempts e + 1,
              q_next_retry := Some (now + compute_backoff (nat (q_attempts e + 1)) * second), q_error := err\<rparr>)"
    and "q_attempts e + 1 < q_max_retries e \<Longrightarrow> known t' = known t"
    and "q_max_retries e \<le> q_attempts e + 1 \<Longrightarrow> find_row (cf_agent cf) i t' = None \<and>
      tombstone fresh (exhausted_reason (q_max_retries e) err) now
        (e\<lparr>q_status := FAILED, q_attempts := q_attempts e + 1, q_error := err\<rparr>) \<in> set (dead t')"
proof -
  let ?a = "cf_agent cf"
  have res: "delivery_result (Some d) False e = Failure err" using assms(4) by (simp add: delivery_result_def)
  have i: "q_id e = i" using find_row_Some [OF assms(3)] by simp
  let ?t1 = "mark_in_flight ?a e t"
  have ip: "in_place (\<lambda>r. r\<lparr>q_status := IN_FLIGHT\<rparr>)" "in_place (\<lambda>r. r\<lparr>q_status := FAILED, q_attempts := x, q_error := err\<rparr>)"
    "in_place (\<lambda>r. r\<lparr>q_status := FAILED, q_attempts := x, q_next_retry := y, q_error := err\<rparr>)" for x y
    by (simp_all add: in_place_def)
  have t1: "find_row ?a i ?t1 = Some (e\<lparr>q_status := IN_FLIGHT\<rparr>)"
    unfolding mark_in_flight_def i by (rule find_row_set_entry [OF ip(1) assms(3)])
  have k1: "known ?t1 = known t" unfolding mark_in_flight_def by (rule known_set_entry [OF ip(1)])
  have s1: "sound ?t1" unfolding mark_in_flight_def by (rule set_entry_sound [OF assms(1) ip(1)]) (simp add: good_row_def)
  let ?f = "\<lambda>r. r\<lparr>q_status := FAILED, q_attempts := q_attempts e + 1,
      q_next_retry := Some (now + compute_backoff (nat (q_attempts e + 1)) * second), q_error := err\<rparr>"
  let ?g = "\<lambda>r. r\<lparr>q_status := FAILED, q_attempts := q_attempts e + 1, q_error := err\<rparr>"
  have t': "t' = (case bury_exhausted ?a e (Failure err) fresh now (settle_delivery ?a e (Failure err) now ?t1) of
      None \<Rightarrow> settle_delivery ?a e (Failure err) now ?t1 | Some t3 \<Rightarrow> t3)"
    unfolding t'_def attempt_delivery_def Let_def res by simp
  {
    assume "q_attempts e + 1 < q_max_retries e"
    then have "t' = set_entry ?a i ?f ?t1"
      unfolding t' by (simp add: settle_delivery_def bury_exhausted_def i Let_def)
    then show "find_row ?a i t' = Some (?f e)" and "known t' = known t"
      using find_row_set_entry [OF ip(3) t1] known_set_entry [OF ip(3)] k1 by simp_all
  }
  assume le: "q_max_retries e \<le> q_attempts e + 1"
  let ?t2 = "set_entry ?a i ?g ?t1"
  have t2: "find_row ?a i ?t2 = Some (?g (e\<lparr>q_status := IN_FLIGHT\<rparr>))" by (rule find_row_set_entry [OF ip(2) t1])
  have s2: "sound ?t2" by (rule set_entry_sound [OF s1 ip(2)]) (simp add: good_row_def)
  have k2: "fresh \<notin> known ?t2" using known_set_entry [OF ip(2)] k1 assms(2) by simp
  let ?reason = "exhausted_reason (q_max_retries e) err"
  note mv = move_to_dead_letter_live [OF s2 t2 k2, of ?reason now]
  have "t' = the (move_to_dead_letter ?a i ?reason fresh now ?t2)"
    unfolding t' using le mv by (simp add: settle_delivery_def bury_exhausted_def i Let_def)
  with mv move_then_gone [OF mv] show "find_row ?a i t' = None \<and> tombstone fresh ?reason now (?g e) \<in> set (dead t')"
    by simp
qed

lemma failing_gone: "find_row (cf_agent cf) i t = None \<Longrightarrow> failing cf d i ps t = t"
  by (induction ps) auto

text \<open>
  C13: A delivery whose provider keeps failing is attempted exactly as often as its policy allows (at
  least once) and then given up: before that the row is kept as failed with the attempts counted and
  the next one due at the capped exponential backoff after the last; with the last attempt the row
  disappears and a dead letter carries its message, owner, attempts and policy.
\<close>

theorem failing_delivery_is_buried:
  assumes "sound t" and "find_row (cf_agent cf) i t = Some r" and "d = (\<lambda>c rc ct. Failure err)"
    and "distinct (map fst ps)" and "set (map fst ps) \<inter> known t = {}"
    and "m = nat (max 1 (q_max_retries r - q_attempts r))" and "t' = failing cf d i ps t"
  shows "(length ps < m \<longrightarrow> (\<exists>r'. find_row (cf_agent cf) i t' = Some r' \<and> q_attempts r' = q_attempts r + int (length ps) \<and>
       q_content r' = q_content r \<and>
       (ps \<noteq> [] \<longrightarrow> q_status r' = FAILED \<and>
          q_next_retry r' = Some (snd (last ps) + min (5 * 5 ^ nat (q_attempts r')) 3600 * 1000000)))) \<and>
    (m \<le> length ps \<longrightarrow> find_row (cf_agent cf) i t' = None \<and>
       (\<exists>dl \<in> set (dead t'). d_original dl = i \<and> d_agent dl = cf_agent cf \<and> d_content dl = q_content r \<and>
          d_channel dl = q_channel r \<and> d_recipient dl = q_recipient r \<and>
          d_attempts dl = q_attempts r + int m \<and> d_max_retries dl = Some (q_max_retries r)))"
  using assms(1,2,4-7)
proof (induction ps arbitrary: t r m)
  case Nil
  then show ?case by auto
next
  case (Cons p ps)
  obtain fresh now where p: "p = (fresh, now)" by fastforce
  let ?t1 = "attempt_delivery cf (Some d) False r fresh now 3 t"
  have fresh: "fresh \<notin> known t" using Cons.prems(4) by (simp add: p)
  note att = attempt_that_fails [where now = now, OF Cons.prems(1) fresh Cons.prems(2) _ refl, of d err, unfolded assms(3), OF refl, folded assms(3)]
  have t': "t' = failing cf d i ps ?t1" using Cons.prems(2,6) by (simp add: p)
  have own: "q_id r = i" "q_agent r = cf_agent cf" using find_row_Some [OF Cons.prems(2)] by auto
  show ?case
  proof (cases "q_attempts r + 1 < q_max_retries r")
    case True
    let ?r1 = "r\<lparr>q_status := FAILED, q_attempts := q_attempts r + 1,
              q_next_retry := Some (now + compute_backoff (nat (q_attempts r + 1)) * second), q_error := err\<rparr>"
    have m: "m = Suc (nat (max 1 (q_max_retries ?r1 - q_attempts ?r1)))" using True Cons.prems(5) by simp
    have s1: "sound ?t1" by (rule attempt_delivery_sound [OF Cons.prems(1) fresh])
    have d1: "distinct (map fst ps)" "set (map fst ps) \<inter> known ?t1 = {}"
      using Cons.prems(3,4) att(2) [OF True] by (auto simp: p)
    from Cons.IH [OF s1 att(1) [OF True] d1 refl t'] show ?thesis
      unfolding m by (cases "ps = []") (auto simp: t' att(1) [OF True] compute_backoff_def second_def p)
  next
    case False
    then have le: "q_max_retries r \<le> q_attempts r + 1" and m: "m = 1" using Cons.prems(5) by auto
    from att(3) [OF le] have "find_row (cf_agent cf) i ?t1 = None" by simp
    then have "t' = ?t1" unfolding t' by (rule failing_gone)
    let ?d = "tombstone fresh (exhausted_reason (q_max_retries r) err) now
        (r\<lparr>q_status := FAILED, q_attempts := q_attempts r + 1, q_error := err\<rparr>)"
    have "?d \<in> set (dead t')" "d_original ?d = i" "d_agent ?d = cf_agent cf" "d_content ?d = q_content r"
      "d_channel ?d = q_channel r" "d_recipient ?d = q_recipient r" "d_attempts ?d = q_attempts r + 1"
      "d_max_retries ?d = Some (q_max_retries r)"
      using att(3) [OF le] own by (simp_all add: tombstone_def \<open>t' = ?t1\<close>)
    then have "\<exists>dl \<in> set (dead t'). d_original dl = i \<and> d_agent dl = cf_agent cf \<and> d_content dl = q_content r \<and>
          d_channel dl = q_channel r \<and> d_recipient dl = q_recipient r \<and>
          d_attempts dl = q_attempts r + 1 \<and> d_max_retries dl = Some (q_max_retries r)" by blast
    moreover have "find_row (cf_agent cf) i t' = None" using att(3) [OF le] by (simp add: \<open>t' = ?t1\<close>)
    ultimately show ?thesis by (simp add: m)
  qed
qed

subsection \<open>Dead letters come back\<close>

lemma update_rows_comp:
  "(\<And>l. p l \<Longrightarrow> l \<in> set ls \<Longrightarrow> f l = g l) \<Longrightarrow> update_rows p f ls = update_rows p g ls"
  by (auto simp: update_rows_def)

text \<open>
  Giving a delivery up and retrying it restores it: a row moved to the dead letters and retried
  by its dead letter's identifier is back as one pending row under a new identifier, due at once with
  no attempts counted, with the same owner, channel, recipient, message and retry policy; the dead
  letter is gone, every other row is untouched and each idempotency key that named the old row names
  the new one.
\<close>

theorem buried_delivery_can_be_retried:
  assumes "sound t" and "find_row (cf_agent cf) i t = Some r" and "f1 \<notin> known t"
    and "move_to_dead_letter (cf_agent cf) i reason f1 now1 t = Some t1" and "f2 \<notin> known t1" and "f2 \<noteq> []"
  shows "\<exists>legacy canonical t2. retry_entry co cf f1 f2 now2 t1 = (Inr (Re_Enqueued f2 i), t2) \<and> sound t2 \<and>
    queue t2 = filter (\<lambda>x. \<not> (q_id x = i \<and> q_agent x = cf_agent cf)) (queue t) @
      [r\<lparr>q_id := f2, q_hash := Some legacy, q_canonical := Some canonical, q_status := PENDING, q_attempts := 0,
         q_next_retry := Some now2, q_error := None, q_created := now2, q_delivered := None\<rparr>] \<and>
    dead t2 = dead t \<and>
    (\<forall>k e py. claim_of (cf_agent cf) k t = Some (e, py) \<longrightarrow>
       claim_of (cf_agent cf) k t2 = Some (if e = i then f2 else e, py))"
proof -
  let ?a = "cf_agent cf" and ?d = "tombstone f1 reason now1 r"
  have t1: "t1 = t\<lparr>queue := delete_rows (is_row ?a i) (queue t), dead := dead t @ [?d]\<rparr>"
    using move_to_dead_letter_live [OF assms(1,2,3), of reason now1] assms(4) by simp
  have s1: "sound t1" by (rule move_to_dead_letter_sound [OF assms(1,3,4)])
  from find_row_Some [OF assms(2)] have r: "q_id r = i" "q_agent r = ?a" by auto
  have d: "?d \<in> set (dead t1)" "d_agent ?d = ?a" "d_id ?d = f1" "d_original ?d = i" "d_max_retries ?d = Some (q_max_retries r)"
    "d_channel ?d = q_channel r" "d_recipient ?d = q_recipient r" "d_content ?d = q_content r"
    using r by (simp_all add: t1 tombstone_def)
  have others: "d_id x \<noteq> f1" if "x \<in> set (dead t)" for x using assms(3) that by (auto simp: known_def)
  then have "find (\<lambda>d. d_agent d = ?a \<and> d_id d = f1) (dead t) = None" by (auto simp: find_None_iff)
  then have "find (\<lambda>d. d_agent d = ?a \<and> d_id d = f1) (dead t1) = Some ?d"
    using d(2,3) by (simp add: t1 find_appended)
  then have lock: "lock_dead_letter ?a f1 t1 = Some ?d" by (simp add: lock_dead_letter_def first_of_def)
  have gone: "delete_rows (\<lambda>x. x = ?d) (dead t1) = dead t"
  proof -
    have "?d \<notin> set (dead t)" using others d(3) by blast
    then have "delete_rows (\<lambda>x. x = ?d) (dead t) = dead t" by (intro delete_rows_none) auto
    then show ?thesis by (simp add: t1 delete_rows_def)
  qed
  from retry_dead_letter_exact [OF s1 assms(5,6) d(1,2), of co now2] obtain legacy canonical where
    x: "retry_dead_letter co cf ?d f2 now2 t1 = Inr (Re_Enqueued f2 (d_original ?d),
      t1\<lparr>queue := queue t1 @ [new_entry f2 ?a (d_channel ?d) (d_recipient ?d) (d_content ?d)
           legacy canonical (the (d_max_retries ?d)) now2],
        dead := delete_rows (\<lambda>x. x = ?d) (dead t1),
        ledger := follow ?a ?d f2 now2 (the (d_max_retries ?d)) legacy (ledger t1)\<rparr>)" by blast
  let ?t2 = "t1\<lparr>queue := queue t1 @ [new_entry f2 ?a (q_channel r) (q_recipient r) (q_content r)
           legacy canonical (q_max_retries r) now2],
        dead := dead t, ledger := follow ?a ?d f2 now2 (q_max_retries r) legacy (ledger t1)\<rparr>"
  have x': "retry_dead_letter co cf ?d f2 now2 t1 = Inr (Re_Enqueued f2 i, ?t2)"
    using x unfolding gone d(4-8) option.sel .
  have ret: "retry_entry co cf f1 f2 now2 t1 = (Inr (Re_Enqueued f2 i), ?t2)"
    by (simp add: retry_entry_def lock x')
  have s2: "sound ?t2" by (rule retry_dead_letter_sound [OF s1 assms(5,6) d(1,2) x'])
  have q: "queue ?t2 = filter (\<lambda>x. \<not> (q_id x = i \<and> q_agent x = ?a)) (queue t) @
      [r\<lparr>q_id := f2, q_hash := Some legacy, q_canonical := Some canonical, q_status := PENDING, q_attempts := 0,
         q_next_retry := Some now2, q_error := None, q_created := now2, q_delivered := None\<rparr>]"
    using r(2) by (simp add: t1 delete_rows_def is_row_def new_entry_def)
  have "claim_of ?a k ?t2 = Some (if e = i then f2 else e, py)" if "claim_of ?a k t = Some (e, py)" for k e py
  proof -
    have "claim_of ?a k t1 = Some (e, py)" using that by (simp add: t1 claim_of_def find_claim_def)
    then show ?thesis unfolding follow_claims by (simp add: d(4))
  qed
  then show ?thesis using ret s2 q
    by (intro exI [of _ legacy] exI [of _ canonical] exI [of _ ?t2]) simp
qed

subsection \<open>Agents\<close>

definition rows_of :: "string \<Rightarrow> tables \<Rightarrow> queue_entry list \<times> dead_letter list \<times> key_claim list" where
  "rows_of a t =
     (filter (\<lambda>r. q_agent r = a) (queue t), filter (\<lambda>d. d_agent d = a) (dead t), filter (\<lambda>l. l_agent l = a) (ledger t))"

lemma filter_update_other:
  "(\<And>r. p r \<Longrightarrow> \<not> P r \<and> \<not> P (f r)) \<Longrightarrow> filter P (update_rows p f rows) = filter P rows"
  by (induction rows) (auto simp: update_rows_def)

lemma filter_delete_other:
  "(\<And>r. r \<in> set rows \<Longrightarrow> p r \<Longrightarrow> \<not> P r) \<Longrightarrow> filter P (delete_rows p rows) = filter P rows"
  by (auto simp: delete_rows_def filter_filter intro!: filter_cong)

lemma set_entry_other:
  "in_place f \<Longrightarrow> agent \<noteq> a \<Longrightarrow> rows_of a (set_entry agent i f t) = rows_of a t"
  unfolding rows_of_def set_entry_def
  by (simp, rule filter_update_other) (auto simp: in_place_def is_row_def)

lemma move_other:
  assumes "agent \<noteq> a" and "move_to_dead_letter agent i reason fresh now t = Some t'"
  shows "rows_of a t' = rows_of a t"
proof -
  have "filter (\<lambda>r. q_agent r = a) (delete_rows (is_row agent i) (queue t)) = filter (\<lambda>r. q_agent r = a) (queue t)"
    by (rule filter_delete_other) (use assms(1) in \<open>auto simp: is_row_def\<close>)
  then show ?thesis using assms
    by (auto simp: move_to_dead_letter_def rows_of_def split: option.splits if_splits dest!: find_row_Some)
qed

lemma attempt_other:
  assumes "cf_agent cf \<noteq> a"
  shows "rows_of a (attempt_delivery cf deliver noop e fresh now n t) = rows_of a t"
proof -
  have m: "rows_of a (mark_in_flight (cf_agent cf) e x) = rows_of a x" for x
    unfolding mark_in_flight_def by (rule set_entry_other) (simp_all add: in_place_def assms)
  have s: "rows_of a (settle_delivery (cf_agent cf) e r now x) = rows_of a x" for r x
    using assms by (auto simp: settle_delivery_def Let_def in_place_def intro!: set_entry_other split: outcome.splits)
  have b: "bury_exhausted (cf_agent cf) e r fresh now x = Some y \<Longrightarrow> rows_of a y = rows_of a x" for r x y
    by (auto simp: bury_exhausted_def move_other [OF assms] split: outcome.splits if_splits)
  show ?thesis by (auto simp: attempt_delivery_def Let_def m s split: option.splits dest!: b)
qed

lemma keyed_other:
  assumes "sound t" and "candidate \<notin> known t" and "cf_agent cf \<noteq> a"
  shows "rows_of a (snd (enqueue_idempotent co cf channel recipient content m key candidate cn now kept t)) = rows_of a t"
proof (cases "prepare_request co cf channel recipient content m key")
  case (Inr rq)
  obtain r t' where k: "keyed_body co (cf_agent cf) rq candidate cn now t = (r, t')" by fastforce
  have body: "rows_of a t' = rows_of a t"
  proof (cases "find_claim (cf_agent cf) (rq_digest rq) t")
    case (Some c)
    with assms(1) k show ?thesis by (simp add: keyed_claimed)
  next
    case None
    note new = keyed_new [where co = co and cn = cn and now = now, OF assms(1) None assms(2) refl]
    show ?thesis
    proof (cases "fst (find_recent_duplicate co (cf_agent cf) (rq_recipient rq) (rq_canonical rq) (rq_legacy rq)
      (dedup_cutoff cn) (Some (rq_channel rq, rq_retries rq)) t)")
      case None
      from new(1) [OF this] k assms(3) show ?thesis
        by (auto simp: rows_of_def first_claim_def keyed_entry_def new_entry_def)
    next
      case (Some i)
      from new(2) [OF this] k assms(3) show ?thesis by (auto simp: rows_of_def adopting_claim_def first_claim_def)
    qed
  qed
  show ?thesis
  proof (cases r)
    case (Inl e)
    with keyed_error_unchanged [OF assms(1,2), of co "cf_agent cf" rq cn now e t'] k Inr show ?thesis
      by (simp add: enqueue_idempotent_def split: option.splits)
  next
    case (Inr i)
    with body k \<open>prepare_request co cf channel recipient content m key = Inr rq\<close> show ?thesis
      by (simp add: enqueue_idempotent_def split: option.splits)
  qed
qed (simp add: enqueue_idempotent_def)

lemma plain_other:
  assumes "sound t" and "cf_agent cf \<noteq> a"
  shows "rows_of a (snd (enqueue_plain co cf channel recipient content m i cn now t)) = rows_of a t"
proof (cases "co_dumps co content")
  case (Some json)
  obtain legacy canonical where h: "persisted_content_hashes co recipient json = (legacy, canonical)" by fastforce
  obtain dup where "find_recent_duplicate co (cf_agent cf) recipient canonical legacy (dedup_cutoff cn) None t = (dup, t)"
    using find_recent_duplicate_sound(1) [OF assms(1)] by (metis prod.collapse)
  with Some h assms(2) show ?thesis
    by (auto simp: enqueue_plain_def Let_def insert_entry_def new_entry_def rows_of_def split: option.splits)
qed (simp add: enqueue_plain_def)

lemma retry_other:
  assumes "sound t" and "fresh \<notin> known t" and "fresh \<noteq> []" and "cf_agent cf \<noteq> a"
  shows "rows_of a (snd (retry_entry co cf i fresh now t)) = rows_of a t"
proof (cases "lock_dead_letter (cf_agent cf) i t")
  case (Some d)
  from lock_dead_Some [OF Some] have d: "d \<in> set (dead t)" "d_agent d = cf_agent cf" by auto
  have f: "filter (\<lambda>l. l_agent l = a) (follow (cf_agent cf) d fresh now p lg (ledger t)) = filter (\<lambda>l. l_agent l = a) (ledger t)" for p lg
    unfolding follow_def by (rule filter_update_other) (use assms(4) in auto)
  have g: "filter (\<lambda>x. d_agent x = a) (delete_rows (\<lambda>x. x = d) (dead t)) = filter (\<lambda>x. d_agent x = a) (dead t)"
    by (rule filter_delete_other) (use d(2) assms(4) in auto)
  from retry_dead_letter_exact [OF assms(1-3) d, of co now] Some assms(4) show ?thesis
    by (auto simp: retry_entry_def rows_of_def f g new_entry_def)
next
  case None
  have "rows_of a (set_entry (cf_agent cf) i (\<lambda>x. x\<lparr>q_status := PENDING, q_next_retry := Some now, q_error := None\<rparr>) t) = rows_of a t"
    by (rule set_entry_other) (simp_all add: in_place_def assms(4))
  then show ?thesis using None
    by (auto simp: retry_entry_def retry_live_def split: option.splits delivery_status.splits)
qed

lemma step_other:
  assumes "sound t" and "fresh_ids t (cf, ev)" and "cf_agent cf \<noteq> a"
  shows "rows_of a (queue_step co t (cf, ev)) = rows_of a t"
proof (cases ev)
  case (Enqueue channel recipient content m i cn now)
  then show ?thesis by (simp add: plain_other [OF assms(1,3)])
next
  case (Keyed channel recipient content m key i cn now kept)
  with assms(2) have "i \<notin> known t" by (simp add: fresh_ids_def)
  then show ?thesis by (simp add: Keyed keyed_other [OF assms(1) _ assms(3)])
next
  case (Attempt deliver noop r fresh now steps)
  then show ?thesis by (simp add: attempt_other [OF assms(3)])
next
  case (Retry i fresh now)
  with assms(2) have "fresh \<notin> known t" "fresh \<noteq> []" by (simp_all add: fresh_ids_def)
  then show ?thesis by (simp add: Retry retry_other [OF assms(1) _ _ assms(3)])
next
  case (Bury i reason fresh now)
  then show ?thesis using move_other [OF assms(3)] by (auto split: option.splits)
next
  case (Purge hours now)
  have "filter (\<lambda>r. q_agent r = a) (delete_rows (purgeable (cf_agent cf) c) (queue t)) = filter (\<lambda>r. q_agent r = a) (queue t)" for c
    by (rule filter_delete_other) (use assms(3) in \<open>auto simp: purgeable_def\<close>)
  moreover have "filter (\<lambda>l. l_agent l = a) (delete_rows (\<lambda>l. l_agent l = cf_agent cf \<and> l_entry l \<in> X) (ledger t)) =
      filter (\<lambda>l. l_agent l = a) (ledger t)" for X
    by (rule filter_delete_other) (use assms(3) in auto)
  ultimately show ?thesis by (simp add: Purge purge_delivered_def purge_loop_exact [OF assms(1)] rows_of_def)
next
  case (Reclaim now)
  have "filter (\<lambda>r. q_agent r = a) (update_rows (stale_in_flight (cf_agent cf) t)
      (\<lambda>r. r\<lparr>q_status := PENDING, q_next_retry := Some now\<rparr>) (queue t)) = filter (\<lambda>r. q_agent r = a) (queue t)"
    by (rule filter_update_other) (use assms(3) in \<open>auto simp: stale_in_flight_def\<close>)
  then show ?thesis by (simp add: Reclaim reclaim_in_flight_def Let_def rows_of_def)
qed

text \<open>
  Agents that share a database do not touch each other: whatever other agents enqueue, attempt,
  retry, give up, purge or reclaim, an agent's rows, dead letters and claims stay as they are, in
  their order.
\<close>

theorem agents_are_isolated:
  assumes "run_ok fresh_ids (queue_step co) empty_tables past" and "t = run (queue_step co) empty_tables past"
    and "run_ok fresh_ids (queue_step co) t es" and "\<forall>(cf, ev) \<in> set es. cf_agent cf \<noteq> a"
  shows "rows_of a (run (queue_step co) t es) = rows_of a t"
proof -
  have "sound t" unfolding assms(2) by (rule dq.run_inv [OF empty_sound assms(1)])
  then show ?thesis using assms(3,4)
  proof (induction es arbitrary: t)
    case (Cons x es)
    obtain cf ev where x: "x = (cf, ev)" by fastforce
    from Cons.prems have f: "fresh_ids t (cf, ev)" "cf_agent cf \<noteq> a" by (auto simp: x)
    have "rows_of a (run (queue_step co) (queue_step co t x) es) = rows_of a (queue_step co t x)"
      using Cons.prems queue_step_sound [OF Cons.prems(1), of x] by (intro Cons.IH) simp_all
    with step_other [OF Cons.prems(1) f] show ?case by (simp add: x)
  qed simp
qed

subsection \<open>Cancelled calls\<close>

text \<open>The claim of a fresh call is the only thing the compensation can find.\<close>

lemma compensate_fresh:
  assumes "candidate \<notin> known t" and "c = first_claim agent rq candidate now"
  shows "compensate agent (rq_digest rq) candidate (t\<lparr>queue := rows, ledger := ledger t @ [c]\<rparr>) =
    t\<lparr>queue := delete_rows (is_row agent candidate) rows\<rparr>"
proof -
  let ?mark = "\<lambda>l. l_agent l = agent \<and> l_key l = rq_digest rq \<and> l_entry l = candidate \<and> \<not> l_compensating l"
  let ?moved = "\<lambda>l. l_agent l = agent \<and> l_entry l = candidate \<and> l_previous l \<noteq> None"
  let ?done = "\<lambda>l. l_agent l = agent \<and> l_key l = rq_digest rq \<and> l_entry l = candidate \<and> l_compensating l \<and> l_previous l = None"
  have others: "\<not> (l_agent l = agent \<and> l_entry l = candidate)" if "l \<in> set (ledger t)" for l
    using assms(1) that by (auto simp: known_def)
  have c: "l_agent c = agent" "l_key c = rq_digest rq" "l_entry c = candidate" "l_previous c = None" "\<not> l_compensating c"
    by (simp_all add: assms(2) first_claim_def)
  have same: "update_rows ?mark f (ledger t) = ledger t" "update_rows ?moved f (ledger t) = ledger t" for f
    by (rule update_rows_id; use others in blast)+
  have "delete_rows ?done (ledger t) = ledger t" by (rule delete_rows_none) (use others in blast)
  then have k: "delete_rows ?done (ledger t @ [c\<lparr>l_compensating := True\<rparr>]) = ledger t"
    using c by (simp add: delete_rows_def)
  have u: "update_rows ?mark (\<lambda>l. l\<lparr>l_compensating := True\<rparr>) (ledger t @ [c]) = ledger t @ [c\<lparr>l_compensating := True\<rparr>]"
    unfolding update_rows_append same using c by (simp add: update_rows_def)
  have v: "update_rows ?moved f (ledger t @ [c\<lparr>l_compensating := True\<rparr>]) = ledger t @ [c\<lparr>l_compensating := True\<rparr>]" for f
    unfolding update_rows_append same using c by (simp add: update_rows_def)
  have "list_ex ?mark (ledger t @ [c])" using c by simp
  moreover have led: "ledger (t\<lparr>queue := rows, ledger := ledger t @ [c]\<rparr>) = ledger t @ [c]" by simp
  ultimately show ?thesis unfolding compensate_def Let_def led u v k by simp
qed

text \<open>
  A keyed enqueue that is cancelled inside a transaction that joins an outer one, which is then
  committed, leaves nothing behind: run on what the call had written when it was cut off, after its
  claim, after its row or at its end, the compensating update and its trigger restore the tables to
  what they were, other agents' and other keys' claims included.
\<close>

theorem cancelled_enqueue_leaves_nothing:
  assumes "sound t" and "find_claim agent (rq_digest rq) t = None" and "candidate \<notin> known t"
  shows "compensate agent (rq_digest rq) candidate (claim_key agent rq candidate now t) = t \<and>
    (\<forall>t'. keyed_body co agent rq candidate cn now t = (Inr candidate, t') \<longrightarrow>
       compensate agent (rq_digest rq) candidate t' = t)"
proof -
  let ?c = "first_claim agent rq candidate now" and ?r = "keyed_entry agent rq candidate now"
  have rows: "\<not> is_row agent candidate r" if "r \<in> set (queue t)" for r
    using assms(3) that by (auto simp: known_def is_row_def)
  then have q: "delete_rows (is_row agent candidate) (queue t) = queue t" by (rule delete_rows_none)
  then have q2: "delete_rows (is_row agent candidate) (queue t @ [?r]) = queue t"
    by (simp add: delete_rows_def is_row_def keyed_entry_def new_entry_def)
  note comp = compensate_fresh [OF assms(3) refl, of agent rq now]
  have one: "compensate agent (rq_digest rq) candidate (claim_key agent rq candidate now t) = t"
    using comp [of "queue t"] by (simp add: claim_key_new [OF assms(2)] q)
  note new = keyed_new [where co = co and cn = cn and now = now, OF assms(1,2,3) refl]
  have "compensate agent (rq_digest rq) candidate t' = t"
    if b: "keyed_body co agent rq candidate cn now t = (Inr candidate, t')" for t'
  proof (cases "fst (find_recent_duplicate co agent (rq_recipient rq) (rq_canonical rq) (rq_legacy rq)
      (dedup_cutoff cn) (Some (rq_channel rq, rq_retries rq)) t)")
    case None
    from new(1) [OF this] b show ?thesis by (simp add: comp q2)
  next
    case (Some i)
    from new(2) [OF this] b obtain r where "find_row agent candidate t = Some r" by auto
    with rows show ?thesis by (auto dest!: find_row_Some simp: is_row_def)
  qed
  with one show ?thesis by blast
qed

subsection \<open>Examples\<close>

definition demo_codec :: codec where
  "demo_codec = \<lparr>co_sha = (\<lambda>s. CHR ''h'' # s), co_dumps = (\<lambda>v. Some ''{}''), co_sorted = (\<lambda>v. ''{}''),
     co_recanon = (\<lambda>s. Some s), co_request = (\<lambda>channel recipient content m. channel @ recipient @ content)\<rparr>"

definition demo_config :: "string \<Rightarrow> config" where
  "demo_config agent = \<lparr>cf_agent = agent, cf_max_retries = 2, cf_batch = 10, cf_strategy = Some Joined\<rparr>"

definition demo_queued :: tables where
  "demo_queued = snd (enqueue_idempotent demo_codec (demo_config ''a'') ''web'' ''r'' P_None None ''k'' ''e1'' 0 0 True empty_tables)"

lemma demo_queued_eval:
  "enqueue_idempotent demo_codec (demo_config ''a'') ''web'' ''r'' P_None None ''k'' ''e1'' 0 0 True empty_tables = (Inr ''e1'', demo_queued)"
  "demo_queued = \<lparr>queue = [new_entry ''e1'' ''a'' ''web'' ''r'' ''{}'' ''hr:{}'' ''hr:{}'' 2 0], dead = [],
     ledger = [\<lparr>l_agent = ''a'', l_key = ''hk'', l_entry = ''e1'', l_payload = ''hwebr{}'', l_created = 0,
       l_compensating = False, l_previous = None, l_retries = Some 2, l_legacy = Some ''hr:{}''\<rparr>]\<rparr>"
  by code_simp+

definition demo_row :: queue_entry where
  "demo_row = new_entry ''e1'' ''a'' ''web'' ''r'' ''{}'' ''hr:{}'' ''hr:{}'' 2 0"

definition demo_call :: event where
  "demo_call = Keyed ''web'' ''r'' P_None None ''k'' ''e1'' 0 0 True"

lemma demo_run:
  "run_ok fresh_ids (queue_step demo_codec) empty_tables [(demo_config ''a'', demo_call)]"
  "run (queue_step demo_codec) empty_tables [(demo_config ''a'', demo_call)] = demo_queued"
  by (simp_all add: demo_call_def fresh_ids_def known_def empty_tables_def demo_queued_def)

lemma queued_sound: "sound demo_queued"
  using dq.run_inv [OF empty_sound demo_run(1)] unfolding demo_run(2) .

lemma demo_known: "known demo_queued = {''e1''}"
  by (simp add: demo_queued_eval(2) known_def new_entry_def)

lemma demo_find: "find_row ''a'' ''e1'' demo_queued = Some demo_row"
  by (simp add: demo_queued_eval(2) find_row_def is_row_def demo_row_def new_entry_def)

theorem claims_keep_their_delivery_witness:
  "\<exists>r \<in> set (queue demo_queued). q_id r = ''e1'' \<and> q_agent r = ''a'' \<and> q_max_retries r = 2"
  using claims_keep_their_delivery [OF demo_run(1) refl] unfolding demo_run(2)
  by (simp add: demo_queued_eval(2))

definition demo_delivered :: tables where
  "demo_delivered = attempt_delivery (demo_config ''a'') (Some (\<lambda>c rc ct. Success)) False demo_row ''f'' 7 3 demo_queued"

lemma demo_delivered_sound: "sound demo_delivered"
  unfolding demo_delivered_def by (rule attempt_delivery_sound [OF queued_sound]) (simp add: demo_known)

lemma demo_delivered_eval:
  "queue demo_delivered = [demo_row\<lparr>q_status := DELIVERED, q_attempts := 1, q_delivered := Some 7\<rparr>]"
  by (simp add: demo_delivered_def attempt_delivery_def mark_in_flight_def settle_delivery_def bury_exhausted_def
    delivery_result_def set_entry_def update_rows_def demo_queued_eval(2) demo_row_def new_entry_def is_row_def demo_config_def Let_def)

theorem purge_removes_exactly_witness:
  "fst (purge_delivered (demo_config ''a'') 1 3600000008 demo_delivered) = 1 \<and>
   ledger (snd (purge_delivered (demo_config ''a'') 1 3600000008 demo_delivered)) = []"
proof -
  have l: "ledger demo_delivered = ledger demo_queued" by (simp add: demo_delivered_def attempt_ledger)
  show ?thesis
    unfolding purge_removes_exactly [OF demo_delivered_sound refl] fst_conv snd_conv demo_delivered_eval
    by (simp add: l demo_delivered_eval purgeable_def demo_row_def new_entry_def demo_config_def demo_queued_eval(2))
qed

theorem keyed_enqueue_happens_once_witness:
  "\<exists>r. enqueue_idempotent demo_codec (demo_config ''a'') ''web'' ''r'' P_None None ''k'' ''e2'' 99 99 True demo_delivered =
     (r, demo_delivered) \<and> (r = Inl Terminal \<or> r = Inr ''e1'')"
proof -
  let ?e = "(demo_config ''a'', Attempt (Some (\<lambda>c rc ct. Success)) False demo_row ''f'' 7 3)"
  have ok: "run_ok fresh_ids (queue_step demo_codec) demo_queued [?e]"
    by (simp add: fresh_ids_def demo_known)
  have r: "demo_delivered = run (queue_step demo_codec) demo_queued [?e]"
    by (simp add: demo_delivered_def)
  have k0: "''e1'' \<notin> known (run (queue_step demo_codec) empty_tables [])"
    by (simp add: known_def empty_tables_def)
  have k: "''e2'' \<notin> known demo_delivered"
  proof -
    have "dead demo_delivered = []" "ledger demo_delivered = ledger demo_queued"
      by (simp_all add: demo_delivered_def attempt_ledger)
        (simp add: attempt_delivery_def mark_in_flight_def settle_delivery_def bury_exhausted_def
          delivery_result_def demo_queued_eval(2) Let_def)
    then show ?thesis by (simp add: known_def demo_delivered_eval demo_row_def new_entry_def demo_queued_eval(2))
  qed
  have c: "enqueue_idempotent demo_codec (demo_config ''a'') ''web'' ''r'' P_None None ''k'' ''e1'' 0 0 True
      (run (queue_step demo_codec) empty_tables []) = (Inr ''e1'', demo_queued)"
    by (simp add: demo_queued_eval(1))
  have "cf_strategy (demo_config ''a'') \<noteq> None" by (simp add: demo_config_def)
  from keyed_enqueue_happens_once [where past = "[]", OF _ refl k0 c ok r _ refl this k, of 99 99 True]
  show ?thesis by auto
qed

theorem failing_delivery_is_buried_witness:
  "\<exists>dl \<in> set (dead (failing (demo_config ''a'') (\<lambda>c rc ct. Failure None) ''e1'' [(''d1'', 1), (''d2'', 2)] demo_queued)).
     d_original dl = ''e1'' \<and> d_attempts dl = 2"
proof -
  have f: "find_row (cf_agent (demo_config ''a'')) ''e1'' demo_queued = Some demo_row" by (simp add: demo_config_def demo_find)
  have "set (map fst [(''d1'', 1 :: int), (''d2'', 2)]) \<inter> known demo_queued = {}" by (simp add: demo_known)
  from failing_delivery_is_buried [OF queued_sound f refl _ this refl refl, of None]
  show ?thesis by (auto simp: demo_row_def new_entry_def)
qed

theorem buried_delivery_can_be_retried_witness:
  "\<exists>t1 t2. move_to_dead_letter ''a'' ''e1'' ''x'' ''d1'' 5 demo_queued = Some t1 \<and>
     retry_entry demo_codec (demo_config ''a'') ''d1'' ''e2'' 6 t1 = (Inr (Re_Enqueued ''e2'' ''e1''), t2) \<and>
     claim_of ''a'' ''hk'' t2 = Some (''e2'', ''hwebr{}'')"
proof -
  have a: "cf_agent (demo_config ''a'') = ''a''" by (simp add: demo_config_def)
  have f: "find_row (cf_agent (demo_config ''a'')) ''e1'' demo_queued = Some demo_row" by (simp add: a demo_find)
  have k1: "''d1'' \<notin> known demo_queued" by (simp add: demo_known)
  note m = move_to_dead_letter_live [OF queued_sound f k1, of "''x''" 5]
  let ?t1 = "demo_queued\<lparr>queue := delete_rows (is_row (cf_agent (demo_config ''a'')) ''e1'') (queue demo_queued),
      dead := dead demo_queued @ [tombstone ''d1'' ''x'' 5 demo_row]\<rparr>"
  have k2: "''e2'' \<notin> known ?t1"
    by (simp add: known_def demo_queued_eval(2) delete_rows_def is_row_def new_entry_def tombstone_def demo_row_def)
  have c: "claim_of ''a'' ''hk'' demo_queued = Some (''e1'', ''hwebr{}'')"
    by (simp add: claim_of_def find_claim_def demo_queued_eval(2))
  have "''e2'' \<noteq> []" by simp
  from buried_delivery_can_be_retried [OF queued_sound f k1 m k2 this, of demo_codec 6] obtain t2 where
    t2: "retry_entry demo_codec (demo_config ''a'') ''d1'' ''e2'' 6 ?t1 = (Inr (Re_Enqueued ''e2'' ''e1''), t2)"
    and cl: "\<forall>k e py. claim_of (cf_agent (demo_config ''a'')) k demo_queued = Some (e, py) \<longrightarrow>
       claim_of (cf_agent (demo_config ''a'')) k t2 = Some (if e = ''e1'' then ''e2'' else e, py)" by blast
  from cl c have "claim_of ''a'' ''hk'' t2 = Some (''e2'', ''hwebr{}'')" by (simp add: a)
  with m t2 show ?thesis unfolding a by blast
qed

theorem agents_are_isolated_witness:
  "rows_of ''a'' (run (queue_step demo_codec) demo_queued [(demo_config ''b'', Reclaim 3), (demo_config ''b'', Purge 0 9)]) =
     rows_of ''a'' demo_queued"
  by (rule agents_are_isolated [OF demo_run(1), unfolded demo_run(2), OF refl])
    (simp_all add: fresh_ids_def demo_config_def)

theorem cancelled_enqueue_leaves_nothing_witness:
  "compensate ''a'' ''k'' ''e'' (claim_key ''a'' \<lparr>rq_channel = [], rq_recipient = [], rq_content = [], rq_legacy = [],
     rq_canonical = [], rq_retries = 1, rq_digest = ''k'', rq_payload = []\<rparr> ''e'' 3 empty_tables) = empty_tables"
proof -
  let ?rq = "\<lparr>rq_channel = [], rq_recipient = [], rq_content = [], rq_legacy = [],
     rq_canonical = [], rq_retries = 1, rq_digest = ''k'', rq_payload = []\<rparr>"
  have n: "find_claim ''a'' (rq_digest ?rq) empty_tables = None" by (simp add: find_claim_def empty_tables_def)
  have k: "''e'' \<notin> known empty_tables" by (simp add: known_def empty_tables_def)
  from cancelled_enqueue_leaves_nothing [OF empty_sound n k, of 3] show ?thesis by simp
qed

text \<open>
  The first retry of a delivery waits for 25 seconds: the backoff is computed from the attempts made,
  which are at least one. The four waits of the default policy of five attempts are these.
\<close>

lemma default_backoff_schedule: "map compute_backoff [1, 2, 3, 4] = [25, 125, 625, 3125]"
  by (simp add: compute_backoff_def)

end
