(* ===== verification/Delivery_Halted.thy ===== *)
theory Delivery_Halted
  imports Delivery_Promises
begin

text \<open>
  Dead-letter transitions that stop halfway. On SQLite a transaction opened inside another one joins
  it: when one of its statements fails and the caller commits the outer transaction all the same, the
  statements before the failing one stay. \<open>move_to_dead_letter\<close> and \<open>_retry_entry\<close> of
  \<open>features/delivery/queue.py\<close> order their statements for this case. The states they can leave behind
  are defined here, with the proof that these deliver nothing, answer like the finished burial and are
  taken up again by the next call. The operations of \<open>Delivery_Queue\<close> are the finished ones.
\<close>

subsection \<open>The tables a halted transition leaves\<close>

text \<open>Everything but the final \<open>DELETE\<close> of the live row.\<close>

definition halted_move :: "string \<Rightarrow> string \<Rightarrow> string \<Rightarrow> string \<Rightarrow> int \<Rightarrow> tables \<Rightarrow> tables" where
  "halted_move agent i reason fresh now t =
     (case move_to_dead_letter agent i reason fresh now t of None \<Rightarrow> t | Some t' \<Rightarrow> t\<lparr>dead := dead t'\<rparr>)"

text \<open>
  The first \<open>n\<close> statements of a retry: the reservation of the new identifier, the removal of a row
  that a halted move left, the new row, the claims. The fifth removes the dead letter.
\<close>

definition halted_retry :: "codec \<Rightarrow> config \<Rightarrow> string \<Rightarrow> string \<Rightarrow> int \<Rightarrow> nat \<Rightarrow> tables \<Rightarrow> tables" where
  "halted_retry co cf i fresh now n t =
     (case lock_dead_letter (cf_agent cf) i t of
        None \<Rightarrow> t
      | Some d \<Rightarrow>
          (let agent = cf_agent cf;
               new_id = text_or (d_retry d) fresh;
               (computed_legacy, canonical) = persisted_content_hashes co (d_recipient d) (d_content d);
               claims = filter (\<lambda>l. l_agent l = agent \<and> l_entry l = d_original d) (ledger t);
               policies = some_values (map l_retries claims);
               hashes = some_values (map l_legacy claims)
           in if length policies > 1 \<or> d_legacy d = None \<and> length hashes > 1 then t
              else
                (let legacy = text_or (d_legacy d) (text_or (first_value hashes) computed_legacy);
                     policy = (case first_value policies of
                                 Some p \<Rightarrow> p
                               | None \<Rightarrow> (case d_max_retries d of Some m \<Rightarrow> m | None \<Rightarrow> cf_max_retries cf));
                     t1 = (if n < 1 then t
                           else t\<lparr>dead := update_rows (\<lambda>x. d_id x = d_id d \<and> d_agent x = agent \<and> d_retry x = None)
                                    (\<lambda>x. x\<lparr>d_retry := Some new_id\<rparr>) (dead t)\<rparr>);
                     t2 = (if n < 2 \<or> d_original d = new_id then t1
                           else t1\<lparr>queue := delete_rows (is_row agent (d_original d)) (queue t1)\<rparr>);
                     t3 = (if n < 3 then t2
                           else (case insert_entry (new_entry new_id agent (d_channel d) (d_recipient d) (d_content d)
                                   legacy canonical policy now) t2 of None \<Rightarrow> t2 | Some t' \<Rightarrow> t'))
                 in if n < 4 then t3
                    else t3\<lparr>ledger := update_rows (\<lambda>l. l_agent l = agent \<and> l_entry l = d_original d)
                      (\<lambda>l. l\<lparr>l_entry := new_id, l_created := now, l_compensating := False,
                             l_previous := first_of (l_previous l) (Some (d_original d)),
                             l_retries := first_of (l_retries l) (Some policy),
                             l_legacy := first_of (l_legacy l) (Some legacy)\<rparr>) (ledger t3)\<rparr>)))"

text \<open>A retry that is not halted runs the same statements and removes the dead letter.\<close>

lemma retry_is_its_statements:
  assumes "lock_dead_letter (cf_agent cf) i t = Some d" and "retry_dead_letter co cf d fresh now t = Inr (res, t')"
  shows "t' = (halted_retry co cf i fresh now 4 t)\<lparr>dead :=
    delete_rows (\<lambda>x. d_id x = d_id d \<and> d_agent x = cf_agent cf) (dead (halted_retry co cf i fresh now 4 t))\<rparr>"
  using assms
  by (auto simp: halted_retry_def retry_dead_letter_def insert_entry_def Let_def case_prod_beta split: if_splits option.splits)

subsection \<open>What the queries see\<close>

definition visible :: "tables \<Rightarrow> queue_entry list" where
  "visible t = filter (\<lambda>r. \<not> tombstoned t r) (queue t)"

lemma next_batch_visible:
  "next_batch cf now t = limit (cf_batch cf) (soonest_first (filter (\<lambda>r. q_agent r = cf_agent cf \<and>
     q_status r \<in> {PENDING, FAILED} \<and> due now r) (visible t)))"
  by (simp add: next_batch_def deliverable_def visible_def conj_ac)

lemma pending_visible:
  "get_pending_entries cf n t = limit n (soonest_first (filter (\<lambda>r. q_agent r = cf_agent cf \<and>
     q_status r \<in> {PENDING, FAILED}) (visible t)))"
proof -
  have "deliverable a t = (\<lambda>r. \<not> tombstoned t r \<and> q_agent r = a \<and> (q_status r = PENDING \<or> q_status r = FAILED))" for a
    by (auto simp: deliverable_def)
  then show ?thesis by (simp add: get_pending_entries_def visible_def)
qed

lemma counts_visible:
  "visible t = visible t' \<Longrightarrow> map d_agent (dead t) = map d_agent (dead t') \<Longrightarrow> get_status_counts cf t = get_status_counts cf t'"
proof -
  assume v: "visible t = visible t'" and d: "map d_agent (dead t) = map d_agent (dead t')"
  have n: "filter (\<lambda>r. q_agent r = cf_agent cf \<and> \<not> tombstoned x r \<and> q_status r = s) (queue x) =
      filter (\<lambda>r. q_agent r = cf_agent cf \<and> q_status r = s) (visible x)" for x s
    by (simp add: visible_def conj_ac)
  have len: "length (filter (\<lambda>l. d_agent l = cf_agent cf) ds) = length (filter (\<lambda>a. a = cf_agent cf) (map d_agent ds))" for ds
    by (induction ds) auto
  show ?thesis unfolding get_status_counts_def n len v d by (rule refl)
qed

lemma visible_sound: "sound t \<Longrightarrow> visible t = queue t"
  unfolding visible_def by (rule filter_True) (simp add: sound_def)

text \<open>The buried row and the row of a retry that is under way are hidden by the one dead letter.\<close>

lemma visible_halted:
  assumes "sound t" and "f2 \<notin> known t" and "d_agent d = a" and "d_original d = i" and "d_retry d \<in> {None, Some f2}"
    and "q \<in> {queue t, delete_rows (is_row a i) (queue t)} \<or>
      d_retry d = Some f2 \<and> q_id n = f2 \<and> q_agent n = a \<and> q = delete_rows (is_row a i) (queue t) @ [n]"
    and "v = t\<lparr>queue := q, dead := dead t @ [d], ledger := ls\<rparr>"
  shows "visible v = delete_rows (is_row a i) (queue t)"
proof -
  have d: "dead_for b j d \<longleftrightarrow> b = a \<and> (j = i \<or> d_retry d = Some j)" for b j using assms(3,4) by (auto simp: dead_for_def)
  have old: "tombstoned v x \<longleftrightarrow> is_row a i x" if x: "x \<in> set (queue t)" for x
  proof -
    have "\<not> tombstoned t x" using assms(1) x by (auto simp: sound_def)
    moreover have "d_retry d \<noteq> Some (q_id x)" using assms(2,5) x by (auto simp: known_def)
    ultimately show ?thesis by (auto simp: tombstoned_iff assms(7) d is_row_def)
  qed
  have keep: "filter (\<lambda>x. \<not> tombstoned v x) (queue t) = delete_rows (is_row a i) (queue t)"
    unfolding delete_rows_def by (rule filter_cong) (simp_all add: old)
  have again: "filter (\<lambda>x. \<not> tombstoned v x) (delete_rows (is_row a i) (queue t)) = delete_rows (is_row a i) (queue t)"
    by (rule filter_True) (auto simp: old)
  have hidden: "tombstoned v n" if "d_retry d = Some f2" "q_id n = f2" "q_agent n = a"
    using that by (auto simp: tombstoned_iff assms(7) d)
  have q: "queue v = q" by (simp add: assms(7))
  from assms(6) show ?thesis unfolding visible_def q using keep again hidden by auto
qed

text \<open>A key of a delivery that has a dead letter is answered with the dead letter; nothing is written.\<close>

lemma keyed_terminal:
  assumes "prepare_request co cf channel recipient content m key = Inr rq" and "cf_strategy cf \<noteq> None"
    and "\<forall>r \<in> set (queue t). q_canonical r \<noteq> None" and "claim_of (cf_agent cf) (rq_digest rq) t = Some (e, rq_payload rq)"
    and "\<exists>d \<in> set (dead t). dead_for (cf_agent cf) e d" and "candidate \<notin> known t"
  shows "enqueue_idempotent co cf channel recipient content m key candidate cn now kept t = (Inl Terminal, t)"
proof -
  let ?a = "cf_agent cf"
  let ?dup = "find_recent_duplicate co ?a (rq_recipient rq) (rq_canonical rq) (rq_legacy rq) (dedup_cutoff cn)
    (Some (rq_channel rq, rq_retries rq)) t"
  have none: "filter (\<lambda>r. p r \<and> q_canonical r = None) (queue t) = []" for p
    using assms(3) by (auto simp: filter_empty_conv)
  have "snd ?dup = t" by (simp add: find_recent_duplicate_def Let_def none newest_first_def split: list.splits)
  then obtain dup where dup: "?dup = (dup, t)" by (metis prod.collapse)
  from assms(4) obtain c where c: "find_claim ?a (rq_digest rq) t = Some c" "l_entry c = e" "l_payload c = rq_payload rq"
    by (auto simp: claim_of_def)
  have body: "keyed_body co ?a rq candidate cn now t = (Inl Terminal, t)"
    using c assms(5) dup by (auto simp: keyed_body_def claim_key_def find_dead_None)
  have "\<not> list_ex (\<lambda>l. l_agent l = ?a \<and> l_key l = rq_digest rq \<and> l_entry l = candidate \<and> \<not> l_compensating l) (ledger t)"
    using assms(6) by (auto simp: list_ex_iff known_def)
  then have "compensate ?a (rq_digest rq) candidate t = t" by (simp add: compensate_def)
  with assms(1,2) body show ?thesis by (auto simp: enqueue_idempotent_def split: option.splits)
qed

subsection \<open>Taking a retry up again\<close>

definition legacy_of :: "codec \<Rightarrow> string \<Rightarrow> dead_letter \<Rightarrow> key_claim list \<Rightarrow> string" where
  "legacy_of co agent d ls = text_or (d_legacy d)
     (text_or (first_value (some_values (map l_legacy (filter (\<lambda>l. l_agent l = agent \<and> l_entry l = d_original d) ls))))
       (fst (persisted_content_hashes co (d_recipient d) (d_content d))))"

definition retried_row :: "codec \<Rightarrow> string \<Rightarrow> dead_letter \<Rightarrow> string \<Rightarrow> string \<Rightarrow> int \<Rightarrow> queue_entry" where
  "retried_row co agent d i legacy now = new_entry i agent (d_channel d) (d_recipient d) (d_content d) legacy
     (snd (persisted_content_hashes co (d_recipient d) (d_content d))) (the (d_max_retries d)) now"

lemma one_policy:
  assumes "\<forall>l \<in> set ls. p l \<longrightarrow> l_retries l = Some m"
  shows "some_values (map l_retries (filter p ls)) \<in> {[], [m]}"
proof -
  have "set (map l_retries (filter p ls)) \<subseteq> {Some m}" using assms by auto
  from some_values_const [OF this] show ?thesis by simp
qed

lemma last_letter:
  assumes "\<forall>x \<in> set ds. d_id x \<noteq> d_id d"
  shows "update_rows (\<lambda>x. d_id x = d_id d \<and> p x) f (ds @ [d]) = ds @ [if p d then f d else d]"
    and "(\<And>x. d_id (f x) = d_id x) \<Longrightarrow> delete_rows (\<lambda>x. d_id x = d_id d \<and> q x) (ds @ [d]) = ds @ (if q d then [] else [d])"
  using assms by (auto simp: update_rows_def delete_rows_def map_idI)

lemma halted_retry_exact:
  assumes "v = \<lparr>queue = rows, dead = ds @ [d], ledger = ls\<rparr>" and "lock_dead_letter (cf_agent cf) j v = Some d"
    and "\<forall>x \<in> set ds. d_id x \<noteq> d_id d" and "d_agent d = cf_agent cf" and "d_retry d = None"
    and "d_max_retries d = Some m" and "d_legacy d \<noteq> None"
    and "\<forall>l \<in> set ls. l_agent l = cf_agent cf \<and> l_entry l = d_original d \<longrightarrow> l_retries l = Some m"
    and "fresh \<noteq> d_original d" and "fresh \<notin> set (map q_id rows)"
  shows "halted_retry co cf j fresh now n v =
    \<lparr>queue = (if n < 2 then rows else delete_rows (is_row (cf_agent cf) (d_original d)) rows @
        (if n < 3 then [] else [retried_row co (cf_agent cf) d fresh (legacy_of co (cf_agent cf) d ls) now])),
     dead = ds @ [if n < 1 then d else d\<lparr>d_retry := Some fresh\<rparr>],
     ledger = (if n < 4 then ls else follow (cf_agent cf) d fresh now m (legacy_of co (cf_agent cf) d ls) ls)\<rparr>"
proof -
  let ?a = "cf_agent cf" and ?claims = "filter (\<lambda>l. l_agent l = cf_agent cf \<and> l_entry l = d_original d) ls"
  have new: "text_or (d_retry d) fresh = fresh" by (simp add: assms(5) text_or_def)
  from one_policy [OF assms(8)] have pol: "some_values (map l_retries ?claims) \<in> {[], [m]}" .
  then have p: "\<not> length (some_values (map l_retries ?claims)) > 1"
    "(case first_value (some_values (map l_retries ?claims)) of Some p \<Rightarrow> p
      | None \<Rightarrow> (case d_max_retries d of Some m \<Rightarrow> m | None \<Rightarrow> cf_max_retries cf)) = m"
    using assms(6) by (auto simp: first_value_def)
  have ins: "insert_entry (new_entry fresh ?a (d_channel d) (d_recipient d) (d_content d) k h m now)
      \<lparr>queue = delete_rows (is_row ?a (d_original d)) rows, dead = x, ledger = ls\<rparr> =
      Some \<lparr>queue = delete_rows (is_row ?a (d_original d)) rows @
        [new_entry fresh ?a (d_channel d) (d_recipient d) (d_content d) k h m now], dead = x, ledger = ls\<rparr>" for k h x
    using assms(10) by (auto simp: insert_entry_def new_entry_def)
  have res: "update_rows (\<lambda>x. d_id x = d_id d \<and> d_agent x = ?a \<and> d_retry x = None) (\<lambda>x. x\<lparr>d_retry := Some fresh\<rparr>)
      (ds @ [d]) = ds @ [d\<lparr>d_retry := Some fresh\<rparr>]"
    using last_letter(1) [OF assms(3)] assms(4,5) by simp
  have ne: "d_original d \<noteq> fresh" using assms(9) by simp
  from assms(7) obtain y where y: "d_legacy d = Some y" by blast
  consider "n < 1" | "n = 1" | "n = 2" | "n = 3" | "4 \<le> n" by linarith
  then show ?thesis
    by cases (insert assms(2,6) y p res ne ins, simp_all add: halted_retry_def new Let_def case_prod_beta assms(1)
      retried_row_def legacy_of_def follow_def)
qed

lemma retry_exact:
  assumes "v = \<lparr>queue = rows, dead = ds @ [d], ledger = ls\<rparr>" and "lock_dead_letter (cf_agent cf) j v = Some d"
    and "\<forall>x \<in> set ds. d_id x \<noteq> d_id d" and "d_agent d = cf_agent cf"
    and "d_max_retries d = Some m" and "d_legacy d \<noteq> None"
    and "\<forall>l \<in> set ls. l_agent l = cf_agent cf \<and> l_entry l = d_original d \<longrightarrow> l_retries l = Some m"
    and "i = text_or (d_retry d) fresh" and "i \<noteq> d_original d"
    and "left = delete_rows (is_row (cf_agent cf) (d_original d)) rows"
  shows "retry_entry co cf j fresh now v = (Inr (Re_Enqueued i (d_original d)),
    \<lparr>queue = (if i \<in> set (map q_id left) then left
        else left @ [retried_row co (cf_agent cf) d i (legacy_of co (cf_agent cf) d ls) now]),
     dead = ds, ledger = follow (cf_agent cf) d i now m (legacy_of co (cf_agent cf) d ls) ls\<rparr>)"
proof -
  let ?a = "cf_agent cf" and ?claims = "filter (\<lambda>l. l_agent l = cf_agent cf \<and> l_entry l = d_original d) ls"
  from one_policy [OF assms(7)] have pol: "some_values (map l_retries ?claims) \<in> {[], [m]}" .
  then have p: "\<not> length (some_values (map l_retries ?claims)) > 1"
    "(case first_value (some_values (map l_retries ?claims)) of Some p \<Rightarrow> p
      | None \<Rightarrow> (case d_max_retries d of Some m \<Rightarrow> m | None \<Rightarrow> cf_max_retries cf)) = m"
    using assms(5) by (auto simp: first_value_def)
  define d' where "d' = (if d_retry d = None then d\<lparr>d_retry := Some i\<rparr> else d)"
  have d': "d_id d' = d_id d" "d_agent d' = ?a" using assms(4) by (simp_all add: d'_def)
  have res: "update_rows (\<lambda>x. d_id x = d_id d \<and> d_agent x = ?a \<and> d_retry x = None) (\<lambda>x. x\<lparr>d_retry := Some i\<rparr>)
      (ds @ [d]) = ds @ [d']"
    using last_letter(1) [OF assms(3)] assms(4) by (simp add: d'_def)
  have gone: "delete_rows (\<lambda>x. d_id x = d_id d \<and> d_agent x = ?a) (ds @ [d']) = ds"
    using last_letter(2) [of ds d' id "\<lambda>x. d_agent x = ?a"] assms(3) d' by simp
  have there: "list_ex (\<lambda>x. d_id x = d_id d \<and> d_agent x = ?a) (ds @ [d'])" using d' by simp
  have ins: "insert_entry r \<lparr>queue = left, dead = x, ledger = ls\<rparr> =
      (if q_id r \<in> set (map q_id left) then None else Some \<lparr>queue = left @ [r], dead = x, ledger = ls\<rparr>)" for r x
    by (simp add: insert_entry_def)
  have ne: "d_original d \<noteq> i" using assms(9) by simp
  have id: "q_id (new_entry i ?a c r b k h pol now) = i" for c r b k h pol by (simp add: new_entry_def)
  from assms(6) obtain y where y: "d_legacy d = Some y" by blast
  show ?thesis
    using assms(2,5) y p gone there
    by (simp add: retry_entry_def retry_dead_letter_def Let_def case_prod_beta assms(1) assms(8) [symmetric] res ne
      assms(10) [symmetric] ins id retried_row_def legacy_of_def follow_def)
qed

subsection \<open>One delivery, halted on its way\<close>

lemma claim_of_ledger: "ledger t = ledger t' \<Longrightarrow> claim_of a k t = claim_of a k t'"
  by (simp add: claim_of_def find_claim_def)

lemma follow_last:
  assumes "fresh \<noteq> d_original d" and "d_original e = d_original d"
  shows "follow a e i now m k (follow a d fresh now' m' k' ls) = follow a d fresh now' m' k' ls"
  unfolding follow_def using assms by (intro update_rows_id) (auto simp: in_update_rows)

lemma follow_letter: "d_original e = d_original d \<Longrightarrow> follow a e = follow a d"
  by (simp add: follow_def fun_eq_iff)

lemma lock_last:
  assumes "d_agent d = a" and "d_original d = i" and "d_id d = f" and "f \<noteq> i" and "j = f \<or> j = i \<and> i \<notin> d_id ` set ds"
    and "\<forall>x \<in> set ds. d_id x \<noteq> f \<and> \<not> dead_for a i x" and "dead v = ds @ [d]"
  shows "lock_dead_letter a j v = Some d"
proof -
  have none: "find (\<lambda>x. d_agent x = a \<and> d_id x = f) ds = None" "find (\<lambda>x. d_agent x = a \<and> d_original x = i) ds = None"
    using assms(6) by (auto simp: find_None_iff dead_for_def)
  have own: "find (\<lambda>x. d_agent x = a \<and> d_original x = i) (ds @ [d]) = Some d"
    using none(2) assms(1,2) by (simp add: find_appended)
  from assms(5) show ?thesis
  proof
    assume "j = f"
    with none(1) assms(1,3) show ?thesis by (simp add: lock_dead_letter_def assms(7) find_appended first_of_def)
  next
    assume j: "j = i \<and> i \<notin> d_id ` set ds"
    then have "find (\<lambda>x. d_agent x = a \<and> d_id x = i) (ds @ [d]) = None"
      using assms(3,4) by (auto simp: find_None_iff)
    with j own show ?thesis by (simp add: lock_dead_letter_def find_dead_letter_for_queue_id_def assms(7) first_of_def)
  qed
qed

text \<open>
  The tables of a finished burial, and those of a burial that may have been halted followed by a
  retry that may have been halted after \<open>n\<close> statements.
\<close>

definition without :: "dead_letter \<Rightarrow> tables \<Rightarrow> queue_entry list" where
  "without d t = delete_rows (is_row (d_agent d) (d_original d)) (queue t)"

definition buried :: "dead_letter \<Rightarrow> tables \<Rightarrow> tables" where
  "buried d t = \<lparr>queue = without d t, dead = dead t @ [d], ledger = ledger t\<rparr>"

definition buriable :: "dead_letter \<Rightarrow> tables \<Rightarrow> bool" where
  "buriable d t \<longleftrightarrow> sound t \<and> sound (buried d t) \<and> d_retry d = None \<and> d_max_retries d \<noteq> None \<and> d_legacy d \<noteq> None \<and>
     d_id d \<noteq> d_original d \<and>
     (\<forall>x \<in> set (dead t). d_id x \<noteq> d_id d \<and> \<not> dead_for (d_agent d) (d_original d) x) \<and>
     (\<forall>l \<in> set (ledger t). l_agent l = d_agent d \<and> l_entry l = d_original d \<longrightarrow> l_retries l = d_max_retries d)"

definition halfway :: "codec \<Rightarrow> dead_letter \<Rightarrow> string \<Rightarrow> int \<Rightarrow> nat \<Rightarrow> tables \<Rightarrow> tables \<Rightarrow> bool" where
  "halfway co d f now n t v \<longleftrightarrow>
     (let legacy = legacy_of co (d_agent d) d (ledger t) in
      \<exists>rows \<in> {queue t, without d t}. v =
        \<lparr>queue = (if n < 2 then rows
                  else without d t @ (if n < 3 then [] else [retried_row co (d_agent d) d f legacy now])),
         dead = dead t @ [if n < 1 then d else d\<lparr>d_retry := Some f\<rparr>],
         ledger = (if n < 4 then ledger t
                   else follow (d_agent d) d f now (the (d_max_retries d)) legacy (ledger t))\<rparr>)"

lemma burial:
  assumes "sound t" and "find_row a i t = Some r" and "f1 \<notin> known t"
    and "move_to_dead_letter a i reason f1 now1 t = Some t1" and "d = tombstone f1 reason now1 r"
  shows "t1 = buried d t" and "buriable d t" and "d_agent d = a" and "d_original d = i" and "d_id d = f1"
    and "halted_move a i reason f1 now1 t = \<lparr>queue = queue t, dead = dead t @ [d], ledger = ledger t\<rparr>"
proof -
  from find_row_Some [OF assms(2)] have r: "r \<in> set (queue t)" "q_id r = i" "q_agent r = a" by auto
  then have d: "d_id d = f1" "d_agent d = a" "d_original d = i" "d_retry d = None" "d_max_retries d \<noteq> None" "d_legacy d \<noteq> None"
    using assms(1) by (auto simp: assms(5) tombstone_def sound_def good_row_def)
  show "t1 = buried d t"
    using move_to_dead_letter_live [OF assms(1,2,3), of reason now1] assms(4) d
    by (simp add: buried_def without_def assms(5) [symmetric])
  then show "halted_move a i reason f1 now1 t = \<lparr>queue = queue t, dead = dead t @ [d], ledger = ledger t\<rparr>"
    by (simp add: halted_move_def assms(4) buried_def)
  from move_to_dead_letter_sound [OF assms(1,3,4)] \<open>t1 = buried d t\<close> have s1: "sound (buried d t)" by simp
  have "i \<in> known t" using r by (auto simp: known_def)
  with assms(3) have ne: "f1 \<noteq> i" by blast
  have "\<not> tombstoned t r" using assms(1) r(1) by (auto simp: sound_def)
  then have other: "\<forall>y \<in> set (dead t). d_id y \<noteq> f1 \<and> \<not> dead_for a i y"
    using assms(3) r by (auto simp: tombstoned_iff known_def)
  have "\<forall>l \<in> set (ledger t). l_agent l = a \<and> l_entry l = i \<longrightarrow> l_retries l = d_max_retries d"
    using buried_claims [OF s1, of d] d by (simp add: buried_def)
  with assms(1) s1 d ne other show "buriable d t" by (simp add: buriable_def)
  from d show "d_agent d = a" "d_original d = i" "d_id d = f1" by simp_all
qed

lemma fresh_elsewhere:
  assumes "f \<notin> known (buried d t)"
  shows "f \<noteq> d_original d" and "f \<notin> set (map q_id (queue t))" and "f \<notin> set (map q_id (without d t))"
proof -
  show o: "f \<noteq> d_original d" using assms by (auto simp: known_def buried_def)
  show w: "f \<notin> set (map q_id (without d t))" using assms by (auto simp: known_def buried_def)
  then show "f \<notin> set (map q_id (queue t))" using o by (auto simp: without_def is_row_def)
qed

lemma halted_halfway:
  assumes "buriable d t" and "d_agent d = cf_agent cf"
    and "x \<in> {\<lparr>queue = queue t, dead = dead t @ [d], ledger = ledger t\<rparr>, buried d t}"
    and "j = d_id d \<or> j = d_original d \<and> j \<notin> d_id ` set (dead t)" and "f \<notin> known (buried d t)"
  shows "halfway co d f now n t (halted_retry co cf j f now n x)"
proof -
  obtain rows where x: "rows \<in> {queue t, without d t}" "x = \<lparr>queue = rows, dead = dead t @ [d], ledger = ledger t\<rparr>"
    using assms(3) by (auto simp: buried_def)
  from assms(1) have b: "d_id d \<noteq> d_original d" "\<forall>x \<in> set (dead t). d_id x \<noteq> d_id d"
    "\<forall>x \<in> set (dead t). d_id x \<noteq> d_id d \<and> \<not> dead_for (cf_agent cf) (d_original d) x" "d_retry d = None"
    "d_max_retries d = Some (the (d_max_retries d))" "d_legacy d \<noteq> None"
    "\<forall>l \<in> set (ledger t). l_agent l = cf_agent cf \<and> l_entry l = d_original d \<longrightarrow> l_retries l = Some (the (d_max_retries d))"
    by (auto simp: buriable_def assms(2))
  have lock: "lock_dead_letter (cf_agent cf) j x = Some d"
    by (rule lock_last [OF assms(2) refl refl b(1) _ b(3)]) (use assms(4) x(2) in auto)
  note f = fresh_elsewhere [OF assms(5)]
  have fr: "f \<notin> set (map q_id rows)" using x(1) f(2,3) by blast
  have left: "delete_rows (is_row (cf_agent cf) (d_original d)) rows = without d t"
    using x(1) by (auto simp: without_def assms(2) delete_rows_def)
  from halted_retry_exact [OF x(2) lock b(2) assms(2) b(4-7) f(1) fr, of co now n] x(1) show ?thesis
    unfolding halfway_def Let_def left assms(2) by blast
qed

lemma halfway_letter:
  assumes "halfway co d f now n t v"
  shows "\<exists>e. dead v = dead t @ [e] \<and> d_agent e = d_agent d \<and> d_original e = d_original d \<and> d_id e = d_id d \<and>
    d_retry e = (if n = 0 then d_retry d else Some f)"
  using assms by (auto simp: halfway_def Let_def)

text \<open>What the queries return, and what a key of the delivery is answered.\<close>

lemma halfway_visible:
  assumes "halfway co d f now n t v" and "buriable d t" and "f \<notin> known (buried d t)"
  shows "visible v = without d t" and "\<forall>r \<in> set (queue v). q_canonical r \<noteq> None"
proof -
  define new where "new = retried_row co (d_agent d) d f (legacy_of co (d_agent d) d (ledger t)) now"
  define e where "e = (if n < 1 then d else d\<lparr>d_retry := Some f\<rparr>)"
  obtain rows ls where rows: "rows \<in> {queue t, without d t}" and
    v0: "v = \<lparr>queue = (if n < 2 then rows else without d t @ (if n < 3 then [] else [new])), dead = dead t @ [e], ledger = ls\<rparr>"
    using assms(1) unfolding halfway_def Let_def new_def e_def by blast
  then have v: "v = t\<lparr>queue := (if n < 2 then rows else without d t @ (if n < 3 then [] else [new])), dead := dead t @ [e], ledger := ls\<rparr>"
    by simp
  have new: "q_id new = f" "q_agent new = d_agent d" "q_canonical new \<noteq> None"
    by (simp_all add: new_def retried_row_def new_entry_def)
  from assms(2) have s: "sound t" "d_retry d = None" by (auto simp: buriable_def)
  then have e: "d_agent e = d_agent d" "d_original e = d_original d" "d_retry e = (if n = 0 then None else Some f)" by (auto simp: e_def)
  have fr: "f \<notin> known t"
  proof -
    have "known t \<subseteq> known (buried d t)" by (auto simp: known_def buried_def without_def is_row_def)
    with assms(3) show ?thesis by blast
  qed
  show "visible v = without d t"
    unfolding without_def
    by (rule visible_halted [OF s(1) fr e(1,2) _ _ v, where n = new])
      (use rows e(3) new in \<open>auto simp: without_def split: if_splits\<close>)
  have "queue v = (if n < 2 then rows else without d t @ (if n < 3 then [] else [new]))" by (simp add: v0)
  then show "\<forall>r \<in> set (queue v). q_canonical r \<noteq> None"
    using rows new(3) s(1) by (auto simp: without_def sound_def good_row_def)
qed

lemma halfway_claims:
  assumes "halfway co d f now n t v" and "claim_of (d_agent d) k t = Some (d_original d, payload)"
  shows "claim_of (d_agent d) k v = Some (if n < 4 then d_original d else f, payload)"
proof (cases "n < 4")
  case True
  then have "ledger v = ledger t" using assms(1) by (auto simp: halfway_def Let_def)
  from claim_of_ledger [OF this, of "d_agent d" k] assms(2) True show ?thesis by simp
next
  case False
  then have "ledger v = ledger (t\<lparr>queue := [], dead := [], ledger := follow (d_agent d) d f now (the (d_max_retries d))
      (legacy_of co (d_agent d) d (ledger t)) (ledger t)\<rparr>)" using assms(1) by (auto simp: halfway_def Let_def)
  from claim_of_ledger [OF this, of "d_agent d" k] False show ?thesis unfolding follow_claims by (simp add: assms(2))
qed

lemma halfway_terminal:
  assumes "halfway co d f now n t v" and "buriable d t" and "f \<notin> known (buried d t)" and "d_agent d = cf_agent cf"
    and "prepare_request co cf channel recipient content m key = Inr rq" and "cf_strategy cf \<noteq> None"
    and "claim_of (cf_agent cf) (rq_digest rq) t = Some (d_original d, rq_payload rq)" and "candidate \<notin> known v"
  shows "enqueue_idempotent co cf channel recipient content m key candidate cn now' kept v = (Inl Terminal, v)"
proof -
  have "\<exists>x \<in> set (dead v). dead_for (cf_agent cf) (if n < 4 then d_original d else f) x"
    using halfway_letter [OF assms(1)] by (auto simp: dead_for_def assms(4))
  then show ?thesis
    by (intro keyed_terminal [OF assms(5,6) halfway_visible(2) [OF assms(1-3)] halfway_claims [OF assms(1),
      unfolded assms(4), OF assms(7)] _ assms(8)])
qed

text \<open>The next burial and the next retry.\<close>

lemma halfway_buried:
  assumes "halfway co d f now 0 t v" and "buriable d t"
  shows "move_to_dead_letter (d_agent d) (d_original d) reason f4 now4 v = Some (buried d t)"
proof -
  obtain rows where rows: "rows \<in> {queue t, without d t}" and v: "v = \<lparr>queue = rows, dead = dead t @ [d], ledger = ledger t\<rparr>"
    using assms(1) by (auto simp: halfway_def Let_def)
  have left: "delete_rows (is_row (d_agent d) (d_original d)) rows = without d t"
    using rows by (auto simp: without_def delete_rows_def)
  show ?thesis
  proof (cases "find_row (d_agent d) (d_original d) v")
    case None
    then have "delete_rows (is_row (d_agent d) (d_original d)) rows = rows"
      by (intro delete_rows_none) (simp add: find_row_None v)
    with None left show ?thesis by (simp add: move_to_dead_letter_def buried_def v)
  next
    case (Some y)
    have "find_dead_letter_for_queue_id (d_agent d) (d_original d) v \<noteq> None" by (auto simp: find_dead_None v dead_for_def)
    with Some left show ?thesis by (simp add: move_to_dead_letter_def buried_def v)
  qed
qed

lemma whole_retry:
  assumes "buriable d t" and "d_agent d = cf_agent cf" and "j = d_id d \<or> j = d_original d \<and> j \<notin> d_id ` set (dead t)"
    and "k \<noteq> []" and "k \<noteq> d_original d" and "k \<notin> set (map q_id (without d t))"
  shows "retry_entry co cf j k c (buried d t) = (Inr (Re_Enqueued k (d_original d)),
    \<lparr>queue = without d t @ [retried_row co (d_agent d) d k (legacy_of co (d_agent d) d (ledger t)) c], dead = dead t,
     ledger = follow (d_agent d) d k c (the (d_max_retries d)) (legacy_of co (d_agent d) d (ledger t)) (ledger t)\<rparr>)"
proof -
  from assms(1) have b: "d_id d \<noteq> d_original d" "\<forall>x \<in> set (dead t). d_id x \<noteq> d_id d"
    "\<forall>x \<in> set (dead t). d_id x \<noteq> d_id d \<and> \<not> dead_for (cf_agent cf) (d_original d) x" "d_retry d = None"
    "d_max_retries d = Some (the (d_max_retries d))" "d_legacy d \<noteq> None"
    "\<forall>l \<in> set (ledger t). l_agent l = cf_agent cf \<and> l_entry l = d_original d \<longrightarrow> l_retries l = Some (the (d_max_retries d))"
    by (auto simp: buriable_def assms(2))
  have lock: "lock_dead_letter (cf_agent cf) j (buried d t) = Some d"
    by (rule lock_last [OF assms(2) refl refl b(1) _ b(3)]) (use assms(3) in \<open>auto simp: buried_def\<close>)
  have k: "k = text_or (d_retry d) k" by (simp add: b(4) text_or_def)
  have left: "without d t = delete_rows (is_row (cf_agent cf) (d_original d)) (without d t)"
    by (auto simp: without_def assms(2) delete_rows_def)
  from retry_exact [OF buried_def lock b(2) assms(2) b(5-7) k assms(5) left, of co c] assms(6) show ?thesis
    by (simp add: assms(2))
qed

lemma halfway_retried:
  assumes "halfway co d f now n t v" and "buriable d t" and "d_agent d = cf_agent cf"
    and "j = d_id d \<or> j = d_original d \<and> j \<notin> d_id ` set (dead t)"
    and "k = (if n = 0 then f3 else f)" and "k \<noteq> []" and "k \<noteq> d_original d" and "k \<notin> set (map q_id (without d t))"
    and "f \<noteq> d_original d"
  shows "\<exists>a b. {a, b} \<subseteq> {now, now3} \<and> retry_entry co cf j f3 now3 v = (Inr (Re_Enqueued k (d_original d)),
    \<lparr>queue = without d t @ [retried_row co (d_agent d) d k (legacy_of co (d_agent d) d (ledger t)) a], dead = dead t,
     ledger = follow (d_agent d) d k b (the (d_max_retries d)) (legacy_of co (d_agent d) d (ledger t)) (ledger t)\<rparr>)"
proof -
  let ?lg = "legacy_of co (d_agent d) d (ledger t)" and ?m = "the (d_max_retries d)"
  define new where "new = retried_row co (d_agent d) d f ?lg now"
  define e where "e = (if n < 1 then d else d\<lparr>d_retry := Some f\<rparr>)"
  define ls where "ls = (if n < 4 then ledger t else follow (d_agent d) d f now ?m ?lg (ledger t))"
  obtain rows where rows: "rows \<in> {queue t, without d t}" and
    v: "v = \<lparr>queue = (if n < 2 then rows else without d t @ (if n < 3 then [] else [new])), dead = dead t @ [e], ledger = ls\<rparr>"
    using assms(1) unfolding halfway_def Let_def new_def e_def ls_def by blast
  from assms(2) have b: "d_id d \<noteq> d_original d" "\<forall>x \<in> set (dead t). d_id x \<noteq> d_id e"
    "\<forall>x \<in> set (dead t). d_id x \<noteq> d_id d \<and> \<not> dead_for (cf_agent cf) (d_original d) x"
    "d_max_retries e = Some ?m" "d_legacy e \<noteq> None" "d_retry d = None"
    "\<forall>l \<in> set (ledger t). l_agent l = cf_agent cf \<and> l_entry l = d_original d \<longrightarrow> l_retries l = Some ?m"
    by (auto simp: buriable_def assms(3) e_def)
  have e: "d_agent e = cf_agent cf" "d_original e = d_original d" "d_id e = d_id d" by (simp_all add: e_def assms(3))
  have lock: "lock_dead_letter (cf_agent cf) j v = Some e"
    by (rule lock_last [OF e(1,2,3) b(1) _ b(3)]) (use assms(4) in \<open>auto simp: v\<close>)
  have pol: "\<forall>l \<in> set ls. l_agent l = cf_agent cf \<and> l_entry l = d_original e \<longrightarrow> l_retries l = Some ?m"
    using b(7) assms(9) by (auto simp: ls_def follow_def in_update_rows e(2) assms(3))
  have k: "k = text_or (d_retry e) f3" "k \<noteq> d_original e"
    using assms(5-7) b(6) by (auto simp: text_or_def e_def)
  have new: "q_id new = f" "q_agent new = d_agent d" by (simp_all add: new_def retried_row_def new_entry_def)
  have left: "(if n < 3 then without d t else without d t @ [new]) = delete_rows (is_row (cf_agent cf) (d_original e))
      (if n < 2 then rows else without d t @ (if n < 3 then [] else [new]))"
    using rows new assms(9) by (auto simp: without_def delete_rows_def is_row_def e(2) assms(3))
  note res = retry_exact [OF v lock b(2) e(1) b(4,5) pol k left, of co now3]
  have row: "retried_row co a e = retried_row co a d" "follow a e = follow a d" "legacy_of co a e (ledger t) = legacy_of co a d (ledger t)"
    for a by (simp_all add: retried_row_def legacy_of_def follow_def fun_eq_iff e_def)
  consider "n < 3" | "n = 3" | "4 \<le> n" by linarith
  then show ?thesis
  proof cases
    case 1
    then show ?thesis using res assms(8) by (intro exI [of _ now3]) (simp add: ls_def row e(2) assms(3))
  next
    case 2
    then show ?thesis using res new(1) assms(5)
      by (intro exI [of _ now] exI [of _ now3]) (simp add: ls_def row e(2) assms(3) new_def)
  next
    case 3
    with assms(7) have "follow (cf_agent cf) e k now3 ?m lk ls = ls" "k = f" for lk
      using follow_last [of f d e] assms(5) by (auto simp: ls_def e(2) assms(3))
    then show ?thesis using res new(1) 3
      by (intro exI [of _ now]) (simp add: ls_def row e(2) assms(3) new_def)
  qed
qed

text \<open>
  C12: A dead-letter transition that stops halfway delivers nothing and can be taken up again. Take a
  row of sound tables, its burial, finished (\<open>t1\<close>) or halted before the live row was removed, and then
  a retry halted after any number \<open>n\<close> of its statements. The batches, the pending list and the counts are
  those of the finished burial; every idempotency key that named the delivery is answered with the dead
  letter and writes nothing; while no retry has started, burying the row again gives the finished
  tables; and the next retry succeeds under the identifier the halted one reserved and leaves the row
  and the claims of an unbroken retry, each stamped by the halted call or by this one.
\<close>

theorem halted_transitions_are_taken_up:
  assumes "sound t" and "find_row (cf_agent cf) i t = Some r" and "f1 \<notin> known t"
    and "move_to_dead_letter (cf_agent cf) i reason f1 now1 t = Some t1"
    and "x = halted_move (cf_agent cf) i reason f1 now1 t \<or> x = t1"
    and "j = f1 \<or> j = i \<and> i \<notin> d_id ` set (dead t)" and "f2 \<notin> known t1" and "f2 \<noteq> []"
    and "v = halted_retry co cf j f2 now2 n x" and "f3 \<notin> known v" and "f3 \<noteq> []"
    and "k = (if n = 0 then f3 else f2)"
  shows "next_batch cf now v = next_batch cf now t1 \<and> get_pending_entries cf most v = get_pending_entries cf most t1 \<and>
    get_status_counts cf v = get_status_counts cf t1 \<and>
    (prepare_request co cf channel recipient content m key = Inr rq \<and> cf_strategy cf \<noteq> None \<and>
       claim_of (cf_agent cf) (rq_digest rq) t = Some (i, rq_payload rq) \<and> candidate \<notin> known v \<longrightarrow>
       enqueue_idempotent co cf channel recipient content m key candidate cn now3 kept v = (Inl Terminal, v)) \<and>
    (n = 0 \<longrightarrow> move_to_dead_letter (cf_agent cf) i reason' f4 now4 v = Some t1) \<and>
    (\<exists>w. retry_entry co cf j f3 now3 v = (Inr (Re_Enqueued k i), w) \<and> dead w = dead t \<and>
       (\<exists>a b. {a, b} \<subseteq> {now2, now3} \<and> queue w = queue (snd (retry_entry co cf j k a t1)) \<and>
          ledger w = ledger (snd (retry_entry co cf j k b t1))))"
proof -
  define d where "d = tombstone f1 reason now1 r"
  note b = burial [OF assms(1-4) d_def]
  have j: "j = d_id d \<or> j = d_original d \<and> j \<notin> d_id ` set (dead t)" using assms(6) by (auto simp: b(4,5))
  have f2: "f2 \<notin> known (buried d t)" using assms(7) by (simp add: b(1))
  have h: "halfway co d f2 now2 n t v"
    unfolding assms(9) by (rule halted_halfway [OF b(2,3) _ j f2]) (use assms(5) in \<open>auto simp: b(1,6)\<close>)
  have vis: "visible v = visible t1"
    using halfway_visible(1) [OF h b(2) f2] visible_sound [of "buried d t"] b(2) by (simp add: b(1) buriable_def buried_def)
  obtain e where e: "dead v = dead t @ [e]" "d_agent e = d_agent d" "d_original e = d_original d"
    using halfway_letter [OF h] by blast
  then have agents: "map d_agent (dead v) = map d_agent (dead t1)" by (simp add: b(1) buried_def)
  have k: "k \<noteq> []" "k \<noteq> d_original d" "k \<notin> set (map q_id (without d t))"
  proof -
    have "f3 \<noteq> d_original d" using assms(10) e by (auto simp: known_def)
    moreover have "f3 \<notin> q_id ` set (queue v)" using assms(10) by (auto simp: known_def)
    then have "f3 \<notin> set (map q_id (without d t))"
      unfolding halfway_visible(1) [OF h b(2) f2, symmetric] by (auto simp: visible_def)
    ultimately show "k \<noteq> []" "k \<noteq> d_original d" "k \<notin> set (map q_id (without d t))"
      using assms(8,11,12) fresh_elsewhere [OF f2] by auto
  qed
  from halfway_retried [OF h b(2,3) j assms(12) k fresh_elsewhere(1) [OF f2]]
  have "\<exists>w. retry_entry co cf j f3 now3 v = (Inr (Re_Enqueued k i), w) \<and> dead w = dead t \<and>
       (\<exists>a b. {a, b} \<subseteq> {now2, now3} \<and> queue w = queue (snd (retry_entry co cf j k a t1)) \<and>
          ledger w = ledger (snd (retry_entry co cf j k b t1)))"
    unfolding b(1) whole_retry [OF b(2,3) j k] by (force simp: b(4))
  moreover have "n = 0 \<longrightarrow> move_to_dead_letter (cf_agent cf) i reason' f4 now4 v = Some t1"
    using halfway_buried [of co d f2 now2 t v] h b(2) by (auto simp: b(1,3,4) simp flip: b(3,4))
  ultimately show ?thesis
    using counts_visible [OF vis agents, of cf] halfway_terminal [OF h b(2) f2 b(3), unfolded b(4)]
    by (simp add: next_batch_visible pending_visible vis)
qed

text \<open>The delivery of one keyed call: buried without losing its row, retried up to the new row, and taken up.\<close>

theorem halted_transitions_are_taken_up_witness:
  "\<exists>v w. v = halted_retry demo_codec (demo_config ''a'') ''e1'' ''e2'' 6 3
       (halted_move ''a'' ''e1'' ''x'' ''d1'' 5 demo_queued) \<and>
     next_batch (demo_config ''a'') 99 v = [] \<and> map q_id (queue v) = [''e2''] \<and>
     enqueue_idempotent demo_codec (demo_config ''a'') ''web'' ''r'' P_None None ''k'' ''e4'' 7 7 True v = (Inl Terminal, v) \<and>
     retry_entry demo_codec (demo_config ''a'') ''e1'' ''e3'' 7 v = (Inr (Re_Enqueued ''e2'' ''e1''), w) \<and> dead w = []"
proof -
  let ?cf = "demo_config ''a''"
  let ?x = "halted_move ''a'' ''e1'' ''x'' ''d1'' 5 demo_queued"
  let ?v = "halted_retry demo_codec ?cf ''e1'' ''e2'' 6 3 ?x"
  have a: "cf_agent ?cf = ''a''" by (simp add: demo_config_def)
  have f: "find_row (cf_agent ?cf) ''e1'' demo_queued = Some demo_row" by (simp add: a demo_find)
  have k1: "''d1'' \<notin> known demo_queued" by (simp add: demo_known)
  note m = move_to_dead_letter_live [OF queued_sound f k1, of "''x''" 5]
  let ?t1 = "demo_queued\<lparr>queue := delete_rows (is_row (cf_agent ?cf) ''e1'') (queue demo_queued),
      dead := dead demo_queued @ [tombstone ''d1'' ''x'' 5 demo_row]\<rparr>"
  have x: "?x = halted_move (cf_agent ?cf) ''e1'' ''x'' ''d1'' 5 demo_queued \<or> ?x = ?t1" by (simp add: a)
  have j: "''e1'' = ''d1'' \<or> ''e1'' = ''e1'' \<and> ''e1'' \<notin> d_id ` set (dead demo_queued)" by (simp add: demo_queued_eval(2))
  have k2: "''e2'' \<notin> known ?t1"
    by (simp add: known_def demo_queued_eval(2) delete_rows_def is_row_def new_entry_def tombstone_def demo_row_def)
  have q: "queue ?v = [new_entry ''e2'' ''a'' ''web'' ''r'' ''{}'' ''hr:{}'' ''hr:{}'' 2 6]"
    "map d_id (dead ?v) = [''d1'']" "map d_original (dead ?v) = [''e1'']" "ledger ?v = ledger demo_queued" by code_simp+
  have k: "''e3'' \<notin> known ?v" "''e4'' \<notin> known ?v"
  proof -
    have "d_id ` set (dead ?v) = {''d1''}" "d_original ` set (dead ?v) = {''e1''}"
      using q(2,3) by (metis list.set(1,2) list.set_map)+
    then show "''e3'' \<notin> known ?v" "''e4'' \<notin> known ?v"
      unfolding known_def q(1,4) by (simp_all add: new_entry_def demo_queued_eval(2))
  qed
  obtain rq where rq: "prepare_request demo_codec ?cf ''web'' ''r'' P_None None ''k'' = Inr rq"
    "rq_digest rq = ''hk''" "rq_payload rq = ''hwebr{}''"
    by (rule that) code_simp+
  have c: "claim_of (cf_agent ?cf) (rq_digest rq) demo_queued = Some (''e1'', rq_payload rq)" "cf_strategy ?cf \<noteq> None"
    by (simp_all add: claim_of_def find_claim_def demo_queued_eval(2) rq a demo_config_def)
  have ne: "''e2'' \<noteq> []" "''e3'' \<noteq> []" by simp_all
  note p = halted_transitions_are_taken_up [OF queued_sound f k1 m x j k2 ne(1) refl k(1) ne(2) refl,
    of 99 0 "''web''" "''r''" P_None None "''k''" rq "''e4''" 7 7 True "''x''" "''d2''" 7]
  have "next_batch ?cf 99 ?t1 = []" by code_simp
  with p rq(1) c k(2) q(1) show ?thesis
    by (auto simp: new_entry_def a demo_queued_eval(2))
qed

end
