(* ===== verification/Remote_Route.thy ===== *)
theory Remote_Route
  imports Signatures
begin

text \<open>
  Model of \<open>kestrel_sovereign/llm/remote_backend.py\<close>: the one private inference route of an
  \<open>LLMService\<close>, activated for a ready lease, pinned by calls and drained before it is taken down.
  The code runs on one event loop and guards the route by a condition variable: a block under the
  condition is one atomic operation, except that \<open>wait\<close> gives the condition back, and a client that is
  closed under the condition keeps it. Any number of activations, deactivations and calls interleave.
  The leases are the records of the SDK, read-only here.
\<close>

subsection \<open>Leases\<close>

datatype lease_state = PENDING | READY | FAILED | RELEASING | RELEASED | EXPIRED

datatype lease_privacy = AUTHENTICATED_ENDPOINT | Other_Privacy string

record inference_route =
  ro_protocol :: string
  ro_endpoint :: string
  ro_api_key :: "string option"
  ro_headers :: "(string, string) dict"

record lease_failure =
  lf_code :: string
  lf_message :: string
  lf_retryable :: bool
  lf_metadata :: jval

record inference_lease =
  le_id :: string
  le_quote :: string
  le_request :: string
  le_owner :: string
  le_provider :: string
  le_state :: lease_state
  le_model :: string
  le_runtime :: string
  le_privacy :: lease_privacy
  le_created :: int
  le_updated :: int
  le_expires :: int
  le_region :: "string option"
  le_hourly :: "rat option"
  le_estimated :: "rat option"
  le_route :: "inference_route option"
  le_failure :: "lease_failure option"
  le_metadata :: jval

subsection \<open>The route of a service\<close>

datatype backend = REMOTE_GPU | Other_Backend string

text \<open>One \<open>AsyncOpenAI\<close> object; the number stands for its identity.\<close>

record client =
  cl_number :: nat
  cl_base_url :: string
  cl_api_key :: string
  cl_headers :: "(string, string) dict"

datatype llm_error = Direct_Configuration_Retired | Configuration_Not_Accepted | Release_Before_Switching
  | Not_Ready | Unsupported_Protocol string | No_Credentials | Duplicate_Headers
  | Close_Control | Shutting_Down | Draining_First | Another_Active | Refresh_Timed_Out
  | Retirement_Unresolved | Not_Active | Owned_By_Another | Drain_Timed_Out
  | Unavailable | Lacks_Capabilities "string set" | Lease_Expired | No_Renewal_Handler
  | Managed_Failure | No_Longer_Ready | Released_During_Renewal | Expired_During_Renewal

record snapshot =
  sn_lease :: string
  sn_model :: string
  sn_client :: client
  sn_caps :: "string set"

text \<open>Where a task of the service is suspended, or what it still has to do.\<close>

datatype task =
    Idle
  | Entering inference_lease "string set" client   \<comment> \<open>built a client, waits for the condition\<close>
  | Refreshing inference_lease "string set" client \<comment> \<open>waits for the calls on the old client\<close>
  | Discarding client                              \<comment> \<open>closes a client that was not published\<close>
  | Replacing client                               \<comment> \<open>closes the client it replaced\<close>
  | Leaving string bool                            \<comment> \<open>deactivation waits for calls; bounded?\<close>
  | Retiring string client                         \<comment> \<open>deactivation closes under the condition\<close>
  | Renewing string nat                            \<comment> \<open>a call renews its lease; epoch it saw\<close>
  | Pinned snapshot

record service =
  sv_backend :: backend
  sv_default :: backend
  sv_lease :: "inference_lease option"
  sv_client :: "client option"
  sv_caps :: "string set"
  sv_touch :: bool
  sv_accepting :: bool
  sv_inflight :: int
  sv_epoch :: nat
  sv_route_closed :: bool
  sv_close_control :: bool
  sv_last_error :: "string option"
  sv_made :: nat
  sv_retired :: "nat set"
  sv_failed :: "nat set"
  sv_holder :: "nat option"
  sv_tasks :: "nat \<Rightarrow> task"

text \<open>
  \<open>sv_made\<close> counts the clients built and \<open>sv_retired\<close> and \<open>sv_failed\<close> collect those that were closed
  and those whose close failed. 
  \<open>sv_holder\<close> is the task that keeps the condition across an await: a deactivation that closes its client.
\<close>

definition new_service :: "backend \<Rightarrow> service" where
  "new_service b = \<lparr>sv_backend = b, sv_default = b, sv_lease = None, sv_client = None, sv_caps = {},
     sv_touch = False, sv_accepting = False, sv_inflight = 0, sv_epoch = 0, sv_route_closed = False,
     sv_close_control = False, sv_last_error = None, sv_made = 0, sv_retired = {}, sv_failed = {}, sv_holder = None, sv_tasks = (\<lambda>_. Idle)\<rparr>"

definition become :: "nat \<Rightarrow> task \<Rightarrow> service \<Rightarrow> service" where
  "become i p s = s\<lparr>sv_tasks := (sv_tasks s)(i := p)\<rparr>"

definition switch_backend :: "backend \<Rightarrow> bool \<Rightarrow> service \<Rightarrow> llm_error option \<times> service" where
  "switch_backend b config s =
     (if b = REMOTE_GPU then (Some Direct_Configuration_Retired, s)
      else if config then (Some Configuration_Not_Accepted, s)
      else if sv_lease s \<noteq> None then (Some Release_Before_Switching, s)
      else (None, s\<lparr>sv_backend := b\<rparr>))"

subsection \<open>Activation\<close>

text \<open>\<open>str.casefold\<close> on Latin-1 text: lower case, and the sharp s as two letters.\<close>

definition casefold :: "string \<Rightarrow> string" where
  "casefold s = concat (map (\<lambda>c. if cp c = 223 then ''ss'' else [lower_char c]) s)"

definition rstrip_slash :: "string \<Rightarrow> string" where
  "rstrip_slash s = rev (dropWhile (\<lambda>c. c = CHR ''/'') (rev s))"

text \<open>The guards before the condition is taken.\<close>

definition route_of :: "inference_lease \<Rightarrow> llm_error + inference_route" where
  "route_of l =
     (if le_state l \<noteq> READY then Inl Not_Ready
      else case le_route l of None \<Rightarrow> Inl Not_Ready
      | Some r \<Rightarrow>
        if ro_protocol r \<noteq> ''openai'' then Inl (Unsupported_Protocol (ro_protocol r))
        else if le_privacy l = AUTHENTICATED_ENDPOINT \<and> ro_api_key r = None \<and> ro_headers r = [] then Inl No_Credentials
        else if card (set (map (casefold \<circ> fst) (ro_headers r))) \<noteq> length (ro_headers r) then Inl Duplicate_Headers
        else Inr r)"

type_synonym material = "string \<times> string option \<times> (string \<times> string) set"

text \<open>The sorted tuple of header items of a mapping compares as the set of items.\<close>

definition route_material :: "inference_route \<Rightarrow> material" where
  "route_material r = (ro_endpoint r, ro_api_key r, set (ro_headers r))"

definition new_client :: "inference_route \<Rightarrow> nat \<Rightarrow> client" where
  "new_client r n = \<lparr>cl_number = n, cl_base_url = rstrip_slash (ro_endpoint r),
     cl_api_key = (case ro_api_key r of Some k \<Rightarrow> k | None \<Rightarrow> ''kestrel-private-route''),
     cl_headers = ro_headers r\<rparr>"

definition refreshes_in_place :: "service \<Rightarrow> inference_lease \<Rightarrow> inference_route \<Rightarrow> bool" where
  "refreshes_in_place s l r =
     (case sv_lease s of None \<Rightarrow> False
      | Some a \<Rightarrow> le_id a = le_id l \<and> map_option route_material (le_route a) = Some (route_material r) \<and>
          sv_accepting s \<and> sv_client s \<noteq> None \<and> sv_backend s = REMOTE_GPU)"

text \<open>
  \<open>activate_inference_lease\<close> up to the construction of the client: the guards, then the first block
  under the condition, which refreshes the lease in place when the route material is the same.
\<close>

definition activate_begin :: "nat \<Rightarrow> inference_lease \<Rightarrow> string set \<Rightarrow> service \<Rightarrow> llm_error option \<times> service" where
  "activate_begin i l caps s =
     (case route_of l of Inl e \<Rightarrow> (Some e, s)
      | Inr r \<Rightarrow>
        if sv_close_control s then (Some Close_Control, s)
        else if sv_route_closed s then (Some Shutting_Down, s)
        else if sv_lease s \<noteq> None \<and> \<not> sv_accepting s then (Some Draining_First, s)
        else if refreshes_in_place s l r
        then (None, s\<lparr>sv_lease := Some l, sv_caps := caps, sv_touch := True\<rparr>)
        else (None, become i (Entering l caps (new_client r (sv_made s))) (s\<lparr>sv_made := Suc (sv_made s)\<rparr>)))"

text \<open>The second block, from the drained route to the published one; \<open>old\<close> is the client replaced.\<close>

definition publish :: "nat \<Rightarrow> inference_lease \<Rightarrow> string set \<Rightarrow> client \<Rightarrow> client option \<Rightarrow> service \<Rightarrow> llm_error option \<times> service" where
  "publish i l caps c old s =
     (if sv_route_closed s \<or> sv_close_control s then (Some Shutting_Down, become i (Discarding c) s)
      else (None, become i (case old of None \<Rightarrow> Idle | Some prior \<Rightarrow> Replacing prior)
        (s\<lparr>sv_lease := Some l, sv_client := Some c, sv_caps := caps, sv_touch := True,
          sv_accepting := True, sv_backend := REMOTE_GPU, sv_last_error := None\<rparr>)))"

definition activate_enter :: "nat \<Rightarrow> inference_lease \<Rightarrow> string set \<Rightarrow> client \<Rightarrow> service \<Rightarrow> llm_error option \<times> service" where
  "activate_enter i l caps c s =
     (if sv_close_control s then (Some Retirement_Unresolved, become i (Discarding c) s)
      else if sv_route_closed s then (Some Shutting_Down, become i (Discarding c) s)
      else case sv_lease s of None \<Rightarrow> publish i l caps c None s
      | Some a \<Rightarrow>
        if \<not> sv_accepting s then (Some Draining_First, become i (Discarding c) s)
        else if le_id a \<noteq> le_id l then (Some Another_Active, become i (Discarding c) s)
        else if sv_inflight s \<noteq> 0 then (None, become i (Refreshing l caps c) (s\<lparr>sv_accepting := False\<rparr>))
        else publish i l caps c (sv_client s) (s\<lparr>sv_accepting := False\<rparr>))"

text \<open>A woken refresh waits again while calls are in flight.\<close>

definition activate_wake :: "nat \<Rightarrow> inference_lease \<Rightarrow> string set \<Rightarrow> client \<Rightarrow> service \<Rightarrow> llm_error option \<times> service" where
  "activate_wake i l caps c s =
     (if sv_inflight s \<noteq> 0 then (None, s) else publish i l caps c (sv_client s) s)"

definition activate_timeout :: "nat \<Rightarrow> client \<Rightarrow> service \<Rightarrow> llm_error option \<times> service" where
  "activate_timeout i c s =
     (Some Refresh_Timed_Out,
      become i (Discarding c) (s\<lparr>sv_accepting := \<not> sv_route_closed s \<and> \<not> sv_close_control s\<rparr>))"

text \<open>\<open>_close_remote_client\<close>: a close that fails leaves the latch that denies further activations.\<close>

definition close_remote_client :: "client \<Rightarrow> bool \<Rightarrow> service \<Rightarrow> service" where
  "close_remote_client c fails s =
     (if fails then s\<lparr>sv_failed := insert (cl_number c) (sv_failed s), sv_close_control := True\<rparr>
      else s\<lparr>sv_retired := insert (cl_number c) (sv_retired s)\<rparr>)"

subsection \<open>Deactivation\<close>

definition forget_route :: "service \<Rightarrow> service" where
  "forget_route s = s\<lparr>sv_client := None, sv_lease := None, sv_caps := {}, sv_touch := False,
     sv_epoch := Suc (sv_epoch s)\<rparr>"

definition deactivate_drained :: "nat \<Rightarrow> string \<Rightarrow> service \<Rightarrow> service" where
  "deactivate_drained i lid s =
     (case sv_client s of None \<Rightarrow> become i Idle (forget_route s)
      | Some c \<Rightarrow> become i (Retiring lid c) (s\<lparr>sv_holder := Some i\<rparr>))"

definition deactivate_begin :: "nat \<Rightarrow> string \<Rightarrow> bool \<Rightarrow> service \<Rightarrow> llm_error option \<times> service" where
  "deactivate_begin i lid require_active s =
     (case sv_lease s of None \<Rightarrow> (if require_active then Some Not_Active else None, s)
      | Some a \<Rightarrow>
        if le_id a \<noteq> lid then (if require_active then Some Owned_By_Another else None, s)
        else let s' = s\<lparr>sv_accepting := False, sv_backend := sv_default s\<rparr>
          in if sv_inflight s \<noteq> 0 then (None, become i (Leaving lid (\<not> sv_route_closed s)) s')
             else (None, deactivate_drained i lid s'))"

definition deactivate_wake :: "nat \<Rightarrow> string \<Rightarrow> service \<Rightarrow> service" where
  "deactivate_wake i lid s = (if sv_inflight s \<noteq> 0 then s else deactivate_drained i lid s)"

text \<open>
  The close under the condition: its failure keeps the route, closed to new calls. A successful close
  forgets the route here. The code raises before it forgets, and so keeps the closed client and its
  lease published behind a closed admission, also when an earlier close of the service had failed or
  when the caller was cancelled meanwhile; both are outside this model.
\<close>

definition deactivate_closed :: "nat \<Rightarrow> client \<Rightarrow> bool \<Rightarrow> service \<Rightarrow> llm_error option \<times> service" where
  "deactivate_closed i c fails s =
     (let s' = (close_remote_client c fails s)\<lparr>sv_holder := None\<rparr>
      in if fails then (Some Close_Control, become i Idle s')
         else (None, become i Idle (forget_route s')))"

subsection \<open>Calls\<close>

text \<open>
  \<open>_remote_first_allowed\<close>; \<open>named\<close> says that \<open>_call_override_selection\<close> finds a provider in the
  override, \<open>vendor\<close> and \<open>pinned\<close> are the entries of the persisted mandate.
\<close>

definition remote_first_allowed :: "string option \<Rightarrow> bool \<Rightarrow> string \<Rightarrow> string \<Rightarrow> bool" where
  "remote_first_allowed override named vendor pinned =
     (let t = (case override of None \<Rightarrow> [] | Some u \<Rightarrow> u)
      in \<not> (CHR ''/'' \<in> set t \<or> CHR '':'' \<in> set t) \<and> \<not> named \<and> vendor = [] \<and> pinned = [])"

text \<open>
  \<open>_remote_route_attempt\<close> of an admitted call up to the renewal: \<open>Inr None\<close> is a call without the
  private route, \<open>Inr (Some e)\<close> one that renews the lease and remembers the epoch \<open>e\<close>.
\<close>

definition call_begin :: "nat \<Rightarrow> bool \<Rightarrow> bool \<Rightarrow> string set \<Rightarrow> int \<Rightarrow> service \<Rightarrow> (llm_error + nat option) \<times> service" where
  "call_begin i force_local_only allowed required now s =
     (case sv_lease s of None \<Rightarrow> (Inr None, s)
      | Some l \<Rightarrow>
        if force_local_only \<or> \<not> allowed then (Inr None, s)
        else if sv_backend s \<noteq> REMOTE_GPU \<or> \<not> sv_accepting s \<or> sv_client s = None then (Inl Unavailable, s)
        else if \<not> required \<subseteq> sv_caps s then (Inl (Lacks_Capabilities (required - sv_caps s)), s)
        else if le_expires l \<le> now then (Inl Lease_Expired, s\<lparr>sv_accepting := False\<rparr>)
        else if \<not> sv_touch s then (Inl No_Renewal_Handler, s)
        else (Inr (Some (sv_epoch s)), become i (Renewing (le_id l) (sv_epoch s)) s))"

text \<open>
  What the renewal gave: the name of an exception, or the object returned, \<open>None\<close> when that is not a
  lease. Then the second block pins the route.
\<close>

definition call_renewed ::
  "nat \<Rightarrow> string \<Rightarrow> nat \<Rightarrow> string + inference_lease option \<Rightarrow> int \<Rightarrow> service \<Rightarrow> (llm_error + snapshot) \<times> service" where
  "call_renewed i lid epoch touched now s =
     (case touched of Inl exn \<Rightarrow> (Inl Managed_Failure, become i Idle (s\<lparr>sv_last_error := Some exn\<rparr>))
      | Inr None \<Rightarrow> (Inl No_Longer_Ready, become i Idle s)
      | Inr (Some t) \<Rightarrow>
        if le_id t \<noteq> lid \<or> le_state t \<noteq> READY then (Inl No_Longer_Ready, become i Idle s)
        else if sv_epoch s \<noteq> epoch then (Inl Released_During_Renewal, become i Idle s)
        else case (sv_lease s, sv_client s) of (Some l, Some c) \<Rightarrow>
            if le_id l \<noteq> lid \<or> sv_backend s \<noteq> REMOTE_GPU \<or> \<not> sv_accepting s then (Inl Unavailable, become i Idle s)
            else if le_expires l \<le> now then (Inl Expired_During_Renewal, become i Idle (s\<lparr>sv_accepting := False\<rparr>))
            else (let n = \<lparr>sn_lease = le_id l, sn_model = le_model l, sn_client = c, sn_caps = sv_caps s\<rparr>
                  in (Inr n, become i (Pinned n) (s\<lparr>sv_inflight := sv_inflight s + 1\<rparr>)))
          | _ \<Rightarrow> (Inl Unavailable, become i Idle s))"

definition call_end :: "nat \<Rightarrow> service \<Rightarrow> service" where
  "call_end i s = become i Idle (s\<lparr>sv_inflight := sv_inflight s - 1\<rparr>)"

record 'd backend_status =
  bs_current :: backend
  bs_default :: backend
  bs_active :: bool
  bs_metadata :: "'d option"
  bs_last_error :: "string option"

text \<open>\<open>pub\<close> is the credential-free rendering \<open>to_public_dict\<close> of the SDK.\<close>

definition get_backend_status :: "(inference_lease \<Rightarrow> 'd) \<Rightarrow> service \<Rightarrow> 'd backend_status" where
  "get_backend_status pub s =
     \<lparr>bs_current = sv_backend s, bs_default = sv_default s, bs_active = (sv_lease s \<noteq> None \<and> sv_accepting s),
      bs_metadata = map_option pub (sv_lease s), bs_last_error = sv_last_error s\<rparr>"

text \<open>The latches that \<open>LLMService.close\<close> sets before its first await.\<close>

definition close_admission :: "service \<Rightarrow> service" where
  "close_admission s = s\<lparr>sv_route_closed := True, sv_accepting := False\<rparr>"

subsection \<open>Interleaving\<close>

datatype route_event =
    Activate nat inference_lease "string set"
  | Deactivate nat string bool
  | Call nat bool bool "string set" int
  | Proceed nat             \<comment> \<open>a task that waits for the condition or for the calls gets its turn\<close>
  | Give_Up nat             \<comment> \<open>the bound of a wait for the calls elapses\<close>
  | Cancel nat
  | Client_Closed nat bool  \<comment> \<open>the close of a client ends; did it fail?\<close>
  | Renewed nat "string + inference_lease option" int
  | Call_Ended nat
  | Service_Closes
  | Switch backend bool

fun proceed :: "nat \<Rightarrow> service \<Rightarrow> service" where
  "proceed i s = (case sv_tasks s i of
      Entering l caps c \<Rightarrow> snd (activate_enter i l caps c s)
    | Refreshing l caps c \<Rightarrow> snd (activate_wake i l caps c s)
    | Leaving lid bounded \<Rightarrow> deactivate_wake i lid s
    | _ \<Rightarrow> s)"

fun give_up :: "nat \<Rightarrow> service \<Rightarrow> service" where
  "give_up i s = (case sv_tasks s i of
      Refreshing l caps c \<Rightarrow> snd (activate_timeout i c s)
    | Leaving lid bounded \<Rightarrow> (if bounded then become i Idle s else s)
    | _ \<Rightarrow> s)"

text \<open>A cancelled activation closes its unpublished client; a cancelled close is joined, not dropped.\<close>

fun cancel :: "nat \<Rightarrow> service \<Rightarrow> service" where
  "cancel i s = (case sv_tasks s i of
      Entering l caps c \<Rightarrow> become i (Discarding c) s
    | Refreshing l caps c \<Rightarrow> become i (Discarding c) s
    | Leaving lid bounded \<Rightarrow> become i Idle s
    | Renewing lid e \<Rightarrow> become i Idle s
    | _ \<Rightarrow> s)"

fun client_closed :: "nat \<Rightarrow> bool \<Rightarrow> service \<Rightarrow> service" where
  "client_closed i fails s = (case sv_tasks s i of
      Discarding c \<Rightarrow> become i Idle (close_remote_client c fails s)
    | Replacing c \<Rightarrow> become i Idle (close_remote_client c fails s)
    | Retiring lid c \<Rightarrow> snd (deactivate_closed i c fails s)
    | _ \<Rightarrow> s)"

fun renewed :: "nat \<Rightarrow> string + inference_lease option \<Rightarrow> int \<Rightarrow> service \<Rightarrow> service" where
  "renewed i touched now s = (case sv_tasks s i of
      Renewing lid e \<Rightarrow> snd (call_renewed i lid e touched now s)
    | _ \<Rightarrow> s)"

fun call_ended :: "nat \<Rightarrow> service \<Rightarrow> service" where
  "call_ended i s = (case sv_tasks s i of Pinned n \<Rightarrow> call_end i s | _ \<Rightarrow> s)"

fun route_step :: "service \<Rightarrow> route_event \<Rightarrow> service" where
  "route_step s (Activate i l caps) = snd (activate_begin i l caps s)"
| "route_step s (Deactivate i lid require) = snd (deactivate_begin i lid require s)"
| "route_step s (Call i force_local allowed required now) = snd (call_begin i force_local allowed required now s)"
| "route_step s (Proceed i) = proceed i s"
| "route_step s (Give_Up i) = give_up i s"
| "route_step s (Cancel i) = cancel i s"
| "route_step s (Client_Closed i fails) = client_closed i fails s"
| "route_step s (Renewed i touched now) = renewed i touched now s"
| "route_step s (Call_Ended i) = call_ended i s"
| "route_step s Service_Closes = close_admission s"
| "route_step s (Switch b config) = snd (switch_backend b config s)"

text \<open>
  A new activation, deactivation or call is a new task, and every block under the condition waits until
  no deactivation holds it.
\<close>

fun route_admits :: "service \<Rightarrow> route_event \<Rightarrow> bool" where
  "route_admits s (Activate i l caps) \<longleftrightarrow> sv_tasks s i = Idle \<and> sv_holder s = None"
| "route_admits s (Deactivate i lid require) \<longleftrightarrow> sv_tasks s i = Idle \<and> sv_holder s = None"
| "route_admits s (Call i force_local allowed required now) \<longleftrightarrow> sv_tasks s i = Idle \<and> sv_holder s = None"
| "route_admits s (Client_Closed i fails) \<longleftrightarrow> True"
| "route_admits s (Cancel i) \<longleftrightarrow> True"
| "route_admits s Service_Closes \<longleftrightarrow> True"
| "route_admits s (Switch b config) \<longleftrightarrow> True"
| "route_admits s _ \<longleftrightarrow> sv_holder s = None"

end
