(* ===== verification/Route_Safety.thy ===== *)
theory Route_Safety
  imports Remote_Route
begin

text \<open>
  The invariant of the private route: calls hold the published client, a client is closed only when no
  call holds it, and every client that was built is published, owned by the task that will close it, or
  closed. Every step keeps it (\<open>route_step_keeps\<close>), so every run does.
\<close>

subsection \<open>What a task holds\<close>

fun pinned :: "task \<Rightarrow> bool" where
  "pinned (Pinned n) = True"
| "pinned _ = False"

fun retiring :: "task \<Rightarrow> bool" where
  "retiring (Retiring lid c) = True"
| "retiring _ = False"

fun unpublished :: "task \<Rightarrow> bool" where
  "unpublished (Entering l caps c) = True"
| "unpublished (Refreshing l caps c) = True"
| "unpublished _ = False"

fun owned :: "task \<Rightarrow> nat option" where
  "owned (Entering l caps c) = Some (cl_number c)"
| "owned (Refreshing l caps c) = Some (cl_number c)"
| "owned (Discarding c) = Some (cl_number c)"
| "owned (Replacing c) = Some (cl_number c)"
| "owned _ = None"

lemma pinned_iff: "pinned p \<longleftrightarrow> (\<exists>n. p = Pinned n)"
  by (cases p) auto

lemma retiring_iff: "retiring p \<longleftrightarrow> (\<exists>lid c. p = Retiring lid c)"
  by (cases p) auto

lemma task_if [simp]:
  "pinned (if b then p else q) = (if b then pinned p else pinned q)"
  "retiring (if b then p else q) = (if b then retiring p else retiring q)"
  "unpublished (if b then p else q) = (if b then unpublished p else unpublished q)"
  "owned (if b then p else q) = (if b then owned p else owned q)"
  by simp_all

definition published :: "service \<Rightarrow> nat option" where
  "published s = map_option cl_number (sv_client s)"

definition leased :: "service \<Rightarrow> string option" where
  "leased s = map_option le_id (sv_lease s)"

lemma published_simps [simp]:
  "published (s\<lparr>sv_made := m\<rparr>) = published s" "published (s\<lparr>sv_inflight := x\<rparr>) = published s"
  "published (s\<lparr>sv_holder := h\<rparr>) = published s" "published (s\<lparr>sv_lease := a\<rparr>) = published s"
  "published (s\<lparr>sv_client := k\<rparr>) = map_option cl_number k" "published (s\<lparr>sv_retired := r\<rparr>) = published s"
  "published (s\<lparr>sv_caps := cs\<rparr>) = published s" "published (s\<lparr>sv_touch := b\<rparr>) = published s"
  "published (s\<lparr>sv_accepting := b\<rparr>) = published s" "published (s\<lparr>sv_backend := be\<rparr>) = published s"
  "published (s\<lparr>sv_last_error := er\<rparr>) = published s" "published (s\<lparr>sv_epoch := ep\<rparr>) = published s"
  "published (s\<lparr>sv_close_control := b\<rparr>) = published s" "published (s\<lparr>sv_failed := r\<rparr>) = published s"
  by (simp_all add: published_def)

subsection \<open>The invariant\<close>

definition calls_ok :: "service \<Rightarrow> bool" where
  "calls_ok s \<longleftrightarrow> finite {i. pinned (sv_tasks s i)} \<and> sv_inflight s = count_at (sv_tasks s) pinned \<and>
     (\<forall>i n. sv_tasks s i = Pinned n \<longrightarrow> sv_client s = Some (sn_client n))"

definition holder_ok :: "service \<Rightarrow> bool" where
  "holder_ok s \<longleftrightarrow> (\<forall>i. retiring (sv_tasks s i) = (sv_holder s = Some i)) \<and>
     (\<forall>i lid c. sv_tasks s i = Retiring lid c \<longrightarrow> sv_client s = Some c \<and> sv_inflight s = 0)"

definition clients_ok :: "service \<Rightarrow> bool" where
  "clients_ok s \<longleftrightarrow> (sv_lease s = None \<longleftrightarrow> sv_client s = None) \<and>
     (\<forall>n. published s = Some n \<longrightarrow> n < sv_made s \<and> (\<forall>i. owned (sv_tasks s i) \<noteq> Some n)) \<and>
     (\<forall>n. published s = Some n \<longrightarrow> n \<notin> sv_retired s)"

definition owners_ok :: "service \<Rightarrow> bool" where
  "owners_ok s \<longleftrightarrow> (\<forall>i n. owned (sv_tasks s i) = Some n \<longrightarrow> n < sv_made s) \<and>
     (\<forall>i j n. owned (sv_tasks s i) = Some n \<and> owned (sv_tasks s j) = Some n \<longrightarrow> i = j) \<and>
     (\<forall>i n. unpublished (sv_tasks s i) \<and> owned (sv_tasks s i) = Some n \<longrightarrow> n \<notin> sv_retired s)"

definition accounted :: "service \<Rightarrow> bool" where
  "accounted s \<longleftrightarrow> (\<forall>n < sv_made s. n \<in> sv_retired s \<union> sv_failed s \<or> published s = Some n \<or> (\<exists>i. owned (sv_tasks s i) = Some n)) \<and>
     sv_retired s \<union> sv_failed s \<subseteq> {..< sv_made s} \<and> (sv_failed s \<noteq> {} \<longrightarrow> sv_close_control s)"

definition route_sound :: "service \<Rightarrow> bool" where
  "route_sound s \<longleftrightarrow> calls_ok s \<and> holder_ok s \<and> clients_ok s \<and> owners_ok s \<and> accounted s"

lemmas route_sound_defs = route_sound_def calls_ok_def holder_ok_def clients_ok_def owners_ok_def accounted_def

lemma new_service_sound: "route_sound (new_service b)"
  by (simp add: route_sound_defs new_service_def published_def count_at_def)

lemma become_simps [simp]:
  "sv_backend (become i p s) = sv_backend s" "sv_default (become i p s) = sv_default s"
  "sv_lease (become i p s) = sv_lease s" "sv_client (become i p s) = sv_client s"
  "sv_caps (become i p s) = sv_caps s" "sv_touch (become i p s) = sv_touch s"
  "sv_accepting (become i p s) = sv_accepting s" "sv_inflight (become i p s) = sv_inflight s"
  "sv_epoch (become i p s) = sv_epoch s" "sv_route_closed (become i p s) = sv_route_closed s"
  "sv_close_control (become i p s) = sv_close_control s" "sv_made (become i p s) = sv_made s"
  "sv_retired (become i p s) = sv_retired s" "sv_failed (become i p s) = sv_failed s" "sv_holder (become i p s) = sv_holder s"
  "sv_tasks (become i p s) = (sv_tasks s)(i := p)"
  "published (become i p s) = published s" "leased (become i p s) = leased s"
  by (simp_all add: become_def published_def leased_def)

lemma close_remote_client_simps [simp]:
  "sv_backend (close_remote_client c fails s) = sv_backend s" "sv_lease (close_remote_client c fails s) = sv_lease s"
  "sv_client (close_remote_client c fails s) = sv_client s" "sv_caps (close_remote_client c fails s) = sv_caps s"
  "sv_accepting (close_remote_client c fails s) = sv_accepting s" "sv_inflight (close_remote_client c fails s) = sv_inflight s"
  "sv_epoch (close_remote_client c fails s) = sv_epoch s" "sv_route_closed (close_remote_client c fails s) = sv_route_closed s"
  "sv_close_control (close_remote_client c fails s) = (sv_close_control s \<or> fails)"
  "sv_made (close_remote_client c fails s) = sv_made s"
  "sv_retired (close_remote_client c fails s) = (if fails then sv_retired s else insert (cl_number c) (sv_retired s))"
  "sv_failed (close_remote_client c fails s) = (if fails then insert (cl_number c) (sv_failed s) else sv_failed s)"
  "sv_holder (close_remote_client c fails s) = sv_holder s" "sv_tasks (close_remote_client c fails s) = sv_tasks s"
  "published (close_remote_client c fails s) = published s" "leased (close_remote_client c fails s) = leased s"
  by (simp_all add: close_remote_client_def published_def leased_def)

lemma forget_route_simps [simp]:
  "sv_lease (forget_route s) = None" "sv_client (forget_route s) = None"
  "sv_accepting (forget_route s) = sv_accepting s" "sv_inflight (forget_route s) = sv_inflight s"
  "sv_epoch (forget_route s) = Suc (sv_epoch s)" "sv_route_closed (forget_route s) = sv_route_closed s"
  "sv_close_control (forget_route s) = sv_close_control s" "sv_made (forget_route s) = sv_made s"
  "sv_retired (forget_route s) = sv_retired s" "sv_failed (forget_route s) = sv_failed s" "sv_holder (forget_route s) = sv_holder s"
  "sv_tasks (forget_route s) = sv_tasks s" "published (forget_route s) = None" "leased (forget_route s) = None"
  by (simp_all add: forget_route_def published_def leased_def)

subsection \<open>Quiet steps\<close>

text \<open>The parts of the invariant that survive when one task moves without a call and the condition.\<close>

lemma calls_frame:
  assumes s: "calls_ok s" and t: "sv_tasks s' = (sv_tasks s)(i := q)" "\<not> pinned (sv_tasks s i)" "\<not> pinned q"
    and f: "sv_inflight s' = sv_inflight s" "sv_client s' = sv_client s \<or> sv_inflight s = 0"
  shows "calls_ok s'"
proof -
  have fin: "finite {j. pinned (sv_tasks s j)}" and cnt: "sv_inflight s = count_at (sv_tasks s) pinned"
    and snap: "\<And>j n. sv_tasks s j = Pinned n \<Longrightarrow> sv_client s = Some (sn_client n)"
    using s by (auto simp: calls_ok_def)
  have "count_at (sv_tasks s') pinned = count_at (sv_tasks s) pinned"
    unfolding t using count_at_upd [where P = pinned and pcs = "sv_tasks s" and i = i and p = q] fin t by simp
  moreover have "finite {j. pinned (sv_tasks s' j)}"
    unfolding t using finite_at_upd [where P = pinned and pcs = "sv_tasks s" and i = i and p = q] fin by simp
  moreover have "sv_client s' = Some (sn_client n)" if j: "sv_tasks s' j = Pinned n" for j n
  proof -
    have p: "sv_tasks s j = Pinned n" using j t by (auto simp: pinned_iff split: if_splits)
    then have "sv_inflight s \<noteq> 0" using count_at_pos [where P = pinned and pcs = "sv_tasks s" and t = j] fin cnt by simp
    with f snap [OF p] show ?thesis by simp
  qed
  ultimately show ?thesis using cnt f by (simp add: calls_ok_def)
qed

lemma holder_frame:
  assumes s: "holder_ok s" and t: "sv_tasks s' = (sv_tasks s)(i := q)" "\<not> retiring (sv_tasks s i)" "\<not> retiring q"
    and f: "sv_holder s' = sv_holder s"
    and k: "sv_holder s = None \<or> sv_client s' = sv_client s \<and> sv_inflight s' = sv_inflight s"
  shows "holder_ok s'"
proof -
  have h: "\<And>j. retiring (sv_tasks s j) = (sv_holder s = Some j)"
    and r: "\<And>j lid c. sv_tasks s j = Retiring lid c \<Longrightarrow> sv_client s = Some c \<and> sv_inflight s = 0"
    using s by (auto simp: holder_ok_def)
  have "retiring (sv_tasks s' j) = (sv_holder s' = Some j)" for j
    using h [of j] t by (auto simp: f)
  moreover have "sv_client s' = Some c \<and> sv_inflight s' = 0"
    if "sv_tasks s' j = Retiring lid c" for j lid c
  proof -
    have j: "sv_tasks s j = Retiring lid c" using that t by (auto simp: retiring_iff split: if_splits)
    then have "sv_holder s = Some j" using h [of j] by simp
    then show ?thesis using r [OF j] k by auto
  qed
  ultimately show ?thesis by (simp add: holder_ok_def)
qed

text \<open>
  Most steps move one task that neither holds a call nor the condition, and keep what it owns.
\<close>

definition quiet_step :: "nat \<Rightarrow> task \<Rightarrow> service \<Rightarrow> service \<Rightarrow> bool" where
  "quiet_step i q s s' \<longleftrightarrow> \<not> pinned (sv_tasks s i) \<and> \<not> retiring (sv_tasks s i) \<and> \<not> pinned q \<and> \<not> retiring q \<and>
     owned q = owned (sv_tasks s i) \<and> (unpublished q \<longrightarrow> unpublished (sv_tasks s i)) \<and>
     sv_tasks s' = (sv_tasks s)(i := q) \<and> sv_client s' = sv_client s \<and> (sv_lease s' = None \<longleftrightarrow> sv_lease s = None) \<and>
     sv_inflight s' = sv_inflight s \<and> sv_holder s' = sv_holder s \<and> sv_made s' = sv_made s \<and>
     sv_retired s' = sv_retired s \<and> sv_failed s' = sv_failed s \<and> sv_close_control s' = sv_close_control s"

lemma quiet_step_keeps:
  assumes s: "route_sound s" and q: "quiet_step i q s s'"
  shows "route_sound s'"
proof -
  have pin: "\<not> pinned (sv_tasks s i)" "\<not> pinned q" and ret: "\<not> retiring (sv_tasks s i)" "\<not> retiring q"
    and own: "owned q = owned (sv_tasks s i)" and unp: "unpublished q \<Longrightarrow> unpublished (sv_tasks s i)"
    and t: "sv_tasks s' = (sv_tasks s)(i := q)"
    and same: "sv_client s' = sv_client s" "sv_inflight s' = sv_inflight s" "sv_holder s' = sv_holder s"
      "sv_made s' = sv_made s" "sv_retired s' = sv_retired s" "sv_failed s' = sv_failed s" "sv_close_control s' = sv_close_control s"
    and l: "(sv_lease s' = None) = (sv_lease s = None)"
    using q by (auto simp: quiet_step_def)
  have pub: "published s' = published s" by (simp add: published_def same)
  have owned_eq: "owned (sv_tasks s' j) = owned (sv_tasks s j)" for j by (simp add: t own)
  have unp_le: "unpublished (sv_tasks s' j) \<Longrightarrow> unpublished (sv_tasks s j)" for j
    using unp by (simp add: t split: if_splits)
  have "calls_ok s'" by (rule calls_frame [OF _ t pin]) (use s same in \<open>simp_all add: route_sound_def\<close>)
  moreover have "holder_ok s'"
    by (rule holder_frame [OF _ t ret]) (use s same in \<open>auto simp: route_sound_def\<close>)
  moreover have "clients_ok s'"
    using s by (auto simp: route_sound_def clients_ok_def pub same owned_eq l)
  moreover have "owners_ok s'"
    using s unp_le unfolding route_sound_def owners_ok_def same owned_eq by blast
  moreover have "accounted s'"
    using s by (simp add: route_sound_def accounted_def same owned_eq pub)
  ultimately show ?thesis by (simp add: route_sound_def)
qed

lemma quiet_become:
  assumes "route_sound s" and "\<not> pinned (sv_tasks s i)" "\<not> retiring (sv_tasks s i)" "\<not> pinned q" "\<not> retiring q"
    and "owned q = owned (sv_tasks s i)" "unpublished q \<longrightarrow> unpublished (sv_tasks s i)"
  shows "route_sound (become i q s)"
  by (rule quiet_step_keeps [OF assms(1), of i q]) (use assms in \<open>simp add: quiet_step_def\<close>)

text \<open>Changes of the route's other fields alone.\<close>

lemma settings_keep:
  assumes s: "route_sound s"
    and t: "sv_tasks s' = sv_tasks s" "sv_client s' = sv_client s" "(sv_lease s' = None) = (sv_lease s = None)"
      "sv_inflight s' = sv_inflight s" "sv_holder s' = sv_holder s" "sv_made s' = sv_made s"
      "sv_retired s' = sv_retired s" "sv_failed s' = sv_failed s" "sv_close_control s' = sv_close_control s"
  shows "route_sound s'"
proof -
  have pub: "published s' = published s" by (simp add: published_def t)
  have "calls_ok s'" using s by (simp add: route_sound_def calls_ok_def t)
  moreover have "holder_ok s'" using s by (simp add: route_sound_def holder_ok_def t)
  moreover have "clients_ok s'" using s by (auto simp: route_sound_def clients_ok_def t pub)
  moreover have "owners_ok s'" using s by (simp add: route_sound_def owners_ok_def t)
  moreover have "accounted s'" using s by (simp add: route_sound_def accounted_def t pub)
  ultimately show ?thesis by (simp add: route_sound_def)
qed

lemma ownersI:
  assumes s: "owners_ok s" and m: "sv_made s' = sv_made s"
    and t: "\<And>j n. owned (sv_tasks s' j) = Some n \<Longrightarrow> owned (sv_tasks s j) = Some n"
    and u: "\<And>j n. unpublished (sv_tasks s' j) \<Longrightarrow> owned (sv_tasks s' j) = Some n \<Longrightarrow> n \<notin> sv_retired s'"
  shows "owners_ok s'"
  using s t u unfolding owners_ok_def m by blast

abbreviation kept :: "service \<Rightarrow> nat \<Rightarrow> bool" where
  "kept s n \<equiv> n \<in> sv_retired s \<union> sv_failed s \<or> published s = Some n \<or> (\<exists>j. owned (sv_tasks s j) = Some n)"

lemma kept_owned: "owned (sv_tasks s j) = Some n \<Longrightarrow> kept s n"
  by blast

lemma accountedI:
  assumes s: "accounted s" and m: "sv_made s' = sv_made s" 
    and r: "sv_retired s \<union> sv_failed s \<subseteq> sv_retired s' \<union> sv_failed s'" "sv_retired s' \<union> sv_failed s' \<subseteq> {..< sv_made s}"
    and f: "sv_failed s' \<noteq> {} \<Longrightarrow> sv_close_control s'"
    and p: "\<And>n. published s = Some n \<Longrightarrow> kept s' n"
    and t: "\<And>j n. owned (sv_tasks s j) = Some n \<Longrightarrow> kept s' n"
  shows "accounted s'"
proof -
  have "kept s' n" if "n < sv_made s" for n
    using s that r(1) p t unfolding accounted_def by blast
  then show ?thesis using r(2) f by (simp add: accounted_def m)
qed

subsection \<open>Steps on clients\<close>

text \<open>A task that owns nothing builds a client.\<close>

lemma build_keeps:
  assumes s: "route_sound s" and i: "sv_tasks s i = Idle" and c: "cl_number c = sv_made s"
  shows "route_sound (become i (Entering l caps c) (s\<lparr>sv_made := Suc (sv_made s)\<rparr>))" (is "route_sound ?s")
proof -
  let ?t = "(sv_tasks s)(i := Entering l caps c)"
  have own: "owned (?t j) = (if j = i then Some (sv_made s) else owned (sv_tasks s j))" for j by (simp add: c)
  have pub: "published ?s = published s" by (simp add: published_def)
  have "calls_ok ?s"
    by (rule calls_frame [of s _ i "Entering l caps c"]) (use s i in \<open>simp_all add: route_sound_def\<close>)
  moreover have "holder_ok ?s"
    by (rule holder_frame [of s _ i "Entering l caps c"]) (use s i in \<open>simp_all add: route_sound_def\<close>)
  moreover have "clients_ok ?s" using s c by (auto simp: route_sound_def clients_ok_def pub own less_Suc_eq)
  moreover have "owners_ok ?s" using s c by (auto simp: route_sound_def owners_ok_def own less_Suc_eq accounted_def)
  moreover have "accounted ?s"
  proof -
    have "owned (sv_tasks ?s j) = Some n" if "owned (sv_tasks s j) = Some n" for j n using that i by (cases "j = i") simp_all
    then have "kept ?s n" if "kept s n" for n using that unfolding pub by (simp del: fun_upd_apply) blast
    moreover have "owned (sv_tasks ?s i) = Some (sv_made s)" using c by simp
    ultimately have "kept ?s n" if "n < Suc (sv_made s)" for n
      using s that unfolding route_sound_def accounted_def less_Suc_eq by blast
    then show ?thesis using s by (auto simp: accounted_def route_sound_def)
  qed
  ultimately show ?thesis by (simp add: route_sound_def)
qed

text \<open>The drained route is published: the old client, if any, passes to the task.\<close>

lemma publish_keeps:
  assumes s: "route_sound s" and i: "unpublished (sv_tasks s i)" "owned (sv_tasks s i) = Some (cl_number c)"
    and idle: "sv_inflight s = 0" and free: "sv_holder s = None"
    and open_route: "\<not> sv_route_closed s" "\<not> sv_close_control s"
    and s': "s' = snd (publish i l caps c (sv_client s) s)"
  shows "route_sound s'"
proof -
  define q where "q = (case sv_client s of None \<Rightarrow> Idle | Some d \<Rightarrow> Replacing d)"
  have t: "sv_tasks s' = (sv_tasks s)(i := q)" and cl: "sv_client s' = Some c" and le: "sv_lease s' = Some l"
    and same: "sv_inflight s' = sv_inflight s" "sv_holder s' = sv_holder s" "sv_made s' = sv_made s"
      "sv_retired s' = sv_retired s" "sv_failed s' = sv_failed s" "sv_close_control s' = sv_close_control s"
    using open_route by (simp_all add: s' publish_def q_def)
  have quiet: "\<not> pinned (sv_tasks s i)" "\<not> pinned q" "\<not> retiring (sv_tasks s i)" "\<not> retiring q"
    using i by (cases "sv_tasks s i"; simp add: q_def split: option.splits)+
  have oq: "owned q = published s" and uq: "\<not> unpublished q"
    by (simp_all add: q_def published_def split: option.splits)
  have own: "owned (sv_tasks s' j) = (if j = i then published s else owned (sv_tasks s j))" for j by (simp add: t oq)
  have pub: "published s' = Some (cl_number c)" by (simp add: published_def cl)
  have "calls_ok s'" by (rule calls_frame [OF _ t quiet(1,2)]) (use s same idle in \<open>simp_all add: route_sound_def\<close>)
  moreover have "holder_ok s'"
    by (rule holder_frame [OF _ t quiet(3,4)]) (use s same free in \<open>simp_all add: route_sound_def\<close>)
  moreover have "clients_ok s'" and "owners_ok s'"
  proof -
    have made: "cl_number c < sv_made s" and new: "cl_number c \<notin> sv_retired s"
      and only: "\<And>j. owned (sv_tasks s j) = Some (cl_number c) \<Longrightarrow> j = i"
      using s i by (auto simp: route_sound_def owners_ok_def)
    have pm: "\<And>n. published s = Some n \<Longrightarrow> n < sv_made s \<and> (\<forall>j. owned (sv_tasks s j) \<noteq> Some n)"
      using s by (simp add: route_sound_def clients_ok_def)
    have "owned (sv_tasks s' j) \<noteq> Some (cl_number c)" for j
      using only [of j] pm [of "cl_number c"] i by (auto simp: own)
    then show "clients_ok s'" using made new by (auto simp: clients_ok_def pub same cl le)
    have lt: "\<And>j n. owned (sv_tasks s j) = Some n \<Longrightarrow> n < sv_made s"
      and uniq: "\<And>j k n. owned (sv_tasks s j) = Some n \<Longrightarrow> owned (sv_tasks s k) = Some n \<Longrightarrow> j = k"
      and nr: "\<And>j n. unpublished (sv_tasks s j) \<Longrightarrow> owned (sv_tasks s j) = Some n \<Longrightarrow> n \<notin> sv_retired s"
      using s unfolding route_sound_def owners_ok_def by blast+
    have "n < sv_made s" if "owned (sv_tasks s' j) = Some n" for j n
      using that pm lt own [of j] by (cases "j = i") simp_all
    moreover have "j = k" if "owned (sv_tasks s' j) = Some n" "owned (sv_tasks s' k) = Some n" for j k n
    proof -
      have no: "owned (sv_tasks s m) \<noteq> published s \<or> published s = None" for m
        using pm by (cases "published s") auto
      show ?thesis using that uniq own [of j] own [of k] no [of j] no [of k]
        by (cases "j = i"; cases "k = i") auto
    qed
    moreover have "n \<notin> sv_retired s" if "unpublished (sv_tasks s' j)" "owned (sv_tasks s' j) = Some n" for j n
      using that uq nr [of j] own [of j] by (cases "j = i") (simp_all add: t)
    ultimately show "owners_ok s'" by (auto simp: owners_ok_def same)
  qed
  moreover have "accounted s'"
  proof (rule accountedI)
    show "accounted s" "sv_retired s' \<union> sv_failed s' \<subseteq> {..<sv_made s}" "sv_failed s' \<noteq> {} \<Longrightarrow> sv_close_control s'"
      using s by (simp_all add: route_sound_def accounted_def same)
    show "kept s' n" if "published s = Some n" for n using that own [of i] by auto
    show "kept s' n" if "owned (sv_tasks s j) = Some n" for j n
      using that i pub own [of j] by (cases "j = i") auto
  qed (simp_all add: same)
  ultimately show ?thesis by (simp add: route_sound_def)
qed

text \<open>A task closes the client it owns.\<close>

lemma close_owned_keeps:
  assumes s: "route_sound s" and i: "sv_tasks s i = Discarding c \<or> sv_tasks s i = Replacing c"
  shows "route_sound (become i Idle (close_remote_client c fails s))" (is "route_sound ?s")
proof -
  have t: "sv_tasks ?s = (sv_tasks s)(i := Idle)" by simp
  have own: "owned (sv_tasks ?s j) = (if j = i then None else owned (sv_tasks s j))" for j by simp
  have oi: "owned (sv_tasks s i) = Some (cl_number c)" using i by auto
  have notpub: "published s \<noteq> Some (cl_number c)" using s oi by (auto simp: route_sound_def clients_ok_def)
  have made: "cl_number c < sv_made s" using s oi by (auto simp: route_sound_def owners_ok_def)
  have only: "owned (sv_tasks s j) = Some (cl_number c) \<Longrightarrow> j = i" for j
    using s oi by (auto simp: route_sound_def owners_ok_def)
  have quiet: "\<not> pinned (sv_tasks s i)" "\<not> retiring (sv_tasks s i)" using i by auto
  have "calls_ok ?s" by (rule calls_frame [OF _ t]) (use s quiet in \<open>simp_all add: route_sound_def\<close>)
  moreover have "holder_ok ?s" by (rule holder_frame [OF _ t]) (use s quiet in \<open>simp_all add: route_sound_def\<close>)
  moreover have "clients_ok ?s"
    using s notpub by (auto simp: route_sound_def clients_ok_def split: if_splits)
  moreover have "owners_ok ?s"
  proof (rule ownersI)
    show "owners_ok s" using s by (simp add: route_sound_def)
    show "owned (sv_tasks s j) = Some n" if "owned (sv_tasks ?s j) = Some n" for j n
      using that by (cases "j = i") simp_all
    show "n \<notin> sv_retired ?s" if u: "unpublished (sv_tasks ?s j)" "owned (sv_tasks ?s j) = Some n" for j n
    proof -
      from u have j: "j \<noteq> i" "owned (sv_tasks s j) = Some n" "unpublished (sv_tasks s j)" by (auto split: if_splits)
      then have "n \<noteq> cl_number c" using only [of j] by auto
      moreover have "n \<notin> sv_retired s" using s j by (auto simp: route_sound_def owners_ok_def)
      ultimately show ?thesis by simp
    qed
  qed simp
  moreover have "accounted ?s"
  proof (rule accountedI)
    show "accounted s" "sv_retired s \<union> sv_failed s \<subseteq> sv_retired ?s \<union> sv_failed ?s"
      "sv_retired ?s \<union> sv_failed ?s \<subseteq> {..<sv_made s}" "sv_failed ?s \<noteq> {} \<Longrightarrow> sv_close_control ?s"
      using s made by (auto simp: route_sound_def accounted_def)
    show "kept ?s n" if "published s = Some n" for n using that by simp
    show "kept ?s n" if "owned (sv_tasks s j) = Some n" for j n
    proof (cases "j = i")
      case True
      with that oi show ?thesis by simp
    qed (use that own [of j] in auto)
  qed simp_all
  ultimately show ?thesis by (simp add: route_sound_def)
qed

text \<open>A drained deactivation takes the condition for its close, or forgets a route without a client.\<close>

lemma retire_keeps:
  assumes s: "route_sound s" and i: "\<not> pinned (sv_tasks s i)" "\<not> retiring (sv_tasks s i)" "owned (sv_tasks s i) = None"
    and d: "sv_client s = Some c" "sv_inflight s = 0" "sv_holder s = None"
  shows "route_sound (become i (Retiring lid c) (s\<lparr>sv_holder := Some i\<rparr>))" (is "route_sound ?s")
proof -
  have own: "owned (sv_tasks ?s j) = owned (sv_tasks s j)" for j using i by (cases "j = i") simp_all
  have "calls_ok ?s" by (rule calls_frame [of s _ i "Retiring lid c"]) (use s i in \<open>simp_all add: route_sound_def\<close>)
  moreover have "holder_ok ?s"
  proof -
    have "\<not> retiring (sv_tasks s j)" for j using s d by (simp add: route_sound_def holder_ok_def)
    then have "sv_tasks s j \<noteq> Retiring lid' c'" for j lid' c' by (metis retiring.simps(1))
    with \<open>\<And>j. \<not> retiring (sv_tasks s j)\<close> d show ?thesis by (simp add: holder_ok_def)
  qed
  moreover have "clients_ok ?s" using s i by (auto simp: route_sound_def clients_ok_def)
  moreover have "owners_ok ?s"
    by (rule ownersI [of s]) (use s in \<open>auto simp: route_sound_def owners_ok_def split: if_splits\<close>)
  moreover have "accounted ?s"
  proof (rule accountedI [of s])
    show "kept ?s n" if "owned (sv_tasks s j) = Some n" for j n by (rule kept_owned [of _ j]) (use that own [of j] in \<open>simp only:\<close>)
  qed (use s in \<open>auto simp: route_sound_def accounted_def\<close>)
  ultimately show ?thesis by (simp add: route_sound_def)
qed

lemma forget_keeps:
  assumes s: "route_sound s" and i: "\<not> pinned (sv_tasks s i)" "owned (sv_tasks s i) = None"
    and d: "sv_inflight s = 0" "sv_holder s = None \<or> sv_holder s = Some i"
    and s': "s' = become i Idle (forget_route (s\<lparr>sv_retired := {n. published s = Some n} \<union> sv_retired s, sv_holder := None\<rparr>))"
  shows "route_sound s'"
proof -
  have t: "sv_tasks s' = (sv_tasks s)(i := Idle)" and h: "sv_holder s' = None" and p: "published s' = None"
    and cl: "sv_client s' = None" and re: "sv_retired s' = {n. published s = Some n} \<union> sv_retired s" and m: "sv_made s' = sv_made s"
    and fl: "sv_inflight s' = sv_inflight s" and le: "sv_lease s' = None"
    and fa: "sv_failed s' = sv_failed s" "sv_close_control s' = sv_close_control s"
    by (simp_all add: s')
  have own: "owned (sv_tasks s' j) = owned (sv_tasks s j)" for j using i by (cases "j = i") (simp_all add: t)
  have "calls_ok s'" by (rule calls_frame [OF _ t]) (use s i d fl in \<open>simp_all add: route_sound_def\<close>)
  moreover have "holder_ok s'"
  proof -
    have "\<not> retiring (sv_tasks s' j)" for j using s d by (auto simp: route_sound_def holder_ok_def t)
    then show ?thesis using h by (auto simp: holder_ok_def retiring_iff)
  qed
  moreover have "clients_ok s'" by (simp add: clients_ok_def p cl le)
  moreover have "owners_ok s'"
  proof (rule ownersI [of s])
    show "n \<notin> sv_retired s'" if "unpublished (sv_tasks s' j)" "owned (sv_tasks s' j) = Some n" for j n
    proof -
      have j: "unpublished (sv_tasks s j)" "owned (sv_tasks s j) = Some n" using that own [of j] by (auto simp: t split: if_splits)
      then have "n \<notin> sv_retired s" using s by (auto simp: route_sound_def owners_ok_def)
      moreover have "published s \<noteq> Some n" using s j by (auto simp: route_sound_def clients_ok_def)
      ultimately show ?thesis by (auto simp: re)
    qed
  qed (use s own m in \<open>simp_all add: route_sound_def\<close>)
  moreover have "accounted s'"
  proof (rule accountedI [of s])
    show "kept s' n" if "owned (sv_tasks s j) = Some n" for j n by (rule kept_owned [of _ j]) (use that own [of j] in \<open>simp only:\<close>)
    show "kept s' n" if "published s = Some n" for n using that re by simp
    show "sv_retired s' \<union> sv_failed s' \<subseteq> {..<sv_made s}" "sv_failed s' \<noteq> {} \<Longrightarrow> sv_close_control s'"
      using s by (auto simp: re fa route_sound_def accounted_def clients_ok_def)
  qed (use s re m fa in \<open>auto simp: route_sound_def\<close>)
  ultimately show ?thesis by (simp add: route_sound_def)
qed

subsection \<open>Steps on calls\<close>

lemma pin_keeps:
  assumes s: "route_sound s" and i: "sv_tasks s i = Renewing lid e"
    and d: "sv_client s = Some c" "sv_holder s = None" and n: "sn_client n = c"
  shows "route_sound (become i (Pinned n) (s\<lparr>sv_inflight := sv_inflight s + 1\<rparr>))" (is "route_sound ?s")
proof -
  have own: "owned (sv_tasks ?s j) = owned (sv_tasks s j)" for j using i by (cases "j = i") simp_all
  have fin: "finite {j. pinned (sv_tasks s j)}" using s by (simp add: route_sound_def calls_ok_def)
  have "calls_ok ?s"
    using s i d n finite_at_upd [where P = pinned and pcs = "sv_tasks s" and i = i and p = "Pinned n"]
      count_at_upd [where P = pinned and pcs = "sv_tasks s" and i = i and p = "Pinned n"] fin
    by (simp add: route_sound_def calls_ok_def fun_upd_def)
  moreover have "holder_ok ?s"
    by (rule holder_frame [of s _ i "Pinned n"]) (use s i d in \<open>simp_all add: route_sound_def\<close>)
  moreover have "clients_ok ?s" using s i d by (auto simp: route_sound_def clients_ok_def)
  moreover have "owners_ok ?s"
    by (rule ownersI [of s]) (use s in \<open>auto simp: route_sound_def owners_ok_def split: if_splits\<close>)
  moreover have "accounted ?s"
  proof (rule accountedI [of s])
    show "kept ?s m" if "owned (sv_tasks s j) = Some m" for j m by (rule kept_owned [of _ j]) (use that own [of j] in \<open>simp only:\<close>)
  qed (use s in \<open>auto simp: route_sound_def accounted_def\<close>)
  ultimately show ?thesis by (simp add: route_sound_def)
qed

lemma unpin_keeps:
  assumes s: "route_sound s" and i: "sv_tasks s i = Pinned n" and d: "sv_holder s = None"
  shows "route_sound (become i Idle (s\<lparr>sv_inflight := sv_inflight s - 1\<rparr>))" (is "route_sound ?s")
proof -
  have own: "owned (sv_tasks ?s j) = owned (sv_tasks s j)" for j using i by (cases "j = i") simp_all
  have fin: "finite {j. pinned (sv_tasks s j)}" using s by (simp add: route_sound_def calls_ok_def)
  have busy: "sv_inflight s \<noteq> 0"
    using count_at_pos [where P = pinned and pcs = "sv_tasks s" and t = i] fin i s by (simp add: route_sound_def calls_ok_def)
  have "calls_ok ?s"
    using s i finite_at_upd [where P = pinned and pcs = "sv_tasks s" and i = i and p = Idle]
      count_at_upd [where P = pinned and pcs = "sv_tasks s" and i = i and p = Idle] fin
    by (auto simp: route_sound_def calls_ok_def fun_upd_def) (metis option.inject)
  moreover have "holder_ok ?s"
    by (rule holder_frame [of s _ i Idle]) (use s i d in \<open>simp_all add: route_sound_def\<close>)
  moreover have "clients_ok ?s" using s i busy by (auto simp: route_sound_def clients_ok_def)
  moreover have "owners_ok ?s"
    by (rule ownersI [of s]) (use s in \<open>auto simp: route_sound_def owners_ok_def split: if_splits\<close>)
  moreover have "accounted ?s"
  proof (rule accountedI [of s])
    show "kept ?s m" if "owned (sv_tasks s j) = Some m" for j m by (rule kept_owned [of _ j]) (use that own [of j] in \<open>simp only:\<close>)
  qed (use s in \<open>auto simp: route_sound_def accounted_def\<close>)
  ultimately show ?thesis by (simp add: route_sound_def)
qed

subsection \<open>Every step keeps the invariant\<close>

lemma become_keeps:
  "route_sound s \<Longrightarrow> sv_tasks s i = p \<Longrightarrow> \<not> pinned p \<Longrightarrow> \<not> retiring p \<Longrightarrow> \<not> pinned q \<Longrightarrow> \<not> retiring q \<Longrightarrow>
    owned q = owned p \<Longrightarrow> (unpublished q \<Longrightarrow> unpublished p) \<Longrightarrow> route_sound (become i q s)"
  by (rule quiet_become) auto

lemma close_route_keeps: "route_sound s \<Longrightarrow> route_sound (s\<lparr>sv_accepting := False\<rparr>)"
  by (erule settings_keep) simp_all

lemma publish_step:
  assumes s: "route_sound s" and i: "sv_tasks s i = p" "unpublished p" "owned p = Some (cl_number c)"
    and d: "sv_inflight s = 0" "sv_holder s = None" "old = sv_client s"
  shows "route_sound (snd (publish i l caps c old s))"
proof (cases "sv_route_closed s \<or> sv_close_control s")
  case True
  have "route_sound (become i (Discarding c) s)" by (rule become_keeps [OF s i(1)]) (use i in \<open>cases p; simp\<close>)+
  with True show ?thesis by (auto simp: publish_def)
next
  case False
  with assms show ?thesis by (intro publish_keeps [OF s]) auto
qed

lemma activate_begin_keeps:
  assumes s: "route_sound s" and i: "sv_tasks s i = Idle"
  shows "route_sound (snd (activate_begin i l caps s))"
proof (cases "route_of l")
  case (Inr r)
  have "route_sound (s\<lparr>sv_lease := Some l, sv_caps := caps, sv_touch := True\<rparr>)" if "sv_lease s \<noteq> None"
    by (rule settings_keep [OF s]) (use that in simp_all)
  moreover have "route_sound (become i (Entering l caps (new_client r (sv_made s))) (s\<lparr>sv_made := Suc (sv_made s)\<rparr>))"
    by (rule build_keeps [OF s i]) (simp add: new_client_def)
  moreover have "refreshes_in_place s l r \<Longrightarrow> sv_lease s \<noteq> None" by (auto simp: refreshes_in_place_def split: option.splits)
  ultimately show ?thesis using s Inr by (auto simp: activate_begin_def)
qed (use s in \<open>simp add: activate_begin_def\<close>)

lemma activate_enter_keeps:
  assumes s: "route_sound s" and i: "sv_tasks s i = Entering l caps c" and h: "sv_holder s = None"
  shows "route_sound (snd (activate_enter i l caps c s))"
proof -
  have no: "route_sound (become i (Discarding c) s)" by (rule become_keeps [OF s i]) simp_all
  show ?thesis
  proof (cases "sv_lease s")
    case None
    then have "sv_client s = None" using s by (simp add: route_sound_def clients_ok_def)
    moreover from this have "sv_inflight s = 0"
    proof -
      have "\<not> pinned (sv_tasks s j)" for j using s \<open>sv_client s = None\<close> by (auto simp: route_sound_def calls_ok_def pinned_iff)
      then show ?thesis using s by (simp add: route_sound_def calls_ok_def count_at_def)
    qed
    ultimately have "route_sound (snd (publish i l caps c None s))"
      using publish_step [OF s i, of c None] h by simp
    with None no show ?thesis by (simp add: activate_enter_def)
  next
    case (Some a)
    let ?s = "s\<lparr>sv_accepting := False\<rparr>"
    have s1: "route_sound ?s" by (rule close_route_keeps [OF s])
    have "route_sound (become i (Refreshing l caps c) ?s)" by (rule become_keeps [OF s1, of i "Entering l caps c"]) (simp_all add: i)
    moreover have "route_sound (snd (publish i l caps c (sv_client s) ?s))" if "sv_inflight s = 0"
      using publish_step [OF s1, of i "Entering l caps c" c] that i h by simp
    ultimately show ?thesis using Some no by (simp add: activate_enter_def)
  qed
qed

lemma deactivate_drained_keeps:
  assumes s: "route_sound s" and i: "sv_tasks s i = p" "\<not> pinned p" "\<not> retiring p" "owned p = None"
    and d: "sv_inflight s = 0" "sv_holder s = None"
  shows "route_sound (deactivate_drained i lid s)"
proof (cases "sv_client s")
  case None
  have "s = s\<lparr>sv_retired := {n. published s = Some n} \<union> sv_retired s, sv_holder := None\<rparr>"
    using d None by (simp add: published_def)
  then have "route_sound (become i Idle (forget_route s))"
    by (intro forget_keeps [OF s, of i]) (use i d in auto)
  then show ?thesis by (simp add: deactivate_drained_def None)
next
  case (Some c)
  then show ?thesis using retire_keeps [OF s, of i c lid] i d by (simp add: deactivate_drained_def)
qed

lemma deactivate_begin_keeps:
  assumes s: "route_sound s" and i: "sv_tasks s i = Idle" and h: "sv_holder s = None"
  shows "route_sound (snd (deactivate_begin i lid require s))"
proof (cases "sv_lease s")
  case (Some a)
  let ?s = "s\<lparr>sv_accepting := False, sv_backend := sv_default s\<rparr>"
  have s1: "route_sound ?s" by (rule settings_keep [OF s]) simp_all
  have "route_sound (become i (Leaving lid b) ?s)" for b by (rule become_keeps [OF s1, of i Idle]) (simp_all add: i)
  moreover have "sv_inflight s = 0 \<Longrightarrow> route_sound (deactivate_drained i lid ?s)"
    by (rule deactivate_drained_keeps [OF s1, of i Idle]) (simp_all add: i h)
  ultimately show ?thesis using s Some by (simp add: deactivate_begin_def Let_def)
qed (use s in \<open>simp add: deactivate_begin_def\<close>)

lemma deactivate_closed_keeps:
  assumes s: "route_sound s" and i: "sv_tasks s i = Retiring lid c"
  shows "route_sound (snd (deactivate_closed i c fails s))"
proof -
  have h: "sv_holder s = Some i" and d: "sv_client s = Some c" "sv_inflight s = 0"
    using s i by (auto simp: route_sound_def holder_ok_def)
  show ?thesis
  proof (cases fails)
    case False
    have "route_sound (become i Idle (forget_route (s\<lparr>sv_retired := {n. published s = Some n} \<union> sv_retired s, sv_holder := None\<rparr>)))"
      by (rule forget_keeps [OF s, of i]) (use i h d in simp_all)
    then show ?thesis using False d by (simp add: deactivate_closed_def close_remote_client_def published_def Let_def)
  next
    case True
    let ?s = "become i Idle (s\<lparr>sv_failed := insert (cl_number c) (sv_failed s), sv_close_control := True, sv_holder := None\<rparr>)"
    have pub: "published s = Some (cl_number c)" by (simp add: published_def d)
    have own: "owned (sv_tasks ?s j) = owned (sv_tasks s j)" for j using i by (cases "j = i") simp_all
    have "calls_ok ?s" by (rule calls_frame [of s _ i Idle]) (use s i in \<open>simp_all add: route_sound_def\<close>)
    moreover have "holder_ok ?s"
    proof -
      have "\<not> retiring (sv_tasks ?s j)" for j using s h by (auto simp: route_sound_def holder_ok_def)
      then show ?thesis by (auto simp: holder_ok_def retiring_iff)
    qed
    moreover have "clients_ok ?s" using s i by (auto simp: route_sound_def clients_ok_def)
    moreover have "owners_ok ?s"
      by (rule ownersI [of s]) (use s in \<open>auto simp: route_sound_def owners_ok_def split: if_splits\<close>)
    moreover have "accounted ?s"
    proof (rule accountedI [of s])
      show "kept ?s n" if "owned (sv_tasks s j) = Some n" for j n
        by (rule kept_owned [of _ j]) (use that own [of j] in \<open>simp only:\<close>)
    qed (use s pub in \<open>auto simp: route_sound_def accounted_def clients_ok_def\<close>)
    ultimately show ?thesis using True by (simp add: route_sound_def deactivate_closed_def close_remote_client_def Let_def)
  qed
qed

lemma call_begin_keeps:
  assumes s: "route_sound s" and i: "sv_tasks s i = Idle"
  shows "route_sound (snd (call_begin i force_local allowed required now s))"
proof -
  have "route_sound (become i (Renewing lid e) s)" for lid e by (rule become_keeps [OF s i]) simp_all
  then show ?thesis using s close_route_keeps [OF s] by (simp add: call_begin_def split: option.split)
qed

lemma call_renewed_keeps:
  assumes s: "route_sound s" and i: "sv_tasks s i = Renewing lid e" and h: "sv_holder s = None"
  shows "route_sound (snd (call_renewed i lid e touched now s))"
proof -
  have idle: "route_sound (become i Idle t)" if "route_sound t" "sv_tasks t = sv_tasks s" for t
    by (rule become_keeps [OF that(1), of i "Renewing lid e"]) (simp_all add: i that)
  have "route_sound (s\<lparr>sv_last_error := Some x\<rparr>)" for x by (rule settings_keep [OF s]) simp_all
  then have err: "route_sound (become i Idle (s\<lparr>sv_last_error := Some x\<rparr>))" for x by (intro idle) simp_all
  have off: "route_sound (become i Idle (s\<lparr>sv_accepting := False\<rparr>))" by (intro idle close_route_keeps [OF s]) simp
  have on: "sv_client s = Some c \<Longrightarrow> sn_client n = c \<Longrightarrow>
      route_sound (become i (Pinned n) (s\<lparr>sv_inflight := sv_inflight s + 1\<rparr>))" for c n
    by (rule pin_keeps [OF s i _ h])
  show ?thesis using idle [OF s] err off on
    by (simp add: call_renewed_def Let_def split: sum.split option.split)
qed

lemma route_step_keeps:
  assumes s: "route_sound s" and ok: "route_admits s e"
  shows "route_sound (route_step s e)"
proof (cases e)
  case (Activate i l caps)
  then show ?thesis using ok by (simp add: activate_begin_keeps [OF s])
next
  case (Deactivate i lid require)
  then show ?thesis using ok by (simp add: deactivate_begin_keeps [OF s])
next
  case (Call i force_local allowed required now)
  then show ?thesis using ok by (simp add: call_begin_keeps [OF s])
next
  case (Proceed i)
  then have h: "sv_holder s = None" using ok by simp
  have "route_sound (deactivate_wake i lid s)" if "sv_tasks s i = Leaving lid b" for lid b
    using s deactivate_drained_keeps [OF s that] h by (simp add: deactivate_wake_def)
  moreover have "route_sound (snd (activate_wake i l caps c s))" if "sv_tasks s i = Refreshing l caps c" for l caps c
    using s publish_step [OF s that, of c "sv_client s"] h by (simp add: activate_wake_def)
  ultimately show ?thesis unfolding Proceed
    using s activate_enter_keeps [OF s _ h] by (simp split: task.split)
next
  case (Give_Up i)
  have "route_sound (become i Idle s)" if "sv_tasks s i = Leaving lid b" for lid b
    by (rule become_keeps [OF s that]) simp_all
  moreover have "route_sound (snd (activate_timeout i c s))" if t: "sv_tasks s i = Refreshing l caps c" for l caps c
  proof -
    have "route_sound (s\<lparr>sv_accepting := x\<rparr>)" for x by (rule settings_keep [OF s]) simp_all
    then have "route_sound (become i (Discarding c) (s\<lparr>sv_accepting := x\<rparr>))" for x
      by (rule become_keeps [where p = "Refreshing l caps c"]) (simp_all add: t)
    then show ?thesis by (simp add: activate_timeout_def)
  qed
  ultimately show ?thesis using s unfolding Give_Up by (simp split: task.split)
next
  case (Cancel i)
  have "route_sound (become i q s)" if "\<not> pinned (sv_tasks s i)" "\<not> retiring (sv_tasks s i)"
    "\<not> pinned q" "\<not> retiring q" "owned q = owned (sv_tasks s i)" "unpublished q \<longrightarrow> unpublished (sv_tasks s i)" for q
    by (rule quiet_become [OF s that])
  then show ?thesis using s unfolding Cancel by (cases "sv_tasks s i") simp_all
next
  case (Client_Closed i fails)
  then show ?thesis using s close_owned_keeps [OF s, of i] deactivate_closed_keeps [OF s, of i]
    by (cases "sv_tasks s i") simp_all
next
  case (Renewed i touched now)
  then show ?thesis using s ok call_renewed_keeps [OF s, of i] by (cases "sv_tasks s i") simp_all
next
  case (Call_Ended i)
  then show ?thesis using s ok unpin_keeps [OF s, of i] by (cases "sv_tasks s i") (simp_all add: call_end_def)
next
  case Service_Closes
  have "route_sound (close_admission s)" unfolding close_admission_def by (rule settings_keep [OF s]) simp_all
  then show ?thesis by (simp add: Service_Closes)
next
  case (Switch b config)
  have "route_sound (s\<lparr>sv_backend := b\<rparr>)" by (rule settings_keep [OF s]) simp_all
  then show ?thesis using s by (simp add: Switch switch_backend_def)
qed

interpretation route: guarded_machine route_step route_admits route_sound
  by unfold_locales (rule route_step_keeps)

end
