(* ===== verification/Route_Promises.thy ===== *)
theory Route_Promises
  imports Route_Safety
begin

text \<open>
  What the private route promises along every interleaving: a call keeps an open client until it ends,
  no client is lost, a call never runs on a route that was torn down while it renewed, and a closed
  service never routes again.
\<close>

abbreviation route_run :: "backend \<Rightarrow> route_event list \<Rightarrow> service" where
  "route_run b es \<equiv> run route_step (new_service b) es"

abbreviation route_trace :: "backend \<Rightarrow> route_event list \<Rightarrow> bool" where
  "route_trace b es \<equiv> run_ok route_admits route_step (new_service b) es"

lemma reached_sound: "route_trace b es \<Longrightarrow> route_sound (route_run b es)"
  by (rule route.run_inv [OF new_service_sound])

text \<open>
  C7: In every interleaving of activations, deactivations, calls, cancellations and shutdown, each call
  in flight holds the client that is published now, that client has not been closed, and the number of
  calls the service waits for is the number of calls in flight.
\<close>

theorem pinned_calls_keep_their_client:
  assumes "route_trace b es" and "s = route_run b es"
  shows "(\<forall>i n. sv_tasks s i = Pinned n \<longrightarrow>
            sv_client s = Some (sn_client n) \<and> cl_number (sn_client n) \<notin> sv_retired s) \<and>
    sv_inflight s = int (card {i. \<exists>n. sv_tasks s i = Pinned n})"
proof -
  have s: "route_sound s" unfolding assms(2) by (rule reached_sound [OF assms(1)])
  have "{i. \<exists>n. sv_tasks s i = Pinned n} = {i. pinned (sv_tasks s i)}" by (simp add: pinned_iff)
  then have "sv_inflight s = int (card {i. \<exists>n. sv_tasks s i = Pinned n})"
    using s by (simp add: route_sound_def calls_ok_def count_at_def)
  moreover have "sv_client s = Some (sn_client n) \<and> cl_number (sn_client n) \<notin> sv_retired s" if "sv_tasks s i = Pinned n" for i n
  proof -
    have c: "sv_client s = Some (sn_client n)" using s that by (auto simp: route_sound_def calls_ok_def)
    then have "published s = Some (cl_number (sn_client n))" by (simp add: published_def)
    with c s show ?thesis by (simp add: route_sound_def clients_ok_def)
  qed
  ultimately show ?thesis by blast
qed

text \<open>
  C27: No client is lost: when no route is published and no task runs, every client that was ever built
  has been closed, or its close failed and the service refuses every further activation.
\<close>

theorem every_client_is_closed:
  assumes "route_trace b es" and "s = route_run b es" and "sv_lease s = None" and "\<forall>i. sv_tasks s i = Idle"
  shows "sv_retired s \<union> sv_failed s = {..< sv_made s} \<and> sv_inflight s = 0 \<and>
    (sv_failed s \<noteq> {} \<longrightarrow> fst (activate_begin i l caps s) \<noteq> None)"
proof -
  have s: "route_sound s" unfolding assms(2) by (rule reached_sound [OF assms(1)])
  have "published s = None" using s assms(3) by (simp add: route_sound_def clients_ok_def published_def)
  then have "sv_retired s \<union> sv_failed s = {..< sv_made s}"
    using s assms(4) by (auto simp: route_sound_def accounted_def)
  moreover have "sv_inflight s = 0"
    using s assms(4) by (simp add: route_sound_def calls_ok_def count_at_def)
  moreover have "sv_failed s \<noteq> {} \<longrightarrow> sv_close_control s" using s by (simp add: route_sound_def accounted_def)
  then have "sv_failed s \<noteq> {} \<longrightarrow> fst (activate_begin i l caps s) \<noteq> None"
    by (simp add: activate_begin_def split: sum.split)
  ultimately show ?thesis by blast
qed

subsection \<open>After shutdown\<close>

definition shut_down :: "service \<Rightarrow> bool" where
  "shut_down s \<longleftrightarrow> sv_route_closed s \<and> sv_lease s = None"

lemma publish_shut: "sv_route_closed s \<Longrightarrow> snd (publish i l caps c old s) = become i (Discarding c) s"
  by (simp add: publish_def)

lemma route_step_shut:
  assumes "shut_down s" shows "shut_down (route_step s e)"
proof -
  have c: "sv_route_closed s" and l: "sv_lease s = None" using assms by (simp_all add: shut_down_def)
  have d: "shut_down (become i p t)" if "shut_down t" for i p t using that by (simp add: shut_down_def)
  have f: "shut_down (close_remote_client k fails s)" for k fails using assms by (simp add: shut_down_def)
  show ?thesis
  proof (cases e)
    case (Activate i m caps)
    then show ?thesis using assms c by (simp add: activate_begin_def split: sum.split)
  next
    case (Deactivate i lid require)
    then show ?thesis using assms l by (simp add: deactivate_begin_def)
  next
    case (Call i force_local allowed required now)
    then show ?thesis using assms l by (simp add: call_begin_def)
  next
    case (Proceed i)
    then show ?thesis using assms c l d
      by (simp add: activate_enter_def activate_wake_def deactivate_wake_def deactivate_drained_def publish_shut
          shut_down_def split: task.split option.split)
  next
    case (Give_Up i)
    then show ?thesis using c l by (simp add: activate_timeout_def shut_down_def split: task.split)
  next
    case (Cancel i)
    then show ?thesis using assms d by (simp split: task.split)
  next
    case (Client_Closed i fails)
    then show ?thesis using assms d f c by (simp add: deactivate_closed_def Let_def shut_down_def split: task.split)
  next
    case (Renewed i touched now)
    then show ?thesis using c l
      by (simp add: call_renewed_def shut_down_def split: task.split sum.split option.split)
  next
    case (Call_Ended i)
    then show ?thesis using c l by (simp add: call_end_def shut_down_def split: task.split)
  next
    case Service_Closes
    then show ?thesis using l by (simp add: close_admission_def shut_down_def)
  next
    case (Switch b config)
    then show ?thesis using c l by (simp add: switch_backend_def shut_down_def)
  qed
qed

lemma run_shut: "shut_down s \<Longrightarrow> shut_down (run route_step s es)"
  by (induction es arbitrary: s) (simp_all add: route_step_shut)

text \<open>
  C28: Once the service has closed and its route is down, nothing that was under way and nothing that
  comes later restores a route: no lease is published, no call is in flight and every activation is
  refused.
\<close>

theorem closed_service_never_routes:
  assumes "route_trace b (es @ later)" and "s = route_run b es" and "sv_route_closed s" and "sv_lease s = None"
    and "t = run route_step s later"
  shows "sv_lease t = None \<and> (\<forall>i n. sv_tasks t i \<noteq> Pinned n) \<and> fst (activate_begin i l caps t) \<noteq> None"
proof -
  have "shut_down t" unfolding assms(5) by (rule run_shut) (simp add: shut_down_def assms(3,4))
  moreover have "route_sound t" using reached_sound [OF assms(1)] by (simp add: run_append assms(2,5))
  then have "sv_tasks t i \<noteq> Pinned n" if "sv_lease t = None" for i n
    using that by (auto simp: route_sound_def calls_ok_def clients_ok_def)
  ultimately show ?thesis by (simp add: shut_down_def activate_begin_def split: sum.split)
qed

subsection \<open>A call and the teardown it may miss\<close>

text \<open>The epoch never falls, and rises whenever a published route goes away.\<close>

definition passed :: "nat \<Rightarrow> service \<Rightarrow> bool" where
  "passed e s \<longleftrightarrow> e < sv_epoch s \<or> e = sv_epoch s \<and> sv_lease s \<noteq> None"

lemma publish_passed: "passed e s \<Longrightarrow> passed e (snd (publish i l caps c old s))"
  by (auto simp: publish_def passed_def)

lemma call_renewed_frame:
  "sv_epoch (snd (call_renewed i lid e touched now s)) = sv_epoch s"
  "sv_lease (snd (call_renewed i lid e touched now s)) = sv_lease s"
  by (simp_all add: call_renewed_def Let_def split: sum.split option.split)

lemma route_step_passed:
  assumes "passed e s" shows "passed e (route_step s ev)"
proof -
  have b: "passed e (become i p t) = passed e t" for i p t by (simp add: passed_def)
  have a: "passed e (s\<lparr>sv_accepting := x\<rparr>)" for x using assms by (simp add: passed_def)
  have p: "passed e (snd (publish i l caps c old s))" "passed e (snd (publish i l caps c old (s\<lparr>sv_accepting := x\<rparr>)))"
    for i l caps c old x using publish_passed assms a by blast+
  have f: "passed e (forget_route t)" if "sv_epoch t = sv_epoch s" for t
    using that assms by (auto simp: passed_def)
  have c: "passed e (close_remote_client k fails s)" for k fails using assms by (simp add: passed_def)
  show ?thesis
  proof (cases ev)
    case (Activate i m caps)
    then show ?thesis using assms by (auto simp: activate_begin_def passed_def split: sum.split)
  next
    case (Deactivate i lid require)
    then show ?thesis using assms f
      by (simp add: deactivate_begin_def deactivate_drained_def b Let_def split: option.split) (auto simp: passed_def)
  next
    case (Call i force_local allowed required now)
    then show ?thesis using assms a by (simp add: call_begin_def b split: option.split)
  next
    case (Proceed i)
    have dd: "passed e (deactivate_drained i lid s)" for lid
      using f assms by (simp add: deactivate_drained_def b split: option.split) (simp add: passed_def)
    then show ?thesis unfolding Proceed using assms p a
      by (simp add: activate_enter_def activate_wake_def deactivate_wake_def b split: task.split option.split)
  next
    case (Give_Up i)
    then show ?thesis using assms a by (simp add: activate_timeout_def b split: task.split)
  next
    case (Cancel i)
    then show ?thesis using assms by (simp add: b split: task.split)
  next
    case (Client_Closed i fails)
    then show ?thesis using assms f c
      by (simp add: deactivate_closed_def Let_def b split: task.split) (simp add: passed_def)
  next
    case (Renewed i touched now)
    then show ?thesis using assms by (simp add: passed_def call_renewed_frame split: task.split)
  next
    case (Call_Ended i)
    then show ?thesis using assms by (simp add: call_end_def passed_def split: task.split)
  next
    case Service_Closes
    then show ?thesis using assms by (simp add: close_admission_def passed_def)
  next
    case (Switch x config)
    then show ?thesis using assms by (auto simp: switch_backend_def passed_def)
  qed
qed

lemma run_passed: "passed e s \<Longrightarrow> passed e (run route_step s es)"
  by (induction es arbitrary: s) (simp_all add: route_step_passed)

lemma route_step_epoch: "sv_epoch s \<le> sv_epoch (route_step s ev)"
proof (cases "sv_lease s")
  case None
  have "sv_epoch (snd (publish i l caps c old t)) = sv_epoch t" for i l caps c old t
    by (simp add: publish_def)
  then show ?thesis using None
    by (cases ev) (simp_all add: activate_begin_def deactivate_begin_def call_begin_def activate_enter_def activate_wake_def
        deactivate_wake_def deactivate_drained_def activate_timeout_def deactivate_closed_def call_renewed_def call_end_def
        close_admission_def switch_backend_def Let_def split: sum.split task.split option.split)
next
  case (Some l)
  then have "passed (sv_epoch s) s" by (simp add: passed_def)
  from route_step_passed [OF this, of ev] show ?thesis by (auto simp: passed_def)
qed

lemma run_epoch: "sv_epoch s \<le> sv_epoch (run route_step s es)"
  by (induction es arbitrary: s) (auto intro: order_trans [OF route_step_epoch])

text \<open>
  A call that takes the private route runs only on the route it renewed: when it is pinned, no deactivation of any lease completed since it began, so a route
  was published at every moment in between; the route it is pinned to carries the lease it renewed,
  is not expired and was not draining, and the capabilities it needs were offered when it began.
\<close>

theorem pinned_call_saw_no_teardown:
  assumes "fst (call_begin i force_local allowed required now s) = Inr (Some e)"
    and "t = run route_step (snd (call_begin i force_local allowed required now s)) es"
    and "u = run route_step t later"
    and "fst (call_renewed i lid e touched after u) = Inr n"
  shows "sv_lease t \<noteq> None \<and> required \<subseteq> sv_caps s \<and>
    (\<exists>l. sv_lease u = Some l \<and> le_id l = lid \<and> sn_lease n = lid \<and> after < le_expires l) \<and>
    sv_accepting u \<and> sv_backend u = REMOTE_GPU \<and> sv_client u = Some (sn_client n) \<and>
    sv_tasks (snd (call_renewed i lid e touched after u)) i = Pinned n"
proof -
  let ?s = "snd (call_begin i force_local allowed required now s)"
  obtain l0 where l0: "sv_lease s = Some l0" and e: "e = sv_epoch s" and caps: "required \<subseteq> sv_caps s"
    and s1: "?s = become i (Renewing (le_id l0) (sv_epoch s)) s"
    using assms(1) by (auto simp: call_begin_def split: option.splits if_splits)
  have "passed e ?s" unfolding s1 using l0 e by (simp add: passed_def)
  then have p: "passed e t" unfolding assms(2) by (rule run_passed)
  have "sv_epoch u = e" and pin: "\<exists>l. sv_lease u = Some l \<and> le_id l = lid \<and> sn_lease n = lid \<and> after < le_expires l"
    "sv_accepting u" "sv_backend u = REMOTE_GPU" "sv_client u = Some (sn_client n)"
    "sv_tasks (snd (call_renewed i lid e touched after u)) i = Pinned n"
    using assms(4) by (auto simp: call_renewed_def Let_def split: sum.splits option.splits if_splits)
  moreover have "sv_epoch t \<le> sv_epoch u" unfolding assms(3) by (rule run_epoch)
  ultimately have "sv_lease t \<noteq> None" using p by (auto simp: passed_def)
  with caps pin show ?thesis by blast
qed

text \<open>With a lease published, a call that may use it is never answered with the cloud routes.\<close>

lemma leased_call_is_routed_or_refused:
  "sv_lease s \<noteq> None \<Longrightarrow> fst (call_begin i False True required now s) \<noteq> Inr None"
  by (auto simp: call_begin_def split: if_splits)

subsection \<open>Teardown\<close>

text \<open>
  A deactivation that succeeds leaves no route, and it closes the client only after the last call on it
  has ended.
\<close>

lemma deactivation_closes_the_idle_client:
  assumes "route_trace b es" and "s = route_run b es" and "sv_tasks s i = Retiring lid c"
  shows "(\<forall>j n. sv_tasks s j \<noteq> Pinned n) \<and> sv_client s = Some c \<and>
    (let t = route_step s (Client_Closed i False)
     in sv_lease t = None \<and> sv_client t = None \<and> cl_number c \<in> sv_retired t \<and> sv_epoch t = Suc (sv_epoch s))"
proof -
  have s: "route_sound s" unfolding assms(2) by (rule reached_sound [OF assms(1)])
  then have c: "sv_client s = Some c" and z: "sv_inflight s = 0" using assms(3) by (auto simp: route_sound_def holder_ok_def)
  have "sv_tasks s j \<noteq> Pinned n" for j n
  proof
    assume "sv_tasks s j = Pinned n"
    then have "0 < sv_inflight s"
      using s count_at_pos [where P = pinned and pcs = "sv_tasks s" and t = j] by (simp add: route_sound_def calls_ok_def)
    with z show False by simp
  qed
  with c show ?thesis by (simp add: assms(3) deactivate_closed_def Let_def)
qed

subsection \<open>Witnesses\<close>

definition demo_route :: inference_route where
  "demo_route = \<lparr>ro_protocol = ''openai'', ro_endpoint = ''https://gpu/v1/'', ro_api_key = Some ''k'', ro_headers = []\<rparr>"

definition demo_lease :: "string \<Rightarrow> lease_state \<Rightarrow> int \<Rightarrow> int \<Rightarrow> inference_lease" where
  "demo_lease lid st upd until = \<lparr>le_id = lid, le_quote = ''q'', le_request = ''r'', le_owner = ''agent'', le_provider = ''runpod'',
     le_state = st, le_model = ''qwen'', le_runtime = ''ollama'', le_privacy = AUTHENTICATED_ENDPOINT,
     le_created = 0, le_updated = upd, le_expires = until, le_region = None, le_hourly = None, le_estimated = None,
     le_route = (if st = READY then Some demo_route else None), le_failure = None, le_metadata = J_Null\<rparr>"

text \<open>
  A lease is activated, task 1 calls on it while task 2 tears it down: the teardown waits for the call,
  then closes the client. The service closes afterwards.
\<close>

definition demo_ready :: inference_lease where
  "demo_ready = demo_lease ''L'' READY 1 100"

definition demo_call :: "route_event list" where
  "demo_call = [Activate 0 demo_ready {''chat''}, Proceed 0, Call 1 False True {''chat''} 5,
     Renewed 1 (Inr (Some demo_ready)) 6]"

definition demo_teardown :: "route_event list" where
  "demo_teardown = demo_call @ [Deactivate 2 ''L'' False, Call_Ended 1, Proceed 2, Client_Closed 2 False]"

lemmas demo_route_defs = demo_route_def demo_lease_def demo_ready_def demo_call_def demo_teardown_def

lemma pinned_calls_keep_their_client_witness:
  "sv_inflight (route_run (Other_Backend ''cloud'') demo_call) = 1 \<and>
   (\<exists>n. sv_tasks (route_run (Other_Backend ''cloud'') demo_call) 1 = Pinned n \<and>
      sv_client (route_run (Other_Backend ''cloud'') demo_call) = Some (sn_client n) \<and>
      cl_number (sn_client n) \<notin> sv_retired (route_run (Other_Backend ''cloud'') demo_call))"
proof -
  have ok: "route_trace (Other_Backend ''cloud'') demo_call" by code_simp
  have "pinned (sv_tasks (route_run (Other_Backend ''cloud'') demo_call) 1)" by code_simp
  then obtain n where "sv_tasks (route_run (Other_Backend ''cloud'') demo_call) 1 = Pinned n" by (auto simp: pinned_iff)
  moreover have "sv_inflight (route_run (Other_Backend ''cloud'') demo_call) = 1" by code_simp
  ultimately show ?thesis using pinned_calls_keep_their_client [OF ok refl] by blast
qed

abbreviation demo_final :: service where
  "demo_final \<equiv> route_run (Other_Backend ''cloud'') demo_teardown"

lemma demo_final_idle: "\<forall>i. sv_tasks demo_final i = Idle"
proof
  fix i
  show "sv_tasks demo_final i = Idle" by (code_simp, simp)
qed

lemma demo_final_trace: "route_trace (Other_Backend ''cloud'') demo_teardown"
  by code_simp

lemma demo_final_down: "sv_lease demo_final = None"
  by code_simp

lemma every_client_is_closed_witness:
  "sv_retired demo_final \<union> sv_failed demo_final = {..< sv_made demo_final} \<and> sv_made demo_final = 1"
proof -
  have "sv_made demo_final = 1" by code_simp
  with every_client_is_closed [OF demo_final_trace refl demo_final_down demo_final_idle] show ?thesis by blast
qed

lemma closed_service_never_routes_witness:
  "sv_lease (run route_step (route_run (Other_Backend ''cloud'') (demo_teardown @ [Service_Closes]))
     [Activate 3 demo_ready {}, Proceed 3]) = None \<and>
   fst (activate_begin 4 demo_ready {} (run route_step (route_run (Other_Backend ''cloud'') (demo_teardown @ [Service_Closes]))
     [Activate 3 demo_ready {}, Proceed 3])) \<noteq> None"
proof -
  have t: "route_trace (Other_Backend ''cloud'') ((demo_teardown @ [Service_Closes]) @ [Activate 3 demo_ready {}, Proceed 3])"
    by code_simp
  have c: "sv_route_closed (route_run (Other_Backend ''cloud'') (demo_teardown @ [Service_Closes]))" by code_simp
  have l: "sv_lease (route_run (Other_Backend ''cloud'') (demo_teardown @ [Service_Closes])) = None" by code_simp
  from closed_service_never_routes [OF t refl c l refl] show ?thesis by blast
qed

definition demo_up :: service where
  "demo_up = route_run (Other_Backend ''cloud'') [Activate 0 demo_ready {''chat''}, Proceed 0]"

lemma pinned_call_saw_no_teardown_witness:
  "\<exists>n. sv_tasks (snd (call_renewed 1 ''L'' 0 (Inr (Some demo_ready)) 6
      (snd (call_begin 1 False True {''chat''} 5 demo_up)))) 1 = Pinned n"
proof -
  have b: "fst (call_begin 1 False True {''chat''} 5 demo_up) = Inr (Some 0)" by code_simp
  have "\<exists>n. fst (call_renewed 1 ''L'' 0 (Inr (Some demo_ready)) 6 (snd (call_begin 1 False True {''chat''} 5 demo_up))) = Inr n"
  proof -
    have "\<not> isl (fst (call_renewed 1 ''L'' 0 (Inr (Some demo_ready)) 6 (snd (call_begin 1 False True {''chat''} 5 demo_up))))"
      by code_simp
    then show ?thesis by (metis isl_def sum.exhaust)
  qed
  then obtain n where n: "fst (call_renewed 1 ''L'' 0 (Inr (Some demo_ready)) 6
      (run route_step (run route_step (snd (call_begin 1 False True {''chat''} 5 demo_up)) []) [])) = Inr n"
    by auto
  from pinned_call_saw_no_teardown [OF b refl refl n] show ?thesis by auto
qed

end
