(* ===== verification/Inference_Leases.thy ===== *)
theory Inference_Leases
  imports Remote_Route "HOL-Library.Product_Lexorder" "HOL-Library.List_Lexorder" "HOL-Library.Char_ord"
begin

text \<open>
  Model of \<open>kestrel_sovereign/llm/inference_leases.py\<close>: the coordinator that keeps one owner-scoped
  inference lease of an external provider, its durable record, and the private route of the service
  (\<open>Remote_Route\<close>) in step. The coordinator's lock makes its operations sequential; calls of the service
  run while it waits. The providers, the validators of the SDK and the storage are arguments, and a log
  records every effect in order: what was stored, which provider was asked for what, what was routed.
\<close>

subsection \<open>Requests, quotes and records\<close>

record lease_request =
  rq_id :: string
  rq_owner :: string
  rq_model :: string
  rq_runtime :: string
  rq_max_hourly :: rat
  rq_max_total :: rat
  rq_privacy :: lease_privacy
  rq_caps :: "string list"
  rq_regions :: "string list"
  rq_concurrency :: int
  rq_session_seconds :: int
  rq_idle_ttl :: int
  rq_ready_deadline :: int
  rq_requested :: int
  rq_metadata :: jval

record lease_quote =
  qu_id :: string
  qu_request :: string
  qu_provider :: string
  qu_runtime :: string
  qu_region :: string
  qu_privacy :: lease_privacy
  qu_hourly :: rat
  qu_total :: rat
  qu_ready :: int
  qu_expires :: int
  qu_metadata :: jval

record lease_record =
  lr_provider :: string
  lr_request :: lease_request
  lr_quote :: lease_quote
  lr_lease :: "inference_lease option"

subsection \<open>Arguments\<close>

text \<open>
  What a provider raises: an execution-control error, which the coordinator always lets through, or any
  other. The first argument of an operation numbers the call, so a provider may answer as it likes.
\<close>

datatype provider_exn = Control | Failure

record lease_provider =
  pv_name :: string
  pv_available :: "nat \<Rightarrow> provider_exn + bool"
  pv_satisfies :: "nat \<Rightarrow> lease_request \<Rightarrow> provider_exn + bool"
  pv_quote :: "nat \<Rightarrow> lease_request \<Rightarrow> provider_exn + lease_quote"
  pv_acquire :: "nat \<Rightarrow> lease_request \<Rightarrow> lease_quote \<Rightarrow> provider_exn + inference_lease"
  pv_status :: "nat \<Rightarrow> string \<Rightarrow> string \<Rightarrow> provider_exn + inference_lease"
  pv_touch :: "nat \<Rightarrow> string \<Rightarrow> string \<Rightarrow> provider_exn + inference_lease"
  pv_release :: "nat \<Rightarrow> string \<Rightarrow> string \<Rightarrow> provider_exn + inference_lease"

text \<open>
  The SDK's \<open>validate_for\<close> of quotes and leases, \<open>assert_owner\<close> and \<open>is_terminal\<close>; the admission check
  \<open>require_execution_work\<close>; the storage, which may fail; what the calls of the service do while the
  coordinator waits, and whether closing a client fails.
\<close>

record lease_world =
  lw_quote_valid :: "lease_request \<Rightarrow> lease_quote \<Rightarrow> bool"
  lw_lease_valid :: "lease_request \<Rightarrow> lease_quote \<Rightarrow> inference_lease \<Rightarrow> bool"
  lw_owner_ok :: "string \<Rightarrow> inference_lease \<Rightarrow> bool"
  lw_terminal :: "lease_state \<Rightarrow> bool"
  lw_admitted :: "nat \<Rightarrow> bool"
  lw_store_fails :: "nat \<Rightarrow> provider_exn option"
  lw_calls :: "nat \<Rightarrow> nat \<Rightarrow> service \<Rightarrow> service"
  lw_close_fails :: "nat \<Rightarrow> bool"

datatype lease_error = Execution_Control | Not_Found | Owner_Mismatch | Lease_Rejected | Identifier_Changed
  | Bad_Transition lease_state lease_state | Stale_State | No_Durable_Storage | Not_Saved
  | Unsupported_Schema | Malformed_State | Provider_Mismatch | Not_Installed string
  | Could_Not string | Acquisition_In_Progress | Release_First | No_Valid_Quote | Only_Ready_Renewed
  | Llm llm_error

subsection \<open>The stored state\<close>

text \<open>
  \<open>to_persisted_dict\<close> without its text encoding: the public rendering of a lease has no route. A member
  of the wrong shape, or one that a constructor of the SDK refuses, is unreadable.
\<close>

datatype 'a stored = Unreadable | Absent | Stored 'a

record payload =
  pl_version :: int
  pl_provider :: "string stored"
  pl_request :: "lease_request stored"
  pl_quote :: "lease_quote stored"
  pl_lease :: "inference_lease stored"

definition public_lease :: "inference_lease \<Rightarrow> inference_lease" where
  "public_lease l = l\<lparr>le_route := None\<rparr>"

definition to_persisted_dict :: "lease_record \<Rightarrow> payload" where
  "to_persisted_dict r = \<lparr>pl_version = 1, pl_provider = Stored (lr_provider r), pl_request = Stored (lr_request r),
     pl_quote = Stored (lr_quote r),
     pl_lease = (case lr_lease r of None \<Rightarrow> Absent | Some l \<Rightarrow> Stored (public_lease l))\<rparr>"

text \<open>\<open>_request_from_public_dict\<close> and \<open>_lease_reference_from_public_dict\<close>: the owner is the reader's.\<close>

definition request_from_public :: "string \<Rightarrow> lease_request \<Rightarrow> lease_request" where
  "request_from_public owner r = r\<lparr>rq_owner := owner\<rparr>"

definition lease_reference :: "string \<Rightarrow> inference_lease \<Rightarrow> inference_lease" where
  "lease_reference owner l =
     (let state = (if le_state l = READY then PENDING else le_state l)
      in l\<lparr>le_owner := owner, le_state := state, le_route := None,
          le_failure := (if state = FAILED then le_failure l else None)\<rparr>)"

definition from_persisted_dict :: "lease_world \<Rightarrow> payload \<Rightarrow> string \<Rightarrow> lease_error + lease_record" where
  "from_persisted_dict w p owner =
     (if pl_version p \<noteq> 1 then Inl Unsupported_Schema
      else case (pl_provider p, pl_request p, pl_quote p) of
        (Stored name, Stored rq, Stored qu) \<Rightarrow>
          (let request = request_from_public owner rq;
               found = (case pl_lease p of Stored l \<Rightarrow> Some (lease_reference owner l) | _ \<Rightarrow> None)
           in if pl_lease p = Unreadable then Inl Malformed_State
              else if qu_provider qu \<noteq> name then Inl Provider_Mismatch
              else if (case found of Some l \<Rightarrow> \<not> lw_lease_valid w request qu l | None \<Rightarrow> False) then Inl Lease_Rejected
              else Inr \<lparr>lr_provider = name, lr_request = request, lr_quote = qu, lr_lease = found\<rparr>)
      | _ \<Rightarrow> Inl Malformed_State)"

subsection \<open>The coordinator\<close>

datatype lease_effect =
    Persisted "payload option"
  | Write_Failed
  | Quote_Asked string lease_request
  | Acquire_Called string lease_request lease_quote
  | Status_Called string string string
  | Touch_Called string string string
  | Release_Called string string string
  | Routed inference_lease
  | Route_Failed inference_lease
  | Unrouted string
  | Drain_Failed string

record coordinator =
  co_owner :: string
  co_providers :: "(string, lease_provider) dict"
  co_durable :: bool
  co_record :: "lease_record option"
  co_stored :: "payload option"
  co_service :: service
  co_log :: "lease_effect list"

definition note_effect :: "lease_effect \<Rightarrow> coordinator \<Rightarrow> coordinator" where
  "note_effect f c = c\<lparr>co_log := co_log c @ [f]\<rparr>"

definition tick :: "coordinator \<Rightarrow> nat" where
  "tick c = length (co_log c)"

definition persist :: "lease_world \<Rightarrow> coordinator \<Rightarrow> lease_error option \<times> coordinator" where
  "persist w c =
     (if \<not> co_durable c then (Some No_Durable_Storage, c)
      else let p = map_option to_persisted_dict (co_record c)
        in case lw_store_fails w (tick c) of
             None \<Rightarrow> (None, note_effect (Persisted p) (c\<lparr>co_stored := p\<rparr>))
           | Some Control \<Rightarrow> (Some Execution_Control, note_effect Write_Failed c)
           | Some Failure \<Rightarrow> (Some Not_Saved, note_effect Write_Failed c))"

definition find_provider :: "coordinator \<Rightarrow> string \<Rightarrow> lease_provider option" where
  "find_provider c name = dict_get (co_providers c) name"

definition ALLOWED_TRANSITIONS :: "lease_state \<Rightarrow> lease_state set" where
  "ALLOWED_TRANSITIONS s = (case s of
      PENDING \<Rightarrow> {PENDING, READY, FAILED, RELEASING, RELEASED, EXPIRED}
    | READY \<Rightarrow> {READY, FAILED, RELEASING, RELEASED, EXPIRED}
    | RELEASING \<Rightarrow> {RELEASING, RELEASED, EXPIRED, FAILED}
    | FAILED \<Rightarrow> {FAILED, RELEASING}
    | RELEASED \<Rightarrow> {RELEASED, RELEASING}
    | EXPIRED \<Rightarrow> {EXPIRED, RELEASING})"

definition validate_transition :: "inference_lease option \<Rightarrow> inference_lease \<Rightarrow> lease_error option" where
  "validate_transition previous current =
     (case previous of None \<Rightarrow> None
      | Some p \<Rightarrow>
        if le_id current \<noteq> le_id p then Some Identifier_Changed
        else if le_state current \<notin> ALLOWED_TRANSITIONS (le_state p) then Some (Bad_Transition (le_state p) (le_state current))
        else if le_updated current < le_updated p then Some Stale_State
        else None)"

subsection \<open>The route of the service, as the coordinator calls it\<close>

text \<open>
  The coordinator runs as task 0 of the service. It waits at two points: for the condition, and for the
  calls in flight; \<open>calls k\<close> is what the calls do during the wait \<open>k\<close>. An unbounded wait belongs to the
  shutdown of the service, which does not return to the coordinator before the calls have ended.
\<close>

definition manager :: nat where
  "manager = 0"

definition drain_refresh ::
  "(nat \<Rightarrow> service \<Rightarrow> service) \<Rightarrow> inference_lease \<Rightarrow> string set \<Rightarrow> client \<Rightarrow> llm_error option \<times> service \<Rightarrow> llm_error option \<times> service" where
  "drain_refresh calls l caps c entered =
     (case sv_tasks (snd entered) manager of
        Refreshing _ _ _ \<Rightarrow>
          (let s = calls 1 (snd entered)
           in if sv_inflight s = 0 then activate_wake manager l caps c s else activate_timeout manager c s)
      | _ \<Rightarrow> entered)"

definition finish_activation :: "bool \<Rightarrow> llm_error option \<times> service \<Rightarrow> llm_error option \<times> service" where
  "finish_activation close_fails r =
     (if fst r = None \<and> close_fails \<and> sv_tasks (snd r) manager \<noteq> Idle then Some Close_Control else fst r,
      client_closed manager close_fails (snd r))"

definition activate_inference_lease ::
  "(nat \<Rightarrow> service \<Rightarrow> service) \<Rightarrow> bool \<Rightarrow> inference_lease \<Rightarrow> string set \<Rightarrow> service \<Rightarrow> llm_error option \<times> service" where
  "activate_inference_lease calls close_fails l caps s =
     (let started = activate_begin manager l caps s
      in case sv_tasks (snd started) manager of
           Entering _ _ c \<Rightarrow>
             finish_activation close_fails
               (drain_refresh calls l caps c (activate_enter manager l caps c (calls 0 (snd started))))
         | _ \<Rightarrow> started)"

definition drain_deactivation ::
  "(nat \<Rightarrow> service \<Rightarrow> service) \<Rightarrow> string \<Rightarrow> llm_error option \<times> service \<Rightarrow> llm_error option \<times> service" where
  "drain_deactivation calls lid started =
     (case sv_tasks (snd started) manager of
        Leaving _ _ \<Rightarrow>
          (let s = calls 1 (snd started)
           in if sv_inflight s = 0 then (None, deactivate_drained manager lid s)
              else (Some Drain_Timed_Out, become manager Idle s))
      | _ \<Rightarrow> started)"

definition deactivate_inference_lease ::
  "(nat \<Rightarrow> service \<Rightarrow> service) \<Rightarrow> bool \<Rightarrow> string \<Rightarrow> bool \<Rightarrow> service \<Rightarrow> llm_error option \<times> service" where
  "deactivate_inference_lease calls close_fails lid require_active s =
     (let drained = drain_deactivation calls lid (deactivate_begin manager lid require_active s)
      in case sv_tasks (snd drained) manager of
           Retiring _ c \<Rightarrow> deactivate_closed manager c close_fails (snd drained)
         | _ \<Rightarrow> drained)"

definition route_lease :: "lease_world \<Rightarrow> inference_lease \<Rightarrow> string list \<Rightarrow> coordinator \<Rightarrow> lease_error option \<times> coordinator" where
  "route_lease w l caps c =
     (case activate_inference_lease (lw_calls w (tick c)) (lw_close_fails w (tick c)) l (set caps) (co_service c) of
        (None, s) \<Rightarrow> (None, note_effect (Routed l) (c\<lparr>co_service := s\<rparr>))
      | (Some e, s) \<Rightarrow> (Some (Llm e), note_effect (Route_Failed l) (c\<lparr>co_service := s\<rparr>)))"

definition unroute_lease :: "lease_world \<Rightarrow> string \<Rightarrow> coordinator \<Rightarrow> lease_error option \<times> coordinator" where
  "unroute_lease w lid c =
     (case deactivate_inference_lease (lw_calls w (tick c)) (lw_close_fails w (tick c)) lid False (co_service c) of
        (None, s) \<Rightarrow> (None, note_effect (Unrouted lid) (c\<lparr>co_service := s\<rparr>))
      | (Some e, s) \<Rightarrow> (Some (Llm e), note_effect (Drain_Failed lid) (c\<lparr>co_service := s\<rparr>)))"

subsection \<open>Operations\<close>

type_synonym lease_result = "(lease_error + inference_lease) \<times> coordinator"

text \<open>\<open>_apply_provider_lease\<close>: nothing the provider says counts before it is valid and stored.\<close>

definition apply_provider_lease :: "lease_world \<Rightarrow> lease_record \<Rightarrow> inference_lease \<Rightarrow> coordinator \<Rightarrow> lease_result" where
  "apply_provider_lease w r l c =
     (if \<not> lw_owner_ok w (co_owner c) l then (Inl Owner_Mismatch, c)
      else if \<not> lw_lease_valid w (lr_request r) (lr_quote r) l then (Inl Lease_Rejected, c)
      else case validate_transition (lr_lease r) l of Some e \<Rightarrow> (Inl e, c)
      | None \<Rightarrow>
        (case persist w (c\<lparr>co_record := Some (r\<lparr>lr_lease := Some l\<rparr>)\<rparr>) of
           (Some e, c1) \<Rightarrow> (Inl e, c1)
         | (None, c1) \<Rightarrow>
           if le_state l = PENDING then (Inr l, c1)
           else (case (if le_state l = READY then route_lease w l (rq_caps (lr_request r)) c1
                       else unroute_lease w (le_id l) c1) of
                   (None, c2) \<Rightarrow> (Inr l, c2)
                 | (Some e, c2) \<Rightarrow> (Inl e, c2))))"

text \<open>The answer of a provider call, with the error the coordinator makes of an exception.\<close>

definition after_call ::
  "lease_world \<Rightarrow> lease_record \<Rightarrow> string \<Rightarrow> provider_exn + inference_lease \<Rightarrow> coordinator \<Rightarrow> lease_result" where
  "after_call w r purpose answer c =
     (case answer of Inl Control \<Rightarrow> (Inl Execution_Control, c)
      | Inl Failure \<Rightarrow> (Inl (Could_Not purpose), c)
      | Inr l \<Rightarrow> apply_provider_lease w r l c)"

definition refresh_provider_lease :: "lease_world \<Rightarrow> lease_record \<Rightarrow> string \<Rightarrow> coordinator \<Rightarrow> lease_result" where
  "refresh_provider_lease w r purpose c =
     (case lr_lease r of None \<Rightarrow> (Inl Not_Found, c)
      | Some p \<Rightarrow>
        (case find_provider c (lr_provider r) of None \<Rightarrow> (Inl (Not_Installed (lr_provider r)), c)
         | Some v \<Rightarrow> after_call w r purpose (pv_status v (tick c) (co_owner c) (le_id p))
             (note_effect (Status_Called (lr_provider r) (co_owner c) (le_id p)) c)))"

text \<open>The provider call of an acquisition, made for the first time or resumed.\<close>

definition call_acquire :: "lease_world \<Rightarrow> lease_record \<Rightarrow> string \<Rightarrow> coordinator \<Rightarrow> lease_result" where
  "call_acquire w r purpose c =
     (case find_provider c (lr_provider r) of None \<Rightarrow> (Inl (Not_Installed (lr_provider r)), c)
      | Some v \<Rightarrow>
        if \<not> lw_admitted w (tick c) then (Inl Execution_Control, c)
        else after_call w r purpose (pv_acquire v (tick c) (lr_request r) (lr_quote r))
          (note_effect (Acquire_Called (lr_provider r) (lr_request r) (lr_quote r)) c))"

definition restore :: "lease_world \<Rightarrow> payload option \<Rightarrow> coordinator \<Rightarrow> (lease_error + inference_lease option) \<times> coordinator" where
  "restore w p c =
     (case p of None \<Rightarrow> (Inr None, c)
      | Some d \<Rightarrow>
        if \<not> lw_admitted w (tick c) then (Inl Execution_Control, c)
        else case from_persisted_dict w d (co_owner c) of Inl e \<Rightarrow> (Inl e, c)
        | Inr r \<Rightarrow>
          (let c1 = c\<lparr>co_record := Some r\<rparr>
           in case (if lr_lease r \<noteq> None then refresh_provider_lease w r ''reconcile persisted state'' c1
                    else call_acquire w r ''reconcile persisted state'' c1) of
                (Inl e, c2) \<Rightarrow> (Inl e, c2)
              | (Inr l, c2) \<Rightarrow> (Inr (Some l), c2)))"

text \<open>
  \<open>_quote_provider\<close>: \<open>Inr None\<close> is a provider that does not take part; only execution control gets out.
\<close>

definition quote_provider :: "lease_world \<Rightarrow> lease_provider \<Rightarrow> lease_request \<Rightarrow> coordinator \<Rightarrow> (lease_error + lease_quote option) \<times> coordinator" where
  "quote_provider w v rq c =
     (let n = tick c; asked = note_effect (Quote_Asked (pv_name v) rq) c
      in case pv_available v n of Inl Control \<Rightarrow> (Inl Execution_Control, c) | Inl Failure \<Rightarrow> (Inr None, c)
      | Inr False \<Rightarrow> (Inr None, c)
      | Inr True \<Rightarrow>
        (case pv_satisfies v n rq of Inl Control \<Rightarrow> (Inl Execution_Control, c) | Inl Failure \<Rightarrow> (Inr None, c)
         | Inr False \<Rightarrow> (Inr None, c)
         | Inr True \<Rightarrow>
           if \<not> lw_admitted w n then (Inl Execution_Control, c)
           else (case pv_quote v n rq of Inl Control \<Rightarrow> (Inl Execution_Control, asked) | Inl Failure \<Rightarrow> (Inr None, asked)
                 | Inr q \<Rightarrow>
                   if lw_quote_valid w rq q \<and> qu_provider q = lower (strip (pv_name v)) then (Inr (Some q), asked)
                   else (Inr None, asked))))"

text \<open>
  The code gathers the quotes concurrently; here the providers are asked in the order of their names
  and the first error of control ends it, which is one of the schedules of the code.
\<close>

fun gather_quotes :: "lease_world \<Rightarrow> (string \<times> lease_provider) list \<Rightarrow> lease_request \<Rightarrow> coordinator \<Rightarrow> (lease_error + lease_quote list) \<times> coordinator" where
  "gather_quotes w [] rq c = (Inr [], c)"
| "gather_quotes w (nv # vs) rq c =
     (case quote_provider w (snd nv) rq c of
        (Inl e, c1) \<Rightarrow> (Inl e, c1)
      | (Inr q, c1) \<Rightarrow>
        (case gather_quotes w vs rq c1 of
           (Inl e, c2) \<Rightarrow> (Inl e, c2)
         | (Inr qs, c2) \<Rightarrow> (Inr ((case q of None \<Rightarrow> [] | Some x \<Rightarrow> [x]) @ qs), c2)))"

text \<open>The key of \<open>min\<close>: total cost, time to ready, hourly cost, name; the first of equals wins.\<close>

definition quote_key :: "lease_quote \<Rightarrow> rat \<times> int \<times> rat \<times> string" where
  "quote_key q = (qu_total q, qu_ready q, qu_hourly q, qu_provider q)"

definition cheapest :: "lease_quote list \<Rightarrow> lease_quote" where
  "cheapest qs = arg_min_list quote_key qs"

text \<open>The part of \<open>acquire\<close> that starts a new acquisition: quotes, the plan on disk, the provider.\<close>

definition acquire_new :: "lease_world \<Rightarrow> lease_request \<Rightarrow> coordinator \<Rightarrow> lease_result" where
  "acquire_new w rq c =
     (case gather_quotes w (sort_key fst (co_providers c)) rq c of
        (Inl e, c1) \<Rightarrow> (Inl e, c1)
      | (Inr [], c1) \<Rightarrow> (Inl No_Valid_Quote, c1)
      | (Inr (q # qs), c1) \<Rightarrow>
        (let best = cheapest (q # qs);
             r = \<lparr>lr_provider = qu_provider best, lr_request = rq, lr_quote = best, lr_lease = None\<rparr>
         in case persist w (c1\<lparr>co_record := Some r\<rparr>) of
              (Some e, c2) \<Rightarrow> (Inl e, c2)
            | (None, c2) \<Rightarrow> call_acquire w r ''acquire capacity'' c2))"

definition acquire :: "lease_world \<Rightarrow> lease_request \<Rightarrow> coordinator \<Rightarrow> lease_result" where
  "acquire w rq c =
     (if rq_owner rq \<noteq> co_owner c then (Inl Owner_Mismatch, c)
      else if \<not> lw_admitted w (tick c) then (Inl Execution_Control, c)
      else case co_record c of None \<Rightarrow> acquire_new w rq c
      | Some previous \<Rightarrow>
        (case lr_lease previous of
           None \<Rightarrow>
             if rq_id (lr_request previous) \<noteq> rq_id rq then (Inl Acquisition_In_Progress, c)
             else call_acquire w previous ''resume acquisition'' c
         | Some l \<Rightarrow>
             (case (if lw_terminal w (le_state l)
                    then refresh_provider_lease w previous ''reconcile original lease before replacement'' c
                    else (Inr l, c)) of
                (Inl e, c1) \<Rightarrow> (Inl e, c1)
              | (Inr l1, c1) \<Rightarrow>
                if \<not> lw_terminal w (le_state l1) then (Inl Release_First, c1) else acquire_new w rq c1)))"

definition record_for_lease :: "lease_world \<Rightarrow> string \<Rightarrow> coordinator \<Rightarrow> lease_error + lease_record \<times> inference_lease" where
  "record_for_lease w lid c =
     (case co_record c of None \<Rightarrow> Inl Not_Found
      | Some r \<Rightarrow>
        (case lr_lease r of None \<Rightarrow> Inl Not_Found
         | Some l \<Rightarrow>
           if le_id l \<noteq> lid then Inl Not_Found
           else if \<not> lw_owner_ok w (co_owner c) l then Inl Owner_Mismatch
           else Inr (r, l)))"

definition lease_status :: "lease_world \<Rightarrow> string \<Rightarrow> coordinator \<Rightarrow> lease_result" where
  "lease_status w lid c =
     (if \<not> lw_admitted w (tick c) then (Inl Execution_Control, c)
      else case record_for_lease w lid c of Inl e \<Rightarrow> (Inl e, c)
      | Inr (r, l) \<Rightarrow> refresh_provider_lease w r ''report lease status'' c)"

definition touch :: "lease_world \<Rightarrow> string \<Rightarrow> coordinator \<Rightarrow> lease_result" where
  "touch w lid c =
     (case record_for_lease w lid c of Inl e \<Rightarrow> (Inl e, c)
      | Inr (r, l) \<Rightarrow>
        if le_state l \<noteq> READY then (Inl Only_Ready_Renewed, c)
        else (case find_provider c (lr_provider r) of None \<Rightarrow> (Inl (Not_Installed (lr_provider r)), c)
              | Some v \<Rightarrow>
                if \<not> lw_admitted w (tick c) then (Inl Execution_Control, c)
                else after_call w r ''renew the lease idle deadline'' (pv_touch v (tick c) (co_owner c) lid)
                  (note_effect (Touch_Called (lr_provider r) (co_owner c) lid) c)))"

text \<open>The tail of \<open>release\<close>: routing goes first, then the plan to release is stored, then the provider is told.\<close>

definition release_live :: "lease_world \<Rightarrow> lease_record \<Rightarrow> inference_lease \<Rightarrow> string \<Rightarrow> int \<Rightarrow> coordinator \<Rightarrow> lease_result" where
  "release_live w r current lid now c =
     (case unroute_lease w lid c of (Some e, c1) \<Rightarrow> (Inl e, c1)
      | (None, c1) \<Rightarrow>
        (let releasing = current\<lparr>le_state := RELEASING, le_route := None, le_failure := None, le_updated := now\<rparr>;
             r' = r\<lparr>lr_lease := Some releasing\<rparr>
         in case persist w (c1\<lparr>co_record := Some r'\<rparr>) of (Some e, c2) \<Rightarrow> (Inl e, c2)
         | (None, c2) \<Rightarrow>
           (case find_provider c2 (lr_provider r) of None \<Rightarrow> (Inl (Not_Installed (lr_provider r)), c2)
            | Some v \<Rightarrow> after_call w r' ''release capacity'' (pv_release v (tick c2) (co_owner c2) lid)
                (note_effect (Release_Called (lr_provider r) (co_owner c2) lid) c2))))"

definition release :: "lease_world \<Rightarrow> string \<Rightarrow> int \<Rightarrow> coordinator \<Rightarrow> lease_result" where
  "release w lid now c =
     (case record_for_lease w lid c of Inl e \<Rightarrow> (Inl e, c)
      | Inr (r, l) \<Rightarrow>
        (case (if lw_terminal w (le_state l)
               then refresh_provider_lease w r ''reconcile original cleanup state'' c
               else (Inr l, c)) of
           (Inl e, c1) \<Rightarrow> (Inl e, c1)
         | (Inr current, c1) \<Rightarrow>
           if le_state current \<in> {RELEASED, EXPIRED} then (Inr current, c1)
           else release_live w r current lid now c1))"

text \<open>A restart: a new coordinator and a new service, the storage as it was; the owner and the log stay.\<close>

definition restart :: "lease_world \<Rightarrow> backend \<Rightarrow> coordinator \<Rightarrow> (lease_error + inference_lease option) \<times> coordinator" where
  "restart w b c = restore w (co_stored c) (c\<lparr>co_record := None, co_service := new_service b\<rparr>)"

end
