(* ===== verification/Lease_Safety.thy ===== *)
theory Lease_Safety
  imports Inference_Leases
begin

text \<open>
  What the coordinator keeps: the route of the service is always the route of the lease it records, every
  operation that answers with a lease leaves exactly that lease's route, and the log of effects is ordered
  so that a crash between any two effects leaves the provider's state in the record.
\<close>

subsection \<open>Assumptions on the arguments\<close>

text \<open>Calls of the service do not change its lease.\<close>

definition calls_only :: "lease_world \<Rightarrow> bool" where
  "calls_only w \<longleftrightarrow> (\<forall>n k s. sv_lease (lw_calls w n k s) = sv_lease s)"

definition terminal_states :: "lease_world \<Rightarrow> bool" where
  "terminal_states w \<longleftrightarrow> (\<forall>st. lw_terminal w st = (st \<in> {FAILED, RELEASED, EXPIRED}))"

subsection \<open>Activation and deactivation as the coordinator sees them\<close>

lemma become_fields [simp]:
  "sv_lease (become i p s) = sv_lease s" "sv_tasks (become i p s) = (sv_tasks s)(i := p)"
  by (simp_all add: become_def)

lemma close_fields [simp]:
  "sv_lease (close_remote_client c fails s) = sv_lease s" "sv_tasks (close_remote_client c fails s) = sv_tasks s"
  by (simp_all add: close_remote_client_def)

text \<open>
  An activation under way: the lease is published (the task may still close the client it replaced), or
  refused (the task closes the client it built).
\<close>

definition settled_route :: "inference_lease \<Rightarrow> inference_lease option \<Rightarrow> llm_error option \<times> service \<Rightarrow> bool" where
  "settled_route l before r \<longleftrightarrow>
     fst r = None \<and> sv_lease (snd r) = Some l \<and> (sv_tasks (snd r) manager = Idle \<or> (\<exists>d. sv_tasks (snd r) manager = Replacing d)) \<or>
     fst r \<noteq> None \<and> sv_lease (snd r) = before \<and> (\<exists>d. sv_tasks (snd r) manager = Discarding d)"

lemma publish_settles: "settled_route l (sv_lease s) (publish manager l caps c old s)"
  by (simp add: settled_route_def publish_def split: option.split)

lemma discard_settles:
  "sv_lease s = before \<Longrightarrow> e \<noteq> None \<Longrightarrow> settled_route l before (e, become manager (Discarding c) s)"
  by (simp add: settled_route_def)

lemma activate_enter_settles:
  "settled_route l (sv_lease s) (activate_enter manager l caps c s) \<or>
   sv_lease (snd (activate_enter manager l caps c s)) = sv_lease s \<and>
   sv_tasks (snd (activate_enter manager l caps c s)) manager = Refreshing l caps c"
proof (cases "sv_lease s")
  case None
  then show ?thesis using publish_settles [of l s caps c None] by (simp add: activate_enter_def discard_settles)
next
  case (Some a)
  then show ?thesis using publish_settles [of l "s\<lparr>sv_accepting := False\<rparr>" caps c "sv_client s"]
    by (simp add: activate_enter_def discard_settles)
qed

lemma drain_refresh_settles:
  assumes k: "\<And>k s. sv_lease (calls k s) = sv_lease s"
    and r: "settled_route l before r \<or> sv_lease (snd r) = before \<and> sv_tasks (snd r) manager = Refreshing l caps c"
  shows "settled_route l before (drain_refresh calls l caps c r)"
proof (cases "\<exists>a b d. sv_tasks (snd r) manager = Refreshing a b d")
  case True
  then have "sv_lease (calls 1 (snd r)) = before" and "\<exists>a b d. sv_tasks (snd r) manager = Refreshing a b d"
    using r by (auto simp: settled_route_def k)
  then show ?thesis using publish_settles [of l "calls 1 (snd r)" caps c "sv_client (calls 1 (snd r))"]
    by (auto simp: drain_refresh_def Let_def activate_wake_def activate_timeout_def intro!: discard_settles)
next
  case False
  then have "drain_refresh calls l caps c r = r" by (auto simp: drain_refresh_def split: task.split)
  with r False show ?thesis by auto
qed

definition activated :: "inference_lease \<Rightarrow> inference_lease option \<Rightarrow> llm_error option \<times> service \<Rightarrow> bool" where
  "activated l before r \<longleftrightarrow> sv_tasks (snd r) manager = Idle \<and> (fst r = None \<longrightarrow> sv_lease (snd r) = Some l) \<and>
     (sv_lease (snd r) = Some l \<or> sv_lease (snd r) = before)"

lemma finish_activation_outcome: "settled_route l before r \<Longrightarrow> activated l before (finish_activation fails r)"
  by (auto simp: settled_route_def activated_def finish_activation_def)

lemma activate_outcome:
  assumes i: "sv_tasks s manager = Idle"
    and k: "\<And>k s. sv_lease (calls k s) = sv_lease s"
  shows "activated l (sv_lease s) (activate_inference_lease calls fails l caps s)"
proof -
  let ?b = "activate_begin manager l caps s"
  have b: "sv_lease (snd ?b) = sv_lease s \<and> (\<exists>c. sv_tasks (snd ?b) manager = Entering l caps c) \<or> activated l (sv_lease s) ?b"
    using i by (auto simp: activate_begin_def activated_def split: sum.split)
  show ?thesis
  proof (cases "\<exists>m cs c. sv_tasks (snd ?b) manager = Entering m cs c")
    case True
    then obtain m cs c where e: "sv_tasks (snd ?b) manager = Entering m cs c" by blast
    then have "sv_lease (calls 0 (snd ?b)) = sv_lease s" using b by (auto simp: activated_def k)
    then have "settled_route l (sv_lease s) (drain_refresh calls l caps c (activate_enter manager l caps c (calls 0 (snd ?b))))"
      using activate_enter_settles [of l "calls 0 (snd ?b)" caps c] by (intro drain_refresh_settles [OF k]) simp
    then show ?thesis by (simp add: activate_inference_lease_def Let_def e finish_activation_outcome)
  next
    case False
    then have "activate_inference_lease calls fails l caps s = ?b"
      by (auto simp: activate_inference_lease_def Let_def split: task.split)
    with b False show ?thesis by auto
  qed
qed

text \<open>A deactivation under way: nothing left of the route, the close still to do, or an error.\<close>

definition settled_drain :: "string \<Rightarrow> inference_lease option \<Rightarrow> llm_error option \<times> service \<Rightarrow> bool" where
  "settled_drain lid before r \<longleftrightarrow>
     sv_tasks (snd r) manager = Idle \<and> (sv_lease (snd r) = None \<or> sv_lease (snd r) = before) \<and>
       (fst r = None \<longrightarrow> (\<forall>x. sv_lease (snd r) = Some x \<longrightarrow> le_id x \<noteq> lid)) \<or>
     (\<exists>c. sv_tasks (snd r) manager = Retiring lid c) \<and> sv_lease (snd r) = before"

lemma deactivate_drained_settles: "settled_drain lid (sv_lease s) (None, deactivate_drained manager lid s)"
  by (cases "sv_client s") (simp_all add: settled_drain_def deactivate_drained_def forget_route_def)

lemma deactivate_begin_settles:
  assumes i: "sv_tasks s manager = Idle"
  shows "settled_drain lid (sv_lease s) (deactivate_begin manager lid False s) \<or>
    sv_lease (snd (deactivate_begin manager lid False s)) = sv_lease s \<and>
    (\<exists>b. sv_tasks (snd (deactivate_begin manager lid False s)) manager = Leaving lid b)"
proof (cases "sv_lease s")
  case (Some a)
  then show ?thesis using i deactivate_drained_settles [of lid "s\<lparr>sv_accepting := False, sv_backend := sv_default s\<rparr>"]
    by (auto simp: deactivate_begin_def Let_def settled_drain_def)
qed (use i in \<open>simp add: deactivate_begin_def settled_drain_def\<close>)

lemma drain_deactivation_settles:
  assumes k: "\<And>k s. sv_lease (calls k s) = sv_lease s"
    and r: "settled_drain lid before r \<or> sv_lease (snd r) = before \<and> (\<exists>b. sv_tasks (snd r) manager = Leaving lid b)"
  shows "settled_drain lid before (drain_deactivation calls lid r)"
proof (cases "\<exists>a b. sv_tasks (snd r) manager = Leaving a b")
  case True
  then have "sv_lease (calls 1 (snd r)) = before" and "\<exists>a b. sv_tasks (snd r) manager = Leaving a b"
    using r by (auto simp: settled_drain_def k)
  moreover have "settled_drain lid (sv_lease s) (Some Drain_Timed_Out, become manager Idle s)" for s
    by (simp add: settled_drain_def)
  ultimately show ?thesis using deactivate_drained_settles [of lid "calls 1 (snd r)"]
    by (auto simp: drain_deactivation_def Let_def)
next
  case False
  then have "drain_deactivation calls lid r = r" by (auto simp: drain_deactivation_def split: task.split)
  with r False show ?thesis by auto
qed

lemma deactivate_outcome:
  assumes i: "sv_tasks s manager = Idle"
    and k: "\<And>k s. sv_lease (calls k s) = sv_lease s"
    and a: "deactivate_inference_lease calls fails lid False s = (err, t)"
  shows "sv_tasks t manager = Idle \<and> (sv_lease t = None \<or> sv_lease t = sv_lease s) \<and>
    (err = None \<longrightarrow> (\<forall>x. sv_lease t = Some x \<longrightarrow> le_id x \<noteq> lid))"
proof -
  let ?d = "drain_deactivation calls lid (deactivate_begin manager lid False s)"
  have d: "settled_drain lid (sv_lease s) ?d"
    by (rule drain_deactivation_settles [OF k]) (rule deactivate_begin_settles [OF i])
  show ?thesis
  proof (cases "\<exists>b c. sv_tasks (snd ?d) manager = Retiring b c")
    case True
    then obtain c where c: "sv_tasks (snd ?d) manager = Retiring lid c" "sv_lease (snd ?d) = sv_lease s"
      using d by (auto simp: settled_drain_def)
    then have "deactivate_closed manager c fails (snd ?d) = (err, t)" using a by (simp add: deactivate_inference_lease_def)
    with c show ?thesis by (auto simp: deactivate_closed_def forget_route_def Let_def split: if_splits)
  next
    case False
    then have "?d = (err, t)" using a by (auto simp: deactivate_inference_lease_def Let_def split: task.splits)
    with d False show ?thesis by (auto simp: settled_drain_def)
  qed
qed

subsection \<open>The route follows the record\<close>

definition routed_lease :: "coordinator \<Rightarrow> inference_lease option" where
  "routed_lease c = sv_lease (co_service c)"

definition recorded_lease :: "coordinator \<Rightarrow> inference_lease option" where
  "recorded_lease c = (case co_record c of None \<Rightarrow> None | Some r \<Rightarrow> lr_lease r)"

definition one_route :: "coordinator \<Rightarrow> bool" where
  "one_route c \<longleftrightarrow> sv_tasks (co_service c) manager = Idle \<and>
     (\<forall>x. routed_lease c = Some x \<longrightarrow> (\<exists>l. recorded_lease c = Some l \<and> le_id l = le_id x \<and> le_state l \<noteq> PENDING))"

text \<open>An answer with a lease: that lease is recorded, and it is routed exactly when it is ready.\<close>

definition answered :: "lease_error + inference_lease \<Rightarrow> coordinator \<Rightarrow> bool" where
  "answered a c \<longleftrightarrow> (\<forall>l. a = Inr l \<longrightarrow> recorded_lease c = Some l \<and>
     routed_lease c = (if le_state l = READY then Some l else None))"

definition in_step :: "lease_result \<Rightarrow> bool" where
  "in_step r \<longleftrightarrow> one_route (snd r) \<and> answered (fst r) (snd r)"

lemma in_step_error: "one_route c \<Longrightarrow> in_step (Inl e, c)"
  by (simp add: in_step_def answered_def)

lemma note_effect_fields [simp]:
  "co_owner (note_effect f c) = co_owner c" "co_providers (note_effect f c) = co_providers c"
  "co_durable (note_effect f c) = co_durable c" "co_record (note_effect f c) = co_record c"
  "co_stored (note_effect f c) = co_stored c" "co_service (note_effect f c) = co_service c"
  "co_log (note_effect f c) = co_log c @ [f]" "routed_lease (note_effect f c) = routed_lease c"
  "recorded_lease (note_effect f c) = recorded_lease c" "one_route (note_effect f c) = one_route c"
  by (simp_all add: note_effect_def routed_lease_def recorded_lease_def one_route_def)

lemma persist_fields:
  assumes "persist w c = (e, d)"
  shows "co_service d = co_service c" "co_record d = co_record c" "co_owner d = co_owner c"
    "co_providers d = co_providers c" "co_durable d = co_durable c" "routed_lease d = routed_lease c"
    "recorded_lease d = recorded_lease c"
  using assms by (auto simp: persist_def routed_lease_def recorded_lease_def note_effect_def Let_def split: if_splits option.splits provider_exn.splits)

lemma persist_route: "persist w c = (e, d) \<Longrightarrow> one_route d = one_route c"
  by (simp add: one_route_def persist_fields)

lemma route_lease_outcome:
  assumes k: "calls_only w" and i: "sv_tasks (co_service c) manager = Idle" and r: "route_lease w l caps c = (e, d)"
  shows "sv_tasks (co_service d) manager = Idle \<and> (e = None \<longrightarrow> routed_lease d = Some l) \<and>
    (routed_lease d = Some l \<or> routed_lease d = routed_lease c) \<and> co_record d = co_record c \<and> co_owner d = co_owner c"
proof -
  have "activated l (sv_lease (co_service c))
      (activate_inference_lease (lw_calls w (tick c)) (lw_close_fails w (tick c)) l (set caps) (co_service c))"
    by (rule activate_outcome [OF i]) (use k in \<open>simp add: calls_only_def\<close>)
  then show ?thesis using r
    by (auto simp: route_lease_def activated_def routed_lease_def note_effect_def split: prod.splits option.splits)
qed

lemma unroute_lease_outcome:
  assumes k: "calls_only w" and i: "sv_tasks (co_service c) manager = Idle" and r: "unroute_lease w lid c = (e, d)"
  shows "sv_tasks (co_service d) manager = Idle \<and> (routed_lease d = None \<or> routed_lease d = routed_lease c) \<and>
    (e = None \<longrightarrow> (\<forall>x. routed_lease d = Some x \<longrightarrow> le_id x \<noteq> lid)) \<and> co_record d = co_record c \<and> co_owner d = co_owner c"
proof -
  obtain e' t where a: "deactivate_inference_lease (lw_calls w (tick c)) (lw_close_fails w (tick c)) lid False (co_service c) = (e', t)"
    by fastforce
  have "sv_tasks t manager = Idle \<and> (sv_lease t = None \<or> sv_lease t = sv_lease (co_service c)) \<and>
      (e' = None \<longrightarrow> (\<forall>x. sv_lease t = Some x \<longrightarrow> le_id x \<noteq> lid))"
    by (rule deactivate_outcome [OF i _ a]) (use k in \<open>simp add: calls_only_def\<close>)
  then show ?thesis using r a
    by (auto simp: unroute_lease_def routed_lease_def note_effect_def split: option.splits)
qed

lemma transition_from_none: "validate_transition None l = None"
  by (simp add: validate_transition_def)

lemma transition_ok:
  "validate_transition (Some p) l = None \<Longrightarrow>
    le_id l = le_id p \<and> le_state l \<in> ALLOWED_TRANSITIONS (le_state p) \<and> le_updated p \<le> le_updated l"
  by (simp add: validate_transition_def split: if_splits)

lemma pending_only_from_pending: "PENDING \<in> ALLOWED_TRANSITIONS st \<longleftrightarrow> st = PENDING"
  by (cases st) (simp_all add: ALLOWED_TRANSITIONS_def)

lemma apply_in_step:
  assumes k: "calls_only w" and o: "one_route c" and r: "co_record c = Some r"
  shows "in_step (apply_provider_lease w r l c)"
proof (cases "lw_owner_ok w (co_owner c) l \<and> lw_lease_valid w (lr_request r) (lr_quote r) l \<and> validate_transition (lr_lease r) l = None")
  case True
  let ?c = "c\<lparr>co_record := Some (r\<lparr>lr_lease := Some l\<rparr>)\<rparr>"
  have idle: "sv_tasks (co_service c) manager = Idle" using o by (simp add: one_route_def)
  have routed: "le_id x = le_id l \<and> le_state l \<noteq> PENDING" if x: "routed_lease c = Some x" for x
  proof -
    obtain p where p: "lr_lease r = Some p" "le_id p = le_id x" "le_state p \<noteq> PENDING"
      using o x r by (auto simp: one_route_def recorded_lease_def)
    with True have "le_id l = le_id p" "le_state l \<in> ALLOWED_TRANSITIONS (le_state p)"
      using transition_ok [of p l] by simp_all
    moreover have "le_state l \<noteq> PENDING"
    proof
      assume "le_state l = PENDING"
      then have "PENDING \<in> ALLOWED_TRANSITIONS (le_state p)" using \<open>le_state l \<in> _\<close> by simp
      with p show False by (simp only: pending_only_from_pending)
    qed
    ultimately show ?thesis using p by simp
  qed
  obtain e d where d: "persist w ?c = (e, d)" by fastforce
  note pd = persist_fields [OF d]
  have rec: "co_record d = Some (r\<lparr>lr_lease := Some l\<rparr>)" using pd(2) by simp
  have rt: "routed_lease d = routed_lease c" and id: "sv_tasks (co_service d) manager = Idle"
    using pd(1) idle by (simp_all add: routed_lease_def)
  have ld: "recorded_lease d = Some l" by (simp add: recorded_lease_def rec)
  have match: "\<exists>m. Some l = Some m \<and> le_id m = le_id x \<and> le_state m \<noteq> PENDING" if "routed_lease c = Some x" for x
    using routed [OF that] by simp
  have od: "one_route d" unfolding one_route_def rt ld using id match by blast
  show ?thesis
  proof (cases e)
    case (Some x)
    then show ?thesis using True d od by (simp add: apply_provider_lease_def in_step_error)
  next
    case None
    show ?thesis
    proof (cases "le_state l = PENDING")
      case p: True
      then have "routed_lease d = None" using rt match by (cases "routed_lease c") auto
      then show ?thesis using True d None p od ld by (simp add: apply_provider_lease_def in_step_def answered_def)
    next
      case np: False
      define u where "u = (if le_state l = READY then route_lease w l (rq_caps (lr_request r)) d else unroute_lease w (le_id l) d)"
      obtain e2 d2 where d2: "u = (e2, d2)" by fastforce
      have out: "sv_tasks (co_service d2) manager = Idle \<and> co_record d2 = co_record d \<and>
          (routed_lease d2 = None \<or> routed_lease d2 = Some l \<or> routed_lease d2 = routed_lease d) \<and>
          (e2 = None \<longrightarrow> routed_lease d2 = (if le_state l = READY then Some l else None))"
      proof (cases "le_state l = READY")
        case True
        then show ?thesis using route_lease_outcome [OF k id, of l "rq_caps (lr_request r)" e2 d2] d2 by (auto simp: u_def)
      next
        case False
        have "unroute_lease w (le_id l) d = (e2, d2)" using d2 False by (simp add: u_def)
        note uo = unroute_lease_outcome [OF k id this]
        have "routed_lease d2 = None" if "e2 = None"
        proof (cases "routed_lease d2")
          case (Some x)
          with uo that have "le_id x \<noteq> le_id l" "routed_lease d = Some x" by auto
          with routed [of x] rt show ?thesis by simp
        qed
        with uo False show ?thesis by auto
      qed
      have ld2: "recorded_lease d2 = Some l" using out rec by (simp add: recorded_lease_def)
      have "\<exists>m. Some l = Some m \<and> le_id m = le_id x \<and> le_state m \<noteq> PENDING" if "routed_lease d2 = Some x" for x
        using that out rt np match [of x] by auto
      then have "one_route d2" unfolding one_route_def ld2 using out by blast
      then have "in_step (case u of (None, c2) \<Rightarrow> (Inr l, c2) | (Some e, c2) \<Rightarrow> (Inl e, c2))"
        using out ld2 by (auto simp: d2 in_step_def answered_def split: option.splits)
      then show ?thesis using True d None np by (simp add: apply_provider_lease_def u_def)
    qed
  qed
qed (use o in \<open>auto simp: apply_provider_lease_def in_step_error split: option.split\<close>)

lemma after_call_in_step:
  "calls_only w \<Longrightarrow> one_route c \<Longrightarrow> co_record c = Some r \<Longrightarrow> in_step (after_call w r purpose a c)"
  by (simp add: after_call_def in_step_error apply_in_step split: sum.split provider_exn.split)

lemma refresh_in_step:
  "calls_only w \<Longrightarrow> one_route c \<Longrightarrow> co_record c = Some r \<Longrightarrow> in_step (refresh_provider_lease w r purpose c)"
  by (simp add: refresh_provider_lease_def in_step_error after_call_in_step split: option.split)

lemma call_acquire_in_step:
  "calls_only w \<Longrightarrow> one_route c \<Longrightarrow> co_record c = Some r \<Longrightarrow> in_step (call_acquire w r purpose c)"
  by (simp add: call_acquire_def in_step_error after_call_in_step split: option.split)

text \<open>Quotes move nothing but the log.\<close>

lemma quote_provider_fields:
  "co_service (snd (quote_provider w v rq c)) = co_service c" "co_record (snd (quote_provider w v rq c)) = co_record c"
  "co_owner (snd (quote_provider w v rq c)) = co_owner c" "co_providers (snd (quote_provider w v rq c)) = co_providers c"
  "co_stored (snd (quote_provider w v rq c)) = co_stored c" "co_durable (snd (quote_provider w v rq c)) = co_durable c"
  by (simp_all add: quote_provider_def Let_def split: sum.split provider_exn.split bool.split)

lemma gather_quotes_fields:
  "co_service (snd (gather_quotes w vs rq c)) = co_service c \<and> co_record (snd (gather_quotes w vs rq c)) = co_record c \<and>
   co_owner (snd (gather_quotes w vs rq c)) = co_owner c \<and> co_providers (snd (gather_quotes w vs rq c)) = co_providers c \<and>
   co_stored (snd (gather_quotes w vs rq c)) = co_stored c \<and> co_durable (snd (gather_quotes w vs rq c)) = co_durable c"
proof (induction vs arbitrary: c)
  case (Cons nv vs)
  obtain a d where q: "quote_provider w (snd nv) rq c = (a, d)" by fastforce
  obtain b e where g: "gather_quotes w vs rq d = (b, e)" by fastforce
  have "co_service d = co_service c" "co_record d = co_record c" "co_owner d = co_owner c" "co_providers d = co_providers c"
    "co_stored d = co_stored c" "co_durable d = co_durable c"
    using quote_provider_fields [of w "snd nv" rq c] by (simp_all add: q)
  moreover have "co_service e = co_service d \<and> co_record e = co_record d \<and> co_owner e = co_owner d \<and>
      co_providers e = co_providers d \<and> co_stored e = co_stored d \<and> co_durable e = co_durable d"
    using Cons.IH [of d] by (simp add: g)
  ultimately show ?case by (cases a; cases b; simp add: q g)
qed simp

lemma same_route:
  "co_service d = co_service c \<Longrightarrow> co_record d = co_record c \<Longrightarrow> one_route d = one_route c"
  by (simp add: one_route_def routed_lease_def recorded_lease_def)

lemma acquire_new_in_step:
  assumes k: "calls_only w" and o: "one_route c" and n: "routed_lease c = None"
  shows "in_step (acquire_new w rq c)"
proof -
  obtain a d where g: "gather_quotes w (sort_key fst (co_providers c)) rq c = (a, d)" by fastforce
  have f: "co_service d = co_service c" "co_record d = co_record c"
    using gather_quotes_fields [of w "sort_key fst (co_providers c)" rq c] by (simp_all add: g)
  have od: "one_route d" using o same_route [OF f] by simp
  have nd: "routed_lease d = None" using n f by (simp add: routed_lease_def)
  consider (err) x where "a = Inl x" | (none) "a = Inr []" | (some) q qs where "a = Inr (q # qs)"
  proof (cases a)
    case (Inr qs)
    then show ?thesis using that by (cases qs) simp_all
  qed (use that in blast)
  then show ?thesis
  proof cases
    case (some q qs)
    define r where "r = \<lparr>lr_provider = qu_provider (cheapest (q # qs)), lr_request = rq, lr_quote = cheapest (q # qs), lr_lease = None\<rparr>"
    have o1: "one_route (d\<lparr>co_record := Some r\<rparr>)"
      using od nd by (simp add: one_route_def routed_lease_def)
    obtain e c2 where p: "persist w (d\<lparr>co_record := Some r\<rparr>) = (e, c2)" by fastforce
    have o2: "one_route c2" using o1 persist_route [OF p] by simp
    have "co_record c2 = Some r" using persist_fields [OF p] by simp
    from call_acquire_in_step [OF k o2 this] in_step_error [OF o2]
    show ?thesis unfolding acquire_new_def g some by (simp add: Let_def r_def [symmetric] p split: option.split)
  qed (use od in \<open>simp_all add: acquire_new_def g in_step_error\<close>)
qed

lemma in_step_answer:
  assumes "in_step (Inr l, c)"
  shows "recorded_lease c = Some l" "routed_lease c = (if le_state l = READY then Some l else None)" "one_route c"
  using assms by (simp_all add: in_step_def answered_def)

lemma acquire_in_step:
  assumes k: "calls_only w" and t: "terminal_states w" and o: "one_route c"
  shows "in_step (acquire w rq c)"
proof (cases "co_record c")
  case None
  then have "routed_lease c = None" using o by (cases "routed_lease c") (auto simp: one_route_def recorded_lease_def)
  then show ?thesis using acquire_new_in_step [OF k o] None o by (simp add: acquire_def in_step_error)
next
  case (Some r)
  show ?thesis
  proof (cases "lr_lease r")
    case None
    then show ?thesis using Some o call_acquire_in_step [OF k o Some] by (simp add: acquire_def in_step_error)
  next
    case l: (Some l)
    show ?thesis
    proof (cases "lw_terminal w (le_state l)")
      case True
      obtain a d where a: "refresh_provider_lease w r ''reconcile original lease before replacement'' c = (a, d)" by fastforce
      have i: "in_step (a, d)" using refresh_in_step [OF k o Some] unfolding a [symmetric] .
      have "in_step (case a of Inl e \<Rightarrow> (Inl e, d) | Inr l1 \<Rightarrow>
          if \<not> lw_terminal w (le_state l1) then (Inl Release_First, d) else acquire_new w rq d)"
      proof (cases a)
        case (Inr l1)
        have "one_route d" "lw_terminal w (le_state l1) \<Longrightarrow> routed_lease d = None"
          using in_step_answer [of l1 d] i Inr t [unfolded terminal_states_def, rule_format, of "le_state l1"] by auto
        then show ?thesis using Inr acquire_new_in_step [OF k, of d] by (simp add: in_step_error)
      qed (use i in \<open>simp add: in_step_def in_step_error answered_def\<close>)
      then show ?thesis using Some l True a o by (simp add: acquire_def in_step_error)
    qed (use Some l o in \<open>simp add: acquire_def in_step_error\<close>)
  qed
qed

lemma record_for_lease_found:
  "record_for_lease w lid c = Inr (r, l) \<Longrightarrow> co_record c = Some r \<and> lr_lease r = Some l \<and> le_id l = lid"
  by (auto simp: record_for_lease_def split: option.splits if_splits)

lemma lease_status_in_step:
  assumes "calls_only w" and "one_route c" shows "in_step (lease_status w lid c)"
proof (cases "record_for_lease w lid c")
  case (Inr rl)
  obtain r l where rl: "rl = (r, l)" by fastforce
  have "co_record c = Some r" using record_for_lease_found Inr rl by simp
  then show ?thesis using refresh_in_step [OF assms] in_step_error [OF assms(2)] by (simp add: lease_status_def Inr rl)
qed (simp add: lease_status_def in_step_error [OF assms(2)])

lemma touch_in_step:
  assumes "calls_only w" and "one_route c" shows "in_step (touch w lid c)"
proof (cases "record_for_lease w lid c")
  case (Inr rl)
  obtain r l where rl: "rl = (r, l)" by fastforce
  have "co_record c = Some r" using record_for_lease_found Inr rl by simp
  then have "in_step (after_call w r purpose a (note_effect f c))" for purpose a f
    using after_call_in_step [OF assms(1)] assms(2) by simp
  then show ?thesis using in_step_error [OF assms(2)] by (simp add: touch_def Inr rl split: option.split)
qed (simp add: touch_def in_step_error [OF assms(2)])

lemma release_live_in_step:
  assumes k: "calls_only w" and o: "one_route c" and l: "recorded_lease c = Some cur" "le_id cur = lid" and r: "co_record c \<noteq> None"
  shows "in_step (release_live w r cur lid now c)"
proof -
  have idle: "sv_tasks (co_service c) manager = Idle" using o by (simp add: one_route_def)
  obtain e c1 where u: "unroute_lease w lid c = (e, c1)" by fastforce
  note uo = unroute_lease_outcome [OF k idle u]
  have o1: "one_route c1"
    using uo o by (auto simp: one_route_def recorded_lease_def)
  show ?thesis
  proof (cases e)
    case None
    have none: "routed_lease c1 = None"
    proof (cases "routed_lease c1")
      case (Some x)
      then have "le_id x \<noteq> lid" and "routed_lease c = Some x" using uo None by auto
      with o l show ?thesis by (simp add: one_route_def)
    qed
    define r' where "r' = r\<lparr>lr_lease := Some (cur\<lparr>le_state := RELEASING, le_route := None, le_failure := None, le_updated := now\<rparr>)\<rparr>"
    have o2: "one_route (c1\<lparr>co_record := Some r'\<rparr>)" using o1 none by (simp add: one_route_def routed_lease_def)
    obtain e2 c2 where p: "persist w (c1\<lparr>co_record := Some r'\<rparr>) = (e2, c2)" by fastforce
    have o3: "one_route c2" using o2 persist_route [OF p] by simp
    have "co_record c2 = Some r'" using persist_fields [OF p] by simp
    then have "in_step (after_call w r' purpose a (note_effect f c2))" for purpose a f
      using after_call_in_step [OF k] o3 by simp
    then show ?thesis using o3 by (simp add: release_live_def u None Let_def r'_def [symmetric] p in_step_error split: option.split)
  qed (use o1 in \<open>simp add: release_live_def u in_step_error\<close>)
qed

lemma release_in_step:
  assumes k: "calls_only w" and t: "terminal_states w" and o: "one_route c"
  shows "in_step (release w lid now c)"
proof (cases "record_for_lease w lid c")
  case (Inr rl)
  obtain r l where rl: "rl = (r, l)" by fastforce
  have rec: "co_record c = Some r" "lr_lease r = Some l" "le_id l = lid" using record_for_lease_found Inr rl by auto
  show ?thesis
  proof (cases "lw_terminal w (le_state l)")
    case True
    obtain a d where a: "refresh_provider_lease w r ''reconcile original cleanup state'' c = (a, d)" by fastforce
    have i: "in_step (a, d)" using refresh_in_step [OF k o rec(1)] unfolding a [symmetric] .
    have "in_step (case a of Inl e \<Rightarrow> (Inl e, d) | Inr cur \<Rightarrow>
        if le_state cur \<in> {RELEASED, EXPIRED} then (Inr cur, d) else release_live w r cur lid now d)"
    proof (cases a)
      case (Inr cur)
      have d: "one_route d" "recorded_lease d = Some cur" using in_step_answer [of cur d] i Inr by auto
      have "le_id cur = lid"
      proof -
        have "refresh_provider_lease w r ''reconcile original cleanup state'' c = (Inr cur, d)" using a Inr by simp
        then have "validate_transition (Some l) cur = None"
          by (auto simp: refresh_provider_lease_def after_call_def apply_provider_lease_def rec
              split: option.splits sum.splits provider_exn.splits if_splits prod.splits)
        then show ?thesis using transition_ok rec by fastforce
      qed
      moreover have "co_record d \<noteq> None" using d(2) by (auto simp: recorded_lease_def split: option.splits)
      ultimately show ?thesis using Inr i release_live_in_step [OF k d] by auto
    qed (use i in \<open>simp add: in_step_def in_step_error answered_def\<close>)
    then show ?thesis by (simp add: release_def Inr rl True a)
  next
    case False
    have "le_state l \<notin> {RELEASED, EXPIRED}" using False t by (auto simp: terminal_states_def)
    moreover have "recorded_lease c = Some l" using rec by (simp add: recorded_lease_def)
    ultimately show ?thesis using release_live_in_step [OF k o _ rec(3)] rec False by (simp add: release_def Inr rl)
  qed
qed (use o in \<open>simp add: release_def in_step_error\<close>)

lemma restore_in_step:
  assumes k: "calls_only w" and o: "one_route c" and n: "routed_lease c = None"
  shows "one_route (snd (restore w p c)) \<and> (\<forall>l. fst (restore w p c) = Inr (Some l) \<longrightarrow> answered (Inr l) (snd (restore w p c)))"
proof (cases p)
  case (Some d)
  show ?thesis
  proof (cases "lw_admitted w (tick c)")
    case True
    show ?thesis
    proof (cases "from_persisted_dict w d (co_owner c)")
      case (Inr r)
      let ?c = "c\<lparr>co_record := Some r\<rparr>"
      have o1: "one_route ?c" using o n by (simp add: one_route_def routed_lease_def)
      define x where "x = (if lr_lease r \<noteq> None then refresh_provider_lease w r ''reconcile persisted state'' ?c
        else call_acquire w r ''reconcile persisted state'' ?c)"
      have "in_step x" using refresh_in_step [OF k o1] call_acquire_in_step [OF k o1] by (simp add: x_def)
      moreover have "restore w p c = (case x of (Inl e, c2) \<Rightarrow> (Inl e, c2) | (Inr l, c2) \<Rightarrow> (Inr (Some l), c2))"
        by (simp add: restore_def Some True Inr x_def)
      ultimately show ?thesis by (cases x; cases "fst x") (auto simp: in_step_def)
    qed (use o in \<open>simp add: restore_def Some\<close>)
  qed (use o in \<open>simp add: restore_def Some\<close>)
qed (use o in \<open>simp add: restore_def\<close>)

end
