(* ===== verification/Lease_Promises.thy ===== *)
theory Lease_Promises
  imports Lease_Safety
begin

text \<open>
  The coordinator over time: operations and restarts are events, and the properties hold along every run
  from a new coordinator, whatever the providers answer and whatever the calls of the service do.
\<close>

datatype lease_event =
    Acquire lease_request
  | Status string
  | Touch string
  | Release string int
  | Restart backend

fun lease_answer :: "lease_world \<Rightarrow> coordinator \<Rightarrow> lease_event \<Rightarrow> lease_error + inference_lease option" where
  "lease_answer w c (Acquire rq) = map_sum id Some (fst (acquire w rq c))"
| "lease_answer w c (Status lid) = map_sum id Some (fst (lease_status w lid c))"
| "lease_answer w c (Touch lid) = map_sum id Some (fst (touch w lid c))"
| "lease_answer w c (Release lid now) = map_sum id Some (fst (release w lid now c))"
| "lease_answer w c (Restart b) = fst (restart w b c)"

fun lease_step :: "lease_world \<Rightarrow> coordinator \<Rightarrow> lease_event \<Rightarrow> coordinator" where
  "lease_step w c (Acquire rq) = snd (acquire w rq c)"
| "lease_step w c (Status lid) = snd (lease_status w lid c)"
| "lease_step w c (Touch lid) = snd (touch w lid c)"
| "lease_step w c (Release lid now) = snd (release w lid now c)"
| "lease_step w c (Restart b) = snd (restart w b c)"

definition new_coordinator :: "string \<Rightarrow> (string, lease_provider) dict \<Rightarrow> bool \<Rightarrow> backend \<Rightarrow> coordinator" where
  "new_coordinator owner providers durable b =
     \<lparr>co_owner = owner, co_providers = providers, co_durable = durable, co_record = None, co_stored = None,
      co_service = new_service b, co_log = []\<rparr>"

subsection \<open>The route is the route of the recorded lease\<close>

lemma restart_in_step:
  assumes "calls_only w"
  shows "one_route (snd (restart w b c)) \<and> (\<forall>l. fst (restart w b c) = Inr (Some l) \<longrightarrow> answered (Inr l) (snd (restart w b c)))"
  unfolding restart_def
  by (rule restore_in_step [OF assms]) (simp_all add: one_route_def routed_lease_def new_service_def)

lemma lease_step_in_step:
  assumes k: "calls_only w" and t: "terminal_states w" and o: "one_route c"
  shows "one_route (lease_step w c e) \<and> (\<forall>l. lease_answer w c e = Inr (Some l) \<longrightarrow> answered (Inr l) (lease_step w c e))"
proof -
  have op: "one_route (snd r) \<and> (\<forall>l. map_sum id Some (fst r) = Inr (Some l) \<longrightarrow> answered (Inr l) (snd r))"
    if "in_step r" for r
    using that by (cases "fst r") (auto simp: in_step_def)
  show ?thesis
    using op [OF acquire_in_step [OF k t o]] op [OF lease_status_in_step [OF k o]] op [OF touch_in_step [OF k o]]
      op [OF release_in_step [OF k t o]] restart_in_step [OF k]
    by (cases e) simp_all
qed

lemma new_coordinator_one_route: "one_route (new_coordinator owner providers durable b)"
  by (simp add: one_route_def new_coordinator_def new_service_def routed_lease_def)

lemma lease_run_one_route:
  assumes "calls_only w" and "terminal_states w"
  shows "one_route c \<Longrightarrow> one_route (run (lease_step w) c es)"
  by (induction es arbitrary: c) (simp_all add: lease_step_in_step [OF assms])

text \<open>
  C8: Along every run of acquisitions, status polls, renewals, releases and restarts, whatever providers
  answer and even when writes fail, the service routes at most the lease that the coordinator records;
  and an operation that answers with a lease leaves it recorded and routed exactly when it is ready.
\<close>

theorem route_follows_the_record:
  assumes "calls_only w" and "terminal_states w"
    and "c = run (lease_step w) (new_coordinator owner providers durable b) es"
  shows "(\<forall>x. routed_lease c = Some x \<longrightarrow> (\<exists>l. recorded_lease c = Some l \<and> le_id l = le_id x \<and> le_state l \<noteq> PENDING)) \<and>
    (\<forall>l. lease_answer w c e = Inr (Some l) \<longrightarrow> recorded_lease (lease_step w c e) = Some l \<and>
       routed_lease (lease_step w c e) = (if le_state l = READY then Some l else None))"
proof -
  have o: "one_route c" unfolding assms(3) by (rule lease_run_one_route [OF assms(1,2) new_coordinator_one_route])
  from lease_step_in_step [OF assms(1,2) o, of e] o show ?thesis by (simp add: one_route_def answered_def)
qed

subsection \<open>The order of effects\<close>

definition reliable_storage :: "lease_world \<Rightarrow> bool" where
  "reliable_storage w \<longleftrightarrow> (\<forall>n. lw_store_fails w n = None)"

definition last_stored :: "lease_effect list \<Rightarrow> payload option" where
  "last_stored fs = foldl (\<lambda>d f. case f of Persisted p \<Rightarrow> p | _ \<Rightarrow> d) None fs"

lemma last_stored_snoc [simp]:
  "last_stored (fs @ [f]) = (case f of Persisted p \<Rightarrow> p | _ \<Rightarrow> last_stored fs)" "last_stored [] = None"
  by (cases f) (simp_all add: last_stored_def)

definition lease_plan :: "string \<Rightarrow> lease_request \<Rightarrow> lease_quote \<Rightarrow> payload" where
  "lease_plan p rq q = to_persisted_dict \<lparr>lr_provider = p, lr_request = rq, lr_quote = q, lr_lease = None\<rparr>"

text \<open>
  What must precede an effect: the provider is asked to acquire only what the storage holds as the plan,
  and to release only after the route was drained and the intention to release was stored, in that order.
\<close>

fun backed_by :: "string \<Rightarrow> lease_effect list \<Rightarrow> lease_effect \<Rightarrow> bool" where
  "backed_by owner fs (Acquire_Called p rq q) \<longleftrightarrow> rq_owner rq = owner \<and> last_stored fs = Some (lease_plan p rq q)"
| "backed_by owner fs (Release_Called p user lid) \<longleftrightarrow> user = owner \<and>
     (\<exists>zs d l. fs = zs @ [Unrouted lid, Persisted (Some d)] \<and> pl_lease d = Stored l \<and> le_id l = lid \<and> le_state l = RELEASING)"
| "backed_by owner fs (Status_Called p user lid) \<longleftrightarrow> user = owner"
| "backed_by owner fs (Touch_Called p user lid) \<longleftrightarrow> user = owner"
| "backed_by owner fs (Quote_Asked p rq) \<longleftrightarrow> rq_owner rq = owner"
| "backed_by owner fs f \<longleftrightarrow> True"

definition well_ordered :: "string \<Rightarrow> lease_effect list \<Rightarrow> bool" where
  "well_ordered owner fs \<longleftrightarrow> (\<forall>xs f ys. fs = xs @ f # ys \<longrightarrow> backed_by owner xs f)"

lemma well_ordered_Nil [simp]: "well_ordered owner []"
  by (simp add: well_ordered_def)

lemma well_ordered_snoc [simp]: "well_ordered owner (fs @ [f]) \<longleftrightarrow> well_ordered owner fs \<and> backed_by owner fs f"
proof -
  have "(\<exists>ys. fs @ [f] = xs @ g # ys) \<longleftrightarrow> (xs = fs \<and> g = f) \<or> (\<exists>ys. fs = xs @ g # ys)" for xs g
  proof
    assume "\<exists>ys. fs @ [f] = xs @ g # ys"
    then obtain ys where "fs @ [f] = xs @ g # ys" by blast
    then show "(xs = fs \<and> g = f) \<or> (\<exists>ys. fs = xs @ g # ys)"
    proof (cases ys rule: rev_cases)
      case (snoc zs y)
      with \<open>fs @ [f] = _\<close> have "fs @ [f] = (xs @ g # zs) @ [y]" by simp
      then show ?thesis by (simp only: append1_eq_conv) blast
    qed simp
  qed auto
  then show ?thesis unfolding well_ordered_def by metis
qed

definition stored_ok :: "coordinator \<Rightarrow> bool" where
  "stored_ok c \<longleftrightarrow> well_ordered (co_owner c) (co_log c) \<and> co_durable c \<and> co_stored c = last_stored (co_log c) \<and>
     (\<forall>d. co_stored c = Some d \<longrightarrow> (\<exists>r. d = to_persisted_dict r \<and> rq_owner (lr_request r) = co_owner c))"

text \<open>The storage mirrors the record: a restart turns a stored ready lease into a pending one.\<close>

definition mirrored :: "payload option \<Rightarrow> lease_record \<Rightarrow> bool" where
  "mirrored p r \<longleftrightarrow> (case lr_lease r of None \<Rightarrow> p = Some (to_persisted_dict r)
     | Some l \<Rightarrow> (\<exists>d m. p = Some d \<and> pl_lease d = Stored m \<and> le_id m = le_id l \<and>
         (le_state m = le_state l \<or> le_state m = READY \<and> le_state l = PENDING)))"

lemma mirrored_persist: "mirrored (Some (to_persisted_dict r)) r"
  by (simp add: mirrored_def to_persisted_dict_def public_lease_def split: option.split)

definition planned :: "coordinator \<Rightarrow> bool" where
  "planned c \<longleftrightarrow> stored_ok c \<and>
     (\<forall>r. co_record c = Some r \<longrightarrow> rq_owner (lr_request r) = co_owner c \<and> mirrored (co_stored c) r)"

lemma stored_ok_note:
  "stored_ok c \<Longrightarrow> backed_by (co_owner c) (co_log c) f \<Longrightarrow> (\<forall>p. f \<noteq> Persisted p) \<Longrightarrow> stored_ok (note_effect f c)"
  by (cases f) (auto simp: stored_ok_def)

lemma planned_note:
  "planned c \<Longrightarrow> backed_by (co_owner c) (co_log c) f \<Longrightarrow> (\<forall>p. f \<noteq> Persisted p) \<Longrightarrow> planned (note_effect f c)"
  by (simp add: planned_def stored_ok_note)

lemma planned_service: "planned (c\<lparr>co_service := s\<rparr>) = planned c"
  by (simp add: planned_def stored_ok_def)

lemma persist_reliable:
  assumes "reliable_storage w" and "co_durable c" and "co_record c = Some r"
  shows "persist w c = (None, note_effect (Persisted (Some (to_persisted_dict r))) (c\<lparr>co_stored := Some (to_persisted_dict r)\<rparr>))"
  using assms by (simp add: persist_def reliable_storage_def Let_def)

lemma planned_persist:
  assumes "stored_ok c" and "rq_owner (lr_request r) = co_owner c"
  shows "planned (note_effect (Persisted (Some (to_persisted_dict r))) (c\<lparr>co_record := Some r, co_stored := Some (to_persisted_dict r)\<rparr>))"
  using assms mirrored_persist [of r] by (auto simp: planned_def stored_ok_def)

lemma route_lease_planned: "planned c \<Longrightarrow> planned (snd (route_lease w l caps c))"
  by (auto simp: route_lease_def planned_service intro!: planned_note split: prod.split option.split)

lemma unroute_lease_planned: "planned c \<Longrightarrow> planned (snd (unroute_lease w lid c))"
  by (auto simp: unroute_lease_def planned_service intro!: planned_note split: prod.split option.split)

lemma apply_planned:
  assumes w: "reliable_storage w" and p: "planned c" and o: "rq_owner (lr_request r) = co_owner c"
  shows "planned (snd (apply_provider_lease w r l c))"
proof -
  let ?r = "r\<lparr>lr_lease := Some l\<rparr>"
  let ?c = "note_effect (Persisted (Some (to_persisted_dict ?r))) (c\<lparr>co_record := Some ?r, co_stored := Some (to_persisted_dict ?r)\<rparr>)"
  have s: "stored_ok c" and d: "co_durable c" using p by (simp_all add: planned_def stored_ok_def)
  have pc: "planned ?c" by (rule planned_persist [OF s]) (simp add: o)
  have pw: "persist w (c\<lparr>co_record := Some ?r\<rparr>) = (None, ?c)"
    using persist_reliable [OF w, of "c\<lparr>co_record := Some ?r\<rparr>" ?r] d by simp
  have "planned (snd (if le_state l = READY then route_lease w l (rq_caps (lr_request r)) ?c else unroute_lease w (le_id l) ?c))"
    using route_lease_planned [OF pc] unroute_lease_planned [OF pc] by simp
  then show ?thesis using p pc pw
    by (auto simp: apply_provider_lease_def split: option.split prod.split)
qed

lemma after_call_planned:
  "reliable_storage w \<Longrightarrow> planned c \<Longrightarrow> rq_owner (lr_request r) = co_owner c \<Longrightarrow> planned (snd (after_call w r purpose a c))"
  by (simp add: after_call_def apply_planned split: sum.split provider_exn.split)

lemma refresh_planned:
  assumes "reliable_storage w" and "planned c" and "rq_owner (lr_request r) = co_owner c"
  shows "planned (snd (refresh_provider_lease w r purpose c))"
proof -
  have "planned (note_effect (Status_Called p (co_owner c) lid) c)" for p lid by (rule planned_note [OF assms(2)]) simp_all
  then show ?thesis using assms by (simp add: refresh_provider_lease_def after_call_planned split: option.split)
qed

lemma call_acquire_planned:
  assumes "reliable_storage w" and "planned c" and "co_record c = Some r" and "lr_lease r = None"
  shows "planned (snd (call_acquire w r purpose c))"
proof -
  have o: "rq_owner (lr_request r) = co_owner c" and st: "co_stored c = Some (to_persisted_dict r)"
    using assms by (auto simp: planned_def mirrored_def)
  have "r = \<lparr>lr_provider = lr_provider r, lr_request = lr_request r, lr_quote = lr_quote r, lr_lease = None\<rparr>"
    using assms(4) by (cases r) simp
  then have "last_stored (co_log c) = Some (lease_plan (lr_provider r) (lr_request r) (lr_quote r))"
    using assms(2) st by (simp add: planned_def stored_ok_def lease_plan_def)
  then have "planned (note_effect (Acquire_Called (lr_provider r) (lr_request r) (lr_quote r)) c)"
    using o by (intro planned_note [OF assms(2)]) simp_all
  then show ?thesis using assms o by (simp add: call_acquire_def after_call_planned split: option.split)
qed

lemma lease_record_eta: "lr_lease r = None \<Longrightarrow> r\<lparr>lr_lease := None\<rparr> = r"
  by (cases r) simp

lemma quote_provider_planned:
  assumes "stored_ok c" and "rq_owner rq = co_owner c"
  shows "stored_ok (snd (quote_provider w v rq c))"
proof -
  have "stored_ok (note_effect (Quote_Asked (pv_name v) rq) c)" by (rule stored_ok_note [OF assms(1)]) (simp_all add: assms)
  then show ?thesis using assms
    by (simp add: quote_provider_def Let_def split: sum.split provider_exn.split bool.split)
qed

lemma gather_quotes_planned:
  "stored_ok c \<Longrightarrow> rq_owner rq = co_owner c \<Longrightarrow> stored_ok (snd (gather_quotes w vs rq c))"
proof (induction vs arbitrary: c)
  case (Cons nv vs)
  obtain a d where q: "quote_provider w (snd nv) rq c = (a, d)" by fastforce
  obtain b e where g: "gather_quotes w vs rq d = (b, e)" by fastforce
  have d: "stored_ok d" "co_owner d = co_owner c"
    using quote_provider_planned [OF Cons.prems, of w "snd nv"] quote_provider_fields(3) [of w "snd nv" rq c] by (simp_all add: q)
  have "stored_ok e" using Cons.IH [OF d(1)] Cons.prems d by (simp add: g)
  with d show ?case by (cases a; cases b; simp add: q g)
qed simp

lemma acquire_new_planned:
  assumes w: "reliable_storage w" and p: "planned c" and o: "rq_owner rq = co_owner c"
  shows "planned (snd (acquire_new w rq c))"
proof -
  obtain a d where g: "gather_quotes w (sort_key fst (co_providers c)) rq c = (a, d)" by fastforce
  note f = gather_quotes_fields [of w "sort_key fst (co_providers c)" rq c, unfolded g, simplified]
  have s: "stored_ok d"
    using gather_quotes_planned [of c rq w "sort_key fst (co_providers c)"] p o by (simp add: g planned_def)
  have pd: "planned d" using p s f by (simp add: planned_def)
  consider (err) x where "a = Inl x" | (none) "a = Inr []" | (some) q qs where "a = Inr (q # qs)"
  proof (cases a)
    case (Inr qs)
    then show ?thesis using that by (cases qs) simp_all
  qed (use that in blast)
  then show ?thesis
  proof cases
    case (some q qs)
    define r where "r = \<lparr>lr_provider = qu_provider (cheapest (q # qs)), lr_request = rq, lr_quote = cheapest (q # qs), lr_lease = None\<rparr>"
    let ?c = "note_effect (Persisted (Some (to_persisted_dict r))) (d\<lparr>co_record := Some r, co_stored := Some (to_persisted_dict r)\<rparr>)"
    have pc: "planned ?c" by (rule planned_persist [OF s]) (simp add: r_def o f)
    have "persist w (d\<lparr>co_record := Some r\<rparr>) = (None, ?c)"
      using persist_reliable [OF w, of "d\<lparr>co_record := Some r\<rparr>" r] s by (simp add: stored_ok_def)
    moreover have "planned (snd (call_acquire w r ''acquire capacity'' ?c))"
      by (rule call_acquire_planned [OF w pc]) (simp_all add: r_def)
    ultimately show ?thesis unfolding acquire_new_def g some by (simp add: Let_def r_def [symmetric])
  qed (use pd in \<open>simp_all add: acquire_new_def g\<close>)
qed

lemma apply_owner: "co_owner (snd (apply_provider_lease w r l c)) = co_owner c"
proof -
  have p: "co_owner (snd (persist w c)) = co_owner c" for c
    by (simp add: persist_def Let_def split: option.split provider_exn.split)
  have u: "co_owner (snd (route_lease w l caps c)) = co_owner c" "co_owner (snd (unroute_lease w i c)) = co_owner c" for l caps i c
    by (simp_all add: route_lease_def unroute_lease_def split: prod.split option.split)
  obtain e d where d: "persist w (c\<lparr>co_record := Some (r\<lparr>lr_lease := Some l\<rparr>)\<rparr>) = (e, d)" by fastforce
  have od: "co_owner d = co_owner c" using p [of "c\<lparr>co_record := Some (r\<lparr>lr_lease := Some l\<rparr>)\<rparr>"] d by simp
  have s: "snd (case x of (None, c2) \<Rightarrow> (Inr l, c2) | (Some e, c2) \<Rightarrow> (Inl e, c2)) = snd x" for x :: "lease_error option \<times> coordinator"
    by (simp split: prod.split option.split)
  show ?thesis using od by (simp add: apply_provider_lease_def d s u split: option.split)
qed

lemma refresh_owner: "co_owner (snd (refresh_provider_lease w r purpose c)) = co_owner c"
  by (simp add: refresh_provider_lease_def after_call_def apply_owner split: option.split sum.split provider_exn.split)

lemma acquire_planned:
  assumes w: "reliable_storage w" and p: "planned c"
  shows "planned (snd (acquire w rq c))"
proof (cases "rq_owner rq = co_owner c \<and> lw_admitted w (tick c)")
  case True
  show ?thesis
  proof (cases "co_record c")
    case None
    then show ?thesis using acquire_new_planned [OF w p] True by (simp add: acquire_def)
  next
    case (Some r)
    have o: "rq_owner (lr_request r) = co_owner c" using p Some by (simp add: planned_def)
    show ?thesis
    proof (cases "lr_lease r")
      case None
      then show ?thesis using True Some p call_acquire_planned [OF w p Some None] by (simp add: acquire_def)
    next
      case l: (Some l)
      obtain a d where a: "refresh_provider_lease w r ''reconcile original lease before replacement'' c = (a, d)" by fastforce
      have d: "planned d" "co_owner d = co_owner c"
        using refresh_planned [OF w p o] refresh_owner by (metis a snd_conv)+
      then show ?thesis using True Some l p acquire_new_planned [OF w, of _ rq]
        by (cases a; cases "lw_terminal w (le_state l)") (simp_all add: acquire_def a)
    qed
  qed
qed (use p in \<open>auto simp: acquire_def\<close>)

lemma record_planned: "record_for_lease w lid c = Inr (r, l) \<Longrightarrow> planned c \<Longrightarrow> rq_owner (lr_request r) = co_owner c"
  using record_for_lease_found by (fastforce simp: planned_def)

lemma lease_status_planned: "reliable_storage w \<Longrightarrow> planned c \<Longrightarrow> planned (snd (lease_status w lid c))"
proof (cases "record_for_lease w lid c")
  case (Inr rl)
  assume "reliable_storage w" "planned c"
  then show ?thesis using record_planned [of w lid c "fst rl" "snd rl"] Inr refresh_planned [of w c "fst rl"]
    by (cases rl) (simp add: lease_status_def)
qed (simp add: lease_status_def)

lemma touch_planned: "reliable_storage w \<Longrightarrow> planned c \<Longrightarrow> planned (snd (touch w lid c))"
proof (cases "record_for_lease w lid c")
  case (Inr rl)
  assume w: "reliable_storage w" and p: "planned c"
  have o: "rq_owner (lr_request (fst rl)) = co_owner c" using record_planned [of w lid c "fst rl" "snd rl"] Inr p by simp
  have "planned (note_effect (Touch_Called x (co_owner c) lid) c)" for x by (rule planned_note [OF p]) simp_all
  then show ?thesis using w p o Inr after_call_planned [OF w, of _ "fst rl"]
    by (cases rl) (simp add: touch_def split: option.split)
qed (simp add: touch_def)

lemma release_live_planned:
  assumes w: "reliable_storage w" and p: "planned c" and o: "rq_owner (lr_request r) = co_owner c" and l: "le_id cur = lid"
  shows "planned (snd (release_live w r cur lid now c))"
proof -
  obtain e c1 where u: "unroute_lease w lid c = (e, c1)" by fastforce
  have p1: "planned c1" using unroute_lease_planned [OF p, of w lid] by (simp add: u)
  show ?thesis
  proof (cases e)
    case None
    have log: "co_log c1 = co_log c @ [Unrouted lid]" and ow: "co_owner c1 = co_owner c"
      using u None by (auto simp: unroute_lease_def split: prod.splits option.splits)
    define rel where "rel = cur\<lparr>le_state := RELEASING, le_route := None, le_failure := None, le_updated := now\<rparr>"
    define r' where "r' = r\<lparr>lr_lease := Some rel\<rparr>"
    let ?d = "to_persisted_dict r'"
    define c2 where "c2 = note_effect (Persisted (Some ?d)) (c1\<lparr>co_record := Some r', co_stored := Some ?d\<rparr>)"
    have s1: "stored_ok c1" using p1 by (simp add: planned_def)
    have pw: "persist w (c1\<lparr>co_record := Some r'\<rparr>) = (None, c2)"
      using persist_reliable [OF w, of "c1\<lparr>co_record := Some r'\<rparr>" r'] s1 by (simp add: stored_ok_def c2_def)
    have o2: "rq_owner (lr_request r') = co_owner c1" by (simp add: r'_def o ow)
    have p2: "planned c2" unfolding c2_def by (rule planned_persist [OF s1 o2])
    have ow2: "co_owner c2 = co_owner c1" by (simp add: c2_def)
    have d: "pl_lease ?d = Stored (public_lease rel)" by (simp add: to_persisted_dict_def r'_def)
    have rel_id: "le_id (public_lease rel) = lid" "le_state (public_lease rel) = RELEASING"
      by (simp_all add: public_lease_def rel_def l)
    have lg: "co_log c2 = co_log c @ [Unrouted lid, Persisted (Some ?d)]" by (simp add: c2_def log)
    have "backed_by (co_owner c2) (co_log c2) (Release_Called (lr_provider r) (co_owner c2) lid)"
      unfolding lg using d rel_id by auto
    then have "planned (note_effect (Release_Called (lr_provider r) (co_owner c2) lid) c2)"
      by (rule planned_note [OF p2]) simp
    then have "planned (snd (after_call w r' purpose a (note_effect (Release_Called (lr_provider r) (co_owner c2) lid) c2)))" for purpose a
      using after_call_planned [OF w, of _ r'] o2 ow2 by simp
    then show ?thesis using p2
      by (simp add: release_live_def u None Let_def rel_def [symmetric] r'_def [symmetric] pw split: option.split)
  qed (use p1 in \<open>simp add: release_live_def u\<close>)
qed

lemma refresh_keeps_id:
  "refresh_provider_lease w r purpose c = (Inr cur, d) \<Longrightarrow> lr_lease r = Some l \<Longrightarrow> le_id cur = le_id l"
  by (auto simp: refresh_provider_lease_def after_call_def apply_provider_lease_def dest: transition_ok
      split: option.splits sum.splits provider_exn.splits if_splits prod.splits)

lemma release_planned:
  assumes w: "reliable_storage w" and p: "planned c"
  shows "planned (snd (release w lid now c))"
proof (cases "record_for_lease w lid c")
  case (Inr rl)
  obtain r l where rl: "rl = (r, l)" by fastforce
  have rec: "co_record c = Some r" "lr_lease r = Some l" "le_id l = lid" using record_for_lease_found Inr rl by auto
  have o: "rq_owner (lr_request r) = co_owner c" using p rec by (simp add: planned_def)
  obtain a d where a: "refresh_provider_lease w r ''reconcile original cleanup state'' c = (a, d)" by fastforce
  have d: "planned d" "co_owner d = co_owner c"
    using refresh_planned [OF w p o] refresh_owner by (metis a snd_conv)+
  have "planned (snd (release_live w r cur lid now d))" if "a = Inr cur" for cur
    by (rule release_live_planned [OF w d(1)]) (use d o refresh_keeps_id [of w r _ c cur d l] a that rec in simp_all)
  moreover have "planned (snd (release_live w r l lid now c))" by (rule release_live_planned [OF w p o rec(3)])
  ultimately show ?thesis using p d by (cases a; cases "lw_terminal w (le_state l)") (simp_all add: release_def Inr rl a)
qed (use p in \<open>simp add: release_def\<close>)

lemma restored_plan:
  assumes "from_persisted_dict w (to_persisted_dict r0) owner = Inr r" and "rq_owner (lr_request r0) = owner"
  shows "rq_owner (lr_request r) = owner \<and> mirrored (Some (to_persisted_dict r0)) r"
  using assms by (cases r0) (auto simp: from_persisted_dict_def to_persisted_dict_def request_from_public_def Let_def
      mirrored_def public_lease_def lease_reference_def split: option.splits if_splits)

lemma restart_planned:
  assumes w: "reliable_storage w" and p: "planned c"
  shows "planned (snd (restart w b c))"
proof -
  let ?c = "c\<lparr>co_record := None, co_service := new_service b\<rparr>"
  have s: "stored_ok ?c" and pc: "planned ?c" using p by (simp_all add: planned_def stored_ok_def)
  have "planned (snd (restore w (co_stored c) ?c))"
  proof (cases "co_stored c")
    case (Some d)
    obtain r0 where r0: "d = to_persisted_dict r0" "rq_owner (lr_request r0) = co_owner c"
      using p Some by (auto simp: planned_def stored_ok_def)
    show ?thesis
    proof (cases "from_persisted_dict w d (co_owner c)")
      case (Inr r)
      let ?d = "?c\<lparr>co_record := Some r\<rparr>"
      have r: "rq_owner (lr_request r) = co_owner c" "mirrored (Some d) r"
        using restored_plan Inr r0 by blast+
      have pd: "planned ?d" unfolding planned_def
      proof (intro conjI allI impI)
        show "stored_ok ?d" using s by (simp add: stored_ok_def)
      qed (use Some r0 r in auto)
      define x where "x = (if lr_lease r \<noteq> None then refresh_provider_lease w r ''reconcile persisted state'' ?d
        else call_acquire w r ''reconcile persisted state'' ?d)"
      have "planned (snd x)" using refresh_planned [OF w pd] call_acquire_planned [OF w pd] r by (simp add: x_def)
      moreover have "snd (restore w (co_stored c) ?c) = (if lw_admitted w (tick ?c) then snd x else ?c)"
        by (simp add: restore_def Some Inr x_def split: prod.split sum.split)
      ultimately show ?thesis using pc by simp
    qed (use pc in \<open>simp add: restore_def Some\<close>)
  qed (use pc in \<open>simp add: restore_def\<close>)
  then show ?thesis by (simp add: restart_def)
qed

lemma lease_step_planned: "reliable_storage w \<Longrightarrow> planned c \<Longrightarrow> planned (lease_step w c e)"
  by (cases e) (simp_all add: acquire_planned lease_status_planned touch_planned release_planned restart_planned)

interpretation leases: guarded_machine "lease_step w" "\<lambda>_ _. reliable_storage w" planned for w
  by unfold_locales (rule lease_step_planned)

lemma run_ok_true: "reliable_storage w \<Longrightarrow> run_ok (\<lambda>_ _. reliable_storage w) (lease_step w) c es"
  by (induction es arbitrary: c) simp_all

lemma new_coordinator_planned: "planned (new_coordinator owner providers True b)"
  by (simp add: planned_def stored_ok_def new_coordinator_def last_stored_def)

subsection \<open>The owner never changes\<close>

lemma after_call_owner: "co_owner (snd (after_call w r purpose a c)) = co_owner c"
  by (simp add: after_call_def apply_owner split: sum.split provider_exn.split)

lemma call_acquire_owner: "co_owner (snd (call_acquire w r purpose c)) = co_owner c"
  by (simp add: call_acquire_def after_call_owner split: option.split)

lemma persist_owner: "persist w c = (e, d) \<Longrightarrow> co_owner d = co_owner c"
  by (rule persist_fields(3))

lemma acquire_new_owner: "co_owner (snd (acquire_new w rq c)) = co_owner c"
proof -
  obtain a d where g: "gather_quotes w (sort_key fst (co_providers c)) rq c = (a, d)" by fastforce
  have f: "co_owner d = co_owner c" using gather_quotes_fields [of w "sort_key fst (co_providers c)" rq c] by (simp add: g)
  show ?thesis
  proof (cases "\<exists>q qs. a = Inr (q # qs)")
    case True
    then obtain q qs where a: "a = Inr (q # qs)" by blast
    define r where "r = \<lparr>lr_provider = qu_provider (cheapest (q # qs)), lr_request = rq, lr_quote = cheapest (q # qs), lr_lease = None\<rparr>"
    obtain e c2 where p: "persist w (d\<lparr>co_record := Some r\<rparr>) = (e, c2)" by fastforce
    have "co_owner c2 = co_owner c" using persist_owner [OF p] f by simp
    then show ?thesis unfolding acquire_new_def g a
      by (simp add: Let_def r_def [symmetric] p call_acquire_owner split: option.split)
  next
    case False
    then show ?thesis using f by (cases a) (auto simp: acquire_new_def g neq_Nil_conv split: list.split)
  qed
qed

lemma release_live_owner: "co_owner (snd (release_live w r cur lid now c)) = co_owner c"
proof -
  obtain e c1 where u: "unroute_lease w lid c = (e, c1)" by fastforce
  have o1: "co_owner c1 = co_owner c" using u by (auto simp: unroute_lease_def split: prod.splits option.splits)
  let ?r = "r\<lparr>lr_lease := Some (cur\<lparr>le_state := RELEASING, le_route := None, le_failure := None, le_updated := now\<rparr>)\<rparr>"
  obtain e2 c2 where p: "persist w (c1\<lparr>co_record := Some ?r\<rparr>) = (e2, c2)" by fastforce
  have "co_owner c2 = co_owner c" using persist_owner [OF p] o1 by simp
  with o1 show ?thesis by (simp add: release_live_def u Let_def p after_call_owner split: option.split)
qed

lemma two_stage:
  "(\<And>l d. x = (Inr l, d) \<Longrightarrow> co_owner (snd (f l d)) = k) \<Longrightarrow> co_owner (snd x) = k \<Longrightarrow>
    co_owner (snd (case x of (Inl e, d) \<Rightarrow> (Inl e, d) | (Inr l, d) \<Rightarrow> f l d)) = (k :: string)"
  by (cases x; cases "fst x") auto

lemma lease_step_owner: "co_owner (lease_step w c e) = co_owner c"
proof (cases e)
  case (Acquire rq)
  have "co_owner (snd (case (if lw_terminal w (le_state l) then refresh_provider_lease w r p c else (Inr l, c)) of
      (Inl e, c1) \<Rightarrow> (Inl e, c1)
    | (Inr l1, c1) \<Rightarrow> if \<not> lw_terminal w (le_state l1) then (Inl Release_First, c1) else acquire_new w rq c1)) = co_owner c" for l r p
    by (rule two_stage) (auto simp: refresh_owner acquire_new_owner dest: arg_cong [where f = "\<lambda>x. co_owner (snd x)"] split: if_splits)
  then show ?thesis unfolding Acquire
    by (simp add: acquire_def acquire_new_owner call_acquire_owner split: option.split)
next
  case (Release lid now)
  have "co_owner (snd (case (if lw_terminal w (le_state l) then refresh_provider_lease w r p c else (Inr l, c)) of
      (Inl e, c1) \<Rightarrow> (Inl e, c1)
    | (Inr cur, c1) \<Rightarrow> if le_state cur \<in> {RELEASED, EXPIRED} then (Inr cur, c1) else release_live w r cur lid now c1)) = co_owner c" for l r p
    by (rule two_stage) (auto simp: refresh_owner release_live_owner dest: arg_cong [where f = "\<lambda>x. co_owner (snd x)"] split: if_splits)
  then show ?thesis unfolding Release by (simp add: release_def split: sum.split)
next
  case (Restart b)
  have x: "snd (case y of (Inl e, d) \<Rightarrow> (Inl e, d) | (Inr l, d) \<Rightarrow> (Inr (Some l), d)) = snd y"
    for y :: "(lease_error + inference_lease) \<times> coordinator"
    by (simp split: prod.split sum.split)
  have "co_owner (snd (restore w p d)) = co_owner d" for p d
    by (cases p) (simp_all add: restore_def Let_def x refresh_owner call_acquire_owner split: sum.split)
  then show ?thesis unfolding Restart by (simp add: restart_def)
qed (simp_all add: lease_status_def touch_def refresh_owner after_call_owner split: sum.split option.split)

lemma lease_run_owner: "co_owner (run (lease_step w) c es) = co_owner c"
  by (induction es arbitrary: c) (simp_all add: lease_step_owner)

text \<open>
  C6: With a storage that keeps what it is given, billable provider calls are backed by the record: when
  a provider is asked to acquire, the storage holds the plan with exactly that provider, request and
  quote, so a crash at any point resumes the same acquisition; and when a provider is asked to release,
  the route was drained and then the intention to release was stored immediately before. Every request
  and every lease call names the coordinator's owner.
\<close>

theorem provider_calls_are_backed:
  assumes "reliable_storage w"
    and "co_log (run (lease_step w) (new_coordinator owner providers True b) es) = xs @ f # ys"
  shows "(\<forall>p rq q. f = Acquire_Called p rq q \<longrightarrow> rq_owner rq = owner \<and> last_stored xs = Some (lease_plan p rq q)) \<and>
    (\<forall>p user lid. f = Release_Called p user lid \<longrightarrow> user = owner \<and>
       (\<exists>zs d l. xs = zs @ [Unrouted lid, Persisted (Some d)] \<and> pl_lease d = Stored l \<and> le_id l = lid \<and> le_state l = RELEASING)) \<and>
    (\<forall>p user lid. f = Status_Called p user lid \<or> f = Touch_Called p user lid \<longrightarrow> user = owner) \<and>
    (\<forall>p rq. f = Quote_Asked p rq \<longrightarrow> rq_owner rq = owner)"
proof -
  let ?c = "run (lease_step w) (new_coordinator owner providers True b) es"
  have "planned ?c"
    by (rule leases.run_inv [OF new_coordinator_planned run_ok_true [OF assms(1)]])
  moreover have "co_owner ?c = owner" by (simp add: lease_run_owner new_coordinator_def)
  ultimately have "well_ordered owner (co_log ?c)" by (simp add: planned_def stored_ok_def)
  then have "backed_by owner xs f" using assms(2) by (auto simp: well_ordered_def)
  then show ?thesis by (cases f) auto
qed

subsection \<open>Released capacity is not routed again\<close>

definition winding :: "lease_state \<Rightarrow> bool" where
  "winding st \<longleftrightarrow> st \<notin> {PENDING, READY}"

lemma winding_step: "winding p \<Longrightarrow> st \<in> ALLOWED_TRANSITIONS p \<Longrightarrow> winding st"
  by (cases p) (auto simp: winding_def ALLOWED_TRANSITIONS_def)

definition is_routing :: "lease_effect \<Rightarrow> bool" where
  "is_routing f \<longleftrightarrow> (case f of Routed _ \<Rightarrow> True | Route_Failed _ \<Rightarrow> True | _ \<Rightarrow> False)"

definition wound :: "string \<Rightarrow> lease_effect list \<Rightarrow> coordinator \<Rightarrow> bool" where
  "wound lid fs c \<longleftrightarrow> co_durable c \<and> filter is_routing (co_log c) = fs \<and>
     (\<exists>d m. co_stored c = Some d \<and> pl_lease d = Stored m \<and> le_id m = lid \<and> winding (le_state m)) \<and>
     (\<forall>r. co_record c = Some r \<longrightarrow> (\<exists>l. lr_lease r = Some l \<and> le_id l = lid \<and> winding (le_state l)))"

lemma wound_note [simp]: "\<not> is_routing f \<Longrightarrow> wound lid fs (note_effect f c) = wound lid fs c"
  by (simp add: wound_def)

lemma wound_service [simp]: "wound lid fs (c\<lparr>co_service := s\<rparr>) = wound lid fs c"
  by (simp add: wound_def)

lemma not_routing [simp]:
  "\<not> is_routing (Persisted p)" "\<not> is_routing (Status_Called n u i)" "\<not> is_routing (Release_Called n u i)"
  "\<not> is_routing (Touch_Called n u i)" "\<not> is_routing (Unrouted i)" "\<not> is_routing (Drain_Failed i)"
  by (simp_all add: is_routing_def)

lemma wound_persist:
  assumes "wound lid fs c" and "lr_lease r = Some l" "le_id l = lid" "winding (le_state l)"
  shows "wound lid fs (note_effect (Persisted (Some (to_persisted_dict r))) (c\<lparr>co_record := Some r, co_stored := Some (to_persisted_dict r)\<rparr>))"
  using assms by (simp add: wound_def to_persisted_dict_def public_lease_def)

lemma unroute_wound: "wound lid fs (snd (unroute_lease w i c)) = wound lid fs c"
  by (simp add: unroute_lease_def split: prod.split option.split)

lemma result_snd:
  "snd (case x of (None, d) \<Rightarrow> (Inr l, d) | (Some e, d) \<Rightarrow> (Inl e, d)) = snd (x :: lease_error option \<times> coordinator)"
  by (simp split: prod.split option.split)

lemma apply_wound:
  assumes w: "reliable_storage w" and c: "wound lid fs c" and r: "lr_lease r = Some p" "le_id p = lid" "winding (le_state p)"
  shows "wound lid fs (snd (apply_provider_lease w r l c))"
proof (cases "validate_transition (Some p) l")
  case None
  then have l: "le_id l = lid" "winding (le_state l)" using transition_ok [OF None] winding_step r by auto
  let ?r = "r\<lparr>lr_lease := Some l\<rparr>"
  let ?c = "note_effect (Persisted (Some (to_persisted_dict ?r))) (c\<lparr>co_record := Some ?r, co_stored := Some (to_persisted_dict ?r)\<rparr>)"
  have pw: "persist w (c\<lparr>co_record := Some ?r\<rparr>) = (None, ?c)"
    using persist_reliable [OF w, of "c\<lparr>co_record := Some ?r\<rparr>" ?r] c by (simp add: wound_def)
  have pc: "wound lid fs ?c" by (rule wound_persist [OF c, of ?r l]) (simp_all add: l)
  have "le_state l \<noteq> PENDING" "le_state l \<noteq> READY" using l by (auto simp: winding_def)
  then show ?thesis using c pc pw r
    by (simp add: apply_provider_lease_def None result_snd unroute_wound)
qed (use c r in \<open>simp add: apply_provider_lease_def\<close>)

lemma after_call_wound:
  "reliable_storage w \<Longrightarrow> wound lid fs c \<Longrightarrow> lr_lease r = Some p \<Longrightarrow> le_id p = lid \<Longrightarrow> winding (le_state p) \<Longrightarrow>
    wound lid fs (snd (after_call w r purpose a c))"
  by (simp add: after_call_def apply_wound split: sum.split provider_exn.split)

lemma refresh_wound:
  "reliable_storage w \<Longrightarrow> wound lid fs c \<Longrightarrow> lr_lease r = Some p \<Longrightarrow> le_id p = lid \<Longrightarrow> winding (le_state p) \<Longrightarrow>
    wound lid fs (snd (refresh_provider_lease w r purpose c))"
  by (simp add: refresh_provider_lease_def after_call_wound split: option.split)

lemma release_live_wound:
  assumes w: "reliable_storage w" and c: "wound lid fs c" and l: "le_id cur = lid"
  shows "wound lid fs (snd (release_live w r cur i now c))"
proof -
  obtain e c1 where u: "unroute_lease w i c = (e, c1)" by fastforce
  have c1: "wound lid fs c1" using unroute_wound [of lid fs w i c] c by (simp add: u)
  define r' where "r' = r\<lparr>lr_lease := Some (cur\<lparr>le_state := RELEASING, le_route := None, le_failure := None, le_updated := now\<rparr>)\<rparr>"
  define c2 where "c2 = note_effect (Persisted (Some (to_persisted_dict r'))) (c1\<lparr>co_record := Some r', co_stored := Some (to_persisted_dict r')\<rparr>)"
  have pw: "persist w (c1\<lparr>co_record := Some r'\<rparr>) = (None, c2)"
    using persist_reliable [OF w, of "c1\<lparr>co_record := Some r'\<rparr>" r'] c1 by (simp add: wound_def c2_def)
  have c2: "wound lid fs c2" unfolding c2_def
    by (rule wound_persist [OF c1, of r' "cur\<lparr>le_state := RELEASING, le_route := None, le_failure := None, le_updated := now\<rparr>"])
      (simp_all add: r'_def l winding_def)
  have "wound lid fs (snd (after_call w r' purpose a (note_effect (Release_Called n u i) c2)))" for purpose a n u
    by (rule after_call_wound [OF w, of _ _ _ _ "cur\<lparr>le_state := RELEASING, le_route := None, le_failure := None, le_updated := now\<rparr>"]) (use c2 in \<open>simp_all add: r'_def l winding_def\<close>)
  then show ?thesis using c1 c2
    by (simp add: release_live_def u Let_def r'_def [symmetric] pw split: option.split)
qed

lemma record_for_wound:
  assumes "wound lid fs c" and "record_for_lease w i c = Inr (r, l)"
  shows "lr_lease r = Some l" "le_id l = lid" "winding (le_state l)"
  using assms record_for_lease_found [OF assms(2)] by (auto simp: wound_def)

lemma lease_step_wound:
  assumes w: "reliable_storage w" and c: "wound lid fs c" and e: "\<forall>rq. e \<noteq> Acquire rq"
  shows "wound lid fs (lease_step w c e)"
proof (cases e)
  case (Status i)
  show ?thesis
  proof (cases "record_for_lease w i c")
    case (Inr rl)
    then have "record_for_lease w i c = Inr (fst rl, snd rl)" by simp
    note f = record_for_wound [OF c this]
    show ?thesis unfolding Status using c refresh_wound [OF w c f] Inr by (cases rl) (simp add: lease_status_def)
  qed (use c in \<open>simp add: Status lease_status_def\<close>)
next
  case (Touch i)
  show ?thesis
  proof (cases "record_for_lease w i c")
    case (Inr rl)
    then have "record_for_lease w i c = Inr (fst rl, snd rl)" by simp
    note f = record_for_wound [OF c this]
    then have "le_state (snd rl) \<noteq> READY" by (auto simp: winding_def)
    then show ?thesis unfolding Touch using c Inr by (cases rl) (simp add: touch_def)
  qed (use c in \<open>simp add: Touch touch_def\<close>)
next
  case (Release i now)
  show ?thesis
  proof (cases "record_for_lease w i c")
    case (Inr rl)
    obtain r l where rl: "rl = (r, l)" by fastforce
    have f: "lr_lease r = Some l" "le_id l = lid" "winding (le_state l)" using record_for_wound [OF c] Inr rl by blast+
    obtain a d where a: "refresh_provider_lease w r ''reconcile original cleanup state'' c = (a, d)" by fastforce
    have d: "wound lid fs d" using refresh_wound [OF w c f, of "''reconcile original cleanup state''"] by (simp add: a)
    have "a = Inr cur \<Longrightarrow> le_id cur = lid" for cur using refresh_keeps_id [OF _ f(1)] a f by blast
    then have "a = Inr cur \<Longrightarrow> wound lid fs (snd (release_live w r cur i now d))" for cur
      using release_live_wound [OF w d] by blast
    then show ?thesis unfolding Release using c d release_live_wound [OF w c f(2)]
      by (cases a; cases "lw_terminal w (le_state l)") (simp_all add: release_def Inr rl a)
  qed (use c in \<open>simp add: Release release_def\<close>)
next
  case (Restart b)
  let ?c = "c\<lparr>co_record := None, co_service := new_service b\<rparr>"
  obtain d m where d: "co_stored c = Some d" "pl_lease d = Stored m" "le_id m = lid" "winding (le_state m)"
    using c by (auto simp: wound_def)
  have wc: "wound lid fs ?c" using c by (simp add: wound_def)
  have "wound lid fs (snd (restore w (Some d) ?c))"
  proof (cases "from_persisted_dict w d (co_owner c)")
    case (Inr r)
    have l: "lr_lease r = Some (lease_reference (co_owner c) m)"
      using Inr d by (auto simp: from_persisted_dict_def Let_def split: if_splits stored.splits)
    have ref: "le_id (lease_reference (co_owner c) m) = lid" "winding (le_state (lease_reference (co_owner c) m))"
      using d by (auto simp: lease_reference_def winding_def Let_def)
    have "wound lid fs (?c\<lparr>co_record := Some r\<rparr>)" using wc l ref by (simp add: wound_def)
    from refresh_wound [OF w this l ref] wc show ?thesis
      by (simp add: restore_def Inr l split: prod.split sum.split) (metis snd_conv)
  qed (use wc in \<open>simp add: restore_def\<close>)
  then show ?thesis by (simp add: Restart restart_def d)
qed (use e in simp)

lemma wound_run:
  "reliable_storage w \<Longrightarrow> wound lid fs c \<Longrightarrow> \<forall>e \<in> set es. \<forall>rq. e \<noteq> Acquire rq \<Longrightarrow> wound lid fs (run (lease_step w) c es)"
  by (induction es arbitrary: c) (simp_all add: lease_step_wound del: lease_step.simps)

text \<open>
  C29: With a durable storage that keeps every record it is given (\<open>reliable_storage\<close>, and a
  coordinator created with the storage at hand), once the recorded lease is being released or has
  failed, been released or expired, the service is never given its route again: until the owner asks
  for a new acquisition, no poll, renewal, release or restart, and nothing a provider answers, makes
  the coordinator activate a route, and the recorded lease stays wound up. The storage hypothesis is
  needed: \<open>unsaved_release_routes_again\<close> below.
\<close>

theorem released_lease_is_never_routed_again:
  assumes "reliable_storage w" and "c = run (lease_step w) (new_coordinator owner providers True b) es"
    and "recorded_lease c = Some l" and "le_state l \<notin> {PENDING, READY}"
    and "\<forall>e \<in> set later. \<forall>rq. e \<noteq> Acquire rq" and "c' = run (lease_step w) c later"
  shows "filter is_routing (co_log c') = filter is_routing (co_log c) \<and>
    (\<forall>m. recorded_lease c' = Some m \<longrightarrow> le_id m = le_id l \<and> le_state m \<notin> {PENDING, READY})"
proof -
  have p: "planned c" unfolding assms(2) by (rule leases.run_inv [OF new_coordinator_planned run_ok_true [OF assms(1)]])
  obtain r where r: "co_record c = Some r" "lr_lease r = Some l"
    using assms(3) by (auto simp: recorded_lease_def split: option.splits)
  then have "mirrored (co_stored c) r" and "co_durable c" using p unfolding planned_def stored_ok_def by blast+
  then have "wound (le_id l) (filter is_routing (co_log c)) c"
    using r assms(4) by (auto simp: wound_def mirrored_def winding_def)
  then have "wound (le_id l) (filter is_routing (co_log c)) (run (lease_step w) c later)"
    by (rule wound_run [OF assms(1) _ assms(5)])
  then show ?thesis
    by (auto simp: assms(6) wound_def winding_def recorded_lease_def split: option.splits)
qed

subsection \<open>The chosen quote\<close>

lemma arg_min_list_least:
  "qs \<noteq> [] \<Longrightarrow> arg_min_list f qs \<in> set qs \<and> (\<forall>q \<in> set qs. f (arg_min_list f qs) \<le> (f q :: 'k::linorder))"
  by (simp add: arg_min_list_in f_arg_min_list_f)

text \<open>A new acquisition asks the provider of the cheapest valid quote, and no other, to acquire.\<close>

definition asked_to_acquire :: "lease_effect list \<Rightarrow> (string \<times> lease_request \<times> lease_quote) list" where
  "asked_to_acquire fs = concat (map (\<lambda>f. case f of Acquire_Called p rq q \<Rightarrow> [(p, rq, q)] | _ \<Rightarrow> []) fs)"

lemma asked_simps [simp]:
  "asked_to_acquire [] = []" "asked_to_acquire (fs @ gs) = asked_to_acquire fs @ asked_to_acquire gs"
  "asked_to_acquire (f # fs) = (case f of Acquire_Called p rq q \<Rightarrow> [(p, rq, q)] | _ \<Rightarrow> []) @ asked_to_acquire fs"
  by (simp_all add: asked_to_acquire_def)

text \<open>What a provider that answers the same at any time offers for a request.\<close>

definition offer :: "lease_world \<Rightarrow> lease_request \<Rightarrow> lease_provider \<Rightarrow> lease_quote option" where
  "offer w rq v =
     (if pv_available v 0 = Inr True \<and> pv_satisfies v 0 rq = Inr True
      then (case pv_quote v 0 rq of Inl _ \<Rightarrow> None
            | Inr q \<Rightarrow> if lw_quote_valid w rq q \<and> qu_provider q = lower (strip (pv_name v)) then Some q else None)
      else None)"

definition steady :: "lease_request \<Rightarrow> lease_provider \<Rightarrow> bool" where
  "steady rq v \<longleftrightarrow> (\<forall>n. pv_available v n = pv_available v 0 \<and> pv_satisfies v n rq = pv_satisfies v 0 rq \<and>
     pv_quote v n rq = pv_quote v 0 rq) \<and>
     pv_available v 0 \<noteq> Inl Control \<and> pv_satisfies v 0 rq \<noteq> Inl Control \<and> pv_quote v 0 rq \<noteq> Inl Control"

lemma quote_provider_steady:
  assumes v: "steady rq v" and a: "\<forall>n. lw_admitted w n"
  shows "fst (quote_provider w v rq c) = Inr (offer w rq v) \<and>
    asked_to_acquire (co_log (snd (quote_provider w v rq c))) = asked_to_acquire (co_log c)"
proof -
  have same: "pv_available v (tick c) = pv_available v 0" "pv_satisfies v (tick c) rq = pv_satisfies v 0 rq"
    "pv_quote v (tick c) rq = pv_quote v 0 rq"
    and ok: "pv_available v 0 \<noteq> Inl Control" "pv_satisfies v 0 rq \<noteq> Inl Control" "pv_quote v 0 rq \<noteq> Inl Control"
    using v by (simp_all add: steady_def)
  show ?thesis unfolding quote_provider_def Let_def same using a ok
    by (auto simp: offer_def split: sum.splits provider_exn.splits bool.splits)
qed

lemma gather_quotes_steady:
  assumes a: "\<forall>n. lw_admitted w n"
  shows "\<forall>nv \<in> set vs. steady rq (snd nv) \<Longrightarrow>
    fst (gather_quotes w vs rq c) = Inr (List.map_filter (\<lambda>nv. offer w rq (snd nv)) vs) \<and>
    asked_to_acquire (co_log (snd (gather_quotes w vs rq c))) = asked_to_acquire (co_log c)"
proof (induction vs arbitrary: c)
  case (Cons nv vs)
  obtain x d where q: "quote_provider w (snd nv) rq c = (x, d)" by fastforce
  obtain y e where g: "gather_quotes w vs rq d = (y, e)" by fastforce
  have "steady rq (snd nv)" using Cons.prems by simp
  from quote_provider_steady [OF this a, of c] have x: "x = Inr (offer w rq (snd nv))"
    "asked_to_acquire (co_log d) = asked_to_acquire (co_log c)" by (simp_all add: q)
  have "y = Inr (List.map_filter (\<lambda>nv. offer w rq (snd nv)) vs)"
    "asked_to_acquire (co_log e) = asked_to_acquire (co_log d)"
    using Cons.IH [of d] Cons.prems by (simp_all add: g)
  with x show ?case by (cases "offer w rq (snd nv)") (simp_all add: q g List.map_filter_simps)
qed (simp add: List.map_filter_simps)

lemma apply_asks_nobody:
  "asked_to_acquire (co_log (snd (apply_provider_lease w r l c))) = asked_to_acquire (co_log c)"
proof -
  have p: "asked_to_acquire (co_log (snd (persist w c))) = asked_to_acquire (co_log c)" for c
    by (simp add: persist_def Let_def split: option.split provider_exn.split)
  have u: "asked_to_acquire (co_log (snd (route_lease w l caps c))) = asked_to_acquire (co_log c)"
    "asked_to_acquire (co_log (snd (unroute_lease w i c))) = asked_to_acquire (co_log c)" for l caps i c
    by (simp_all add: route_lease_def unroute_lease_def split: prod.split option.split)
  obtain e d where d: "persist w (c\<lparr>co_record := Some (r\<lparr>lr_lease := Some l\<rparr>)\<rparr>) = (e, d)" by fastforce
  have "asked_to_acquire (co_log d) = asked_to_acquire (co_log c)"
    using p [of "c\<lparr>co_record := Some (r\<lparr>lr_lease := Some l\<rparr>)\<rparr>"] by (simp add: d)
  then show ?thesis by (simp add: apply_provider_lease_def d result_snd u split: option.split)
qed

text \<open>
  C30: Consider a first acquisition (nothing is recorded yet) by the coordinator's own owner, with a
  durable storage that keeps what it is given, with the service admitting every step, and with
  providers registered under their own names that answer alike at any time and never with a control
  error (\<open>steady\<close>). It fails with \<open>No_Valid_Quote\<close>, asking nobody, when nobody offers a valid quote,
  and otherwise asks exactly one provider to acquire, once: the one whose quote is least in total cost,
  then time to ready, then hourly cost, then name, among all valid quotes that are offered. With a
  storage that fails nobody is asked (\<open>retry_acquires_without_a_plan\<close> below).
\<close>

theorem cheapest_provider_is_asked:
  assumes "co_record c = None" and "rq_owner rq = co_owner c" and "co_durable c"
    and "reliable_storage w" and "\<forall>n. lw_admitted w n"
    and "dict_wf (co_providers c)" and "\<forall>nv \<in> set (co_providers c). steady rq (snd nv) \<and> lower (strip (pv_name (snd nv))) = fst nv"
    and "offers = {q. \<exists>nv \<in> set (co_providers c). offer w rq (snd nv) = Some q}"
  shows "(offers = {} \<longrightarrow> fst (acquire w rq c) = Inl No_Valid_Quote \<and>
      asked_to_acquire (co_log (snd (acquire w rq c))) = asked_to_acquire (co_log c)) \<and>
    (offers \<noteq> {} \<longrightarrow> (\<exists>q \<in> offers. (\<forall>p \<in> offers. quote_key q \<le> quote_key p) \<and>
      asked_to_acquire (co_log (snd (acquire w rq c))) = asked_to_acquire (co_log c) @ [(qu_provider q, rq, q)]))"
proof -
  let ?vs = "sort_key fst (co_providers c)"
  obtain a d where g: "gather_quotes w ?vs rq c = (a, d)" by fastforce
  define qs where "qs = List.map_filter (\<lambda>nv. offer w rq (snd nv)) ?vs"
  have st: "\<forall>nv \<in> set ?vs. steady rq (snd nv)" using assms(7) by simp
  have a: "a = Inr qs" and asked: "asked_to_acquire (co_log d) = asked_to_acquire (co_log c)"
    using gather_quotes_steady [OF assms(5) st, of c] by (simp_all add: g qs_def)
  have set: "set qs = offers" by (force simp: qs_def assms(8) List.map_filter_def)
  have acq: "acquire w rq c = acquire_new w rq c" using assms(1,2,5) by (simp add: acquire_def)
  note f = gather_quotes_fields [of w ?vs rq c, unfolded g, simplified]
  show ?thesis
  proof (cases qs)
    case Nil
    then show ?thesis using set asked by (simp add: acq acquire_new_def g a)
  next
    case (Cons q0 rest)
    define q where "q = cheapest qs"
    have q: "q \<in> offers" "\<forall>p \<in> offers. quote_key q \<le> quote_key p"
      using arg_min_list_least [of qs quote_key] Cons set by (auto simp: q_def cheapest_def)
    define r where "r = \<lparr>lr_provider = qu_provider q, lr_request = rq, lr_quote = q, lr_lease = None\<rparr>"
    let ?c = "note_effect (Persisted (Some (to_persisted_dict r))) (d\<lparr>co_record := Some r, co_stored := Some (to_persisted_dict r)\<rparr>)"
    have pw: "persist w (d\<lparr>co_record := Some r\<rparr>) = (None, ?c)"
      using persist_reliable [OF assms(4), of "d\<lparr>co_record := Some r\<rparr>" r] f assms(3) by simp
    obtain nv where nv: "nv \<in> set (co_providers c)" "offer w rq (snd nv) = Some q"
      using q(1) unfolding assms(8) by blast
    then have "qu_provider q = fst nv"
      using assms(7) by (auto simp: offer_def split: if_splits sum.splits)
    then have "find_provider ?c (qu_provider q) = Some (snd nv)"
      using nv(1) assms(6) f by (simp add: find_provider_def dict_in_get)
    then have "asked_to_acquire (co_log (snd (call_acquire w r ''acquire capacity'' ?c))) = asked_to_acquire (co_log c) @ [(qu_provider q, rq, q)]"
      using assms(5) asked by (simp add: call_acquire_def after_call_def apply_asks_nobody r_def split: sum.split provider_exn.split)
    then have "asked_to_acquire (co_log (snd (acquire w rq c))) = asked_to_acquire (co_log c) @ [(qu_provider q, rq, q)]"
      unfolding acq acquire_new_def g a using pw
      by (simp add: Cons [symmetric] q_def [symmetric] r_def [symmetric] Let_def) (simp add: Cons q_def r_def Let_def)
    with q show ?thesis by blast
  qed
qed

subsection \<open>Witnesses\<close>

definition pod_request :: lease_request where
  "pod_request = \<lparr>rq_id = ''r1'', rq_owner = ''agent'', rq_model = ''qwen'', rq_runtime = ''ollama'', rq_max_hourly = 1,
     rq_max_total = 1, rq_privacy = AUTHENTICATED_ENDPOINT, rq_caps = [''chat''], rq_regions = [], rq_concurrency = 1,
     rq_session_seconds = 900, rq_idle_ttl = 300, rq_ready_deadline = 600, rq_requested = 0, rq_metadata = J_Null\<rparr>"

definition pod_quote :: "string \<Rightarrow> rat \<Rightarrow> lease_quote" where
  "pod_quote name cost = \<lparr>qu_id = ''q'', qu_request = ''r1'', qu_provider = name, qu_runtime = ''ollama'', qu_region = ''us'',
     qu_privacy = AUTHENTICATED_ENDPOINT, qu_hourly = 1, qu_total = cost, qu_ready = 30, qu_expires = 100, qu_metadata = J_Null\<rparr>"

definition pod_route :: inference_route where
  "pod_route = \<lparr>ro_protocol = ''openai'', ro_endpoint = ''https://gpu/v1'', ro_api_key = Some ''k'', ro_headers = []\<rparr>"

definition pod_lease :: "string \<Rightarrow> lease_state \<Rightarrow> int \<Rightarrow> inference_lease" where
  "pod_lease name st upd = \<lparr>le_id = ''L'', le_quote = ''q'', le_request = ''r1'', le_owner = ''agent'', le_provider = name,
     le_state = st, le_model = ''qwen'', le_runtime = ''ollama'', le_privacy = AUTHENTICATED_ENDPOINT, le_created = 0,
     le_updated = upd, le_expires = 1000, le_region = None, le_hourly = None, le_estimated = None,
     le_route = (if st = READY then Some pod_route else None), le_failure = None, le_metadata = J_Null\<rparr>"

definition pod_provider :: "string \<Rightarrow> rat \<Rightarrow> lease_provider" where
  "pod_provider name cost = \<lparr>pv_name = name, pv_available = (\<lambda>_. Inr True), pv_satisfies = (\<lambda>_ _. Inr True),
     pv_quote = (\<lambda>_ _. Inr (pod_quote name cost)), pv_acquire = (\<lambda>_ _ _. Inr (pod_lease name PENDING 1)),
     pv_status = (\<lambda>n _ _. Inr (pod_lease name READY (int n))), pv_touch = (\<lambda>n _ _. Inr (pod_lease name READY (int n))),
     pv_release = (\<lambda>n _ _. Inr (pod_lease name RELEASED (int n)))\<rparr>"

definition pod_world :: lease_world where
  "pod_world = \<lparr>lw_quote_valid = (\<lambda>rq q. qu_request q = rq_id rq), lw_lease_valid = (\<lambda>rq q l. le_request l = rq_id rq),
     lw_owner_ok = (\<lambda>o' l. le_owner l = o'), lw_terminal = (\<lambda>st. st \<in> {FAILED, RELEASED, EXPIRED}),
     lw_admitted = (\<lambda>_. True), lw_store_fails = (\<lambda>_. None), lw_calls = (\<lambda>_ _ s. s), lw_close_fails = (\<lambda>_. False)\<rparr>"

definition pod_providers :: "(string, lease_provider) dict" where
  "pod_providers = [(''costly'', pod_provider ''costly'' 2), (''cheap'', pod_provider ''cheap'' 1)]"

definition pod_start :: coordinator where
  "pod_start = new_coordinator ''agent'' pod_providers True (Other_Backend ''cloud'')"

lemma pod_calls: "calls_only pod_world" and pod_terminal: "terminal_states pod_world" and pod_reliable: "reliable_storage pod_world"
  by (simp_all add: calls_only_def terminal_states_def reliable_storage_def pod_world_def)

lemma route_follows_the_record_witness:
  "lease_answer pod_world (run (lease_step pod_world) pod_start [Acquire pod_request]) (Status ''L'') =
     Inr (Some (pod_lease ''cheap'' READY 5)) \<and>
   routed_lease (lease_step pod_world (run (lease_step pod_world) pod_start [Acquire pod_request]) (Status ''L'')) =
     Some (pod_lease ''cheap'' READY 5)"
proof -
  have a: "lease_answer pod_world (run (lease_step pod_world) pod_start [Acquire pod_request]) (Status ''L'') =
      Inr (Some (pod_lease ''cheap'' READY 5))"
    by code_simp
  have "le_state (pod_lease ''cheap'' READY 5) = READY" by code_simp
  with a route_follows_the_record [OF pod_calls pod_terminal refl, where e = "Status ''L''" and owner = "''agent''" and providers = pod_providers
      and durable = True and b = "Other_Backend ''cloud''" and es = "[Acquire pod_request]"]
  show ?thesis by (simp only: pod_start_def) simp
qed

definition pod_released :: coordinator where
  "pod_released = run (lease_step pod_world) pod_start [Acquire pod_request, Release ''L'' 3]"

lemma provider_calls_are_backed_witness:
  "\<exists>xs ys. co_log pod_released = xs @ Release_Called ''cheap'' ''agent'' ''L'' # ys \<and>
    (\<exists>zs d l. xs = zs @ [Unrouted ''L'', Persisted (Some d)] \<and> pl_lease d = Stored l \<and> le_state l = RELEASING)"
proof -
  let ?xs = "take 7 (co_log pod_released)" and ?ys = "drop 8 (co_log pod_released)"
  have log: "co_log pod_released = ?xs @ Release_Called ''cheap'' ''agent'' ''L'' # ?ys"
    by code_simp
  have run: "co_log pod_released = co_log (run (lease_step pod_world) (new_coordinator ''agent'' pod_providers True
      (Other_Backend ''cloud'')) [Acquire pod_request, Release ''L'' 3])"
    by (simp only: pod_released_def pod_start_def)
  have "\<exists>zs d l. ?xs = zs @ [Unrouted ''L'', Persisted (Some d)] \<and> pl_lease d = Stored l \<and> le_id l = ''L'' \<and> le_state l = RELEASING"
    using provider_calls_are_backed [OF pod_reliable run [symmetric, THEN trans, OF log]] by blast
  then show ?thesis using log by metis
qed

lemma released_lease_is_never_routed_again_witness:
  "filter is_routing (co_log (run (lease_step pod_world) pod_released [Status ''L'', Touch ''L'', Restart (Other_Backend ''cloud'')])) =
     filter is_routing (co_log pod_released)"
proof -
  have l: "recorded_lease (run (lease_step pod_world) (new_coordinator ''agent'' pod_providers True (Other_Backend ''cloud''))
      [Acquire pod_request, Release ''L'' 3]) = Some (pod_lease ''cheap'' RELEASED 7)"
    by code_simp
  have st: "le_state (pod_lease ''cheap'' RELEASED 7) \<notin> {PENDING, READY}" by (simp add: pod_lease_def)
  have "\<forall>e \<in> set [Status ''L'', Touch ''L'', Restart (Other_Backend ''cloud'')]. \<forall>rq. e \<noteq> Acquire rq" by simp
  from released_lease_is_never_routed_again [OF pod_reliable refl l st this refl] show ?thesis
    by (simp add: pod_released_def pod_start_def)
qed

lemma cheapest_provider_is_asked_witness:
  "asked_to_acquire (co_log (snd (acquire pod_world pod_request pod_start))) = [(''cheap'', pod_request, pod_quote ''cheap'' 1)]"
proof -
  let ?offers = "{q. \<exists>nv \<in> set (co_providers pod_start). offer pod_world pod_request (snd nv) = Some q}"
  have r: "co_record pod_start = None" "rq_owner pod_request = co_owner pod_start" "co_durable pod_start" "co_log pod_start = []"
    by (simp_all add: pod_start_def new_coordinator_def pod_request_def)
  have adm: "\<forall>n. lw_admitted pod_world n" by (simp add: pod_world_def)
  have wf: "dict_wf (co_providers pod_start)" by (simp add: pod_start_def new_coordinator_def pod_providers_def dict_wf_def)
  have steady: "steady pod_request (pod_provider name cost)" for name cost by (simp add: steady_def pod_provider_def)
  have names: "lower (strip ''costly'') = ''costly''" "lower (strip ''cheap'') = ''cheap''" by code_simp+
  have st: "\<forall>nv \<in> set (co_providers pod_start). steady pod_request (snd nv) \<and> lower (strip (pv_name (snd nv))) = fst nv"
    using steady names by (simp add: pod_start_def new_coordinator_def pod_providers_def) (simp add: pod_provider_def)
  have offers: "?offers = {pod_quote ''costly'' 2, pod_quote ''cheap'' 1}"
    using names by (auto simp: pod_start_def new_coordinator_def pod_providers_def offer_def pod_provider_def pod_world_def
        pod_quote_def pod_request_def)
  have less: "quote_key (pod_quote ''cheap'' 1) < quote_key (pod_quote ''costly'' 2)"
    by (simp add: quote_key_def pod_quote_def)
  obtain q where q: "q \<in> ?offers" "\<forall>p \<in> ?offers. quote_key q \<le> quote_key p"
    "asked_to_acquire (co_log (snd (acquire pod_world pod_request pod_start))) = [(qu_provider q, pod_request, q)]"
    using cheapest_provider_is_asked [OF r(1-3) pod_reliable adm wf st refl] offers r(4) by auto
  have "q = pod_quote ''cheap'' 1"
  proof (rule ccontr)
    assume "q \<noteq> pod_quote ''cheap'' 1"
    then have "q = pod_quote ''costly'' 2" using q(1) unfolding offers by blast
    moreover have "quote_key q \<le> quote_key (pod_quote ''cheap'' 1)" using q(2) unfolding offers by blast
    ultimately show False using less by (simp add: not_le [symmetric])
  qed
  with q(3) show ?thesis by (simp add: pod_quote_def)
qed

subsection \<open>Where the record is not enough\<close>

text \<open>
  The plan stays in memory when its write fails, and a retry with the same request goes straight to the
  provider: capacity is acquired while the storage holds nothing.
\<close>

definition failing_world :: lease_world where
  "failing_world = pod_world\<lparr>lw_store_fails := (\<lambda>n. Some Failure)\<rparr>"

lemma retry_acquires_without_a_plan:
  "co_stored (run (lease_step failing_world) pod_start [Acquire pod_request, Acquire pod_request]) = None \<and>
   asked_to_acquire (co_log (run (lease_step failing_world) pod_start [Acquire pod_request, Acquire pod_request])) =
     [(''cheap'', pod_request, pod_quote ''cheap'' 1)] \<and>
   lease_answer failing_world pod_start (Acquire pod_request) = Inl Not_Saved"
  by code_simp

text \<open>
  When only the write of the intention to release fails, the storage still holds the ready lease, and a
  restart routes it again: the promise that a released lease stays unrouted rests on the storage.
\<close>

definition forgetful_world :: lease_world where
  "forgetful_world = pod_world\<lparr>lw_store_fails := (\<lambda>n. if n = 9 then Some Failure else None)\<rparr>"

lemma unsaved_release_routes_again:
  "let c = run (lease_step forgetful_world) pod_start [Acquire pod_request, Status ''L'', Release ''L'' 3];
       d = run (lease_step forgetful_world) c [Restart (Other_Backend ''cloud'')]
   in map_option le_state (recorded_lease c) = Some RELEASING
     \<and> map_option le_state (recorded_lease d) = Some READY
     \<and> length (filter is_routing (co_log c)) = 1 \<and> length (filter is_routing (co_log d)) = 2"
  by code_simp

text \<open>
  The release stamps the record with the host's clock, and the transition check compares it with the
  provider's: a provider that answers with an earlier time (its clock is behind, or it repeats the answer
  of a release it already made) is refused as stale, at every retry.
\<close>

definition late_world :: "(string, lease_provider) dict" where
  "late_world = [(''cheap'', (pod_provider ''cheap'' 1)\<lparr>pv_release := (\<lambda>_ _ _. Inr (pod_lease ''cheap'' RELEASED 2))\<rparr>)]"

lemma repeated_release_is_refused:
  "lease_answer pod_world (run (lease_step pod_world) (new_coordinator ''agent'' late_world True (Other_Backend ''cloud''))
     [Acquire pod_request, Release ''L'' 50]) (Release ''L'' 60) = Inl Stale_State \<and>
   lease_answer pod_world (run (lease_step pod_world) (new_coordinator ''agent'' late_world True (Other_Backend ''cloud''))
     [Acquire pod_request]) (Release ''L'' 50) = Inl Stale_State"
  by code_simp

end
