(* ===== verification/Provider_Policy.thy ===== *)
theory Provider_Policy
  imports Signatures
begin

text \<open>
  Model of \<open>kestrel_sovereign/llm/provider_policy.py\<close> and of the part of \<open>LLMService\<close> that enforces it
  (\<open>llm/service.py\<close>, \<open>llm/mandate.py\<close>): who wrote a model override, which providers it may name, the
  mandate and its fallbacks, the audit history, and the check before every dispatch. Context variables
  are a record of the scope; the clock, the running task and the discovery catalogs are fields of it and
  of the state. The texts of refusals are left out.
\<close>

subsection \<open>Configuration and routes\<close>

type_synonym llm_config = "(string, jval) dict"

definition cfg_get :: "llm_config \<Rightarrow> string \<Rightarrow> jval" where
  "cfg_get cfg k = (case dict_get cfg k of None \<Rightarrow> J_Null | Some v \<Rightarrow> v)"

text \<open>An entry of \<open>self.providers\<close>: one route of a vendor, named \<open>vendor:route\<close>.\<close>

record route_info =
  rt_name :: string
  rt_vendor :: "string option"
  rt_route :: "string option"
  rt_model :: "string option"
  rt_local :: bool
  rt_cloud :: bool

record selection =
  sl_vendor :: "string option"
  sl_route :: "string option"
  sl_model :: "string option"

definition no_selection :: selection where
  "no_selection = \<lparr>sl_vendor = None, sl_route = None, sl_model = None\<rparr>"

text \<open>\<open>x or None\<close> for a text; \<open>filled\<close> is the truth value of an optional text.\<close>

definition or_nothing :: "string \<Rightarrow> string option" where
  "or_nothing s = (if s = [] then None else Some s)"

definition filled :: "string option \<Rightarrow> bool" where
  "filled x \<longleftrightarrow> x \<noteq> None \<and> x \<noteq> Some []"

text \<open>\<open>s.partition(':')\<close> without the separator, and \<open>s.split(':', 1)[0]\<close>.\<close>

definition partition_colon :: "string \<Rightarrow> string \<times> string" where
  "partition_colon s = (case split_first CHR '':'' s of None \<Rightarrow> (s, []) | Some p \<Rightarrow> p)"

definition vendor_of_key :: "string \<Rightarrow> string" where
  "vendor_of_key s = fst (partition_colon s)"

definition composite :: "string \<Rightarrow> string \<Rightarrow> string" where
  "composite v r = v @ '':'' @ r"

subsection \<open>Who writes an override\<close>

datatype override_source = SOVEREIGN | OPERATOR | AGENT | SYSTEM

record provenance =
  og_source :: override_source
  og_role :: string
  og_identity :: "string option"
  og_via :: "string option"
  og_task :: "string option"
  og_at :: "string option"

definition narrowed_by_chain :: "provenance \<Rightarrow> bool" where
  "narrowed_by_chain p \<longleftrightarrow> og_source p = AGENT"

datatype caller_role = Sovereign_Role | Authenticated_Role | Anonymous_Role

datatype auth_method = API_KEY | JWT | OAUTH_SESSION | A2A_TRANSPORT | INTERNAL

record caller =
  ca_role :: caller_role
  ca_method :: auth_method
  ca_identity :: "string option"

datatype privacy_hook = Unbound | Answers bool | Raises

record policy_context =
  cx_writer :: "provenance option"
  cx_call_writer :: "(string \<times> provenance) option"
  cx_command :: "string option"
  cx_task :: "string option"
  cx_now :: string
  cx_privacy :: privacy_hook
  cx_holds :: "nat option"

definition agent_provenance :: "string \<Rightarrow> policy_context \<Rightarrow> provenance" where
  "agent_provenance via cx = \<lparr>og_source = AGENT, og_role = ''none'', og_identity = None, og_via = Some via,
     og_task = cx_task cx, og_at = Some (cx_now cx)\<rparr>"

definition system_provenance :: "string \<Rightarrow> policy_context \<Rightarrow> provenance" where
  "system_provenance via cx = \<lparr>og_source = SYSTEM, og_role = ''system'', og_identity = None, og_via = Some via,
     og_task = cx_task cx, og_at = Some (cx_now cx)\<rparr>"

definition config_provenance :: "string \<Rightarrow> policy_context \<Rightarrow> provenance" where
  "config_provenance via cx = \<lparr>og_source = OPERATOR, og_role = ''config'', og_identity = None, og_via = Some via,
     og_task = cx_task cx, og_at = None\<rparr>"

definition role_value :: "caller_role \<Rightarrow> string" where
  "role_value r = (case r of Sovereign_Role \<Rightarrow> ''sovereign'' | Authenticated_Role \<Rightarrow> ''authenticated''
     | Anonymous_Role \<Rightarrow> ''anonymous'')"

definition provenance_for_caller :: "caller option \<Rightarrow> string \<Rightarrow> policy_context \<Rightarrow> provenance" where
  "provenance_for_caller caller via cx =
     (case caller of None \<Rightarrow> agent_provenance via cx
      | Some c \<Rightarrow> \<lparr>og_source =
            (if ca_role c = Sovereign_Role then SOVEREIGN
             else if ca_role c = Authenticated_Role \<and> ca_method c \<noteq> A2A_TRANSPORT then OPERATOR else AGENT),
          og_role = role_value (ca_role c), og_identity = ca_identity c, og_via = Some via,
          og_task = cx_task cx, og_at = Some (cx_now cx)\<rparr>)"

definition current_override_writer :: "string \<Rightarrow> policy_context \<Rightarrow> provenance" where
  "current_override_writer via cx = (case cx_writer cx of Some p \<Rightarrow> p | None \<Rightarrow> agent_provenance via cx)"

definition tool_write_provenance :: "string \<Rightarrow> caller option \<Rightarrow> policy_context \<Rightarrow> provenance" where
  "tool_write_provenance skill caller cx =
     (if cx_command cx \<noteq> Some skill then agent_provenance skill cx
      else provenance_for_caller caller (''command:'' @ skill) cx)"

text \<open>The scopes of a per-call override: what the context is inside them.\<close>

definition real_override :: "string option \<Rightarrow> string option" where
  "real_override ov = (if filled ov \<and> ov \<noteq> Some ''auto'' then ov else None)"

definition caller_call_override_scope :: "string option \<Rightarrow> caller option \<Rightarrow> string \<Rightarrow> policy_context \<Rightarrow> policy_context" where
  "caller_call_override_scope ov caller via cx =
     cx\<lparr>cx_call_writer := (case (real_override ov, caller) of
          (Some m, Some c) \<Rightarrow> Some (m, provenance_for_caller (Some c) via cx) | _ \<Rightarrow> None)\<rparr>"

definition named_call_override_scope :: "string option \<Rightarrow> provenance option \<Rightarrow> policy_context \<Rightarrow> policy_context" where
  "named_call_override_scope ov p cx =
     (case (real_override ov, p) of (Some m, Some w) \<Rightarrow> cx\<lparr>cx_call_writer := Some (m, w)\<rparr> | _ \<Rightarrow> cx)"

definition attested_call_override_writer :: "string option \<Rightarrow> policy_context \<Rightarrow> provenance option" where
  "attested_call_override_writer ov cx =
     (case cx_call_writer cx of None \<Rightarrow> None
      | Some (m, p) \<Rightarrow> if filled ov \<and> ov = Some m then Some p else None)"

text \<open>\<open>_effective_force_local_only\<close>: privacy only tightens, and a hook that fails counts as local-only.\<close>

definition effective_force_local_only :: "bool \<Rightarrow> policy_context \<Rightarrow> bool" where
  "effective_force_local_only flag cx \<longleftrightarrow>
     flag \<or> (case cx_privacy cx of Unbound \<Rightarrow> False | Answers b \<Rightarrow> b | Raises \<Rightarrow> True)"

subsection \<open>The configured policy\<close>

text \<open>\<open>parse_denied_providers\<close>: \<open>None\<close> is the configuration error that stops the service at startup.\<close>

fun denied_entries :: "jval list \<Rightarrow> string list option" where
  "denied_entries [] = Some []"
| "denied_entries (J_Str s # xs) =
     (if strip s = [] then None else map_option (\<lambda>ys. strip s # ys) (denied_entries xs))"
| "denied_entries (_ # xs) = None"

definition parse_denied_providers :: "llm_config \<Rightarrow> string list option" where
  "parse_denied_providers cfg =
     (case cfg_get cfg ''denied_providers'' of J_Null \<Rightarrow> Some [] | J_List xs \<Rightarrow> denied_entries xs | _ \<Rightarrow> None)"

fun str_entries :: "jval list \<Rightarrow> string list" where
  "str_entries [] = []"
| "str_entries (J_Str s # xs) = (if s = [] then str_entries xs else s # str_entries xs)"
| "str_entries (_ # xs) = str_entries xs"

definition route_priority_entries :: "llm_config \<Rightarrow> string list" where
  "route_priority_entries cfg = (case cfg_get cfg ''route_priority'' of J_List xs \<Rightarrow> str_entries xs | _ \<Rightarrow> [])"

definition route_vendors :: "route_info list \<Rightarrow> string set" where
  "route_vendors ps = set (concat (map (\<lambda>p. case rt_vendor p of Some v \<Rightarrow> if v = [] then [] else [v] | None \<Rightarrow> []) ps))"

definition known_vendors :: "llm_config \<Rightarrow> route_info list \<Rightarrow> string list \<Rightarrow> string set" where
  "known_vendors cfg ps denied =
     (route_vendors ps \<union> (case cfg_get cfg ''vendors'' of J_Obj d \<Rightarrow> set (map fst d) | _ \<Rightarrow> {}) \<union>
      vendor_of_key ` set (route_priority_entries cfg) \<union> vendor_of_key ` set denied) - {[]}"

definition selection_covers :: "selection \<Rightarrow> string option \<Rightarrow> string option \<Rightarrow> bool" where
  "selection_covers sel vendor route \<longleftrightarrow>
     filled vendor \<and> sl_vendor sel = vendor \<and> (\<not> filled (sl_route sel) \<or> sl_route sel = route)"

definition call_override_selection :: "string option \<Rightarrow> string set \<Rightarrow> selection option" where
  "call_override_selection ov vendors =
     (case ov of None \<Rightarrow> None
      | Some raw \<Rightarrow>
        let m = strip raw
        in if m = [] \<or> m = ''auto'' then None
           else case split_first CHR ''/'' m of
             Some (left, model) \<Rightarrow>
               (let (v, r) = partition_colon left
                in if v = [] then None else Some \<lparr>sl_vendor = Some v, sl_route = or_nothing r, sl_model = or_nothing model\<rparr>)
           | None \<Rightarrow>
               (let (v, r) = partition_colon m
                in if v = [] \<or> v \<notin> vendors then None
                   else Some \<lparr>sl_vendor = Some v, sl_route = or_nothing r, sl_model = None\<rparr>))"

definition selector_is_denied :: "string option \<Rightarrow> string option \<Rightarrow> string list \<Rightarrow> bool" where
  "selector_is_denied vendor route denied \<longleftrightarrow>
     (case vendor of None \<Rightarrow> False
      | Some v \<Rightarrow> v \<noteq> [] \<and> (v \<in> set denied \<or> (case route of None \<Rightarrow> False | Some r \<Rightarrow> r \<noteq> [] \<and> composite v r \<in> set denied)))"

definition provider_is_denied :: "string \<Rightarrow> string option \<Rightarrow> string option \<Rightarrow> string list \<Rightarrow> bool" where
  "provider_is_denied name vendor route denied \<longleftrightarrow> name \<in> set denied \<or> selector_is_denied vendor route denied"

definition route_is_denied :: "route_info \<Rightarrow> string list \<Rightarrow> bool" where
  "route_is_denied p denied \<longleftrightarrow> provider_is_denied (rt_name p) (rt_vendor p) (rt_route p) denied"

definition in_declared_chain :: "llm_config \<Rightarrow> string option \<Rightarrow> bool" where
  "in_declared_chain cfg vendor \<longleftrightarrow> route_priority_entries cfg = [] \<or>
     (case vendor of None \<Rightarrow> False | Some v \<Rightarrow> v \<in> vendor_of_key ` set (route_priority_entries cfg))"

definition approved_vendors :: "llm_config \<Rightarrow> route_info list \<Rightarrow> string list \<Rightarrow> string set" where
  "approved_vendors cfg ps denied =
     (if route_priority_entries cfg \<noteq> [] then vendor_of_key ` set (route_priority_entries cfg) else route_vendors ps) - set denied"

subsection \<open>Fallbacks and the operator's mandate file\<close>

record fallback =
  fb_vendor :: "string option"
  fb_provider :: "string option"
  fb_model :: "string option"
  fb_writer :: "provenance option"

definition fallback_selector :: "fallback \<Rightarrow> string option" where
  "fallback_selector fb = (if filled (fb_vendor fb) then fb_vendor fb else fb_provider fb)"

definition fallback_selection :: "fallback \<Rightarrow> selection option" where
  "fallback_selection fb =
     (case fallback_selector fb of None \<Rightarrow> None
      | Some s \<Rightarrow>
        let (v, r) = partition_colon s
        in if v = [] then None
           else Some \<lparr>sl_vendor = Some v, sl_route = or_nothing r, sl_model = (if filled (fb_model fb) then fb_model fb else None)\<rparr>)"

definition fallback_writer :: "fallback \<Rightarrow> policy_context \<Rightarrow> provenance" where
  "fallback_writer fb cx = (case fb_writer fb of Some p \<Rightarrow> p
     | None \<Rightarrow> (agent_provenance ''mandate_fallback'' cx)\<lparr>og_at := None\<rparr>)"

definition public_fallback :: "fallback \<Rightarrow> fallback" where
  "public_fallback fb = fb\<lparr>fb_writer := None\<rparr>"

record mandate_config =
  mc_preferred :: jval
  mc_cheap :: jval
  mc_mandates :: "(string, jval) dict"
  mc_banned :: "string list"

subsection \<open>The state of a service\<close>

datatype refusal_code = PROVIDER_DENIED | OUTSIDE_APPROVED_CHAIN

record refusal =
  rf_code :: refusal_code
  rf_vendor :: "string option"
  rf_route :: "string option"
  rf_model :: "string option"
  rf_source :: "override_source option"
  rf_approved :: "string set"

datatype policy_error = Refused refusal | Endless_Alias | Bad_Route_Priority | Change_In_Progress
  | Ambiguous_Model "string set" | Unknown_Model string | No_Such_Route string | Not_Served string
  | Route_Disabled string | Provider_Unavailable string | Not_Initialized | No_Local_Providers | All_Routes_Disabled | No_Routes

datatype decision_kind = Mandate_Write | Fallback_Write | Call_Override | Dispatch

record override_decision =
  de_kind :: decision_kind
  de_selection :: selection
  de_writer :: provenance
  de_refusal :: "refusal option"
  de_at :: string

record policy_state =
  ps_config :: llm_config
  ps_denied :: "string list"
  ps_providers :: "route_info list"
  ps_disabled :: "(string, string) dict"
  ps_preference :: selection
  ps_provenance :: "provenance option"
  ps_fallbacks :: "fallback list"
  ps_mandates :: mandate_config
  ps_cheap :: string
  ps_history :: "override_decision list"
  ps_lease_model :: "string option"
  ps_change :: "nat option"
  ps_catalog :: "(string \<times> string) list"
  ps_route_catalogs :: "(string, string list) dict"

text \<open>
  \<open>ps_denied\<close> is the parsed deny-list of the configuration, which the constructor checks; \<open>ps_cheap\<close> is the
  answer of \<open>get_cheap_model\<close>, \<open>ps_catalog\<close> the shared discovery cache of vendors and model ids, and
  \<open>ps_lease_model\<close> the model of the active private lease.
\<close>

definition new_policy_state ::
  "llm_config \<Rightarrow> route_info list \<Rightarrow> mandate_config \<Rightarrow> string \<Rightarrow> policy_state option" where
  "new_policy_state cfg ps mc cheap =
     (case parse_denied_providers cfg of None \<Rightarrow> None
      | Some denied \<Rightarrow> Some \<lparr>ps_config = cfg, ps_denied = denied, ps_providers = ps, ps_disabled = [],
          ps_preference = no_selection, ps_provenance = None, ps_fallbacks = [], ps_mandates = mc, ps_cheap = cheap,
          ps_history = [], ps_lease_model = None, ps_change = None, ps_catalog = [], ps_route_catalogs = []\<rparr>)"

definition approved :: "policy_state \<Rightarrow> string set" where
  "approved s = approved_vendors (ps_config s) (ps_providers s) (ps_denied s)"

definition filter_by_selector :: "route_info list \<Rightarrow> string \<Rightarrow> route_info list" where
  "filter_by_selector ps sel =
     (if sel = [] then [] else if CHR '':'' \<in> set sel then filter (\<lambda>p. rt_name p = sel) ps
      else filter (\<lambda>p. rt_vendor p = Some sel) ps)"

definition without_denied :: "policy_state \<Rightarrow> route_info list \<Rightarrow> route_info list" where
  "without_denied s ps = filter (\<lambda>p. \<not> route_is_denied p (ps_denied s)) ps"

definition available_providers :: "policy_state \<Rightarrow> route_info list" where
  "available_providers s = filter (\<lambda>p. dict_get (ps_disabled s) (rt_name p) = None) (without_denied s (ps_providers s))"

subsection \<open>The audit history\<close>

definition OVERRIDE_HISTORY_LIMIT :: nat where
  "OVERRIDE_HISTORY_LIMIT = 100"

definition same_decision :: "override_decision \<Rightarrow> override_decision \<Rightarrow> bool" where
  "same_decision a b \<longleftrightarrow> de_kind a = de_kind b \<and> de_selection a = de_selection b \<and>
     (de_writer a)\<lparr>og_at := None\<rparr> = (de_writer b)\<lparr>og_at := None\<rparr> \<and> (de_refusal a = None \<longleftrightarrow> de_refusal b = None)"

definition record_override_decision ::
  "policy_context \<Rightarrow> selection \<Rightarrow> provenance \<Rightarrow> refusal option \<Rightarrow> decision_kind \<Rightarrow> bool \<Rightarrow> policy_state \<Rightarrow> policy_state" where
  "record_override_decision cx sel w rf kind continuation s =
     (let entry = \<lparr>de_kind = kind, de_selection = sel, de_writer = w, de_refusal = rf, de_at = cx_now cx\<rparr>
      in if continuation \<and> (\<exists>d \<in> set (ps_history s). same_decision d entry) then s
         else let h = ps_history s @ [entry] in s\<lparr>ps_history := drop (length h - OVERRIDE_HISTORY_LIMIT) h\<rparr>)"

definition report_override_refusal ::
  "policy_context \<Rightarrow> refusal \<Rightarrow> selection \<Rightarrow> provenance \<Rightarrow> decision_kind \<Rightarrow> bool \<Rightarrow> policy_state \<Rightarrow> policy_error \<times> policy_state" where
  "report_override_refusal cx rf sel w kind continuation s =
     (let rf' = (if rf_source rf = None then rf\<lparr>rf_source := Some (og_source w)\<rparr> else rf)
      in (Refused rf', record_override_decision cx sel w (Some rf') kind continuation s))"

subsection \<open>Admission\<close>

definition refuse_denied_selector :: "policy_state \<Rightarrow> string option \<Rightarrow> string option \<Rightarrow> refusal option" where
  "refuse_denied_selector s selector model =
     (case selector of None \<Rightarrow> None
      | Some sel \<Rightarrow>
        if sel = [] \<or> ps_denied s = [] then None
        else let (v, r) = partition_colon sel; matching = filter_by_selector (ps_providers s) sel
          in if selector_is_denied (Some v) (or_nothing r) (ps_denied s) \<or>
                matching \<noteq> [] \<and> (\<forall>p \<in> set matching. route_is_denied p (ps_denied s))
             then Some \<lparr>rf_code = PROVIDER_DENIED, rf_vendor = Some v, rf_route = or_nothing r, rf_model = model,
               rf_source = None, rf_approved = {}\<rparr>
             else None)"

definition selector_of :: "selection \<Rightarrow> string option" where
  "selector_of sel =
     (case (sl_vendor sel, sl_route sel) of
        (Some v, Some r) \<Rightarrow> if v \<noteq> [] \<and> r \<noteq> [] then Some (composite v r) else Some v
      | (v, _) \<Rightarrow> v)"

definition policy_refusal :: "policy_state \<Rightarrow> selection \<Rightarrow> provenance \<Rightarrow> refusal option" where
  "policy_refusal s sel w =
     (case refuse_denied_selector s (selector_of sel) (sl_model sel) of Some rf \<Rightarrow> Some rf
      | None \<Rightarrow>
        if narrowed_by_chain w \<and> (case sl_vendor sel of None \<Rightarrow> True | Some v \<Rightarrow> v \<notin> approved s)
        then Some \<lparr>rf_code = OUTSIDE_APPROVED_CHAIN, rf_vendor = sl_vendor sel, rf_route = sl_route sel, rf_model = sl_model sel,
          rf_source = Some (og_source w), rf_approved = approved s\<rparr>
        else None)"

definition admit_provider_selection ::
  "policy_context \<Rightarrow> selection \<Rightarrow> provenance \<Rightarrow> decision_kind \<Rightarrow> bool \<Rightarrow> policy_state \<Rightarrow> policy_error option \<times> policy_state" where
  "admit_provider_selection cx sel w kind continuation s =
     (case policy_refusal s sel w of None \<Rightarrow> (None, s)
      | Some rf \<Rightarrow>
        let (e, s') = report_override_refusal cx rf sel w kind continuation s in (Some e, s'))"

text \<open>\<open>_resolve_model_selector\<close>; the alias \<open>cheap\<close> whose model is again the alias recurses without end.\<close>

record resolved =
  rs_selector :: "string option"
  rs_provider :: "string option"
  rs_model :: "string option"

definition unresolved :: resolved where
  "unresolved = \<lparr>rs_selector = None, rs_provider = None, rs_model = None\<rparr>"

definition with_model :: "string \<Rightarrow> string option \<Rightarrow> string" where
  "with_model key model = (case model of Some m \<Rightarrow> if m = [] then key else key @ ''/'' @ m | None \<Rightarrow> key)"

definition resolve_named :: "policy_state \<Rightarrow> string \<Rightarrow> resolved" where
  "resolve_named s selector =
     (case split_first CHR ''/'' selector of
        Some (left, model) \<Rightarrow> \<lparr>rs_selector = Some selector, rs_provider = Some left, rs_model = Some model\<rparr>
      | None \<Rightarrow>
        (case find (\<lambda>p. rt_vendor p = Some selector \<or> rt_name p = selector) (ps_providers s) of
           Some p \<Rightarrow> \<lparr>rs_selector = Some (with_model selector (rt_model p)), rs_provider = Some selector, rs_model = rt_model p\<rparr>
         | None \<Rightarrow>
           (case find (\<lambda>p. rt_model p = Some selector) (ps_providers s) of
              Some p \<Rightarrow>
                (let vendor = (if filled (rt_vendor p) then the (rt_vendor p) else rt_name p)
                 in \<lparr>rs_selector = Some (if vendor = [] then selector else vendor @ ''/'' @ selector),
                   rs_provider = Some vendor, rs_model = Some selector\<rparr>)
            | None \<Rightarrow> \<lparr>rs_selector = Some selector, rs_provider = None, rs_model = Some selector\<rparr>)))"

definition resolve_model_selector :: "policy_state \<Rightarrow> string \<Rightarrow> resolved option" where
  "resolve_model_selector s raw =
     (let selector = strip raw; cheap = strip (ps_cheap s)
      in if selector = [] \<or> selector = ''auto'' then Some unresolved
         else if selector \<noteq> ''cheap'' then Some (resolve_named s selector)
         else if ps_cheap s = [] \<or> ps_cheap s = ''cheap'' then Some unresolved
         else if cheap = ''cheap'' then None
         else if cheap = [] \<or> cheap = ''auto'' then Some unresolved
         else Some (resolve_named s cheap))"

definition is_banned_selector :: "policy_state \<Rightarrow> string \<Rightarrow> bool option" where
  "is_banned_selector s selector =
     (if selector = [] then Some False
      else map_option (\<lambda>r. \<exists>item \<in> set (mc_banned (ps_mandates s)). item \<noteq> [] \<and>
           (item = selector \<or> rs_selector r = Some item \<or> rs_provider r = Some item \<or> rs_model r = Some item))
         (resolve_model_selector s selector))"

text \<open>The selectors that \<open>model_mandate.toml\<close> names, as written and resolved.\<close>

fun config_selectors_from :: "policy_state \<Rightarrow> jval list \<Rightarrow> string list option" where
  "config_selectors_from s [] = Some []"
| "config_selectors_from s (J_Str sel # xs) =
     (if sel \<in> {[], ''auto'', ''cheap''} then config_selectors_from s xs
      else case (is_banned_selector s sel, resolve_model_selector s sel, config_selectors_from s xs) of
        (Some banned, Some r, Some ys) \<Rightarrow>
          Some (if banned then ys
                else sel # (case rs_selector r of Some t \<Rightarrow> if t = [] then ys else t # ys | None \<Rightarrow> ys))
      | _ \<Rightarrow> None)"
| "config_selectors_from s (_ # xs) = config_selectors_from s xs"

definition config_selectors :: "policy_state \<Rightarrow> string list option" where
  "config_selectors s =
     (let mc = ps_mandates s
      in config_selectors_from s (mc_preferred mc # map snd (mc_mandates mc) @
           (if mc_cheap mc = J_Str ''auto'' then [] else [mc_cheap mc])))"

definition selection_of_override :: "policy_state \<Rightarrow> string option \<Rightarrow> selection option" where
  "selection_of_override s ov = call_override_selection ov (known_vendors (ps_config s) (ps_providers s) (ps_denied s))"

text \<open>\<open>None\<close> when no alias ends; the writer is the principal, the operator's file, or the named writer.\<close>

definition call_writer :: "policy_context \<Rightarrow> string option \<Rightarrow> string \<Rightarrow> policy_state \<Rightarrow> provenance option" where
  "call_writer cx ov via s =
     (case attested_call_override_writer ov cx of Some p \<Rightarrow> Some p
      | None \<Rightarrow>
        (case config_selectors s of None \<Rightarrow> None
         | Some sels \<Rightarrow>
           Some (if (case ov of None \<Rightarrow> False | Some m \<Rightarrow> m \<in> set sels) then config_provenance ''model_mandate.toml'' cx
                 else current_override_writer via cx)))"

definition in_task :: "policy_context \<Rightarrow> provenance \<Rightarrow> provenance" where
  "in_task cx w = (if filled (cx_task cx) then w\<lparr>og_task := cx_task cx\<rparr> else w)"

definition admit_call_selection ::
  "policy_context \<Rightarrow> string option \<Rightarrow> selection option \<Rightarrow> string \<Rightarrow> policy_state \<Rightarrow> policy_error option \<times> policy_state" where
  "admit_call_selection cx ov chosen via s =
     (case chosen of None \<Rightarrow> (None, s)
      | Some sel \<Rightarrow>
        (case call_writer cx ov via s of None \<Rightarrow> (Some Endless_Alias, s)
         | Some w0 \<Rightarrow>
           let w = in_task cx w0
           in case admit_provider_selection cx sel w Call_Override (filled (og_task w)) s of
                (Some e, s') \<Rightarrow> (Some e, s')
              | (None, s') \<Rightarrow> (None, record_override_decision cx sel w None Call_Override True s')))"

definition admit_call_override :: "policy_context \<Rightarrow> string option \<Rightarrow> string \<Rightarrow> policy_state \<Rightarrow> policy_error option \<times> policy_state" where
  "admit_call_override cx ov via s = admit_call_selection cx ov (selection_of_override s ov) via s"

subsection \<open>The mandate\<close>

definition resolve_vendor_for_model :: "policy_state \<Rightarrow> string \<Rightarrow> string set" where
  "resolve_vendor_for_model s model = set (map fst (filter (\<lambda>e. snd e = model \<and> fst e \<noteq> []) (ps_catalog s)))"

text \<open>
  The walk of \<open>_validate_explicit_mandate\<close> over the matching routes: \<open>None\<close> accepts, \<open>Some n\<close> counts the
  routes whose own catalog is known and lacks the model.
\<close>

fun scoped_misses :: "policy_state \<Rightarrow> string \<Rightarrow> route_info list \<Rightarrow> nat option" where
  "scoped_misses s model [] = Some 0"
| "scoped_misses s model (p # ps) =
     (if rt_model p = Some model then None
      else case dict_get (ps_route_catalogs s) (rt_name p) of
        None \<Rightarrow> scoped_misses s model ps
      | Some ids \<Rightarrow> if ids = [] \<or> model \<in> set ids then None else map_option Suc (scoped_misses s model ps))"

definition validate_explicit_mandate :: "policy_state \<Rightarrow> string \<Rightarrow> string \<Rightarrow> string option \<Rightarrow> policy_error option" where
  "validate_explicit_mandate s model vendor route =
     (if model = [] then None
      else let selector = (case route of Some r \<Rightarrow> if r = [] then vendor else composite vendor r | None \<Rightarrow> vendor);
               matching = filter_by_selector (ps_providers s) selector
        in if ps_providers s \<noteq> [] \<and> matching = [] then Some (No_Such_Route selector)
           else case scoped_misses s model matching of None \<Rightarrow> None
           | Some n \<Rightarrow>
             if matching \<noteq> [] \<and> n = length matching then Some (Not_Served selector)
             else let ids = set (map snd (filter (\<lambda>e. fst e = vendor \<and> snd e \<noteq> []) (ps_catalog s)))
               in if ids = {} \<or> model \<in> ids then None else Some (Not_Served selector))"

definition resolve_model_preference_unchecked ::
  "policy_state \<Rightarrow> string \<Rightarrow> string option \<Rightarrow> string option \<Rightarrow> bool \<Rightarrow> policy_error + selection" where
  "resolve_model_preference_unchecked s model vendor route check =
     (case vendor of
        None \<Rightarrow>
          (let vs = resolve_vendor_for_model s model
           in if vs = {} then Inl (Unknown_Model model)
              else if card vs = 1 then Inr \<lparr>sl_vendor = Some (the_elem vs), sl_route = route, sl_model = Some model\<rparr>
              else Inl (Ambiguous_Model vs))
      | Some v \<Rightarrow>
          (case (if check then validate_explicit_mandate s model v route else None) of
             Some e \<Rightarrow> Inl e
           | None \<Rightarrow> Inr \<lparr>sl_vendor = Some v, sl_route = route, sl_model = Some model\<rparr>))"

definition resolve_model_preference ::
  "policy_context \<Rightarrow> string \<Rightarrow> string option \<Rightarrow> string option \<Rightarrow> bool \<Rightarrow> policy_state \<Rightarrow> (policy_error + selection) \<times> policy_state" where
  "resolve_model_preference cx model vendor route check s =
     (case resolve_model_preference_unchecked s model vendor route check of Inl e \<Rightarrow> (Inl e, s)
      | Inr sel \<Rightarrow>
        (case admit_provider_selection cx sel (current_override_writer ''resolve_model_preference'' cx) Mandate_Write False s of
           (Some e, s') \<Rightarrow> (Inl e, s')
         | (None, s') \<Rightarrow> (Inr sel, s')))"

definition held_elsewhere :: "policy_context \<Rightarrow> policy_state \<Rightarrow> bool" where
  "held_elsewhere cx s \<longleftrightarrow> ps_change s \<noteq> None \<and> cx_holds cx \<noteq> ps_change s"

definition set_model_preference ::
  "policy_context \<Rightarrow> string \<Rightarrow> string option \<Rightarrow> string option \<Rightarrow> bool \<Rightarrow> policy_state \<Rightarrow> policy_error option \<times> policy_state" where
  "set_model_preference cx model vendor route check s =
     (if model = ''auto'' then (None, s)
      else if held_elsewhere cx s then (Some Change_In_Progress, s)
      else let w = current_override_writer ''set_model_preference'' cx
        in case resolve_model_preference cx model vendor route check s of
             (Inl e, s') \<Rightarrow> (Some e, s')
           | (Inr sel, s') \<Rightarrow>
             (None, record_override_decision cx sel w None Mandate_Write False (s'\<lparr>ps_preference := sel, ps_provenance := Some w\<rparr>)))"

definition clear_model_preference :: "policy_context \<Rightarrow> policy_state \<Rightarrow> policy_error option \<times> policy_state" where
  "clear_model_preference cx s =
     (if held_elsewhere cx s then (Some Change_In_Progress, s)
      else (None, s\<lparr>ps_preference := no_selection, ps_provenance := None\<rparr>))"

definition clear_mandate :: "mandate_config \<Rightarrow> policy_state \<Rightarrow> policy_state" where
  "clear_mandate mc s = s\<lparr>ps_mandates := mc, ps_preference := no_selection, ps_provenance := None, ps_fallbacks := []\<rparr>"

definition add_fallback_model :: "policy_context \<Rightarrow> string \<Rightarrow> string option \<Rightarrow> policy_state \<Rightarrow> policy_error option \<times> policy_state" where
  "add_fallback_model cx model provider s =
     (let fb = \<lparr>fb_vendor = None, fb_provider = provider, fb_model = Some model, fb_writer = None\<rparr>
      in if fb \<in> set (map public_fallback (ps_fallbacks s)) then (None, s)
         else case fallback_selection fb of
           None \<Rightarrow> (None, s\<lparr>ps_fallbacks := ps_fallbacks s @ [fb]\<rparr>)
         | Some sel \<Rightarrow>
           let w = current_override_writer ''add_fallback_model'' cx
           in case admit_provider_selection cx sel w Fallback_Write False s of
                (Some e, s') \<Rightarrow> (Some e, s')
              | (None, s') \<Rightarrow>
                (None, let s'' = record_override_decision cx sel w None Fallback_Write False s'
                  in s''\<lparr>ps_fallbacks := ps_fallbacks s'' @ [fb\<lparr>fb_writer := Some w\<rparr>]\<rparr>))"

text \<open>\<open>_admitted_mandate_fallbacks\<close>: each entry is admitted again under the writer stored with it.\<close>

fun admitted_from :: "policy_context \<Rightarrow> fallback list \<Rightarrow> policy_state \<Rightarrow> (fallback list \<times> policy_error option) \<times> policy_state" where
  "admitted_from cx [] s = (([], None), s)"
| "admitted_from cx (fb # fbs) s =
     (case fallback_selection fb of
        None \<Rightarrow> (let ((out, refused), s') = admitted_from cx fbs s in ((fb # out, refused), s'))
      | Some sel \<Rightarrow>
        let w = (fallback_writer fb cx)\<lparr>og_task := cx_task cx\<rparr>
        in case admit_provider_selection cx sel w Fallback_Write True s of
             (Some e, s1) \<Rightarrow> (let ((out, refused), s2) = admitted_from cx fbs s1 in ((out, Some e), s2))
           | (None, s1) \<Rightarrow> (let ((out, refused), s2) = admitted_from cx fbs s1 in ((fb # out, refused), s2)))"

definition admitted_mandate_fallbacks :: "policy_context \<Rightarrow> policy_state \<Rightarrow> (fallback list \<times> policy_error option) \<times> policy_state" where
  "admitted_mandate_fallbacks cx s = admitted_from cx (ps_fallbacks s) s"

subsection \<open>The check before every dispatch\<close>

definition REMOTE_ROUTE_NAME :: string where
  "REMOTE_ROUTE_NAME = ''remote_gpu''"

text \<open>
  Who, not narrowed by the chain, chose a route. \<open>None\<close> is an alias without end in the operator's file,
  \<open>Some None\<close> says that no override in force names the route.
\<close>

definition names_route :: "selection option \<Rightarrow> string option \<Rightarrow> string option \<Rightarrow> bool" where
  "names_route sel vendor route = (case sel of None \<Rightarrow> False | Some x \<Rightarrow> selection_covers x vendor route)"

definition mandate_names :: "policy_state \<Rightarrow> string option \<Rightarrow> string option \<Rightarrow> bool" where
  "mandate_names s vendor route \<longleftrightarrow>
     (case ps_provenance s of None \<Rightarrow> False | Some w \<Rightarrow> \<not> narrowed_by_chain w) \<and>
     filled (sl_model (ps_preference s)) \<and> selection_covers (ps_preference s) vendor route"

definition fallback_names :: "policy_context \<Rightarrow> string option \<Rightarrow> string option \<Rightarrow> fallback \<Rightarrow> bool" where
  "fallback_names cx vendor route fb \<longleftrightarrow>
     \<not> narrowed_by_chain (fallback_writer fb cx) \<and> names_route (fallback_selection fb) vendor route"

definition stored_authority :: "policy_context \<Rightarrow> string option \<Rightarrow> string option \<Rightarrow> policy_state \<Rightarrow> provenance option option" where
  "stored_authority cx vendor route s =
     (if mandate_names s vendor route then Some (ps_provenance s)
      else case find (fallback_names cx vendor route) (ps_fallbacks s) of
        Some fb \<Rightarrow> Some (Some (fallback_writer fb cx))
      | None \<Rightarrow>
        (case config_selectors s of None \<Rightarrow> None
         | Some sels \<Rightarrow>
           Some (if \<exists>m \<in> set sels. names_route (selection_of_override s (Some m)) vendor route
                 then Some (config_provenance ''model_mandate.toml'' cx) else None)))"

text \<open>
  The writer of the scope is returned for any route; the docstring of \<open>_dispatch_authority\<close> speaks of an
  override that names the route. The other writers are returned only for a route they name.
\<close>

definition dispatch_authority :: "policy_context \<Rightarrow> string option \<Rightarrow> string option \<Rightarrow> policy_state \<Rightarrow> provenance option option" where
  "dispatch_authority cx vendor route s =
     (if case cx_writer cx of None \<Rightarrow> False | Some w \<Rightarrow> \<not> narrowed_by_chain w then Some (cx_writer cx)
      else case cx_call_writer cx of
        Some (m, w) \<Rightarrow>
          if \<not> narrowed_by_chain w \<and> names_route (selection_of_override s (Some m)) vendor route then Some (Some w)
          else stored_authority cx vendor route s
      | None \<Rightarrow> stored_authority cx vendor route s)"

text \<open>
  The fail-closed check. \<open>admitted\<close> are the selections the entry point admitted for this call; a refusal
  is recorded as the agent's.
\<close>

definition refuse_dispatch ::
  "policy_context \<Rightarrow> string \<Rightarrow> refusal_code \<Rightarrow> selection \<Rightarrow> policy_state \<Rightarrow> policy_error option \<times> policy_state" where
  "refuse_dispatch cx path code sel s =
     (let rf = \<lparr>rf_code = code, rf_vendor = sl_vendor sel, rf_route = sl_route sel, rf_model = sl_model sel,
            rf_source = None, rf_approved = approved s\<rparr>;
          (e, s') = report_override_refusal cx rf sel (agent_provenance (''dispatch:'' @ path) cx) Dispatch (filled (cx_task cx)) s
      in (Some e, s'))"

definition guard_remote :: "policy_context \<Rightarrow> string \<Rightarrow> string option \<Rightarrow> policy_state \<Rightarrow> policy_error option \<times> policy_state" where
  "guard_remote cx path model s =
     (let named = (if ps_lease_model s \<noteq> None \<and> model = ps_lease_model s then None else selection_of_override s model)
      in if ps_lease_model s \<noteq> None \<and> named = None then (None, s)
         else case named of
           None \<Rightarrow> refuse_dispatch cx path OUTSIDE_APPROVED_CHAIN
             \<lparr>sl_vendor = Some REMOTE_ROUTE_NAME, sl_route = None, sl_model = model\<rparr> s
         | Some x \<Rightarrow> refuse_dispatch cx path
             (if selector_is_denied (sl_vendor x) (sl_route x) (ps_denied s) then PROVIDER_DENIED else OUTSIDE_APPROVED_CHAIN)
             (x\<lparr>sl_model := model\<rparr>) s)"

definition dispatch_target :: "policy_state \<Rightarrow> string \<Rightarrow> route_info option \<times> string option \<times> string option" where
  "dispatch_target s name =
     (let (v, r) = partition_colon name; p = find (\<lambda>q. rt_name q = name) (ps_providers s)
      in (p, (case p of Some q \<Rightarrow> if filled (rt_vendor q) then rt_vendor q else Some v | None \<Rightarrow> Some v),
             (case p of Some q \<Rightarrow> if filled (rt_route q) then rt_route q else or_nothing r | None \<Rightarrow> or_nothing r)))"

definition guard_dispatch ::
  "policy_context \<Rightarrow> string \<Rightarrow> string option \<Rightarrow> string \<Rightarrow> bool \<Rightarrow> (selection \<times> provenance) list \<Rightarrow> policy_state \<Rightarrow> policy_error option \<times> policy_state" where
  "guard_dispatch cx name model path force_local_only admitted s =
     (if name = REMOTE_ROUTE_NAME then guard_remote cx path model s
      else let (p, vendor, route) = dispatch_target s name;
               sel = \<lparr>sl_vendor = vendor, sl_route = route, sl_model = model\<rparr>
        in if provider_is_denied name vendor route (ps_denied s) then refuse_dispatch cx path PROVIDER_DENIED sel s
           else if in_declared_chain (ps_config s) vendor then (None, s)
           else if (case p of Some q \<Rightarrow> rt_local q | None \<Rightarrow> False) \<and> effective_force_local_only force_local_only cx then (None, s)
           else if \<exists>(chosen, w) \<in> set admitted. \<not> narrowed_by_chain w \<and> selection_covers chosen vendor route then (None, s)
           else case dispatch_authority cx vendor route s of None \<Rightarrow> (Some Endless_Alias, s)
           | Some (Some w) \<Rightarrow> (None, s)
           | Some None \<Rightarrow> refuse_dispatch cx path OUTSIDE_APPROVED_CHAIN sel s)"

end
