(* ===== verification/Provider_Routing.thy ===== *)
theory Provider_Routing
  imports Provider_Policy
begin

text \<open>
  Model of \<open>LLMService.resolve_provider_routing\<close> (\<open>llm/service.py\<close>), of the authorization it carries
  (\<open>StreamingMixin._compute_route_authorization\<close>, \<open>llm/streaming.py\<close>) and of the loop of
  \<open>LLMService._get_response_frozen\<close> that follows it: which routes a call may try, in which order, and what
  stops it. The adapters are an argument.
\<close>

subsection \<open>What a call is authorized for\<close>

fun jval_true :: "jval \<Rightarrow> bool" where
  "jval_true J_Null = False"
| "jval_true (J_Bool b) = b"
| "jval_true (J_Int n) = (n \<noteq> 0)"
| "jval_true (J_Str s) = (s \<noteq> [])"
| "jval_true (J_List xs) = (xs \<noteq> [])"
| "jval_true (J_Obj d) = (d \<noteq> [])"

text \<open>\<open>_configured_route_vendors\<close> iterates whatever is configured; a number is a \<open>TypeError\<close>.\<close>

definition configured_route_vendors :: "llm_config \<Rightarrow> string set option" where
  "configured_route_vendors cfg =
     (let raw = cfg_get cfg ''route_priority''
      in if \<not> jval_true raw then Some {}
         else case raw of J_List xs \<Rightarrow> Some (vendor_of_key ` set (str_entries xs))
         | J_Str s \<Rightarrow> Some (vendor_of_key ` set (map (\<lambda>c. [c]) s))
         | J_Obj d \<Rightarrow> Some (vendor_of_key ` set (filter (\<lambda>k. k \<noteq> []) (map fst d)))
         | _ \<Rightarrow> None)"

record routing_meta =
  rm_explicit :: bool
  rm_authorized :: "string set"

definition override_prefix :: "string option \<Rightarrow> string option" where
  "override_prefix ov =
     (case ov of None \<Rightarrow> None
      | Some m \<Rightarrow>
        (case split_first CHR ''/'' m of Some (left, _) \<Rightarrow> Some left
         | None \<Rightarrow> if CHR '':'' \<in> set m then Some m else None))"

definition mandate_selector :: "selection \<Rightarrow> string" where
  "mandate_selector pref = (case (sl_vendor pref, sl_route pref) of
      (Some v, Some r) \<Rightarrow> if r = [] then v else composite v r
    | (Some v, None) \<Rightarrow> v | _ \<Rightarrow> [])"

definition mandate_active :: "selection \<Rightarrow> bool" where
  "mandate_active pref \<longleftrightarrow> filled (sl_model pref) \<and> filled (sl_vendor pref)"

definition compute_route_authorization ::
  "policy_context \<Rightarrow> string option \<Rightarrow> bool \<Rightarrow> policy_state \<Rightarrow> routing_meta option \<times> policy_state" where
  "compute_route_authorization cx override force_local_only s =
     (case configured_route_vendors (ps_config s) of None \<Rightarrow> (None, s)
      | Some configured \<Rightarrow>
        let ov = (if override = Some ''auto'' then None else override);
            available = available_providers s;
            base = configured \<union> (if force_local_only then route_vendors (filter rt_local available) else {});
            pref = ps_preference s
        in case override_prefix ov of
             Some left \<Rightarrow>
               (let matched = filter_by_selector available left; v = vendor_of_key left
                in (Some \<lparr>rm_explicit = (matched \<noteq> [] \<and> (CHR '':'' \<in> set left \<or> length matched = 1)),
                     rm_authorized = (if v = [] then base else insert v base)\<rparr>, s))
           | None \<Rightarrow>
               if \<not> mandate_active pref then (Some \<lparr>rm_explicit = False, rm_authorized = base\<rparr>, s)
               else let matched = filter_by_selector available (mandate_selector pref);
                        own = insert (the (sl_vendor pref)) base
                 in if matched \<noteq> []
                    then (Some \<lparr>rm_explicit = (filled (sl_route pref) \<or> length matched = 1), rm_authorized = own\<rparr>, s)
                    else let ((fbs, refused), s') = admitted_mandate_fallbacks cx s
                      in (Some \<lparr>rm_explicit = False,
                           rm_authorized = own \<union> set (concat (map (\<lambda>fb. case fallback_selection fb of
                             Some sel \<Rightarrow> [the (sl_vendor sel)] | None \<Rightarrow> []) fbs))\<rparr>, s'))"

subsection \<open>Routing\<close>

record resolution =
  re_providers :: "route_info list"
  re_target :: "string option"
  re_meta :: routing_meta
  re_pin :: bool

text \<open>Routes, target model, and whether the mandate chose them: the three branches before the local filter.\<close>

type_synonym candidates = "route_info list \<times> string option \<times> bool"

definition route_override :: "policy_context \<Rightarrow> string \<Rightarrow> policy_state \<Rightarrow> (policy_error + candidates) \<times> policy_state" where
  "route_override cx m s =
     (case admit_call_override cx (Some m) ''model_override'' s of (Some e, s') \<Rightarrow> (Inl e, s')
      | (None, s') \<Rightarrow>
        (case split_first CHR ''/'' m of
           None \<Rightarrow> (Inr (available_providers s', Some m, False), s')
         | Some (left, model) \<Rightarrow>
           let matching = filter_by_selector (available_providers s') left
           in if matching \<noteq> [] then (Inr (matching, Some model, False), s')
              else if \<exists>p \<in> set (filter_by_selector (ps_providers s') left). dict_get (ps_disabled s') (rt_name p) \<noteq> None
              then (Inl (Route_Disabled left), s')
              else (Inl (Provider_Unavailable left), s')))"

text \<open>Each fallback is served by the first route it names, with its own model pinned on it.\<close>

definition fallback_routes :: "policy_state \<Rightarrow> fallback list \<Rightarrow> route_info list" where
  "fallback_routes s fbs = concat (map (\<lambda>fb.
     case fallback_selector fb of None \<Rightarrow> []
     | Some sel \<Rightarrow>
       (case filter_by_selector (without_denied s (ps_providers s)) sel of [] \<Rightarrow> []
        | p # _ \<Rightarrow> [if filled (fb_model fb) then p\<lparr>rt_model := fb_model fb\<rparr> else p])) fbs)"

definition route_fallbacks :: "policy_context \<Rightarrow> string option \<Rightarrow> policy_state \<Rightarrow> (policy_error + candidates) \<times> policy_state" where
  "route_fallbacks cx target s =
     (let ((fbs, refused), s') = admitted_mandate_fallbacks cx s
      in case refused of
           Some e \<Rightarrow>
             if \<forall>fb \<in> set fbs. fallback_selection fb = None then (Inl e, s')
             else (let routes = fallback_routes s' fbs
                   in (Inr (if routes = [] then (available_providers s', target, False) else (routes, None, False)), s'))
         | None \<Rightarrow>
             (let routes = fallback_routes s' fbs
              in (Inr (if routes = [] then (available_providers s', target, False) else (routes, None, False)), s')))"

definition route_mandate :: "policy_context \<Rightarrow> policy_state \<Rightarrow> (policy_error + candidates) \<times> policy_state" where
  "route_mandate cx s =
     (let pref = ps_preference s; selector = mandate_selector pref;
          matching = filter_by_selector (available_providers s) selector
      in if \<not> filled (sl_vendor pref) then (Inr (available_providers s, sl_model pref, False), s)
         else if matching \<noteq> [] then (Inr (matching, sl_model pref, True), s)
         else case refuse_denied_selector s (Some selector) (sl_model pref) of Some rf \<Rightarrow> (Inl (Refused rf), s)
         | None \<Rightarrow>
           if ps_fallbacks s \<noteq> [] then route_fallbacks cx (sl_model pref) s
           else (Inl (Provider_Unavailable selector), s))"

definition keep_local :: "bool \<Rightarrow> candidates \<Rightarrow> policy_error + candidates" where
  "keep_local force c =
     (case c of (ps, target, pin) \<Rightarrow>
        if \<not> force then Inr c
        else let ls = filter rt_local ps
          in if ls = [] then Inl No_Local_Providers
             else Inr (ls, if filled target \<and> (\<forall>p \<in> set ls. rt_model p \<noteq> target) then None else target, pin))"

definition choose_candidates ::
  "policy_context \<Rightarrow> string option \<Rightarrow> policy_state \<Rightarrow> (policy_error + candidates) \<times> policy_state" where
  "choose_candidates cx ov s =
     (case real_override ov of Some m \<Rightarrow> route_override cx m s
      | None \<Rightarrow> if filled (sl_model (ps_preference s)) then route_mandate cx s
                else (Inr (available_providers s, None, False), s))"

definition resolve_provider_routing ::
  "policy_context \<Rightarrow> string option \<Rightarrow> bool \<Rightarrow> policy_state \<Rightarrow> (policy_error + resolution) \<times> policy_state" where
  "resolve_provider_routing cx override force_local_only s =
     (let force = effective_force_local_only force_local_only cx;
          ov = (if override = Some ''auto'' then None else override);
          (chosen, s1) = choose_candidates cx ov s
      in case chosen of Inl e \<Rightarrow> (Inl e, s1)
         | Inr c \<Rightarrow>
           (case keep_local force c of Inl e \<Rightarrow> (Inl e, s1)
            | Inr (ps, target, pin) \<Rightarrow>
              if ps = [] then (Inl (if ps_disabled s1 \<noteq> [] \<and> available_providers s1 = [] then All_Routes_Disabled else No_Routes), s1)
              else case compute_route_authorization cx ov force s1 of
                (None, s2) \<Rightarrow> (Inl Bad_Route_Priority, s2)
              | (Some meta, s2) \<Rightarrow> (Inr \<lparr>re_providers = ps, re_target = target, re_meta = meta, re_pin = pin\<rparr>, s2)))"

subsection \<open>Trying the routes\<close>

text \<open>\<open>rsplit(':', 1)[-1]\<close> of a name, and whether a route bills per token.\<close>

definition last_part :: "string \<Rightarrow> string" where
  "last_part name = (if CHR '':'' \<in> set name then last (split_on CHR '':'' name) else [])"

definition route_is_paid :: "route_info \<Rightarrow> bool" where
  "route_is_paid p =
     (let route = (if filled (rt_route p) then the (rt_route p) else last_part (rt_name p))
      in if route = ''plan'' \<or> route = ''local'' \<or> rt_local p then False else route = ''api'' \<or> rt_cloud p)"

definition allow_paid_fallback :: "llm_config \<Rightarrow> bool" where
  "allow_paid_fallback cfg = (case dict_get cfg ''allow_paid_fallback'' of None \<Rightarrow> True | Some v \<Rightarrow> jval_true v)"

definition skip_paid_fallback :: "policy_state \<Rightarrow> route_info \<Rightarrow> route_info list \<Rightarrow> nat \<Rightarrow> bool" where
  "skip_paid_fallback s p ps i \<longleftrightarrow>
     \<not> allow_paid_fallback (ps_config s) \<and> route_is_paid p \<and> (\<exists>q \<in> set (take i ps). \<not> route_is_paid q)"

definition skip_unconfigured_route :: "route_info \<Rightarrow> string set \<Rightarrow> bool" where
  "skip_unconfigured_route p configured \<longleftrightarrow> configured \<noteq> {} \<and> (case rt_vendor p of None \<Rightarrow> True | Some v \<Rightarrow> v \<notin> configured)"

definition configured_routes_exhausted :: "route_info list \<Rightarrow> nat \<Rightarrow> string set \<Rightarrow> bool" where
  "configured_routes_exhausted ps i configured \<longleftrightarrow>
     ps \<noteq> [] \<and> configured \<noteq> {} \<and> (case rt_vendor (ps ! i) of None \<Rightarrow> False | Some v \<Rightarrow> v \<in> configured) \<and>
     drop (Suc i) ps \<noteq> [] \<and> (\<forall>p \<in> set (drop (Suc i) ps). case rt_vendor p of None \<Rightarrow> True | Some v \<Rightarrow> v \<notin> configured)"

text \<open>
  What comes of one route: its catalog lacks the model (no call is made), or the adapter answers, fails
  with an \<open>LLMProviderError\<close>, or ends the call otherwise. Before the adapter runs the guard is asked.
\<close>

datatype attempt = Answered | Provider_Failed | Ended

datatype call_result = Answer route_info | Refused_Dispatch policy_error | Ended_At route_info
  | Exhausted_At route_info | All_Failed

record route_log =
  rl_dispatched :: "route_info list"
  rl_result :: call_result

definition may_try :: "policy_state \<Rightarrow> resolution \<Rightarrow> nat \<Rightarrow> bool" where
  "may_try s r i \<longleftrightarrow> rm_explicit (re_meta r) \<or>
     \<not> skip_paid_fallback s (re_providers r ! i) (re_providers r) i \<and>
     \<not> skip_unconfigured_route (re_providers r ! i) (rm_authorized (re_meta r))"

text \<open>\<open>_resolve_concrete_model\<close> is the argument \<open>concrete\<close>: it asks the cached discovery.\<close>

fun try_routes ::
  "policy_context \<Rightarrow> bool \<Rightarrow> (route_info \<Rightarrow> bool) \<Rightarrow> (string option \<Rightarrow> route_info \<Rightarrow> string) \<Rightarrow> (route_info \<Rightarrow> attempt) \<Rightarrow>
     resolution \<Rightarrow> nat list \<Rightarrow> policy_state \<Rightarrow> route_log \<times> policy_state" where
  "try_routes cx force serves concrete adapter r [] s = (\<lparr>rl_dispatched = [], rl_result = All_Failed\<rparr>, s)"
| "try_routes cx force serves concrete adapter r (i # is) s =
     (let p = re_providers r ! i; rest = try_routes cx force serves concrete adapter r is
      in if \<not> may_try s r i \<or> \<not> serves p then rest s
         else case guard_dispatch cx (rt_name p) (Some (concrete (re_target r) p)) ''get_response'' force [] s of
           (Some e, s') \<Rightarrow> (\<lparr>rl_dispatched = [], rl_result = Refused_Dispatch e\<rparr>, s')
         | (None, s') \<Rightarrow>
           (case adapter p of
              Answered \<Rightarrow> (\<lparr>rl_dispatched = [p], rl_result = Answer p\<rparr>, s')
            | Ended \<Rightarrow> (\<lparr>rl_dispatched = [p], rl_result = Ended_At p\<rparr>, s')
            | Provider_Failed \<Rightarrow>
                if configured_routes_exhausted (re_providers r) i (rm_authorized (re_meta r))
                then (\<lparr>rl_dispatched = [p], rl_result = Exhausted_At p\<rparr>, s')
                else (let (l, s'') = rest s' in (l\<lparr>rl_dispatched := p # rl_dispatched l\<rparr>, s''))))"

text \<open>\<open>override\<close> is the caller's, or the operator's selector for the prompt.\<close>

definition get_response ::
  "policy_context \<Rightarrow> string option \<Rightarrow> bool \<Rightarrow> (route_info \<Rightarrow> bool) \<Rightarrow> (string option \<Rightarrow> route_info \<Rightarrow> string) \<Rightarrow> (route_info \<Rightarrow> attempt) \<Rightarrow>
     policy_state \<Rightarrow> (policy_error + route_log) \<times> policy_state" where
  "get_response cx override force serves concrete adapter s =
     (if ps_providers s = [] then (Inl Not_Initialized, s)
      else case resolve_provider_routing cx override force s of (Inl e, s1) \<Rightarrow> (Inl e, s1)
      | (Inr r, s1) \<Rightarrow>
        (let (l, s2) = try_routes cx force serves concrete adapter r [0..<length (re_providers r)] s1 in (Inr l, s2)))"

text \<open>\<open>_maybe_disable_route\<close> after a permanent authentication failure.\<close>

definition disable_route :: "string \<Rightarrow> string \<Rightarrow> policy_state \<Rightarrow> policy_state" where
  "disable_route name reason s =
     (if name = [] \<or> dict_get (ps_disabled s) name \<noteq> None then s
      else s\<lparr>ps_disabled := dict_put name reason (ps_disabled s)\<rparr>)"

end
