(* ===== verification/Policy_Safety.thy ===== *)
theory Policy_Safety
  imports Provider_Routing
begin

text \<open>
  Facts about the provider policy that its promises share: calls change nothing but the audit history,
  what a refusal leaves in it, which routes routing can return, and when the guard accepts a route.
\<close>

named_theorems history_free

lemmas branch_cong = option.case_cong prod.case_cong if_cong

subsection \<open>Only the history changes\<close>

text \<open>A call adds decisions to the bounded history, and nothing else.\<close>

definition only_history :: "policy_state \<Rightarrow> policy_state \<Rightarrow> bool" where
  "only_history s s' \<longleftrightarrow> (\<exists>h. s' = s\<lparr>ps_history := h\<rparr> \<and>
     (length (ps_history s) \<le> OVERRIDE_HISTORY_LIMIT \<longrightarrow> length h \<le> OVERRIDE_HISTORY_LIMIT))"

lemma only_history_refl [simp]: "only_history s s"
  unfolding only_history_def by (rule exI [of _ "ps_history s"]) simp

lemma only_history_trans: "only_history s t \<Longrightarrow> only_history t u \<Longrightarrow> only_history s u"
  by (auto simp: only_history_def)

lemma only_historyE: assumes "only_history s t" obtains h where "t = s\<lparr>ps_history := h\<rparr>"
  using assms by (auto simp: only_history_def)

lemma approved_history [history_free]: "approved (s\<lparr>ps_history := h\<rparr>) = approved s"
  by (simp add: approved_def)

lemma routes_history [history_free]:
  "without_denied (s\<lparr>ps_history := h\<rparr>) = without_denied s"
  "available_providers (s\<lparr>ps_history := h\<rparr>) = available_providers s"
  by (simp_all add: without_denied_def available_providers_def fun_eq_iff)

lemma fallback_routes_history [history_free]: "fallback_routes (s\<lparr>ps_history := h\<rparr>) = fallback_routes s"
  by (simp add: fallback_routes_def routes_history fun_eq_iff cong: option.case_cong list.case_cong)

lemma refuse_denied_history [history_free]: "refuse_denied_selector (s\<lparr>ps_history := h\<rparr>) = refuse_denied_selector s"
  by (simp add: Let_def refuse_denied_selector_def fun_eq_iff cong: option.case_cong prod.case_cong if_cong)

lemma policy_refusal_history [history_free]: "policy_refusal (s\<lparr>ps_history := h\<rparr>) = policy_refusal s"
  by (simp add: Let_def policy_refusal_def refuse_denied_history approved_history fun_eq_iff cong: option.case_cong prod.case_cong if_cong)

lemma resolve_named_history: "resolve_named (s\<lparr>ps_history := h\<rparr>) = resolve_named s"
  by (simp add: Let_def resolve_named_def fun_eq_iff cong: option.case_cong prod.case_cong if_cong)

lemma resolve_history [history_free]: "resolve_model_selector (s\<lparr>ps_history := h\<rparr>) = resolve_model_selector s"
  by (simp add: Let_def resolve_model_selector_def resolve_named_history fun_eq_iff cong: option.case_cong prod.case_cong if_cong)

lemma banned_history [history_free]: "is_banned_selector (s\<lparr>ps_history := h\<rparr>) = is_banned_selector s"
  by (simp add: Let_def is_banned_selector_def resolve_history fun_eq_iff cong: option.case_cong prod.case_cong if_cong)

lemma config_selectors_from_history: "config_selectors_from (s\<lparr>ps_history := h\<rparr>) xs = config_selectors_from s xs"
  by (induction s xs rule: config_selectors_from.induct) (simp_all add: resolve_history banned_history)

lemma selectors_history [history_free]:
  "config_selectors (s\<lparr>ps_history := h\<rparr>) = config_selectors s"
  "selection_of_override (s\<lparr>ps_history := h\<rparr>) = selection_of_override s"
  by (simp_all add: Let_def config_selectors_def config_selectors_from_history selection_of_override_def fun_eq_iff cong: option.case_cong prod.case_cong if_cong)

lemma call_writer_history [history_free]: "call_writer cx ov via (s\<lparr>ps_history := h\<rparr>) = call_writer cx ov via s"
  by (simp add: Let_def call_writer_def selectors_history cong: option.case_cong prod.case_cong if_cong)

lemma mandate_names_history [history_free]: "mandate_names (s\<lparr>ps_history := h\<rparr>) = mandate_names s"
  by (simp add: Let_def mandate_names_def fun_eq_iff cong: option.case_cong prod.case_cong if_cong)

lemma stored_authority_history [history_free]: "stored_authority cx v r (s\<lparr>ps_history := h\<rparr>) = stored_authority cx v r s"
  by (simp add: Let_def stored_authority_def mandate_names_history selectors_history cong: option.case_cong prod.case_cong if_cong)

lemma dispatch_history [history_free]:
  "dispatch_authority cx v r (s\<lparr>ps_history := h\<rparr>) = dispatch_authority cx v r s"
  "dispatch_target (s\<lparr>ps_history := h\<rparr>) = dispatch_target s"
  by (simp_all add: Let_def dispatch_authority_def dispatch_target_def stored_authority_history selectors_history fun_eq_iff cong: option.case_cong prod.case_cong if_cong)

lemma may_try_history [history_free]: "may_try (s\<lparr>ps_history := h\<rparr>) = may_try s"
  by (simp add: may_try_def skip_paid_fallback_def fun_eq_iff)

lemma record_only_history: "only_history s (record_override_decision cx sel w rf kind c s)"
proof -
  let ?h = "ps_history s @ [\<lparr>de_kind = kind, de_selection = sel, de_writer = w, de_refusal = rf, de_at = cx_now cx\<rparr>]"
  have "only_history s (s\<lparr>ps_history := drop (length h - OVERRIDE_HISTORY_LIMIT) h\<rparr>)" for h
    unfolding only_history_def
    by (rule exI [of _ "drop (length h - OVERRIDE_HISTORY_LIMIT) h"]) (simp only: length_drop, arith)
  then have "only_history s (s\<lparr>ps_history := drop (length ?h - OVERRIDE_HISTORY_LIMIT) ?h\<rparr>)" .
  then show ?thesis unfolding record_override_decision_def Let_def by (simp del: drop_append)
qed

lemma report_only_history: "only_history s (snd (report_override_refusal cx rf sel w kind c s))"
  by (simp add: report_override_refusal_def Let_def record_only_history)

lemma admit_only_history: "only_history s (snd (admit_provider_selection cx sel w kind c s))"
  using report_only_history [of s cx _ sel w kind c]
  by (simp add: admit_provider_selection_def split: option.split prod.split) (metis snd_conv)

lemma admit_call_only_history: "only_history s (snd (admit_call_selection cx ov chosen via s))"
proof -
  have a: "only_history s (snd (case admit_provider_selection cx sel w k c s of (Some e, s') \<Rightarrow> (Some e, s')
      | (None, s') \<Rightarrow> (None, record_override_decision cx sel w None k True s')))" for sel w k c
    using admit_only_history [of s cx sel w k c] record_only_history only_history_trans
    by (auto split: prod.split option.split)
  then show ?thesis by (simp add: admit_call_selection_def Let_def a split: option.split)
qed

lemma refuse_dispatch_only_history: "only_history s (snd (refuse_dispatch cx path code sel s))"
  using report_only_history by (simp add: refuse_dispatch_def Let_def split: prod.split) (metis snd_conv)

lemma guard_only_history: "only_history s (snd (guard_dispatch cx name model path f adm s))"
  by (simp add: guard_dispatch_def guard_remote_def Let_def refuse_dispatch_only_history split: option.split prod.split)

lemma admitted_from_only_history: "only_history s (snd (admitted_from cx fbs s))"
proof (induction fbs arbitrary: s)
  case (Cons fb fbs)
  show ?case
  proof (cases "fallback_selection fb")
    case None
    then show ?thesis using Cons [of s] by (simp add: Let_def split: prod.split) (metis snd_conv)
  next
    case (Some sel)
    let ?a = "admit_provider_selection cx sel ((fallback_writer fb cx)\<lparr>og_task := cx_task cx\<rparr>) Fallback_Write True s"
    have "only_history s (snd (admitted_from cx fbs (snd ?a)))"
      by (rule only_history_trans [OF admit_only_history Cons])
    then show ?thesis using Some by (simp add: Let_def split: prod.split option.split) (metis snd_conv)
  qed
qed simp

lemma authorization_only_history: "only_history s (snd (compute_route_authorization cx ov f s))"
  using admitted_from_only_history [of s cx "ps_fallbacks s"]
  by (simp add: compute_route_authorization_def admitted_mandate_fallbacks_def Let_def split: option.split prod.split)
    (metis snd_conv)

lemma choose_only_history: "only_history s (snd (choose_candidates cx ov s))"
proof -
  have o: "only_history s (snd (route_override cx m s))" for m
    using admit_call_only_history [of s cx "Some m" "selection_of_override s (Some m)" "''model_override''"]
    by (auto simp: route_override_def admit_call_override_def Let_def split: prod.split option.split)
  have f: "only_history s (snd (route_fallbacks cx t s))" for t
    using admitted_from_only_history [of s cx "ps_fallbacks s"]
    by (auto simp: route_fallbacks_def admitted_mandate_fallbacks_def Let_def split: prod.split option.split)
  have "only_history s (snd (route_mandate cx s))"
    by (simp add: route_mandate_def Let_def f split: option.split)
  then show ?thesis by (simp add: choose_candidates_def o split: option.split)
qed

lemma routing_only_history: "only_history s (snd (resolve_provider_routing cx ov f s))"
proof -
  obtain c s1 where c: "choose_candidates cx (if ov = Some ''auto'' then None else ov) s = (c, s1)" by fastforce
  have 1: "only_history s s1"
    using choose_only_history [of s cx "if ov = Some ''auto'' then None else ov"] c by simp
  have "only_history s (snd (compute_route_authorization cx ov' f' s1))" for ov' f'
    by (rule only_history_trans [OF 1 authorization_only_history])
  then have "only_history s b" if "compute_route_authorization cx ov' f' s1 = (a, b)" for ov' f' a b
    using that by (metis snd_conv)
  then show ?thesis using 1
    by (simp add: resolve_provider_routing_def c Let_def split: sum.split prod.split option.split)
qed

subsection \<open>Names of routes\<close>

text \<open>The registry names a route by its vendor and its route, each once.\<close>

definition well_named :: "route_info list \<Rightarrow> bool" where
  "well_named ps \<longleftrightarrow> distinct (map rt_name ps) \<and>
     (\<forall>p \<in> set ps. \<exists>v r. rt_vendor p = Some v \<and> rt_route p = Some r \<and> rt_name p = composite v r \<and>
        v \<noteq> [] \<and> r \<noteq> [] \<and> CHR '':'' \<notin> set v \<and> CHR ''/'' \<notin> set (composite v r) \<and> \<not> is_space (hd v))"

text \<open>A route up to the model a fallback pins on it.\<close>

definition base :: "route_info \<Rightarrow> route_info" where
  "base p = p\<lparr>rt_model := None\<rparr>"

lemma base_eqD:
  assumes "base p = base q"
  shows "rt_name p = rt_name q" "rt_vendor p = rt_vendor q" "rt_route p = rt_route q" "rt_local p = rt_local q"
proof -
  have "rt_name (base p) = rt_name (base q)" "rt_vendor (base p) = rt_vendor (base q)"
    "rt_route (base p) = rt_route (base q)" "rt_local (base p) = rt_local (base q)" by (simp_all add: assms)
  then show "rt_name p = rt_name q" "rt_vendor p = rt_vendor q" "rt_route p = rt_route q" "rt_local p = rt_local q"
    by (simp_all add: base_def)
qed

lemma base_denied: assumes "base p = base q" shows "route_is_denied p d = route_is_denied q d"
  by (simp add: route_is_denied_def base_eqD [OF assms])

lemma partition_composite: "CHR '':'' \<notin> set v \<Longrightarrow> partition_colon (composite v r) = (v, r)"
  using split_first_append [of "CHR '':''" v r] by (simp add: partition_colon_def composite_def)

lemma well_namedE:
  assumes "well_named ps" "q \<in> set ps" "base p = base q"
  obtains v r where "rt_vendor p = Some v" "rt_route p = Some r" "rt_name p = composite v r"
    "v \<noteq> []" "r \<noteq> []" "CHR '':'' \<notin> set v" "CHR ''/'' \<notin> set (composite v r)" "\<not> is_space (hd v)"
  using assms base_eqD [OF assms(3)] unfolding well_named_def by metis

lemma find_named: "distinct (map rt_name ps) \<Longrightarrow> q \<in> set ps \<Longrightarrow> find (\<lambda>x. rt_name x = rt_name q) ps = Some q"
  by (induction ps) (auto intro: inj_onD)

text \<open>The guard looks a route up by its name, and finds the vendor and the route it has.\<close>

lemma target_of_route:
  assumes "well_named (ps_providers s)" "q \<in> set (ps_providers s)" "base p = base q"
  shows "dispatch_target s (rt_name p) = (Some q, rt_vendor p, rt_route p) \<and> rt_name p \<noteq> REMOTE_ROUTE_NAME"
proof -
  from assms obtain v r where n: "rt_vendor p = Some v" "rt_route p = Some r" "rt_name p = composite v r"
    "v \<noteq> []" "r \<noteq> []" "CHR '':'' \<notin> set v" by (rule well_namedE)
  have f: "find (\<lambda>x. rt_name x = rt_name p) (ps_providers s) = Some q"
    using find_named [of "ps_providers s" q] assms base_eqD [OF assms(3)] by (simp add: well_named_def)
  have "CHR '':'' \<in> set (rt_name p)" by (simp add: n(3) composite_def)
  moreover have "CHR '':'' \<notin> set REMOTE_ROUTE_NAME" by code_simp
  ultimately have "rt_name p \<noteq> REMOTE_ROUTE_NAME" by metis
  then show ?thesis using n f base_eqD [OF assms(3)]
    by (simp add: dispatch_target_def partition_composite [OF n(6)] filled_def)
qed

subsection \<open>What the guard lets through\<close>

definition authorized_by :: "policy_context \<Rightarrow> route_info \<Rightarrow> policy_state \<Rightarrow> bool" where
  "authorized_by cx p s \<longleftrightarrow> (\<exists>w. dispatch_authority cx (rt_vendor p) (rt_route p) s = Some (Some w) \<and> \<not> narrowed_by_chain w)"

lemma stored_authority_unnarrowed: "stored_authority cx v r s = Some (Some w) \<Longrightarrow> \<not> narrowed_by_chain w"
  by (auto simp: stored_authority_def mandate_names_def fallback_names_def narrowed_by_chain_def config_provenance_def
      find_Some_iff split: if_splits option.splits)

lemma authority_unnarrowed: "dispatch_authority cx v r s = Some (Some w) \<Longrightarrow> \<not> narrowed_by_chain w"
  by (auto simp: dispatch_authority_def split: if_splits option.splits prod.splits dest: stored_authority_unnarrowed)

lemma refuse_dispatch_refuses: "fst (refuse_dispatch cx path code sel s) \<noteq> None"
  by (simp add: refuse_dispatch_def Let_def split: prod.split)

lemma guard_accepts_route:
  assumes "well_named (ps_providers s)" "q \<in> set (ps_providers s)" "base p = base q"
    and "fst (guard_dispatch cx (rt_name p) model path f [] s) = None"
  shows "\<not> route_is_denied p (ps_denied s) \<and>
    (in_declared_chain (ps_config s) (rt_vendor p) \<or> rt_local p \<and> effective_force_local_only f cx \<or> authorized_by cx p s)"
  using assms(4) target_of_route [OF assms(1-3)] base_eqD(4) [OF assms(3)]
  by (auto simp: guard_dispatch_def route_is_denied_def authorized_by_def Let_def refuse_dispatch_refuses
      simp del: split_paired_All split_paired_Ex split: if_splits option.splits dest: authority_unnarrowed)

lemma guard_accepts:
  assumes "well_named (ps_providers s)" "q \<in> set (ps_providers s)" "base p = base q" "\<not> route_is_denied p (ps_denied s)"
    and "in_declared_chain (ps_config s) (rt_vendor p) \<or> authorized_by cx p s"
  shows "guard_dispatch cx (rt_name p) model path f adm s = (None, s)"
  using assms(4,5) target_of_route [OF assms(1-3)]
  by (auto simp: guard_dispatch_def route_is_denied_def authorized_by_def Let_def)

subsection \<open>Routes that routing returns\<close>

definition of_service :: "policy_state \<Rightarrow> route_info \<Rightarrow> bool" where
  "of_service s p \<longleftrightarrow> (\<exists>q \<in> set (ps_providers s). base p = base q \<and> \<not> route_is_denied p (ps_denied s))"

lemma available_of_service: "p \<in> set (available_providers s) \<Longrightarrow> of_service s p"
  by (auto simp: available_providers_def without_denied_def of_service_def)

lemma permitted_of_service: "p \<in> set (without_denied s (ps_providers s)) \<Longrightarrow> of_service s p"
  by (auto simp: without_denied_def of_service_def)

lemma of_service_model: "of_service s (p\<lparr>rt_model := m\<rparr>) = of_service s p"
  by (simp add: of_service_def base_def route_is_denied_def)

lemma of_service_history [history_free]: "of_service (s\<lparr>ps_history := h\<rparr>) = of_service s"
  by (simp add: of_service_def fun_eq_iff)

lemma filter_subset: "set (filter_by_selector ps sel) \<subseteq> set ps"
  by (auto simp: filter_by_selector_def)

lemma fallback_routes_of_service: "p \<in> set (fallback_routes s fbs) \<Longrightarrow> of_service s p"
proof -
  assume "p \<in> set (fallback_routes s fbs)"
  then obtain fb where "p \<in> set (case fallback_selector fb of None \<Rightarrow> []
     | Some sel \<Rightarrow> (case filter_by_selector (without_denied s (ps_providers s)) sel of [] \<Rightarrow> []
        | p # _ \<Rightarrow> [if filled (fb_model fb) then p\<lparr>rt_model := fb_model fb\<rparr> else p]))"
    unfolding fallback_routes_def set_concat set_map by blast
  then obtain sel q qs where q: "filter_by_selector (without_denied s (ps_providers s)) sel = q # qs"
    "p = (if filled (fb_model fb) then q\<lparr>rt_model := fb_model fb\<rparr> else q)"
    by (cases "fallback_selector fb"; cases "filter_by_selector (without_denied s (ps_providers s)) (the (fallback_selector fb))")
      simp_all
  have "q \<in> set (without_denied s (ps_providers s))"
    using filter_subset [of "without_denied s (ps_providers s)" sel] by (simp add: q(1))
  from permitted_of_service [OF this] show ?thesis by (simp add: q(2) of_service_model)
qed

lemma override_of_service:
  assumes "route_override cx m s = (Inr (ps, target, pin), s1)" "p \<in> set ps"
  shows "of_service s p"
proof -
  obtain e s' where a: "admit_call_override cx (Some m) ''model_override'' s = (e, s')" by fastforce
  then obtain h where h: "s' = s\<lparr>ps_history := h\<rparr>"
    using admit_call_only_history [of s cx "Some m" "selection_of_override s (Some m)" "''model_override''"]
    by (auto simp: admit_call_override_def elim: only_historyE)
  have "p \<in> set (available_providers s)"
    using assms filter_subset [of "available_providers s"]
    by (auto simp: route_override_def a h routes_history Let_def split: option.splits prod.splits if_splits)
  then show ?thesis by (rule available_of_service)
qed

lemma route_fallbacks_of_service:
  assumes "route_fallbacks cx t s = (Inr (ps, target, pin), s1)" "p \<in> set ps"
  shows "of_service s p"
proof -
  obtain fbs e s' where a: "admitted_mandate_fallbacks cx s = ((fbs, e), s')" by (metis prod.exhaust)
  then obtain h where h: "s' = s\<lparr>ps_history := h\<rparr>"
    using admitted_from_only_history [of s cx "ps_fallbacks s"]
    by (auto simp: admitted_mandate_fallbacks_def elim: only_historyE)
  have "p \<in> set (available_providers s) \<or> p \<in> set (fallback_routes s fbs)"
    using assms
    by (auto simp: route_fallbacks_def a h routes_history fallback_routes_history Let_def split: option.splits if_splits)
  then show ?thesis using available_of_service fallback_routes_of_service by blast
qed

lemma choose_of_service:
  assumes "choose_candidates cx ov s = (Inr (ps, target, pin), s1)" "p \<in> set ps"
  shows "of_service s p"
proof (cases "real_override ov")
  case (Some m)
  then show ?thesis using override_of_service [of cx m s ps target pin s1 p] assms by (simp add: choose_candidates_def)
next
  case None
  have av: "p \<in> set (filter_by_selector (available_providers s) sel) \<Longrightarrow> of_service s p" for sel
    using filter_subset available_of_service by blast
  have "of_service s p" if "route_mandate cx s = (Inr (ps, target, pin), s1)"
    using that assms(2) route_fallbacks_of_service [of cx _ s ps target pin s1 p] available_of_service [of p s] av
    by (auto simp: route_mandate_def Let_def split: if_splits option.splits)
  then show ?thesis using None assms available_of_service [of p s] by (auto simp: choose_candidates_def split: if_splits)
qed

lemma routing_shape:
  assumes "resolve_provider_routing cx ov f s = (Inr r, s1)"
  obtains ps t s2 where "choose_candidates cx (if ov = Some ''auto'' then None else ov) s = (Inr (ps, t, re_pin r), s2)"
    "set (re_providers r) \<subseteq> set ps" "re_providers r \<noteq> []"
    "effective_force_local_only f cx \<longrightarrow> (\<forall>p \<in> set (re_providers r). rt_local p)"
proof -
  let ?ov = "if ov = Some ''auto'' then None else ov"
  obtain c s2 where c: "choose_candidates cx ?ov s = (c, s2)" by fastforce
  then obtain ps t pin where k: "c = Inr (ps, t, pin)"
    using assms by (cases c) (auto simp: resolve_provider_routing_def)
  obtain ps' t' pin' where l: "keep_local (effective_force_local_only f cx) (ps, t, pin) = Inr (ps', t', pin')"
    using assms by (cases "keep_local (effective_force_local_only f cx) (ps, t, pin)") (auto simp: resolve_provider_routing_def Let_def c k)
  have "re_providers r = ps'" "re_pin r = pin'" "ps' \<noteq> []"
    using assms by (auto simp: resolve_provider_routing_def Let_def c k l split: if_splits option.splits prod.splits)
  moreover have "set ps' \<subseteq> set ps" "effective_force_local_only f cx \<longrightarrow> (\<forall>p \<in> set ps'. rt_local p)" "pin' = pin"
    using l by (auto simp: keep_local_def Let_def split: if_splits)
  ultimately show ?thesis using that c k by blast
qed

lemma routing_result:
  assumes "resolve_provider_routing cx ov f s = (Inr r, s1)"
  shows "re_providers r \<noteq> [] \<and> (\<forall>p \<in> set (re_providers r). of_service s p \<and> (effective_force_local_only f cx \<longrightarrow> rt_local p))"
proof -
  from assms obtain ps t s2 where "choose_candidates cx (if ov = Some ''auto'' then None else ov) s = (Inr (ps, t, re_pin r), s2)"
    "set (re_providers r) \<subseteq> set ps" "re_providers r \<noteq> []"
    "effective_force_local_only f cx \<longrightarrow> (\<forall>p \<in> set (re_providers r). rt_local p)"
    by (rule routing_shape)
  then show ?thesis using choose_of_service by blast
qed

subsection \<open>Routes that a call dispatches to\<close>

lemma try_routes_dispatched:
  assumes "only_history s0 s" and "p \<in> set (rl_dispatched (fst (try_routes cx f serves concrete adapter r is s)))"
  shows "\<exists>i \<in> set is. p = re_providers r ! i \<and> may_try s0 r i \<and>
    (\<exists>t model. only_history s0 t \<and> fst (guard_dispatch cx (rt_name p) model ''get_response'' f [] t) = None)"
  using assms
proof (induction "is" arbitrary: s)
  case (Cons i "is")
  let ?p = "re_providers r ! i"
  obtain e s' where g: "guard_dispatch cx (rt_name ?p) (Some (concrete (re_target r) ?p)) ''get_response'' f [] s = (e, s')"
    by fastforce
  have h: "only_history s0 s'"
    using only_history_trans [OF Cons.prems(1) guard_only_history] g by (metis snd_conv)
  have m: "may_try s = may_try s0" using Cons.prems(1) by (auto simp: only_history_def may_try_history)
  have here: "\<exists>t model. only_history s0 t \<and> fst (guard_dispatch cx (rt_name ?p) model ''get_response'' f [] t) = None" if "e = None"
    using Cons.prems(1) g that by (metis fst_conv)
  have later: "\<exists>i \<in> set is. p = re_providers r ! i \<and> may_try s0 r i \<and>
      (\<exists>t model. only_history s0 t \<and> fst (guard_dispatch cx (rt_name p) model ''get_response'' f [] t) = None)"
    if "only_history s0 t" "p \<in> set (rl_dispatched (fst (try_routes cx f serves concrete adapter r is t)))" for t
    by (rule Cons.IH [OF that])
  show ?case
  proof (cases "\<not> may_try s0 r i \<or> \<not> serves ?p")
    case True
    then have "p \<in> set (rl_dispatched (fst (try_routes cx f serves concrete adapter r is s)))"
      using Cons.prems(2) by (auto simp: m Let_def)
    from later [OF Cons.prems(1) this] show ?thesis by auto
  next
    case False
    then have "e = None \<and> (p = ?p \<or> p \<in> set (rl_dispatched (fst (try_routes cx f serves concrete adapter r is s'))))"
      using Cons.prems(2) by (auto simp: m Let_def g split: option.splits attempt.splits if_splits prod.splits)
    then show ?thesis using here later [OF h] False by auto
  qed
qed simp

end
