(* ===== verification/Policy_Promises.thy ===== *)
theory Policy_Promises
  imports Policy_Safety
begin

text \<open>
  The provider policy over time: writes of the mandate and its fallbacks, calls, failures and discoveries
  are events in any order and by any writer, and what the policy promises holds along every run. The
  providers do not change along a run: it starts after \<open>finalize_providers\<close> has added the routes that are
  discovered at boot.
\<close>

datatype policy_event =
    Prefer policy_context string "string option" "string option" bool
  | Unprefer policy_context
  | Reload mandate_config
  | Fall_Back policy_context string "string option"
  | Ask policy_context "string option" bool "route_info \<Rightarrow> bool" "string option \<Rightarrow> route_info \<Rightarrow> string" "route_info \<Rightarrow> attempt"
  | Auth_Failed string string
  | Discovered "(string \<times> string) list" "(string, string list) dict" string
  | Leased "string option"
  | Change "nat option"

fun policy_step :: "policy_state \<Rightarrow> policy_event \<Rightarrow> policy_state" where
  "policy_step s (Prefer cx model vendor route check) = snd (set_model_preference cx model vendor route check s)"
| "policy_step s (Unprefer cx) = snd (clear_model_preference cx s)"
| "policy_step s (Reload mc) = clear_mandate mc s"
| "policy_step s (Fall_Back cx model provider) = snd (add_fallback_model cx model provider s)"
| "policy_step s (Ask cx override force serves concrete adapter) = snd (get_response cx override force serves concrete adapter s)"
| "policy_step s (Auth_Failed name reason) = disable_route name reason s"
| "policy_step s (Discovered catalog scoped cheap) = s\<lparr>ps_catalog := catalog, ps_route_catalogs := scoped, ps_cheap := cheap\<rparr>"
| "policy_step s (Leased model) = s\<lparr>ps_lease_model := model\<rparr>"
| "policy_step s (Change holder) = s\<lparr>ps_change := holder\<rparr>"

subsection \<open>What no event changes\<close>

definition same_policy :: "policy_state \<Rightarrow> policy_state \<Rightarrow> bool" where
  "same_policy s t \<longleftrightarrow> ps_config t = ps_config s \<and> ps_providers t = ps_providers s \<and> ps_denied t = ps_denied s"

lemma same_policy_refl [simp]: "same_policy s s"
  by (simp add: same_policy_def)

lemma only_history_same: "only_history s t \<Longrightarrow> same_policy s t"
  by (auto simp: only_history_def same_policy_def)

lemma same_policy_refusal:
  assumes "same_policy s t"
  shows "policy_refusal t = policy_refusal s" and "approved t = approved s"
    and "refuse_denied_selector t = refuse_denied_selector s" and "selection_of_override t = selection_of_override s"
proof -
  have f: "ps_config t = ps_config s" "ps_providers t = ps_providers s" "ps_denied t = ps_denied s"
    using assms by (simp_all add: same_policy_def)
  show a: "approved t = approved s" by (simp add: approved_def f)
  show d: "refuse_denied_selector t = refuse_denied_selector s" 
    by (simp add: refuse_denied_selector_def Let_def f fun_eq_iff cong: branch_cong)
  show "policy_refusal t = policy_refusal s" by (simp add: policy_refusal_def a d fun_eq_iff cong: branch_cong)
  show "selection_of_override t = selection_of_override s" by (simp add: selection_of_override_def f fun_eq_iff)
qed

lemma try_routes_only_history: "only_history s (snd (try_routes cx f serves concrete adapter r is s))"
proof (induction "is" arbitrary: s)
  case (Cons i "is")
  let ?p = "re_providers r ! i"
  obtain e s' where g: "guard_dispatch cx (rt_name ?p) (Some (concrete (re_target r) ?p)) ''get_response'' f [] s = (e, s')"
    by fastforce
  have h: "only_history s s'" using guard_only_history g by (metis snd_conv)
  have "only_history s (snd (try_routes cx f serves concrete adapter r is s'))"
    by (rule only_history_trans [OF h Cons])
  then show ?case using Cons [of s] h
    by (simp add: Let_def g split: option.split attempt.split prod.split) (metis snd_conv)
qed simp

lemma get_response_only_history: "only_history s (snd (get_response cx ov f serves concrete adapter s))"
proof -
  obtain r s1 where r: "resolve_provider_routing cx ov f s = (r, s1)" by fastforce
  then have 1: "only_history s s1" using routing_only_history by (metis snd_conv)
  have "only_history s (snd (try_routes cx f serves concrete adapter q is s1))" for q "is"
    by (rule only_history_trans [OF 1 try_routes_only_history])
  then show ?thesis using 1
    by (simp add: get_response_def r Let_def split: sum.split prod.split) (metis snd_conv)
qed

lemma resolve_preference_only_history: "only_history s (snd (resolve_model_preference cx m v r chk s))"
  using admit_only_history by (simp add: resolve_model_preference_def split: sum.split prod.split option.split) (metis snd_conv)

lemma record_fields:
  "ps_config (record_override_decision cx sel w rf k c s) = ps_config s"
  "ps_providers (record_override_decision cx sel w rf k c s) = ps_providers s"
  "ps_denied (record_override_decision cx sel w rf k c s) = ps_denied s"
  "ps_preference (record_override_decision cx sel w rf k c s) = ps_preference s"
  "ps_provenance (record_override_decision cx sel w rf k c s) = ps_provenance s"
  "ps_fallbacks (record_override_decision cx sel w rf k c s) = ps_fallbacks s"
  by (simp_all add: record_override_decision_def Let_def)

subsection \<open>The mandate in force is one the policy admits\<close>

definition admitted_mandate :: "policy_state \<Rightarrow> bool" where
  "admitted_mandate s \<longleftrightarrow> (case ps_provenance s of None \<Rightarrow> ps_preference s = no_selection
     | Some w \<Rightarrow> policy_refusal s (ps_preference s) w = None)"

definition admitted_fallback :: "policy_state \<Rightarrow> fallback \<Rightarrow> bool" where
  "admitted_fallback s fb \<longleftrightarrow> (\<forall>sel. fallback_selection fb = Some sel \<longrightarrow>
     (\<exists>w. fb_writer fb = Some w \<and> policy_refusal s sel w = None))"

definition policy_sound :: "policy_state \<Rightarrow> bool" where
  "policy_sound s \<longleftrightarrow> admitted_mandate s \<and> (\<forall>fb \<in> set (ps_fallbacks s). admitted_fallback s fb) \<and>
     length (ps_history s) \<le> OVERRIDE_HISTORY_LIMIT"

lemma policy_refusal_source: "og_source w = og_source w' \<Longrightarrow> policy_refusal s sel w = None \<longleftrightarrow> policy_refusal s sel w' = None"
  by (simp add: policy_refusal_def narrowed_by_chain_def split: option.split)

lemma only_history_sound:
  assumes "only_history s t" "policy_sound s"
  shows "policy_sound t"
proof -
  from assms(1) obtain h where t: "t = s\<lparr>ps_history := h\<rparr>"
    and b: "length (ps_history s) \<le> OVERRIDE_HISTORY_LIMIT \<longrightarrow> length h \<le> OVERRIDE_HISTORY_LIMIT"
    unfolding only_history_def by blast
  show ?thesis using assms(2) b
    by (simp add: policy_sound_def admitted_mandate_def admitted_fallback_def t policy_refusal_history cong: option.case_cong)
qed

lemma new_mandate_sound:
  assumes "policy_sound s" "policy_refusal s sel w = None"
  shows "policy_sound (s\<lparr>ps_preference := sel, ps_provenance := Some w\<rparr>)"
proof -
  have r: "policy_refusal (s\<lparr>ps_preference := sel, ps_provenance := Some w\<rparr>) = policy_refusal s"
    by (rule same_policy_refusal(1)) (simp add: same_policy_def)
  show ?thesis using assms by (simp add: policy_sound_def admitted_mandate_def admitted_fallback_def r)
qed

lemma no_mandate_sound:
  "policy_sound s \<Longrightarrow> policy_sound (s\<lparr>ps_preference := no_selection, ps_provenance := None\<rparr>)"
proof -
  assume s: "policy_sound s"
  have r: "policy_refusal (s\<lparr>ps_preference := no_selection, ps_provenance := None\<rparr>) = policy_refusal s"
    by (rule same_policy_refusal(1)) (simp add: same_policy_def)
  show ?thesis using s by (simp add: policy_sound_def admitted_mandate_def admitted_fallback_def r)
qed

lemma new_fallback_sound:
  assumes "policy_sound s" "\<And>sel. fallback_selection fb = Some sel \<Longrightarrow> fb_writer fb = Some w \<and> policy_refusal s sel w = None"
  shows "policy_sound (s\<lparr>ps_fallbacks := ps_fallbacks s @ [fb]\<rparr>)"
proof -
  have r: "policy_refusal (s\<lparr>ps_fallbacks := ps_fallbacks s @ [fb]\<rparr>) = policy_refusal s"
    by (rule same_policy_refusal(1)) (simp add: same_policy_def)
  show ?thesis using assms by (auto simp: policy_sound_def admitted_mandate_def admitted_fallback_def r cong: branch_cong)
qed

lemma admit_accepts: "admit_provider_selection cx sel w k c s = (None, t) \<Longrightarrow> t = s \<and> policy_refusal s sel w = None"
  by (auto simp: admit_provider_selection_def Let_def split: option.splits prod.splits)

lemma fallback_selection_writer: "fallback_selection (fb\<lparr>fb_writer := w\<rparr>) = fallback_selection fb"
  by (simp add: fallback_selection_def fallback_selector_def Let_def cong: branch_cong)

lemma set_preference_sound:
  assumes s: "policy_sound s"
  shows "policy_sound (snd (set_model_preference cx m v r chk s))"
proof -
  let ?w = "current_override_writer ''set_model_preference'' cx"
  obtain a t where p: "resolve_model_preference cx m v r chk s = (a, t)" by fastforce
  have o: "only_history s t" using resolve_preference_only_history p by (metis snd_conv)
  then have t: "policy_sound t" by (rule only_history_sound [OF _ s])
  show ?thesis
  proof (cases a)
    case (Inl e)
    then show ?thesis using s t by (simp add: set_model_preference_def p Let_def)
  next
    case (Inr sel)
    have "t = s \<and> policy_refusal s sel (current_override_writer ''resolve_model_preference'' cx) = None"
      using p Inr by (auto simp: resolve_model_preference_def split: sum.splits prod.splits option.splits dest: admit_accepts)
    moreover have "og_source (current_override_writer ''resolve_model_preference'' cx) = og_source ?w"
      by (simp add: current_override_writer_def agent_provenance_def split: option.split)
    ultimately have "policy_refusal t sel ?w = None"
      using policy_refusal_source [of "current_override_writer ''resolve_model_preference'' cx" ?w s sel] by simp
    from new_mandate_sound [OF t this] have "policy_sound (record_override_decision cx sel ?w None Mandate_Write False
        (t\<lparr>ps_preference := sel, ps_provenance := Some ?w\<rparr>))"
      by (rule only_history_sound [OF record_only_history])
    then show ?thesis using s Inr by (simp add: set_model_preference_def p Let_def)
  qed
qed

lemma add_fallback_sound:
  assumes s: "policy_sound s"
  shows "policy_sound (snd (add_fallback_model cx m p s))"
proof -
  let ?fb = "\<lparr>fb_vendor = None, fb_provider = p, fb_model = Some m, fb_writer = None\<rparr>"
  let ?w = "current_override_writer ''add_fallback_model'' cx"
  show ?thesis
  proof (cases "fallback_selection ?fb")
    case None
    have "policy_sound (s\<lparr>ps_fallbacks := ps_fallbacks s @ [?fb]\<rparr>)" by (rule new_fallback_sound [OF s]) (simp add: None)
    then show ?thesis using s None by (simp add: add_fallback_model_def Let_def)
  next
    case (Some sel)
    obtain e t where a: "admit_provider_selection cx sel ?w Fallback_Write False s = (e, t)" by fastforce
    have t: "policy_sound t" using only_history_sound [OF admit_only_history s] a by (metis snd_conv)
    show ?thesis
    proof (cases e)
      case None
      then have u: "policy_refusal t sel ?w = None" using admit_accepts a by blast
      let ?t = "record_override_decision cx sel ?w None Fallback_Write False t"
      have "policy_sound ?t" by (rule only_history_sound [OF record_only_history t])
      moreover have "policy_refusal ?t = policy_refusal t"
        by (rule same_policy_refusal(1) [OF only_history_same [OF record_only_history]])
      moreover have "fallback_selection (?fb\<lparr>fb_writer := Some ?w\<rparr>) = Some sel"
        using \<open>fallback_selection ?fb = Some sel\<close> by (simp only: fallback_selection_writer)
      ultimately have "policy_sound (?t\<lparr>ps_fallbacks := ps_fallbacks ?t @ [?fb\<lparr>fb_writer := Some ?w\<rparr>]\<rparr>)"
        using u by (intro new_fallback_sound) auto
      then show ?thesis using s Some a None by (simp add: add_fallback_model_def Let_def)
    next
      case (Some e')
      then show ?thesis using s t \<open>fallback_selection ?fb = Some sel\<close> a by (simp add: add_fallback_model_def Let_def)
    qed
  qed
qed

lemma other_fields_sound:
  assumes "policy_sound s" "same_policy s t" "ps_preference t = ps_preference s" "ps_provenance t = ps_provenance s"
    "ps_fallbacks t = ps_fallbacks s" "ps_history t = ps_history s"
  shows "policy_sound t"
  using assms same_policy_refusal(1) [OF assms(2)]
  by (simp add: policy_sound_def admitted_mandate_def admitted_fallback_def cong: branch_cong)

lemma policy_step_sound: "policy_sound s \<Longrightarrow> policy_sound (policy_step s e)"
proof (cases e)
  case (Unprefer cx)
  assume "policy_sound s"
  then show ?thesis using Unprefer no_mandate_sound by (simp add: clear_model_preference_def)
next
  case (Reload mc)
  assume s: "policy_sound s"
  have r: "policy_refusal (clear_mandate mc s) = policy_refusal s"
    by (rule same_policy_refusal(1)) (simp add: same_policy_def clear_mandate_def)
  show ?thesis using s Reload by (simp add: policy_sound_def admitted_mandate_def r) (simp add: clear_mandate_def)
next
  case (Ask cx override force serves concrete adapter)
  assume "policy_sound s"
  then show ?thesis using Ask only_history_sound [OF get_response_only_history] by simp
qed (auto intro: set_preference_sound add_fallback_sound other_fields_sound simp: same_policy_def disable_route_def)

interpretation policy: guarded_machine policy_step "\<lambda>_ _. True" policy_sound
  by unfold_locales (rule policy_step_sound)


abbreviation policy_run :: "policy_state \<Rightarrow> policy_event list \<Rightarrow> policy_state" where
  "policy_run s es \<equiv> run policy_step s es"

lemma new_state_sound: "new_policy_state cfg ps mc cheap = Some s \<Longrightarrow> policy_sound s"
  by (auto simp: new_policy_state_def policy_sound_def admitted_mandate_def split: option.splits)

lemma policy_run_sound:
  assumes "new_policy_state cfg ps mc cheap = Some s0"
  shows "policy_sound (policy_run s0 es)"
  by (rule policy.run_inv [OF new_state_sound [OF assms]]) (induction es arbitrary: s0; simp)

text \<open>
  C9: Whoever writes and whatever happens in between, the mandate in force and every stored fallback that
  names a provider are ones the policy admits now for the writer recorded with them: the provider is not
  denied, and what the agent wrote names a vendor of the approved chain. The audit history keeps at most
  its hundred newest decisions.
\<close>

theorem overrides_in_force_are_admitted:
  assumes "new_policy_state cfg ps mc cheap = Some s0" and "s = policy_run s0 es"
  shows "(\<forall>w. ps_provenance s = Some w \<longrightarrow>
            refuse_denied_selector s (selector_of (ps_preference s)) (sl_model (ps_preference s)) = None \<and>
            (og_source w = AGENT \<longrightarrow> sl_vendor (ps_preference s) \<in> Some ` approved s)) \<and>
    (\<forall>fb \<in> set (ps_fallbacks s). \<forall>sel. fallback_selection fb = Some sel \<longrightarrow>
       (\<exists>w. fb_writer fb = Some w \<and> refuse_denied_selector s (selector_of sel) (sl_model sel) = None \<and>
          (og_source w = AGENT \<longrightarrow> sl_vendor sel \<in> Some ` approved s))) \<and>
    length (ps_history s) \<le> 100"
proof -
  have "policy_sound s" unfolding assms(2) by (rule policy_run_sound [OF assms(1)])
  then have m: "admitted_mandate s" and f: "\<forall>fb \<in> set (ps_fallbacks s). admitted_fallback s fb"
    and h: "length (ps_history s) \<le> 100"
    by (simp_all add: policy_sound_def OVERRIDE_HISTORY_LIMIT_def)
  have r: "policy_refusal s sel w = None \<longleftrightarrow> refuse_denied_selector s (selector_of sel) (sl_model sel) = None \<and>
      (og_source w = AGENT \<longrightarrow> sl_vendor sel \<in> Some ` approved s)" for sel w
    by (auto simp: policy_refusal_def narrowed_by_chain_def split: option.splits)
  show ?thesis using m f h by (simp add: admitted_mandate_def admitted_fallback_def r split: option.splits)
qed

lemma same_policy_trans: "same_policy s t \<Longrightarrow> same_policy t u \<Longrightarrow> same_policy s u"
  by (simp add: same_policy_def)

lemma policy_step_same: "same_policy s (policy_step s e)"
proof -
  have p: "same_policy s (snd (set_model_preference cx m v r chk s))" for cx m v r chk
    using only_history_same [OF resolve_preference_only_history [of s cx m v r chk]]
    by (auto simp: set_model_preference_def Let_def record_fields same_policy_def split: sum.split prod.split)
  have a: "same_policy s (snd (add_fallback_model cx m p s))" for cx m p
  proof (cases "fallback_selection \<lparr>fb_vendor = None, fb_provider = p, fb_model = Some m, fb_writer = None\<rparr>")
    case (Some sel)
    obtain e t where t: "admit_provider_selection cx sel (current_override_writer ''add_fallback_model'' cx) Fallback_Write False s = (e, t)"
      by fastforce
    then have "same_policy s t" using only_history_same [OF admit_only_history] by (metis snd_conv)
    then show ?thesis using Some t
      by (simp add: add_fallback_model_def Let_def record_fields same_policy_def split: option.split)
  qed (simp add: add_fallback_model_def Let_def same_policy_def)
  show ?thesis
  proof (cases e)
    case (Ask cx override force serves concrete adapter)
    then show ?thesis using only_history_same [OF get_response_only_history] by simp
  next
    case (Prefer cx m v r chk)
    then show ?thesis using p by simp
  next
    case (Fall_Back cx m v)
    then show ?thesis using a by simp
  qed (simp_all add: same_policy_def clear_model_preference_def clear_mandate_def disable_route_def)
qed

lemma run_same_policy: "same_policy s (policy_run s es)"
  by (induction es arbitrary: s) (auto intro: same_policy_trans policy_step_same)

subsection \<open>What a call dispatches to\<close>

lemma dispatched_route:
  assumes w: "well_named (ps_providers s)" and c: "get_response cx ov f serves concrete adapter s = (Inr l, s1)"
    and p: "p \<in> set (rl_dispatched l)"
  shows "of_service s p \<and> (effective_force_local_only f cx \<longrightarrow> rt_local p) \<and>
    (in_declared_chain (ps_config s) (rt_vendor p) \<or> rt_local p \<and> effective_force_local_only f cx \<or> authorized_by cx p s)"
proof -
  obtain q t where q: "resolve_provider_routing cx ov f s = (q, t)" by fastforce
  then obtain r where r: "q = Inr r" using c by (cases q) (simp_all add: get_response_def split: if_splits)
  have h: "only_history s t" using routing_only_history q by (metis snd_conv)
  have "p \<in> set (rl_dispatched (fst (try_routes cx f serves concrete adapter r [0..<length (re_providers r)] t)))"
    using c p by (auto simp: get_response_def q [unfolded r] Let_def split: prod.splits if_splits)
  from try_routes_dispatched [OF h this] obtain i u model where i: "i < length (re_providers r)" "p = re_providers r ! i"
    and u: "only_history s u" "fst (guard_dispatch cx (rt_name p) model ''get_response'' f [] u) = None"
    by auto
  have s: "of_service s p" and l: "effective_force_local_only f cx \<longrightarrow> rt_local p"
    using routing_result [OF q [unfolded r]] i nth_mem by blast+
  obtain k where k: "u = s\<lparr>ps_history := k\<rparr>" using u(1) by (rule only_historyE)
  obtain x where x: "x \<in> set (ps_providers s)" "base p = base x" using s by (auto simp: of_service_def)
  from guard_accepts_route [of u x p cx model "''get_response''" f] w x u(2) k
  have "in_declared_chain (ps_config s) (rt_vendor p) \<or> rt_local p \<and> effective_force_local_only f cx \<or> authorized_by cx p u"
    by simp
  then show ?thesis using s l by (simp add: authorized_by_def k dispatch_history)
qed

text \<open>
  What the configuration and the writers say of a route, in terms of their texts and not of the code's
  tests. A selector names a route when it is the route's vendor, with or without a colon after it, or its
  vendor and route; an override or a line of the operator's file names it by the part before the first
  slash. An entry of the deny-list is a route's name, its vendor, or its vendor and route. The declared
  chain is the vendors of the texts in \<open>route_priority\<close>; without any it admits everything.
\<close>

definition selector_names :: "string \<Rightarrow> route_info \<Rightarrow> bool" where
  "selector_names sel p \<longleftrightarrow> (\<exists>v. rt_vendor p = Some v \<and> v \<noteq> [] \<and>
     (sel = v \<or> sel = v @ '':'' \<or> (\<exists>r. rt_route p = Some r \<and> sel = v @ '':'' @ r)))"

definition text_names :: "string \<Rightarrow> route_info \<Rightarrow> bool" where
  "text_names m p \<longleftrightarrow> strip m \<noteq> ''auto'' \<and> (\<exists>sel. CHR ''/'' \<notin> set sel \<and> selector_names sel p \<and>
     (strip m = sel \<or> (\<exists>model. strip m = sel @ CHR ''/'' # model)))"

definition selection_names :: "selection \<Rightarrow> route_info \<Rightarrow> bool" where
  "selection_names x p \<longleftrightarrow> (\<exists>v. rt_vendor p = Some v \<and> v \<noteq> [] \<and> sl_vendor x = Some v \<and>
     (sl_route x = None \<or> sl_route x = Some [] \<or> sl_route x = rt_route p))"

definition on_deny_list :: "string list \<Rightarrow> route_info \<Rightarrow> bool" where
  "on_deny_list denied p \<longleftrightarrow> rt_name p \<in> set denied \<or>
     (\<exists>v. rt_vendor p = Some v \<and> v \<noteq> [] \<and>
        (v \<in> set denied \<or> (\<exists>r. rt_route p = Some r \<and> r \<noteq> [] \<and> v @ '':'' @ r \<in> set denied)))"

definition chain_admits :: "llm_config \<Rightarrow> string option \<Rightarrow> bool" where
  "chain_admits cfg vendor \<longleftrightarrow>
     (\<nexists>xs e. dict_get cfg ''route_priority'' = Some (J_List xs) \<and> J_Str e \<in> set xs \<and> e \<noteq> []) \<or>
     (\<exists>xs e. dict_get cfg ''route_priority'' = Some (J_List xs) \<and> J_Str e \<in> set xs \<and> e \<noteq> [] \<and>
        vendor = Some (takeWhile (\<lambda>c. c \<noteq> CHR '':'') e))"

text \<open>The texts of a stored fallback and of the operator's file that can name a route.\<close>

definition fallback_names_route :: "fallback \<Rightarrow> route_info \<Rightarrow> bool" where
  "fallback_names_route fb p \<longleftrightarrow>
     (\<exists>sel. (fb_vendor fb = Some sel \<or> (fb_vendor fb = None \<or> fb_vendor fb = Some []) \<and> fb_provider fb = Some sel) \<and>
        selector_names sel p)"

definition file_names_route :: "policy_state \<Rightarrow> route_info \<Rightarrow> bool" where
  "file_names_route s p \<longleftrightarrow> (\<exists>sels m. config_selectors s = Some sels \<and> m \<in> set sels \<and> text_names m p)"

lemma vendor_of_key_takeWhile: "vendor_of_key e = takeWhile (\<lambda>c. c \<noteq> CHR '':'') e"
  unfolding vendor_of_key_def partition_colon_def by (induction e) (auto split: option.splits)

lemma str_entries_set: "set (str_entries xs) = {e. J_Str e \<in> set xs \<and> e \<noteq> []}"
  by (induction xs rule: str_entries.induct) auto

lemma route_priority_set:
  "set (route_priority_entries cfg) = {e. \<exists>xs. dict_get cfg ''route_priority'' = Some (J_List xs) \<and> J_Str e \<in> set xs \<and> e \<noteq> []}"
  by (auto simp: route_priority_entries_def cfg_get_def str_entries_set split: option.splits jval.splits)

lemma in_chain_admits: "in_declared_chain cfg vendor \<longleftrightarrow> chain_admits cfg vendor"
proof -
  have "route_priority_entries cfg = [] \<longleftrightarrow> set (route_priority_entries cfg) = {}" by simp
  then show ?thesis unfolding in_declared_chain_def chain_admits_def
    by (auto simp: route_priority_set vendor_of_key_takeWhile image_iff split: option.splits)
qed

lemma denied_on_list: "route_is_denied p denied \<longleftrightarrow> on_deny_list denied p"
  by (auto simp: route_is_denied_def provider_is_denied_def selector_is_denied_def on_deny_list_def composite_def
      split: option.splits)

lemma split_first_parts: "split_first d m = Some (a, b) \<Longrightarrow> d \<notin> set a \<and> m = a @ d # b"
  by (induction m arbitrary: a) (auto split: if_splits)

lemma partition_parts: "partition_colon sel = (v, r) \<Longrightarrow> sel = v \<and> r = [] \<or> sel = v @ '':'' @ r"
  by (auto simp: partition_colon_def dest: split_first_parts split: option.splits)

lemma covers_selector:
  assumes "partition_colon sel = (v, r)" and "selection_covers \<lparr>sl_vendor = Some v, sl_route = or_nothing r, sl_model = x\<rparr> (rt_vendor p) (rt_route p)"
  shows "selector_names sel p"
  using partition_parts [OF assms(1)] assms(2)
  by (auto simp: selector_names_def selection_covers_def filled_def or_nothing_def split: if_splits)

lemma covers_names: "selection_covers x (rt_vendor p) (rt_route p) \<Longrightarrow> selection_names x p"
  by (auto simp: selection_covers_def selection_names_def filled_def)

lemma override_selection_names:
  assumes "names_route (selection_of_override s (Some m)) (rt_vendor p) (rt_route p)"
  shows "text_names m p"
proof -
  obtain x where x: "call_override_selection (Some m) (known_vendors (ps_config s) (ps_providers s) (ps_denied s)) = Some x"
    "selection_covers x (rt_vendor p) (rt_route p)"
    using assms by (auto simp: names_route_def selection_of_override_def split: option.splits)
  have auto: "strip m \<noteq> ''auto''" using x(1) by (auto simp: call_override_selection_def Let_def split: if_splits)
  show ?thesis
  proof (cases "split_first CHR ''/'' (strip m)")
    case None
    obtain v r where vr: "partition_colon (strip m) = (v, r)" by fastforce
    then have "x = \<lparr>sl_vendor = Some v, sl_route = or_nothing r, sl_model = None\<rparr>"
      using x(1) None by (auto simp: call_override_selection_def Let_def split: if_splits)
    with covers_selector [OF vr] x(2) have "selector_names (strip m) p" by simp
    moreover have "CHR ''/'' \<notin> set (strip m)" using None by (simp add: split_first_iff)
    ultimately show ?thesis using auto unfolding text_names_def by blast
  next
    case (Some lm)
    obtain left model where lm: "lm = (left, model)" by (cases lm)
    obtain v r where vr: "partition_colon left = (v, r)" by fastforce
    then have "x = \<lparr>sl_vendor = Some v, sl_route = or_nothing r, sl_model = or_nothing model\<rparr>"
      using x(1) Some by (auto simp: lm call_override_selection_def Let_def split: if_splits)
    with covers_selector [OF vr] x(2) have "selector_names left p" by simp
    moreover have "strip m = left @ CHR ''/'' # model" "CHR ''/'' \<notin> set left"
      using Some split_first_parts by (simp_all add: lm)
    ultimately show ?thesis using auto unfolding text_names_def by blast
  qed
qed

lemma fallback_names_text:
  assumes "names_route (fallback_selection fb) (rt_vendor p) (rt_route p)"
  shows "fallback_names_route fb p"
proof -
  obtain sel where sel: "fallback_selector fb = Some sel"
    using assms by (auto simp: names_route_def fallback_selection_def split: option.splits)
  obtain v r where vr: "partition_colon sel = (v, r)" by fastforce
  then have "selector_names sel p" using assms sel covers_selector [OF vr]
    by (auto simp: names_route_def fallback_selection_def Let_def split: if_splits)
  then show ?thesis using sel by (auto simp: fallback_names_route_def fallback_selector_def filled_def split: if_splits)
qed

text \<open>Who, not narrowed by the chain, chose a route: the writer of the scope, or an override in force that names it.\<close>

lemma authority_chosen:
  assumes "dispatch_authority cx (rt_vendor p) (rt_route p) s = Some (Some w)"
  shows "(\<exists>w. cx_writer cx = Some w \<and> og_source w \<noteq> AGENT) \<or>
    (\<exists>m w. cx_call_writer cx = Some (m, w) \<and> og_source w \<noteq> AGENT \<and> text_names m p) \<or>
    (\<exists>w. ps_provenance s = Some w \<and> og_source w \<noteq> AGENT \<and> selection_names (ps_preference s) p) \<or>
    (\<exists>fb \<in> set (ps_fallbacks s). \<exists>w. fb_writer fb = Some w \<and> og_source w \<noteq> AGENT \<and> fallback_names_route fb p) \<or>
    file_names_route s p"
proof -
  let ?v = "rt_vendor p" and ?r = "rt_route p"
  consider (scope) w where "cx_writer cx = Some w" "og_source w \<noteq> AGENT"
    | (call) m w where "cx_call_writer cx = Some (m, w)" "og_source w \<noteq> AGENT"
        "names_route (selection_of_override s (Some m)) ?v ?r"
    | (stored) "stored_authority cx ?v ?r s = Some (Some w)"
    using assms by (auto simp: dispatch_authority_def narrowed_by_chain_def split: option.splits if_splits)
  then show ?thesis
  proof cases
    case scope
    then show ?thesis by blast
  next
    case call
    then show ?thesis using override_selection_names by blast
  next
    case stored
    then consider (mandate) "mandate_names s ?v ?r"
      | (by_fallback) fb where "find (fallback_names cx ?v ?r) (ps_fallbacks s) = Some fb"
      | (by_file) sels m where "config_selectors s = Some sels" "m \<in> set sels"
          "names_route (selection_of_override s (Some m)) ?v ?r"
      by (auto simp: stored_authority_def split: if_splits option.splits)
    then show ?thesis
    proof cases
      case mandate
      then show ?thesis using covers_names
        by (auto simp: mandate_names_def narrowed_by_chain_def split: option.splits)
    next
      case by_fallback
      then have fb: "fb \<in> set (ps_fallbacks s)" "\<not> narrowed_by_chain (fallback_writer fb cx)"
        "names_route (fallback_selection fb) ?v ?r"
        by (auto simp: find_Some_iff fallback_names_def)
      then obtain w where "fb_writer fb = Some w" "og_source w \<noteq> AGENT"
        by (auto simp: fallback_writer_def agent_provenance_def narrowed_by_chain_def split: option.splits)
      then show ?thesis using fb fallback_names_text by blast
    next
      case by_file
      then show ?thesis using override_selection_names unfolding file_names_route_def by blast
    qed
  qed
qed

text \<open>A call whose override has a slash tries only the routes that the part before the slash selects.\<close>

lemma dispatched_by_override:
  assumes "get_response cx (Some m) f serves concrete adapter s = (Inr l, t)"
    and "p \<in> set (rl_dispatched l)" and "split_first CHR ''/'' m = Some (left, model)"
  shows "p \<in> set (filter_by_selector (available_providers s) left)"
proof -
  have "CHR ''/'' \<in> set m" using split_first_parts [OF assms(3)] by simp
  then have m: "m \<noteq> []" "m \<noteq> ''auto''" by auto
  obtain q u where q: "resolve_provider_routing cx (Some m) f s = (q, u)" by fastforce
  then obtain r where r: "q = Inr r" using assms(1) by (cases q) (simp_all add: get_response_def split: if_splits)
  have h: "only_history s u" using routing_only_history q by (metis snd_conv)
  have "p \<in> set (rl_dispatched (fst (try_routes cx f serves concrete adapter r [0..<length (re_providers r)] u)))"
    using assms(1,2) by (auto simp: get_response_def q [unfolded r] Let_def split: prod.splits if_splits)
  from try_routes_dispatched [OF h this] have p: "p \<in> set (re_providers r)" by auto
  from q [unfolded r] obtain cs x s2 where
    "choose_candidates cx (if Some m = Some ''auto'' then None else Some m) s = (Inr (cs, x, re_pin r), s2)"
    and sub: "set (re_providers r) \<subseteq> set cs" by (rule routing_shape)
  with m have c: "choose_candidates cx (Some m) s = (Inr (cs, x, re_pin r), s2)" "set (re_providers r) \<subseteq> set cs" by simp_all
  then have "route_override cx m s = (Inr (cs, x, re_pin r), s2)"
    using m by (simp add: choose_candidates_def real_override_def filled_def)
  moreover obtain e s' where a: "admit_call_override cx (Some m) ''model_override'' s = (e, s')" by fastforce
  moreover obtain k where "s' = s\<lparr>ps_history := k\<rparr>"
    using a admit_call_only_history [of s cx "Some m" "selection_of_override s (Some m)" "''model_override''"]
    by (auto simp: admit_call_override_def elim: only_historyE)
  ultimately show ?thesis using assms(3) c(2) p
    by (auto simp: route_override_def routes_history Let_def split: option.splits if_splits)
qed

text \<open>
  C4: Whatever the state, the override, the writer and the adapters do, a call reaches an adapter only on
  a route of the service; no entry of the deny-list names the route; it is a local one when privacy asks
  for that; when the override has a slash, the part before it is the route's name or vendor; and the route's
  vendor is in the declared chain, or the route is local under the privacy restriction, or an override in
  force whose writer the chain does not narrow names it: the one attested for this call, the mandate, a
  stored fallback or a line of the operator's file. The one further way past the chain is a scope whose
  named writer the chain does not narrow (a Sovereign, operator or system scope): there the code asks for
  no name at all, against its docstring (\<open>scope_writer_opens_every_route\<close> below). The routes are those of
  the registry, named by vendor and route, each once (\<open>well_named\<close>).
\<close>

theorem dispatched_routes_are_permitted:
  assumes "well_named (ps_providers s)" and "get_response cx ov f serves concrete adapter s = (Inr l, t)"
    and "p \<in> set (rl_dispatched l)"
  shows "(\<exists>q \<in> set (ps_providers s). rt_name p = rt_name q \<and> rt_vendor p = rt_vendor q \<and> rt_route p = rt_route q) \<and>
    \<not> on_deny_list (ps_denied s) p \<and>
    (effective_force_local_only f cx \<longrightarrow> rt_local p) \<and>
    (\<forall>left model. ov = Some (left @ CHR ''/'' # model) \<and> CHR ''/'' \<notin> set left \<longrightarrow>
       rt_name p = left \<or> rt_vendor p = Some left) \<and>
    (chain_admits (ps_config s) (rt_vendor p) \<or> rt_local p \<and> effective_force_local_only f cx \<or>
     (\<exists>w. cx_writer cx = Some w \<and> og_source w \<noteq> AGENT) \<or>
     (\<exists>m w. cx_call_writer cx = Some (m, w) \<and> og_source w \<noteq> AGENT \<and> text_names m p) \<or>
     (\<exists>w. ps_provenance s = Some w \<and> og_source w \<noteq> AGENT \<and> selection_names (ps_preference s) p) \<or>
     (\<exists>fb \<in> set (ps_fallbacks s). \<exists>w. fb_writer fb = Some w \<and> og_source w \<noteq> AGENT \<and> fallback_names_route fb p) \<or>
     file_names_route s p)"
proof -
  note d = dispatched_route [OF assms]
  then obtain q where q: "q \<in> set (ps_providers s)" "base p = base q" by (auto simp: of_service_def)
  have n: "\<exists>q \<in> set (ps_providers s). rt_name p = rt_name q \<and> rt_vendor p = rt_vendor q \<and> rt_route p = rt_route q"
    by (rule bexI [OF _ q(1)]) (simp add: base_eqD [OF q(2)])
  have o: "rt_name p = left \<or> rt_vendor p = Some left"
    if "ov = Some (left @ CHR ''/'' # model)" "CHR ''/'' \<notin> set left" for left model
  proof -
    have "split_first CHR ''/'' (left @ CHR ''/'' # model) = Some (left, model)" by (rule split_first_append [OF that(2)])
    from dispatched_by_override [OF assms(2) [unfolded that(1)] assms(3) this] show ?thesis
      by (auto simp: filter_by_selector_def split: if_splits)
  qed
  have "\<not> on_deny_list (ps_denied s) p" "effective_force_local_only f cx \<longrightarrow> rt_local p"
    "chain_admits (ps_config s) (rt_vendor p) \<or> rt_local p \<and> effective_force_local_only f cx \<or> authorized_by cx p s"
    using d by (auto simp: of_service_def denied_on_list in_chain_admits)
  then show ?thesis using n o authority_chosen [of cx p s] unfolding authorized_by_def by blast
qed

subsection \<open>The agent stays in the chain\<close>

text \<open>The scope of a write or a call in which no principal is attested.\<close>

definition agent_scope :: "policy_context \<Rightarrow> bool" where
  "agent_scope cx \<longleftrightarrow> (case cx_writer cx of None \<Rightarrow> True | Some w \<Rightarrow> og_source w = AGENT) \<and>
     (case cx_call_writer cx of None \<Rightarrow> True | Some mw \<Rightarrow> og_source (snd mw) = AGENT)"

fun agent_event :: "policy_event \<Rightarrow> bool" where
  "agent_event (Prefer cx model vendor route check) \<longleftrightarrow> agent_scope cx"
| "agent_event (Fall_Back cx model provider) \<longleftrightarrow> agent_scope cx"
| "agent_event _ \<longleftrightarrow> True"

definition agent_written :: "policy_state \<Rightarrow> bool" where
  "agent_written s \<longleftrightarrow> (case ps_provenance s of None \<Rightarrow> True | Some w \<Rightarrow> og_source w = AGENT) \<and>
     (\<forall>fb \<in> set (ps_fallbacks s). case fb_writer fb of None \<Rightarrow> True | Some w \<Rightarrow> og_source w = AGENT)"

lemma agent_writer: "agent_scope cx \<Longrightarrow> og_source (current_override_writer via cx) = AGENT"
  by (simp add: agent_scope_def current_override_writer_def agent_provenance_def split: option.splits)

lemma only_history_written: "only_history s t \<Longrightarrow> agent_written s \<Longrightarrow> agent_written t"
  by (auto simp: only_history_def agent_written_def)

lemma set_preference_written:
  assumes "agent_scope cx" "agent_written s"
  shows "agent_written (snd (set_model_preference cx m v r chk s))"
proof -
  obtain a t where p: "resolve_model_preference cx m v r chk s = (a, t)" by fastforce
  have "only_history s t" using resolve_preference_only_history p by (metis snd_conv)
  then have t: "agent_written t" by (rule only_history_written [OF _ assms(2)])
  then have "agent_written (record_override_decision cx sel w None k c
      (t\<lparr>ps_preference := sel, ps_provenance := Some (current_override_writer via cx)\<rparr>))" for sel w k c via
    by (intro only_history_written [OF record_only_history]) (simp add: agent_written_def agent_writer [OF assms(1)])
  then show ?thesis using assms(2) t by (simp add: set_model_preference_def p Let_def split: sum.split)
qed

lemma add_fallback_written:
  assumes "agent_scope cx" "agent_written s"
  shows "agent_written (snd (add_fallback_model cx m p s))"
proof -
  let ?w = "current_override_writer ''add_fallback_model'' cx"
  let ?fb = "\<lparr>fb_vendor = None, fb_provider = p, fb_model = Some m, fb_writer = None\<rparr>"
  show ?thesis
  proof (cases "fallback_selection ?fb")
    case None
    then show ?thesis using assms(2) by (auto simp: add_fallback_model_def Let_def agent_written_def)
  next
    case (Some sel)
    obtain e t where a: "admit_provider_selection cx sel ?w Fallback_Write False s = (e, t)" by fastforce
    have t: "agent_written t" using only_history_written [OF admit_only_history assms(2)] a by (metis snd_conv)
    have "agent_written (record_override_decision cx sel ?w None Fallback_Write False t)"
      by (rule only_history_written [OF record_only_history t])
    then have "agent_written ((record_override_decision cx sel ?w None Fallback_Write False t)\<lparr>ps_fallbacks :=
        ps_fallbacks (record_override_decision cx sel ?w None Fallback_Write False t) @ [?fb\<lparr>fb_writer := Some ?w\<rparr>]\<rparr>)"
      by (auto simp: agent_written_def agent_writer [OF assms(1)])
    then show ?thesis using assms(2) t Some a
      by (simp add: add_fallback_model_def Let_def split: option.split)
  qed
qed

lemma agent_step_written: "agent_written s \<Longrightarrow> agent_event e \<Longrightarrow> agent_written (policy_step s e)"
proof (cases e)
  case (Ask cx override force serves concrete adapter)
  assume "agent_written s"
  then show ?thesis using Ask only_history_written [OF get_response_only_history] by simp
next
  case (Prefer cx m v r chk)
  assume "agent_written s" "agent_event e"
  then show ?thesis using Prefer set_preference_written by simp
next
  case (Fall_Back cx m v)
  assume "agent_written s" "agent_event e"
  then show ?thesis using Fall_Back add_fallback_written by simp
qed (auto simp: agent_written_def clear_model_preference_def clear_mandate_def disable_route_def)

interpretation agents: guarded_machine policy_step "\<lambda>_. agent_event" agent_written
  by unfold_locales (rule agent_step_written)

lemma new_state_written: "new_policy_state cfg ps mc cheap = Some s \<Longrightarrow> agent_written s"
  by (auto simp: new_policy_state_def agent_written_def split: option.splits)

lemma agent_authority:
  assumes "agent_scope cx" "agent_written s" "dispatch_authority cx v r s = Some (Some w)"
  shows "\<exists>sels m. config_selectors s = Some sels \<and> m \<in> set sels \<and> names_route (selection_of_override s (Some m)) v r"
proof -
  have f: "\<not> fallback_names cx v r fb" if "fb \<in> set (ps_fallbacks s)" for fb
    using that assms(2)
    by (auto simp: agent_written_def fallback_names_def narrowed_by_chain_def fallback_writer_def agent_provenance_def
        split: option.splits)
  then have "find (fallback_names cx v r) (ps_fallbacks s) = None" by (simp add: find_None_iff)
  moreover have "\<not> mandate_names s v r"
    using assms(2) by (simp add: agent_written_def mandate_names_def narrowed_by_chain_def split: option.splits)
  moreover have "stored_authority cx v r s = Some (Some w)"
    using assms(1,3) by (auto simp: dispatch_authority_def agent_scope_def narrowed_by_chain_def split: option.splits if_splits)
  ultimately show ?thesis by (auto simp: stored_authority_def split: option.splits if_splits)
qed

text \<open>
  C5: As long as only the agent writes, it cannot leave the approved chain: after any run of its writes
  and calls, with failures, discoveries and reloads of the operator's file in between, a call of its own
  reaches only routes whose vendor is in the declared chain, local routes under local-only privacy, and
  routes that the operator's file names.
\<close>

theorem agent_cannot_leave_the_chain:
  assumes "new_policy_state cfg ps mc cheap = Some s0" and "well_named ps" and "run_ok (\<lambda>_. agent_event) policy_step s0 es"
    and "s = policy_run s0 es" and "agent_scope cx" and "get_response cx ov f serves concrete adapter s = (Inr l, t)"
    and "p \<in> set (rl_dispatched l)"
  shows "in_declared_chain cfg (rt_vendor p) \<or> rt_local p \<and> effective_force_local_only f cx \<or>
    (\<exists>sels m. config_selectors s = Some sels \<and> m \<in> set sels \<and>
       names_route (selection_of_override s (Some m)) (rt_vendor p) (rt_route p))"
proof -
  have a: "agent_written s"
    unfolding assms(4) by (rule agents.run_inv [OF new_state_written [OF assms(1)] assms(3)])
  have "same_policy s0 s" unfolding assms(4) by (rule run_same_policy)
  then have c: "ps_config s = cfg" "ps_providers s = ps"
    using assms(1) by (auto simp: same_policy_def new_policy_state_def split: option.splits)
  from dispatched_route [OF _ assms(6,7)] assms(2) show ?thesis
    unfolding authorized_by_def c using agent_authority [OF assms(5) a] by blast
qed

subsection \<open>Admission and the guard agree\<close>

lemma dropWhile_keep: "x \<in> set xs \<Longrightarrow> \<not> P x \<Longrightarrow> dropWhile P (xs @ ys) = dropWhile P xs @ ys"
  by (induction xs) auto

lemma dropWhile_to: "\<not> P c \<Longrightarrow> \<exists>ys'. dropWhile P (ys @ [c]) = ys' @ [c]"
  by (induction ys) auto

lemma strip_keeps_front:
  assumes "a \<noteq> []" "\<not> is_space (hd a)" "\<not> is_space c"
  shows "\<exists>b'. strip (a @ c # b) = a @ c # b'"
proof -
  from assms obtain x a' where a: "a = x # a'" "\<not> is_space x" by (cases a) auto
  have "dropWhile is_space (rev b @ c # rev a) = dropWhile is_space (rev b @ [c]) @ rev a"
    using dropWhile_keep [of c "rev b @ [c]" is_space "rev a"] assms(3) by simp
  moreover obtain b'' where "dropWhile is_space (rev b @ [c]) = b'' @ [c]"
    using dropWhile_to [of is_space c "rev b"] assms(3) by blast
  ultimately have "rev (dropWhile is_space (rev b @ c # rev a)) = a @ c # rev b''" by simp
  then show ?thesis using a by (simp add: strip_def)
qed

text \<open>The routes a selector matches are the ones the selection it denotes covers.\<close>

definition plain_route :: "route_info \<Rightarrow> string \<Rightarrow> string \<Rightarrow> bool" where
  "plain_route p v r \<longleftrightarrow> rt_vendor p = Some v \<and> rt_route p = Some r \<and> rt_name p = composite v r \<and>
     v \<noteq> [] \<and> r \<noteq> [] \<and> CHR '':'' \<notin> set v \<and> CHR ''/'' \<notin> set (composite v r) \<and> \<not> is_space (hd v)"

lemma partition_plain: "CHR '':'' \<notin> set s \<Longrightarrow> partition_colon s = (s, [])"
  by (simp add: partition_colon_def split_first_None)

lemma matched_selector:
  assumes "plain_route p v r" "rt_name p = sel \<and> CHR '':'' \<in> set sel \<or> rt_vendor p = Some sel \<and> CHR '':'' \<notin> set sel"
  shows "sel = composite v r \<and> partition_colon sel = (v, r) \<or> sel = v \<and> partition_colon sel = (v, [])"
  using assms partition_composite [of v r] partition_plain [of sel] by (auto simp: plain_route_def)

lemma in_filter_selector:
  "p \<in> set (filter_by_selector ps sel) \<Longrightarrow> p \<in> set ps \<and>
     (rt_name p = sel \<and> CHR '':'' \<in> set sel \<or> rt_vendor p = Some sel \<and> CHR '':'' \<notin> set sel)"
  by (auto simp: filter_by_selector_def split: if_splits)

lemma selected_override:
  assumes p: "plain_route p v r" and m: "split_first CHR ''/'' m = Some (left, model)"
    and sel: "rt_name p = left \<and> CHR '':'' \<in> set left \<or> rt_vendor p = Some left \<and> CHR '':'' \<notin> set left"
  shows "\<exists>x. selection_of_override s (Some m) = Some x \<and> sl_vendor x = Some v \<and> selection_covers x (rt_vendor p) (rt_route p)"
proof -
  have l: "left = composite v r \<and> partition_colon left = (v, r) \<or> left = v \<and> partition_colon left = (v, [])"
    by (rule matched_selector [OF p sel])
  then have f: "left \<noteq> []" "\<not> is_space (hd left)" "CHR ''/'' \<notin> set left"
    using p by (auto simp: plain_route_def composite_def hd_append)
  have "m = left @ CHR ''/'' # model" using m f(3) by (simp add: split_first_join)
  moreover have "\<not> is_space CHR ''/''" by code_simp
  ultimately obtain b where b: "strip m = left @ CHR ''/'' # b" using strip_keeps_front f by blast
  have "CHR ''/'' \<in> set (strip m)" by (simp add: b)
  moreover have "CHR ''/'' \<notin> set ''auto''" by code_simp
  ultimately have "strip m \<noteq> ''auto''" by metis
  moreover have "split_first CHR ''/'' (strip m) = Some (left, b)" unfolding b by (rule split_first_append [OF f(3)])
  moreover have "strip m \<noteq> []" by (simp add: b)
  moreover obtain r' where r': "partition_colon left = (v, r')" "r' = r \<or> r' = []" using l by auto
  ultimately have "selection_of_override s (Some m) = Some \<lparr>sl_vendor = Some v, sl_route = or_nothing r', sl_model = or_nothing b\<rparr>"
    using p by (simp add: selection_of_override_def call_override_selection_def Let_def plain_route_def)
  moreover have "selection_covers \<lparr>sl_vendor = Some v, sl_route = or_nothing r', sl_model = or_nothing b\<rparr> (rt_vendor p) (rt_route p)"
    using p r'(2) by (auto simp: selection_covers_def plain_route_def filled_def or_nothing_def)
  ultimately show ?thesis by simp
qed

lemma stored_gives_authority:
  "stored_authority cx v r s = Some (Some w) \<Longrightarrow> \<exists>w'. dispatch_authority cx v r s = Some (Some w')"
  by (auto simp: dispatch_authority_def split: option.splits)

lemma approved_in_chain: "v \<in> approved s \<Longrightarrow> in_declared_chain (ps_config s) (Some v)"
  by (auto simp: approved_def approved_vendors_def in_declared_chain_def split: if_splits)

lemma config_gives_authority:
  assumes "config_selectors s = Some sels" "m \<in> set sels" "names_route (selection_of_override s (Some m)) v r"
  shows "\<exists>w. stored_authority cx v r s = Some (Some w)"
proof (cases "mandate_names s v r")
  case True
  then obtain w where "ps_provenance s = Some w" by (auto simp: mandate_names_def split: option.splits)
  then show ?thesis using True by (simp add: stored_authority_def)
next
  case False
  have "\<exists>m \<in> set sels. names_route (selection_of_override s (Some m)) v r" using assms(2,3) by blast
  then show ?thesis using False assms(1) by (simp add: stored_authority_def split: option.split)
qed

text \<open>An override that is admitted authorizes the routes it names, or they are in the chain.\<close>

lemma admitted_override_authorizes:
  assumes a: "fst (admit_call_override cx (Some m) via s) = None"
    and x: "selection_of_override s (Some m) = Some x" "sl_vendor x = Some v" "selection_covers x (Some v) r"
  shows "in_declared_chain (ps_config s) (Some v) \<or> (\<exists>w. dispatch_authority cx (Some v) r s = Some (Some w))"
proof -
  obtain w0 where w: "call_writer cx (Some m) via s = Some w0"
    using a x(1) by (auto simp: admit_call_override_def admit_call_selection_def split: option.splits)
  let ?w = "in_task cx w0"
  have r: "policy_refusal s x ?w = None"
    using a x(1) w by (auto simp: admit_call_override_def admit_call_selection_def admit_provider_selection_def Let_def
        split: option.splits prod.splits)
  have same: "narrowed_by_chain ?w = narrowed_by_chain w0" by (simp add: in_task_def narrowed_by_chain_def)
  have n: "names_route (selection_of_override s (Some m)) (Some v) r" using x by (simp add: names_route_def)
  show ?thesis
  proof (cases "narrowed_by_chain w0")
    case True
    then have "v \<in> approved s" using r x(2) same by (auto simp: policy_refusal_def split: option.splits if_splits)
    then show ?thesis using approved_in_chain by blast
  next
    case False
    consider (attested) "cx_call_writer cx = Some (m, w0)"
      | (config) sels where "config_selectors s = Some sels" "m \<in> set sels"
      | (named) "cx_writer cx = Some w0"
      using w False
      by (auto simp: call_writer_def attested_call_override_writer_def current_override_writer_def agent_provenance_def
          narrowed_by_chain_def split: option.splits if_splits)
    then have "\<exists>w. dispatch_authority cx (Some v) r s = Some (Some w)"
    proof cases
      case attested
      then show ?thesis using False n by (auto simp: dispatch_authority_def split: option.split)
    next
      case config
      then show ?thesis using config_gives_authority n stored_gives_authority by blast
    next
      case named
      then show ?thesis using False by (simp add: dispatch_authority_def)
    qed
    then show ?thesis ..
  qed
qed

lemma mandate_authorizes:
  assumes s: "policy_sound s" and f: "filled (sl_model (ps_preference s))"
    and v: "sl_vendor (ps_preference s) = Some v" "selection_covers (ps_preference s) (Some v) r"
  shows "in_declared_chain (ps_config s) (Some v) \<or> (\<exists>w. dispatch_authority cx (Some v) r s = Some (Some w))"
proof -
  have "ps_preference s \<noteq> no_selection" using f by (auto simp: no_selection_def filled_def)
  then obtain w where w: "ps_provenance s = Some w" "policy_refusal s (ps_preference s) w = None"
    using s by (auto simp: policy_sound_def admitted_mandate_def split: option.splits)
  show ?thesis
  proof (cases "narrowed_by_chain w")
    case True
    then have "v \<in> approved s" using w(2) v(1) by (auto simp: policy_refusal_def split: option.splits if_splits)
    then show ?thesis using approved_in_chain by blast
  next
    case False
    then have "stored_authority cx (Some v) r s = Some (Some w)" using w(1) f v by (simp add: stored_authority_def mandate_names_def)
    then show ?thesis using stored_gives_authority by blast
  qed
qed

lemma override_routes:
  assumes "route_override cx m s = (Inr (ps, t, pin), s2)" "split_first CHR ''/'' m = Some (left, model)" "p \<in> set ps"
  shows "fst (admit_call_override cx (Some m) ''model_override'' s) = None \<and> p \<in> set (filter_by_selector (available_providers s) left)"
proof -
  obtain e s' where a: "admit_call_override cx (Some m) ''model_override'' s = (e, s')" by fastforce
  then obtain h where h: "s' = s\<lparr>ps_history := h\<rparr>"
    using admit_call_only_history [of s cx "Some m" "selection_of_override s (Some m)" "''model_override''"]
    by (auto simp: admit_call_override_def elim: only_historyE)
  show ?thesis using assms by (auto simp: route_override_def a h routes_history Let_def split: option.splits if_splits)
qed

lemma pinned_routes:
  assumes "choose_candidates cx ov s = (Inr (ps, t, True), s2)" "p \<in> set ps"
  shows "filled (sl_model (ps_preference s)) \<and> filled (sl_vendor (ps_preference s)) \<and>
    p \<in> set (filter_by_selector (available_providers s) (mandate_selector (ps_preference s)))"
proof -
  have o: "route_override cx m s \<noteq> (Inr (ps, t, True), s2)" for m
    by (auto simp: route_override_def Let_def split: prod.split option.split)
  have f: "route_fallbacks cx x s \<noteq> (Inr (ps, t, True), s2)" for x
    by (auto simp: route_fallbacks_def Let_def split: prod.split option.split)
  show ?thesis using assms o f
    by (auto simp: choose_candidates_def route_mandate_def Let_def split: option.splits if_splits)
qed

lemma mandate_covers:
  assumes p: "plain_route p v r" and m: "filled (sl_vendor pref)" "\<And>u. sl_vendor pref = Some u \<Longrightarrow> CHR '':'' \<notin> set u"
    and sel: "rt_name p = mandate_selector pref \<and> CHR '':'' \<in> set (mandate_selector pref) \<or>
      rt_vendor p = Some (mandate_selector pref) \<and> CHR '':'' \<notin> set (mandate_selector pref)"
  shows "sl_vendor pref = Some v \<and> selection_covers pref (rt_vendor p) (rt_route p)"
proof -
  from m(1) obtain u where u: "sl_vendor pref = Some u" "u \<noteq> []" by (auto simp: filled_def)
  have l: "mandate_selector pref = composite v r \<and> partition_colon (mandate_selector pref) = (v, r) \<or>
      mandate_selector pref = v \<and> partition_colon (mandate_selector pref) = (v, [])"
    by (rule matched_selector [OF p sel])
  show ?thesis
  proof (cases "filled (sl_route pref)")
    case True
    then obtain x where x: "sl_route pref = Some x" "x \<noteq> []" by (auto simp: filled_def)
    then have "mandate_selector pref = composite u x" using u by (simp add: mandate_selector_def)
    then have "partition_colon (mandate_selector pref) = (u, x)" using partition_composite m(2) u(1) by simp
    then show ?thesis using l u x p by (auto simp: selection_covers_def plain_route_def filled_def)
  next
    case False
    then have "mandate_selector pref = u" using u by (auto simp: mandate_selector_def filled_def split: option.split)
    then have "partition_colon (mandate_selector pref) = (u, [])" using partition_plain m(2) u(1) by simp
    then show ?thesis using l u False p by (auto simp: selection_covers_def plain_route_def filled_def)
  qed
qed

lemma selector_partition:
  assumes "plain_route p v r" and "selector_names sel p"
  shows "\<exists>r'. partition_colon sel = (v, r') \<and> (r' = [] \<or> r' = r)"
  using assms partition_composite [of v r] partition_composite [of v "[]"] partition_plain [of v]
  by (auto simp: selector_names_def plain_route_def composite_def)

lemma text_selection:
  assumes p: "plain_route p v r" and m: "text_names m p" and k: "v \<in> route_vendors (ps_providers s)"
  shows "\<exists>x. selection_of_override s (Some m) = Some x \<and> sl_vendor x = Some v \<and> selection_covers x (rt_vendor p) (rt_route p)"
proof -
  obtain sel where sel: "CHR ''/'' \<notin> set sel" "selector_names sel p" "strip m = sel \<or> (\<exists>model. strip m = sel @ CHR ''/'' # model)"
    using m by (auto simp: text_names_def)
  obtain r' where r': "partition_colon sel = (v, r')" "r' = [] \<or> r' = r" using selector_partition [OF p sel(2)] by blast
  have v: "v \<noteq> []" "v \<in> known_vendors (ps_config s) (ps_providers s) (ps_denied s)"
    using p k by (auto simp: plain_route_def known_vendors_def)
  have "sel \<noteq> []" using sel(2) by (auto simp: selector_names_def)
  then have "strip m \<noteq> []" "strip m \<noteq> ''auto''" using sel(3) m by (auto simp: text_names_def)
  moreover have "split_first CHR ''/'' sel = None" by (rule split_first_None [OF sel(1)])
  moreover have "split_first CHR ''/'' (sel @ CHR ''/'' # b) = Some (sel, b)" for b by (rule split_first_append [OF sel(1)])
  ultimately obtain model where
    "selection_of_override s (Some m) = Some \<lparr>sl_vendor = Some v, sl_route = or_nothing r', sl_model = model\<rparr>"
    using sel(3) r'(1) v by (auto simp: selection_of_override_def call_override_selection_def Let_def)
  moreover have "selection_covers \<lparr>sl_vendor = Some v, sl_route = or_nothing r', sl_model = model\<rparr> (rt_vendor p) (rt_route p)"
    using p r'(2) by (auto simp: selection_covers_def plain_route_def filled_def or_nothing_def)
  ultimately show ?thesis by simp
qed

lemma fallback_authorizes:
  assumes s: "policy_sound s" and p: "plain_route p v r" and fb: "fb \<in> set (ps_fallbacks s)" "fallback_names_route fb p"
  shows "in_declared_chain (ps_config s) (rt_vendor p) \<or> (\<exists>w. dispatch_authority cx (rt_vendor p) (rt_route p) s = Some (Some w))"
proof -
  obtain sel where sel: "fallback_selector fb = Some sel" "selector_names sel p"
  proof -
    from fb(2) obtain sel where
      f: "fb_vendor fb = Some sel \<or> (fb_vendor fb = None \<or> fb_vendor fb = Some []) \<and> fb_provider fb = Some sel"
      and n: "selector_names sel p" by (auto simp: fallback_names_route_def)
    have "sel \<noteq> []" using n by (auto simp: selector_names_def)
    with f have "fallback_selector fb = Some sel" by (auto simp: fallback_selector_def filled_def)
    with n show thesis by (rule that [rotated])
  qed
  obtain r' where r': "partition_colon sel = (v, r')" "r' = [] \<or> r' = r" using selector_partition [OF p sel(2)] by blast
  have v: "rt_vendor p = Some v" "v \<noteq> []" using p by (auto simp: plain_route_def)
  then obtain x where x: "fallback_selection fb = Some x" "sl_vendor x = Some v" "sl_route x = or_nothing r'"
    using sel(1) r'(1) by (simp add: fallback_selection_def)
  have c: "selection_covers x (rt_vendor p) (rt_route p)"
    using p r'(2) x by (auto simp: selection_covers_def plain_route_def filled_def or_nothing_def)
  obtain w where w: "fb_writer fb = Some w" "policy_refusal s x w = None"
    using s fb(1) x(1) by (auto simp: policy_sound_def admitted_fallback_def)
  show ?thesis
  proof (cases "narrowed_by_chain w")
    case True
    then have "v \<in> approved s" using w(2) x(2) by (auto simp: policy_refusal_def split: option.splits if_splits)
    then show ?thesis using approved_in_chain v(1) by simp
  next
    case False
    then have "fallback_names cx (rt_vendor p) (rt_route p) fb"
      using w(1) x(1) c by (simp add: fallback_names_def fallback_writer_def names_route_def)
    then have "find (fallback_names cx (rt_vendor p) (rt_route p)) (ps_fallbacks s) \<noteq> None"
      using fb(1) by (auto simp: find_None_iff)
    then have "\<exists>w. stored_authority cx (rt_vendor p) (rt_route p) s = Some (Some w)"
      by (auto simp: stored_authority_def mandate_names_def split: option.splits)
    then show ?thesis using stored_gives_authority by blast
  qed
qed

text \<open>
  The routes a call chose: with an override of its own those the override names, otherwise those the
  mandate (a model with its vendor) or a stored fallback names.
\<close>

definition chosen_by_call :: "string option \<Rightarrow> policy_state \<Rightarrow> route_info \<Rightarrow> bool" where
  "chosen_by_call ov s p \<longleftrightarrow>
     (if ov = None \<or> ov = Some [] \<or> ov = Some ''auto''
      then (\<exists>m. sl_model (ps_preference s) = Some m \<and> m \<noteq> []) \<and> selection_names (ps_preference s) p
         \<or> (\<exists>fb \<in> set (ps_fallbacks s). fallback_names_route fb p)
      else text_names (the ov) p)"

text \<open>
  C22: Admission and the check before dispatch agree on what a call chose: every route that routing returns
  and that the admitted override names (with or without a model after it), or, for a call without an
  override, the mandate in force or a stored fallback names, passes the guard, whatever the model. An
  override with a slash returns only routes it names, and so does a mandate that pins its routes and whose
  vendor has no colon. For other calls routing also returns routes that nobody chose, and the guard still
  refuses those outside the chain (\<open>bare_override_is_refused_at_dispatch\<close> below).
\<close>

theorem chosen_routes_pass_the_guard:
  assumes "new_policy_state cfg ps mc cheap = Some s0" and "well_named ps" and "s = policy_run s0 es"
    and "resolve_provider_routing cx ov f s = (Inr q, t)" and "p \<in> set (re_providers q)"
  shows "(chosen_by_call ov s p \<longrightarrow> guard_dispatch cx (rt_name p) model path f adm t = (None, t)) \<and>
    ((\<exists>m. ov = Some m \<and> CHR ''/'' \<in> set m) \<longrightarrow> chosen_by_call ov s p) \<and>
    (re_pin q \<and> (\<forall>v. sl_vendor (ps_preference s) = Some v \<longrightarrow> CHR '':'' \<notin> set v) \<longrightarrow> chosen_by_call ov s p)"
proof -
  have sound: "policy_sound s" unfolding assms(3) by (rule policy_run_sound [OF assms(1)])
  have "same_policy s0 s" unfolding assms(3) by (rule run_same_policy)
  then have w: "well_named (ps_providers s)"
    using assms(1,2) by (auto simp: same_policy_def new_policy_state_def split: option.splits)
  from assms(4) obtain cs u s2 where c: "choose_candidates cx (if ov = Some ''auto'' then None else ov) s = (Inr (cs, u, re_pin q), s2)"
    "set (re_providers q) \<subseteq> set cs" by (rule routing_shape)
  have pc: "p \<in> set cs" using c(2) assms(5) by blast
  have "of_service s p" using routing_result [OF assms(4)] assms(5) by blast
  then obtain x where x: "x \<in> set (ps_providers s)" "base p = base x" "\<not> route_is_denied p (ps_denied s)"
    by (auto simp: of_service_def)
  then obtain v r where pl: "plain_route p v r"
    using well_namedE [OF w x(1,2)] unfolding plain_route_def by metis
  then have v: "rt_vendor p = Some v" "v \<noteq> []" by (simp_all add: plain_route_def)
  have known: "v \<in> route_vendors (ps_providers s)"
    using x(1) v base_eqD(2) [OF x(2)] by (force simp: route_vendors_def)
  have over: "route_override cx m s = (Inr (cs, u, re_pin q), s2)" if "ov = Some m" "m \<noteq> []" "m \<noteq> ''auto''" for m
    using c(1) that by (simp add: choose_candidates_def real_override_def filled_def)
  have pass: "guard_dispatch cx (rt_name p) model path f adm t = (None, t)" if ch: "chosen_by_call ov s p"
  proof -
    have "in_declared_chain (ps_config s) (rt_vendor p) \<or> (\<exists>w. dispatch_authority cx (rt_vendor p) (rt_route p) s = Some (Some w))"
    proof (cases "ov = None \<or> ov = Some [] \<or> ov = Some ''auto''")
      case True
      with ch consider m where "sl_model (ps_preference s) = Some m" "m \<noteq> []" "selection_names (ps_preference s) p"
        | fb where "fb \<in> set (ps_fallbacks s)" "fallback_names_route fb p" by (auto simp: chosen_by_call_def)
      then show ?thesis
      proof cases
        case 1
        then have "filled (sl_model (ps_preference s))" "sl_vendor (ps_preference s) = Some v"
          "selection_covers (ps_preference s) (Some v) (rt_route p)"
          using v by (auto simp: filled_def selection_names_def selection_covers_def)
        from mandate_authorizes [OF sound this] v show ?thesis by simp
      next
        case 2
        from fallback_authorizes [OF sound pl this] show ?thesis .
      qed
    next
      case False
      then obtain m where m: "ov = Some m" "m \<noteq> []" "m \<noteq> ''auto''" by auto
      have "text_names m p" using ch m by (simp add: chosen_by_call_def)
      from text_selection [OF pl this known] obtain y where y: "selection_of_override s (Some m) = Some y" "sl_vendor y = Some v"
        "selection_covers y (rt_vendor p) (rt_route p)" by blast
      have "fst (admit_call_override cx (Some m) ''model_override'' s) = None"
        using over [OF m] by (auto simp: route_override_def split: option.splits prod.splits)
      from admitted_override_authorizes [OF this y(1,2)] y(3) v show ?thesis by simp
    qed
    then have g: "in_declared_chain (ps_config s) (rt_vendor p) \<or> authorized_by cx p s"
      using authority_unnarrowed by (auto simp: authorized_by_def)
    have "only_history s t" using routing_only_history assms(4) by (metis snd_conv)
    then obtain h where h: "t = s\<lparr>ps_history := h\<rparr>" by (rule only_historyE)
    show ?thesis
      by (rule guard_accepts [of t x]) (use w x g in \<open>simp_all add: h authorized_by_def dispatch_history\<close>)
  qed
  have slash: "chosen_by_call ov s p" if m: "ov = Some m" "CHR ''/'' \<in> set m" for m
  proof -
    obtain left mo where l: "split_first CHR ''/'' m = Some (left, mo)"
      using split_first_iff [of "CHR ''/''" m] m(2) by auto
    have n: "m \<noteq> []" "m \<noteq> ''auto''" using m(2) by auto
    from override_routes [OF over [OF m(1) n] l pc] have "p \<in> set (filter_by_selector (available_providers s) left)" by blast
    from in_filter_selector [OF this] have "rt_name p = left \<and> CHR '':'' \<in> set left \<or> rt_vendor p = Some left \<and> CHR '':'' \<notin> set left"
      by blast
    from selected_override [OF pl l this, of s] have "names_route (selection_of_override s (Some m)) (rt_vendor p) (rt_route p)"
      by (auto simp: names_route_def)
    from override_selection_names [OF this] show ?thesis using m n by (simp add: chosen_by_call_def)
  qed
  have pin: "chosen_by_call ov s p" if m: "re_pin q" "\<forall>v. sl_vendor (ps_preference s) = Some v \<longrightarrow> CHR '':'' \<notin> set v"
  proof -
    have f: "filled (sl_model (ps_preference s))" "filled (sl_vendor (ps_preference s))"
      "p \<in> set (filter_by_selector (available_providers s) (mandate_selector (ps_preference s)))"
      using pinned_routes [OF _ pc] c(1) m(1) by simp_all
    have "selection_covers (ps_preference s) (rt_vendor p) (rt_route p)"
      using mandate_covers [OF pl f(2)] m(2) in_filter_selector [OF f(3)] by blast
    then have "selection_names (ps_preference s) p" by (rule covers_names)
    moreover have "ov = None \<or> ov = Some [] \<or> ov = Some ''auto''"
    proof (rule ccontr)
      assume "\<not> (ov = None \<or> ov = Some [] \<or> ov = Some ''auto'')"
      then obtain k where "ov = Some k" "k \<noteq> []" "k \<noteq> ''auto''" by auto
      from over [OF this] m(1) show False by (auto simp: route_override_def Let_def split: option.splits prod.splits if_splits)
    qed
    ultimately show ?thesis using f(1) by (auto simp: chosen_by_call_def filled_def)
  qed
  show ?thesis using pass slash pin by blast
qed

subsection \<open>Refusals\<close>

text \<open>
  What a refusal leaves: its own entry as the newest of at most a hundred, with the selection that was
  refused, the writer, the refusal and the time; or, for a call or dispatch inside a task, nothing when the
  history already holds a refusal of that kind for the very same selection and, the time apart, writer.
\<close>

definition refusal_repeated :: "decision_kind \<Rightarrow> selection \<Rightarrow> provenance \<Rightarrow> policy_state \<Rightarrow> bool" where
  "refusal_repeated k sel w s \<longleftrightarrow> (\<exists>d \<in> set (ps_history s). de_kind d = k \<and> de_refusal d \<noteq> None \<and>
     sl_vendor (de_selection d) = sl_vendor sel \<and> sl_route (de_selection d) = sl_route sel \<and>
     sl_model (de_selection d) = sl_model sel \<and>
     og_source (de_writer d) = og_source w \<and> og_role (de_writer d) = og_role w \<and>
     og_identity (de_writer d) = og_identity w \<and> og_via (de_writer d) = og_via w \<and> og_task (de_writer d) = og_task w)"

definition refusal_recorded ::
  "policy_context \<Rightarrow> decision_kind \<Rightarrow> selection \<Rightarrow> provenance \<Rightarrow> refusal \<Rightarrow> policy_state \<Rightarrow> policy_state \<Rightarrow> bool" where
  "refusal_recorded cx k sel w rf s t \<longleftrightarrow>
     t = s\<lparr>ps_history := rev (take 100 (\<lparr>de_kind = k, de_selection = sel, de_writer = w, de_refusal = Some rf, de_at = cx_now cx\<rparr>
            # rev (ps_history s)))\<rparr> \<or>
     k \<in> {Call_Override, Dispatch} \<and> (\<exists>task. og_task w = Some task \<and> task \<noteq> []) \<and> refusal_repeated k sel w s \<and> t = s"

lemma same_provenance:
  fixes v w :: provenance
  shows "w\<lparr>og_at := None\<rparr> = v\<lparr>og_at := None\<rparr> \<longleftrightarrow> og_source w = og_source v \<and> og_role w = og_role v \<and>
     og_identity w = og_identity v \<and> og_via w = og_via v \<and> og_task w = og_task v"
  by (cases w; cases v) simp

lemma same_refusal: "same_decision d \<lparr>de_kind = k, de_selection = sel, de_writer = w, de_refusal = Some rf, de_at = a\<rparr> \<longleftrightarrow>
  de_kind d = k \<and> de_refusal d \<noteq> None \<and> sl_vendor (de_selection d) = sl_vendor sel \<and>
  sl_route (de_selection d) = sl_route sel \<and> sl_model (de_selection d) = sl_model sel \<and>
  og_source (de_writer d) = og_source w \<and> og_role (de_writer d) = og_role w \<and>
  og_identity (de_writer d) = og_identity w \<and> og_via (de_writer d) = og_via w \<and> og_task (de_writer d) = og_task w"
proof -
  have "de_selection d = sel \<longleftrightarrow> sl_vendor (de_selection d) = sl_vendor sel \<and>
    sl_route (de_selection d) = sl_route sel \<and> sl_model (de_selection d) = sl_model sel"
    by (cases "de_selection d"; cases sel) simp
  then show ?thesis by (auto simp: same_decision_def same_provenance)
qed

lemma newest_hundred: "drop (length (xs @ [x]) - OVERRIDE_HISTORY_LIMIT) (xs @ [x]) = rev (take 100 (x # rev xs))"
  using rev_take [of 100 "x # rev xs"] by (simp add: OVERRIDE_HISTORY_LIMIT_def del: drop_append)

lemma report_recorded:
  assumes "report_override_refusal cx rf sel w k c s = (e, t)" and "rf_source rf = None \<or> rf_source rf = Some (og_source w)"
    and "c \<longrightarrow> k \<in> {Call_Override, Dispatch} \<and> (\<exists>task. og_task w = Some task \<and> task \<noteq> [])"
  shows "\<exists>rf'. e = Refused rf' \<and> rf_model rf' = rf_model rf \<and> rf_source rf' = Some (og_source w) \<and>
    rf_vendor rf' = rf_vendor rf \<and> refusal_recorded cx k sel w rf' s t"
proof -
  let ?rf = "if rf_source rf = None then rf\<lparr>rf_source := Some (og_source w)\<rparr> else rf"
  let ?e = "\<lparr>de_kind = k, de_selection = sel, de_writer = w, de_refusal = Some ?rf, de_at = cx_now cx\<rparr>"
  have e: "e = Refused ?rf" and t: "t = record_override_decision cx sel w (Some ?rf) k c s"
    using assms(1) by (simp_all add: report_override_refusal_def Let_def)
  have "t = (if c \<and> refusal_repeated k sel w s then s else s\<lparr>ps_history := rev (take 100 (?e # rev (ps_history s)))\<rparr>)"
    unfolding t record_override_decision_def Let_def newest_hundred refusal_repeated_def same_refusal ..
  then have "refusal_recorded cx k sel w ?rf s t" using assms(3) by (auto simp: refusal_recorded_def)
  moreover have "rf_model ?rf = rf_model rf" "rf_source ?rf = Some (og_source w)" "rf_vendor ?rf = rf_vendor rf"
    using assms(2) by auto
  ultimately show ?thesis using e by blast
qed

lemma policy_refusal_shape:
  assumes "policy_refusal s sel w = Some rf"
  shows "rf_model rf = sl_model sel" "rf_source rf = None \<or> rf_source rf = Some (og_source w)"
  using assms by (auto simp: policy_refusal_def refuse_denied_selector_def Let_def split: option.splits if_splits prod.splits)

text \<open>A refusal that admission reports is recorded with the selection and the writer it was asked about.\<close>

definition reported :: "policy_context \<Rightarrow> decision_kind \<Rightarrow> selection \<Rightarrow> provenance \<Rightarrow> refusal \<Rightarrow> policy_state \<Rightarrow> policy_state \<Rightarrow> bool" where
  "reported cx k sel w rf s t \<longleftrightarrow> rf_model rf = sl_model sel \<and> rf_source rf = Some (og_source w) \<and> refusal_recorded cx k sel w rf s t"

lemma admit_recorded:
  assumes "admit_provider_selection cx sel w k c s = (Some (Refused rf), t)"
    and "c \<longrightarrow> k \<in> {Call_Override, Dispatch} \<and> (\<exists>task. og_task w = Some task \<and> task \<noteq> [])"
  shows "reported cx k sel w rf s t"
proof -
  obtain rf0 where r: "policy_refusal s sel w = Some rf0"
    using assms by (auto simp: admit_provider_selection_def split: option.splits)
  have "report_override_refusal cx rf0 sel w k c s = (Refused rf, t)"
    using assms r by (simp add: admit_provider_selection_def Let_def split: prod.splits)
  from report_recorded [OF this policy_refusal_shape(2) [OF r] assms(2)] policy_refusal_shape(1) [OF r]
  show ?thesis by (auto simp: reported_def)
qed

lemma filled_iff: "filled x \<longleftrightarrow> (\<exists>y. x = Some y \<and> y \<noteq> [])"
  by (auto simp: filled_def)

lemma refuse_dispatch_recorded:
  assumes "refuse_dispatch cx path code sel s = (Some (Refused rf), t)"
  shows "reported cx Dispatch sel (agent_provenance (''dispatch:'' @ path) cx) rf s t"
proof -
  let ?rf = "\<lparr>rf_code = code, rf_vendor = sl_vendor sel, rf_route = sl_route sel, rf_model = sl_model sel,
    rf_source = None, rf_approved = approved s\<rparr>"
  have "report_override_refusal cx ?rf sel (agent_provenance (''dispatch:'' @ path) cx) Dispatch (filled (cx_task cx)) s = (Refused rf, t)"
    using assms by (simp add: refuse_dispatch_def Let_def split: prod.splits)
  from report_recorded [OF this] show ?thesis by (auto simp: reported_def agent_provenance_def filled_iff)
qed

text \<open>The selection a dispatch is about: the route of the service, or what the remote route was asked to serve.\<close>

definition dispatch_selection :: "policy_state \<Rightarrow> string \<Rightarrow> string option \<Rightarrow> selection" where
  "dispatch_selection s name model =
     (if name = REMOTE_ROUTE_NAME
      then (case selection_of_override s model of
              None \<Rightarrow> \<lparr>sl_vendor = Some REMOTE_ROUTE_NAME, sl_route = None, sl_model = model\<rparr>
            | Some x \<Rightarrow> x\<lparr>sl_model := model\<rparr>)
      else (case dispatch_target s name of (q, vendor, route) \<Rightarrow>
              \<lparr>sl_vendor = vendor, sl_route = route, sl_model = model\<rparr>))"

lemma guard_recorded:
  assumes "guard_dispatch cx name model path f adm s = (Some (Refused rf), t)"
  shows "reported cx Dispatch (dispatch_selection s name model) (agent_provenance (''dispatch:'' @ path) cx) rf s t"
proof (cases "name = REMOTE_ROUTE_NAME")
  case True
  then have "guard_remote cx path model s = (Some (Refused rf), t)" using assms by (simp add: guard_dispatch_def)
  then show ?thesis using refuse_dispatch_recorded True
    by (auto simp: guard_remote_def dispatch_selection_def Let_def split: if_splits option.splits)
next
  case False
  obtain q vendor route where g: "dispatch_target s name = (q, vendor, route)" by (metis prod.exhaust)
  then have "\<exists>code. refuse_dispatch cx path code \<lparr>sl_vendor = vendor, sl_route = route, sl_model = model\<rparr> s = (Some (Refused rf), t)"
    using assms False
    by (auto simp: guard_dispatch_def g Let_def simp del: split_paired_Ex split: if_splits option.splits)
  then show ?thesis using refuse_dispatch_recorded False by (auto simp: dispatch_selection_def g)
qed

lemma unfold_unchecked: "resolve_model_preference_unchecked s m v r chk \<noteq> Inl (Refused rf)"
proof -
  have "validate_explicit_mandate s m x r \<noteq> Some (Refused rf)" for x
    by (simp add: validate_explicit_mandate_def Let_def split: option.split)
  then show ?thesis
    by (auto simp: resolve_model_preference_unchecked_def Let_def split: option.splits)
qed

lemma unchecked_selection:
  "resolve_model_preference_unchecked s m v r chk = Inr sel \<Longrightarrow>
     sel = \<lparr>sl_vendor = Some (case v of Some x \<Rightarrow> x | None \<Rightarrow> the_elem (resolve_vendor_for_model s m)), sl_route = r, sl_model = Some m\<rparr>"
  by (auto simp: resolve_model_preference_unchecked_def Let_def split: option.splits if_splits)

text \<open>
  C23: What the policy refuses has no effect but its record. A refused mandate, fallback, override of a call
  or dispatch leaves everything but the audit history as it was. The history gains the refusal as its newest
  entry, with the selection (vendor, route and model) that was asked for, its writer and the time, and keeps
  its hundred newest; only a call or dispatch inside a task adds nothing when the same refusal is already
  there, equal in vendor, route and model and in the writer's source, role, identity, way and task. The
  refusal that is reported carries the model and the source of that entry.
\<close>

theorem refusals_only_leave_a_record:
  assumes "set_model_preference cx m v r chk s = (Some (Refused rf), t) \<and> k = Mandate_Write \<and>
      sel = \<lparr>sl_vendor = Some (case v of Some x \<Rightarrow> x | None \<Rightarrow> the_elem (resolve_vendor_for_model s m)), sl_route = r, sl_model = Some m\<rparr> \<and>
      w = current_override_writer ''resolve_model_preference'' cx \<or>
    add_fallback_model cx m v s = (Some (Refused rf), t) \<and> k = Fallback_Write \<and>
      Some sel = fallback_selection \<lparr>fb_vendor = None, fb_provider = v, fb_model = Some m, fb_writer = None\<rparr> \<and>
      w = current_override_writer ''add_fallback_model'' cx \<or>
    admit_call_override cx (Some m) via s = (Some (Refused rf), t) \<and> k = Call_Override \<and>
      Some sel = selection_of_override s (Some m) \<and> map_option (in_task cx) (call_writer cx (Some m) via s) = Some w \<or>
    guard_dispatch cx name x path f adm s = (Some (Refused rf), t) \<and> k = Dispatch \<and>
      sel = dispatch_selection s name x \<and> w = agent_provenance (''dispatch:'' @ path) cx"
  shows "refusal_recorded cx k sel w rf s t \<and> t = s\<lparr>ps_history := ps_history t\<rparr> \<and>
    rf_model rf = sl_model sel \<and> rf_source rf = Some (og_source w)"
proof -
  have "reported cx k sel w rf s t"
    using assms
  proof (elim disjE conjE)
    let ?w = "current_override_writer ''resolve_model_preference'' cx"
    assume k: "k = Mandate_Write" "w = ?w" and "set_model_preference cx m v r chk s = (Some (Refused rf), t)"
      and sel: "sel = \<lparr>sl_vendor = Some (case v of Some x \<Rightarrow> x | None \<Rightarrow> the_elem (resolve_vendor_for_model s m)), sl_route = r, sl_model = Some m\<rparr>"
    then have "resolve_model_preference cx m v r chk s = (Inl (Refused rf), t)"
      by (auto simp: set_model_preference_def Let_def split: if_splits sum.splits prod.splits)
    then obtain y where "resolve_model_preference_unchecked s m v r chk = Inr y"
      "admit_provider_selection cx y ?w Mandate_Write False s = (Some (Refused rf), t)"
      using unfold_unchecked by (auto simp: resolve_model_preference_def split: sum.splits prod.splits option.splits)
    then show ?thesis using admit_recorded unchecked_selection sel k by blast
  next
    assume k: "k = Fallback_Write" "w = current_override_writer ''add_fallback_model'' cx"
      and "add_fallback_model cx m v s = (Some (Refused rf), t)"
      and "Some sel = fallback_selection \<lparr>fb_vendor = None, fb_provider = v, fb_model = Some m, fb_writer = None\<rparr>"
    then have "admit_provider_selection cx sel w Fallback_Write False s = (Some (Refused rf), t)"
      by (auto simp: add_fallback_model_def Let_def split: if_splits option.splits prod.splits)
    from admit_recorded [OF this] show ?thesis by (simp add: k)
  next
    assume k: "k = Call_Override" "map_option (in_task cx) (call_writer cx (Some m) via s) = Some w"
      and "admit_call_override cx (Some m) via s = (Some (Refused rf), t)" and "Some sel = selection_of_override s (Some m)"
    then have "admit_provider_selection cx sel w Call_Override (filled (og_task w)) s = (Some (Refused rf), t)"
      by (auto simp: admit_call_override_def admit_call_selection_def Let_def split: option.splits prod.splits)
    from admit_recorded [OF this] show ?thesis by (simp add: k filled_iff)
  next
    assume "guard_dispatch cx name x path f adm s = (Some (Refused rf), t)" and "k = Dispatch"
      "sel = dispatch_selection s name x" "w = agent_provenance (''dispatch:'' @ path) cx"
    then show ?thesis using guard_recorded by simp
  qed
  then show ?thesis by (auto simp: reported_def refusal_recorded_def)
qed

subsection \<open>Witnesses\<close>

definition host_route :: "string \<Rightarrow> string \<Rightarrow> bool \<Rightarrow> route_info" where
  "host_route v r here = \<lparr>rt_name = composite v r, rt_vendor = Some v, rt_route = Some r, rt_model = Some ''m'',
     rt_local = here, rt_cloud = \<not> here\<rparr>"

definition host_routes :: "route_info list" where
  "host_routes = [host_route ''openai'' ''plan'' False, host_route ''openai'' ''api'' False, host_route ''openrouter'' ''api'' False]"

definition host_config :: llm_config where
  "host_config = [(''route_priority'', J_List [J_Str ''openai:plan'', J_Str ''openai:api'']), (''allow_paid_fallback'', J_Bool False)]"

definition no_mandates :: mandate_config where
  "no_mandates = \<lparr>mc_preferred = J_Null, mc_cheap = J_Null, mc_mandates = [], mc_banned = []\<rparr>"

definition host :: policy_state where
  "host = the (new_policy_state host_config host_routes no_mandates [])"

definition agent_turn :: policy_context where
  "agent_turn = \<lparr>cx_writer = None, cx_call_writer = None, cx_command = None, cx_task = Some ''turn'', cx_now = ''t'',
     cx_privacy = Unbound, cx_holds = None\<rparr>"

definition sovereign_turn :: policy_context where
  "sovereign_turn = agent_turn\<lparr>cx_writer := Some (provenance_for_caller
     (Some \<lparr>ca_role = Sovereign_Role, ca_method = API_KEY, ca_identity = None\<rparr>) ''/api/model/set'' agent_turn)\<rparr>"

definition fails :: "route_info \<Rightarrow> attempt" where
  "fails p = Provider_Failed"

lemma host_new: "new_policy_state host_config host_routes no_mandates [] = Some host"
  by (simp add: host_def new_policy_state_def parse_denied_providers_def cfg_get_def host_config_def dict_get_def)

lemma host_named: "well_named host_routes"
  unfolding well_named_def host_routes_def by (simp add: host_route_def) (intro conjI; code_simp)

lemma overrides_in_force_are_admitted_witness:
  "sl_vendor (ps_preference (policy_run host [Prefer agent_turn ''gpt'' (Some ''openai'') (Some ''plan'') True])) \<in>
     Some ` approved (policy_run host [Prefer agent_turn ''gpt'' (Some ''openai'') (Some ''plan'') True])"
proof -
  let ?s = "policy_run host [Prefer agent_turn ''gpt'' (Some ''openai'') (Some ''plan'') True]"
  have "map_option og_source (ps_provenance ?s) = Some AGENT" by code_simp
  then obtain w where "ps_provenance ?s = Some w" "og_source w = AGENT" by auto
  then show ?thesis using overrides_in_force_are_admitted [OF host_new refl, of "[Prefer agent_turn ''gpt'' (Some ''openai'') (Some ''plan'') True]"]
    by blast
qed

definition asked_alone :: "route_log" where
  "asked_alone = \<lparr>rl_dispatched = [host_route ''openai'' ''plan'' False], rl_result = All_Failed\<rparr>"

lemma agent_call: "fst (get_response agent_turn (Some ''gpt'') False (\<lambda>_. True) (\<lambda>_ _. ''m'') fails host) = Inr asked_alone"
  by code_simp

lemma host_fields: "ps_providers host = host_routes" "ps_config host = host_config"
  by (simp_all add: host_def new_policy_state_def parse_denied_providers_def cfg_get_def host_config_def dict_get_def)

lemma dispatched_routes_are_permitted_witness:
  "\<not> on_deny_list (ps_denied host) (host_route ''openai'' ''plan'' False) \<and>
   fst (get_response agent_turn (Some ''gpt'') False (\<lambda>_. True) (\<lambda>_ _. ''m'') fails host) = Inr asked_alone"
proof -
  obtain t where c: "get_response agent_turn (Some ''gpt'') False (\<lambda>_. True) (\<lambda>_ _. ''m'') fails host = (Inr asked_alone, t)"
    using agent_call by (metis prod.collapse)
  have p: "host_route ''openai'' ''plan'' False \<in> set (rl_dispatched asked_alone)" by (simp add: asked_alone_def)
  have "well_named (ps_providers host)" using host_named by (simp add: host_fields)
  from dispatched_routes_are_permitted [OF this c p] agent_call show ?thesis by blast
qed

lemma agent_turn_scope: "agent_scope agent_turn"
  by (simp add: agent_scope_def agent_turn_def)

lemma agent_cannot_leave_the_chain_witness:
  "in_declared_chain host_config (Some ''openai'') \<or>
   (\<exists>sels m. config_selectors host = Some sels \<and> m \<in> set sels \<and>
      names_route (selection_of_override host (Some m)) (Some ''openai'') (Some ''plan''))"
proof -
  obtain t where c: "get_response agent_turn (Some ''gpt'') False (\<lambda>_. True) (\<lambda>_ _. ''m'') fails host = (Inr asked_alone, t)"
    using agent_call by (metis prod.collapse)
  have p: "host_route ''openai'' ''plan'' False \<in> set (rl_dispatched asked_alone)" by (simp add: asked_alone_def)
  have "run_ok (\<lambda>_. agent_event) policy_step host []" "host = policy_run host []" by simp_all
  from agent_cannot_leave_the_chain [OF host_new host_named this agent_turn_scope c p] show ?thesis
    by (simp add: host_route_def)
qed

lemma chosen_routes_pass_the_guard_witness:
  "\<exists>q t. resolve_provider_routing sovereign_turn (Some ''openrouter/x'') False host = (Inr q, t) \<and>
     host_route ''openrouter'' ''api'' False \<in> set (re_providers q) \<and>
     guard_dispatch sovereign_turn ''openrouter:api'' (Some ''x'') ''get_response'' False [] t = (None, t)"
proof -
  have "map_sum (\<lambda>_. ()) re_providers (fst (resolve_provider_routing sovereign_turn (Some ''openrouter/x'') False host)) =
      Inr [host_route ''openrouter'' ''api'' False]" by code_simp
  then obtain q where "fst (resolve_provider_routing sovereign_turn (Some ''openrouter/x'') False host) = Inr q"
    and p: "host_route ''openrouter'' ''api'' False \<in> set (re_providers q)"
    by (cases "fst (resolve_provider_routing sovereign_turn (Some ''openrouter/x'') False host)") auto
  then obtain t where q: "resolve_provider_routing sovereign_turn (Some ''openrouter/x'') False host = (Inr q, t)"
    by (metis prod.collapse)
  have m: "\<exists>m. Some ''openrouter/x'' = Some m \<and> CHR ''/'' \<in> set m" by simp
  have "host = policy_run host []" by simp
  from chosen_routes_pass_the_guard [OF host_new host_named this q p] m q p show ?thesis
    by (auto simp: host_route_def composite_def)
qed

lemma refusals_only_leave_a_record_witness:
  "\<exists>rf t. set_model_preference agent_turn ''gpt'' (Some ''openrouter'') None False host = (Some (Refused rf), t) \<and>
     refusal_recorded agent_turn Mandate_Write \<lparr>sl_vendor = Some ''openrouter'', sl_route = None, sl_model = Some ''gpt''\<rparr>
       (agent_provenance ''resolve_model_preference'' agent_turn) rf host t \<and> ps_preference t = ps_preference host"
proof -
  have "map_option (\<lambda>e. case e of Refused rf \<Rightarrow> rf_code rf = OUTSIDE_APPROVED_CHAIN | _ \<Rightarrow> False)
      (fst (set_model_preference agent_turn ''gpt'' (Some ''openrouter'') None False host)) = Some True" by code_simp
  then obtain e where e: "fst (set_model_preference agent_turn ''gpt'' (Some ''openrouter'') None False host) = Some e"
    "case e of Refused rf \<Rightarrow> rf_code rf = OUTSIDE_APPROVED_CHAIN | _ \<Rightarrow> False" by auto
  then obtain rf where "fst (set_model_preference agent_turn ''gpt'' (Some ''openrouter'') None False host) = Some (Refused rf)"
    by (cases e) simp_all
  then obtain t where r: "set_model_preference agent_turn ''gpt'' (Some ''openrouter'') None False host = (Some (Refused rf), t)"
    by (metis prod.collapse)
  have w: "current_override_writer ''resolve_model_preference'' agent_turn = agent_provenance ''resolve_model_preference'' agent_turn"
    by (simp add: current_override_writer_def agent_turn_def)
  have "refusal_recorded agent_turn Mandate_Write \<lparr>sl_vendor = Some ''openrouter'', sl_route = None, sl_model = Some ''gpt''\<rparr>
       (agent_provenance ''resolve_model_preference'' agent_turn) rf host t \<and> t = host\<lparr>ps_history := ps_history t\<rparr> \<and>
     rf_model rf = Some ''gpt'' \<and> rf_source rf = Some AGENT"
    using refusals_only_leave_a_record [where cx = agent_turn and m = "''gpt''" and v = "Some ''openrouter''" and r = None
        and chk = False and s = host and rf = rf and t = t and k = Mandate_Write
        and sel = "\<lparr>sl_vendor = Some ''openrouter'', sl_route = None, sl_model = Some ''gpt''\<rparr>"
        and w = "agent_provenance ''resolve_model_preference'' agent_turn"] r w
    by (simp add: agent_provenance_def)
  with r show ?thesis by (auto dest: arg_cong [where f = ps_preference])
qed

subsection \<open>Where the two computations of routing part\<close>

text \<open>
  An override that is a bare model id does not narrow the routes, and the mandate is not consulted; the
  authorization computed beside it still reads the mandate. With a mandate on one route in force the call
  counts as an explicit selection of that route, and the refusal of paid fallbacks is off: the loop bills
  \<open>openai:api\<close> after the plan route fails, although the configuration forbids it.
\<close>

definition pinned_host :: policy_state where
  "pinned_host = policy_run host [Prefer sovereign_turn ''gpt'' (Some ''openai'') (Some ''plan'') True]"

lemma bare_override_with_mandate_bills:
  "map_sum (\<lambda>_. ()) (map rt_name \<circ> rl_dispatched)
     (fst (get_response agent_turn (Some ''gpt-5'') False (\<lambda>_. True) (\<lambda>_ _. ''gpt-5'') fails pinned_host)) =
     Inr [''openai:plan'', ''openai:api''] \<and>
   map_sum (\<lambda>_. ()) (map rt_name \<circ> rl_dispatched)
     (fst (get_response agent_turn (Some ''gpt-5'') False (\<lambda>_. True) (\<lambda>_ _. ''gpt-5'') fails host)) =
     Inr [''openai:plan'']"
  by code_simp

text \<open>
  An override \<open>vendor:route\<close> without a model counts as an explicit selection, but routing takes it for a
  model id and returns every route.
\<close>

lemma route_override_is_not_followed:
  "map_sum (\<lambda>_. ()) (\<lambda>r. (map rt_name (re_providers r), re_target r, rm_explicit (re_meta r)))
     (fst (resolve_provider_routing agent_turn (Some ''openai:api'') False host)) =
     Inr ([''openai:plan'', ''openai:api'', ''openrouter:api''], Some ''openai:api'', True)"
  by code_simp

text \<open>
  So the call may be refused half way: \<open>openai\<close> alone is an override that names a known vendor, it is
  admitted, and routing returns the route of another vendor, which the guard refuses.
\<close>

lemma bare_override_is_refused_at_dispatch:
  "map_sum (\<lambda>_. ()) (map rt_name \<circ> re_providers)
     (fst (resolve_provider_routing agent_turn (Some ''openai'') False host)) =
     Inr [''openai:plan'', ''openai:api'', ''openrouter:api''] \<and>
   map_option (\<lambda>e. case e of Refused rf \<Rightarrow> (rf_code rf, rf_vendor rf) | _ \<Rightarrow> (PROVIDER_DENIED, None))
     (fst (guard_dispatch agent_turn ''openrouter:api'' (Some ''openai'') ''get_response'' False [] host)) =
     Some (OUTSIDE_APPROVED_CHAIN, Some ''openrouter'')"
  by code_simp

text \<open>
  In a scope whose named writer the chain does not narrow the guard asks for no name: a Sovereign's override
  \<open>openai:api\<close> is dispatched to \<open>openrouter:api\<close> when only that catalog has the model. The docstring of
  \<open>_dispatch_authority\<close> speaks of the writer of an override in force that names the route.
\<close>

lemma scope_writer_opens_every_route:
  "map_sum (\<lambda>_. ()) (map rt_name \<circ> rl_dispatched)
     (fst (get_response sovereign_turn (Some ''openai:api'') False (\<lambda>p. rt_vendor p = Some ''openrouter'') (\<lambda>_ _. ''m'') fails host)) =
     Inr [''openrouter:api''] \<and>
   \<not> in_declared_chain host_config (Some ''openrouter'')"
  by code_simp

text \<open>A fallback is served by a route that was disabled after a permanent authentication failure.\<close>

lemma fallback_uses_a_disabled_route:
  "map_sum (\<lambda>_. ()) (map rt_name \<circ> rl_dispatched)
     (fst (get_response agent_turn None False (\<lambda>_. True) (\<lambda>_ _. ''m'') fails
       (policy_run host [Prefer agent_turn ''gpt'' (Some ''openai'') (Some ''plan'') True, Fall_Back agent_turn ''mini'' (Some ''openai:api''),
          Auth_Failed ''openai:plan'' ''401'', Auth_Failed ''openai:api'' ''401'']))) =
     Inr [''openai:api'']"
  by code_simp

end
