(* ===== verification/Spec2Isabelle.thy ===== *)
theory Spec2Isabelle
  imports Context_Commit Async_RWLock Lock_Manager Delegated_Wallet Stop_Circuit Cron Failure_Streak
    Constitution Start_Order Paged_Text Wait_Registry Ceremony Retention
    Delivery_Halted Route_Promises Lease_Promises Policy_Promises
begin

text \<open>
  Kestrel Sovereign is a host for long-lived agents written in Python. This development models the
  parts of \<open>src/kestrel_sovereign\<close> that decide, count and order things: money, tokens, locks,
  schedules, stops and the constitution. Each theory states which file it models; definitions keep
  the names of the functions they translate.

  \<^bold>\<open>How the parts interact.\<close> A turn of an agent assembles its context under a token budget
  (\<open>Token_Budget\<close>, charged by the commits of \<open>Context_Commit\<close>) while it holds the locks of the
  signal dispatcher (\<open>Lock_Manager\<close>) and of the conversation (\<open>Async_RWLock\<close>). An agent may spawn a
  child with a slice of its wallet (\<open>Delegated_Wallet\<close>) and a narrowed constitution
  (\<open>Constitution\<close>). Peers may stop a turn, within the limit of a circuit breaker
  (\<open>Stop_Circuit\<close>). An agent that waits polls the owner of a kind (\<open>Wait_Registry\<close>). What an agent
  signs is checked under the keys in force at its date (\<open>Succession\<close> over \<open>Signatures\<close> over
  \<open>Multikey\<close>), its backups are thinned by class (\<open>Retention\<close>), and what it
  sends out passes through a durable queue (\<open>Delivery_Queue\<close>). The scheduler computes run times
  (\<open>Cron\<close>) and records consecutive failures (\<open>Failure_Streak\<close>). When the host leases private
  inference, the coordinator of leases (\<open>Inference_Leases\<close>) tells the model service which route to use,
  and the route pins the client of each call until the call is over (\<open>Remote_Route\<close>). Which provider a
  call may reach is settled by the provider policy (\<open>Provider_Policy\<close>), which guards every dispatch;
  the choice of the routes and the loop over the fallbacks (\<open>Provider_Routing\<close>) run on top of it.

  \<^bold>\<open>Theories.\<close>
  \<^item> \<open>Prelude\<close>: Python dictionaries as association lists, products of integers with doubles computed
    exactly, and the locale \<open>guarded_machine\<close> (a step that keeps an invariant keeps it along runs).
  \<^item> \<open>Text\<close>: the string operations of Python on Latin-1 text, \<open>int(s)\<close> and \<open>str(n)\<close>.
  \<^item> \<open>Token_Budget\<close> (\<open>agent/token_budget.py\<close>): allocation, the elastic pool and the mandatory floor;
    the budget never promises more than the window, provided no section is used after it was finalized.
  \<^item> \<open>Context_Commit\<close> (\<open>agent/context_manager.py\<close>, \<open>agent/context_stages.py\<close>): the commit steps,
    proved once in the locale \<open>section_account\<close> and interpreted on both budgets.
  \<^item> \<open>Async_RWLock\<close> (\<open>_async_rwlock.py\<close>): tasks as a step relation; exclusion, no lost wake-up,
    writer preference.
  \<^item> \<open>Lock_Manager\<close> (\<open>signals/lock_manager.py\<close>): ordered acquisition, nested to any depth; the locale
    \<open>acquisition_order\<close> gives deadlock freedom as long as nested acquisitions follow the order, which the
    manager does not check; exact waiter counts and delegated ownership.
  \<^item> \<open>Delegated_Wallet\<close> (\<open>spawn/delegated_wallet.py\<close>): spending, fencing, reconciliation and refund of
    a child's budget, segmented at the awaits, with the provider's ledger beside it.
  \<^item> \<open>Stop_Circuit\<close> (\<open>stop/circuit.py\<close>): the durable circuit breaker as functions of its tables.
  \<^item> \<open>Cron\<close> (\<open>features/scheduler/cron.py\<close>): parser, matcher and the search for the next run.
  \<^item> \<open>Failure_Streak\<close> (\<open>features/scheduler/failure_streak.py\<close>, \<open>outcome.py\<close>): streaks and backoff.
  \<^item> \<open>Constitution\<close> (\<open>constitution/hierarchy.py\<close>, \<open>spawn/scoped_constitution.py\<close>): grants, layers, the
    iron rule, and the sanitiser of what a child is shown.
  \<^item> \<open>Start_Order\<close> (\<open>host_features/start_order.py\<close>): the requirement scan of an object graph and the
    provider-before-consumer order; the locale \<open>placed_features\<close> carries the graph argument.
  \<^item> \<open>Paged_Text\<close> (\<open>features/paged_text.py\<close>): pages and batches of a text under the cap on tool results.
  \<^item> \<open>Wait_Registry\<close> (\<open>waits/engine.py\<close>): owners of wait kinds as stacks, refined to a list of live
    claims by the locale \<open>simulation\<close>, the reference parser, and the poll loop, which always returns.
  \<^item> \<open>Multikey\<close> (\<open>security/multikey.py\<close>, \<open>crypto_suite.py\<close>): varints and base58btc on bytes, and the
    strings that carry public keys; each encoding is exact in both directions.
  \<^item> \<open>Signatures\<close> (\<open>security/signature_verification.py\<close>, \<open>verify_policy.py\<close>): acceptance of a
    signature array is equivalent to signatures by the published keys that the policy wants.
  \<^item> \<open>Succession\<close> (\<open>identity/succession.py\<close>, \<open>succession_chain.py\<close>): statements, chains, the identity
    in force and artifacts; after a rotation only its new post-quantum keys convince.
  \<^item> \<open>Ceremony\<close> (\<open>identity/succession.py\<close>): signing, countersigning, finalizing and archiving a
    statement; what the ceremony produces verifies, before and after archival.
  \<^item> \<open>Delivery_Queue\<close>, \<open>Delivery_Safety\<close>, \<open>Delivery_Promises\<close> (\<open>features/delivery/queue.py\<close>): the durable
    outbound queue as functions of its tables, the invariant all operations keep, and what it gives
    over time: one delivery per key, bounded attempts, restorable dead letters, isolated agents.
  \<^item> \<open>Delivery_Halted\<close> (the same file): the states that a burial or a retry leaves when it is cut off in
    a transaction that joined its caller's; they deliver nothing and the next call completes them.
  \<^item> \<open>Remote_Route\<close>, \<open>Route_Safety\<close>, \<open>Route_Promises\<close> (\<open>llm/remote_backend.py\<close>): the private
    inference route of the model service, cut into steps at its awaits; the invariant \<open>route_sound\<close> of
    every interleaving, and from it: a call keeps the client it pinned, and every client is closed.
  \<^item> \<open>Inference_Leases\<close>, \<open>Lease_Safety\<close>, \<open>Lease_Promises\<close> (\<open>llm/inference_leases.py\<close>): the durable
    record of a lease, its transitions and the routes that follow it, with every exception of storage,
    provider and route; the provider is asked only with the plan stored, and no route outlives its lease.
  \<^item> \<open>Provider_Policy\<close>, \<open>Provider_Routing\<close>, \<open>Policy_Safety\<close>, \<open>Policy_Promises\<close>
    (\<open>llm/provider_policy.py\<close>, \<open>llm/service.py\<close>, \<open>llm/mandate.py\<close>): declared chains, deny-lists and
    the ledger of selections; admission of an override, the guard before each dispatch, and the loop
    over the routes. What is dispatched is permitted, where permission is stated independently of the
    guard (\<open>file_names_route\<close>, \<open>text_names\<close>, \<open>chain_admits\<close>), and an agent cannot leave the declared chain.
  \<^item> \<open>Retention\<close> (\<open>storage/sync/retention.py\<close>): which backups are deleted, for every policy.

  \<^bold>\<open>Conventions.\<close> An exception is a value of a sum type, a suspension at an \<open>await\<close> is the boundary
  of a step, and a transaction is one step (but see \<open>Delivery_Halted\<close>). Python's integers are \<open>int\<close>, decimals of the wallet are
  \<open>rat\<close>, dictionaries keep insertion order. Code outside the repository (time-zone database, wallet
  providers, signature libraries, SHA-256, \<open>float\<close> of a text, the clock, DID resolution) is an argument of the definitions that use it.

  \<^bold>\<open>Bounds.\<close> The search of \<open>Cron\<close> is bounded by the code's own \<open>max_iterations\<close>; the runs of the
  state machines are lists of events of any length. Doubles are exact for windows below \<open>2 ^ 45\<close>.

  \<^bold>\<open>Not modelled.\<close> Logging, metrics, network and database failures, prompt text and rendering, the
  wire formats of the model providers, and the large orchestration modules that only call the parts above.
\<close>

end
